(* ===== verification/Prelude.thy ===== *)
theory Prelude
  imports Main "HOL-Library.Word"
begin

unbundle bit_operations_syntax

text \<open>
  Shared vocabulary of the development: the machine types the sources use, the faults a C or C++
  operation can end in, checked signed arithmetic, and generic lemmas on lists and results.

  A fallible operation returns a value of \<open>c_fault + 'a\<close>: \<open>Inr\<close> is the value the code computes,
  \<open>Inl\<close> the way it fails. \<open>AssertFailed\<close> is the exception thrown by the repository's
  \<open>Assert\<close> macro, \<open>InvalidData\<close> another exception the code throws, and the remaining faults
  are operations on which the language gives no result: signed overflow, division by zero and access
  outside an object.
\<close>

named_theorems result_simps \<open>computing with results of fallible operations\<close>

type_synonym byte = "8 word"
type_synonym u32 = "32 word"
type_synonym u64 = "64 word"

datatype c_fault =
  AssertFailed
| InvalidData
| IntOverflow
| DivideByZero
| OutOfBounds

type_synonym 'a result = "c_fault + 'a"

section \<open>Results\<close>

definition bindE :: "'a result \<Rightarrow> ('a \<Rightarrow> 'b result) \<Rightarrow> 'b result" where
  "bindE r f = (case r of Inl e \<Rightarrow> Inl e | Inr x \<Rightarrow> f x)"

definition guardE :: "bool \<Rightarrow> c_fault \<Rightarrow> unit result" where
  "guardE b e = (if b then Inr () else Inl e)"

lemma bindE_simps [simp, result_simps]:
  "bindE (Inr x) f = f x"
  "bindE (Inl e) f = Inl e"
  by (simp_all add: bindE_def)

lemma bindE_eq_Inr [result_simps]:
  "bindE r f = Inr y \<longleftrightarrow> (\<exists>x. r = Inr x \<and> f x = Inr y)"
  by (cases r) (auto simp: bindE_def)

lemma bindE_InrE [elim]:
  assumes "bindE r f = Inr y"
  obtains x where "r = Inr x" and "f x = Inr y"
  using assms by (auto simp: bindE_eq_Inr)

lemma guardE_simps [simp, result_simps]:
  "guardE True e = Inr ()"
  "guardE False e = Inl e"
  "guardE b e = Inr u \<longleftrightarrow> b"
  by (auto simp: guardE_def)

text \<open>A loop over a list whose body may fail: the first failure ends it.\<close>

fun foldE :: "('a \<Rightarrow> 's \<Rightarrow> 's result) \<Rightarrow> 'a list \<Rightarrow> 's \<Rightarrow> 's result" where
  "foldE f [] s = Inr s"
| "foldE f (x # xs) s = bindE (f x s) (foldE f xs)"

lemma foldE_append [result_simps]:
  "foldE f (xs @ ys) s = bindE (foldE f xs s) (foldE f ys)"
  by (induction xs arbitrary: s) (auto simp: bindE_def split: sum.splits)

lemma foldE_cong_Inr:
  assumes "\<And>x s. x \<in> set xs \<Longrightarrow> f x s = Inr (g x s)"
  shows "foldE f xs s = Inr (fold g xs s)"
  using assms by (induction xs arbitrary: s) auto

text \<open>An invariant of a fallible loop.\<close>

lemma foldE_invariant:
  assumes "foldE f xs s = Inr t" and "P s"
    and "\<And>x s s'. x \<in> set xs \<Longrightarrow> P s \<Longrightarrow> f x s = Inr s' \<Longrightarrow> P s'"
  shows "P t"
  using assms by (induction xs arbitrary: s) (auto simp: bindE_eq_Inr)

section \<open>Checked signed arithmetic\<close>

text \<open>
  \<open>int\<close> and \<open>int64_t\<close> values are mathematical integers kept in range: an operation whose exact
  result does not fit is signed overflow. Division truncates towards zero, as in C and C++.
\<close>

definition int32_range :: "int \<Rightarrow> bool" where
  "int32_range x \<longleftrightarrow> - (2 ^ 31) \<le> x \<and> x < 2 ^ 31"

definition int64_range :: "int \<Rightarrow> bool" where
  "int64_range x \<longleftrightarrow> - (2 ^ 63) \<le> x \<and> x < 2 ^ 63"

definition i32 :: "int \<Rightarrow> int result" where
  "i32 x = (if int32_range x then Inr x else Inl IntOverflow)"

definition i64 :: "int \<Rightarrow> int result" where
  "i64 x = (if int64_range x then Inr x else Inl IntOverflow)"

definition trunc_div :: "int \<Rightarrow> int \<Rightarrow> int" where
  "trunc_div a b = sgn a * sgn b * (\<bar>a\<bar> div \<bar>b\<bar>)"

definition div64 :: "int \<Rightarrow> int \<Rightarrow> int result" where
  "div64 a b = (if b = 0 then Inl DivideByZero else i64 (trunc_div a b))"

lemma i32_eq_Inr [simp, result_simps]: "i32 x = Inr y \<longleftrightarrow> int32_range x \<and> y = x"
  by (auto simp: i32_def)

lemma i64_eq_Inr [simp, result_simps]: "i64 x = Inr y \<longleftrightarrow> int64_range x \<and> y = x"
  by (auto simp: i64_def)

lemma i32_Inr: "int32_range x \<Longrightarrow> i32 x = Inr x"
  by simp

lemma i64_Inr: "int64_range x \<Longrightarrow> i64 x = Inr x"
  by simp

lemma int32_imp_int64: "int32_range x \<Longrightarrow> int64_range x"
  by (auto simp: int32_range_def int64_range_def)

lemma int64_rangeI: "0 \<le> x \<Longrightarrow> x < 2 ^ 63 \<Longrightarrow> int64_range x"
  by (simp add: int64_range_def)

lemma int32_rangeI: "0 \<le> x \<Longrightarrow> x < 2 ^ 31 \<Longrightarrow> int32_range x"
  by (simp add: int32_range_def)

lemma trunc_div_nonneg: "0 \<le> a \<Longrightarrow> 0 < b \<Longrightarrow> trunc_div a b = a div b"
  by (cases "a = 0") (simp_all add: trunc_div_def sgn_if)

lemma div64_pos:
  assumes "0 \<le> a" and "a < 2 ^ 63" and "0 < b"
  shows "div64 a b = Inr (a div b)"
proof -
  have "a div b \<le> a div 1" using assms by (intro zdiv_mono2) auto
  then have "a div b \<le> a" by simp
  moreover have "0 \<le> a div b" using assms by (simp add: pos_imp_zdiv_nonneg_iff)
  ultimately have "int64_range (a div b)"
    using assms by (intro int64_rangeI) auto
  with assms show ?thesis
    by (simp add: div64_def trunc_div_nonneg i64_def)
qed

section \<open>Words\<close>

lemma word_one_le: "(1 :: 'a::len word) \<le> x \<longleftrightarrow> x \<noteq> 0"
  by (simp add: not_less [symmetric])

section \<open>Lists\<close>

lemma length_takeWhile_lt: "x \<in> set xs \<Longrightarrow> \<not> P x \<Longrightarrow> length (takeWhile P xs) < length xs"
  by (induction xs) auto

text \<open>Access to a vector by index; outside of it there is no result.\<close>

definition vec_at :: "'a list \<Rightarrow> int \<Rightarrow> 'a result" where
  "vec_at xs i = (if 0 \<le> i \<and> i < int (length xs) then Inr (xs ! nat i) else Inl OutOfBounds)"

lemma vec_at_nat [simp]: "i < length xs \<Longrightarrow> vec_at xs (int i) = Inr (xs ! i)"
  by (simp add: vec_at_def)

end
