(* ===== verification/Lotto_Bet.thy ===== *)
theory Lotto_Bet
  imports Prelude
begin

text \<open>
  Bets of the lottery: the wire form of a bet (\<open>lotto/CBetData.h\<close>), the bet object
  (\<open>lotto/CBet.h\<close>, \<open>lotto/CBet.cpp\<close>) and its two games, 15-select-6
  (\<open>lotto/CBet156.cpp\<close>) and 20-select-5 with 10-select-2 (\<open>lotto/CBetMulity.cpp\<close>).

  The C++ classes form one record. The field \<open>cls\<close> is the dynamic class of the object, on which
  the virtual functions dispatch; \<open>vRed\<close> and \<open>vBlue\<close> are used by the second game only. A
  \<open>std::map\<close> from reward types to amounts is a partial function that is iterated in key order.
\<close>

section \<open>Data\<close>

datatype BET_TYPE = TYPE_15_6 | TYPE_MULILT | typenull

datatype RWD_TYPE = TOP_1 | TOP_2 | TOP_3 | TOP_4 | TOP_5 | TOP_null

text \<open>The numeric value of an enumerator; \<open>std::map\<close> orders its keys by it.\<close>

fun rwd_val :: "RWD_TYPE \<Rightarrow> nat" where
  "rwd_val TOP_1 = 0" | "rwd_val TOP_2 = 1" | "rwd_val TOP_3 = 2"
| "rwd_val TOP_4 = 3" | "rwd_val TOP_5 = 4" | "rwd_val TOP_null = 5"

lemma rwd_val_inj: "rwd_val a = rwd_val b \<longleftrightarrow> a = b"
  by (cases a; cases b) simp_all

instantiation RWD_TYPE :: linorder
begin
definition less_eq_RWD_TYPE where "a \<le> b \<longleftrightarrow> rwd_val a \<le> rwd_val b"
definition less_RWD_TYPE where "a < b \<longleftrightarrow> rwd_val a < rwd_val b"
instance
  by standard (auto simp: less_eq_RWD_TYPE_def less_RWD_TYPE_def rwd_val_inj [symmetric])
end

definition rwd_types :: "RWD_TYPE list" where
  "rwd_types = [TOP_1, TOP_2, TOP_3, TOP_4, TOP_5, TOP_null]"

lemma set_rwd_types [simp]: "set rwd_types = UNIV"
proof -
  have "x \<in> set rwd_types" for x by (cases x) (simp_all add: rwd_types_def)
  then show ?thesis by auto
qed

instance RWD_TYPE :: finite
  by standard (metis set_rwd_types List.finite_set)

lemma rwd_types_sorted: "sorted_wrt (<) rwd_types"
  by (simp add: rwd_types_def less_RWD_TYPE_def)

lemma distinct_rwd_types [simp]: "distinct rwd_types"
  by (simp add: rwd_types_def)

text \<open>The entries of a \<open>std::map\<close> over reward types, in iteration order.\<close>

definition map_items :: "(RWD_TYPE \<rightharpoonup> 'v) \<Rightarrow> (RWD_TYPE \<times> 'v) list" where
  "map_items m = List.map_filter (\<lambda>k. map_option (Pair k) (m k)) rwd_types"

lemma set_map_items [simp]: "set (map_items m) = {(k, v). m k = Some v}"
  by (force simp: map_items_def List.map_filter_def image_iff)

datatype bet_class = Class_CBet | Class_CBet_15_6 | Class_CBetMulity

record CBet =
  cls :: bet_class
  btype :: BET_TYPE
  address :: "byte list"
  vch :: "byte list"
  vLuckyStar :: "byte list"
  rewardmap :: "RWD_TYPE \<rightharpoonup> int"
  nValue :: int
  vRed :: "byte list"
  vBlue :: "byte list"

definition gSplitFlag :: byte where
  "gSplitFlag = 0xFF"

definition nMinBet :: int where
  "nMinBet = 100000"

definition new_CBet :: "bet_class \<Rightarrow> CBet" where
  "new_CBet c = \<lparr>cls = c, btype = typenull, address = replicate 20 0, vch = [], vLuckyStar = [],
     rewardmap = Map.empty, nValue = 0, vRed = [], vBlue = []\<rparr>"

section \<open>The wire form of a bet\<close>

definition ADRESSLEN :: nat where
  "ADRESSLEN = 20"

definition GetType :: "byte list \<Rightarrow> BET_TYPE result" where
  "GetType d = (case d of
       [] \<Rightarrow> Inr TYPE_15_6
     | b # _ \<Rightarrow> bindE (guardE (unat b < 2) AssertFailed)
         (\<lambda>_. Inr (if b = 0 then TYPE_15_6 else TYPE_MULILT)))"

definition GetAddr :: "byte list \<Rightarrow> byte list result" where
  "GetAddr d =
     (if length d < ADRESSLEN then Inr (replicate 20 0)
      else bindE (guardE (1 + ADRESSLEN \<le> length d) OutOfBounds)
        (\<lambda>_. bindE (guardE (unat (hd d) < 2) AssertFailed)
        (\<lambda>_. Inr (take ADRESSLEN (drop 1 d)))))"

definition GetSelectV :: "byte list \<Rightarrow> byte list result" where
  "GetSelectV d =
     (if length d < ADRESSLEN then Inr []
      else bindE (guardE (unat (hd d) < 2) AssertFailed)
        (\<lambda>_. bindE (guardE (1 + ADRESSLEN \<le> length d) OutOfBounds)
        (\<lambda>_. Inr (drop (1 + ADRESSLEN) d))))"

definition input_betdata :: "CBet \<Rightarrow> byte list \<Rightarrow> CBet result" where
  "input_betdata b d =
     bindE (GetType d) (\<lambda>t.
     bindE (GetAddr d) (\<lambda>a.
     bindE (GetSelectV d) (\<lambda>v.
     Inr (b\<lparr>btype := t, address := a, vch := v\<rparr>))))"

definition input_lucky :: "CBet \<Rightarrow> byte list \<Rightarrow> CBet result" where
  "input_lucky b v = bindE (guardE (vLuckyStar b = []) AssertFailed)
     (\<lambda>_. Inr (b\<lparr>vLuckyStar := v\<rparr>))"

definition input_value :: "CBet \<Rightarrow> int \<Rightarrow> CBet" where
  "input_value b v = b\<lparr>nValue := v\<rparr>"

section \<open>Counting tickets\<close>

function factorial :: "int \<Rightarrow> int result" where
  "factorial n = (if n \<le> 1 then Inr 1 else bindE (factorial (n - 1)) (\<lambda>r. i64 (n * r)))"
  by pat_completeness auto
termination
  by (relation "measure nat") auto

declare factorial.simps [simp del]

text \<open>Conversion of an \<open>int64_t\<close> to the \<open>int\<close> result type keeps the low 32 bits.\<close>

definition narrow32 :: "int \<Rightarrow> int" where
  "narrow32 x = (x + 2 ^ 31) mod 2 ^ 32 - 2 ^ 31"

definition MselectN :: "int \<Rightarrow> int \<Rightarrow> int result" where
  "MselectN m n =
     bindE (guardE (0 \<le> m \<and> 0 \<le> n) AssertFailed) (\<lambda>_.
     if n = 0 then Inr 1
     else if m < n then Inr 0
     else if m < 1 \<or> m = n then Inr 1
     else bindE (factorial m) (\<lambda>fm.
          bindE (factorial (m - n)) (\<lambda>fd.
          bindE (factorial n) (\<lambda>fn.
          bindE (i64 (fd * fn)) (\<lambda>d.
          bindE (div64 fm d) (\<lambda>q. Inr (narrow32 q)))))))"

section \<open>The 15-select-6 game\<close>

definition READ_MAX156_NO :: byte where
  "READ_MAX156_NO = 15"

definition getTotalBer_156 :: "CBet \<Rightarrow> int result" where
  "getTotalBer_156 b = bindE (guardE (btype b = TYPE_15_6) AssertFailed)
     (\<lambda>_. MselectN (int (length (vch b))) 6)"

definition READ_MAX_NO :: byte where "READ_MAX_NO = 20"
definition READ_MAX_NICE_NO :: nat where "READ_MAX_NICE_NO = 5"
definition BLUE_MAX_NICE_NO :: nat where "BLUE_MAX_NICE_NO = 2"
definition BLUE_MAX_NO :: byte where "BLUE_MAX_NO = 10"

text \<open>\<open>std::find\<close> of the separator: the bytes before it, and whether there is one.\<close>

definition before_flag :: "byte list \<Rightarrow> byte list" where
  "before_flag v = takeWhile (\<lambda>b. b \<noteq> gSplitFlag) v"

definition after_flag :: "byte list \<Rightarrow> byte list" where
  "after_flag v = drop (length (before_flag v) + 1) v"

definition getTotalBer_Mulity :: "CBet \<Rightarrow> int result" where
  "getTotalBer_Mulity b =
     (let it = int (length (before_flag (vch b))) in
      bindE (MselectN it (int READ_MAX_NICE_NO)) (\<lambda>r.
      bindE (MselectN (int (length (vch b)) - (it + 1)) (int BLUE_MAX_NICE_NO)) (\<lambda>s.
      i32 (r * s))))"

definition getTotalBer :: "CBet \<Rightarrow> int result" where
  "getTotalBer b = (case cls b of
       Class_CBet \<Rightarrow> Inl InvalidData
     | Class_CBet_15_6 \<Rightarrow> getTotalBer_156 b
     | Class_CBetMulity \<Rightarrow> getTotalBer_Mulity b)"

definition min_bet_ok :: "CBet \<Rightarrow> bool result" where
  "min_bet_ok b = bindE (getTotalBer b) (\<lambda>t. bindE (i64 (nMinBet * t)) (\<lambda>m. Inr (\<not> m \<ge> nValue b)))"

text \<open>\<open>std::unique\<close> drops adjacent repetitions; the range is unchanged when there is none.\<close>

definition adjacent_unique :: "byte list \<Rightarrow> bool" where
  "adjacent_unique v \<longleftrightarrow> length (remdups_adj v) = length v"

definition CBet_IsValid :: "CBet \<Rightarrow> bool result" where
  "CBet_IsValid b =
     (if \<not> adjacent_unique (vch b) then Inr False
      else if btype b = typenull then Inr False
      else min_bet_ok b)"

definition CBet_15_6_IsValid :: "CBet \<Rightarrow> bool result" where
  "CBet_15_6_IsValid b =
     bindE (guardE (btype b = TYPE_15_6) AssertFailed) (\<lambda>_.
     if length (vch b) > 15 \<or> length (vch b) < 6 then Inr False
     else if list_ex (\<lambda>n. n > READ_MAX156_NO) (vch b) then Inr False
     else if list_ex (\<lambda>n. n < 1) (vch b) then Inr False
     else if vch b \<noteq> sort (vch b) then Inr False
     else CBet_IsValid b)"

text \<open>\<open>rewardmap[k] *= v\<close> for the keys present.\<close>

definition scale_rewards :: "int \<Rightarrow> (RWD_TYPE \<rightharpoonup> int) \<Rightarrow> (RWD_TYPE \<rightharpoonup> int) result" where
  "scale_rewards v m =
     foldE (\<lambda>k m. case m k of None \<Rightarrow> Inr m
                  | Some c \<Rightarrow> bindE (i64 (c * v)) (\<lambda>x. Inr (m(k \<mapsto> x))))
       [TOP_1, TOP_2, TOP_3, TOP_4, TOP_5] m"

text \<open>The loop that counts the selected numbers found among the lucky ones.\<close>

definition lucky_count :: "byte list \<Rightarrow> byte list \<Rightarrow> nat" where
  "lucky_count sel luck = length (filter (\<lambda>n. n \<in> set luck) sel)"

definition put_if_pos :: "RWD_TYPE \<Rightarrow> int \<Rightarrow> (RWD_TYPE \<rightharpoonup> int) \<Rightarrow> (RWD_TYPE \<rightharpoonup> int)" where
  "put_if_pos k v m = (if v > 0 then m(k \<mapsto> v) else m)"

definition mul2E :: "int result \<Rightarrow> int result \<Rightarrow> int result" where
  "mul2E a b = bindE a (\<lambda>x. bindE b (\<lambda>y. i32 (x * y)))"

definition add2E :: "int result \<Rightarrow> int result \<Rightarrow> int result" where
  "add2E a b = bindE a (\<lambda>x. bindE b (\<lambda>y. i32 (x + y)))"

definition CBet_15_6_CreateRewardMap :: "CBet \<Rightarrow> CBet result" where
  "CBet_15_6_CreateRewardMap b =
     (let luckycount = int (lucky_count (vch b) (vLuckyStar b));
          selectCount = int (length (vch b)) in
      bindE (bindE (getTotalBer b) (div64 (nValue b))) (\<lambda>npeerBetValue.
      bindE (mul2E (MselectN luckycount 6) (MselectN (selectCount - luckycount) 0)) (\<lambda>ktop1.
      bindE (mul2E (MselectN luckycount 5) (MselectN (selectCount - luckycount) 1)) (\<lambda>ktop2.
      bindE (mul2E (MselectN luckycount 4) (MselectN (selectCount - luckycount) 2)) (\<lambda>ktop3.
      bindE (scale_rewards npeerBetValue
               (put_if_pos TOP_3 ktop3 (put_if_pos TOP_2 ktop2 (put_if_pos TOP_1 ktop1 Map.empty))))
        (\<lambda>m. Inr (b\<lparr>rewardmap := m\<rparr>)))))))"

definition multiplying_156 :: "int list" where
  "multiplying_156 = [3000, 17, 2]"

definition CBet_15_6_GetMulit :: "nat \<Rightarrow> int result" where
  "CBet_15_6_GetMulit t = bindE (guardE (t \<le> 2) InvalidData) (\<lambda>_. Inr (multiplying_156 ! t))"

section \<open>The 20-select-5 and 10-select-2 game\<close>

definition SplitSelectNum :: "CBet \<Rightarrow> CBet" where
  "SplitSelectNum b =
     (if gSplitFlag \<in> set (vch b)
      then b\<lparr>vRed := sort (before_flag (vch b)), vBlue := sort (after_flag (vch b))\<rparr>
      else b)"

definition CBetMulity_IsValid :: "CBet \<Rightarrow> bool result" where
  "CBetMulity_IsValid b =
     bindE (guardE (btype b = TYPE_MULILT) AssertFailed) (\<lambda>_.
     let vselect = vch b; red = before_flag vselect; blue = after_flag vselect; len = length red in
     if length (vch b) < READ_MAX_NICE_NO + BLUE_MAX_NICE_NO \<or> length (vch b) > 31 then Inr False
     else if gSplitFlag \<notin> set vselect then Inr False
     else if len < READ_MAX_NICE_NO then Inr False
     else if length vselect - len - 1 < BLUE_MAX_NICE_NO then Inr False
     else if list_ex (\<lambda>n. n > READ_MAX_NO + 1) red then Inr False
     else if list_ex (\<lambda>n. n < 1) red then Inr False
     else if list_ex (\<lambda>n. n > BLUE_MAX_NO + 1) blue then Inr False
     else if list_ex (\<lambda>n. n < 1) blue then Inr False
     else if \<not> adjacent_unique red \<or> \<not> adjacent_unique (gSplitFlag # blue) then Inr False
     else if sort red \<noteq> red then Inr False
     else if sort blue \<noteq> blue then Inr False
     else if btype b = typenull then Inr False
     else min_bet_ok b)"

text \<open>One summand of the prize counts: \<open>i\<close> hits and \<open>i'\<close> misses among the red numbers, \<open>j\<close>
  hits and \<open>j'\<close> misses among the blue ones.\<close>

definition prize_term :: "CBet \<Rightarrow> int \<Rightarrow> int \<Rightarrow> int \<Rightarrow> int \<Rightarrow> int \<Rightarrow> int \<Rightarrow> int result" where
  "prize_term b redCount blueCount i i' j j' =
     mul2E (mul2E (mul2E (MselectN redCount i) (MselectN (int (length (vRed b)) - redCount) i'))
                  (MselectN blueCount j))
           (MselectN (int (length (vBlue b)) - blueCount) j')"

definition CalcRewardBet :: "CBet \<Rightarrow> int \<Rightarrow> int \<Rightarrow> CBet result" where
  "CalcRewardBet b redCount blueCount =
     (let t = prize_term b redCount blueCount in
      bindE (bindE (getTotalBer b) (div64 (nValue b))) (\<lambda>npeerBetValue.
      let m1 = (if redCount \<ge> 5 \<and> blueCount \<ge> 2 then (rewardmap b)(TOP_1 \<mapsto> 1) else rewardmap b) in
      bindE (add2E (t 4 1 2 0) (t 5 0 1 1)) (\<lambda>k2. let m2 = put_if_pos TOP_2 k2 m1 in
      bindE (add2E (add2E (t 4 1 1 1) (t 5 0 0 2)) (t 3 2 2 0)) (\<lambda>k3. let m3 = put_if_pos TOP_3 k3 m2 in
      bindE (add2E (add2E (t 4 1 0 2) (t 3 2 1 1)) (t 2 3 2 0)) (\<lambda>k4. let m4 = put_if_pos TOP_4 k4 m3 in
      bindE (add2E (add2E (t 3 2 0 2) (t 2 3 1 1)) (t 0 5 2 0)) (\<lambda>k5. let m5 = put_if_pos TOP_5 k5 m4 in
      bindE (scale_rewards npeerBetValue m5) (\<lambda>m. Inr (b\<lparr>rewardmap := m\<rparr>))))))))"

definition CBetMulity_CreateRewardMap :: "CBet \<Rightarrow> CBet result" where
  "CBetMulity_CreateRewardMap b =
     (if gSplitFlag \<notin> set (vLuckyStar b) then Inr b
      else if vRed b = [] \<or> vBlue b = [] then Inr b
      else
        let preLucky = sort (before_flag (vLuckyStar b));
            additinualLucky = sort (after_flag (vLuckyStar b));
            count = int (lucky_count (vRed b) preLucky);
            addnum = int (lucky_count (vBlue b) additinualLucky)
        in CalcRewardBet (b\<lparr>rewardmap := Map.empty\<rparr>) count addnum)"

definition multiplying_Mulity :: "int list" where
  "multiplying_Mulity = [210000, 1000, 30, 5, 2]"

definition CBetMulity_GetMulit :: "nat \<Rightarrow> int result" where
  "CBetMulity_GetMulit t = bindE (guardE (t < 5) AssertFailed) (\<lambda>_. Inr (multiplying_Mulity ! t))"

section \<open>Virtual dispatch\<close>

definition IsValid :: "CBet \<Rightarrow> bool result" where
  "IsValid b = (case cls b of
       Class_CBet \<Rightarrow> CBet_IsValid b
     | Class_CBet_15_6 \<Rightarrow> CBet_15_6_IsValid b
     | Class_CBetMulity \<Rightarrow> CBetMulity_IsValid b)"

definition CreateRewardMap :: "CBet \<Rightarrow> CBet result" where
  "CreateRewardMap b = (case cls b of
       Class_CBet \<Rightarrow> Inl InvalidData
     | Class_CBet_15_6 \<Rightarrow> CBet_15_6_CreateRewardMap b
     | Class_CBetMulity \<Rightarrow> CBetMulity_CreateRewardMap b)"

definition GetMulit :: "CBet \<Rightarrow> RWD_TYPE \<Rightarrow> int result" where
  "GetMulit b k = (case cls b of
       Class_CBet \<Rightarrow> Inr 0
     | Class_CBet_15_6 \<Rightarrow> CBet_15_6_GetMulit (rwd_val k)
     | Class_CBetMulity \<Rightarrow> CBetMulity_GetMulit (rwd_val k))"

definition isWinning :: "CBet \<Rightarrow> bool" where
  "isWinning b \<longleftrightarrow> map_items (rewardmap b) \<noteq> []"

end
