(* ===== verification/Lotto_Tickets.thy ===== *)
theory Lotto_Tickets
  imports Lotto_Bet
begin

text \<open>
  What a bet is worth. A bet on several numbers stands for all the tickets (sets of six numbers, or
  pairs of five red and two blue numbers) that can be formed from them. The lemmas below show that
  \<open>MselectN\<close> counts those tickets wherever its 64-bit arithmetic suffices, and that the
  reward map of a bet holds, for every prize level, the number of its tickets that hit the level
  times the stake of one ticket.
\<close>

section \<open>Factorials and binomial coefficients\<close>

lemma fact20_bound: "n \<le> 20 \<Longrightarrow> fact n \<le> (2432902008176640000::int)"
proof -
  assume "n \<le> 20"
  then have "fact n \<le> (fact 20 :: int)" by (rule fact_mono)
  also have "fact 20 = (2432902008176640000::int)" by (simp add: fact_numeral)
  finally show ?thesis .
qed

lemma factorial_int_Suc:
  "1 \<le> n \<Longrightarrow> factorial (int (Suc n)) = bindE (factorial (int n)) (\<lambda>r. i64 (int (Suc n) * r))"
  by (subst factorial.simps) simp

lemma factorial_fact: "n \<le> 20 \<Longrightarrow> factorial (int n) = Inr (fact n)"
proof (induction n)
  case 0
  then show ?case by (simp add: factorial.simps)
next
  case (Suc n)
  show ?case
  proof (cases "n = 0")
    case True
    then show ?thesis by (simp add: factorial.simps)
  next
    case False
    have "int64_range (int (Suc n) * fact n)"
      using fact20_bound [OF Suc.prems] by (intro int64_rangeI) simp_all
    with False Suc show ?thesis by (simp add: factorial_int_Suc del: of_nat_Suc)
  qed
qed

lemma factorial_overflow: "21 \<le> n \<Longrightarrow> factorial (int n) = Inl IntOverflow"
proof (induction n rule: nat_induct_at_least)
  case base
  have "factorial (int 21) = bindE (factorial (int 20)) (\<lambda>r. i64 (int 21 * r))"
    using factorial_int_Suc [of 20] by simp
  also have "\<dots> = i64 (21 * 2432902008176640000)"
    using factorial_fact [of 20] by (simp add: fact_numeral)
  finally show ?case by (simp add: i64_def int64_range_def)
next
  case (Suc n)
  then show ?case by (simp add: factorial_int_Suc del: of_nat_Suc)
qed

lemma binomial_le_pow20: "m \<le> 20 \<Longrightarrow> (m choose n) < 2 ^ 21"
proof -
  assume "m \<le> 20"
  have "(m choose n) \<le> 2 ^ m" by (rule binomial_le_pow2)
  also have "\<dots> \<le> (2::nat) ^ 20" using \<open>m \<le> 20\<close> by (intro power_increasing) auto
  finally show ?thesis by simp
qed

lemma narrow32_id: "0 \<le> x \<Longrightarrow> x < 2 ^ 31 \<Longrightarrow> narrow32 x = x"
  by (simp add: narrow32_def)

lemma MselectN_small:
  assumes "m \<le> 20"
  shows "MselectN (int m) (int n) = Inr (int (m choose n))"
proof (cases "n = 0 \<or> m \<le> n")
  case True
  then show ?thesis by (auto simp: MselectN_def)
next
  case False
  then have n: "0 < n" "n < m" by auto
  let ?d = "fact (m - n) * fact n :: int"
  have "int (fact n * fact (m - n) * (m choose n)) = int (fact m)"
    using n by (simp only: binomial_fact_lemma less_imp_le)
  then have eq: "fact m = ?d * int (m choose n)"
    by (simp only: of_nat_mult of_nat_fact ac_simps)
  have "1 \<le> (m choose n)" using n zero_less_binomial [of n m] by linarith
  then have "?d * 1 \<le> ?d * int (m choose n)" by (intro mult_left_mono) simp_all
  then have d: "0 < ?d" "?d \<le> fact m" by (simp_all only: eq) simp_all
  have f: "fact m < (2::int) ^ 63" using fact20_bound [OF assms] by simp
  have "i64 ?d = Inr ?d" using d f by (intro i64_Inr int64_rangeI) auto
  moreover have "div64 (fact m) ?d = Inr (int (m choose n))"
    using d f by (subst div64_pos) (auto simp: eq)
  moreover have "narrow32 (int (m choose n)) = int (m choose n)"
    using binomial_le_pow20 [OF assms, of n] by (intro narrow32_id) auto
  moreover have "factorial (int m - int n) = Inr (fact (m - n))"
    using n assms factorial_fact [of "m - n"] by (simp add: of_nat_diff)
  ultimately show ?thesis
    using n assms by (simp add: MselectN_def factorial_fact i64_Inr)
qed

lemma MselectN_large:
  assumes "21 \<le> m" and "0 < n" and "n < m"
  shows "MselectN (int m) (int n) = Inl IntOverflow"
  using assms by (simp add: MselectN_def factorial_overflow)

section \<open>Tickets as sets of numbers\<close>

text \<open>Subsets with a given number of elements inside and outside a set of lucky numbers.\<close>

lemma card_subsets_split:
  assumes "finite A"
  shows "card {S. S \<subseteq> A \<and> card (S \<inter> L) = i \<and> card (S - L) = j}
    = (card (A \<inter> L) choose i) * (card (A - L) choose j)"
proof -
  let ?T = "{S. S \<subseteq> A \<and> card (S \<inter> L) = i \<and> card (S - L) = j}"
  let ?P = "{P. P \<subseteq> A \<inter> L \<and> card P = i}" and ?Q = "{Q. Q \<subseteq> A - L \<and> card Q = j}"
  have un: "(P \<union> Q) \<inter> L = P" "(P \<union> Q) - L = Q" if "P \<in> ?P" "Q \<in> ?Q" for P Q
    using that by auto
  have "bij_betw (\<lambda>(P, Q). P \<union> Q) (?P \<times> ?Q) ?T"
  proof (intro bij_betw_imageI)
    show "inj_on (\<lambda>(P, Q). P \<union> Q) (?P \<times> ?Q)"
      using un by (intro inj_on_inverseI [where g = "\<lambda>S. (S \<inter> L, S - L)"]) auto
    have "S \<in> (\<lambda>(P, Q). P \<union> Q) ` (?P \<times> ?Q)" if "S \<in> ?T" for S
      using that by (intro image_eqI [where x = "(S \<inter> L, S - L)"]) auto
    then show "(\<lambda>(P, Q). P \<union> Q) ` (?P \<times> ?Q) = ?T"
      using un by auto
  qed
  then have "card ?T = card ?P * card ?Q"
    by (simp add: bij_betw_same_card [symmetric] card_cartesian_product)
  with assms show ?thesis by (simp only: n_subsets finite_Int finite_Diff disjI1)
qed
lemma card_subsets_hits:
  assumes "finite A" and "i \<le> n"
  shows "card {S. S \<subseteq> A \<and> card S = n \<and> card (S \<inter> L) = i}
    = (card (A \<inter> L) choose i) * (card (A - L) choose (n - i))"
proof -
  have "card S = n \<and> card (S \<inter> L) = i \<longleftrightarrow> card (S \<inter> L) = i \<and> card (S - L) = n - i"
    if "S \<subseteq> A" for S
  proof -
    have "card S = card (S \<inter> L) + card (S - L)"
      using that assms(1) by (intro card_Int_Diff) (auto dest: finite_subset)
    with assms(2) show ?thesis by auto
  qed
  then have "{S. S \<subseteq> A \<and> card S = n \<and> card (S \<inter> L) = i}
    = {S. S \<subseteq> A \<and> card (S \<inter> L) = i \<and> card (S - L) = n - i}"
    by blast
  with assms(1) show ?thesis by (simp only: card_subsets_split)
qed

lemma choose_prod_le: "(r choose i) * (s choose j) \<le> ((r + s) choose (i + j))"
proof -
  have "(r choose i) * (s choose (i + j - i)) \<le> (\<Sum>k\<le>i + j. (r choose k) * (s choose (i + j - k)))"
    by (rule member_le_sum) auto
  then show ?thesis by (simp add: vandermonde)
qed

section \<open>Scaling the reward map\<close>

lemma scale_fold:
  assumes "distinct ks" and "\<And>k c. k \<in> set ks \<Longrightarrow> m k = Some c \<Longrightarrow> int64_range (c * v)"
  shows "foldE (\<lambda>k m. case m k of None \<Rightarrow> Inr m
              | Some c \<Rightarrow> bindE (i64 (c * v)) (\<lambda>x. Inr (m(k \<mapsto> x)))) ks m
    = Inr (\<lambda>k. if k \<in> set ks then map_option (\<lambda>c. c * v) (m k) else m k)"
  using assms
proof (induction ks arbitrary: m)
  case Nil
  then show ?case by simp
next
  case (Cons k ks)
  show ?case
  proof (cases "m k")
    case None
    have "int64_range (d * v)" if "q \<in> set ks" "m q = Some d" for q d
      using that Cons.prems by auto
    note IH = Cons.IH [of m, OF _ this]
    show ?thesis using Cons.prems(1) None by (auto simp: IH intro!: ext)
  next
    case (Some c)
    let ?m = "m(k \<mapsto> c * v)"
    have "int64_range (c * v)" by (rule Cons.prems(2) [of k]) (use Some in auto)
    then have *: "i64 (c * v) = Inr (c * v)" by (rule i64_Inr)
    have "int64_range (d * v)" if "q \<in> set ks" "?m q = Some d" for q d
      using that Cons.prems by (auto split: if_splits)
    then have "foldE (\<lambda>k m. case m k of None \<Rightarrow> Inr m
          | Some c \<Rightarrow> bindE (i64 (c * v)) (\<lambda>x. Inr (m(k \<mapsto> x)))) ks ?m
      = Inr (\<lambda>k. if k \<in> set ks then map_option (\<lambda>c. c * v) (?m k) else ?m k)"
      using Cons.prems(1) by (intro Cons.IH) auto
    then show ?thesis
      using Cons.prems(1) Some by (auto simp: * intro!: ext)
  qed
qed

lemma scale_rewards_eq:
  assumes "\<And>k c. m k = Some c \<Longrightarrow> int64_range (c * v)" and "m TOP_null = None"
  shows "scale_rewards v m = Inr (\<lambda>k. map_option (\<lambda>c. c * v) (m k))"
proof -
  have "(if k \<in> set [TOP_1, TOP_2, TOP_3, TOP_4, TOP_5] then map_option (\<lambda>c. c * v) (m k) else m k)
    = map_option (\<lambda>c. c * v) (m k)" for k
    using assms(2) by (cases k) auto
  then show ?thesis
    unfolding scale_rewards_def using assms(1) by (subst scale_fold) auto
qed

section \<open>Well-formed selections\<close>

lemma adjacent_unique_distinct:
  assumes "sorted v" and "adjacent_unique v"
  shows "distinct v"
proof -
  have "length (remdups_adj xs) = length xs \<Longrightarrow> sorted xs \<Longrightarrow> distinct xs" for xs :: "byte list"
  proof (induction xs rule: remdups_adj.induct)
    case (3 x y xs)
    have le: "length (remdups_adj (y # xs)) \<le> length (y # xs)" by (rule remdups_adj_length)
    show ?case
    proof (cases "x = y")
      case True
      with "3.prems"(1) le show ?thesis by simp
    next
      case False
      with 3 have "distinct (y # xs)" by auto
      moreover have "x < z" if "z \<in> set (y # xs)" for z
        using that False "3.prems"(2) by (auto simp: less_le)
      ultimately show ?thesis by auto
    qed
  qed auto
  then show ?thesis using assms by (simp add: adjacent_unique_def)
qed

lemma lucky_count_card: "distinct sel \<Longrightarrow> lucky_count sel luck = card (set sel \<inter> set luck)"
  unfolding lucky_count_def
  by (metis distinct_card distinct_filter inter_set_filter Int_commute set_filter Collect_conj_eq Collect_mem_eq)

lemma miss_count_card:
  "distinct sel \<Longrightarrow> length sel - lucky_count sel luck = card (set sel - set luck)"
  using card_Diff_subset_Int [of "set sel" "set luck"]
  by (simp add: lucky_count_card distinct_card)

lemma lucky_count_le: "lucky_count sel luck \<le> length sel"
  by (simp add: lucky_count_def)

lemma MselectN_nat:
  "0 \<le> m \<Longrightarrow> m \<le> 20 \<Longrightarrow> 0 \<le> n \<Longrightarrow> MselectN m n = Inr (int (nat m choose nat n))"
  using MselectN_small [of "nat m" "nat n"] by simp

lemma valid_156D:
  assumes "CBet_15_6_IsValid b = Inr True" and "cls b = Class_CBet_15_6"
  shows "btype b = TYPE_15_6" and "6 \<le> length (vch b)" and "length (vch b) \<le> 15"
    and "distinct (vch b)" and "set (vch b) \<subseteq> {1..15}"
    and "getTotalBer b = Inr (int (length (vch b) choose 6))"
    and "nMinBet * int (length (vch b) choose 6) < nValue b"
proof -
  show t: "btype b = TYPE_15_6" and l: "6 \<le> length (vch b)" and u: "length (vch b) \<le> 15"
    using assms by (auto simp: CBet_15_6_IsValid_def bindE_eq_Inr split: if_splits)
  have s: "sort (vch b) = vch b" and v: "CBet_IsValid b = Inr True"
    using assms by (auto simp: CBet_15_6_IsValid_def bindE_eq_Inr split: if_splits)
  from v have "adjacent_unique (vch b)" by (auto simp: CBet_IsValid_def split: if_splits)
  with s show "distinct (vch b)" by (metis adjacent_unique_distinct sorted_sort)
  show "set (vch b) \<subseteq> {1..15}"
    using assms by (auto simp: CBet_15_6_IsValid_def bindE_eq_Inr list_ex_iff READ_MAX156_NO_def
        not_less word_one_le split: if_splits)
  show tot: "getTotalBer b = Inr (int (length (vch b) choose 6))"
    using t u assms(2) by (simp add: getTotalBer_def getTotalBer_156_def MselectN_nat)
  from v tot show "nMinBet * int (length (vch b) choose 6) < nValue b"
    by (auto simp: CBet_IsValid_def min_bet_ok_def bindE_eq_Inr split: if_splits)
qed

section \<open>Rewards of the 15-select-6 game\<close>

text \<open>The tickets of a selection \<open>A\<close>, and those among them with \<open>k\<close> lucky numbers.\<close>

definition tickets_156 :: "byte set \<Rightarrow> byte set set" where
  "tickets_156 A = {S. S \<subseteq> A \<and> card S = 6}"

definition level_156 :: "byte set \<Rightarrow> RWD_TYPE \<Rightarrow> byte set \<Rightarrow> bool" where
  "level_156 L k S \<longleftrightarrow> (case k of
       TOP_1 \<Rightarrow> card (S \<inter> L) = 6 | TOP_2 \<Rightarrow> card (S \<inter> L) = 5 | TOP_3 \<Rightarrow> card (S \<inter> L) = 4
     | _ \<Rightarrow> False)"

definition reward_spec_156 :: "CBet \<Rightarrow> RWD_TYPE \<rightharpoonup> int" where
  "reward_spec_156 b k =
     (let T = tickets_156 (set (vch b));
          w = card {S \<in> T. level_156 (set (vLuckyStar b)) k S}
      in if w = 0 then None else Some (int w * (nValue b div int (card T))))"

lemma card_tickets_156: "distinct v \<Longrightarrow> card (tickets_156 (set v)) = length v choose 6"
  by (simp add: tickets_156_def n_subsets distinct_card)

lemma card_level_156:
  assumes "distinct v" and "i \<le> 6"
  shows "card {S \<in> tickets_156 (set v). card (S \<inter> set luck) = i}
    = (lucky_count v luck choose i) * ((length v - lucky_count v luck) choose (6 - i))"
  using card_subsets_hits [of "set v" i 6 "set luck"] assms
  by (simp add: tickets_156_def lucky_count_card [symmetric] miss_count_card [symmetric] conj_assoc)

text \<open>The scaled counts stay within the stake, so the 64-bit products are exact.\<close>

lemma share_le:
  fixes v :: int
  assumes "w \<le> t" and "0 < t" and "0 \<le> v"
  shows "int w * (v div int t) \<le> v"
proof -
  have "int w * (v div int t) \<le> int t * (v div int t)"
    using assms by (intro mult_right_mono) (auto simp: pos_imp_zdiv_nonneg_iff)
  also have "\<dots> \<le> v"
    using assms by (simp add: mult.commute div_times_less_eq_dividend minus_mod_eq_mult_div [symmetric])
  finally show ?thesis .
qed

lemma share_range:
  fixes v :: int
  assumes "w \<le> t" and "0 < t" and "0 \<le> v" and "v < 2 ^ 63"
  shows "int64_range (int w * (v div int t))"
  using share_le [OF assms(1-3)] assms
  by (intro int64_rangeI) (auto simp: pos_imp_zdiv_nonneg_iff)

lemma put_if_pos_apply:
  "put_if_pos k v m x = (if x = k \<and> 0 < v then Some v else m x)"
  by (simp add: put_if_pos_def)

text \<open>Scaling a map of ticket counts by the stake of one ticket.\<close>

lemma scale_counts:
  assumes "\<And>k. m k = (if w k = 0 then None else Some (int (w k)))" and "\<And>k. w k \<le> t"
    and "w TOP_null = 0" and "0 < t" and "0 \<le> v" and "v < 2 ^ 63"
  shows "scale_rewards (v div int t) m
    = Inr (\<lambda>k. if w k = 0 then None else Some (int (w k) * (v div int t)))"
proof -
  have "int64_range (x * (v div int t))" if "m k = Some x" for k x
    using that share_range [OF assms(2,4,5,6)] unfolding assms(1) by (auto split: if_splits)
  moreover have "m TOP_null = None" using assms(1,3) by simp
  ultimately have "scale_rewards (v div int t) m = Inr (\<lambda>k. map_option (\<lambda>c. c * (v div int t)) (m k))"
    by (rule scale_rewards_eq)
  also have "(\<lambda>k. map_option (\<lambda>c. c * (v div int t)) (m k))
    = (\<lambda>k. if w k = 0 then None else Some (int (w k) * (v div int t)))"
    unfolding assms(1) by auto
  finally show ?thesis .
qed

text \<open>The counts \<open>CBet_15_6::CreateRewardMap\<close> computes are the numbers of winning tickets.\<close>

definition winning_156 :: "CBet \<Rightarrow> RWD_TYPE \<Rightarrow> nat" where
  "winning_156 b k = card {S \<in> tickets_156 (set (vch b)). level_156 (set (vLuckyStar b)) k S}"

lemma winning_156_cells:
  assumes "distinct (vch b)"
  defines "l \<equiv> lucky_count (vch b) (vLuckyStar b)" and "n \<equiv> length (vch b)"
  shows "winning_156 b TOP_1 = (l choose 6) * ((n - l) choose 0)"
    and "winning_156 b TOP_2 = (l choose 5) * ((n - l) choose 1)"
    and "winning_156 b TOP_3 = (l choose 4) * ((n - l) choose 2)"
    and "winning_156 b TOP_4 = 0" and "winning_156 b TOP_5 = 0" and "winning_156 b TOP_null = 0"
  using card_level_156 [OF assms(1), of 6 "vLuckyStar b"]
    card_level_156 [OF assms(1), of 5 "vLuckyStar b"] card_level_156 [OF assms(1), of 4 "vLuckyStar b"]
  by (simp_all add: winning_156_def level_156_def l_def n_def)

lemma winning_156_le: "distinct (vch b) \<Longrightarrow> winning_156 b k \<le> length (vch b) choose 6"
  unfolding winning_156_def card_tickets_156 [symmetric]
  by (rule card_mono) (auto simp: tickets_156_def)

lemma reward_spec_156_alt:
  "distinct (vch b) \<Longrightarrow> reward_spec_156 b = (\<lambda>k. if winning_156 b k = 0 then None
     else Some (int (winning_156 b k) * (nValue b div int (length (vch b) choose 6))))"
  by (simp add: fun_eq_iff reward_spec_156_def winning_156_def card_tickets_156 Let_def)

lemma mul2E_Inr: "x * y < 2 ^ 31 \<Longrightarrow> mul2E (Inr (int x)) (Inr (int y)) = Inr (int (x * y))"
  by (simp add: mul2E_def int32_range_def flip: of_nat_mult)

lemma create_reward_map_156:
  assumes "CBet_15_6_IsValid b = Inr True" and "cls b = Class_CBet_15_6" and "nValue b < 2 ^ 63"
  shows "CreateRewardMap b = Inr (b\<lparr>rewardmap := reward_spec_156 b\<rparr>)"
proof -
  note v = valid_156D [OF assms(1,2)]
  note w = winning_156_cells [OF v(4)]
  let ?n = "length (vch b)" and ?l = "lucky_count (vch b) (vLuckyStar b)"
  have ln: "?l \<le> ?n" by (rule lucky_count_le)
  have n6: "0 < ?n choose 6" "?n choose 6 < 2 ^ 21"
    using v(2,3) binomial_le_pow20 [of ?n 6] by auto
  then have val: "0 \<le> nValue b" using v(7) by (simp add: nMinBet_def)
  have small: "winning_156 b k < 2 ^ 31" for k
    using winning_156_le [OF v(4), of k] n6 by simp
  have sel: "MselectN (int ?l) (int i) = Inr (int (?l choose i))"
    "MselectN (int ?n - int ?l) (int i) = Inr (int ((?n - ?l) choose i))" for i
    using MselectN_small [of ?l i] MselectN_small [of "?n - ?l" i] ln v(3)
    by (simp_all add: of_nat_diff)
  have k: "mul2E (MselectN (int ?l) 6) (MselectN (int ?n - int ?l) 0) = Inr (int (winning_156 b TOP_1))"
    "mul2E (MselectN (int ?l) 5) (MselectN (int ?n - int ?l) 1) = Inr (int (winning_156 b TOP_2))"
    "mul2E (MselectN (int ?l) 4) (MselectN (int ?n - int ?l) 2) = Inr (int (winning_156 b TOP_3))"
    using sel [of 6] sel [of 5] sel [of 4] sel [of 0] sel [of 1] sel [of 2]
      small [of TOP_1] small [of TOP_2] small [of TOP_3] mul2E_Inr [of "?l choose 6" 1]
    unfolding w by (simp_all add: mul2E_Inr del: of_nat_mult)
  let ?m = "put_if_pos TOP_3 (int (winning_156 b TOP_3)) (put_if_pos TOP_2 (int (winning_156 b TOP_2))
      (put_if_pos TOP_1 (int (winning_156 b TOP_1)) Map.empty))"
  have m: "?m k = (if winning_156 b k = 0 then None else Some (int (winning_156 b k)))" for k
    using w(4,5,6) by (cases k) (simp_all add: put_if_pos_apply)
  have "scale_rewards (nValue b div int (?n choose 6)) ?m = Inr (reward_spec_156 b)"
    unfolding reward_spec_156_alt [OF v(4)]
    using m winning_156_le [OF v(4)] w(6) n6(1) val assms(3) by (rule scale_counts)
  then show ?thesis
    using div64_pos [OF val assms(3), of "int (?n choose 6)"] n6 v(6) assms(2)
    by (simp add: CreateRewardMap_def CBet_15_6_CreateRewardMap_def Let_def k)
qed

end
