(* ===== verification/Lotto_Tickets_Mulity.thy ===== *)
theory Lotto_Tickets_Mulity
  imports Lotto_Tickets
begin

text \<open>
  The second game: a ticket is a pair of five red and two blue numbers, and a prize level is a set of
  pairs (red hits, blue hits). The reward map of a bet that \<open>CBetMulity::IsValid\<close> accepts holds,
  for every level, the number of its tickets on that level times the stake of one ticket.
\<close>

section \<open>Tickets and levels\<close>

definition tickets_Mulity :: "byte set \<Rightarrow> byte set \<Rightarrow> (byte set \<times> byte set) set" where
  "tickets_Mulity A B = {R. R \<subseteq> A \<and> card R = 5} \<times> {S. S \<subseteq> B \<and> card S = 2}"

fun levels_Mulity :: "RWD_TYPE \<Rightarrow> (nat \<times> nat) set" where
  "levels_Mulity TOP_1 = {(5, 2)}"
| "levels_Mulity TOP_2 = {(4, 2), (5, 1)}"
| "levels_Mulity TOP_3 = {(4, 1), (5, 0), (3, 2)}"
| "levels_Mulity TOP_4 = {(4, 0), (3, 1), (2, 2)}"
| "levels_Mulity TOP_5 = {(3, 0), (2, 1), (0, 2)}"
| "levels_Mulity TOP_null = {}"

definition winning_Mulity :: "CBet \<Rightarrow> RWD_TYPE \<Rightarrow> nat" where
  "winning_Mulity b k =
     card {(R, S) \<in> tickets_Mulity (set (before_flag (vch b))) (set (after_flag (vch b))).
       (card (R \<inter> set (before_flag (vLuckyStar b))), card (S \<inter> set (after_flag (vLuckyStar b))))
         \<in> levels_Mulity k}"

definition reward_spec_Mulity :: "CBet \<Rightarrow> RWD_TYPE \<rightharpoonup> int" where
  "reward_spec_Mulity b k =
     (let t = card (tickets_Mulity (set (before_flag (vch b))) (set (after_flag (vch b))));
          w = winning_Mulity b k
      in if w = 0 then None else Some (int w * (nValue b div int t)))"

text \<open>The tickets with \<open>i\<close> red and \<open>j\<close> blue hits, in closed form.\<close>

definition cell :: "nat \<Rightarrow> nat \<Rightarrow> nat \<Rightarrow> nat \<Rightarrow> nat \<Rightarrow> nat \<Rightarrow> nat" where
  "cell r s b c i j = (r choose i) * (s choose (5 - i)) * (b choose j) * (c choose (2 - j))"

lemma finite_tickets_Mulity: "finite (tickets_Mulity (set v) (set w))"
  by (simp add: tickets_Mulity_def)

lemma card_tickets_Mulity:
  "distinct v \<Longrightarrow> distinct w \<Longrightarrow>
    card (tickets_Mulity (set v) (set w)) = (length v choose 5) * (length w choose 2)"
  by (simp add: tickets_Mulity_def card_cartesian_product n_subsets distinct_card)

lemma card_cell:
  assumes "distinct v" and "distinct w" and "i \<le> 5" and "j \<le> 2"
  shows "card {(R, S) \<in> tickets_Mulity (set v) (set w). (card (R \<inter> set l), card (S \<inter> set m)) = (i, j)}
    = cell (lucky_count v l) (length v - lucky_count v l) (lucky_count w m) (length w - lucky_count w m) i j"
proof -
  have "{(R, S) \<in> tickets_Mulity (set v) (set w). (card (R \<inter> set l), card (S \<inter> set m)) = (i, j)}
    = {R. R \<subseteq> set v \<and> card R = 5 \<and> card (R \<inter> set l) = i} \<times> {S. S \<subseteq> set w \<and> card S = 2 \<and> card (S \<inter> set m) = j}"
    by (auto simp: tickets_Mulity_def)
  then show ?thesis
    using assms card_subsets_hits [of "set v" i 5 "set l"] card_subsets_hits [of "set w" j 2 "set m"]
    by (simp add: card_cartesian_product cell_def lucky_count_card [symmetric]
        miss_count_card [symmetric])
qed

lemma card_fibres:
  assumes "finite K" and "finite T"
  shows "card {p \<in> T. f p \<in> K} = (\<Sum>x\<in>K. card {p \<in> T. f p = x})"
proof -
  have "{p \<in> T. f p \<in> K} = (\<Union>x\<in>K. {p \<in> T. f p = x})" by auto
  moreover have "card (\<Union>x\<in>K. {p \<in> T. f p = x}) = (\<Sum>x\<in>K. card {p \<in> T. f p = x})"
    using assms by (intro card_UN_disjoint) auto
  ultimately show ?thesis by simp
qed

lemma levels_Mulity_finite [simp]: "finite (levels_Mulity k)"
  by (cases k) simp_all

lemma levels_Mulity_bound: "(i, j) \<in> levels_Mulity k \<Longrightarrow> i \<le> 5 \<and> j \<le> 2"
  by (cases k) auto

lemma card_level_Mulity:
  assumes "distinct v" and "distinct w"
  shows "card {(R, S) \<in> tickets_Mulity (set v) (set w). (card (R \<inter> set l), card (S \<inter> set m)) \<in> levels_Mulity k}
    = (\<Sum>(i, j)\<in>levels_Mulity k. cell (lucky_count v l) (length v - lucky_count v l)
         (lucky_count w m) (length w - lucky_count w m) i j)"
proof -
  let ?T = "tickets_Mulity (set v) (set w)"
  let ?f = "\<lambda>p. (card (fst p \<inter> set l), card (snd p \<inter> set m))"
  have "card {p \<in> ?T. ?f p \<in> levels_Mulity k} = (\<Sum>x\<in>levels_Mulity k. card {p \<in> ?T. ?f p = x})"
    by (rule card_fibres) (simp_all add: finite_tickets_Mulity)
  also have "\<dots> = (\<Sum>(i, j)\<in>levels_Mulity k. cell (lucky_count v l) (length v - lucky_count v l)
         (lucky_count w m) (length w - lucky_count w m) i j)"
    using card_cell [OF assms, of _ _ l m] levels_Mulity_bound [of _ _ k]
    by (intro sum.cong refl) (auto simp: case_prod_unfold)
  finally show ?thesis by (simp add: case_prod_unfold)
qed

section \<open>Selections the validity check accepts\<close>

lemma adjacent_unique_Cons: "adjacent_unique (a # v) \<Longrightarrow> adjacent_unique v"
  using remdups_adj_length [of v]
  by (cases v) (auto simp: adjacent_unique_def split: if_splits)

lemma distinct_range_length:
  assumes "distinct v" and "set v \<subseteq> {1..n :: byte}"
  shows "length v \<le> unat n"
proof -
  have "inj_on unat (set v)" by (rule inj_onI) (simp add: word_unat_eq_iff)
  then have "length v = card (unat ` set v)"
    using assms(1) by (simp add: card_image distinct_card)
  also have "unat ` set v \<subseteq> {1..unat n}"
    using assms(2) by (auto simp: word_le_nat_alt subset_iff Suc_le_eq)
  then have "card (unat ` set v) \<le> card {1..unat n}" by (intro card_mono) auto
  finally show ?thesis by simp
qed

lemma total_MulityD:
  assumes "getTotalBer_Mulity b = Inr t" and "5 \<le> length (before_flag (vch b))"
    and "gSplitFlag \<in> set (vch b)" and "length (after_flag (vch b)) \<le> 20"
  shows "length (before_flag (vch b)) \<le> 20"
    and "t = int ((length (before_flag (vch b)) choose 5) * (length (after_flag (vch b)) choose 2))"
proof -
  let ?r = "length (before_flag (vch b))" and ?s = "length (after_flag (vch b))"
  have "?r < length (vch b)"
    using assms(3) by (auto simp: before_flag_def intro: length_takeWhile_lt)
  then have s: "int (length (vch b)) - (int ?r + 1) = int ?s"
    by (simp add: after_flag_def of_nat_diff)
  from assms(1) obtain x y where x: "MselectN (int ?r) (int 5) = Inr x"
    and y: "MselectN (int ?s) (int 2) = Inr y" and t: "t = x * y"
    by (auto simp: getTotalBer_Mulity_def s Let_def bindE_eq_Inr READ_MAX_NICE_NO_def BLUE_MAX_NICE_NO_def)
  show le: "?r \<le> 20"
  proof (rule ccontr)
    assume "\<not> ?r \<le> 20"
    with x show False by (simp only: MselectN_large) simp
  qed
  from x y t MselectN_small [OF le, of 5] MselectN_small [OF assms(4), of 2]
  show "t = int ((?r choose 5) * (?s choose 2))" by simp
qed

lemma valid_MulityD:
  assumes "CBetMulity_IsValid b = Inr True" and "cls b = Class_CBetMulity"
  defines "red \<equiv> before_flag (vch b)" and "blue \<equiv> after_flag (vch b)"
  shows "gSplitFlag \<in> set (vch b)" and "distinct red" and "distinct blue"
    and "sort red = red" and "sort blue = blue"
    and "5 \<le> length red" and "length red \<le> 20" and "2 \<le> length blue" and "length blue \<le> 11"
    and "getTotalBer b = Inr (int ((length red choose 5) * (length blue choose 2)))"
    and "nMinBet * int ((length red choose 5) * (length blue choose 2)) < nValue b"
proof -
  note defs = CBetMulity_IsValid_def Let_def bindE_eq_Inr red_def blue_def
  show f: "gSplitFlag \<in> set (vch b)" and sr: "sort red = red" and sb: "sort blue = blue"
    and r5: "5 \<le> length red"
    using assms(1) by (auto simp: defs READ_MAX_NICE_NO_def split: if_splits)
  show "2 \<le> length blue"
    using assms(1) by (auto simp: defs BLUE_MAX_NICE_NO_def after_flag_def split: if_splits)
  have au: "adjacent_unique red" "adjacent_unique blue"
    using assms(1) adjacent_unique_Cons by (auto simp: defs split: if_splits)
  show dr: "distinct red" using au(1) sr by (metis adjacent_unique_distinct sorted_sort)
  show db: "distinct blue" using au(2) sb by (metis adjacent_unique_distinct sorted_sort)
  have "set blue \<subseteq> {1..11}"
    using assms(1) by (auto simp: defs list_ex_iff BLUE_MAX_NO_def not_less word_one_le split: if_splits)
  from distinct_range_length [OF db this] show b11: "length blue \<le> 11" by simp
  have m: "min_bet_ok b = Inr True" using assms(1) by (auto simp: defs split: if_splits)
  then obtain t where t: "getTotalBer_Mulity b = Inr t"
    by (auto simp: min_bet_ok_def getTotalBer_def assms(2) bindE_eq_Inr)
  note tm = total_MulityD [OF t, folded red_def blue_def, OF r5 f]
  show "length red \<le> 20" using tm(1) b11 by simp
  show tot: "getTotalBer b = Inr (int ((length red choose 5) * (length blue choose 2)))"
    using tm(2) b11 t by (simp add: getTotalBer_def assms(2))
  show "nMinBet * int ((length red choose 5) * (length blue choose 2)) < nValue b"
    using m tot by (auto simp: min_bet_ok_def bindE_eq_Inr)
qed

section \<open>The prize counts fit an \<open>int\<close>\<close>

lemma choose2_bound: "n \<le> 11 \<Longrightarrow> (n choose 2) < 64"
proof -
  assume "n \<le> 11"
  then have "n * (n - 1) \<le> 11 * 10" by (intro mult_le_mono) auto
  then show ?thesis by (simp add: choose_two)
qed

lemma cell_le:
  assumes "i \<le> 5" and "j \<le> 2"
  shows "cell r s b c i j \<le> ((r + s) choose 5) * ((b + c) choose 2)"
  using mult_le_mono [OF choose_prod_le [of r i s "5 - i"] choose_prod_le [of b j c "2 - j"]] assms
  by (simp add: cell_def mult.assoc)

lemma tickets_bound:
  assumes "n \<le> 20" and "m \<le> 11"
  shows "(n choose 5) * (m choose 2) < 2 ^ 27"
proof -
  have "(n choose 5) * (m choose 2) \<le> (n choose 5) * 64"
    using choose2_bound [OF assms(2)] by simp
  also have "\<dots> < 2 ^ 21 * 64" using binomial_le_pow20 [OF assms(1), of 5] by simp
  finally show ?thesis by simp
qed

lemma choose_le4: "b \<le> 2 \<Longrightarrow> (b choose j) \<le> 4"
proof -
  assume "b \<le> 2"
  have "(b choose j) \<le> 2 ^ b" by (rule binomial_le_pow2)
  also have "\<dots> \<le> (2::nat) ^ 2" using \<open>b \<le> 2\<close> by (intro power_increasing) auto
  finally show ?thesis by simp
qed

lemma prize_term_cell:
  assumes "length (vRed b) \<le> 20" and "length (vBlue b) \<le> 11"
    and "r \<le> length (vRed b)" and "bc \<le> length (vBlue b)" and "bc \<le> 2" and "i \<le> 5" and "j \<le> 2"
  shows "prize_term b (int r) (int bc) (int i) (int (5 - i)) (int j) (int (2 - j))
    = Inr (int (cell r (length (vRed b) - r) bc (length (vBlue b) - bc) i j))"
proof -
  let ?s = "length (vRed b) - r" and ?c = "length (vBlue b) - bc"
  let ?x = "(r choose i) * (?s choose (5 - i))"
  have "?x \<le> (length (vRed b) choose 5)"
    using choose_prod_le [of r i ?s "5 - i"] assms by simp
  then have x: "?x < 2 ^ 21" using binomial_le_pow20 [OF assms(1), of 5] by linarith
  have xb: "?x * (bc choose j) < 2 ^ 31"
    using mult_le_mono [OF less_imp_le [OF x] choose_le4 [OF assms(5), of j]] by simp
  have "cell r ?s bc ?c i j < 2 ^ 31"
    using cell_le [OF assms(6,7), of r ?s bc ?c] tickets_bound [OF assms(1,2)] assms(3,4) by simp
  then have xbc: "?x * (bc choose j) * (?c choose (2 - j)) < 2 ^ 31" by (simp add: cell_def)
  have sel: "MselectN (int r) (int i) = Inr (int (r choose i))"
    "MselectN (int (length (vRed b)) - int r) (int (5 - i)) = Inr (int (?s choose (5 - i)))"
    "MselectN (int bc) (int j) = Inr (int (bc choose j))"
    "MselectN (int (length (vBlue b)) - int bc) (int (2 - j)) = Inr (int (?c choose (2 - j)))"
    using MselectN_small [of r i] MselectN_small [of ?s "5 - i"] MselectN_small [of bc j]
      MselectN_small [of ?c "2 - j"] assms by (simp_all add: of_nat_diff)
  show ?thesis
    unfolding prize_term_def sel cell_def using x xb xbc by (simp add: mul2E_Inr del: of_nat_mult)
qed

lemma add2E_Inr: "x + y < 2 ^ 31 \<Longrightarrow> add2E (Inr (int x)) (Inr (int y)) = Inr (int (x + y))"
  by (simp add: add2E_def int32_range_def flip: of_nat_add)

section \<open>Rewards\<close>

lemma lucky_count_set: "set l = set l' \<Longrightarrow> lucky_count v l = lucky_count v l'"
  by (simp add: lucky_count_def)

lemma lucky_count_le_luck: "distinct v \<Longrightarrow> lucky_count v l \<le> length l"
  by (simp add: lucky_count_card) (meson card_length card_mono finite_set inf_le2 order_trans)

text \<open>The counts \<open>CalcRewardBet\<close> computes, one per level.\<close>

lemma winning_Mulity_cells:
  assumes "distinct (before_flag (vch b))" and "distinct (after_flag (vch b))"
  defines "r \<equiv> lucky_count (before_flag (vch b)) (before_flag (vLuckyStar b))"
    and "c \<equiv> lucky_count (after_flag (vch b)) (after_flag (vLuckyStar b))"
  shows "winning_Mulity b k = (\<Sum>(i, j)\<in>levels_Mulity k.
    cell r (length (before_flag (vch b)) - r) c (length (after_flag (vch b)) - c) i j)"
  unfolding winning_Mulity_def r_def c_def using assms(1,2) by (rule card_level_Mulity)

lemma winning_Mulity_le:
  assumes "distinct (before_flag (vch b))" and "distinct (after_flag (vch b))"
  shows "winning_Mulity b k
    \<le> (length (before_flag (vch b)) choose 5) * (length (after_flag (vch b)) choose 2)"
  unfolding winning_Mulity_def card_tickets_Mulity [OF assms, symmetric]
  by (rule card_mono) (auto simp: finite_tickets_Mulity)

lemma winning_Mulity_top:
  assumes "distinct (before_flag (vch b))" and "distinct (after_flag (vch b))"
    and "length (before_flag (vLuckyStar b)) = 5" and "length (after_flag (vLuckyStar b)) = 2"
  defines "r \<equiv> lucky_count (before_flag (vch b)) (before_flag (vLuckyStar b))"
    and "c \<equiv> lucky_count (after_flag (vch b)) (after_flag (vLuckyStar b))"
  shows "winning_Mulity b TOP_1 = (if 5 \<le> r \<and> 2 \<le> c then 1 else 0)"
proof -
  have "r \<le> 5" "c \<le> 2"
    using lucky_count_le_luck [OF assms(1)] lucky_count_le_luck [OF assms(2)] assms(3,4)
    by (metis r_def) (metis c_def assms(2,4) lucky_count_le_luck)
  then consider "r = 5 \<and> c = 2" | "r < 5 \<or> c < 2" by linarith
  then have "cell r s c d 5 2 = (if 5 \<le> r \<and> 2 \<le> c then 1 else 0)" for s d
    by cases (auto simp: cell_def binomial_eq_0)
  then show ?thesis
    using winning_Mulity_cells [OF assms(1,2), of TOP_1] by (simp add: r_def c_def)
qed

lemma CalcRewardBet_eq:
  assumes tot: "getTotalBer b = Inr (int t)" and "0 < t" and "0 \<le> nValue b" and "nValue b < 2 ^ 63"
    and "rewardmap b = Map.empty" and le: "\<And>k. w k \<le> t" and w0: "w TOP_null = 0"
    and w1: "w TOP_1 = (if 5 \<le> r \<and> 2 \<le> c then 1 else 0)"
    and w2: "add2E (prize_term b r c 4 1 2 0) (prize_term b r c 5 0 1 1) = Inr (int (w TOP_2))"
    and w3: "add2E (add2E (prize_term b r c 4 1 1 1) (prize_term b r c 5 0 0 2)) (prize_term b r c 3 2 2 0)
      = Inr (int (w TOP_3))"
    and w4: "add2E (add2E (prize_term b r c 4 1 0 2) (prize_term b r c 3 2 1 1)) (prize_term b r c 2 3 2 0)
      = Inr (int (w TOP_4))"
    and w5: "add2E (add2E (prize_term b r c 3 2 0 2) (prize_term b r c 2 3 1 1)) (prize_term b r c 0 5 2 0)
      = Inr (int (w TOP_5))"
  shows "CalcRewardBet b r c = Inr (b\<lparr>rewardmap :=
    \<lambda>k. if w k = 0 then None else Some (int (w k) * (nValue b div int t))\<rparr>)"
proof -
  let ?m1 = "if 5 \<le> r \<and> 2 \<le> c then (rewardmap b)(TOP_1 \<mapsto> 1) else rewardmap b"
  let ?m = "put_if_pos TOP_5 (int (w TOP_5)) (put_if_pos TOP_4 (int (w TOP_4))
      (put_if_pos TOP_3 (int (w TOP_3)) (put_if_pos TOP_2 (int (w TOP_2)) ?m1)))"
  have m: "?m k = (if w k = 0 then None else Some (int (w k)))" for k
    using w0 w1 assms(5) by (cases k) (simp_all add: put_if_pos_apply)
  have "scale_rewards (nValue b div int t) ?m
    = Inr (\<lambda>k. if w k = 0 then None else Some (int (w k) * (nValue b div int t)))"
    using m le w0 assms(2,3,4) by (rule scale_counts)
  moreover have "div64 (nValue b) (int t) = Inr (nValue b div int t)"
    using assms(2-4) by (intro div64_pos) auto
  ultimately show ?thesis
    by (simp add: CalcRewardBet_def Let_def tot w2 w3 w4 w5)
qed

lemma create_reward_map_Mulity:
  assumes "CBetMulity_IsValid b = Inr True" and "cls b = Class_CBetMulity" and "nValue b < 2 ^ 63"
    and "gSplitFlag \<in> set (vLuckyStar b)"
    and "length (before_flag (vLuckyStar b)) = 5" and "length (after_flag (vLuckyStar b)) = 2"
  shows "CreateRewardMap (SplitSelectNum b)
    = Inr ((SplitSelectNum b)\<lparr>rewardmap := reward_spec_Mulity b\<rparr>)"
proof -
  note v = valid_MulityD [OF assms(1,2)]
  let ?red = "before_flag (vch b)" and ?blue = "after_flag (vch b)"
  let ?r = "lucky_count ?red (before_flag (vLuckyStar b))"
  let ?c = "lucky_count ?blue (after_flag (vLuckyStar b))"
  let ?t = "(length ?red choose 5) * (length ?blue choose 2)"
  define b0 where "b0 = (SplitSelectNum b)\<lparr>rewardmap := Map.empty\<rparr>"
  have b0: "vRed b0 = ?red" "vBlue b0 = ?blue" "nValue b0 = nValue b" "rewardmap b0 = Map.empty"
    "cls b0 = Class_CBetMulity" "vch b0 = vch b"
    using v(1,4,5) assms(2) by (simp_all add: b0_def SplitSelectNum_def)
  have le: "winning_Mulity b k \<le> ?t" for k using v(2,3) by (rule winning_Mulity_le)
  have t: "0 < ?t" "?t < 2 ^ 27" using v(6,8) tickets_bound [OF v(7,9)] by auto
  have val: "0 \<le> nValue b"
    using v(11) order_trans [of 0 "nMinBet * int ?t" "nValue b"] by (simp add: nMinBet_def)
  define T where "T i j = cell ?r (length ?red - ?r) ?c (length ?blue - ?c) i j" for i j
  have c2: "?c \<le> 2" using lucky_count_le_luck [OF v(3)] assms(6) by metis
  have pt: "prize_term b0 (int ?r) (int ?c) (int i) (int (5 - i)) (int j) (int (2 - j)) = Inr (int (T i j))"
    if "i \<le> 5" "j \<le> 2" for i j
    using prize_term_cell [of b0 ?r ?c i j] that b0 v(7,9) c2 by (simp add: T_def lucky_count_le)
  have cells: "winning_Mulity b k = (\<Sum>(i, j)\<in>levels_Mulity k. T i j)" for k
    unfolding T_def using v(2,3) by (rule winning_Mulity_cells)
  note sums = cells [of TOP_2] cells [of TOP_3] cells [of TOP_4] cells [of TOP_5]
  note les = le [of TOP_2] le [of TOP_3] le [of TOP_4] le [of TOP_5]
  have "CalcRewardBet b0 (int ?r) (int ?c) = Inr (b0\<lparr>rewardmap :=
      \<lambda>k. if winning_Mulity b k = 0 then None
           else Some (int (winning_Mulity b k) * (nValue b0 div int ?t))\<rparr>)"
  proof (rule CalcRewardBet_eq)
    show "getTotalBer b0 = Inr (int ?t)"
      using v(10) assms(2) b0 by (simp add: getTotalBer_def getTotalBer_Mulity_def)
    show "winning_Mulity b TOP_1 = (if 5 \<le> int ?r \<and> 2 \<le> int ?c then 1 else 0)"
      using winning_Mulity_top [OF v(2,3) assms(5,6)] by simp
    show "winning_Mulity b TOP_null = 0" by (simp add: winning_Mulity_def)
  qed (use pt [of 4 2] pt [of 5 1] pt [of 4 1] pt [of 5 0] pt [of 3 2] pt [of 4 0] pt [of 3 1]
      pt [of 2 2] pt [of 3 0] pt [of 2 1] pt [of 0 2] sums les t b0 val assms(3) le
      in \<open>simp_all add: add2E_Inr del: of_nat_add\<close>)
  moreover have "reward_spec_Mulity b = (\<lambda>k. if winning_Mulity b k = 0 then None
      else Some (int (winning_Mulity b k) * (nValue b0 div int ?t)))"
    using b0(3) by (simp add: fun_eq_iff reward_spec_Mulity_def card_tickets_Mulity [OF v(2,3)])
  moreover have "vRed (SplitSelectNum b) \<noteq> []" "vBlue (SplitSelectNum b) \<noteq> []"
    using b0(1,2) v(6,8) by (auto simp: b0_def)
  moreover have "lucky_count (vRed (SplitSelectNum b)) (sort (before_flag (vLuckyStar b))) = ?r"
    "lucky_count (vBlue (SplitSelectNum b)) (sort (after_flag (vLuckyStar b))) = ?c"
    using b0(1,2) by (auto simp: b0_def intro: lucky_count_set)
  moreover have "cls (SplitSelectNum b) = Class_CBetMulity" "vLuckyStar (SplitSelectNum b) = vLuckyStar b"
    using assms(2) by (simp_all add: SplitSelectNum_def)
  ultimately show ?thesis
    using assms(4) by (simp add: CreateRewardMap_def CBetMulity_CreateRewardMap_def Let_def b0_def)
qed

end
