(* ===== verification/Lotto_Script.thy ===== *)
theory Lotto_Script
  imports Prelude
begin

text \<open>
  The part of the script language the lottery uses (\<open>script.h\<close>, \<open>script.cpp\<close>): reading
  one instruction (\<open>CScript::GetOp2\<close>), pushing data (\<open>CScript::operator<<\<close>), extracting the
  payload of a bet (\<open>CScript::GetBetData\<close>), the pool address of an output
  (\<open>CScript::GetLottoPoolAddressFromTx\<close>) and the pay-to-key script of a reward
  (\<open>CScriptVisitor\<close>). An iterator is modelled by the bytes that remain.
\<close>

section \<open>Opcodes\<close>

definition OP_PUSHDATA1 :: byte where "OP_PUSHDATA1 = 0x4c"
definition OP_PUSHDATA2 :: byte where "OP_PUSHDATA2 = 0x4d"
definition OP_PUSHDATA4 :: byte where "OP_PUSHDATA4 = 0x4e"
definition OP_16 :: byte where "OP_16 = 0x60"
definition OP_DUP :: byte where "OP_DUP = 0x76"
definition OP_EQUALVERIFY :: byte where "OP_EQUALVERIFY = 0x88"
definition OP_RIPEMD160 :: byte where "OP_RIPEMD160 = 0xa6"
definition OP_SHA1 :: byte where "OP_SHA1 = 0xa7"
definition OP_SHA256 :: byte where "OP_SHA256 = 0xa8"
definition OP_HASH160 :: byte where "OP_HASH160 = 0xa9"
definition OP_HASH256 :: byte where "OP_HASH256 = 0xaa"
definition OP_CHECKSIG :: byte where "OP_CHECKSIG = 0xac"
definition OP_LOTTO :: byte where "OP_LOTTO = 0xc1"

lemmas opcode_defs = OP_PUSHDATA1_def OP_PUSHDATA2_def OP_PUSHDATA4_def OP_16_def OP_DUP_def
  OP_EQUALVERIFY_def OP_RIPEMD160_def OP_SHA1_def OP_SHA256_def OP_HASH160_def OP_HASH256_def
  OP_CHECKSIG_def OP_LOTTO_def

section \<open>Reading instructions\<close>

text \<open>The little-endian number in the first \<open>n\<close> bytes (\<open>memcpy\<close> into \<open>nSize\<close>).\<close>

fun le_nat :: "byte list \<Rightarrow> nat" where
  "le_nat [] = 0"
| "le_nat (b # bs) = unat b + 256 * le_nat bs"

definition take_data :: "byte \<Rightarrow> nat \<Rightarrow> byte list \<Rightarrow> (byte \<times> byte list \<times> byte list) option" where
  "take_data opc nSize pc = (if length pc < nSize then None else Some (opc, take nSize pc, drop nSize pc))"

definition GetOp :: "byte list \<Rightarrow> (byte \<times> byte list \<times> byte list) option" where
  "GetOp s = (case s of
       [] \<Rightarrow> None
     | opc # pc \<Rightarrow>
         if opc \<le> OP_PUSHDATA4 then
           if opc < OP_PUSHDATA1 then take_data opc (unat opc) pc
           else if opc = OP_PUSHDATA1 then
             (if length pc < 1 then None else take_data opc (le_nat (take 1 pc)) (drop 1 pc))
           else if opc = OP_PUSHDATA2 then
             (if length pc < 2 then None else take_data opc (le_nat (take 2 pc)) (drop 2 pc))
           else
             (if length pc < 4 then None else take_data opc (le_nat (take 4 pc)) (drop 4 pc))
         else Some (opc, [], pc))"

lemma GetOp_shorter: "GetOp s = Some (opc, d, rest) \<Longrightarrow> length rest < length s"
  by (auto simp: GetOp_def take_data_def split: list.splits if_splits)

section \<open>Writing instructions\<close>

definition le_bytes :: "nat \<Rightarrow> nat \<Rightarrow> byte list" where
  "le_bytes k n = map (\<lambda>i. word_of_nat (n div 256 ^ i)) [0..<k]"

definition push_data :: "byte list \<Rightarrow> byte list" where
  "push_data b =
     (if length b < unat OP_PUSHDATA1 then word_of_nat (length b) # b
      else if length b \<le> 0xff then OP_PUSHDATA1 # le_bytes 1 (length b) @ b
      else if length b \<le> 0xffff then OP_PUSHDATA2 # le_bytes 2 (length b) @ b
      else OP_PUSHDATA4 # le_bytes 4 (length b) @ b)"

definition pay_to_key :: "byte list \<Rightarrow> byte list" where
  "pay_to_key keyID = [OP_DUP, OP_HASH160] @ push_data keyID @ [OP_EQUALVERIFY, OP_CHECKSIG]"

section \<open>Bets and the pool address in a script\<close>

function bet_data_loop :: "nat \<Rightarrow> byte list \<Rightarrow> byte list option" where
  "bet_data_loop nOpCount pc =
     (if pc = [] then None
      else case GetOp pc of
        None \<Rightarrow> None
      | Some (opc, _, pc') \<Rightarrow>
          let nOpCount' = (if opc > OP_16 then nOpCount + 1 else nOpCount) in
          if opc > OP_16 \<and> nOpCount' > 201 then None
          else if opc = OP_LOTTO then
            (case GetOp pc' of None \<Rightarrow> None | Some (_, d, _) \<Rightarrow> Some d)
          else bet_data_loop nOpCount' pc')"
  by pat_completeness auto
termination
  by (relation "measure (\<lambda>(n, pc). length pc)") (auto dest: GetOp_shorter)

declare bet_data_loop.simps [simp del]

definition GetBetData :: "byte list \<Rightarrow> byte list option" where
  "GetBetData s = bet_data_loop 0 s"

definition is_hash_op :: "byte \<Rightarrow> bool" where
  "is_hash_op opc \<longleftrightarrow> opc = OP_RIPEMD160 \<or> opc = OP_SHA1 \<or> opc = OP_SHA256 \<or> opc = OP_HASH256
     \<or> opc = OP_HASH160"

text \<open>\<open>uint160\<close> of a vector takes 20 bytes and is 0 for any other length (\<open>uint256.h\<close>).\<close>

definition uint160_of :: "byte list \<Rightarrow> byte list" where
  "uint160_of v = (if length v = 20 then v else replicate 20 0)"

function pool_address_loop :: "nat \<Rightarrow> byte list \<Rightarrow> byte list \<Rightarrow> byte list" where
  "pool_address_loop nOpCount addr pc =
     (if pc = [] then addr
      else case GetOp pc of
        None \<Rightarrow> replicate 20 0
      | Some (opc, _, pc') \<Rightarrow>
          let nOpCount' = (if opc > OP_16 then nOpCount + 1 else nOpCount) in
          if opc > OP_16 \<and> nOpCount' > 201 then replicate 20 0
          else if is_hash_op opc then
            (case GetOp pc' of None \<Rightarrow> replicate 20 0
             | Some (_, d, pc'') \<Rightarrow> pool_address_loop nOpCount' (uint160_of d) pc'')
          else pool_address_loop nOpCount' addr pc')"
  by pat_completeness auto
termination
  by (relation "measure (\<lambda>(n, a, pc). length pc)") (auto dest!: GetOp_shorter)

declare pool_address_loop.simps [simp del]

definition GetLottoPoolAddressFromTx :: "byte list \<Rightarrow> byte list" where
  "GetLottoPoolAddressFromTx s = pool_address_loop 0 (replicate 20 0) s"

text \<open>The pool's key id comes from the network parameters; it is an argument here.\<close>

definition IsSendPoolAdress :: "byte list \<Rightarrow> byte list \<Rightarrow> bool" where
  "IsSendPoolAdress poolKeyId s \<longleftrightarrow> GetLottoPoolAddressFromTx s = poolKeyId"

section \<open>Round trips\<close>

lemma le_nat_append: "le_nat (xs @ ys) = le_nat xs + 256 ^ length xs * le_nat ys"
  by (induction xs) (simp_all add: algebra_simps)

lemma le_nat_le_bytes: "le_nat (le_bytes k n) = n mod 256 ^ k"
proof (induction k)
  case 0
  then show ?case by (simp add: le_bytes_def)
next
  case (Suc k)
  have "le_nat (le_bytes (Suc k) n) = n mod 256 ^ k + 256 ^ k * (n div 256 ^ k mod 256)"
    using Suc by (simp add: le_bytes_def le_nat_append unat_of_nat)
  also have "\<dots> = n mod (256 ^ k * 256)"
    using mod_mult2_eq [of n "256 ^ k" 256] by simp
  finally show ?case by (simp add: mult.commute)
qed

lemma length_le_bytes [simp]: "length (le_bytes k n) = k"
  by (simp add: le_bytes_def)

lemma GetOp_push_data:
  assumes "length b < 2 ^ 32"
  shows "\<exists>opc. opc \<le> OP_PUSHDATA4 \<and> GetOp (push_data b @ rest) = Some (opc, b, rest)"
proof -
  consider "length b < 0x4c" | "0x4c \<le> length b" "length b \<le> 0xff"
    | "0xff < length b" "length b \<le> 0xffff" | "0xffff < length b"
    by linarith
  then show ?thesis
  proof cases
    case 1
    then have u: "unat (word_of_nat (length b) :: byte) = length b" by (simp add: unat_of_nat)
    then have "(word_of_nat (length b) :: byte) < OP_PUSHDATA1"
      using 1 by (simp add: word_less_nat_alt opcode_defs)
    then show ?thesis
      using 1 u by (auto simp: push_data_def GetOp_def take_data_def opcode_defs word_less_nat_alt word_le_nat_alt)
  next
    case 2
    then show ?thesis
      by (auto simp add: push_data_def GetOp_def take_data_def opcode_defs le_nat_le_bytes)
  next
    case 3
    then show ?thesis
      by (simp add: push_data_def GetOp_def take_data_def opcode_defs le_nat_le_bytes)
  next
    case 4
    then show ?thesis
      using assms by (simp add: push_data_def GetOp_def take_data_def opcode_defs le_nat_le_bytes)
  qed
qed

text \<open>A bet written as the lottery opcode followed by a push is read back, whatever follows it.\<close>

lemma GetBetData_push:
  assumes "length b < 2 ^ 32"
  shows "GetBetData ([OP_LOTTO] @ push_data b @ rest) = Some b"
proof -
  have "GetOp ([OP_LOTTO] @ push_data b @ rest) = Some (OP_LOTTO, [], push_data b @ rest)"
    by (simp add: GetOp_def opcode_defs)
  moreover obtain opc where "GetOp (push_data b @ rest) = Some (opc, b, rest)"
    using GetOp_push_data [OF assms] by blast
  ultimately show ?thesis
    by (simp add: GetBetData_def bet_data_loop.simps)
qed

lemma address_of_pay_to_key:
  assumes "length k = 20"
  shows "GetLottoPoolAddressFromTx (pay_to_key k) = k"
proof -
  obtain opc where "GetOp (push_data k @ [OP_EQUALVERIFY, OP_CHECKSIG])
      = Some (opc, k, [OP_EQUALVERIFY, OP_CHECKSIG])"
    using GetOp_push_data [of k] assms by auto
  then show ?thesis
    using assms
    by (simp add: GetLottoPoolAddressFromTx_def pay_to_key_def pool_address_loop.simps GetOp_def
        opcode_defs is_hash_op_def uint160_of_def)
qed

end
