(* ===== verification/Lotto_Draw.thy ===== *)
theory Lotto_Draw
  imports Lotto_Tickets_Mulity Lotto_Script
begin

text \<open>
  The draw (\<open>lotto/CLotto.cpp\<close>): drawing the lucky numbers from a hash, evaluating the bets of a
  block against them, and turning the prize levels into transaction outputs.

  A \<open>uint256\<close> is its 32 bytes in memory. \<open>sha\<close> stands for the SHA-256 of the cryptographic
  library, and \<open>Hash\<close> applies it twice as \<open>hash.h\<close> does. The loops that draw numbers repeat
  until enough different ones have come up; they take a bound on the number of hashes, and
  \<open>None\<close> means that the bound was reached.
\<close>

section \<open>Drawing numbers\<close>

definition Hash :: "(byte list \<Rightarrow> byte list) \<Rightarrow> byte list \<Rightarrow> byte list" where
  "Hash sha x = sha (sha x)"

text \<open>\<open>CBigNum(h).getvch()[0]\<close>: the lowest byte; the vector is empty when the number is 0.\<close>

definition bignum_byte :: "byte list \<Rightarrow> byte result" where
  "bignum_byte h = (if list_all (\<lambda>b. b = 0) h then Inl OutOfBounds else Inr (hd h))"

definition draw_step :: "byte \<Rightarrow> byte \<Rightarrow> byte list \<Rightarrow> byte list" where
  "draw_step lim temp plukeyNum =
     (if temp < lim then
        let temp = temp + 1 in if temp \<in> set plukeyNum then plukeyNum else plukeyNum @ [temp]
      else plukeyNum)"

fun draw_loop :: "(byte list \<Rightarrow> byte list) \<Rightarrow> byte \<Rightarrow> nat \<Rightarrow> nat \<Rightarrow> byte list \<Rightarrow> byte list
    \<Rightarrow> (byte list \<times> byte list) result option" where
  "draw_loop sha lim n 0 plukeyNum hashtep = None"
| "draw_loop sha lim n (Suc fuel) plukeyNum hashtep =
     (case bignum_byte hashtep of
        Inl e \<Rightarrow> Some (Inl e)
      | Inr temp \<Rightarrow>
          let plukeyNum' = draw_step lim temp plukeyNum; hashtep' = Hash sha hashtep in
          if length plukeyNum' < n then draw_loop sha lim n fuel plukeyNum' hashtep'
          else Some (Inr (plukeyNum', hashtep')))"

definition draw_15_6 :: "(byte list \<Rightarrow> byte list) \<Rightarrow> nat \<Rightarrow> byte list \<Rightarrow> byte list result option" where
  "draw_15_6 sha fuel h =
     (case draw_loop sha 15 6 fuel [] (Hash sha h) of
        None \<Rightarrow> None
      | Some r \<Rightarrow> Some (bindE r (\<lambda>(plukeyNum, _). Inr (sort plukeyNum))))"

definition draw_MULILT :: "(byte list \<Rightarrow> byte list) \<Rightarrow> nat \<Rightarrow> byte list \<Rightarrow> byte list result option" where
  "draw_MULILT sha fuel h =
     (case draw_loop sha 20 5 fuel [] (Hash sha h) of
        None \<Rightarrow> None
      | Some (Inl e) \<Rightarrow> Some (Inl e)
      | Some (Inr (red, hashtep)) \<Rightarrow>
          let plukeyNum = sort red @ [gSplitFlag] in
          (case draw_loop sha 10 8 fuel plukeyNum hashtep of
             None \<Rightarrow> None
           | Some r \<Rightarrow> Some (bindE r (\<lambda>(p, _).
               Inr (before_flag p @ [gSplitFlag] @ sort (after_flag p))))))"

record CLotto =
  vBet :: "CBet list"
  lhash :: "byte list"
  rewardPool :: int
  mRewardScheme :: "BET_TYPE \<Rightarrow> RWD_TYPE \<rightharpoonup> int"
  mLuckyStar :: "BET_TYPE \<Rightarrow> byte list"
  BetCoins :: "BET_TYPE \<Rightarrow> RWD_TYPE \<rightharpoonup> int"

definition CreateLuckyStarMap ::
    "(byte list \<Rightarrow> byte list) \<Rightarrow> nat \<Rightarrow> CLotto \<Rightarrow> (bool \<times> CLotto) result option" where
  "CreateLuckyStarMap sha fuel c =
     (if list_all (\<lambda>b. b = 0) (lhash c) then Some (Inr (False, c))
      else case draw_15_6 sha fuel (lhash c) of
        None \<Rightarrow> None
      | Some (Inl e) \<Rightarrow> Some (Inl e)
      | Some (Inr n156) \<Rightarrow>
          (case draw_MULILT sha fuel (lhash c) of
             None \<Rightarrow> None
           | Some (Inl e) \<Rightarrow> Some (Inl e)
           | Some (Inr nMul) \<Rightarrow>
               Some (Inr (True, c\<lparr>mLuckyStar :=
                 (mLuckyStar c)(TYPE_15_6 := n156, TYPE_MULILT := nMul)\<rparr>))))"

section \<open>Bets of a block\<close>

record CTxOut =
  out_value :: int
  scriptPubKey :: "byte list"

definition CreateCbet :: "byte list \<Rightarrow> CBet result" where
  "CreateCbet pLotto =
     bindE (GetType pLotto) (\<lambda>t. case t of
       TYPE_15_6 \<Rightarrow> input_betdata (new_CBet Class_CBet_15_6) pLotto
     | TYPE_MULILT \<Rightarrow> bindE (input_betdata (new_CBet Class_CBetMulity) pLotto)
         (\<lambda>p. Inr (SplitSelectNum p))
     | typenull \<Rightarrow> Inl AssertFailed)"

definition CLotto_IsValid :: "byte list \<Rightarrow> int \<Rightarrow> bool result" where
  "CLotto_IsValid pLotto v =
     bindE (GetType pLotto) (\<lambda>t. case t of
       TYPE_15_6 \<Rightarrow> bindE (input_betdata (input_value (new_CBet Class_CBet_15_6) v) pLotto) CBet_15_6_IsValid
     | TYPE_MULILT \<Rightarrow> bindE (input_betdata (input_value (new_CBet Class_CBetMulity) v) pLotto) CBetMulity_IsValid
     | typenull \<Rightarrow> Inl AssertFailed)"

definition add_bet :: "CTxOut \<Rightarrow> CLotto \<Rightarrow> CLotto result" where
  "add_bet v c =
     (case GetBetData (scriptPubKey v) of
        None \<Rightarrow> Inl AssertFailed
      | Some vBetData \<Rightarrow>
          bindE (CreateCbet vBetData) (\<lambda>betdata.
          bindE (input_lucky (input_value betdata (out_value v)) (mLuckyStar c (btype betdata))) (\<lambda>betdata.
          bindE (CreateRewardMap betdata) (\<lambda>betdata.
          Inr (c\<lparr>vBet := vBet c @ [betdata]\<rparr>)))))"

definition Init :: "(byte list \<Rightarrow> byte list) \<Rightarrow> nat \<Rightarrow> CTxOut list \<Rightarrow> CLotto \<Rightarrow> CLotto result option" where
  "Init sha fuel txOutV c =
     (case CreateLuckyStarMap sha fuel c of
        None \<Rightarrow> None
      | Some (Inl e) \<Rightarrow> Some (Inl e)
      | Some (Inr (ok, c)) \<Rightarrow> if ok then Some (foldE add_bet txOutV c) else Some (Inr c))"

text \<open>The two constructors. The second reads the secret of the draw (\<open>tep\<close>) from the key file and
  mixes it into the Bitcoin hash; \<open>None\<close> is a failed read.\<close>

definition new_CLotto :: "byte list \<Rightarrow> int \<Rightarrow> CLotto" where
  "new_CLotto h pool = \<lparr>vBet = [], lhash = h, rewardPool = pool, mRewardScheme = (\<lambda>_. Map.empty),
     mLuckyStar = (\<lambda>_. []), BetCoins = (\<lambda>_. Map.empty)\<rparr>"

definition CLotto_hash :: "(byte list \<Rightarrow> byte list) \<Rightarrow> nat \<Rightarrow> byte list \<Rightarrow> int \<Rightarrow> CTxOut list \<Rightarrow> CLotto result option" where
  "CLotto_hash sha fuel uHash iRewardPool txOutV = Init sha fuel txOutV (new_CLotto uHash iRewardPool)"

definition CLotto_key :: "(byte list \<Rightarrow> byte list) \<Rightarrow> nat \<Rightarrow> byte list \<Rightarrow> byte list option \<Rightarrow> int \<Rightarrow> CTxOut list
    \<Rightarrow> CLotto result option" where
  "CLotto_key sha fuel uBitcoinHash secret iRewardPool txOutV =
     Init sha fuel txOutV (new_CLotto
       (case secret of Some tep \<Rightarrow> Hash sha (uBitcoinHash @ tep) | None \<Rightarrow> replicate 32 0) iRewardPool)"

section \<open>What the draw produces\<close>

lemma word_inc_range: "t < (lim :: byte) \<Longrightarrow> t + 1 \<in> {1..lim}"
proof -
  assume "t < lim"
  then have "unat t < unat lim" by (simp add: word_less_nat_alt)
  moreover have "unat lim < 256" using unsigned_less [of lim] by simp
  ultimately have "unat (t + 1) = unat t + 1" by (simp add: unat_word_ariths)
  with \<open>unat t < unat lim\<close> show ?thesis by (simp add: word_le_nat_alt)
qed

lemma draw_step_cases:
  obtains "draw_step lim t acc = acc"
  | x where "draw_step lim t acc = acc @ [x]" and "x \<notin> set acc" and "x \<in> {1..lim}" and "x = t + 1" and "t < lim"
  using word_inc_range [of t lim] unfolding draw_step_def Let_def by presburger

text \<open>The numbers a loop adds are new, different and in range, and there are just enough of them.\<close>

lemma draw_loop_result:
  assumes "draw_loop sha lim n fuel acc h = Some (Inr (acc', h'))" and "length acc < n"
  shows "\<exists>new. acc' = acc @ new \<and> length acc' = n \<and> distinct new \<and> set new \<inter> set acc = {}
    \<and> set new \<subseteq> {1..lim}"
  using assms
proof (induction fuel arbitrary: acc h)
  case 0
  then show ?case by simp
next
  case (Suc fuel)
  from Suc.prems(1) obtain t where t: "bignum_byte h = Inr t" by (cases "bignum_byte h") auto
  let ?acc = "draw_step lim t acc"
  have short: "length ?acc \<le> n" by (rule draw_step_cases [of lim t acc]) (use Suc.prems(2) in auto)
  obtain x where x: "?acc = acc @ x" "distinct x" "set x \<inter> set acc = {}" "set x \<subseteq> {1..lim}"
    by (rule draw_step_cases [of lim t acc]) fastforce+
  show ?case
  proof (cases "length ?acc < n")
    case True
    with Suc.prems(1) t have "draw_loop sha lim n fuel ?acc (Hash sha h) = Some (Inr (acc', h'))"
      by (simp add: Let_def)
    from Suc.IH [OF this True] obtain new where "acc' = ?acc @ new" "length acc' = n" "distinct new"
      "set new \<inter> set ?acc = {}" "set new \<subseteq> {1..lim}" by blast
    with x show ?thesis by (intro exI [of _ "x @ new"]) auto
  next
    case False
    with Suc.prems(1) t have "acc' = ?acc" by (simp add: Let_def)
    with False short x show ?thesis by (intro exI [of _ x]) auto
  qed
qed

text \<open>The loop ends as soon as the hash iterates have produced enough different numbers.\<close>

definition drawn :: "(byte list \<Rightarrow> byte list) \<Rightarrow> byte \<Rightarrow> byte list \<Rightarrow> nat \<Rightarrow> byte set" where
  "drawn sha lim h N = (\<lambda>x. hd x + 1) ` {x \<in> (\<lambda>i. (Hash sha ^^ i) h) ` {..<N}. hd x < lim}"

lemma drawn_Suc:
  "drawn sha lim h (Suc N) = (if hd h < lim then {hd h + 1} else {}) \<union> drawn sha lim (Hash sha h) N"
proof -
  have "(\<lambda>i. (Hash sha ^^ i) h) ` {..<Suc N} = insert h ((\<lambda>i. (Hash sha ^^ i) (Hash sha h)) ` {..<N})"
    by (simp add: lessThan_Suc_eq_insert_0 image_image funpow_swap1)
  then show ?thesis by (auto simp: drawn_def)
qed

lemma draw_step_drawn:
  assumes "bignum_byte h = Inr t"
  shows "set (draw_step lim t acc) = set acc \<union> (if hd h < lim then {hd h + 1} else {})"
  using assms by (auto simp: draw_step_def bignum_byte_def Let_def split: if_splits)

lemma draw_loop_terminates:
  assumes "n - length acc \<le> card (drawn sha lim h N - set acc)" and "length acc < n"
  shows "\<exists>r. draw_loop sha lim n N acc h = Some r"
  using assms
proof (induction N arbitrary: acc h)
  case 0
  then show ?case by (simp add: drawn_def)
next
  case (Suc N)
  show ?case
  proof (cases "bignum_byte h")
    case (Inl e)
    then show ?thesis by simp
  next
    case (Inr t)
    let ?acc = "draw_step lim t acc" and ?new = "if hd h < lim then {hd h + 1} else {}"
    let ?D = "drawn sha lim (Hash sha h) N"
    have t: "t = hd h" using Inr by (simp add: bignum_byte_def split: if_splits)
    have D: "drawn sha lim h (Suc N) - set acc \<subseteq> (?D - set ?acc) \<union> (?new - set acc)"
      using draw_step_drawn [OF Inr] by (auto simp: drawn_Suc)
    have fin: "finite ((?D - set ?acc) \<union> (?new - set acc))" by simp
    have "card (drawn sha lim h (Suc N) - set acc) \<le> card (?D - set ?acc) + card (?new - set acc)"
      using card_mono [OF fin D] card_Un_le order_trans by blast
    moreover have "length ?acc = length acc + card (?new - set acc)"
      by (auto simp: draw_step_def Let_def t insert_Diff_if)
    ultimately have "n - length ?acc \<le> card (?D - set ?acc)" using Suc.prems(1) by linarith
    then show ?thesis using Suc.IH [of ?acc "Hash sha h"] Inr by (auto simp: Let_def)
  qed
qed

lemma draw_15_6_result:
  assumes "draw_15_6 sha fuel h = Some (Inr v)"
  shows "length v = 6" and "distinct v" and "sorted v" and "set v \<subseteq> {1..15}"
proof -
  from assms obtain acc h' where "draw_loop sha 15 6 fuel [] (Hash sha h) = Some (Inr (acc, h'))"
    and v: "v = sort acc"
    by (auto simp: draw_15_6_def bindE_eq_Inr split: option.splits)
  from draw_loop_result [OF this(1)] v
  show "length v = 6" and "distinct v" and "sorted v" and "set v \<subseteq> {1..15}" by auto
qed

lemma flag_not_drawn: "set v \<subseteq> {1..lim} \<Longrightarrow> lim < gSplitFlag \<Longrightarrow> gSplitFlag \<notin> set v"
  by (auto simp: gSplitFlag_def)

lemma before_flag_append: "gSplitFlag \<notin> set v \<Longrightarrow> before_flag (v @ gSplitFlag # w) = v"
  by (simp add: before_flag_def takeWhile_append2 takeWhile_tail) (metis takeWhile_eq_all_conv takeWhile_tail append_Nil2)

lemma after_flag_append: "gSplitFlag \<notin> set v \<Longrightarrow> after_flag (v @ gSplitFlag # w) = w"
  by (simp add: after_flag_def before_flag_append)

lemma draw_MULILT_result:
  assumes "draw_MULILT sha fuel h = Some (Inr v)"
  obtains red blue where "v = red @ gSplitFlag # blue" and "length red = 5" and "length blue = 2"
    and "distinct red" and "distinct blue" and "sorted red" and "sorted blue"
    and "set red \<subseteq> {1..20}" and "set blue \<subseteq> {1..10}" and "set red \<inter> set blue = {}"
proof -
  from assms obtain red h1 p h2
    where r: "draw_loop sha 20 5 fuel [] (Hash sha h) = Some (Inr (red, h1))"
      and p: "draw_loop sha 10 8 fuel (sort red @ [gSplitFlag]) h1 = Some (Inr (p, h2))"
      and v: "v = before_flag p @ [gSplitFlag] @ sort (after_flag p)"
    by (auto simp: draw_MULILT_def bindE_eq_Inr Let_def split: option.splits sum.splits)
  from draw_loop_result [OF r] have red: "length red = 5" "distinct red" "set red \<subseteq> {1..20}" by auto
  from draw_loop_result [OF p] red(1) obtain blue where p': "p = sort red @ gSplitFlag # blue"
    "length p = 8" "distinct blue" "set blue \<inter> set (sort red @ [gSplitFlag]) = {}" "set blue \<subseteq> {1..10}"
    by auto
  have "gSplitFlag \<notin> set (sort red)"
    using red(3) by (intro flag_not_drawn [of _ 20]) (simp_all add: gSplitFlag_def)
  then have "v = sort red @ gSplitFlag # sort blue"
    using v p'(1) by (simp add: before_flag_append after_flag_append)
  then show thesis using red p' by (intro that [of "sort red" "sort blue"]) auto
qed

end
