(* ===== verification/Serialize.thy ===== *)
theory Serialize
  imports Lotto_Script
begin

text \<open>
  Serialization (\<open>serialize.h\<close>): compact sizes, variable-length integers, vectors, pairs and maps. A stream is
  the list of the bytes that remain; a read past its end and every \<open>throw\<close> of the source is the fault
  \<open>InvalidData\<close>.

  The locale \<open>codec\<close> is the contract between a writer and a reader: what was written is read back and the rest of
  the stream is left. From it follow that an encoding is never the prefix of another one and that vectors
  are read back too.
\<close>

section \<open>Fixed-size data\<close>

definition read_bytes :: "nat \<Rightarrow> byte list \<Rightarrow> (byte list \<times> byte list) result" where
  "read_bytes k s = (if length s < k then Inl InvalidData else Inr (take k s, drop k s))"

definition ser_uint :: "nat \<Rightarrow> nat \<Rightarrow> byte list" where
  "ser_uint k n = le_bytes k n"

definition unser_uint :: "nat \<Rightarrow> byte list \<Rightarrow> (nat \<times> byte list) result" where
  "unser_uint k s = bindE (read_bytes k s) (\<lambda>(b, s). Inr (le_nat b, s))"

definition ser_word :: "'a::len word \<Rightarrow> byte list" where
  "ser_word w = ser_uint (LENGTH('a) div 8) (unat w)"

definition unser_word :: "byte list \<Rightarrow> ('a::len word \<times> byte list) result" where
  "unser_word s = bindE (unser_uint (LENGTH('a) div 8) s) (\<lambda>(n, s). Inr (word_of_nat n, s))"

text \<open>Signed integers in two's complement.\<close>

definition ser_int32 :: "int \<Rightarrow> byte list" where
  "ser_int32 x = ser_word (word_of_int x :: u32)"

definition unser_int32 :: "byte list \<Rightarrow> (int \<times> byte list) result" where
  "unser_int32 s = bindE (unser_word s) (\<lambda>(w :: u32, s). Inr (sint w, s))"

definition ser_int64 :: "int \<Rightarrow> byte list" where
  "ser_int64 x = ser_word (word_of_int x :: u64)"

definition unser_int64 :: "byte list \<Rightarrow> (int \<times> byte list) result" where
  "unser_int64 s = bindE (unser_word s) (\<lambda>(w :: u64, s). Inr (sint w, s))"

section \<open>Compact sizes\<close>

definition MAX_SIZE :: nat where "MAX_SIZE = 0x02000000"

definition GetSizeOfCompactSize :: "nat \<Rightarrow> nat" where
  "GetSizeOfCompactSize nSize =
     (if nSize < 253 then 1 else if nSize \<le> 0xFFFF then 1 + 2 else if nSize \<le> 0xFFFFFFFF then 1 + 4 else 1 + 8)"

definition WriteCompactSize :: "nat \<Rightarrow> byte list" where
  "WriteCompactSize nSize =
     (if nSize < 253 then [word_of_nat nSize]
      else if nSize \<le> 0xFFFF then 253 # ser_uint 2 nSize
      else if nSize \<le> 0xFFFFFFFF then 254 # ser_uint 4 nSize
      else 255 # ser_uint 8 nSize)"

definition ReadCompactSize :: "byte list \<Rightarrow> (nat \<times> byte list) result" where
  "ReadCompactSize s =
     bindE (read_bytes 1 s) (\<lambda>(b, s). let chSize = hd b in
     bindE (if chSize < 253 then Inr (unat chSize, s)
            else if chSize = 253 then
              bindE (unser_uint 2 s) (\<lambda>(x, s). if x < 253 then Inl InvalidData else Inr (x, s))
            else if chSize = 254 then
              bindE (unser_uint 4 s) (\<lambda>(x, s). if x < 0x10000 then Inl InvalidData else Inr (x, s))
            else
              bindE (unser_uint 8 s) (\<lambda>(x, s). if x < 0x100000000 then Inl InvalidData else Inr (x, s)))
     (\<lambda>(nSizeRet, s). if nSizeRet > MAX_SIZE then Inl InvalidData else Inr (nSizeRet, s)))"

section \<open>Variable-length integers\<close>

function GetSizeOfVarInt :: "u64 \<Rightarrow> nat" where
  "GetSizeOfVarInt n = 1 + (if n \<le> 0x7F then 0 else GetSizeOfVarInt (drop_bit 7 n - 1))"
  by pat_completeness auto

text \<open>The bytes of \<open>tmp\<close>, the least significant digit first.\<close>

function varint_tmp :: "nat \<Rightarrow> u64 \<Rightarrow> byte list" where
  "varint_tmp len n = ucast ((n AND 0x7F) OR (if len \<noteq> 0 then 0x80 else 0))
     # (if n \<le> 0x7F then [] else varint_tmp (len + 1) (drop_bit 7 n - 1))"
  by pat_completeness auto

lemma varint_decreases:
  fixes n :: u64
  assumes "\<not> n \<le> 0x7F"
  shows "unat (drop_bit 7 n - 1) = unat n div 128 - 1" and "1 \<le> unat n div 128"
proof -
  have "\<not> unat n \<le> 127" using assms by (simp add: word_le_nat_alt)
  then show g: "1 \<le> unat n div 128" by (simp add: div_le_mono [of 128 "unat n" 128, simplified])
  have u: "unat (drop_bit 7 n) = unat n div 128" by (simp add: drop_bit_eq_div unat_div)
  with g have "1 \<le> drop_bit 7 n" by (simp add: word_le_nat_alt)
  then show "unat (drop_bit 7 n - 1) = unat n div 128 - 1" using u by (simp add: unat_sub)
qed

lemma varint_measure: "\<not> n \<le> 0x7F \<Longrightarrow> unat (drop_bit 7 n - 1) < unat n" for n :: u64
  using varint_decreases [of n] div_le_dividend [of "unat n" 128] by linarith

termination GetSizeOfVarInt
  by (relation "measure unat") (auto intro: varint_measure)

termination varint_tmp
  by (relation "measure (\<lambda>(len, n). unat n)") (auto intro: varint_measure)

declare GetSizeOfVarInt.simps [simp del] varint_tmp.simps [simp del]

definition WriteVarInt :: "u64 \<Rightarrow> byte list" where
  "WriteVarInt n = rev (varint_tmp 0 n)"

fun varint_loop :: "u64 \<Rightarrow> byte list \<Rightarrow> (u64 \<times> byte list) result" where
  "varint_loop n [] = Inl InvalidData"
| "varint_loop n (chData # s) =
     (let n = push_bit 7 n OR ucast (chData AND 0x7F)
      in if chData AND 0x80 \<noteq> 0 then varint_loop (n + 1) s else Inr (n, s))"

definition ReadVarInt :: "byte list \<Rightarrow> (u64 \<times> byte list) result" where
  "ReadVarInt s = varint_loop 0 s"

section \<open>Vectors, pairs and maps\<close>

fun unser_n :: "(byte list \<Rightarrow> ('a \<times> byte list) result) \<Rightarrow> nat \<Rightarrow> byte list \<Rightarrow> ('a list \<times> byte list) result" where
  "unser_n rd 0 s = Inr ([], s)"
| "unser_n rd (Suc n) s = bindE (rd s) (\<lambda>(x, s). bindE (unser_n rd n s) (\<lambda>(xs, s). Inr (x # xs, s)))"

definition ser_vector :: "('a \<Rightarrow> byte list) \<Rightarrow> 'a list \<Rightarrow> byte list" where
  "ser_vector wr v = WriteCompactSize (length v) @ concat (map wr v)"

definition unser_vector :: "(byte list \<Rightarrow> ('a \<times> byte list) result) \<Rightarrow> byte list \<Rightarrow> ('a list \<times> byte list) result" where
  "unser_vector rd s = bindE (ReadCompactSize s) (\<lambda>(n, s). unser_n rd n s)"

text \<open>Vectors of bytes and scripts are copied as a block.\<close>

definition ser_bytes :: "byte list \<Rightarrow> byte list" where
  "ser_bytes v = WriteCompactSize (length v) @ v"

definition unser_bytes :: "byte list \<Rightarrow> (byte list \<times> byte list) result" where
  "unser_bytes s = bindE (ReadCompactSize s) (\<lambda>(n, s). read_bytes n s)"

definition ser_pair :: "('a \<Rightarrow> byte list) \<Rightarrow> ('b \<Rightarrow> byte list) \<Rightarrow> 'a \<times> 'b \<Rightarrow> byte list" where
  "ser_pair wa wb item = wa (fst item) @ wb (snd item)"

definition unser_pair :: "(byte list \<Rightarrow> ('a \<times> byte list) result) \<Rightarrow> (byte list \<Rightarrow> ('b \<times> byte list) result)
    \<Rightarrow> byte list \<Rightarrow> (('a \<times> 'b) \<times> byte list) result" where
  "unser_pair ra rb s = bindE (ra s) (\<lambda>(a, s). bindE (rb s) (\<lambda>(b, s). Inr ((a, b), s)))"

text \<open>A \<open>std::map\<close> is the list of its entries in the order of the keys; \<open>insert\<close> leaves an existing entry as it is.\<close>

fun map_insert :: "('k::linorder) \<Rightarrow> 'v \<Rightarrow> ('k \<times> 'v) list \<Rightarrow> ('k \<times> 'v) list" where
  "map_insert k v [] = [(k, v)]"
| "map_insert k v ((k', v') # m) =
     (if k < k' then (k, v) # (k', v') # m else if k = k' then (k', v') # m else (k', v') # map_insert k v m)"

definition ser_map :: "('k \<Rightarrow> byte list) \<Rightarrow> ('v \<Rightarrow> byte list) \<Rightarrow> ('k \<times> 'v) list \<Rightarrow> byte list" where
  "ser_map wk wv m = WriteCompactSize (length m) @ concat (map (ser_pair wk wv) m)"

definition unser_map :: "(byte list \<Rightarrow> ('k::linorder \<times> byte list) result) \<Rightarrow> (byte list \<Rightarrow> ('v \<times> byte list) result)
    \<Rightarrow> byte list \<Rightarrow> (('k \<times> 'v) list \<times> byte list) result" where
  "unser_map rk rv s = bindE (ReadCompactSize s) (\<lambda>(n, s).
     bindE (unser_n (unser_pair rk rv) n s) (\<lambda>(items, s).
     Inr (fold (\<lambda>(k, v). map_insert k v) items [], s)))"

section \<open>The contract of a reader and a writer\<close>

locale codec =
  fixes wr :: "'a \<Rightarrow> byte list" and rd :: "byte list \<Rightarrow> ('a \<times> byte list) result" and ok :: "'a \<Rightarrow> bool"
  assumes read_back: "ok x \<Longrightarrow> rd (wr x @ r) = Inr (x, r)"
begin

lemma prefix_free:
  assumes "ok x" and "ok y" and "wr x @ r = wr y @ s"
  shows "x = y" and "r = s"
proof -
  have "Inr (x, r) = (Inr (y, s) :: ('a \<times> byte list) result)"
    using read_back [OF assms(1), of r] read_back [OF assms(2), of s] unfolding assms(3) by (rule trans [OF sym])
  then show "x = y" and "r = s" by simp_all
qed

lemma read_back_n:
  assumes "\<forall>x\<in>set xs. ok x"
  shows "unser_n rd (length xs) (concat (map wr xs) @ r) = Inr (xs, r)"
  using assms by (induction xs) (simp_all add: read_back)

end

section \<open>Fixed-size data are read back\<close>

lemma read_bytes_append [simp]: "length b = k \<Longrightarrow> read_bytes k (b @ s) = Inr (b, s)"
  by (simp add: read_bytes_def)

lemma unser_ser_uint: "n < 256 ^ k \<Longrightarrow> unser_uint k (ser_uint k n @ s) = Inr (n, s)"
  by (simp add: unser_uint_def ser_uint_def le_nat_le_bytes)

lemma unser_ser_word:
  fixes w :: "'a::len word"
  assumes "8 * (LENGTH('a) div 8) = LENGTH('a)"
  shows "unser_word (ser_word w @ s) = Inr (w, s)"
proof -
  have "256 ^ (LENGTH('a) div 8) = (2 :: nat) ^ LENGTH('a)"
    using assms power_mult [of "2 :: nat" 8 "LENGTH('a) div 8"] by simp
  then have "unat w < 256 ^ (LENGTH('a) div 8)" by (simp only: unsigned_less)
  then show ?thesis by (simp add: unser_word_def ser_word_def unser_ser_uint)
qed

lemma unser_ser_int32: "int32_range x \<Longrightarrow> unser_int32 (ser_int32 x @ s) = Inr (x, s)"
  by (simp add: unser_int32_def ser_int32_def unser_ser_word signed_of_int int32_range_def
      signed_take_bit_int_eq_self)

lemma unser_ser_int64: "int64_range x \<Longrightarrow> unser_int64 (ser_int64 x @ s) = Inr (x, s)"
  by (simp add: unser_int64_def ser_int64_def unser_ser_word signed_of_int int64_range_def
      signed_take_bit_int_eq_self)

interpretation word32: codec "ser_word :: u32 \<Rightarrow> byte list" unser_word "\<lambda>_. True"
  by unfold_locales (simp add: unser_ser_word)

interpretation word256: codec "ser_word :: 256 word \<Rightarrow> byte list" unser_word "\<lambda>_. True"
  by unfold_locales (simp add: unser_ser_word)

interpretation int32: codec ser_int32 unser_int32 int32_range
  by unfold_locales (simp add: unser_ser_int32)

interpretation int64: codec ser_int64 unser_int64 int64_range
  by unfold_locales (simp add: unser_ser_int64)


section \<open>Compact sizes and variable-length integers are read back\<close>

lemma ReadCompactSize_Write:
  assumes "n \<le> MAX_SIZE"
  shows "ReadCompactSize (WriteCompactSize n @ s) = Inr (n, s)"
proof -
  have cons: "read_bytes (Suc 0) (c # r) = Inr ([c], r)" for c :: byte and r by (simp add: read_bytes_def)
  have n: "n \<le> 0x02000000" using assms by (simp add: MAX_SIZE_def)
  consider "n < 253" | "253 \<le> n" "n \<le> 0xFFFF" | "0xFFFF < n" by linarith
  then show ?thesis
  proof cases
    case 1
    then have "word_of_nat n < (253 :: byte)" and "unat (word_of_nat n :: byte) = n"
      by (simp_all add: word_less_nat_alt unat_of_nat)
    with 1 show ?thesis by (simp add: WriteCompactSize_def ReadCompactSize_def cons MAX_SIZE_def)
  next
    case 2
    with n show ?thesis by (simp add: WriteCompactSize_def ReadCompactSize_def cons unser_ser_uint MAX_SIZE_def)
  next
    case 3
    with n show ?thesis by (simp add: WriteCompactSize_def ReadCompactSize_def cons unser_ser_uint MAX_SIZE_def)
  qed
qed

interpretation compact: codec WriteCompactSize ReadCompactSize "\<lambda>n. n \<le> MAX_SIZE"
  by unfold_locales (rule ReadCompactSize_Write)

lemma GetSizeOfCompactSize_length: "GetSizeOfCompactSize n = length (WriteCompactSize n)"
  by (simp add: GetSizeOfCompactSize_def WriteCompactSize_def ser_uint_def)

lemma varint_mask_bits:
  "bit (0x7F :: int) i \<longleftrightarrow> i < 7" "bit (0x80 :: int) i \<longleftrightarrow> i = 7"
proof -
  have "(0x7F :: int) = mask 7" "(0x80 :: int) = 2 ^ 7"
    by (simp_all add: mask_numeral)
  then show "bit (0x7F :: int) i \<longleftrightarrow> i < 7" "bit (0x80 :: int) i \<longleftrightarrow> i = 7"
    by (auto simp only: bit_mask_iff bit_exp_iff possible_bit_int)
qed

lemma varint_digit: "push_bit 7 (drop_bit 7 n) OR (n AND 0x7F) = n" for n :: u64
  by (rule bit_word_eqI) (auto simp: bit_simps varint_mask_bits)

lemma varint_small: "n \<le> 0x7F \<Longrightarrow> n AND 0x7F = n" for n :: u64
proof -
  assume "n \<le> 0x7F"
  then have "unat n < 2 ^ 7" by (simp add: word_le_nat_alt)
  then have "take_bit 7 n = n" by (intro word_unat_eq_iff [THEN iffD2]) (simp add: unsigned_take_bit_eq take_bit_nat_eq_self)
  then show "n AND 0x7F = n" by (simp add: take_bit_eq_mask mask_numeral)
qed

lemma varint_byte:
  fixes n :: u64
  shows "ucast (ucast ((n AND 0x7F) OR 0x80) AND (0x7F :: byte)) = n AND 0x7F"
    and "ucast (ucast (n AND 0x7F) AND (0x7F :: byte)) = n AND 0x7F"
    and "ucast ((n AND 0x7F) OR 0x80) AND (0x80 :: byte) = 0x80"
    and "ucast (n AND 0x7F) AND (0x80 :: byte) = 0"
  by (rule bit_word_eqI, auto simp: bit_simps varint_mask_bits)+

lemma varint_loop_flagged:
  "0 < len \<Longrightarrow> varint_loop 0 (rev (varint_tmp len n) @ s) = varint_loop (n + 1) s"
proof (induction len n arbitrary: s rule: varint_tmp.induct)
  case (1 len n)
  show ?case
  proof (cases "n \<le> 0x7F")
    case True
    then show ?thesis using 1 by (subst varint_tmp.simps) (simp add: varint_byte Let_def, simp add: varint_small)
  next
    case False
    then have "drop_bit 7 n - 1 + 1 = drop_bit 7 n" by simp
    with False 1 show ?thesis by (subst varint_tmp.simps) (simp add: varint_byte varint_digit Let_def)
  qed
qed

lemma ReadVarInt_Write: "ReadVarInt (WriteVarInt n @ s) = Inr (n, s)"
proof (cases "n \<le> 0x7F")
  case True
  then show ?thesis
    by (simp add: ReadVarInt_def WriteVarInt_def varint_tmp.simps [of 0 n] varint_byte Let_def, simp add: varint_small)
next
  case False
  then show ?thesis
    by (simp add: ReadVarInt_def WriteVarInt_def varint_tmp.simps [of 0 n] varint_loop_flagged varint_byte varint_digit Let_def)
qed

interpretation varint: codec WriteVarInt ReadVarInt "\<lambda>_. True"
  by unfold_locales (rule ReadVarInt_Write)

lemma GetSizeOfVarInt_tmp: "GetSizeOfVarInt n = length (varint_tmp len n)"
proof (induction len n rule: varint_tmp.induct)
  case (1 len n)
  then show ?case
    by (cases "n \<le> 0x7F") (simp_all add: varint_tmp.simps [of len n] GetSizeOfVarInt.simps [of n])
qed

text \<open>The number of digits: each further digit needs a number 128 times as large.\<close>

lemma varint_tmp_length: "unat n < 2 ^ (7 * k) \<Longrightarrow> 0 < k \<Longrightarrow> length (varint_tmp len n) \<le> k"
proof (induction k arbitrary: len n)
  case (Suc k)
  show ?case
  proof (cases "n \<le> 0x7F")
    case True
    then show ?thesis by (simp add: varint_tmp.simps [of len n])
  next
    case False
    have "unat n div 128 < 2 ^ (7 * k)" using Suc.prems(1) by (intro less_mult_imp_div_less) (simp add: power_add mult.commute)
    then have "unat (drop_bit 7 n - 1) < 2 ^ (7 * k)" using varint_decreases(1) [OF False] by simp
    moreover have "0 < k"
      using False Suc.prems(1) by (cases k) (simp_all add: word_le_nat_alt)
    ultimately show ?thesis using Suc.IH False by (simp add: varint_tmp.simps [of len n])
  qed
qed simp

section \<open>Vectors, pairs and maps are read back\<close>

lemma codec_vector:
  assumes "codec wr rd ok"
  shows "codec (ser_vector wr) (unser_vector rd) (\<lambda>v. length v \<le> MAX_SIZE \<and> (\<forall>x\<in>set v. ok x))"
proof
  fix v r assume "length v \<le> MAX_SIZE \<and> (\<forall>x\<in>set v. ok x)"
  then show "unser_vector rd (ser_vector wr v @ r) = Inr (v, r)"
    by (simp add: unser_vector_def ser_vector_def compact.read_back codec.read_back_n [OF assms])
qed

lemma codec_bytes: "codec ser_bytes unser_bytes (\<lambda>v. length v \<le> MAX_SIZE)"
  by unfold_locales (simp add: unser_bytes_def ser_bytes_def compact.read_back)

lemma codec_pair:
  assumes "codec wa ra oka" and "codec wb rb okb"
  shows "codec (ser_pair wa wb) (unser_pair ra rb) (\<lambda>x. oka (fst x) \<and> okb (snd x))"
proof
  fix x r assume "oka (fst x) \<and> okb (snd x)"
  then show "unser_pair ra rb (ser_pair wa wb x @ r) = Inr (x, r)"
    by (simp add: unser_pair_def ser_pair_def codec.read_back [OF assms(1)] codec.read_back [OF assms(2)])
qed

lemma map_insert_last:
  "\<forall>k'\<in>set (map fst m). k' < k \<Longrightarrow> map_insert k v m = m @ [(k, v)]"
  by (induction m) auto

lemma fold_map_insert_sorted:
  "sorted_wrt (<) (map fst (m @ items)) \<Longrightarrow> fold (\<lambda>(k, v). map_insert k v) items m = m @ items"
proof (induction items arbitrary: m)
  case (Cons kv items)
  then have "\<forall>k'\<in>set (map fst m). k' < fst kv" by (simp add: sorted_wrt_append)
  then have "map_insert (fst kv) (snd kv) m = m @ [kv]" by (simp add: map_insert_last)
  with Cons.IH [of "m @ [kv]"] Cons.prems show ?case by (simp add: case_prod_unfold)
qed simp

lemma codec_map:
  assumes "codec wk rk okk" and "codec wv rv okv"
  shows "codec (ser_map wk wv) (unser_map rk rv)
    (\<lambda>m. length m \<le> MAX_SIZE \<and> sorted_wrt (<) (map fst m) \<and> (\<forall>x\<in>set m. okk (fst x) \<and> okv (snd x)))"
proof
  fix m r assume "length m \<le> MAX_SIZE \<and> sorted_wrt (<) (map fst m) \<and> (\<forall>x\<in>set m. okk (fst x) \<and> okv (snd x))"
  then show "unser_map rk rv (ser_map wk wv m @ r) = Inr (m, r)"
    using fold_map_insert_sorted [of "[]" m]
    by (simp add: unser_map_def ser_map_def compact.read_back codec.read_back_n [OF codec_pair [OF assms]])
qed

end
