(* ===== verification/Chain_Types.thy ===== *)
theory Chain_Types
  imports Lotto_Draw Serialize
begin

text \<open>
  Transactions and blocks (\<open>core.h\<close>, \<open>core.cpp\<close>), the lottery header of a block
  (\<open>lotto/CLottoHeader.h\<close>, \<open>lotto/CLottoHeader.cpp\<close>), their wire format and the hash of a block.
\<close>

type_synonym u256 = "256 word"

section \<open>The lottery header\<close>

record CLottoHeader =
  lh_nVersion :: int
  mBitcoinHash :: "(int \<times> u256) list"
  llPool :: int
  nLottoID :: int
  uLottoKey :: u256

definition new_CLottoHeader :: CLottoHeader where
  "new_CLottoHeader = \<lparr>lh_nVersion = 1, mBitcoinHash = [], llPool = 0, nLottoID = 1, uLottoKey = 0\<rparr>"

text \<open>\<open>insert(first, last)\<close> of a range into a map.\<close>

definition map_insert_range :: "('k::linorder \<times> 'v) list \<Rightarrow> ('k \<times> 'v) list \<Rightarrow> ('k \<times> 'v) list" where
  "map_insert_range items m = fold (\<lambda>(k, v). map_insert k v) items m"

definition CLottoHeader_copy :: "CLottoHeader \<Rightarrow> CLottoHeader" where
  "CLottoHeader_copy obj =
     \<lparr>lh_nVersion = lh_nVersion obj, mBitcoinHash = map_insert_range (mBitcoinHash obj) [],
      llPool = llPool obj, nLottoID = nLottoID obj, uLottoKey = uLottoKey obj\<rparr>"

definition CLottoHeader_assign :: "CLottoHeader \<Rightarrow> CLottoHeader \<Rightarrow> CLottoHeader" where
  "CLottoHeader_assign this obj =
     \<lparr>lh_nVersion = lh_nVersion obj, mBitcoinHash = map_insert_range (mBitcoinHash obj) (mBitcoinHash this),
      llPool = llPool obj, nLottoID = nLottoID obj, uLottoKey = uLottoKey obj\<rparr>"

definition GetLastBitcoinHash :: "CLottoHeader \<Rightarrow> u256" where
  "GetLastBitcoinHash h = (if mBitcoinHash h \<noteq> [] then snd (last (mBitcoinHash h)) else 0)"

definition GetLastBitcoinHeight :: "CLottoHeader \<Rightarrow> int" where
  "GetLastBitcoinHeight h = (if mBitcoinHash h \<noteq> [] then fst (last (mBitcoinHash h)) else 0)"

definition GetFirstBitcoinHash :: "CLottoHeader \<Rightarrow> u256" where
  "GetFirstBitcoinHash h = (if mBitcoinHash h \<noteq> [] then snd (hd (mBitcoinHash h)) else 0)"

definition GetFirstBitcoinHeight :: "CLottoHeader \<Rightarrow> int" where
  "GetFirstBitcoinHeight h = (if mBitcoinHash h \<noteq> [] then fst (hd (mBitcoinHash h)) else 0)"

section \<open>Transactions\<close>

definition MAX_MONEY :: int where "MAX_MONEY = 52000000 * 100000000"

definition MoneyRange :: "int \<Rightarrow> bool" where
  "MoneyRange v \<longleftrightarrow> 0 \<le> v \<and> v \<le> MAX_MONEY"

record COutPoint =
  op_hash :: u256
  op_n :: u32

definition COutPoint_IsNull :: "COutPoint \<Rightarrow> bool" where
  "COutPoint_IsNull p \<longleftrightarrow> op_hash p = 0 \<and> op_n p = - 1"

record CTxIn =
  prevout :: COutPoint
  scriptSig :: "byte list"
  nSequence :: u32

definition CTxIn_IsFinal :: "CTxIn \<Rightarrow> bool" where
  "CTxIn_IsFinal i \<longleftrightarrow> nSequence i = 0xFFFFFFFF"

record CTransaction =
  tx_nVersion :: int
  vin :: "CTxIn list"
  vout :: "CTxOut list"
  nLockTime :: u32

definition IsCoinBase :: "CTransaction \<Rightarrow> bool" where
  "IsCoinBase tx \<longleftrightarrow> length (vin tx) = 1 \<and> COutPoint_IsNull (prevout (hd (vin tx)))"

text \<open>The sum is formed before it is tested; the test of the single value comes first in the condition.\<close>

definition GetValueOut :: "CTransaction \<Rightarrow> int result" where
  "GetValueOut tx = foldE (\<lambda>txout nValueOut.
     bindE (i64 (nValueOut + out_value txout)) (\<lambda>nValueOut.
     if \<not> MoneyRange (out_value txout) \<or> \<not> MoneyRange nValueOut then Inl InvalidData else Inr nValueOut)) (vout tx) 0"

section \<open>Blocks\<close>

record CBlockHeader =
  nVersion :: int
  hashPrevBlock :: u256
  hashMerkleRoot :: u256
  nTime :: u32
  nBits :: u32
  nNonce :: u32
  lottoHeader :: CLottoHeader

record CBlock = CBlockHeader +
  vtx :: "CTransaction list"
  vMerkleTree :: "u256 list"

section \<open>Wire format\<close>

definition ser_COutPoint :: "COutPoint \<Rightarrow> byte list" where
  "ser_COutPoint p = ser_word (op_hash p) @ ser_word (op_n p)"

definition unser_COutPoint :: "byte list \<Rightarrow> (COutPoint \<times> byte list) result" where
  "unser_COutPoint s =
     bindE (unser_word s) (\<lambda>(h, s). bindE (unser_word s) (\<lambda>(n, s). Inr (\<lparr>op_hash = h, op_n = n\<rparr>, s)))"

definition ser_CTxIn :: "CTxIn \<Rightarrow> byte list" where
  "ser_CTxIn i = ser_COutPoint (prevout i) @ ser_bytes (scriptSig i) @ ser_word (nSequence i)"

definition unser_CTxIn :: "byte list \<Rightarrow> (CTxIn \<times> byte list) result" where
  "unser_CTxIn s =
     bindE (unser_COutPoint s) (\<lambda>(p, s). bindE (unser_bytes s) (\<lambda>(sig, s). bindE (unser_word s) (\<lambda>(q, s).
     Inr (\<lparr>prevout = p, scriptSig = sig, nSequence = q\<rparr>, s))))"

definition ser_CTxOut :: "CTxOut \<Rightarrow> byte list" where
  "ser_CTxOut v = ser_int64 (out_value v) @ ser_bytes (scriptPubKey v)"

definition unser_CTxOut :: "byte list \<Rightarrow> (CTxOut \<times> byte list) result" where
  "unser_CTxOut s =
     bindE (unser_int64 s) (\<lambda>(v, s). bindE (unser_bytes s) (\<lambda>(p, s). Inr (\<lparr>out_value = v, scriptPubKey = p\<rparr>, s)))"

definition ser_CTransaction :: "CTransaction \<Rightarrow> byte list" where
  "ser_CTransaction tx =
     ser_int32 (tx_nVersion tx) @ ser_vector ser_CTxIn (vin tx) @ ser_vector ser_CTxOut (vout tx) @ ser_word (nLockTime tx)"

definition unser_CTransaction :: "byte list \<Rightarrow> (CTransaction \<times> byte list) result" where
  "unser_CTransaction s =
     bindE (unser_int32 s) (\<lambda>(v, s). bindE (unser_vector unser_CTxIn s) (\<lambda>(i, s).
     bindE (unser_vector unser_CTxOut s) (\<lambda>(p, s). bindE (unser_word s) (\<lambda>(t, s).
     Inr (\<lparr>tx_nVersion = v, vin = i, vout = p, nLockTime = t\<rparr>, s)))))"

definition ser_CLottoHeader :: "CLottoHeader \<Rightarrow> byte list" where
  "ser_CLottoHeader h = ser_int32 (lh_nVersion h) @ ser_map ser_int32 ser_word (mBitcoinHash h) @ ser_int64 (llPool h)
     @ ser_int32 (nLottoID h) @ ser_word (uLottoKey h)"

definition unser_CLottoHeader :: "byte list \<Rightarrow> (CLottoHeader \<times> byte list) result" where
  "unser_CLottoHeader s =
     bindE (unser_int32 s) (\<lambda>(v, s). bindE (unser_map unser_int32 unser_word s) (\<lambda>(m, s). bindE (unser_int64 s) (\<lambda>(p, s).
     bindE (unser_int32 s) (\<lambda>(i, s). bindE (unser_word s) (\<lambda>(k, s).
     Inr (\<lparr>lh_nVersion = v, mBitcoinHash = m, llPool = p, nLottoID = i, uLottoKey = k\<rparr>, s))))))"

definition ser_CBlockHeader :: "'a CBlockHeader_scheme \<Rightarrow> byte list" where
  "ser_CBlockHeader b = ser_int32 (nVersion b) @ ser_word (hashPrevBlock b) @ ser_word (hashMerkleRoot b)
     @ ser_word (nTime b) @ ser_word (nBits b) @ ser_word (nNonce b) @ ser_CLottoHeader (lottoHeader b)"

definition unser_CBlockHeader :: "byte list \<Rightarrow> (CBlockHeader \<times> byte list) result" where
  "unser_CBlockHeader s =
     bindE (unser_int32 s) (\<lambda>(v, s). bindE (unser_word s) (\<lambda>(p, s). bindE (unser_word s) (\<lambda>(r, s).
     bindE (unser_word s) (\<lambda>(t, s). bindE (unser_word s) (\<lambda>(b, s). bindE (unser_word s) (\<lambda>(n, s).
     bindE (unser_CLottoHeader s) (\<lambda>(h, s).
     Inr (\<lparr>nVersion = v, hashPrevBlock = p, hashMerkleRoot = r, nTime = t, nBits = b, nNonce = n, lottoHeader = h\<rparr>, s))))))))"

section \<open>Hashes\<close>

text \<open>The hash of a block: the range handed to the hash function ends at the address of the last byte of the
  serialized header, which is therefore not part of it. \<open>Hash9\<close> is an argument here.\<close>

definition CBlockHeader_GetHash :: "(byte list \<Rightarrow> u256) \<Rightarrow> 'a CBlockHeader_scheme \<Rightarrow> u256" where
  "CBlockHeader_GetHash Hash9 b = (let vHashStr = ser_CBlockHeader b in Hash9 (take (length vHashStr - 1) vHashStr))"

section \<open>The wire format is read back\<close>

definition txin_ok :: "CTxIn \<Rightarrow> bool" where
  "txin_ok i \<longleftrightarrow> length (scriptSig i) \<le> MAX_SIZE"

definition txout_ok :: "CTxOut \<Rightarrow> bool" where
  "txout_ok v \<longleftrightarrow> int64_range (out_value v) \<and> length (scriptPubKey v) \<le> MAX_SIZE"

definition tx_ok :: "CTransaction \<Rightarrow> bool" where
  "tx_ok tx \<longleftrightarrow> int32_range (tx_nVersion tx) \<and> length (vin tx) \<le> MAX_SIZE \<and> length (vout tx) \<le> MAX_SIZE
     \<and> (\<forall>i\<in>set (vin tx). txin_ok i) \<and> (\<forall>v\<in>set (vout tx). txout_ok v)"

definition lotto_header_ok :: "CLottoHeader \<Rightarrow> bool" where
  "lotto_header_ok h \<longleftrightarrow> int32_range (lh_nVersion h) \<and> int64_range (llPool h) \<and> int32_range (nLottoID h)
     \<and> length (mBitcoinHash h) \<le> MAX_SIZE \<and> sorted_wrt (<) (map fst (mBitcoinHash h))
     \<and> (\<forall>x\<in>set (mBitcoinHash h). int32_range (fst x))"

definition header_ok :: "'a CBlockHeader_scheme \<Rightarrow> bool" where
  "header_ok b \<longleftrightarrow> int32_range (nVersion b) \<and> lotto_header_ok (lottoHeader b)"

interpretation bytes: codec ser_bytes unser_bytes "\<lambda>v. length v \<le> MAX_SIZE"
  by (rule codec_bytes)

lemmas read_backs = word32.read_back word256.read_back int32.read_back int64.read_back bytes.read_back

interpretation outpoint: codec ser_COutPoint unser_COutPoint "\<lambda>_. True"
  by unfold_locales (simp add: ser_COutPoint_def unser_COutPoint_def read_backs)

interpretation txin: codec ser_CTxIn unser_CTxIn txin_ok
  by unfold_locales (simp add: ser_CTxIn_def unser_CTxIn_def txin_ok_def read_backs outpoint.read_back)

interpretation txout: codec ser_CTxOut unser_CTxOut txout_ok
  by unfold_locales (simp add: ser_CTxOut_def unser_CTxOut_def txout_ok_def read_backs)

interpretation txins: codec "ser_vector ser_CTxIn" "unser_vector unser_CTxIn"
  "\<lambda>v. length v \<le> MAX_SIZE \<and> (\<forall>x\<in>set v. txin_ok x)"
  by (rule codec_vector [OF txin.codec_axioms])

interpretation txouts: codec "ser_vector ser_CTxOut" "unser_vector unser_CTxOut"
  "\<lambda>v. length v \<le> MAX_SIZE \<and> (\<forall>x\<in>set v. txout_ok x)"
  by (rule codec_vector [OF txout.codec_axioms])

interpretation tx: codec ser_CTransaction unser_CTransaction tx_ok
  by unfold_locales (simp add: ser_CTransaction_def unser_CTransaction_def tx_ok_def read_backs txins.read_back txouts.read_back)

interpretation btcmap: codec "ser_map ser_int32 (ser_word :: u256 \<Rightarrow> byte list)" "unser_map unser_int32 unser_word"
  "\<lambda>m. length m \<le> MAX_SIZE \<and> sorted_wrt (<) (map fst m) \<and> (\<forall>x\<in>set m. int32_range (fst x) \<and> True)"
  by (rule codec_map [OF int32.codec_axioms word256.codec_axioms])

interpretation lhead: codec ser_CLottoHeader unser_CLottoHeader lotto_header_ok
  by unfold_locales (simp add: ser_CLottoHeader_def unser_CLottoHeader_def lotto_header_ok_def read_backs btcmap.read_back)

interpretation header: codec "ser_CBlockHeader :: CBlockHeader \<Rightarrow> byte list" unser_CBlockHeader header_ok
  by unfold_locales (simp add: ser_CBlockHeader_def unser_CBlockHeader_def header_ok_def read_backs lhead.read_back)

section \<open>Maps of the lottery header\<close>

definition map_sorted :: "('k::linorder \<times> 'v) list \<Rightarrow> bool" where
  "map_sorted m \<longleftrightarrow> sorted_wrt (<) (map fst m)"

lemma map_of_None_below: "map_sorted ((a, b) # m) \<Longrightarrow> k < a \<Longrightarrow> map_of m k = None"
  by (auto simp: map_sorted_def map_of_eq_None_iff)

lemma map_of_map_insert: "map_sorted m \<Longrightarrow> map_of (map_insert k v m) = [k \<mapsto> v] ++ map_of m"
proof (induction m)
  case (Cons ab m)
  obtain a b where ab: "ab = (a, b)" by force
  have "map_sorted m" using Cons.prems by (simp add: map_sorted_def)
  note IH = fun_cong [OF Cons.IH [OF this]]
  have "map_of m k = None" if "k < a" using map_of_None_below Cons.prems that by (simp add: ab)
  then show ?case by (intro ext) (auto simp: ab map_add_def IH split: option.splits)
qed simp

lemma set_map_insert: "set (map fst (map_insert k v m)) = insert k (set (map fst m))"
  by (induction k v m rule: map_insert.induct) (simp_all add: insert_commute)

lemma map_sorted_insert: "map_sorted m \<Longrightarrow> map_sorted (map_insert k v m)"
proof (induction m)
  case (Cons ab m)
  obtain a b where ab: "ab = (a, b)" by force
  have "map_sorted (map_insert k v m)" using Cons by (simp add: map_sorted_def)
  moreover have "\<forall>x\<in>set (map fst (map_insert k v m)). a < x" if "a < k"
    using Cons.prems that by (simp add: set_map_insert ab map_sorted_def del: set_map)
  ultimately show ?case using Cons.prems by (auto simp: ab map_sorted_def)
qed (simp add: map_sorted_def)

lemma map_insert_range_spec:
  "map_sorted m \<Longrightarrow> map_of (map_insert_range items m) = map_of items ++ map_of m \<and> map_sorted (map_insert_range items m)"
proof (induction items arbitrary: m)
  case (Cons kv items)
  have step: "map_insert_range (kv # items) m = map_insert_range items (map_insert (fst kv) (snd kv) m)"
    by (simp add: map_insert_range_def case_prod_unfold)
  have eq: "map_of items ++ ([fst kv \<mapsto> snd kv] ++ map_of m) = map_of (kv # items) ++ map_of m"
    by (auto simp: map_add_def fun_eq_iff split: option.splits)
  show ?case
    unfolding step eq [symmetric] map_of_map_insert [OF Cons.prems, symmetric]
    by (rule Cons.IH [OF map_sorted_insert [OF Cons.prems]])
qed (simp add: map_insert_range_def)

lemma map_sorted_unique:
  assumes "map_sorted m" and "map_sorted m'" and "map_of m = map_of m'"
  shows "m = m'"
proof -
  have d: "distinct (map fst m)" "distinct (map fst m')" and s: "sorted (map fst m)" "sorted (map fst m')"
    using assms by (auto simp: map_sorted_def strict_sorted_iff)
  have "set m = set m'" using map_of_eq_Some_iff [OF d(1)] map_of_eq_Some_iff [OF d(2)] assms(3) by auto
  then show ?thesis using d s by (intro map_sorted_distinct_set_unique [of fst]) (auto simp: distinct_map)
qed

lemma map_insert_range_same_iff:
  assumes "map_sorted m" and "map_sorted items"
  shows "map_insert_range items m = items \<longleftrightarrow> map_of m \<subseteq>\<^sub>m map_of items"
proof -
  from map_insert_range_spec [OF assms(1), of items]
  have sp: "map_of (map_insert_range items m) = map_of items ++ map_of m" "map_sorted (map_insert_range items m)" by auto
  have "map_insert_range items m = items \<longleftrightarrow> map_of items ++ map_of m = map_of items"
    using map_sorted_unique [OF sp(2) assms(2)] sp(1) by metis
  then show ?thesis by (auto simp: map_add_le_mapE map_le_map_add  map_add_def map_le_def fun_eq_iff dom_def split: option.splits)
qed

section \<open>Properties\<close>

text \<open>Transactions survive serialization: reading what was written gives the transaction back and leaves the
  rest of the stream, as long as the versions and values fit their types and no vector is longer than
  \<open>MAX_SIZE\<close>.\<close>

theorem tx_roundtrip:
  assumes "tx_ok tx"
  shows "unser_CTransaction (ser_CTransaction tx @ rest) = Inr (tx, rest)"
  using assms by (rule tx.read_back)

definition toy_tx :: CTransaction where
  "toy_tx = \<lparr>tx_nVersion = - 1, vin = [\<lparr>prevout = \<lparr>op_hash = 5, op_n = 7\<rparr>, scriptSig = [1, 2], nSequence = 9\<rparr>],
     vout = [\<lparr>out_value = 700001, scriptPubKey = [OP_LOTTO, 1, 3]\<rparr>], nLockTime = 0\<rparr>"

theorem tx_roundtrip_witness: "unser_CTransaction (ser_CTransaction toy_tx @ [42]) = Inr (toy_tx, [42])"
  by (rule tx_roundtrip) (simp add: tx_ok_def toy_tx_def int32_range_def int64_range_def txin_ok_def txout_ok_def MAX_SIZE_def)

text \<open>Assigning a lottery header takes over the Bitcoin hashes of the source only if every entry the target already
  had is also one of the source: \<open>operator=\<close> inserts into the map of the target without clearing it.\<close>

theorem CLottoHeader_assign_iff:
  assumes "map_sorted (mBitcoinHash this)" and "map_sorted (mBitcoinHash obj)"
  shows "CLottoHeader_assign this obj = obj \<longleftrightarrow> map_of (mBitcoinHash this) \<subseteq>\<^sub>m map_of (mBitcoinHash obj)"
proof -
  have "CLottoHeader_assign this obj = obj \<longleftrightarrow> map_insert_range (mBitcoinHash obj) (mBitcoinHash this) = mBitcoinHash obj"
    by (cases obj) (simp add: CLottoHeader_assign_def)
  then show ?thesis using map_insert_range_same_iff [OF assms] by simp
qed

theorem CLottoHeader_assign_iff_witness:
  "\<not> map_of [(1 :: int, 8 :: u256)] \<subseteq>\<^sub>m map_of [(1, 9)] \<and>
   CLottoHeader_assign (new_CLottoHeader\<lparr>mBitcoinHash := [(1, 8)]\<rparr>) (new_CLottoHeader\<lparr>mBitcoinHash := [(1, 9)]\<rparr>)
     \<noteq> new_CLottoHeader\<lparr>mBitcoinHash := [(1, 9)]\<rparr>"
proof -
  have "\<not> map_of [(1 :: int, 8 :: u256)] \<subseteq>\<^sub>m map_of [(1, 9)]" by (auto simp: map_le_def)
  with CLottoHeader_assign_iff [of "new_CLottoHeader\<lparr>mBitcoinHash := [(1, 8)]\<rparr>" "new_CLottoHeader\<lparr>mBitcoinHash := [(1, 9)]\<rparr>"]
  show ?thesis by (simp add: map_sorted_def)
qed

lemma le_bytes_snoc: "le_bytes (Suc k) n = le_bytes k n @ [word_of_nat (n div 256 ^ k)]"
  by (simp add: le_bytes_def)

lemma le_bytes_Cons: "le_bytes (Suc k) n = word_of_nat n # le_bytes k (n div 256)"
  unfolding le_bytes_def upt_conv_Cons [OF zero_less_Suc] map_Suc_upt [symmetric]
  by (simp add: div_mult2_eq)

lemma le_bytes_mod: "le_bytes k (n mod 256 ^ k) = le_bytes k n"
proof (induction k arbitrary: n)
  case (Suc k)
  have m: "n mod 256 ^ Suc k = 256 * (n div 256 mod 256 ^ k) + n mod 256" by (simp add: mod_mult2_eq)
  have "word_of_nat (256 * (n div 256 mod 256 ^ k) + n mod 256) = (word_of_nat n :: byte)"
    unfolding word_of_nat_eq_iff by (simp add: take_bit_eq_mod)
  moreover have "(256 * (n div 256 mod 256 ^ k) + n mod 256) div 256 = n div 256 mod 256 ^ k" by simp
  ultimately show ?case unfolding le_bytes_Cons m by (simp add: Suc.IH)
qed (simp add: le_bytes_def)

lemma ser_word256_split: "ser_word (w :: u256) = ser_uint 31 (unat w) @ [word_of_nat (unat w div 256 ^ 31)]"
  using le_bytes_snoc [of 31 "unat w"] by (simp add: ser_word_def ser_uint_def)

text \<open>The serialized header without its last byte.\<close>

lemma hashed_bytes:
  "take (length (ser_CBlockHeader b) - 1) (ser_CBlockHeader b) =
     ser_int32 (nVersion b) @ ser_word (hashPrevBlock b) @ ser_word (hashMerkleRoot b) @ ser_word (nTime b) @ ser_word (nBits b)
     @ ser_word (nNonce b) @ ser_int32 (lh_nVersion (lottoHeader b)) @ ser_map ser_int32 ser_word (mBitcoinHash (lottoHeader b))
     @ ser_int64 (llPool (lottoHeader b)) @ ser_int32 (nLottoID (lottoHeader b)) @ ser_uint 31 (unat (uLottoKey (lottoHeader b)))"
  unfolding ser_CBlockHeader_def ser_CLottoHeader_def ser_word256_split [of "uLottoKey (lottoHeader b)"]
  by (simp add: butlast_append flip: butlast_conv_take)

lemma unat_low: "unat (take_bit 248 w) = unat w mod 256 ^ 31" for w :: u256
proof -
  have "unat (take_bit 248 w) = take_bit 248 (unat w)" by (rule unsigned_take_bit_eq)
  then show ?thesis by (simp add: take_bit_eq_mod)
qed

lemma ser_uint_low: "ser_uint 31 (unat (take_bit 248 w)) = ser_uint 31 (unat w)" for w :: u256
  by (simp only: ser_uint_def unat_low le_bytes_mod)

text \<open>A header with the top byte of the key cleared serializes to the hashed bytes and a zero.\<close>

definition low_key :: "CBlockHeader \<Rightarrow> CBlockHeader" where
  "low_key b = b\<lparr>lottoHeader := (lottoHeader b)\<lparr>uLottoKey := take_bit 248 (uLottoKey (lottoHeader b))\<rparr>\<rparr>"

lemma ser_low_key:
  "ser_CBlockHeader (low_key b) = take (length (ser_CBlockHeader b) - 1) (ser_CBlockHeader b) @ [0]"
proof -
  have "unat (take_bit 248 w) div 256 ^ 31 = 0" for w :: u256 unfolding unat_low by simp
  then show ?thesis
    unfolding hashed_bytes
    by (simp add: low_key_def ser_CBlockHeader_def ser_CLottoHeader_def ser_word256_split [of "take_bit 248 w" for w] ser_uint_low)
qed

text \<open>The hash of a block does not depend on the most significant byte of the lottery key, whatever the hash
  function is: the range that is hashed stops one byte before the end of the serialized header.\<close>

theorem block_hash_ignores_key_byte:
  assumes "take_bit 248 k = take_bit 248 (uLottoKey (lottoHeader b))"
  shows "CBlockHeader_GetHash Hash9 (b\<lparr>lottoHeader := (lottoHeader b)\<lparr>uLottoKey := k\<rparr>\<rparr>) = CBlockHeader_GetHash Hash9 b"
proof -
  have "ser_uint 31 (unat k) = ser_uint 31 (unat (uLottoKey (lottoHeader b)))"
    by (metis assms ser_uint_low)
  then show ?thesis unfolding CBlockHeader_GetHash_def Let_def hashed_bytes by simp
qed

definition toy_header :: CBlockHeader where
  "toy_header = \<lparr>nVersion = 2, hashPrevBlock = 3, hashMerkleRoot = 4, nTime = 5, nBits = 6, nNonce = 7,
     lottoHeader = new_CLottoHeader\<lparr>uLottoKey := 1\<rparr>\<rparr>"

theorem block_hash_ignores_key_byte_witness:
  "CBlockHeader_GetHash (\<lambda>s. word_of_nat (length s)) (toy_header\<lparr>lottoHeader := (lottoHeader toy_header)\<lparr>uLottoKey := 2 ^ 255 + 1\<rparr>\<rparr>)
     = CBlockHeader_GetHash (\<lambda>s. word_of_nat (length s)) toy_header"
  by (rule block_hash_ignores_key_byte) (simp add: toy_header_def new_CLottoHeader_def)

text \<open>Apart from that byte the hashed bytes determine the header: two well-formed headers with the same hashed bytes
  agree in every field and in the lower 248 bits of the lottery key.\<close>

theorem hashed_bytes_determine_header:
  fixes b c :: CBlockHeader
  assumes "header_ok b" and "header_ok c"
    and "take (length (ser_CBlockHeader b) - 1) (ser_CBlockHeader b) = take (length (ser_CBlockHeader c) - 1) (ser_CBlockHeader c)"
  shows "c = b\<lparr>lottoHeader := (lottoHeader b)\<lparr>uLottoKey := uLottoKey (lottoHeader c)\<rparr>\<rparr>
    \<and> take_bit 248 (uLottoKey (lottoHeader c)) = take_bit 248 (uLottoKey (lottoHeader b))"
proof -
  have ser: "ser_CBlockHeader (low_key b) @ [] = ser_CBlockHeader (low_key c) @ []"
    unfolding ser_low_key assms(3) ..
  have "header_ok (low_key b)" and "header_ok (low_key c)"
    using assms(1,2) by (simp_all add: header_ok_def low_key_def lotto_header_ok_def)
  then have eq: "low_key b = low_key c" by (rule header.prefix_free(1)) (rule ser)
  note eqs = arg_cong [OF eq, of nVersion] arg_cong [OF eq, of hashPrevBlock] arg_cong [OF eq, of hashMerkleRoot]
    arg_cong [OF eq, of nTime] arg_cong [OF eq, of nBits] arg_cong [OF eq, of nNonce]
    arg_cong [OF eq, of "\<lambda>b. lh_nVersion (lottoHeader b)"] arg_cong [OF eq, of "\<lambda>b. mBitcoinHash (lottoHeader b)"]
    arg_cong [OF eq, of "\<lambda>b. llPool (lottoHeader b)"] arg_cong [OF eq, of "\<lambda>b. nLottoID (lottoHeader b)"]
    arg_cong [OF eq, of "\<lambda>b. uLottoKey (lottoHeader b)"]
  have "lottoHeader c = (lottoHeader b)\<lparr>uLottoKey := uLottoKey (lottoHeader c)\<rparr>"
    by (rule CLottoHeader.equality) (use eqs in \<open>simp_all add: low_key_def\<close>)
  then have "c = b\<lparr>lottoHeader := (lottoHeader b)\<lparr>uLottoKey := uLottoKey (lottoHeader c)\<rparr>\<rparr>"
    by (intro CBlockHeader.equality) (use eqs in \<open>simp_all add: low_key_def\<close>)
  then show ?thesis using eqs(11) by (simp add: low_key_def)
qed

definition toy_header' :: CBlockHeader where
  "toy_header' = toy_header\<lparr>lottoHeader := (lottoHeader toy_header)\<lparr>uLottoKey := 2 ^ 255 + 1\<rparr>\<rparr>"

theorem hashed_bytes_determine_header_witness:
  "toy_header' = toy_header\<lparr>lottoHeader := (lottoHeader toy_header)\<lparr>uLottoKey := uLottoKey (lottoHeader toy_header')\<rparr>\<rparr>
    \<and> take_bit 248 (uLottoKey (lottoHeader toy_header')) = take_bit 248 (uLottoKey (lottoHeader toy_header))"
proof (rule hashed_bytes_determine_header)
  show "header_ok toy_header" "header_ok toy_header'"
    by (simp_all add: header_ok_def lotto_header_ok_def toy_header_def toy_header'_def new_CLottoHeader_def int32_range_def int64_range_def)
  have "ser_uint 31 (unat (2 ^ 255 + 1 :: u256)) = ser_uint 31 (unat (1 :: u256))"
    using ser_uint_low [of "2 ^ 255 + 1"] by simp
  then show "take (length (ser_CBlockHeader toy_header) - 1) (ser_CBlockHeader toy_header)
      = take (length (ser_CBlockHeader toy_header') - 1) (ser_CBlockHeader toy_header')"
    unfolding hashed_bytes by (simp add: toy_header_def toy_header'_def new_CLottoHeader_def)
qed

end
