(* ===== verification/Chain_Index.thy ===== *)
theory Chain_Index
  imports Chain_Types
begin

text \<open>The entry of a block in the block index (\<open>CBlockIndex\<close> of \<open>main.h\<close>). A pointer to an entry is the hash under which \<open>mapBlockIndex\<close> owns it.\<close>

record CBlockIndex =
  phashBlock :: u256
  pprev :: "u256 option"
  nHeight :: int
  diskPos :: "nat \<times> nat"
  idx_nTime :: u32
  idx_nBits :: u32
  idx_lottoHeader :: CLottoHeader

text \<open>Following the pointer to the predecessor.\<close>

definition prev_index :: "(u256 \<Rightarrow> CBlockIndex option) \<Rightarrow> CBlockIndex \<Rightarrow> CBlockIndex option" where
  "prev_index mapBlockIndex idx = (case pprev idx of None \<Rightarrow> None | Some h \<Rightarrow> mapBlockIndex h)"

definition GetBlockTime :: "CBlockIndex \<Rightarrow> int" where
  "GetBlockTime idx = uint (idx_nTime idx)"

end
