(* ===== verification/Fuel.thy ===== *)
theory Fuel
  imports Prelude
begin

text \<open>
  Sequencing for operations that may fail and that carry fuel: \<open>None\<close> is out of fuel, \<open>Some (Inl e)\<close> a fault, \<open>Some (Inr x)\<close> the
  value \<open>x\<close>. A loop over a list ends at the first element whose body does not give a value.
\<close>

definition bindF :: "'a result option \<Rightarrow> ('a \<Rightarrow> 'b result option) \<Rightarrow> 'b result option" where
  "bindF r f = (case r of None \<Rightarrow> None | Some (Inl e) \<Rightarrow> Some (Inl e) | Some (Inr x) \<Rightarrow> f x)"

abbreviation returnF :: "'a \<Rightarrow> 'a result option" where
  "returnF x \<equiv> Some (Inr x)"

lemma bindF_simps [simp, result_simps]:
  "bindF (Some (Inr x)) f = f x"
  "bindF (Some (Inl e)) f = Some (Inl e)"
  "bindF None f = None"
  by (simp_all add: bindF_def)

lemma bindF_eq_Inr [result_simps]:
  "bindF r f = Some (Inr y) \<longleftrightarrow> (\<exists>x. r = Some (Inr x) \<and> f x = Some (Inr y))"
  by (auto simp: bindF_def split: option.splits sum.splits)

lemma bindF_InrE:
  assumes "bindF r f = Some (Inr y)"
  obtains x where "r = Some (Inr x)" and "f x = Some (Inr y)"
  using assms by (auto simp: bindF_eq_Inr)

fun foldF :: "('a \<Rightarrow> 's \<Rightarrow> 's result option) \<Rightarrow> 'a list \<Rightarrow> 's \<Rightarrow> 's result option" where
  "foldF f [] s = returnF s"
| "foldF f (x # xs) s = bindF (f x s) (foldF f xs)"

lemma foldF_append [result_simps]:
  "foldF f (xs @ ys) s = bindF (foldF f xs s) (foldF f ys)"
  by (induction xs arbitrary: s) (auto simp: bindF_def split: option.splits sum.splits)

text \<open>An invariant of a loop, and an invariant that also records what each finished element has established.\<close>

lemma foldF_invariant:
  assumes "foldF f xs s = Some (Inr t)" and "P s"
    and "\<And>x s s'. x \<in> set xs \<Longrightarrow> P s \<Longrightarrow> f x s = Some (Inr s') \<Longrightarrow> P s'"
  shows "P t"
  using assms by (induction xs arbitrary: s) (auto simp: bindF_eq_Inr)

lemma foldF_establishes:
  assumes "foldF f xs s = Some (Inr t)" and "P s"
    and step: "\<And>x s s'. x \<in> set xs \<Longrightarrow> P s \<Longrightarrow> f x s = Some (Inr s') \<Longrightarrow> P s' \<and> Q x s'"
    and keep: "\<And>x y s s'. y \<in> set xs \<Longrightarrow> P s \<Longrightarrow> f y s = Some (Inr s') \<Longrightarrow> Q x s \<Longrightarrow> Q x s'"
  shows "P t \<and> (\<forall>x\<in>set xs. Q x t)"
  using assms
proof (induction xs arbitrary: s)
  case (Cons x xs)
  from Cons.prems(1) obtain u where u: "f x s = Some (Inr u)" "foldF f xs u = Some (Inr t)" by (auto simp: bindF_eq_Inr)
  have pu: "P u \<and> Q x u" using Cons.prems(2,3) u(1) by auto
  have "P t \<and> (\<forall>y\<in>set xs. Q y t)"
    by (rule Cons.IH [OF u(2)]) (use pu in simp, rule Cons.prems(3), simp_all, rule Cons.prems(4), simp_all)
  moreover have "P t \<and> Q x t"
  proof (rule foldF_invariant [where P = "\<lambda>s. P s \<and> Q x s", OF u(2) pu])
    fix y s s' assume y: "y \<in> set xs" "P s \<and> Q x s" "f y s = Some (Inr s')"
    show "P s' \<and> Q x s'" using Cons.prems(3) [of y s s'] Cons.prems(4) [of y s s' x] y by simp
  qed
  ultimately show ?case by simp
qed simp

text \<open>A loop whose body always gives a value under an invariant gives one.\<close>

lemma foldF_total:
  assumes "P s" and "\<And>x s. x \<in> set xs \<Longrightarrow> P s \<Longrightarrow> \<exists>s'. f x s = Some (Inr s') \<and> P s'"
  shows "\<exists>t. foldF f xs s = Some (Inr t) \<and> P t"
  using assms
proof (induction xs arbitrary: s)
  case (Cons x xs)
  then obtain u where "f x s = Some (Inr u)" "P u" by (meson list.set_intros(1))
  with Cons.IH [of u] Cons.prems(2) show ?case by simp
qed simp

end
