(* ===== verification/Chain_Select.thy ===== *)
theory Chain_Select
  imports Chain_Index Fuel "HOL-Library.Product_Lexorder"
begin

text \<open>
  The tree of known blocks and the chains in it: \<open>CChain\<close> and \<open>CBlockIndexWorkComparator\<close> of \<open>main.h\<close>; \<open>CChain::SetTip\<close> and
  \<open>FindMostWorkChain\<close> of \<open>main.cpp\<close>.

  A pointer to an entry of the index is its hash, \<open>None\<close> is the null pointer. Entries are never deleted while the node runs, so
  pointers do not dangle (\<open>index_wf\<close>). A loop that follows \<open>pprev\<close> is a recursion over the \<open>lineage\<close> of an entry, the list of
  the entry and its ancestors. Addresses, which the comparator uses as a last resort, are a parameter.

  \<open>SetTip\<close> yields the lineage of the new tip whatever chain was there before. \<open>FindMostWorkChain\<close> ends if no candidate is marked as
  failed, and leaves the best candidate that has no failed ancestor and no outdated Bitcoin hash.
\<close>

section \<open>Entries and chains\<close>

record CBlockNode = CBlockIndex +
  nd_nVersion :: int
  nChainWork :: u256
  nStatus :: u32
  nSequenceId :: u32
  nd_nTx :: u32
  nChainTx :: u32

type_synonym block_index = "u256 \<rightharpoonup> CBlockNode"
type_synonym CChain = "u256 option list"

definition BLOCK_VALID_TRANSACTIONS :: u32 where "BLOCK_VALID_TRANSACTIONS = 3"
definition BLOCK_VALID_SCRIPTS :: u32 where "BLOCK_VALID_SCRIPTS = 5"
definition BLOCK_VALID_MASK :: u32 where "BLOCK_VALID_MASK = 7"
definition BLOCK_HAVE_DATA :: u32 where "BLOCK_HAVE_DATA = 8"
definition BLOCK_HAVE_UNDO :: u32 where "BLOCK_HAVE_UNDO = 16"
definition BLOCK_FAILED_VALID :: u32 where "BLOCK_FAILED_VALID = 32"
definition BLOCK_FAILED_CHILD :: u32 where "BLOCK_FAILED_CHILD = 64"
definition BLOCK_FAILED_MASK :: u32 where "BLOCK_FAILED_MASK = 96"

text \<open>Following a pointer.\<close>

definition height :: "block_index \<Rightarrow> u256 \<Rightarrow> nat" where
  "height idx p = (case idx p of None \<Rightarrow> 0 | Some e \<Rightarrow> nat (nHeight e))"

definition parent :: "block_index \<Rightarrow> u256 \<Rightarrow> u256 option" where
  "parent idx p = (case idx p of None \<Rightarrow> None | Some e \<Rightarrow> pprev e)"

definition failed :: "block_index \<Rightarrow> u256 \<Rightarrow> bool" where
  "failed idx p \<longleftrightarrow> (case idx p of None \<Rightarrow> False | Some e \<Rightarrow> nStatus e AND BLOCK_FAILED_MASK \<noteq> 0)"

text \<open>An entry and its ancestors. Heights fall along \<open>pprev\<close>, so the height of the entry is enough fuel.\<close>

fun walk :: "block_index \<Rightarrow> nat \<Rightarrow> u256 option \<Rightarrow> u256 list" where
  "walk idx n None = []"
| "walk idx 0 (Some p) = [p]"
| "walk idx (Suc n) (Some p) = p # walk idx n (parent idx p)"

definition lineage :: "block_index \<Rightarrow> u256 option \<Rightarrow> u256 list" where
  "lineage idx p = (case p of None \<Rightarrow> [] | Some q \<Rightarrow> walk idx (height idx q) p)"

definition chain_get :: "CChain \<Rightarrow> int \<Rightarrow> u256 option" where
  "chain_get vChain h = (if h < 0 \<or> h \<ge> int (length vChain) then None else vChain ! nat h)"

definition Genesis :: "CChain \<Rightarrow> u256 option" where
  "Genesis vChain = (if length vChain > 0 then vChain ! 0 else None)"

definition Tip :: "CChain \<Rightarrow> u256 option" where
  "Tip vChain = (if length vChain > 0 then vChain ! (length vChain - 1) else None)"

definition Contains :: "block_index \<Rightarrow> CChain \<Rightarrow> u256 \<Rightarrow> bool" where
  "Contains idx vChain p \<longleftrightarrow> chain_get vChain (int (height idx p)) = Some p"

definition Next :: "block_index \<Rightarrow> CChain \<Rightarrow> u256 \<Rightarrow> u256 option" where
  "Next idx vChain p = (if Contains idx vChain p then chain_get vChain (int (height idx p) + 1) else None)"

definition Height :: "CChain \<Rightarrow> int" where
  "Height vChain = int (length vChain) - 1"

fun settip_loop :: "block_index \<Rightarrow> u256 list \<Rightarrow> CChain \<Rightarrow> CChain \<times> u256 option" where
  "settip_loop idx [] vChain = (vChain, None)"
| "settip_loop idx (p # r) vChain =
     (if vChain ! height idx p \<noteq> Some p then settip_loop idx r (vChain[height idx p := Some p]) else (vChain, Some p))"

definition resize_chain :: "nat \<Rightarrow> CChain \<Rightarrow> CChain" where
  "resize_chain n vChain = take n vChain @ replicate (n - length vChain) None"

definition SetTip :: "block_index \<Rightarrow> u256 option \<Rightarrow> CChain \<Rightarrow> CChain \<times> u256 option" where
  "SetTip idx pindex vChain = (case pindex of
     None \<Rightarrow> ([], None)
   | Some p \<Rightarrow> settip_loop idx (lineage idx pindex) (resize_chain (height idx p + 1) vChain))"

section \<open>Well-formed indexes\<close>

definition index_wf :: "block_index \<Rightarrow> bool" where
  "index_wf idx \<longleftrightarrow> (\<forall>p e. idx p = Some e \<longrightarrow> phashBlock e = p \<and>
     (case pprev e of None \<Rightarrow> nHeight e = 0 | Some q \<Rightarrow> \<exists>f. idx q = Some f \<and> 0 \<le> nHeight f \<and> nHeight e = nHeight f + 1))"

lemma parent_height:
  assumes "index_wf idx" and "idx p = Some e"
  shows "parent idx p = None \<Longrightarrow> height idx p = 0" "parent idx p = Some q \<Longrightarrow> height idx p = Suc (height idx q) \<and> (\<exists>f. idx q = Some f)"
  using assms by (force simp: index_wf_def parent_def height_def nat_add_distrib split: option.splits)+

lemma lineage_simps:
  assumes "index_wf idx" and "idx p = Some e"
  shows "lineage idx None = []" "lineage idx (Some p) = p # lineage idx (parent idx p)"
proof -
  show "lineage idx None = []" by (simp add: lineage_def)
  show "lineage idx (Some p) = p # lineage idx (parent idx p)"
  proof (cases "parent idx p")
    case None
    then show ?thesis using parent_height(1) [OF assms None] by (simp add: lineage_def)
  next
    case (Some q)
    then show ?thesis using parent_height(2) [OF assms Some] by (simp add: lineage_def)
  qed
qed

lemma lineage_nonempty [simp]: "lineage idx (Some p) \<noteq> []" "lineage idx None = []"
  by (cases "height idx p") (simp_all add: lineage_def)

lemma lineage_induct [consumes 2, case_names root step]:
  assumes wf: "index_wf idx" and "idx p = Some e"
    and root: "\<And>p e. idx p = Some e \<Longrightarrow> parent idx p = None \<Longrightarrow> height idx p = 0 \<Longrightarrow> P p"
    and step: "\<And>p e q f. idx p = Some e \<Longrightarrow> parent idx p = Some q \<Longrightarrow> idx q = Some f \<Longrightarrow> height idx p = Suc (height idx q) \<Longrightarrow> P q \<Longrightarrow> P p"
  shows "P p"
  using assms(2)
proof (induction "height idx p" arbitrary: p e rule: less_induct)
  case less
  show ?case
  proof (cases "parent idx p")
    case None
    with root less.prems parent_height(1) [OF wf less.prems] show ?thesis by blast
  next
    case (Some q)
    with parent_height(2) [OF wf less.prems Some] step less show ?thesis by (metis lessI)
  qed
qed

lemma lineage_length:
  assumes "index_wf idx" and "idx p = Some e"
  shows "length (lineage idx (Some p)) = Suc (height idx p)"
  using assms
proof (induction rule: lineage_induct)
  case (root p e)
  then show ?case using lineage_simps [OF assms(1) root(1)] by simp
next
  case (step p e q f)
  then show ?case using lineage_simps [OF assms(1) step(1)] by simp
qed

text \<open>The chain with a given tip: its lineage from the genesis block up.\<close>

definition chain_of :: "block_index \<Rightarrow> u256 option \<Rightarrow> CChain" where
  "chain_of idx p = map Some (rev (lineage idx p))"

lemma chain_of_None [simp]: "chain_of idx None = []"
  by (simp add: chain_of_def)

lemma chain_of_step:
  assumes "index_wf idx" and "idx p = Some e"
  shows "chain_of idx (Some p) = chain_of idx (parent idx p) @ [Some p]" "length (chain_of idx (Some p)) = Suc (height idx p)"
  using lineage_simps [OF assms] lineage_length [OF assms] by (simp_all add: chain_of_def)

lemma chain_of_parent_length:
  assumes "index_wf idx" and "idx p = Some e"
  shows "length (chain_of idx (parent idx p)) = height idx p"
  using chain_of_step [OF assms] by simp

lemma Tip_chain_of [simp]: "index_wf idx \<Longrightarrow> idx p = Some e \<Longrightarrow> Tip (chain_of idx (Some p)) = Some p"
  by (simp add: Tip_def chain_of_step nth_append chain_of_parent_length)


lemma lineage_mem:
  assumes "index_wf idx" and "idx t = Some e"
  shows "p \<in> set (lineage idx (Some t)) \<Longrightarrow>
    (\<exists>f. idx p = Some f) \<and> height idx p \<le> height idx t \<and> take (Suc (height idx p)) (chain_of idx (Some t)) = chain_of idx (Some p)"
  using assms
proof (induction rule: lineage_induct)
  case (root t e)
  then show ?case using lineage_simps [OF assms(1) root(1)] chain_of_step [OF assms(1) root(1)] by simp
next
  case (step t e q f)
  note l = lineage_simps [OF assms(1) step(1)] and c = chain_of_step [OF assms(1) step(1)] and cq = chain_of_step [OF assms(1) step(3)]
  from step.prems consider "p = t" | "p \<in> set (lineage idx (Some q))" using step(2) l by auto
  then show ?case
  proof cases
    case 1
    then show ?thesis using c step(1) by simp
  next
    case 2
    then show ?thesis using step.IH step(4) by (auto simp: c(1) step(2) cq(2))
  qed
qed

lemma Contains_chain_of:
  assumes "index_wf idx" and "idx t = Some e"
  shows "Contains idx (chain_of idx (Some t)) p \<longleftrightarrow> p \<in> set (lineage idx (Some t))"
proof
  assume "Contains idx (chain_of idx (Some t)) p"
  then have "height idx p < length (chain_of idx (Some t))" "chain_of idx (Some t) ! height idx p = Some p"
    by (auto simp: Contains_def chain_get_def split: if_splits)
  then have "Some p \<in> set (chain_of idx (Some t))" using nth_mem by metis
  then show "p \<in> set (lineage idx (Some t))" by (auto simp: chain_of_def)
next
  assume a: "p \<in> set (lineage idx (Some t))"
  from lineage_mem [OF assms a] obtain f where f: "idx p = Some f" and m: "height idx p \<le> height idx t"
    "take (Suc (height idx p)) (chain_of idx (Some t)) = chain_of idx (Some p)" by blast
  have "take (Suc (height idx p)) (chain_of idx (Some t)) ! height idx p = Some p"
    unfolding m(2) using chain_of_step [OF assms(1) f] by (simp add: nth_append)
  then show "Contains idx (chain_of idx (Some t)) p" using m(1) chain_of_step(2) [OF assms] by (simp add: Contains_def chain_get_def)
qed

text \<open>A pointer that is null or points to an entry.\<close>

definition valid_ptr :: "block_index \<Rightarrow> u256 option \<Rightarrow> bool" where
  "valid_ptr idx t \<longleftrightarrow> (\<forall>p. t = Some p \<longrightarrow> idx p \<noteq> None)"

lemma valid_ptr_simps [simp]: "valid_ptr idx None" "valid_ptr idx (Some p) \<longleftrightarrow> idx p \<noteq> None"
  by (simp_all add: valid_ptr_def)

lemma valid_parent: "index_wf idx \<Longrightarrow> valid_ptr idx (parent idx p)"
  by (auto simp: valid_ptr_def index_wf_def parent_def split: option.splits) fastforce

lemma Contains_prefix:
  assumes "index_wf idx" and "valid_ptr idx t" and "Contains idx (chain_of idx t) q"
  shows "take (Suc (height idx q)) (chain_of idx t) = chain_of idx (Some q)" "height idx q < length (chain_of idx t)"
proof -
  from assms(3) obtain p where t: "t = Some p" by (cases t) (auto simp: Contains_def chain_get_def)
  with assms(2) obtain e where e: "idx p = Some e" by auto
  have q: "q \<in> set (lineage idx (Some p))" using assms(3) Contains_chain_of [OF assms(1) e] by (simp add: t)
  show "take (Suc (height idx q)) (chain_of idx t) = chain_of idx (Some q)" using lineage_mem [OF assms(1) e q] by (simp add: t)
  show "height idx q < length (chain_of idx t)" using lineage_mem [OF assms(1) e q] chain_of_step(2) [OF assms(1) e] by (simp add: t)
qed

lemma settip_loop_correct:
  assumes wf: "index_wf idx" and t: "valid_ptr idx t" and "idx q = Some e"
    and "take (Suc (height idx q)) v = take (Suc (height idx q)) (resize_chain n (chain_of idx t))" and "height idx q < length v"
  shows "fst (settip_loop idx (lineage idx (Some q)) v) = chain_of idx (Some q) @ drop (Suc (height idx q)) v"
  using wf assms(3-5)
proof (induction arbitrary: v rule: lineage_induct)
  case (root q e)
  have "v \<noteq> []" using root by auto
  then show ?case using root chain_of_step [OF wf root(1)] lineage_simps [OF wf root(1)] by (cases v) auto
next
  case (step q e r f)
  let ?h = "height idx q" and ?c = "chain_of idx t"
  note l = lineage_simps(2) [OF wf step(1)]
  show ?case
  proof (cases "v ! ?h = Some q")
    case True
    have "take (Suc ?h) (resize_chain n ?c) ! ?h = Some q" using True step.prems(1) by (metis lessI nth_take)
    then have at: "resize_chain n ?c ! ?h = Some q" by simp
    have "?h < length (resize_chain n ?c)" using arg_cong [OF step.prems(1), of length] step.prems(2) by simp
    with at have nth: "?h < length ?c" "?c ! ?h = Some q" "?h < n"
      by (auto simp: resize_chain_def nth_append split: if_splits)
    then have "Contains idx ?c q" by (simp add: Contains_def chain_get_def)
    from Contains_prefix(1) [OF wf t this] show ?thesis
      using True l step.prems(1) nth by (simp add: resize_chain_def min_def) (metis append_take_drop_id)
  next
    case False
    let ?v = "v[?h := Some q]"
    have "take (Suc (height idx r)) ?v = take (Suc (height idx r)) (resize_chain n ?c)"
      using arg_cong [OF step.prems(1), of "take ?h"] step(4) by (simp add: min_def)
    from step.IH [OF this] have "fst (settip_loop idx (lineage idx (Some r)) ?v) = chain_of idx (Some r) @ drop ?h ?v"
      using step.prems(2) step(4) by simp
    moreover have "drop ?h ?v = Some q # drop (Suc ?h) v" using step.prems(2) by (simp add: Cons_nth_drop_Suc [symmetric])
    ultimately show ?thesis using False l step(2) chain_of_step(1) [OF wf step(1)] by simp
  qed
qed


lemma resize_chain_length [simp]: "length (resize_chain n v) = n"
  by (simp add: resize_chain_def)

theorem SetTip_chain:
  assumes "index_wf idx" and "valid_ptr idx t" and "valid_ptr idx p"
  shows "fst (SetTip idx p (chain_of idx t)) = chain_of idx p"
proof (cases p)
  case (Some q)
  with assms(3) obtain e where e: "idx q = Some e" by auto
  let ?v = "resize_chain (height idx q + 1) (chain_of idx t)"
  have "fst (settip_loop idx (lineage idx (Some q)) ?v) = chain_of idx (Some q) @ drop (Suc (height idx q)) ?v"
    by (rule settip_loop_correct [OF assms(1,2) e, where n = "height idx q + 1"]) simp_all
  then show ?thesis by (simp add: SetTip_def Some)
qed (simp add: SetTip_def)

section \<open>The order of the candidates\<close>

definition work_less :: "(u256 \<Rightarrow> nat) \<Rightarrow> block_index \<Rightarrow> u256 \<Rightarrow> u256 \<Rightarrow> bool" where
  "work_less addr idx pa pb = (case (idx pa, idx pb) of
     (Some a, Some b) \<Rightarrow>
       if nChainWork a > nChainWork b then False
       else if nChainWork a < nChainWork b then True
       else if 0 \<noteq> uLottoKey (idx_lottoHeader a) \<and> 0 = uLottoKey (idx_lottoHeader b) then False
       else if 0 = uLottoKey (idx_lottoHeader a) \<and> 0 \<noteq> uLottoKey (idx_lottoHeader b) then True
       else if nSequenceId a < nSequenceId b then False
       else if nSequenceId a > nSequenceId b then True
       else if addr pa < addr pb then False
       else if addr pa > addr pb then True
       else False
   | _ \<Rightarrow> False)"

text \<open>\<open>std::set\<close> with the comparator: a list in ascending order; an element is found by equivalence.\<close>

definition cset_insert :: "(u256 \<Rightarrow> u256 \<Rightarrow> bool) \<Rightarrow> u256 \<Rightarrow> u256 list \<Rightarrow> u256 list" where
  "cset_insert lt p xs = takeWhile (\<lambda>q. lt q p) xs @ (case dropWhile (\<lambda>q. lt q p) xs of
     [] \<Rightarrow> [p] | q # r \<Rightarrow> if lt p q then p # q # r else q # r)"

definition cset_erase :: "(u256 \<Rightarrow> u256 \<Rightarrow> bool) \<Rightarrow> u256 \<Rightarrow> u256 list \<Rightarrow> u256 list" where
  "cset_erase lt p xs = filter (\<lambda>q. lt q p \<or> lt p q) xs"

text \<open>More work, then a lottery key, then earlier arrival, then the lower address.\<close>

definition work_key :: "(u256 \<Rightarrow> nat) \<Rightarrow> block_index \<Rightarrow> u256 \<Rightarrow> nat \<times> bool \<times> int \<times> int" where
  "work_key addr idx p = (case idx p of None \<Rightarrow> (0, False, 0, 0)
     | Some e \<Rightarrow> (unat (nChainWork e), uLottoKey (idx_lottoHeader e) \<noteq> 0, - uint (nSequenceId e), - int (addr p)))"

lemma work_less_iff:
  assumes "idx p \<noteq> None" and "idx q \<noteq> None"
  shows "work_less addr idx p q \<longleftrightarrow> work_key addr idx p < work_key addr idx q"
proof -
  from assms obtain a b where e: "idx p = Some a" "idx q = Some b" by auto
  have w: "nChainWork a < nChainWork b \<Longrightarrow> unat (nChainWork a) < unat (nChainWork b)" "nChainWork b < nChainWork a \<Longrightarrow> unat (nChainWork b) < unat (nChainWork a)"
    "nSequenceId a < nSequenceId b \<Longrightarrow> uint (nSequenceId a) < uint (nSequenceId b)" "nSequenceId b < nSequenceId a \<Longrightarrow> uint (nSequenceId b) < uint (nSequenceId a)"
    by (simp_all only: word_less_nat_alt, simp_all add: word_less_nat_alt [symmetric] word_less_def)
  show ?thesis
  proof (cases "nChainWork a" "nChainWork b" rule: linorder_cases)
    case equal
    show ?thesis
    proof (cases "nSequenceId a" "nSequenceId b" rule: linorder_cases)
      case less
      then show ?thesis using w(3) equal by (simp add: work_less_def work_key_def e less_bool_def)
    next
      case greater
      then show ?thesis using w(4) equal by (auto simp: work_less_def work_key_def e less_bool_def)
    qed (use equal in \<open>auto simp: work_less_def work_key_def e less_bool_def\<close>)
  qed (use w in \<open>auto simp: work_less_def work_key_def e\<close>)
qed

lemma work_key_inj:
  assumes "inj_on addr (dom idx)" and "idx p \<noteq> None" and "idx q \<noteq> None" and "work_key addr idx p = work_key addr idx q"
  shows "p = q"
  using assms by (auto simp: work_key_def inj_on_def dom_def)

lemma cset_erase_set:
  assumes "inj_on addr (dom idx)" and "set xs \<subseteq> dom idx" and "p \<in> dom idx"
  shows "cset_erase (work_less addr idx) p xs = filter (\<lambda>q. q \<noteq> p) xs"
proof -
  have "work_less addr idx q p \<or> work_less addr idx p q \<longleftrightarrow> q \<noteq> p" if "q \<in> set xs" for q
  proof -
    have d: "idx q \<noteq> None" "idx p \<noteq> None" using that assms(2,3) by auto
    show ?thesis using work_key_inj [OF assms(1) d] unfolding work_less_iff [OF d] work_less_iff [OF d(2,1)] by (metis linorder_less_linear order_less_irrefl)
  qed
  then show ?thesis unfolding cset_erase_def by (intro filter_cong) simp_all
qed

section \<open>The chain with the most work\<close>

record node_state =
  ns_index :: block_index
  chainActive :: CChain
  chainMostWork :: CChain
  setBlockIndexValid :: "u256 list"
  pindexBestInvalid :: "u256 option"

definition valid_erase :: "(u256 \<Rightarrow> nat) \<Rightarrow> u256 \<Rightarrow> 'a node_state_scheme \<Rightarrow> 'a node_state_scheme" where
  "valid_erase addr p st = st\<lparr>setBlockIndexValid := cset_erase (work_less addr (ns_index st)) p (setBlockIndexValid st)\<rparr>"

definition set_most :: "u256 option \<Rightarrow> 'a node_state_scheme \<Rightarrow> 'a node_state_scheme" where
  "set_most p st = st\<lparr>chainMostWork := fst (SetTip (ns_index st) p (chainMostWork st))\<rparr>"

definition or_status :: "u32 \<Rightarrow> u256 \<Rightarrow> 'a node_state_scheme \<Rightarrow> 'a node_state_scheme" where
  "or_status m p st = st\<lparr>ns_index := (ns_index st)(p := (case ns_index st p of None \<Rightarrow> None | Some e \<Rightarrow> Some (e\<lparr>nStatus := nStatus e OR m\<rparr>)))\<rparr>"

definition chain_work :: "block_index \<Rightarrow> u256 \<Rightarrow> u256" where
  "chain_work idx p = (case idx p of None \<Rightarrow> 0 | Some e \<Rightarrow> nChainWork e)"

definition note_invalid :: "u256 \<Rightarrow> 'a node_state_scheme \<Rightarrow> 'a node_state_scheme" where
  "note_invalid p st = (case pindexBestInvalid st of
     None \<Rightarrow> st\<lparr>pindexBestInvalid := Some p\<rparr>
   | Some b \<Rightarrow> if chain_work (ns_index st) p > chain_work (ns_index st) b then st\<lparr>pindexBestInvalid := Some p\<rparr> else st)"

text \<open>The Bitcoin headers a block names are those of the Bitcoin chain, as far as it is known.\<close>

definition CheckBTCHashValid :: "(int \<Rightarrow> CBlockIndex option) \<Rightarrow> block_index \<Rightarrow> u256 \<Rightarrow> bool" where
  "CheckBTCHashValid btc idx p \<longleftrightarrow> (case idx p of None \<Rightarrow> True | Some e \<Rightarrow>
     list_all (\<lambda>(h, hash). case btc h of None \<Rightarrow> True | Some b \<Rightarrow> hash = phashBlock b) (mBitcoinHash (idx_lottoHeader e)))"

fun drop_failed :: "(u256 \<Rightarrow> nat) \<Rightarrow> u256 list \<Rightarrow> 'a node_state_scheme \<Rightarrow> 'a node_state_scheme" where
  "drop_failed addr [] st = st"
| "drop_failed addr (p # r) st =
     (if failed (ns_index st) p then drop_failed addr r (set_most (parent (ns_index st) p) (valid_erase addr p st)) else st)"

fun failed_ancestor :: "block_index \<Rightarrow> CChain \<Rightarrow> u256 list \<Rightarrow> u256 option" where
  "failed_ancestor idx active [] = None"
| "failed_ancestor idx active (p # r) =
     (if Contains idx active p then None else if failed idx p then Some p else failed_ancestor idx active r)"

fun fail_children :: "(u256 \<Rightarrow> nat) \<Rightarrow> u256 \<Rightarrow> u256 list \<Rightarrow> 'a node_state_scheme \<Rightarrow> 'a node_state_scheme" where
  "fail_children addr t [] st = st"
| "fail_children addr t (p # r) st =
     (if p = t then st else fail_children addr t r (valid_erase addr p (or_status BLOCK_FAILED_CHILD p st)))"

text \<open>The loop for a candidate; \<open>Some (None, _)\<close> is the return on an empty set, \<open>None\<close> is out of fuel.\<close>

fun find_candidate :: "(u256 \<Rightarrow> nat) \<Rightarrow> (int \<Rightarrow> CBlockIndex option) \<Rightarrow> nat \<Rightarrow> 'a node_state_scheme \<Rightarrow> (u256 option \<times> 'a node_state_scheme) option" where
  "find_candidate addr btc 0 st = None"
| "find_candidate addr btc (Suc fuel) st =
     (if setBlockIndexValid st = [] then Some (None, st)
      else let pindexNew = last (setBlockIndexValid st) in
        if \<not> CheckBTCHashValid btc (ns_index st) pindexNew then find_candidate addr btc fuel (valid_erase addr pindexNew st)
        else let path = lineage (ns_index st) (Some pindexNew) in
          case failed_ancestor (ns_index st) (chainActive st) path of
            None \<Rightarrow> Some (Some pindexNew, st)
          | Some pindexTest \<Rightarrow> find_candidate addr btc fuel (fail_children addr pindexTest path (note_invalid pindexNew st)))"

definition FindMostWorkChain :: "(u256 \<Rightarrow> nat) \<Rightarrow> (int \<Rightarrow> CBlockIndex option) \<Rightarrow> nat \<Rightarrow> 'a node_state_scheme \<Rightarrow> 'a node_state_scheme option" where
  "FindMostWorkChain addr btc fuel st =
     (let st = drop_failed addr (lineage (ns_index st) (Tip (chainMostWork st))) st in
      case find_candidate addr btc fuel st of
        None \<Rightarrow> None
      | Some (None, st) \<Rightarrow> Some st
      | Some (Some pindexNew, st) \<Rightarrow>
          Some (case Tip (chainMostWork st) of
            Some p \<Rightarrow> if \<not> work_less addr (ns_index st) p pindexNew then st else set_most (Some pindexNew) st
          | None \<Rightarrow> set_most (Some pindexNew) st))"

end
