(* ===== verification/Chain_Best.thy ===== *)
theory Chain_Best
  imports Chain_Select
begin

text \<open>
  The invariant of the block tree and what \<open>FindMostWorkChain\<close> does to it. Marking blocks as failed changes nothing of the tree but the
  status, so heights, lineages, chains and the order of the candidates stay.

  \<open>good\<close> is what validation would say of each block; a block is \<open>sound\<close> if it and all its ancestors are good. A block
  is marked as failed only if it is not sound, and marks have no gaps (\<open>marks_ok\<close>).
\<close>

section \<open>The tree without the status\<close>

definition tree :: "block_index \<Rightarrow> block_index" where
  "tree idx p = map_option (\<lambda>e. e\<lparr>nStatus := 0\<rparr>) (idx p)"

lemma tree_fields: "height (tree idx) = height idx" "parent (tree idx) = parent idx" "dom (tree idx) = dom idx"
  "chain_work (tree idx) = chain_work idx" "work_less addr (tree idx) = work_less addr idx" "CheckBTCHashValid btc (tree idx) = CheckBTCHashValid btc idx"
  by (auto simp: fun_eq_iff tree_def height_def parent_def chain_work_def work_less_def CheckBTCHashValid_def dom_def split: option.splits)

lemma tree_walk: "walk (tree idx) n p = walk idx n p"
  by (induction idx n p rule: walk.induct) (simp_all add: tree_fields)

lemma tree_chains: "lineage (tree idx) = lineage idx" "chain_of (tree idx) = chain_of idx" "Contains (tree idx) = Contains idx" "SetTip (tree idx) = SetTip idx"
proof -
  have "settip_loop (tree idx) ps v = settip_loop idx ps v" for ps v by (induction idx ps v rule: settip_loop.induct) (simp_all add: tree_fields)
  moreover show l: "lineage (tree idx) = lineage idx" by (auto simp: fun_eq_iff lineage_def tree_walk tree_fields split: option.splits)
  ultimately show "SetTip (tree idx) = SetTip idx" by (auto simp: fun_eq_iff SetTip_def tree_fields split: option.splits)
  show "chain_of (tree idx) = chain_of idx" by (simp add: fun_eq_iff chain_of_def l)
  show "Contains (tree idx) = Contains idx" by (simp add: fun_eq_iff Contains_def tree_fields)
qed

lemma index_wf_pointwise:
  "index_wf idx \<longleftrightarrow> (\<forall>p. case idx p of None \<Rightarrow> True | Some e \<Rightarrow> phashBlock e = p \<and>
    (case pprev e of None \<Rightarrow> nHeight e = 0 | Some q \<Rightarrow> (case idx q of None \<Rightarrow> False | Some f \<Rightarrow> 0 \<le> nHeight f \<and> nHeight e = nHeight f + 1)))"
  unfolding index_wf_def by (intro iff_allI) (auto split: option.splits)

lemma tree_wf: "index_wf (tree idx) \<longleftrightarrow> index_wf idx"
  unfolding index_wf_pointwise by (intro iff_allI) (auto simp: tree_def split: option.splits)

lemma same_tree:
  assumes "tree idx = tree idx'"
  shows "height idx = height idx'" "parent idx = parent idx'" "dom idx = dom idx'" "chain_work idx = chain_work idx'" "work_less addr idx = work_less addr idx'"
    "CheckBTCHashValid btc idx = CheckBTCHashValid btc idx'" "lineage idx = lineage idx'" "chain_of idx = chain_of idx'" "Contains idx = Contains idx'"
    "SetTip idx = SetTip idx'" "index_wf idx = index_wf idx'"
  by (metis assms tree_fields(1), metis assms tree_fields(2), metis assms tree_fields(3), metis assms tree_fields(4), metis assms tree_fields(5),
      metis assms tree_fields(6), metis assms tree_chains(1), metis assms tree_chains(2), metis assms tree_chains(3), metis assms tree_chains(4), metis assms tree_wf)

section \<open>The invariant\<close>

definition chain_wf :: "block_index \<Rightarrow> CChain \<Rightarrow> bool" where
  "chain_wf idx c \<longleftrightarrow> (\<exists>t. valid_ptr idx t \<and> c = chain_of idx t)"

definition node_ok :: "(u256 \<Rightarrow> nat) \<Rightarrow> 'a node_state_scheme \<Rightarrow> bool" where
  "node_ok addr st \<longleftrightarrow> index_wf (ns_index st) \<and> finite (dom (ns_index st)) \<and> inj_on addr (dom (ns_index st))
     \<and> chain_wf (ns_index st) (chainActive st) \<and> chain_wf (ns_index st) (chainMostWork st)
     \<and> set (setBlockIndexValid st) \<subseteq> dom (ns_index st) \<and> sorted_wrt (work_less addr (ns_index st)) (setBlockIndexValid st)
     \<and> (\<forall>p\<in>set (setBlockIndexValid st). \<not> failed (ns_index st) p)"

lemma chain_wf_Tip:
  assumes "index_wf idx" and "chain_wf idx c"
  shows "c = chain_of idx (Tip c)" "valid_ptr idx (Tip c)"
proof -
  from assms(2) obtain t where t: "valid_ptr idx t" "c = chain_of idx t" by (auto simp: chain_wf_def)
  have "Tip c = t"
  proof (cases t)
    case (Some p)
    then show ?thesis using t assms(1) by auto
  qed (simp add: t Tip_def)
  with t show "c = chain_of idx (Tip c)" "valid_ptr idx (Tip c)" by simp_all
qed

lemma chain_wf_SetTip:
  assumes "index_wf idx" and "chain_wf idx c" and "valid_ptr idx p"
  shows "fst (SetTip idx p c) = chain_of idx p" "chain_wf idx (fst (SetTip idx p c))"
proof -
  show "fst (SetTip idx p c) = chain_of idx p" using SetTip_chain [OF assms(1) chain_wf_Tip(2) [OF assms(1,2)] assms(3)] chain_wf_Tip(1) [OF assms(1,2)] by simp
  then show "chain_wf idx (fst (SetTip idx p c))" using assms(3) by (auto simp: chain_wf_def)
qed

lemma Tip_Nil [simp]: "Tip [] = None"
  by (simp add: Tip_def)

lemma Tip_of_chain: "index_wf idx \<Longrightarrow> valid_ptr idx p \<Longrightarrow> Tip (chain_of idx p) = p"
  by (cases p) auto

lemma chain_wf_Contains:
  assumes "index_wf idx" and "chain_wf idx c"
  shows "Contains idx c p \<longleftrightarrow> p \<in> set (lineage idx (Tip c))"
proof (cases "Tip c")
  case None
  then show ?thesis using chain_wf_Tip(1) [OF assms] by (simp add: Contains_def chain_get_def)
next
  case (Some t)
  then obtain e where "idx t = Some e" using chain_wf_Tip(2) [OF assms] by auto
  then show ?thesis using Contains_chain_of [OF assms(1), of t e p] chain_wf_Tip(1) [OF assms] Some by simp
qed

text \<open>The status of one entry.\<close>

lemma or_status_tree [simp]: "tree (ns_index (or_status m p st)) = tree (ns_index st)"
  by (auto simp: or_status_def tree_def fun_eq_iff split: option.splits)

lemma or_mask: "(x OR m) AND BLOCK_FAILED_MASK \<noteq> 0 \<longleftrightarrow> x AND BLOCK_FAILED_MASK \<noteq> 0 \<or> m AND BLOCK_FAILED_MASK \<noteq> (0 :: u32)"
  by (auto simp: bit_eq_iff bit_simps)

lemma or_status_failed:
  assumes "m AND BLOCK_FAILED_MASK \<noteq> 0"
  shows "failed (ns_index (or_status m p st)) q \<longleftrightarrow> failed (ns_index st) q \<or> (q = p \<and> ns_index st p \<noteq> None)"
  using assms or_mask [of _ m] by (auto simp: failed_def or_status_def split: option.splits)

lemma failed_masks: "BLOCK_FAILED_CHILD AND BLOCK_FAILED_MASK \<noteq> 0" "BLOCK_FAILED_VALID AND BLOCK_FAILED_MASK \<noteq> 0"
  by (simp_all add: BLOCK_FAILED_CHILD_def BLOCK_FAILED_VALID_def BLOCK_FAILED_MASK_def)

lemma state_update_simps [simp]:
  "ns_index (valid_erase addr p st) = ns_index st" "chainActive (valid_erase addr p st) = chainActive st" "chainMostWork (valid_erase addr p st) = chainMostWork st"
  "setBlockIndexValid (valid_erase addr p st) = cset_erase (work_less addr (ns_index st)) p (setBlockIndexValid st)"
  "ns_index (set_most q st) = ns_index st" "chainActive (set_most q st) = chainActive st" "setBlockIndexValid (set_most q st) = setBlockIndexValid st"
  "chainMostWork (set_most q st) = fst (SetTip (ns_index st) q (chainMostWork st))"
  "ns_index (note_invalid p st) = ns_index st" "chainActive (note_invalid p st) = chainActive st" "chainMostWork (note_invalid p st) = chainMostWork st"
  "setBlockIndexValid (note_invalid p st) = setBlockIndexValid st"
  "chainActive (or_status m p st) = chainActive st" "chainMostWork (or_status m p st) = chainMostWork st" "setBlockIndexValid (or_status m p st) = setBlockIndexValid st"
  by (simp_all add: valid_erase_def set_most_def note_invalid_def or_status_def split: option.splits)


section \<open>Sound blocks and marks\<close>

definition sound :: "(u256 \<Rightarrow> bool) \<Rightarrow> block_index \<Rightarrow> u256 option \<Rightarrow> bool" where
  "sound good idx p \<longleftrightarrow> (\<forall>q\<in>set (lineage idx p). good q)"

definition marks_ok :: "(u256 \<Rightarrow> bool) \<Rightarrow> block_index \<Rightarrow> bool" where
  "marks_ok good idx \<longleftrightarrow> (\<forall>p. failed idx p \<longrightarrow>
     (\<not> good p \<and> sound good idx (parent idx p)) \<or> (\<exists>q. parent idx p = Some q \<and> failed idx q))"

lemma sound_step:
  assumes "index_wf idx" and "idx p = Some e"
  shows "sound good idx (Some p) \<longleftrightarrow> good p \<and> sound good idx (parent idx p)"
  using lineage_simps [OF assms] by (simp add: sound_def)

lemma failed_dom: "failed idx p \<Longrightarrow> \<exists>e. idx p = Some e"
  by (auto simp: failed_def split: option.splits)

lemma sound_not_failed:
  assumes "index_wf idx" and "marks_ok good idx" and "idx p = Some e" and "sound good idx (Some p)"
  shows "\<not> failed idx p"
  using assms(1,3,4)
proof (induction rule: lineage_induct)
  case (root p e)
  then show ?case using assms(2) sound_step [OF assms(1) root(1)] by (auto simp: marks_ok_def)
next
  case (step p e q f)
  then show ?case using assms(2) sound_step [OF assms(1) step(1)] by (auto simp: marks_ok_def)
qed

lemma sound_lineage:
  assumes "index_wf idx" and "valid_ptr idx t" and "sound good idx t" and "p \<in> set (lineage idx t)"
  shows "sound good idx (Some p)" "\<exists>e. idx p = Some e"
proof -
  from assms(4) obtain q where t: "t = Some q" by (cases t) auto
  with assms(2) obtain e where e: "idx q = Some e" by auto
  from lineage_mem [OF assms(1) e] assms(4) t obtain f where f: "idx p = Some f" and pre: "take (Suc (height idx p)) (chain_of idx (Some q)) = chain_of idx (Some p)"
    by blast
  have "set (chain_of idx (Some p)) \<subseteq> set (chain_of idx (Some q))" using set_take_subset pre by metis
  then have "set (lineage idx (Some p)) \<subseteq> set (lineage idx t)" by (auto simp: chain_of_def t)
  with assms(3) show "sound good idx (Some p)" by (auto simp: sound_def)
  show "\<exists>e. idx p = Some e" using f by blast
qed

text \<open>From a failed block down, the first block that is not marked is sound.\<close>

lemma drop_failed_spec:
  assumes wf: "index_wf idx" and m: "marks_ok good idx" and "idx p = Some e"
    and "ns_index st = idx" and "chain_wf idx (chainMostWork st)" and "Tip (chainMostWork st) = Some p"
  shows "\<exists>st' t. drop_failed addr (lineage idx (Some p)) st = st' \<and> ns_index st' = idx \<and> chainActive st' = chainActive st \<and> chain_wf idx (chainMostWork st')
    \<and> Tip (chainMostWork st') = t \<and> (t = Some p \<and> \<not> failed idx p \<and> st' = st \<or> failed idx p \<and> sound good idx t)
    \<and> setBlockIndexValid st' = fold (cset_erase (work_less addr idx)) (takeWhile (failed idx) (lineage idx (Some p))) (setBlockIndexValid st)"
  using wf assms(3-6)
proof (induction arbitrary: st rule: lineage_induct)
  case (root p e)
  note l = lineage_simps(2) [OF wf root(1)]
  show ?case
  proof (cases "failed idx p")
    case True
    then show ?thesis using root chain_wf_SetTip [OF wf, of "chainMostWork st" None]
      by (simp add: l root(2) sound_def)
  qed (use root l in simp)
next
  case (step p e q f)
  note l = lineage_simps(2) [OF wf step(1)]
  let ?st = "set_most (Some q) (valid_erase addr p st)"
  show ?case
  proof (cases "failed idx p")
    case True
    have w: "fst (SetTip idx (Some q) (chainMostWork st)) = chain_of idx (Some q)" "chain_wf idx (fst (SetTip idx (Some q) (chainMostWork st)))"
      using chain_wf_SetTip [OF wf, of "chainMostWork st" "Some q"] step(3) step.prems by auto
    have tq: "Tip (chainMostWork ?st) = Some q" using step.prems(1) step(3) wf by (simp add: w(1))
    obtain st' t where r: "drop_failed addr (lineage idx (Some q)) ?st = st'" "ns_index st' = idx" "chainActive st' = chainActive st" "chain_wf idx (chainMostWork st')"
      "Tip (chainMostWork st') = t" "t = Some q \<and> \<not> failed idx q \<and> st' = ?st \<or> failed idx q \<and> sound good idx t"
      "setBlockIndexValid st' = fold (cset_erase (work_less addr idx)) (takeWhile (failed idx) (lineage idx (Some q))) (setBlockIndexValid ?st)"
      using step.IH [of ?st] step.prems tq w by auto
    have "sound good idx t"
    proof (cases "failed idx q")
      case False
      then have "sound good idx (Some q)" using m True step(2) by (auto simp: marks_ok_def)
      with r(6) False show ?thesis by simp
    qed (use r(6) in simp)
    then show ?thesis using r True step(2) step.prems(1) by (simp add: l)
  qed (use step.prems l in simp)
qed


section \<open>The search for a candidate\<close>

definition best_inv :: "(u256 \<Rightarrow> nat) \<Rightarrow> (u256 \<Rightarrow> bool) \<Rightarrow> 'a node_state_scheme \<Rightarrow> bool" where
  "best_inv addr good st \<longleftrightarrow> node_ok addr st \<and> marks_ok good (ns_index st) \<and> sound good (ns_index st) (Tip (chainActive st))"

lemma best_invD:
  assumes "best_inv addr good st"
  shows "index_wf (ns_index st)" "inj_on addr (dom (ns_index st))" "finite (dom (ns_index st))" "chain_wf (ns_index st) (chainActive st)"
    "chain_wf (ns_index st) (chainMostWork st)" "set (setBlockIndexValid st) \<subseteq> dom (ns_index st)" "marks_ok good (ns_index st)"
    "sound good (ns_index st) (Tip (chainActive st))" "p \<in> set (setBlockIndexValid st) \<Longrightarrow> \<not> failed (ns_index st) p"
    "sorted_wrt (work_less addr (ns_index st)) (setBlockIndexValid st)"
  using assms by (auto simp: best_inv_def node_ok_def)

lemma active_not_failed:
  assumes "best_inv addr good st" and "Contains (ns_index st) (chainActive st) p" and "q \<in> set (lineage (ns_index st) (Some p))"
  shows "\<not> failed (ns_index st) q"
proof -
  note i = best_invD [OF assms(1)]
  have "p \<in> set (lineage (ns_index st) (Tip (chainActive st)))" using chain_wf_Contains [OF i(1,4)] assms(2) by simp
  from sound_lineage [OF i(1) chain_wf_Tip(2) [OF i(1,4)] i(8) this] have p: "sound good (ns_index st) (Some p)" "valid_ptr (ns_index st) (Some p)" by auto
  from sound_lineage [OF i(1) p(2,1) assms(3)] show ?thesis using sound_not_failed [OF i(1,7)] by blast
qed

lemma failed_ancestor_Some: "failed_ancestor idx act ps = Some t \<Longrightarrow> t \<in> set ps \<and> failed idx t"
  by (induction idx act ps rule: failed_ancestor.induct) (auto split: if_splits)

lemma failed_ancestor_None:
  assumes inv: "best_inv addr good st" and "ns_index st p = Some e" and "failed_ancestor (ns_index st) (chainActive st) (lineage (ns_index st) (Some p)) = None"
    and "q \<in> set (lineage (ns_index st) (Some p))"
  shows "\<not> failed (ns_index st) q"
  using best_invD(1) [OF inv] assms(2-4)
proof (induction rule: lineage_induct)
  case (root p e)
  then show ?case using lineage_simps(2) [OF best_invD(1) [OF inv] root(1)] active_not_failed [OF inv, of p q] by (auto split: if_splits)
next
  case (step p e r f)
  note l = lineage_simps(2) [OF best_invD(1) [OF inv] step(1)]
  show ?case
  proof (cases "Contains (ns_index st) (chainActive st) p")
    case True
    then show ?thesis using active_not_failed [OF inv True step.prems(2)] by simp
  next
    case False
    then show ?thesis using step.IH step.prems step(2) l by (auto split: if_splits)
  qed
qed

lemma lineage_takeWhile_parent:
  assumes wf: "index_wf idx" and "idx n = Some e" and "p \<in> set (takeWhile (\<lambda>q. q \<noteq> t) (lineage idx (Some n)))" and "t \<in> set (lineage idx (Some n))"
  shows "\<exists>q. parent idx p = Some q \<and> (q = t \<or> q \<in> set (takeWhile (\<lambda>q. q \<noteq> t) (lineage idx (Some n))))"
  using wf assms(2-4)
proof (induction rule: lineage_induct)
  case (root n e)
  then show ?case using lineage_simps(2) [OF wf root(1)] by (auto split: if_splits)
next
  case (step n e q f)
  note l = lineage_simps(2) [OF wf step(1)] and lq = lineage_simps(2) [OF wf step(3)]
  show ?case
  proof (cases "p = n")
    case True
    then show ?thesis using step.prems step(2) by (auto simp: l lq)
  next
    case False
    then show ?thesis using step.IH step.prems step(2) by (auto simp: l split: if_splits)
  qed
qed

lemma fail_children_spec:
  assumes "inj_on addr (dom (ns_index st))" and "set (setBlockIndexValid st) \<subseteq> dom (ns_index st)" and "set ps \<subseteq> dom (ns_index st)"
  shows "tree (ns_index (fail_children addr t ps st)) = tree (ns_index st) \<and> chainActive (fail_children addr t ps st) = chainActive st
    \<and> chainMostWork (fail_children addr t ps st) = chainMostWork st
    \<and> (\<forall>q. failed (ns_index (fail_children addr t ps st)) q \<longleftrightarrow> failed (ns_index st) q \<or> q \<in> set (takeWhile (\<lambda>q. q \<noteq> t) ps))
    \<and> setBlockIndexValid (fail_children addr t ps st) = filter (\<lambda>q. q \<notin> set (takeWhile (\<lambda>q. q \<noteq> t) ps)) (setBlockIndexValid st)"
  using assms
proof (induction ps arbitrary: st)
  case (Cons p ps)
  let ?s = "valid_erase addr p (or_status BLOCK_FAILED_CHILD p st)"
  have tr: "tree (ns_index ?s) = tree (ns_index st)" by simp
  have er: "setBlockIndexValid ?s = filter (\<lambda>q. q \<noteq> p) (setBlockIndexValid st)"
    using cset_erase_set [OF Cons.prems(1,2)] Cons.prems(3) by (simp add: same_tree(5) [OF or_status_tree])
  have fl: "failed (ns_index ?s) q \<longleftrightarrow> failed (ns_index st) q \<or> q = p" for q
    using or_status_failed [OF failed_masks(1), of p st q] Cons.prems(3) by auto
  show ?case
  proof (cases "p = t")
    case False
    have "dom (ns_index ?s) = dom (ns_index st)" using same_tree(3) [OF tr] .
    then show ?thesis using Cons.IH [of ?s] Cons.prems False er fl tr by auto
  qed simp
qed simp

text \<open>What a part of the search may change.\<close>

definition shrinks :: "(u256 \<Rightarrow> nat) \<Rightarrow> (int \<Rightarrow> CBlockIndex option) \<Rightarrow> (u256 \<Rightarrow> bool) \<Rightarrow> 'a node_state_scheme \<Rightarrow> 'a node_state_scheme \<Rightarrow> bool" where
  "shrinks addr btc good st st' \<longleftrightarrow> best_inv addr good st' \<and> tree (ns_index st') = tree (ns_index st) \<and> chainActive st' = chainActive st
     \<and> chainMostWork st' = chainMostWork st \<and> (\<forall>p. failed (ns_index st) p \<longrightarrow> failed (ns_index st') p)
     \<and> set (setBlockIndexValid st') \<subseteq> set (setBlockIndexValid st)
     \<and> (\<forall>q\<in>set (setBlockIndexValid st). q \<notin> set (setBlockIndexValid st') \<longrightarrow> \<not> CheckBTCHashValid btc (ns_index st) q \<or> failed (ns_index st') q)"

lemma shrinks_refl: "best_inv addr good st \<Longrightarrow> shrinks addr btc good st st"
  by (simp add: shrinks_def)

lemma shrinks_trans:
  assumes "shrinks addr btc good s t" and "shrinks addr btc good t u"
  shows "shrinks addr btc good s u"
proof -
  have "CheckBTCHashValid btc (ns_index t) = CheckBTCHashValid btc (ns_index s)"
    by (rule same_tree(6)) (use assms(1) in \<open>simp add: shrinks_def\<close>)
  with assms have "\<forall>q\<in>set (setBlockIndexValid s). q \<notin> set (setBlockIndexValid u) \<longrightarrow> \<not> CheckBTCHashValid btc (ns_index s) q \<or> failed (ns_index u) q"
    unfolding shrinks_def by metis
  with assms show ?thesis by (auto simp: shrinks_def)
qed


lemma same_tree_chain_wf: "tree idx = tree idx' \<Longrightarrow> chain_wf idx c \<longleftrightarrow> chain_wf idx' c" "tree idx = tree idx' \<Longrightarrow> sound good idx p \<longleftrightarrow> sound good idx' p"
proof -
  assume t: "tree idx = tree idx'"
  have "valid_ptr idx p \<longleftrightarrow> valid_ptr idx' p" for p using same_tree(3) [OF t] by (cases p) (auto simp: dom_def)
  then show "chain_wf idx c \<longleftrightarrow> chain_wf idx' c" by (simp add: chain_wf_def same_tree(8) [OF t])
qed (simp add: sound_def same_tree(7) [of idx idx'])

lemma best_inv_cong:
  assumes inv: "best_inv addr good st" and t: "tree (ns_index st') = tree (ns_index st)" and "chainActive st' = chainActive st"
    and "chain_wf (ns_index st) (chainMostWork st')" and "setBlockIndexValid st' = filter P (setBlockIndexValid st)"
    and "\<forall>q\<in>set (setBlockIndexValid st'). \<not> failed (ns_index st') q" and "marks_ok good (ns_index st')"
  shows "best_inv addr good st'"
  using assms best_invD [OF inv] unfolding best_inv_def node_ok_def
  by (auto simp: same_tree(3,5,11) [OF t] same_tree_chain_wf [OF t] intro!: sorted_wrt_filter)

lemma marks_ok_status:
  assumes t: "tree idx' = tree idx" and m: "marks_ok good idx"
    and new: "\<And>p. failed idx' p \<Longrightarrow> \<not> failed idx p \<Longrightarrow> (\<not> good p \<and> sound good idx (parent idx p)) \<or> (\<exists>q. parent idx p = Some q \<and> failed idx' q)"
    and mono: "\<And>p. failed idx p \<Longrightarrow> failed idx' p"
  shows "marks_ok good idx'"
  unfolding marks_ok_def same_tree(2) [OF t] same_tree_chain_wf(2) [OF t]
proof (intro allI impI)
  fix p assume p: "failed idx' p"
  show "\<not> good p \<and> sound good idx (parent idx p) \<or> (\<exists>q. parent idx p = Some q \<and> failed idx' q)"
  proof (cases "failed idx p")
    case True
    with m mono show ?thesis unfolding marks_ok_def by blast
  qed (use new [OF p] in blast)
qed

lemma erase_shrinks:
  assumes inv: "best_inv addr good st" and p: "p \<in> set (setBlockIndexValid st)" and "\<not> CheckBTCHashValid btc (ns_index st) p"
  shows "shrinks addr btc good st (valid_erase addr p st)" "length (setBlockIndexValid (valid_erase addr p st)) < length (setBlockIndexValid st)"
proof -
  note i = best_invD [OF inv]
  have e: "setBlockIndexValid (valid_erase addr p st) = filter (\<lambda>q. q \<noteq> p) (setBlockIndexValid st)"
    using cset_erase_set [OF i(2,6) subsetD [OF i(6) p]] by simp
  show "length (setBlockIndexValid (valid_erase addr p st)) < length (setBlockIndexValid st)"
    unfolding e using p by (simp add: length_filter_less)
  have "best_inv addr good (valid_erase addr p st)"
    by (rule best_inv_cong [OF inv _ _ _ e]) (use i in \<open>simp_all, auto simp: cset_erase_def\<close>)
  then show "shrinks addr btc good st (valid_erase addr p st)" using assms(3) by (auto simp: shrinks_def e [simplified])
qed

lemma fail_shrinks:
  assumes inv: "best_inv addr good st" and n: "n \<in> set (setBlockIndexValid st)"
    and t: "failed_ancestor (ns_index st) (chainActive st) (lineage (ns_index st) (Some n)) = Some t"
  shows "shrinks addr btc good st (fail_children addr t (lineage (ns_index st) (Some n)) (note_invalid n st))"
    "length (setBlockIndexValid (fail_children addr t (lineage (ns_index st) (Some n)) (note_invalid n st))) < length (setBlockIndexValid st)"
    "failed (ns_index (fail_children addr t (lineage (ns_index st) (Some n)) (note_invalid n st))) n"
proof -
  note i = best_invD [OF inv]
  let ?idx = "ns_index st"
  let ?path = "lineage ?idx (Some n)"
  let ?s = "fail_children addr t ?path (note_invalid n st)"
  let ?w = "takeWhile (\<lambda>q. q \<noteq> t) ?path"
  obtain e where e: "?idx n = Some e" using n i(6) by auto
  have path: "set ?path \<subseteq> dom ?idx" using lineage_mem [OF i(1) e] by auto
  note t' = failed_ancestor_Some [OF t]
  have "n \<noteq> t" using t' i(9) [OF n] by auto
  then have nw: "n \<in> set ?w" using lineage_simps(2) [OF i(1) e] by simp
  have fc: "tree (ns_index ?s) = tree ?idx" "chainActive ?s = chainActive st" "chainMostWork ?s = chainMostWork st"
    "\<And>q. failed (ns_index ?s) q \<longleftrightarrow> failed ?idx q \<or> q \<in> set ?w" "setBlockIndexValid ?s = filter (\<lambda>q. q \<notin> set ?w) (setBlockIndexValid st)"
    using fail_children_spec [of addr "note_invalid n st" ?path t] i(2,6) path by auto
  show "failed (ns_index ?s) n" using fc(4) nw by simp
  show "length (setBlockIndexValid ?s) < length (setBlockIndexValid st)" unfolding fc(5) using n nw by (intro length_filter_less) auto
  have m: "marks_ok good (ns_index ?s)"
  proof (rule marks_ok_status [OF fc(1) i(7)])
    fix p assume "failed (ns_index ?s) p" "\<not> failed ?idx p"
    then have "p \<in> set ?w" using fc(4) by simp
    from lineage_takeWhile_parent [OF i(1) e this] t' show "(\<not> good p \<and> sound good ?idx (parent ?idx p)) \<or> (\<exists>q. parent ?idx p = Some q \<and> failed (ns_index ?s) q)"
      using fc(4) by blast
  qed (simp add: fc(4))
  have "best_inv addr good ?s"
    by (rule best_inv_cong [OF inv fc(1,2) _ fc(5) _ m]) (use i(5,9) in \<open>auto simp: fc(3,4,5)\<close>)
  then show "shrinks addr btc good st ?s" using fc by (auto simp: shrinks_def)
qed

definition candidate :: "(int \<Rightarrow> CBlockIndex option) \<Rightarrow> u256 option \<Rightarrow> 'a node_state_scheme \<Rightarrow> bool" where
  "candidate btc r st \<longleftrightarrow> (case r of None \<Rightarrow> setBlockIndexValid st = []
     | Some n \<Rightarrow> setBlockIndexValid st \<noteq> [] \<and> n = last (setBlockIndexValid st) \<and> CheckBTCHashValid btc (ns_index st) n
         \<and> (\<forall>q\<in>set (lineage (ns_index st) (Some n)). \<not> failed (ns_index st) q))"

lemma find_candidate_spec:
  assumes "best_inv addr good st" and "length (setBlockIndexValid st) < fuel"
  shows "\<exists>r st'. find_candidate addr btc fuel st = Some (r, st') \<and> shrinks addr btc good st st' \<and> candidate btc r st'"
  using assms
proof (induction fuel arbitrary: st)
  case (Suc fuel)
  note inv = Suc.prems(1)
  show ?case
  proof (cases "setBlockIndexValid st = []")
    case True
    then show ?thesis using shrinks_refl [OF inv] by (simp add: candidate_def)
  next
    case False
    let ?n = "last (setBlockIndexValid st)" and ?idx = "ns_index st"
    have n: "?n \<in> set (setBlockIndexValid st)" using False by simp
    have again: ?thesis if s: "shrinks addr btc good st s" "length (setBlockIndexValid s) < length (setBlockIndexValid st)"
      and f: "find_candidate addr btc (Suc fuel) st = find_candidate addr btc fuel s" for s
    proof -
      have "best_inv addr good s" "length (setBlockIndexValid s) < fuel" using s Suc.prems(2) by (simp_all add: shrinks_def)
      from Suc.IH [OF this] obtain r u where "find_candidate addr btc fuel s = Some (r, u)" "shrinks addr btc good s u" "candidate btc r u" by blast
      with f shrinks_trans [OF s(1)] show ?thesis by auto
    qed
    show ?thesis
    proof (cases "CheckBTCHashValid btc ?idx ?n")
      case False
      then show ?thesis using again [OF erase_shrinks [OF inv n]] \<open>setBlockIndexValid st \<noteq> []\<close> by simp
    next
      case btc: True
      show ?thesis
      proof (cases "failed_ancestor ?idx (chainActive st) (lineage ?idx (Some ?n))")
        case None
        obtain e where "?idx ?n = Some e" using n best_invD(6) [OF inv] by auto
        from failed_ancestor_None [OF inv this None] show ?thesis using None btc False shrinks_refl [OF inv] by (simp add: Let_def candidate_def)
      next
        case (Some t)
        then show ?thesis using again [OF fail_shrinks(1,2) [OF inv n Some]] btc False by (simp add: Let_def)
      qed
    qed
  qed
qed simp


section \<open>The best chain\<close>

lemma work_less_le_trans:
  assumes "a \<in> dom idx" "b \<in> dom idx" "c \<in> dom idx" and "work_less addr idx a c" and "\<not> work_less addr idx b c"
  shows "work_less addr idx a b"
proof -
  have d: "idx a \<noteq> None" "idx b \<noteq> None" "idx c \<noteq> None" using assms(1-3) by auto
  show ?thesis using assms(4,5) unfolding work_less_iff [OF d(1,3)] work_less_iff [OF d(2,3)] work_less_iff [OF d(1,2)] by (meson less_le_trans not_le)
qed

lemma work_less_irrefl: "\<not> work_less addr idx a a"
  by (simp add: work_less_def split: option.splits)

lemma work_less_asym: "work_less addr idx a b \<Longrightarrow> \<not> work_less addr idx b a"
  by (auto simp: work_less_def split: option.splits if_splits)

lemma sorted_last:
  assumes "sorted_wrt (work_less addr idx) xs" and "set xs \<subseteq> dom idx" and "q \<in> set xs"
  shows "q = last xs \<or> work_less addr idx q (last xs)" "\<not> work_less addr idx (last xs) q"
proof -
  have ne: "xs \<noteq> []" using assms(3) by auto
  have "sorted_wrt (work_less addr idx) (butlast xs @ [last xs])" "q \<in> set (butlast xs @ [last xs])" using assms(1,3) ne by simp_all
  then show *: "q = last xs \<or> work_less addr idx q (last xs)" by (auto simp: sorted_wrt_append)
  have "q \<in> dom idx" "last xs \<in> dom idx" using subsetD [OF assms(2)] assms(3) last_in_set [OF ne] by blast+
  then show "\<not> work_less addr idx (last xs) q" using * work_less_irrefl work_less_asym by blast
qed

lemma no_tie:
  assumes "inj_on addr (dom idx)" and "a \<in> dom idx" "b \<in> dom idx" and "\<not> work_less addr idx a b" and "\<not> work_less addr idx b a"
  shows "a = b"
proof -
  have d: "idx a \<noteq> None" "idx b \<noteq> None" using assms(2,3) by auto
  show ?thesis using assms(4,5) unfolding work_less_iff [OF d] work_less_iff [OF d(2,1)] by (intro work_key_inj [OF assms(1) d]) (meson not_less_iff_gr_or_eq)
qed

text \<open>The most-work chain ends in a block that is marked, or still a candidate, or sound.\<close>

definition most_ok :: "(int \<Rightarrow> CBlockIndex option) \<Rightarrow> (u256 \<Rightarrow> bool) \<Rightarrow> 'a node_state_scheme \<Rightarrow> bool" where
  "most_ok btc good st \<longleftrightarrow> (\<forall>c. Tip (chainMostWork st) = Some c \<longrightarrow> failed (ns_index st) c
     \<or> (c \<in> set (setBlockIndexValid st) \<and> CheckBTCHashValid btc (ns_index st) c) \<or> sound good (ns_index st) (Some c))"

text \<open>No block of the chain is marked.\<close>

definition clear_chain :: "block_index \<Rightarrow> CChain \<Rightarrow> bool" where
  "clear_chain idx c \<longleftrightarrow> (\<forall>q\<in>set (lineage idx (Tip c)). \<not> failed idx q)"

lemma sound_clear:
  assumes "best_inv addr good st" and "Tip (chainMostWork st) = t" and "sound good (ns_index st) t"
  shows "clear_chain (ns_index st) (chainMostWork st)"
proof -
  note i = best_invD [OF assms(1)]
  have "valid_ptr (ns_index st) t" using chain_wf_Tip(2) [OF i(1,5)] assms(2) by simp
  then show ?thesis unfolding clear_chain_def assms(2)
    using sound_lineage [OF i(1) _ assms(3)] sound_not_failed [OF i(1,7)] by blast
qed

lemma drop_failed_inv:
  assumes inv: "best_inv addr good st" and mo: "most_ok btc good st"
  obtains s where "drop_failed addr (lineage (ns_index st) (Tip (chainMostWork st))) st = s" "best_inv addr good s" "ns_index s = ns_index st"
    "chainActive s = chainActive st" "setBlockIndexValid s = setBlockIndexValid st"
    "\<forall>c. Tip (chainMostWork s) = Some c \<longrightarrow> (c \<in> set (setBlockIndexValid st) \<and> CheckBTCHashValid btc (ns_index st) c) \<or> sound good (ns_index st) (Some c)"
proof (cases "Tip (chainMostWork st)")
  case None
  then show ?thesis using that [of st] inv by simp
next
  case (Some p)
  note i = best_invD [OF inv]
  obtain e where e: "ns_index st p = Some e" using chain_wf_Tip(2) [OF i(1,5)] Some by auto
  obtain s t where d: "drop_failed addr (lineage (ns_index st) (Some p)) st = s" "ns_index s = ns_index st" "chainActive s = chainActive st"
    "chain_wf (ns_index st) (chainMostWork s)" "Tip (chainMostWork s) = t" "t = Some p \<and> \<not> failed (ns_index st) p \<and> s = st \<or> failed (ns_index st) p \<and> sound good (ns_index st) t"
    "setBlockIndexValid s = fold (cset_erase (work_less addr (ns_index st))) (takeWhile (failed (ns_index st)) (lineage (ns_index st) (Some p))) (setBlockIndexValid st)"
    using drop_failed_spec [OF i(1,7) e refl i(5) Some, of addr] by blast
  have "fold (cset_erase (work_less addr (ns_index st))) ps (setBlockIndexValid st) = setBlockIndexValid st" if "\<forall>q\<in>set ps. failed (ns_index st) q" for ps
    using that
  proof (induction ps)
    case (Cons q ps)
    then have "q \<in> dom (ns_index st)" "q \<notin> set (setBlockIndexValid st)" using failed_dom i(9) by auto
    then have "cset_erase (work_less addr (ns_index st)) q (setBlockIndexValid st) = setBlockIndexValid st"
      using cset_erase_set [OF i(2,6), of q] by (auto intro!: filter_True)
    with Cons show ?case by simp
  qed simp
  then have v: "setBlockIndexValid s = setBlockIndexValid st" unfolding d(7) by (meson set_takeWhileD)
  have inv': "best_inv addr good s"
    by (rule best_inv_cong [OF inv _ d(3,4), of "\<lambda>_. True"]) (use d v i(7,9) in auto)
  show ?thesis
  proof (rule that [OF _ inv' d(2,3) v])
    show "drop_failed addr (lineage (ns_index st) (Tip (chainMostWork st))) st = s" using d(1) Some by simp
    show "\<forall>c. Tip (chainMostWork s) = Some c \<longrightarrow> (c \<in> set (setBlockIndexValid st) \<and> CheckBTCHashValid btc (ns_index st) c) \<or> sound good (ns_index st) (Some c)"
      using d(5,6) mo Some
      by (auto simp: most_ok_def)
  qed
qed


definition best_step :: "(u256 \<Rightarrow> nat) \<Rightarrow> (int \<Rightarrow> CBlockIndex option) \<Rightarrow> (u256 \<Rightarrow> bool) \<Rightarrow> 'a node_state_scheme \<Rightarrow> 'a node_state_scheme \<Rightarrow> bool" where
  "best_step addr btc good st st' \<longleftrightarrow> best_inv addr good st' \<and> most_ok btc good st' \<and> tree (ns_index st') = tree (ns_index st) \<and> chainActive st' = chainActive st
     \<and> (\<forall>p. failed (ns_index st) p \<longrightarrow> failed (ns_index st') p) \<and> set (setBlockIndexValid st') \<subseteq> set (setBlockIndexValid st)
     \<and> (\<forall>q\<in>set (setBlockIndexValid st). sound good (ns_index st) (Some q) \<and> CheckBTCHashValid btc (ns_index st) q \<longrightarrow> q \<in> set (setBlockIndexValid st'))
     \<and> (\<forall>q\<in>set (setBlockIndexValid st'). \<exists>t. Tip (chainMostWork st') = Some t \<and> \<not> work_less addr (ns_index st') t q)
     \<and> ((\<exists>p. failed (ns_index st') p \<and> \<not> failed (ns_index st) p) \<or> clear_chain (ns_index st') (chainMostWork st'))"

text \<open>The two ways \<open>FindMostWorkChain\<close> ends: the old chain is kept, or the candidate becomes its tip. \<open>s\<close> is the state after dropping
  failed tips, \<open>u\<close> that after the search.\<close>

lemma kept_chain:
  assumes inv: "best_inv addr good s" and sh: "shrinks addr btc good s u" and ca: "candidate btc r u"
    and tip: "\<And>c. Tip (chainMostWork s) = Some c \<Longrightarrow> (c \<in> set (setBlockIndexValid s) \<and> CheckBTCHashValid btc (ns_index s) c) \<or> sound good (ns_index s) (Some c)"
    and keep: "\<And>n. r = Some n \<Longrightarrow> \<exists>c. Tip (chainMostWork s) = Some c \<and> \<not> work_less addr (ns_index u) c n"
  shows "most_ok btc good u \<and> (\<forall>q\<in>set (setBlockIndexValid u). \<exists>t. Tip (chainMostWork u) = Some t \<and> \<not> work_less addr (ns_index u) t q)
    \<and> ((\<exists>p. failed (ns_index u) p \<and> \<not> failed (ns_index s) p) \<or> clear_chain (ns_index u) (chainMostWork u))"
proof -
  have u: "best_inv addr good u" "tree (ns_index u) = tree (ns_index s)" "chainMostWork u = chainMostWork s"
    and gone: "\<And>q. q \<in> set (setBlockIndexValid s) \<Longrightarrow> q \<notin> set (setBlockIndexValid u) \<Longrightarrow> CheckBTCHashValid btc (ns_index s) q \<Longrightarrow> failed (ns_index u) q"
    using sh by (auto simp: shrinks_def)
  note i = best_invD [OF u(1)] and snd = same_tree_chain_wf(2) [OF u(2)] and bt = same_tree(6) [OF u(2)]
  have mo: "most_ok btc good u" unfolding most_ok_def u(3) snd bt using tip gone by blast
  have max: "\<exists>t. Tip (chainMostWork u) = Some t \<and> \<not> work_less addr (ns_index u) t q" if q: "q \<in> set (setBlockIndexValid u)" for q
  proof -
    from q ca obtain n where n: "r = Some n" "n = last (setBlockIndexValid u)" "n \<in> set (setBlockIndexValid u)" by (cases r) (auto simp: candidate_def)
    from keep [OF n(1)] obtain c where c: "Tip (chainMostWork u) = Some c" "\<not> work_less addr (ns_index u) c n" by (auto simp: u(3))
    have d: "c \<in> dom (ns_index u)" "q \<in> dom (ns_index u)" "n \<in> dom (ns_index u)" using chain_wf_Tip(2) [OF i(1,5)] c(1) q n(3) i(6) by auto
    show ?thesis using c sorted_last(2) [OF i(10,6) q] work_less_le_trans [OF d(1,3,2), of addr] by (auto simp: n(2))
  qed
  have "(\<exists>p. failed (ns_index u) p \<and> \<not> failed (ns_index s) p) \<or> clear_chain (ns_index u) (chainMostWork u)"
  proof (cases "Tip (chainMostWork s)")
    case None
    then show ?thesis by (simp add: clear_chain_def u(3))
  next
    case (Some c)
    from tip [OF Some] show ?thesis
    proof
      assume c: "c \<in> set (setBlockIndexValid s) \<and> CheckBTCHashValid btc (ns_index s) c"
      show ?thesis
      proof (cases "c \<in> set (setBlockIndexValid u)")
        case True
        then obtain n where n: "r = Some n" "n = last (setBlockIndexValid u)" "n \<in> set (setBlockIndexValid u)"
          "\<forall>q\<in>set (lineage (ns_index u) (Some n)). \<not> failed (ns_index u) q" using ca by (cases r) (auto simp: candidate_def)
        have "\<not> work_less addr (ns_index u) c n" using keep [OF n(1)] Some by simp
        then have "c = n" using sorted_last(1) [OF i(10,6) True] n(2) by auto
        then show ?thesis using n(4) Some by (simp add: clear_chain_def u(3))
      next
        case False
        then show ?thesis using gone c best_invD(9) [OF inv] by blast
      qed
    next
      assume "sound good (ns_index s) (Some c)"
      then show ?thesis using sound_clear [OF u(1), of "Some c"] Some by (simp add: u(3) snd)
    qed
  qed
  with mo max show ?thesis by blast
qed

lemma FindMostWorkChain_spec:
  assumes inv: "best_inv addr good st" and mo: "most_ok btc good st" and fuel: "length (setBlockIndexValid st) < fuel"
  shows "\<exists>st'. FindMostWorkChain addr btc fuel st = Some st' \<and> best_step addr btc good st st'"
proof -
  obtain s where s: "drop_failed addr (lineage (ns_index st) (Tip (chainMostWork st))) st = s" "best_inv addr good s" "ns_index s = ns_index st"
    "chainActive s = chainActive st" "setBlockIndexValid s = setBlockIndexValid st"
    "\<forall>c. Tip (chainMostWork s) = Some c \<longrightarrow> (c \<in> set (setBlockIndexValid st) \<and> CheckBTCHashValid btc (ns_index st) c) \<or> sound good (ns_index st) (Some c)"
    by (rule drop_failed_inv [OF inv mo])
  from find_candidate_spec [OF s(2), of fuel btc] fuel s(5) obtain r u where f: "find_candidate addr btc fuel s = Some (r, u)"
    and sh: "shrinks addr btc good s u" and ca: "candidate btc r u" by auto
  have u: "best_inv addr good u" "tree (ns_index u) = tree (ns_index st)" "chainActive u = chainActive st" "chainMostWork u = chainMostWork s"
    "\<And>p. failed (ns_index st) p \<Longrightarrow> failed (ns_index u) p" "set (setBlockIndexValid u) \<subseteq> set (setBlockIndexValid st)"
    using sh by (simp_all add: shrinks_def s(3,4,5))
  note i = best_invD [OF u(1)] and snd = same_tree_chain_wf(2) [OF u(2)]
  have stay: "q \<in> set (setBlockIndexValid u)" if q: "q \<in> set (setBlockIndexValid st)" "sound good (ns_index st) (Some q)" "CheckBTCHashValid btc (ns_index st) q" for q
  proof -
    have "q \<in> dom (ns_index u)" using q(1) best_invD(6) [OF inv] same_tree(3) [OF u(2)] by auto
    then have "\<not> failed (ns_index u) q" using sound_not_failed [OF i(1,7)] q(2) snd by blast
    with sh q show ?thesis unfolding shrinks_def s(3,5) by blast
  qed
  have keep: "best_step addr btc good st u" if "\<And>n. r = Some n \<Longrightarrow> \<exists>c. Tip (chainMostWork s) = Some c \<and> \<not> work_less addr (ns_index u) c n"
    using kept_chain [OF s(2) sh ca, OF _ that] s(3,5,6) u stay by (simp add: best_step_def)
  show ?thesis
  proof (cases r)
    case None
    then show ?thesis using keep by (simp add: FindMostWorkChain_def s(1) f Let_def)
  next
    case (Some n)
    let ?w = "set_most (Some n) u"
    have n: "n \<in> set (setBlockIndexValid u)" "n = last (setBlockIndexValid u)" "CheckBTCHashValid btc (ns_index u) n" "\<forall>q\<in>set (lineage (ns_index u) (Some n)). \<not> failed (ns_index u) q"
      using ca Some by (auto simp: candidate_def)
    have vn: "valid_ptr (ns_index u) (Some n)" using n(1) i(6) by auto
    have w: "chainMostWork ?w = chain_of (ns_index u) (Some n)" "chain_wf (ns_index u) (chainMostWork ?w)" using chain_wf_SetTip [OF i(1,5) vn] by simp_all
    have tw: "Tip (chainMostWork ?w) = Some n" unfolding w(1) using Tip_of_chain [OF i(1) vn] .
    have "best_inv addr good ?w" by (rule best_inv_cong [OF u(1) _ _ w(2), of "\<lambda>_. True"]) (use i(7,9) in simp_all)
    moreover have "most_ok btc good ?w" using tw n by (simp add: most_ok_def)
    moreover have "\<exists>t. Tip (chainMostWork ?w) = Some t \<and> \<not> work_less addr (ns_index ?w) t q" if "q \<in> set (setBlockIndexValid u)" for q
      using tw sorted_last(2) [OF i(10,6) that] n(2) by simp
    moreover have "clear_chain (ns_index ?w) (chainMostWork ?w)" using tw n(4) by (simp add: clear_chain_def)
    ultimately have "best_step addr btc good st ?w" using u stay by (simp add: best_step_def)
    then show ?thesis using keep by (auto simp: FindMostWorkChain_def s(1) f Let_def Some u(4) split: option.splits)
  qed
qed

end
