(* ===== verification/Lotto_Reward.thy ===== *)
theory Lotto_Reward
  imports Lotto_Draw
begin

text \<open>
  Paying out a draw (\<open>CLotto::CreateRewardSchemeMap\<close>, \<open>CLotto::CreateStatisticsRewardMap\<close>
  and \<open>CLotto::GetReWardOutput\<close> of \<open>lotto/CLotto.cpp\<close>).

  The code multiplies through \<open>double\<close>: all operands are integers, so a \<open>double\<close> is
  modelled by the integer it holds, rounded to 53 significant bits with ties to even.
\<close>

section \<open>Doubles that hold integers\<close>

fun bit_length :: "nat \<Rightarrow> nat" where
  "bit_length n = (if n = 0 then 0 else Suc (bit_length (n div 2)))"

declare bit_length.simps [simp del]

definition dround :: "int \<Rightarrow> int" where
  "dround x =
     (if \<bar>x\<bar> \<le> 2 ^ 53 then x
      else let a = nat \<bar>x\<bar>; e = bit_length a - 53; q = a div 2 ^ e; r = a mod 2 ^ e; half = 2 ^ (e - 1);
               q' = (if r > half \<or> (r = half \<and> odd q) then q + 1 else q)
           in sgn x * int (q' * 2 ^ e))"

definition dmul :: "int \<Rightarrow> int \<Rightarrow> int" where
  "dmul x y = dround (dround x * dround y)"

definition dadd :: "int \<Rightarrow> int \<Rightarrow> int" where
  "dadd x y = dround (dround x + dround y)"

lemma dround_exact [simp]: "\<bar>x\<bar> \<le> 2 ^ 53 \<Longrightarrow> dround x = x"
  by (simp add: dround_def)

lemma bit_length_bounds: "0 < a \<Longrightarrow> 2 ^ (bit_length a - 1) \<le> a \<and> a < 2 ^ bit_length a \<and> 0 < bit_length a"
proof (induction a rule: bit_length.induct)
  case (1 n)
  show ?case
  proof (cases "n = 1")
    case True
    then show ?thesis by (simp add: bit_length.simps [of "Suc 0"] bit_length.simps [of 0])
  next
    case False
    with 1 have "0 < n div 2" and IH: "2 ^ (bit_length (n div 2) - 1) \<le> n div 2" "n div 2 < 2 ^ bit_length (n div 2)"
      "0 < bit_length (n div 2)" by (auto simp: div_greater_zero_iff)
    have b: "bit_length n = Suc (bit_length (n div 2))" using 1(2) by (simp add: bit_length.simps [of n])
    obtain j where j: "bit_length (n div 2) = Suc j" using IH(3) by (cases "bit_length (n div 2)") auto
    have "2 * 2 ^ j \<le> n" and "n < 2 * (2 * 2 ^ j)" using IH(1,2) j by auto
    then show ?thesis using b j by simp
  qed
qed

text \<open>Rounding does not lead back below the range in which it is exact.\<close>

lemma dround_above:
  assumes "2 ^ 53 \<le> x"
  shows "2 ^ 53 \<le> dround x"
proof (cases "x = 2 ^ 53")
  case False
  define a where "a = nat x"
  define e where "e = bit_length a - 53"
  have a: "0 < a" "2 ^ 53 < a" using assms False by (simp_all add: a_def)
  note bl = bit_length_bounds [OF a(1)]
  have "53 < bit_length a"
  proof (rule ccontr)
    assume "\<not> 53 < bit_length a"
    then have "(2 :: nat) ^ bit_length a \<le> 2 ^ 53" by (intro power_increasing) auto
    with bl a(2) show False by linarith
  qed
  then have e: "1 \<le> e" and "bit_length a - 1 = 52 + e" by (simp_all add: e_def)
  with bl have "2 ^ 52 * 2 ^ e \<le> a" by (simp add: power_add)
  then have "(2 :: nat) ^ 52 * 2 ^ e div 2 ^ e \<le> a div 2 ^ e" by (rule div_le_mono)
  then have q: "2 ^ 52 \<le> a div 2 ^ e" by simp
  define q' where "q' = (if a mod 2 ^ e > 2 ^ (e - 1) \<or> (a mod 2 ^ e = 2 ^ (e - 1) \<and> odd (a div 2 ^ e)) then a div 2 ^ e + 1 else a div 2 ^ e)"
  have sg: "sgn x = 1" "(\<bar>x\<bar> \<le> 2 ^ 53) = False" "nat \<bar>x\<bar> = a" using assms False by (simp_all add: a_def)
  have d: "dround x = int (q' * 2 ^ e)" unfolding dround_def Let_def sg(3) e_def [symmetric] q'_def [symmetric] by (simp only: sg if_False mult_1)
  have "(2 :: nat) ^ 52 * 2 ^ 1 \<le> q' * 2 ^ e" using q e by (intro mult_le_mono power_increasing) (auto simp: q'_def)
  then have "int (2 ^ 53) \<le> int (q' * 2 ^ e)" by (simp only: zle_int) simp
  then show ?thesis by (simp add: d)
qed simp

lemma dround_nonneg: "0 \<le> x \<Longrightarrow> 0 \<le> dround x"
  using dround_above [of x] by (cases "x \<le> 2 ^ 53") auto

section \<open>Stakes per prize level\<close>

definition add_coin :: "RWD_TYPE \<times> int \<Rightarrow> (RWD_TYPE \<rightharpoonup> int) \<Rightarrow> (RWD_TYPE \<rightharpoonup> int) result" where
  "add_coin item m = bindE (i64 ((case m (fst item) of None \<Rightarrow> 0 | Some v \<Rightarrow> v) + snd item))
     (\<lambda>s. Inr (m(fst item \<mapsto> s)))"

definition scheme_bet :: "CBet \<Rightarrow> CLotto \<Rightarrow> CLotto result" where
  "scheme_bet v c =
     (if isWinning v then
        bindE (foldE add_coin (map_items (rewardmap v)) (BetCoins c (btype v))) (\<lambda>m.
        Inr (c\<lparr>BetCoins := (BetCoins c)(btype v := m)\<rparr>))
      else Inr c)"

definition CreateRewardSchemeMap :: "CLotto \<Rightarrow> CLotto result" where
  "CreateRewardSchemeMap c = foldE scheme_bet (vBet c) c"

section \<open>Prize statistics\<close>

type_synonym stats = "(RWD_TYPE \<Rightarrow> int) \<times> (BET_TYPE \<Rightarrow> RWD_TYPE \<rightharpoonup> int)"

definition stat_item :: "CBet \<Rightarrow> RWD_TYPE \<times> int \<Rightarrow> stats \<Rightarrow> stats result" where
  "stat_item v item s =
     (case (item, s) of ((k, x), (reward_total, reward_m)) \<Rightarrow>
        bindE (GetMulit v k) (\<lambda>multi.
        bindE (i64 (dadd (reward_total k) (dmul multi x))) (\<lambda>t.
        bindE (i64 (dmul x multi)) (\<lambda>p.
        Inr (reward_total(k := t),
             reward_m(btype v := (case reward_m (btype v) k of
                None \<Rightarrow> (reward_m (btype v))(k \<mapsto> p) | Some _ \<Rightarrow> reward_m (btype v)))))))) "

definition stat_bet :: "CBet \<Rightarrow> stats \<Rightarrow> stats result" where
  "stat_bet v s = (if isWinning v then foldE (stat_item v) (map_items (rewardmap v)) s else Inr s)"

definition bet_types :: "BET_TYPE list" where
  "bet_types = [TYPE_15_6, TYPE_MULILT, typenull]"

text \<open>The share of one game in an oversubscribed level:
  \<open>_maxreward / BetCoins[type][rt] / reward_total[rt] * reward_m[type][rt]\<close>.\<close>

definition scheme_share :: "int \<Rightarrow> int \<Rightarrow> int \<Rightarrow> int \<Rightarrow> int result" where
  "scheme_share maxreward coins tot m =
     bindE (div64 maxreward coins) (\<lambda>q. bindE (div64 q tot) (\<lambda>q. i64 (q * m)))"

definition scheme_type :: "stats \<Rightarrow> RWD_TYPE \<Rightarrow> int \<Rightarrow> BET_TYPE \<Rightarrow> CLotto \<Rightarrow> CLotto result" where
  "scheme_type s rt maxreward t c =
     (case (BetCoins c t rt, snd s t rt) of
        (Some coins, Some m) \<Rightarrow>
          bindE (scheme_share maxreward coins (fst s rt) m) (\<lambda>x.
          Inr (c\<lparr>mRewardScheme := (mRewardScheme c)(t :=
            (case mRewardScheme c t rt of None \<Rightarrow> (mRewardScheme c t)(rt \<mapsto> x)
             | Some _ \<Rightarrow> mRewardScheme c t))\<rparr>))
      | _ \<Rightarrow> Inr c)"

definition scheme_level :: "stats \<Rightarrow> RWD_TYPE \<Rightarrow> int \<times> CLotto \<Rightarrow> (int \<times> CLotto) result" where
  "scheme_level s rt ac =
     (case ac of (availablereward, c) \<Rightarrow>
        bindE (if rt = TOP_5 then Inr availablereward
               else bindE (i64 (availablereward * 8)) (\<lambda>x. div64 x 10)) (\<lambda>maxreward.
        bindE (i64 (availablereward - maxreward)) (\<lambda>availablereward.
        if fst s rt > maxreward then
          bindE (foldE (scheme_type s rt maxreward) bet_types c) (\<lambda>c. Inr (availablereward, c))
        else bindE (i64 (maxreward - fst s rt)) (\<lambda>d.
          bindE (i64 (availablereward + d)) (\<lambda>availablereward. Inr (availablereward, c))))))"

definition CreateStatisticsRewardMap :: "CLotto \<Rightarrow> CLotto result" where
  "CreateStatisticsRewardMap c =
     bindE (foldE stat_bet (vBet c) ((\<lambda>_. 0), (\<lambda>_. Map.empty))) (\<lambda>s.
     bindE (bindE (i64 (rewardPool c * 8)) (\<lambda>x. div64 x 10)) (\<lambda>availablereward.
     bindE (foldE (scheme_level s) [TOP_1, TOP_2, TOP_3, TOP_4, TOP_5]
        (availablereward, c\<lparr>mRewardScheme := (\<lambda>_. Map.empty)\<rparr>)) (\<lambda>(_, c).
     Inr c)))"

section \<open>Outputs\<close>

definition pay_item :: "CLotto \<Rightarrow> CBet \<Rightarrow> RWD_TYPE \<times> int \<Rightarrow> int \<Rightarrow> int result" where
  "pay_item c v item acc =
     (case item of (k, x) \<Rightarrow>
        bindE (case mRewardScheme c (btype v) k of Some s \<Rightarrow> i64 (s * x)
               | None \<Rightarrow> bindE (GetMulit v k) (\<lambda>m. i64 (m * x))) (\<lambda>p. i64 (acc + p)))"

definition pay_bet :: "CLotto \<Rightarrow> CBet \<Rightarrow> CTxOut list \<times> int \<Rightarrow> (CTxOut list \<times> int) result" where
  "pay_bet c v ol =
     (if isWinning v then
        bindE (foldE (pay_item c v) (map_items (rewardmap v)) 0) (\<lambda>amount.
        bindE (i64 (snd ol + amount)) (\<lambda>llRemains.
        Inr (fst ol @ [\<lparr>out_value = amount, scriptPubKey = pay_to_key (address v)\<rparr>], llRemains)))
      else Inr ol)"

definition GetReWardOutput :: "CLotto \<Rightarrow> CTxOut list \<Rightarrow> int \<Rightarrow> (CLotto \<times> CTxOut list \<times> int) result" where
  "GetReWardOutput c vOuts llRemains =
     bindE (CreateRewardSchemeMap c) (\<lambda>c.
     bindE (CreateStatisticsRewardMap c) (\<lambda>c.
     bindE (foldE (pay_bet c) (vBet c) (vOuts, llRemains)) (\<lambda>(vOuts, llRemains).
     Inr (c, vOuts, llRemains))))"

section \<open>Loops over bets and their prizes\<close>

lemma foldE_concat: "foldE f (concat xss) = foldE (foldE f) xss"
  by (induction xss) (auto intro!: ext simp: foldE_append)

lemma foldE_map: "foldE f (map g xs) = foldE (\<lambda>x. f (g x)) xs"
  by (induction xs) (auto intro!: ext)

lemma foldE_additive:
  fixes s :: int
  assumes "foldE f xs s = Inr t" and "\<And>x s s'. x \<in> set xs \<Longrightarrow> f x s = Inr s' \<Longrightarrow> s' = s + g x"
  shows "t = s + sum_list (map g xs)"
  using assms by (induction xs arbitrary: s) (fastforce simp: bindE_eq_Inr)+

text \<open>All prizes of a list of bets, in the order the loops visit them.\<close>

definition prizes :: "CBet list \<Rightarrow> (CBet \<times> RWD_TYPE \<times> int) list" where
  "prizes vs = concat (map (\<lambda>v. map (Pair v) (map_items (rewardmap v))) vs)"

lemma set_prizes: "set (prizes vs) = {(v, k, x). v \<in> set vs \<and> rewardmap v k = Some x}"
  by (auto simp: prizes_def)

lemma stat_bets_flat: "foldE stat_bet vs s = foldE (\<lambda>(v, it). stat_item v it) (prizes vs) s"
proof -
  have "stat_bet = (\<lambda>v. foldE (\<lambda>(v, it). stat_item v it) (map (Pair v) (map_items (rewardmap v))))"
    by (intro ext) (simp add: stat_bet_def isWinning_def foldE_map)
  then show ?thesis by (simp add: prizes_def foldE_concat foldE_map)
qed

definition mult_of :: "CBet \<Rightarrow> RWD_TYPE \<Rightarrow> int" where
  "mult_of v k = (case GetMulit v k of Inr m \<Rightarrow> m | Inl _ \<Rightarrow> 0)"

definition prize_of :: "RWD_TYPE \<Rightarrow> CBet \<times> RWD_TYPE \<times> int \<Rightarrow> int" where
  "prize_of k p = (case p of (v, k', x) \<Rightarrow> if k' = k then mult_of v k * x else 0)"

text \<open>What the winners of a level are entitled to.\<close>

definition level_sum :: "(CBet \<times> RWD_TYPE \<times> int) list \<Rightarrow> RWD_TYPE \<Rightarrow> int" where
  "level_sum L k = sum_list (map (prize_of k) L)"

lemma GetMulit_cases:
  "GetMulit v k = Inr m \<Longrightarrow> m = mult_of v k" "0 \<le> mult_of v k" "mult_of v k \<le> 2 ^ 53"
  by (auto simp: mult_of_def GetMulit_def CBet_15_6_GetMulit_def CBetMulity_GetMulit_def
      multiplying_156_def multiplying_Mulity_def guardE_def
      split: bet_class.splits) (cases k; simp)+

lemma dmul_exact:
  assumes "0 \<le> m" and "0 \<le> x" and "m * x \<le> 2 ^ 53" and "m \<le> 2 ^ 53"
  shows "dmul m x = m * x"
proof (cases "m = 0")
  case True
  then show ?thesis by (simp add: dmul_def)
next
  case False
  then have "1 * x \<le> m * x" using assms by (intro mult_right_mono) auto
  then have "x \<le> 2 ^ 53" using assms(3) by simp
  then show ?thesis using assms by (simp add: dmul_def)
qed

lemma dadd_exact: "0 \<le> x \<Longrightarrow> 0 \<le> y \<Longrightarrow> x + y \<le> 2 ^ 53 \<Longrightarrow> dadd x y = x + y"
  by (simp add: dadd_def)

lemma prize_of_nonneg: "0 \<le> x \<Longrightarrow> 0 \<le> prize_of k (v, k', x)"
  using GetMulit_cases(2) [of v k] by (simp add: prize_of_def)

lemma level_sum_nonneg: "(\<And>v k x. (v, k, x) \<in> set L \<Longrightarrow> 0 \<le> x) \<Longrightarrow> 0 \<le> level_sum L k"
  unfolding level_sum_def by (rule sum_list_nonneg) (auto intro: prize_of_nonneg)

lemma isWinningI: "rewardmap v k = Some x \<Longrightarrow> isWinning v"
  using set_map_items [of "rewardmap v"] by (force simp: isWinning_def simp del: set_map_items)

section \<open>The statistics are exact\<close>

text \<open>A total that was kept in a \<open>double\<close> is exact as long as the true sum is at most \<open>2 ^ 53\<close>, and not below that bound afterwards.\<close>

definition tracks :: "int \<Rightarrow> int \<Rightarrow> bool" where
  "tracks t s \<longleftrightarrow> (if s \<le> 2 ^ 53 then t = s else 2 ^ 53 \<le> t)"

lemma dmul_above:
  assumes "0 \<le> m" and "m \<le> 2 ^ 53" and "0 \<le> x" and "2 ^ 53 < m * x"
  shows "2 ^ 53 \<le> dmul m x"
proof -
  have m: "1 \<le> m" using assms(1,4) by (cases "m = 0") auto
  have "2 ^ 53 \<le> m * dround x"
  proof (cases "x \<le> 2 ^ 53")
    case False
    then have "2 ^ 53 \<le> dround x" using dround_above by simp
    then show ?thesis using m mult_mono [of 1 m "2 ^ 53" "dround x"] by simp
  qed (use assms in simp)
  then have "2 ^ 53 \<le> dround (m * dround x)" by (rule dround_above)
  then show ?thesis using assms(1,2) by (simp add: dmul_def)
qed

lemma tracks_add:
  assumes "tracks t s" and "0 \<le> s" and "0 \<le> m" and "m \<le> 2 ^ 53" and "0 \<le> x"
  shows "tracks (dadd t (dmul m x)) (s + m * x)"
proof -
  have mx: "0 \<le> m * x" using assms(3,5) by simp
  show ?thesis
  proof (cases "s + m * x \<le> 2 ^ 53")
    case True
    then have "t = s" using assms(1) mx by (simp add: tracks_def)
    then show ?thesis using True assms(2-5) mx by (simp add: tracks_def dmul_exact dadd_exact)
  next
    case False
    have t: "0 \<le> t" "2 ^ 53 < s \<Longrightarrow> 2 ^ 53 \<le> t" "s \<le> 2 ^ 53 \<Longrightarrow> t = s" using assms(1,2) by (auto simp: tracks_def split: if_splits)
    have p: "0 \<le> dmul m x" "2 ^ 53 < m * x \<Longrightarrow> 2 ^ 53 \<le> dmul m x" "m * x \<le> 2 ^ 53 \<Longrightarrow> dmul m x = m * x"
      using dmul_above [OF assms(3-5)] dmul_exact [OF assms(3,5) _ assms(4)] mx by (cases "m * x \<le> 2 ^ 53"; auto)+
    have "2 ^ 53 \<le> dround t + dround (dmul m x)"
    proof (cases "s \<le> 2 ^ 53 \<and> m * x \<le> 2 ^ 53")
      case True
      then show ?thesis using False t(3) p(3) assms(2) mx by simp
    next
      case big: False
      then have "2 ^ 53 \<le> t \<or> 2 ^ 53 \<le> dmul m x" using t(2) p(2) by auto
      then show ?thesis using dround_above [of t] dround_above [of "dmul m x"] dround_nonneg [OF t(1)] dround_nonneg [OF p(1)] by auto
    qed
    then have "2 ^ 53 \<le> dadd t (dmul m x)" unfolding dadd_def by (rule dround_above)
    then show ?thesis using False by (simp add: tracks_def)
  qed
qed

lemma stat_item_step:
  assumes "stat_item v (k, x) (tot, m) = Inr (tot', m')" and "0 \<le> x" and "tracks (tot k) s" and "0 \<le> s"
  shows "\<exists>t. tot' = tot(k := t) \<and> tracks t (s + mult_of v k * x)" and "m' (btype v) k \<noteq> None"
    and "m t j \<noteq> None \<Longrightarrow> m' t j \<noteq> None"
proof -
  have tr: "tracks (dadd (tot k) (dmul (mult_of v k) x)) (s + mult_of v k * x)"
    using tracks_add [OF assms(3,4) _ _ assms(2)] GetMulit_cases(2,3) by blast
  obtain q where "tot' = tot(k := dadd (tot k) (dmul (mult_of v k) x))"
    and "m' = m(btype v := (case m (btype v) k of None \<Rightarrow> (m (btype v))(k \<mapsto> q) | Some _ \<Rightarrow> m (btype v)))"
    using assms(1) by (auto simp: stat_item_def bindE_eq_Inr dest!: GetMulit_cases(1))
  then show "\<exists>t. tot' = tot(k := t) \<and> tracks t (s + mult_of v k * x)" and "m' (btype v) k \<noteq> None"
    and "m t j \<noteq> None \<Longrightarrow> m' t j \<noteq> None"
    using tr by (cases "m (btype v) k"; auto)+
qed

lemma level_sum_Cons: "level_sum (p # L) k = prize_of k p + level_sum L k"
  by (simp add: level_sum_def)

lemma stat_exact:
  assumes "foldE (\<lambda>(v, it). stat_item v it) L (tot, m) = Inr (tot', m')"
    and "\<And>v k x. (v, k, x) \<in> set L \<Longrightarrow> 0 \<le> x" and "\<And>k. 0 \<le> s k" and "\<And>k. tracks (tot k) (s k)"
  shows "(\<forall>k. tracks (tot' k) (s k + level_sum L k))
    \<and> (\<forall>(v, k, x)\<in>set L. m' (btype v) k \<noteq> None)
    \<and> (\<forall>t k. m t k \<noteq> None \<longrightarrow> m' t k \<noteq> None)"
  using assms
proof (induction L arbitrary: tot m s)
  case Nil
  then show ?case by (simp add: level_sum_def)
next
  case (Cons p L)
  obtain v k x where p: "p = (v, k, x)" by (cases p)
  from Cons.prems(1) obtain tot1 m1 where st: "stat_item v (k, x) (tot, m) = Inr (tot1, m1)"
    and rest: "foldE (\<lambda>(v, it). stat_item v it) L (tot1, m1) = Inr (tot', m')"
    by (auto simp: p bindE_eq_Inr)
  have x: "0 \<le> x" and L: "\<And>v k x. (v, k, x) \<in> set L \<Longrightarrow> 0 \<le> x"
    using Cons.prems(2) by (auto simp: p)
  note step = stat_item_step [OF st x Cons.prems(4,3)]
  let ?s = "\<lambda>j. s j + prize_of j p"
  have t1: "0 \<le> ?s j" "tracks (tot1 j) (?s j)" for j
    using step(1) Cons.prems(3,4) [of j] prize_of_nonneg [OF x, of j v k] by (auto simp: p prize_of_def)
  have IH: "(\<forall>k. tracks (tot' k) (?s k + level_sum L k)) \<and> (\<forall>(v, k, x)\<in>set L. m' (btype v) k \<noteq> None)
    \<and> (\<forall>t k. m1 t k \<noteq> None \<longrightarrow> m' t k \<noteq> None)"
    by (rule Cons.IH [OF rest]) (use L t1 in blast)+
  have "tracks (tot' j) (s j + level_sum (p # L) j)" for j
    using IH by (simp add: level_sum_Cons add.assoc)
  moreover have "m' (btype v) k \<noteq> None" and "\<And>t j. m t j \<noteq> None \<Longrightarrow> m' t j \<noteq> None"
    using IH step(2,3) by blast+
  ultimately show ?case using IH by (auto simp: p)
qed

section \<open>Every prize is counted in the stakes\<close>

lemma add_coin_present:
  assumes "foldE add_coin its m = Inr m'"
  shows "(\<forall>(k, x)\<in>set its. m' k \<noteq> None) \<and> (\<forall>k. m k \<noteq> None \<longrightarrow> m' k \<noteq> None)"
  using assms
proof (induction its arbitrary: m)
  case (Cons it its)
  then obtain m1 where m1: "add_coin it m = Inr m1" "foldE add_coin its m1 = Inr m'"
    by (auto simp: bindE_eq_Inr)
  from m1(1) have "m1 (fst it) \<noteq> None" and "m k \<noteq> None \<Longrightarrow> m1 k \<noteq> None" for k
    by (auto simp: add_coin_def bindE_eq_Inr)
  with Cons.IH [OF m1(2)] show ?case by (cases it) fastforce
qed simp

lemma scheme_bets_present:
  assumes "foldE scheme_bet vs c = Inr c'"
  shows "(\<forall>v\<in>set vs. \<forall>k x. rewardmap v k = Some x \<longrightarrow> BetCoins c' (btype v) k \<noteq> None)
    \<and> (\<forall>t k. BetCoins c t k \<noteq> None \<longrightarrow> BetCoins c' t k \<noteq> None)
    \<and> vBet c' = vBet c \<and> rewardPool c' = rewardPool c"
  using assms
proof (induction vs arbitrary: c)
  case (Cons v vs)
  then obtain c1 where c1: "scheme_bet v c = Inr c1" "foldE scheme_bet vs c1 = Inr c'"
    by (auto simp: bindE_eq_Inr)
  have "BetCoins c1 (btype v) k \<noteq> None" if "rewardmap v k = Some x" for k x
  proof -
    have "(k, x) \<in> set (map_items (rewardmap v))" using that by simp
    with isWinningI [OF that] show ?thesis
      using c1(1) by (fastforce simp: scheme_bet_def bindE_eq_Inr dest: add_coin_present)
  qed
  moreover have "BetCoins c t k \<noteq> None \<Longrightarrow> BetCoins c1 t k \<noteq> None" for t k
    using c1(1) by (fastforce simp: scheme_bet_def bindE_eq_Inr split: if_splits dest: add_coin_present)
  moreover have "vBet c1 = vBet c" "rewardPool c1 = rewardPool c"
    using c1(1) by (auto simp: scheme_bet_def bindE_eq_Inr split: if_splits)
  ultimately show ?case using Cons.IH [OF c1(2)] by fastforce
qed simp

section \<open>The reward scheme\<close>

lemma trunc_div_small: "\<bar>a\<bar> < b \<Longrightarrow> trunc_div a b = 0"
  by (simp add: trunc_div_def)

lemma trunc_div_abs_le: "\<bar>trunc_div a b\<bar> \<le> \<bar>a\<bar>"
proof (cases "b = 0")
  case False
  then have "\<bar>a\<bar> div \<bar>b\<bar> \<le> \<bar>a\<bar> div 1" by (intro zdiv_mono2) auto
  moreover have "0 \<le> \<bar>a\<bar> div \<bar>b\<bar>" using False by (simp add: pos_imp_zdiv_nonneg_iff)
  ultimately show ?thesis by (simp add: trunc_div_def abs_mult abs_sgn_eq)
qed (simp add: trunc_div_def)

text \<open>An oversubscribed level divides the smaller number by the larger one: its share is zero.\<close>

lemma scheme_share_zero:
  assumes "scheme_share mx coins tot m = Inr x" and "0 \<le> mx" and "mx < tot"
  shows "x = 0"
proof -
  from assms(1) obtain q where "q = trunc_div mx coins" and "x = trunc_div q tot * m"
    by (auto simp: scheme_share_def div64_def bindE_eq_Inr split: if_splits)
  moreover from this have "trunc_div q tot = 0"
    using trunc_div_abs_le [of mx coins] assms(2,3) by (intro trunc_div_small) auto
  ultimately show ?thesis by simp
qed

definition scheme_zero :: "CLotto \<Rightarrow> bool" where
  "scheme_zero c \<longleftrightarrow> (\<forall>t k x. mRewardScheme c t k = Some x \<longrightarrow> x = 0)"

definition scheme_frame :: "RWD_TYPE set \<Rightarrow> CLotto \<Rightarrow> CLotto \<Rightarrow> bool" where
  "scheme_frame K c c' \<longleftrightarrow> BetCoins c' = BetCoins c \<and> vBet c' = vBet c \<and> rewardPool c' = rewardPool c
     \<and> (\<forall>t k. k \<notin> K \<longrightarrow> mRewardScheme c' t k = mRewardScheme c t k)
     \<and> (\<forall>t k. mRewardScheme c t k \<noteq> None \<longrightarrow> mRewardScheme c' t k \<noteq> None)"

lemma scheme_frame_refl [simp]: "scheme_frame K c c"
  by (simp add: scheme_frame_def)

lemma scheme_frame_trans: "scheme_frame K c d \<Longrightarrow> scheme_frame J d e \<Longrightarrow> scheme_frame (K \<union> J) c e"
  by (simp add: scheme_frame_def)

lemma scheme_type_step:
  assumes "scheme_type s rt mx t c = Inr c'" and "0 \<le> mx" and "mx < fst s rt" and "scheme_zero c"
  shows "scheme_zero c'" and "scheme_frame {rt} c c'"
    and "BetCoins c t rt \<noteq> None \<Longrightarrow> snd s t rt \<noteq> None \<Longrightarrow> mRewardScheme c' t rt \<noteq> None"
proof -
  have "scheme_zero c' \<and> scheme_frame {rt} c c' \<and>
    (BetCoins c t rt \<noteq> None \<longrightarrow> snd s t rt \<noteq> None \<longrightarrow> mRewardScheme c' t rt \<noteq> None)"
  proof (cases "BetCoins c t rt = None \<or> snd s t rt = None")
    case True
    then have "c' = c" using assms(1) by (auto simp: scheme_type_def split: option.splits)
    with True assms(4) show ?thesis by auto
  next
    case False
    then obtain coins m x where x: "scheme_share mx coins (fst s rt) m = Inr x"
      and c': "c' = c\<lparr>mRewardScheme := (mRewardScheme c)(t :=
            (case mRewardScheme c t rt of None \<Rightarrow> (mRewardScheme c t)(rt \<mapsto> x)
             | Some _ \<Rightarrow> mRewardScheme c t))\<rparr>"
      using assms(1) by (auto simp: scheme_type_def bindE_eq_Inr split: option.splits)
    with scheme_share_zero [OF x assms(2,3)] assms(4) show ?thesis
      by (cases "mRewardScheme c t rt") (auto simp: scheme_zero_def scheme_frame_def)
  qed
  then show "scheme_zero c'" and "scheme_frame {rt} c c'"
    and "BetCoins c t rt \<noteq> None \<Longrightarrow> snd s t rt \<noteq> None \<Longrightarrow> mRewardScheme c' t rt \<noteq> None" by blast+
qed

lemma scheme_types_step:
  assumes "foldE (scheme_type s rt mx) ts c = Inr c'" and "0 \<le> mx" and "mx < fst s rt" and "scheme_zero c"
  shows "scheme_zero c' \<and> scheme_frame {rt} c c' \<and>
    (\<forall>t\<in>set ts. BetCoins c t rt \<noteq> None \<longrightarrow> snd s t rt \<noteq> None \<longrightarrow> mRewardScheme c' t rt \<noteq> None)"
  using assms(1,4)
proof (induction ts arbitrary: c)
  case (Cons t ts)
  then obtain c1 where c1: "scheme_type s rt mx t c = Inr c1" "foldE (scheme_type s rt mx) ts c1 = Inr c'"
    by (auto simp: bindE_eq_Inr)
  note step = scheme_type_step [OF c1(1) assms(2,3) Cons.prems(2)]
  note IH = Cons.IH [OF c1(2) step(1)]
  then have "scheme_frame {rt} c c'" using step(2) scheme_frame_trans [of "{rt}" c c1 "{rt}" c'] by simp
  moreover have "BetCoins c1 = BetCoins c" using step(2) by (simp add: scheme_frame_def)
  moreover have "mRewardScheme c' t rt \<noteq> None" if "BetCoins c t rt \<noteq> None" "snd s t rt \<noteq> None"
    using step(3) [OF that] IH by (auto simp: scheme_frame_def)
  ultimately show ?case using IH by auto
qed simp

lemma mem_bet_types [simp]: "t \<in> set bet_types"
  by (cases t) (simp_all add: bet_types_def)

text \<open>One level: either its prizes fit what is left of the pool and are paid in full, or the
  scheme holds a zero share for every game that has a prize on it.\<close>

lemma scheme_level_step:
  assumes "scheme_level s rt (a, c) = Inr (a', c')" and "0 \<le> a" and "0 \<le> fst s rt" and "scheme_zero c"
  shows "scheme_zero c' \<and> scheme_frame {rt} c c' \<and> 0 \<le> a' \<and> a' \<le> a \<and>
    (c' = c \<and> fst s rt \<le> a - a'
     \<or> (\<forall>t. BetCoins c t rt \<noteq> None \<longrightarrow> snd s t rt \<noteq> None \<longrightarrow> mRewardScheme c' t rt \<noteq> None))"
proof -
  from assms(1) obtain mx where mx: "mx = (if rt = TOP_5 then a else a * 8 div 10)"
    and body: "(if fst s rt > mx then
          bindE (foldE (scheme_type s rt mx) bet_types c) (\<lambda>c. Inr (a - mx, c))
        else bindE (i64 (mx - fst s rt)) (\<lambda>d. bindE (i64 (a - mx + d)) (\<lambda>a. Inr (a, c)))) = Inr (a', c')"
    using assms(2)
    by (auto simp: scheme_level_def bindE_eq_Inr div64_def trunc_div_nonneg split: if_splits)
  have m: "0 \<le> mx" "mx \<le> a" using assms(2) by (auto simp: mx)
  show ?thesis
  proof (cases "mx < fst s rt")
    case True
    then have "foldE (scheme_type s rt mx) bet_types c = Inr c'" "a' = a - mx"
      using body by (auto simp: bindE_eq_Inr)
    with scheme_types_step [OF this(1) m(1) True assms(4)] m show ?thesis by auto
  next
    case False
    then have "c' = c" "a' = a - fst s rt" using body by (auto simp: bindE_eq_Inr)
    with False m assms(3,4) show ?thesis by auto
  qed
qed

lemma scheme_levels_step:
  assumes "foldE (scheme_level s) ks (a, c) = Inr (a', c')" and "distinct ks" and "0 \<le> a"
    and "\<And>k. k \<in> set ks \<Longrightarrow> 0 \<le> fst s k" and "scheme_zero c"
  shows "\<exists>paid. paid \<subseteq> set ks \<and> scheme_zero c' \<and> scheme_frame (set ks - paid) c c' \<and> 0 \<le> a' \<and>
    (\<Sum>k\<in>paid. fst s k) \<le> a - a' \<and>
    (\<forall>k\<in>set ks - paid. \<forall>t. BetCoins c t k \<noteq> None \<longrightarrow> snd s t k \<noteq> None \<longrightarrow> mRewardScheme c' t k \<noteq> None)"
  using assms
proof (induction ks arbitrary: a c)
  case Nil
  then show ?case by simp
next
  case (Cons rt ks)
  from Cons.prems(1) obtain a1 c1 where st: "scheme_level s rt (a, c) = Inr (a1, c1)"
    and rest: "foldE (scheme_level s) ks (a1, c1) = Inr (a', c')"
    by (auto simp: bindE_eq_Inr)
  have "0 \<le> fst s rt" using Cons.prems(4) by simp
  note step = scheme_level_step [OF st Cons.prems(3) this Cons.prems(5)]
  have z1: "scheme_zero c1" and a1: "0 \<le> a1" "a1 \<le> a" and f1: "scheme_frame {rt} c c1"
    using step by auto
  have "\<exists>paid. paid \<subseteq> set ks \<and> scheme_zero c' \<and> scheme_frame (set ks - paid) c1 c' \<and> 0 \<le> a' \<and>
    (\<Sum>k\<in>paid. fst s k) \<le> a1 - a' \<and>
    (\<forall>k\<in>set ks - paid. \<forall>t. BetCoins c1 t k \<noteq> None \<longrightarrow> snd s t k \<noteq> None \<longrightarrow> mRewardScheme c' t k \<noteq> None)"
    by (rule Cons.IH [OF rest]) (use Cons.prems(2,4) a1 z1 in auto)
  then obtain paid where paid: "paid \<subseteq> set ks" "scheme_zero c'" "scheme_frame (set ks - paid) c1 c'"
    "0 \<le> a'" "(\<Sum>k\<in>paid. fst s k) \<le> a1 - a'"
    "\<And>k t. k \<in> set ks - paid \<Longrightarrow> BetCoins c1 t k \<noteq> None \<Longrightarrow> snd s t k \<noteq> None \<Longrightarrow> mRewardScheme c' t k \<noteq> None"
    by blast
  have fin: "finite paid" and rt: "rt \<notin> paid" using paid(1) Cons.prems(2) finite_subset by auto
  have coins: "BetCoins c1 = BetCoins c" using f1 by (simp add: scheme_frame_def)
  from step consider (full) "c1 = c" "fst s rt \<le> a - a1"
    | (over) "\<And>t. BetCoins c t rt \<noteq> None \<Longrightarrow> snd s t rt \<noteq> None \<Longrightarrow> mRewardScheme c1 t rt \<noteq> None"
    by blast
  then show ?case
  proof cases
    case full
    have "set (rt # ks) - insert rt paid = set ks - paid" using Cons.prems(2) by auto
    then show ?thesis
      using paid full fin rt coins by (intro exI [of _ "insert rt paid"]) auto
  next
    case over
    have "set (rt # ks) - paid = {rt} \<union> (set ks - paid)" using rt by auto
    moreover have "scheme_frame ({rt} \<union> (set ks - paid)) c c'"
      using f1 paid(3) by (rule scheme_frame_trans)
    moreover have "mRewardScheme c' t rt \<noteq> None" if "BetCoins c t rt \<noteq> None" "snd s t rt \<noteq> None" for t
      using over [OF that] paid(3) by (auto simp: scheme_frame_def)
    ultimately show ?thesis
      using paid a1(2) coins by (intro exI [of _ paid]) auto
  qed
qed

section \<open>Payments\<close>

definition paid_of :: "CLotto \<Rightarrow> CBet \<times> RWD_TYPE \<times> int \<Rightarrow> int" where
  "paid_of c p = (case p of (v, k, x) \<Rightarrow>
     (case mRewardScheme c (btype v) k of Some s \<Rightarrow> s * x | None \<Rightarrow> mult_of v k * x))"

lemma pay_item_add: "pay_item c v it s = Inr s' \<Longrightarrow> s' = s + paid_of c (v, it)"
  by (cases it)
    (auto simp: pay_item_def paid_of_def bindE_eq_Inr dest!: GetMulit_cases(1) split: option.splits)

lemma pay_bet_total:
  assumes "pay_bet c v (os, l) = Inr (os', l')"
  shows "l' = l + sum_list (map (\<lambda>it. paid_of c (v, it)) (map_items (rewardmap v)))"
proof (cases "isWinning v")
  case True
  with assms obtain amount where "foldE (pay_item c v) (map_items (rewardmap v)) 0 = Inr amount"
    and "l' = l + amount" by (auto simp: pay_bet_def bindE_eq_Inr)
  with foldE_additive [OF this(1), of "\<lambda>it. paid_of c (v, it)"] show ?thesis
    by (auto dest: pay_item_add)
next
  case False
  with assms show ?thesis by (simp add: pay_bet_def isWinning_def)
qed

lemma pay_bets_total:
  assumes "foldE (pay_bet c) vs (os, l) = Inr (os', l')"
  shows "l' = l + sum_list (map (paid_of c) (prizes vs))"
  using assms
proof (induction vs arbitrary: os l)
  case Nil
  then show ?case by (simp add: prizes_def)
next
  case (Cons v vs)
  from Cons.prems obtain os1 l1 where st: "pay_bet c v (os, l) = Inr (os1, l1)"
    and rest: "foldE (pay_bet c) vs (os1, l1) = Inr (os', l')"
    by (auto simp: bindE_eq_Inr)
  from pay_bet_total [OF st] Cons.IH [OF rest] show ?case
    by (simp add: prizes_def comp_def)
qed

lemma sum_list_split:
  fixes f :: "'a \<Rightarrow> int"
  assumes "finite K" and "\<And>x. x \<in> set xs \<Longrightarrow> h x \<notin> K \<Longrightarrow> f x = 0"
  shows "sum_list (map f xs) = (\<Sum>k\<in>K. sum_list (map (\<lambda>x. if h x = k then f x else 0) xs))"
  using assms by (induction xs) (auto simp: sum.distrib)

text \<open>The scheme a draw ends with, and the levels that are paid in full.\<close>

lemma statistics_result:
  assumes "CreateStatisticsRewardMap c = Inr c'" and "0 \<le> rewardPool c"
    and "\<And>v k x. (v, k, x) \<in> set (prizes (vBet c)) \<Longrightarrow> 0 \<le> x"
    and "rewardPool c \<le> 2 ^ 53"
    and "\<And>v k x. (v, k, x) \<in> set (prizes (vBet c)) \<Longrightarrow> BetCoins c (btype v) k \<noteq> None"
  shows "\<exists>paid. TOP_null \<notin> paid \<and> scheme_zero c' \<and> vBet c' = vBet c
    \<and> (\<Sum>k\<in>paid. level_sum (prizes (vBet c)) k) \<le> rewardPool c * 8 div 10
    \<and> (\<forall>v k x. (v, k, x) \<in> set (prizes (vBet c)) \<longrightarrow> (if k \<in> paid then mRewardScheme c' (btype v) k = None
         else k \<noteq> TOP_null \<longrightarrow> mRewardScheme c' (btype v) k \<noteq> None))"
proof -
  let ?ks = "[TOP_1, TOP_2, TOP_3, TOP_4, TOP_5]" and ?L = "prizes (vBet c)"
  let ?c0 = "c\<lparr>mRewardScheme := (\<lambda>_. Map.empty)\<rparr>" and ?a = "rewardPool c * 8 div 10"
  from assms(1,2) obtain tot m a' where
    st: "foldE (\<lambda>(v, it). stat_item v it) ?L ((\<lambda>_. 0), (\<lambda>_. Map.empty)) = Inr (tot, m)"
    and lv: "foldE (scheme_level (tot, m)) ?ks (?a, ?c0) = Inr (a', c')"
    by (auto simp: CreateStatisticsRewardMap_def stat_bets_flat bindE_eq_Inr div64_def trunc_div_nonneg
        simp del: foldE.simps split: if_splits)
  note ex = stat_exact [OF st, where s = "\<lambda>_. 0"]
  have "\<forall>k. tracks (tot k) (0 + level_sum ?L k)" by (rule ex [THEN conjunct1]) (use assms(3) in \<open>auto simp: tracks_def\<close>)
  then have tr: "tracks (tot k) (level_sum ?L k)" for k by simp
  have nn: "0 \<le> level_sum ?L k" for k using assms(3) by (rule level_sum_nonneg)
  have tot: "0 \<le> tot k" "tot k < 2 ^ 53 \<Longrightarrow> tot k = level_sum ?L k" for k using tr [of k] nn [of k] by (auto simp: tracks_def split: if_splits)
  have "\<forall>(v, k, x)\<in>set ?L. m (btype v) k \<noteq> None" by (rule ex [THEN conjunct2, THEN conjunct1]) (use assms(3) in \<open>auto simp: tracks_def\<close>)
  then have m: "\<And>v k x. (v, k, x) \<in> set ?L \<Longrightarrow> m (btype v) k \<noteq> None" by fast
  have "\<exists>paid. paid \<subseteq> set ?ks \<and> scheme_zero c' \<and> scheme_frame (set ?ks - paid) ?c0 c' \<and> 0 \<le> a' \<and>
    (\<Sum>k\<in>paid. fst (tot, m) k) \<le> ?a - a' \<and>
    (\<forall>k\<in>set ?ks - paid. \<forall>t. BetCoins ?c0 t k \<noteq> None \<longrightarrow> snd (tot, m) t k \<noteq> None \<longrightarrow> mRewardScheme c' t k \<noteq> None)"
    by (rule scheme_levels_step [OF lv])
      (use assms(2) tot(1) in \<open>auto simp: scheme_zero_def\<close>)
  then obtain paid where p: "paid \<subseteq> set ?ks" "scheme_zero c'" "scheme_frame (set ?ks - paid) ?c0 c'" "0 \<le> a'"
    "(\<Sum>k\<in>paid. tot k) \<le> ?a - a'"
    "\<And>k t. k \<in> set ?ks - paid \<Longrightarrow> BetCoins c t k \<noteq> None \<Longrightarrow> m t k \<noteq> None \<Longrightarrow> mRewardScheme c' t k \<noteq> None"
    by auto
  have "mRewardScheme c' (btype v) k = None" if "k \<in> paid" for v k
    using p(3) that by (simp add: scheme_frame_def)
  moreover have "mRewardScheme c' (btype v) k \<noteq> None"
    if "(v, k, x) \<in> set ?L" "k \<notin> paid" "k \<noteq> TOP_null" for v k x
    using that m assms(5) by (intro p(6)) (cases k; auto)+
  moreover have "TOP_null \<notin> paid" using p(1) by auto
  moreover have "vBet c' = vBet c" using p(3) by (simp add: scheme_frame_def)
  moreover have "(\<Sum>k\<in>paid. level_sum ?L k) = (\<Sum>k\<in>paid. tot k)"
  proof (rule sum.cong [OF refl])
    fix k assume "k \<in> paid"
    then have "tot k \<le> (\<Sum>k\<in>paid. tot k)" using tot(1) by (intro member_le_sum) auto
    also have "\<dots> \<le> ?a" using p(4,5) by simp
    also have "\<dots> < 2 ^ 53" using assms(4) by simp
    finally show "level_sum ?L k = tot k" using tot(2) by simp
  qed
  ultimately show ?thesis
    using p(2,4,5) by (intro exI [of _ paid]) auto
qed

text \<open>Bets whose prizes are non-negative and on a level.\<close>

definition bets_ok :: "CLotto \<Rightarrow> bool" where
  "bets_ok c \<longleftrightarrow> (\<forall>v k x. v \<in> set (vBet c) \<longrightarrow> rewardmap v k = Some x \<longrightarrow> 0 \<le> x \<and> k \<noteq> TOP_null)"

lemma reward_levels:
  assumes "GetReWardOutput c outs r = Inr (c', outs', r')" and "0 \<le> rewardPool c"
    and "bets_ok c" and "rewardPool c \<le> 2 ^ 53"
  shows "\<exists>paid. scheme_zero c' \<and> vBet c' = vBet c
    \<and> (\<Sum>k\<in>paid. level_sum (prizes (vBet c)) k) \<le> rewardPool c * 8 div 10
    \<and> (\<forall>v k x. (v, k, x) \<in> set (prizes (vBet c)) \<longrightarrow>
      (if k \<in> paid then mRewardScheme c' (btype v) k = None else mRewardScheme c' (btype v) k = Some 0))"
proof -
  from assms(1) obtain c1 where c1: "CreateRewardSchemeMap c = Inr c1"
    and c': "CreateStatisticsRewardMap c1 = Inr c'"
    by (auto simp: GetReWardOutput_def bindE_eq_Inr)
  let ?L = "prizes (vBet c)"
  note pres = scheme_bets_present [OF c1 [unfolded CreateRewardSchemeMap_def]]
  have eq: "vBet c1 = vBet c" "rewardPool c1 = rewardPool c" using pres by auto
  have "\<exists>paid. TOP_null \<notin> paid \<and> scheme_zero c' \<and> vBet c' = vBet c
    \<and> (\<Sum>k\<in>paid. level_sum ?L k) \<le> rewardPool c * 8 div 10
    \<and> (\<forall>v k x. (v, k, x) \<in> set ?L \<longrightarrow> (if k \<in> paid then mRewardScheme c' (btype v) k = None
         else k \<noteq> TOP_null \<longrightarrow> mRewardScheme c' (btype v) k \<noteq> None))"
    by (rule statistics_result [OF c', unfolded eq]) (use pres assms(2-4) in \<open>auto simp: set_prizes bets_ok_def\<close>)
  then obtain paid where z: "scheme_zero c'" "vBet c' = vBet c"
    "(\<Sum>k\<in>paid. level_sum ?L k) \<le> rewardPool c * 8 div 10"
    and sch: "\<And>v k x. (v, k, x) \<in> set ?L \<Longrightarrow> if k \<in> paid then mRewardScheme c' (btype v) k = None
         else k \<noteq> TOP_null \<longrightarrow> mRewardScheme c' (btype v) k \<noteq> None"
    by blast
  have "if k \<in> paid then mRewardScheme c' (btype v) k = None else mRewardScheme c' (btype v) k = Some 0"
    if "(v, k, x) \<in> set ?L" for v k x
    using sch [OF that] that assms(3) z(1) by (auto simp: set_prizes bets_ok_def scheme_zero_def split: if_splits)
  then show ?thesis using z by blast
qed

lemma solvency:
  assumes "GetReWardOutput c outs r = Inr (c', outs', r')" and "0 \<le> rewardPool c"
    and "bets_ok c" and "rewardPool c \<le> 2 ^ 53"
  shows "r' - r \<le> rewardPool c * 8 div 10"
proof -
  let ?L = "prizes (vBet c)"
  obtain paid where z: "scheme_zero c'" and v': "vBet c' = vBet c"
    and le: "(\<Sum>k\<in>paid. level_sum ?L k) \<le> rewardPool c * 8 div 10"
    and sch: "\<And>v k x. (v, k, x) \<in> set ?L \<Longrightarrow>
      if k \<in> paid then mRewardScheme c' (btype v) k = None else mRewardScheme c' (btype v) k = Some 0"
    using reward_levels [OF assms] by blast
  from assms(1) have pay: "foldE (pay_bet c') (vBet c') (outs, r) = Inr (outs', r')"
    by (auto simp: GetReWardOutput_def bindE_eq_Inr)
  have fin: "finite paid" by simp
  have p0: "paid_of c' p = 0" if "p \<in> set ?L" "fst (snd p) \<notin> paid" for p
    using that sch [of "fst p" "fst (snd p)" "snd (snd p)"] by (auto simp: paid_of_def case_prod_unfold)
  have "(if fst (snd p) = k then paid_of c' p else 0) = prize_of k p" if "p \<in> set ?L" "k \<in> paid" for p k
    using that sch [of "fst p" "fst (snd p)" "snd (snd p)"]
    by (auto simp: paid_of_def prize_of_def case_prod_unfold split: if_splits)
  then have "sum_list (map (\<lambda>p. if fst (snd p) = k then paid_of c' p else 0) ?L) = level_sum ?L k"
    if "k \<in> paid" for k
    using that unfolding level_sum_def by (intro arg_cong [where f = sum_list] map_cong) auto
  then have "sum_list (map (paid_of c') ?L) = (\<Sum>k\<in>paid. level_sum ?L k)"
    using sum_list_split [OF fin, of ?L "\<lambda>p. fst (snd p)" "paid_of c'"] p0 by simp
  with le pay_bets_total [OF pay] v' show "r' - r \<le> rewardPool c * 8 div 10" by simp
qed

end
