(* ===== verification/Lotto_Accept.thy ===== *)
theory Lotto_Accept
  imports Lotto_Reward
begin

text \<open>
  From the payload of a bet to its prizes: what \<open>CLotto::IsValid\<close> accepts, what
  \<open>CLotto::CreateCbet\<close> and \<open>CLotto::Init\<close> make of it, and that an accepted bet never makes
  the draw fail.
\<close>

section \<open>Payloads\<close>

definition bet_payload :: "BET_TYPE \<Rightarrow> byte list \<Rightarrow> byte list \<Rightarrow> byte list" where
  "bet_payload t addr sel = (if t = TYPE_15_6 then 0 else 1) # addr @ sel"

lemma GetType_payload: "t \<noteq> typenull \<Longrightarrow> GetType (bet_payload t addr sel) = Inr t"
  by (cases t) (simp_all add: GetType_def bet_payload_def)

lemma input_betdata_payload:
  assumes "t \<noteq> typenull" and "length addr = 20"
  shows "input_betdata b (bet_payload t addr sel) = Inr (b\<lparr>btype := t, address := addr, vch := sel\<rparr>)"
proof -
  have "GetAddr (bet_payload t addr sel) = Inr addr" "GetSelectV (bet_payload t addr sel) = Inr sel"
    using assms by (auto simp: GetAddr_def GetSelectV_def ADRESSLEN_def bet_payload_def)
  with assms show ?thesis by (simp add: input_betdata_def GetType_payload)
qed

text \<open>A payload that is read without a fault has the wire form, or is too short to carry an address.\<close>

lemma input_betdataD:
  assumes "input_betdata b d = Inr b'" and "vch b' \<noteq> []"
  obtains t addr sel where "t \<noteq> typenull" and "length addr = 20" and "d = bet_payload t addr sel"
    and "b' = b\<lparr>btype := t, address := addr, vch := sel\<rparr>"
proof -
  from assms have len: "21 \<le> length d"
    by (auto simp: input_betdata_def bindE_eq_Inr GetSelectV_def GetAddr_def ADRESSLEN_def
        split: if_splits)
  then obtain h r where d: "d = h # r" and r: "20 \<le> length r" by (cases d) auto
  from assms(1) len have h: "h = 0 \<or> h = 1"
    by (auto simp: d input_betdata_def bindE_eq_Inr GetType_def) (unat_arith)
  let ?t = "if h = 0 then TYPE_15_6 else TYPE_MULILT"
  have p: "d = bet_payload ?t (take 20 r) (drop 20 r)" using h by (auto simp: d bet_payload_def)
  have t: "?t \<noteq> typenull" "length (take 20 r) = 20" using r by auto
  have "b' = b\<lparr>btype := ?t, address := take 20 r, vch := drop 20 r\<rparr>"
    using assms(1) [unfolded p] input_betdata_payload [OF t, of b "drop 20 r"]
    by (metis Inr_inject)
  with t p show thesis by (rule that)
qed

section \<open>Accepted bets\<close>

lemma SplitSelectNum_fields [simp]:
  "vch (SplitSelectNum b) = vch b" "btype (SplitSelectNum b) = btype b" "cls (SplitSelectNum b) = cls b"
  "nValue (SplitSelectNum b) = nValue b" "address (SplitSelectNum b) = address b"
  "vLuckyStar (SplitSelectNum b) = vLuckyStar b"
  by (simp_all add: SplitSelectNum_def)

lemma SplitSelectNum_update:
  "(SplitSelectNum b)\<lparr>nValue := v, vLuckyStar := l\<rparr> = SplitSelectNum (b\<lparr>nValue := v, vLuckyStar := l\<rparr>)"
  by (simp add: SplitSelectNum_def)

text \<open>The lucky numbers a draw uses.\<close>

definition lucky_ok :: "(BET_TYPE \<Rightarrow> byte list) \<Rightarrow> bool" where
  "lucky_ok m \<longleftrightarrow> gSplitFlag \<in> set (m TYPE_MULILT)
     \<and> length (before_flag (m TYPE_MULILT)) = 5 \<and> length (after_flag (m TYPE_MULILT)) = 2"

lemma lucky_map_ok:
  assumes "CreateLuckyStarMap sha fuel c = Some (Inr (True, c'))"
  shows "lucky_ok (mLuckyStar c')"
proof -
  from assms obtain v where v: "draw_MULILT sha fuel (lhash c) = Some (Inr v)"
    and m: "mLuckyStar c' TYPE_MULILT = v"
    by (auto simp: CreateLuckyStarMap_def split: if_splits option.splits sum.splits)
  from v show ?thesis
  proof (rule draw_MULILT_result)
    fix red blue
    assume a: "v = red @ gSplitFlag # blue" "length red = 5" "length blue = 2" "set red \<subseteq> {1..20}"
    then have "gSplitFlag \<notin> set red"
      by (intro flag_not_drawn [of _ 20]) (simp_all add: gSplitFlag_def)
    with a m show ?thesis by (simp add: lucky_ok_def before_flag_append after_flag_append)
  qed
qed

definition reward_spec :: "CBet \<Rightarrow> RWD_TYPE \<rightharpoonup> int" where
  "reward_spec b = (if cls b = Class_CBet_15_6 then reward_spec_156 b else reward_spec_Mulity b)"

text \<open>Validity does not depend on the lucky numbers.\<close>

lemma valid_lucky_156 [simp]: "CBet_15_6_IsValid (b\<lparr>vLuckyStar := l\<rparr>) = CBet_15_6_IsValid b"
  by (simp add: CBet_15_6_IsValid_def CBet_IsValid_def min_bet_ok_def getTotalBer_def
      getTotalBer_156_def getTotalBer_Mulity_def cong: if_cong bet_class.case_cong)

lemma valid_lucky_Mulity [simp]: "CBetMulity_IsValid (b\<lparr>vLuckyStar := l\<rparr>) = CBetMulity_IsValid b"
  by (simp add: CBetMulity_IsValid_def min_bet_ok_def getTotalBer_def getTotalBer_156_def
      getTotalBer_Mulity_def Let_def cong: if_cong bet_class.case_cong)

lemma input_lucky_new:
  "input_lucky (input_value ((new_CBet k)\<lparr>btype := t, address := a, vch := s\<rparr>) v) l
    = Inr ((new_CBet k)\<lparr>btype := t, address := a, vch := s, nValue := v, vLuckyStar := l\<rparr>)"
  by (simp add: input_lucky_def input_value_def new_CBet_def)

lemma reward_spec_frame [simp]: "reward_spec (b\<lparr>rewardmap := m\<rparr>) = reward_spec b"
  by (simp add: fun_eq_iff reward_spec_def reward_spec_156_def reward_spec_Mulity_def
      winning_Mulity_def Let_def)

lemma accepted_156:
  assumes "input_betdata (input_value (new_CBet Class_CBet_15_6) v) d = Inr b0"
    and "CBet_15_6_IsValid b0 = Inr True" and "GetType d = Inr TYPE_15_6" and "v < 2 ^ 63"
  shows "\<exists>b b'. CreateCbet d = Inr b \<and> input_lucky (input_value b v) (m (btype b)) = Inr b'
    \<and> nValue b' = v \<and> CreateRewardMap b' = Inr (b'\<lparr>rewardmap := reward_spec b'\<rparr>)"
proof -
  from assms(2) have "vch b0 \<noteq> []" by (auto simp: CBet_15_6_IsValid_def bindE_eq_Inr split: if_splits)
  with assms(1) obtain u addr sel where d: "u \<noteq> typenull" "length addr = 20" "d = bet_payload u addr sel"
    and b0: "b0 = (input_value (new_CBet Class_CBet_15_6) v)\<lparr>btype := u, address := addr, vch := sel\<rparr>"
    by (rule input_betdataD)
  let ?b = "(new_CBet Class_CBet_15_6)\<lparr>btype := u, address := addr, vch := sel\<rparr>"
  let ?b' = "b0\<lparr>vLuckyStar := m u\<rparr>"
  have "CreateCbet d = Inr ?b"
    using assms(3) d by (simp add: CreateCbet_def input_betdata_payload)
  moreover have "input_lucky (input_value ?b v) (m (btype ?b)) = Inr ?b'"
    unfolding input_lucky_new by (simp add: b0 input_value_def)
  moreover have f: "nValue b0 = v" "cls b0 = Class_CBet_15_6" by (simp_all add: b0 input_value_def new_CBet_def)
  moreover have "CreateRewardMap ?b' = Inr (?b'\<lparr>rewardmap := reward_spec_156 ?b'\<rparr>)"
    using assms(2,4) f by (intro create_reward_map_156) simp_all
  moreover have "reward_spec ?b' = reward_spec_156 ?b'" using f by (simp add: reward_spec_def)
  ultimately show ?thesis by (intro exI [of _ ?b] exI [of _ ?b']) simp
qed

lemma accepted_Mulity:
  assumes "input_betdata (input_value (new_CBet Class_CBetMulity) v) d = Inr b0"
    and "CBetMulity_IsValid b0 = Inr True" and "GetType d = Inr TYPE_MULILT" and "v < 2 ^ 63"
    and "lucky_ok m"
  shows "\<exists>b b'. CreateCbet d = Inr b \<and> input_lucky (input_value b v) (m (btype b)) = Inr b'
    \<and> nValue b' = v \<and> CreateRewardMap b' = Inr (b'\<lparr>rewardmap := reward_spec b'\<rparr>)"
proof -
  from assms(2) have ne: "vch b0 \<noteq> []" and bt: "btype b0 = TYPE_MULILT"
    by (auto simp: CBetMulity_IsValid_def bindE_eq_Inr Let_def split: if_splits)
  from assms(1) ne obtain u addr sel where d: "u \<noteq> typenull" "length addr = 20" "d = bet_payload u addr sel"
    and b0: "b0 = (input_value (new_CBet Class_CBetMulity) v)\<lparr>btype := u, address := addr, vch := sel\<rparr>"
    by (rule input_betdataD)
  have u: "u = TYPE_MULILT" using bt by (simp add: b0)
  let ?b = "(new_CBet Class_CBetMulity)\<lparr>btype := u, address := addr, vch := sel\<rparr>"
  let ?b1 = "b0\<lparr>vLuckyStar := m u\<rparr>"
  let ?b' = "SplitSelectNum ?b1"
  have "CreateCbet d = Inr (SplitSelectNum ?b)"
    using assms(3) d by (simp add: CreateCbet_def input_betdata_payload)
  moreover have "input_lucky (input_value (SplitSelectNum ?b) v) (m (btype (SplitSelectNum ?b))) = Inr ?b'"
    by (simp add: b0 input_lucky_def input_value_def SplitSelectNum_def new_CBet_def)
  moreover have f: "nValue b0 = v" "cls b0 = Class_CBetMulity" by (simp_all add: b0 input_value_def new_CBet_def)
  moreover have "CreateRewardMap ?b' = Inr (?b'\<lparr>rewardmap := reward_spec_Mulity ?b1\<rparr>)"
    using assms(2,4,5) u f by (intro create_reward_map_Mulity) (simp_all add: lucky_ok_def)
  moreover have "reward_spec_Mulity ?b1 = reward_spec ?b'"
    using f by (simp add: fun_eq_iff reward_spec_def reward_spec_Mulity_def winning_Mulity_def)
  ultimately show ?thesis by (intro exI [of _ "SplitSelectNum ?b"] exI [of _ ?b']) simp
qed

lemma accepted_bet:
  assumes "CLotto_IsValid d v = Inr True" and "v < 2 ^ 63"
    and "CreateLuckyStarMap sha fuel c0 = Some (Inr (True, c))"
    and "GetBetData (scriptPubKey out) = Some d" and "out_value out = v"
  shows "\<exists>b. add_bet out c = Inr (c\<lparr>vBet := vBet c @ [b]\<rparr>) \<and> nValue b = v \<and> rewardmap b = reward_spec b"
proof -
  have ok: "lucky_ok (mLuckyStar c)" by (rule lucky_map_ok [OF assms(3)])
  from assms(1) obtain t where t: "GetType d = Inr t" by (auto simp: CLotto_IsValid_def bindE_eq_Inr)
  have "\<exists>b b'. CreateCbet d = Inr b \<and> input_lucky (input_value b v) (mLuckyStar c (btype b)) = Inr b'
    \<and> nValue b' = v \<and> CreateRewardMap b' = Inr (b'\<lparr>rewardmap := reward_spec b'\<rparr>)"
  proof (cases t)
    case TYPE_15_6
    with assms(1) t obtain b0 where "input_betdata (input_value (new_CBet Class_CBet_15_6) v) d = Inr b0"
      and "CBet_15_6_IsValid b0 = Inr True" by (auto simp: CLotto_IsValid_def bindE_eq_Inr)
    from accepted_156 [OF this t [unfolded TYPE_15_6] assms(2)] show ?thesis .
  next
    case TYPE_MULILT
    with assms(1) t obtain b0 where "input_betdata (input_value (new_CBet Class_CBetMulity) v) d = Inr b0"
      and "CBetMulity_IsValid b0 = Inr True" by (auto simp: CLotto_IsValid_def bindE_eq_Inr)
    from accepted_Mulity [OF this t [unfolded TYPE_MULILT] assms(2) ok] show ?thesis .
  qed (use assms(1) t in \<open>simp add: CLotto_IsValid_def\<close>)
  then obtain b b' where "CreateCbet d = Inr b"
    "input_lucky (input_value b v) (mLuckyStar c (btype b)) = Inr b'"
    "nValue b' = v" "CreateRewardMap b' = Inr (b'\<lparr>rewardmap := reward_spec b'\<rparr>)" by blast
  then show ?thesis
    using assms(4,5)
    by (intro exI [of _ "b'\<lparr>rewardmap := reward_spec b'\<rparr>"])
      (simp add: add_bet_def)
qed

text \<open>A concrete run: a toy hash on two-byte lists whose double application counts upwards, a bet on
  1 to 6 and its output.\<close>

definition toy_sha :: "byte list \<Rightarrow> byte list" where
  "toy_sha x = (case x of [a, b] \<Rightarrow> [b, a + 1] | _ \<Rightarrow> [0, 1])"

definition toy_lotto :: CLotto where
  "toy_lotto = (new_CLotto [255, 1] 1000000000)\<lparr>mLuckyStar := (\<lambda>_. [])
     (TYPE_15_6 := [1, 2, 3, 4, 5, 6], TYPE_MULILT := [1, 2, 3, 4, 5, 255, 6, 7])\<rparr>"

definition toy_payload :: "byte list" where
  "toy_payload = bet_payload TYPE_15_6 (replicate 20 7) [1, 2, 3, 4, 5, 6, 9]"

lemma toy_draw_15_6: "draw_15_6 toy_sha 9 [255, 1] = Some (Inr [1, 2, 3, 4, 5, 6])"
  by code_simp

lemma toy_draw_MULILT: "draw_MULILT toy_sha 9 [255, 1] = Some (Inr [1, 2, 3, 4, 5, 255, 6, 7])"
  by code_simp

lemma toy_draw: "CreateLuckyStarMap toy_sha 9 (new_CLotto [255, 1] 1000000000) = Some (Inr (True, toy_lotto))"
  by (simp add: CreateLuckyStarMap_def toy_lotto_def new_CLotto_def toy_draw_15_6 toy_draw_MULILT)

lemma toy_valid: "CLotto_IsValid toy_payload 700001 = Inr True"
  by (code_simp)

text \<open>C16: A bet that validation accepts is evaluated by the draw without a fault, and its reward map
  holds for every prize level the number of its tickets on that level times the stake of one ticket.\<close>

theorem accepted_bet_rewarded:
  assumes "CLotto_IsValid d v = Inr True" and "v < 2 ^ 63"
    and "CreateLuckyStarMap sha fuel c0 = Some (Inr (True, c))"
    and "GetBetData (scriptPubKey out) = Some d" and "out_value out = v"
  shows "\<exists>b. add_bet out c = Inr (c\<lparr>vBet := vBet c @ [b]\<rparr>) \<and> nValue b = v \<and> rewardmap b = reward_spec b"
  using assms by (rule accepted_bet)

theorem accepted_bet_rewarded_witness:
  "\<exists>b. add_bet \<lparr>out_value = 700001, scriptPubKey = [OP_LOTTO] @ push_data toy_payload @ []\<rparr> toy_lotto
     = Inr (toy_lotto\<lparr>vBet := vBet toy_lotto @ [b]\<rparr>) \<and> nValue b = 700001 \<and> rewardmap b = reward_spec b"
proof -
  have "length toy_payload < 2 ^ 32" by (simp add: toy_payload_def bet_payload_def)
  note d = GetBetData_push [OF this, of "[]"]
  show ?thesis
    by (rule accepted_bet_rewarded [OF toy_valid _ toy_draw]) (simp_all add: d [simplified])
qed

end
