(* ===== verification/Lotto_Correct.thy ===== *)
theory Lotto_Correct
  imports Lotto_Accept
begin

text \<open>
  Correctness of the lottery: what the counting functions, the parser, the validity checks, the draw
  and the pay-out guarantee, and the inputs on which the code departs from what it is meant to do.
\<close>

section \<open>Counting\<close>

text \<open>\<open>MselectN(m, n)\<close> is the binomial coefficient as long as the factorials fit 64 bits,
  and overflows a signed integer for every larger m with 0 < n < m.\<close>

theorem MselectN_binomial:
  "MselectN (int m) (int n) =
     (if m \<le> 20 \<or> n = 0 \<or> m \<le> n then Inr (int (m choose n)) else Inl IntOverflow)"
  using MselectN_small [of m n] MselectN_large [of m n]
  by (cases "n = 0 \<or> m \<le> n") (auto simp: MselectN_def)

section \<open>Wire format\<close>

text \<open>A bet that is written into an output script with \<open>OP_LOTTO\<close> and a data push is read back:
  the script yields the payload, and the payload yields the type, the address and the numbers.\<close>

theorem bet_roundtrip:
  assumes "t \<noteq> typenull" and "length addr = 20" and "length sel < 2 ^ 31"
  shows "\<exists>d. GetBetData ([OP_LOTTO] @ push_data (bet_payload t addr sel) @ rest) = Some d
    \<and> input_betdata b d = Inr (b\<lparr>btype := t, address := addr, vch := sel\<rparr>)"
proof -
  have "length (bet_payload t addr sel) < 2 ^ 32" using assms(2,3) by (simp add: bet_payload_def)
  then show ?thesis using assms(1,2) by (simp add: GetBetData_push input_betdata_payload del: append.simps)
qed

theorem bet_roundtrip_witness:
  "\<exists>d. GetBetData ([OP_LOTTO] @ push_data (bet_payload TYPE_15_6 (replicate 20 7) [1, 2, 3, 4, 5, 6]) @ []) = Some d
    \<and> input_betdata (new_CBet Class_CBet_15_6) d =
        Inr ((new_CBet Class_CBet_15_6)\<lparr>btype := TYPE_15_6, address := replicate 20 7, vch := [1, 2, 3, 4, 5, 6]\<rparr>)"
  by (rule bet_roundtrip) simp_all

text \<open>A payload of exactly 20 bytes passes the length test, which compares with the length of
  the address alone, and is then read one byte past its end: validation of such an output has no
  defined result.\<close>

theorem short_payload_out_of_bounds:
  assumes "length d = 20" and "hd d < 2"
  shows "CLotto_IsValid d v = Inl OutOfBounds"
proof -
  obtain h r where d: "d = h # r" using assms(1) by (cases d) auto
  with assms(2) have h: "unat h < 2" by (simp add: word_less_nat_alt)
  then have "GetType d = Inr TYPE_15_6 \<or> GetType d = Inr TYPE_MULILT" by (auto simp: d GetType_def)
  moreover have "GetAddr d = Inl OutOfBounds" using assms(1) by (simp add: GetAddr_def ADRESSLEN_def)
  ultimately show ?thesis by (auto simp: CLotto_IsValid_def input_betdata_def)
qed

theorem short_payload_out_of_bounds_witness:
  "CLotto_IsValid (replicate 20 0) 100 = Inl OutOfBounds"
  by (rule short_payload_out_of_bounds) simp_all

section \<open>Validity\<close>

lemma sort_eq_sorted: "v \<noteq> sort v \<longleftrightarrow> \<not> sorted (v :: byte list)"
  by (metis sorted_sort sorted_sort_id)

lemma distinct_adjacent_unique: "distinct v \<Longrightarrow> adjacent_unique v"
  by (simp add: adjacent_unique_def remdups_adj_distinct)

text \<open>C35: Validation of a 15-select-6 bet returns without a fault and accepts exactly the sorted
  selections of 6 to 15 different numbers from 1 to 15 whose stake exceeds the minimum per ticket.\<close>

theorem valid_156_iff:
  assumes "btype b = TYPE_15_6" and "cls b = Class_CBet_15_6"
  shows "CBet_15_6_IsValid b = Inr (length (vch b) \<in> {6..15} \<and> set (vch b) \<subseteq> {1..15}
    \<and> sorted (vch b) \<and> distinct (vch b) \<and> nMinBet * int (length (vch b) choose 6) < nValue b)"
proof (cases "length (vch b) \<in> {6..15} \<and> set (vch b) \<subseteq> {1..15} \<and> sorted (vch b)")
  case True
  let ?n = "length (vch b)"
  have tot: "getTotalBer b = Inr (int (?n choose 6))"
    using True assms MselectN_small [of ?n 6] by (simp add: getTotalBer_def getTotalBer_156_def)
  have rng: "\<not> list_ex (\<lambda>n. n > READ_MAX156_NO) (vch b)" "\<not> list_ex (\<lambda>n. n < 1) (vch b)"
    using True by (auto simp: list_ex_iff READ_MAX156_NO_def not_less)
  have "int64_range (nMinBet * int (?n choose 6))"
    using True binomial_le_pow20 [of ?n 6] by (intro int64_rangeI) (auto simp: nMinBet_def)
  then have "min_bet_ok b = Inr (nMinBet * int (?n choose 6) < nValue b)"
    by (auto simp: min_bet_ok_def tot i64_Inr)
  moreover have "adjacent_unique (vch b) \<longleftrightarrow> distinct (vch b)"
    using True adjacent_unique_distinct distinct_adjacent_unique by blast
  moreover have "vch b = sort (vch b)" using True by (simp add: sorted_sort_id)
  ultimately show ?thesis using True rng assms by (simp add: CBet_15_6_IsValid_def CBet_IsValid_def)
next
  case False
  have "list_ex (\<lambda>n. n > READ_MAX156_NO) (vch b) \<or> list_ex (\<lambda>n. n < 1) (vch b)
      \<longleftrightarrow> \<not> set (vch b) \<subseteq> {1..15}"
    by (force simp: list_ex_iff READ_MAX156_NO_def not_less not_le word_one_le)
  with False have "CBet_15_6_IsValid b = Inr False"
    using assms(1) unfolding CBet_15_6_IsValid_def sort_eq_sorted by auto
  with False show ?thesis by auto
qed

theorem valid_156_iff_witness:
  "CBet_15_6_IsValid (input_value ((new_CBet Class_CBet_15_6)\<lparr>btype := TYPE_15_6, vch := [1, 2, 3, 4, 5, 6]\<rparr>) 100001)
     = Inr True"
  by (subst valid_156_iff; simp add: new_CBet_def input_value_def nMinBet_def; simp add: eval_nat_numeral)

text \<open>The second game admits 21 different red numbers (its range check compares with
  \<open>READ_MAX_NO + 1\<close>); validating such a bet computes the factorial of 21 in 64 bits and has no defined
  result, whatever the stake.\<close>

theorem mulity_21_red_overflow:
  assumes "length addr = 20"
  shows "CLotto_IsValid (bet_payload TYPE_MULILT addr
    [1, 2, 3, 4, 5, 6, 7, 8, 9, 10, 11, 12, 13, 14, 15, 16, 17, 18, 19, 20, 21, 255, 1, 2]) v = Inl IntOverflow"
proof -
  let ?v = "[1, 2, 3, 4, 5, 6, 7, 8, 9, 10, 11, 12, 13, 14, 15, 16, 17, 18, 19, 20, 21, 255, 1, 2] :: byte list"
  let ?b = "(input_value (new_CBet Class_CBetMulity) v)\<lparr>btype := TYPE_MULILT, address := addr, vch := ?v\<rparr>"
  have bf: "before_flag ?v = take 21 ?v" "after_flag ?v = [1, 2]"
    by (simp_all add: before_flag_def after_flag_def gSplitFlag_def)
  have "MselectN (int 21) (int 5) = Inl IntOverflow" by (rule MselectN_large) simp_all
  then have "getTotalBer ?b = Inl IntOverflow"
    using bf by (simp add: getTotalBer_def getTotalBer_Mulity_def input_value_def new_CBet_def
        READ_MAX_NICE_NO_def Let_def)
  moreover have "adjacent_unique (take 21 ?v)" "adjacent_unique (gSplitFlag # [1, 2])"
    "sort (take 21 ?v) = take 21 ?v"
    by (simp_all add: adjacent_unique_def gSplitFlag_def)
  ultimately have "CBetMulity_IsValid ?b = Inl IntOverflow"
    using bf by (simp add: CBetMulity_IsValid_def min_bet_ok_def READ_MAX_NICE_NO_def BLUE_MAX_NICE_NO_def
        READ_MAX_NO_def BLUE_MAX_NO_def Let_def gSplitFlag_def)
  then show ?thesis
    using assms by (simp add: CLotto_IsValid_def GetType_payload input_betdata_payload)
qed

theorem mulity_21_red_overflow_witness:
  "CLotto_IsValid (bet_payload TYPE_MULILT (replicate 20 0)
    [1, 2, 3, 4, 5, 6, 7, 8, 9, 10, 11, 12, 13, 14, 15, 16, 17, 18, 19, 20, 21, 255, 1, 2]) 0 = Inl IntOverflow"
  by (rule mulity_21_red_overflow) simp

section \<open>The draw\<close>

text \<open>C38: A completed draw has six different sorted numbers from 1 to 15 for the first game, and for the
  second five from 1 to 20, the separator, and two from 1 to 10; the blue numbers also differ from
  the red ones, since the search for repetitions covers both groups.\<close>

theorem lucky_numbers_wellformed:
  assumes "CreateLuckyStarMap sha fuel c = Some (Inr (True, c'))"
  shows "\<exists>v red blue. mLuckyStar c' TYPE_15_6 = v \<and> mLuckyStar c' TYPE_MULILT = red @ gSplitFlag # blue
    \<and> length v = 6 \<and> sorted v \<and> distinct v \<and> set v \<subseteq> {1..15}
    \<and> length red = 5 \<and> sorted red \<and> distinct red \<and> set red \<subseteq> {1..20}
    \<and> length blue = 2 \<and> sorted blue \<and> distinct blue \<and> set blue \<subseteq> {1..10} \<and> set red \<inter> set blue = {}"
proof -
  from assms obtain v w where v: "draw_15_6 sha fuel (lhash c) = Some (Inr v)"
    and w: "draw_MULILT sha fuel (lhash c) = Some (Inr w)"
    and m: "mLuckyStar c' TYPE_15_6 = v" "mLuckyStar c' TYPE_MULILT = w"
    by (auto simp: CreateLuckyStarMap_def split: if_splits option.splits sum.splits)
  show ?thesis
    by (rule draw_MULILT_result [OF w]) (use draw_15_6_result [OF v] m in metis)
qed

theorem lucky_numbers_wellformed_witness:
  "\<exists>v red blue. mLuckyStar toy_lotto TYPE_15_6 = v \<and> mLuckyStar toy_lotto TYPE_MULILT = red @ gSplitFlag # blue
    \<and> length v = 6 \<and> sorted v \<and> distinct v \<and> set v \<subseteq> {1..15}
    \<and> length red = 5 \<and> sorted red \<and> distinct red \<and> set red \<subseteq> {1..20}
    \<and> length blue = 2 \<and> sorted blue \<and> distinct blue \<and> set blue \<subseteq> {1..10} \<and> set red \<inter> set blue = {}"
  by (rule lucky_numbers_wellformed [OF toy_draw])

lemma draw_loop_hash:
  "draw_loop sha lim n N acc h = Some (Inr (acc', h')) \<Longrightarrow> \<exists>i. h' = (Hash sha ^^ i) h"
proof (induction N arbitrary: acc h)
  case (Suc N)
  from Suc.prems obtain t where t: "bignum_byte h = Inr t" by (cases "bignum_byte h") auto
  show ?case
  proof (cases "length (draw_step lim t acc) < n")
    case True
    with Suc t obtain i where "h' = (Hash sha ^^ i) (Hash sha h)" by (fastforce simp: Let_def)
    then show ?thesis by (intro exI [of _ "Suc i"]) (simp add: funpow_swap1)
  next
    case False
    with Suc.prems t show ?thesis by (intro exI [of _ 1]) (simp add: Let_def)
  qed
qed simp

lemma card_minus_le: "m + length l \<le> card (A :: byte set) \<Longrightarrow> m \<le> card (A - set l)"
  using diff_card_le_card_Diff [of "set l" A, OF List.finite_set] card_length [of l] by linarith

text \<open>C39: The drawing loops end: when, from every point of the hash chain, N further hashes produce
  enough different numbers in range, the draw returns within N hashes per loop.\<close>

theorem draw_terminates:
  assumes "\<And>i. 6 \<le> card (drawn sha 15 ((Hash sha ^^ i) (lhash c)) N)"
    and "\<And>i. 8 \<le> card (drawn sha 10 ((Hash sha ^^ i) (lhash c)) N)"
    and "\<And>i. 5 \<le> card (drawn sha 20 ((Hash sha ^^ i) (lhash c)) N)"
  shows "\<exists>r. CreateLuckyStarMap sha N c = Some r"
proof -
  let ?h = "Hash sha (lhash c)"
  from assms(1) [of 1] have 15: "\<exists>r. draw_15_6 sha N (lhash c) = Some r"
    using draw_loop_terminates [of 6 "[]" sha 15 ?h N] by (auto simp: draw_15_6_def)
  from assms(3) [of 1] obtain r where r: "draw_loop sha 20 5 N [] ?h = Some r"
    using draw_loop_terminates [of 5 "[]" sha 20 ?h N] by auto
  have "\<exists>r. draw_MULILT sha N (lhash c) = Some r"
  proof (cases r)
    case (Inr p)
    then obtain red h1 where p: "draw_loop sha 20 5 N [] ?h = Some (Inr (red, h1))" using r by (cases p) auto
    obtain i where "h1 = (Hash sha ^^ i) ?h" using draw_loop_hash [OF p] by blast
    then have "8 \<le> card (drawn sha 10 h1 N)" using assms(2) [of "Suc i"] by (simp add: funpow_swap1)
    moreover have "length (sort red @ [gSplitFlag]) = 6" using draw_loop_result [OF p] by auto
    ultimately have "\<exists>r. draw_loop sha 10 8 N (sort red @ [gSplitFlag]) h1 = Some r"
      by (intro draw_loop_terminates card_minus_le) auto
    then show ?thesis by (auto simp: draw_MULILT_def p Let_def)
  qed (use r in \<open>simp add: draw_MULILT_def\<close>)
  then show ?thesis using 15 by (auto simp: CreateLuckyStarMap_def split: sum.splits)
qed

lemma toy_chain: "(Hash toy_sha ^^ i) [a, b] = [a + of_nat i, b + of_nat i]"
  by (induction i) (simp_all add: Hash_def toy_sha_def ac_simps)

lemma toy_drawn:
  assumes "7 < lim"
  shows "8 \<le> card (drawn toy_sha lim [a, b] 256)"
proof -
  have "x + 1 \<in> drawn toy_sha lim [a, b] 256" if "x < lim" for x
  proof -
    have "unat (x - a) < 256" using unsigned_less [of "x - a"] by simp
    moreover have "(Hash toy_sha ^^ unat (x - a)) [a, b] = [x, b + (x - a)]" by (simp add: toy_chain)
    ultimately show ?thesis using that unfolding drawn_def by force
  qed
  from this [of 0] this [of 1] this [of 2] this [of 3] this [of 4] this [of 5] this [of 6] this [of 7] assms
  have "{1, 2, 3, 4, 5, 6, 7, 8} \<subseteq> drawn toy_sha lim [a, b] 256"
    by (simp add: order.strict_trans [OF _ assms] order.strict_trans)
  from card_mono [OF _ this] show ?thesis by simp
qed

theorem draw_terminates_witness:
  "\<exists>r. CreateLuckyStarMap toy_sha 256 (new_CLotto [255, 1] 0) = Some r"
proof (rule draw_terminates)
  have l: "lhash (new_CLotto [255, 1] 0) = [255, 1]" by (simp add: new_CLotto_def)
  show "6 \<le> card (drawn toy_sha 15 ((Hash toy_sha ^^ i) (lhash (new_CLotto [255, 1] 0))) 256)"
    "8 \<le> card (drawn toy_sha 10 ((Hash toy_sha ^^ i) (lhash (new_CLotto [255, 1] 0))) 256)"
    "5 \<le> card (drawn toy_sha 20 ((Hash toy_sha ^^ i) (lhash (new_CLotto [255, 1] 0))) 256)" for i
    unfolding l toy_chain by (rule order_trans [OF _ toy_drawn]; simp)+
qed

section \<open>Pay-out\<close>

lemma share_nonneg: "0 \<le> (v :: int) \<Longrightarrow> 0 \<le> int w * (v div int t)"
  by (cases "t = 0") (simp_all add: pos_imp_zdiv_nonneg_iff)

lemma reward_spec_bounds:
  assumes "reward_spec b k = Some x" and "0 \<le> nValue b"
  shows "0 \<le> x" and "k \<noteq> TOP_null"
  using assms share_nonneg [OF assms(2)]
  by (auto simp: reward_spec_def reward_spec_156_def reward_spec_Mulity_def winning_Mulity_def Let_def
      level_156_def split: if_splits)

text \<open>The bets of a block after \<open>Init\<close>, when all of them were accepted.\<close>

definition accepted_output :: "CTxOut \<Rightarrow> bool" where
  "accepted_output out \<longleftrightarrow> 0 \<le> out_value out \<and> out_value out < 2 ^ 63 \<and>
     (case GetBetData (scriptPubKey out) of None \<Rightarrow> False | Some d \<Rightarrow> CLotto_IsValid d (out_value out) = Inr True)"

lemma vBet_update_eq [simp]: "c\<lparr>vBet := xs\<rparr> = c\<lparr>vBet := ys\<rparr> \<longleftrightarrow> xs = (ys :: CBet list)" for c :: CLotto
  by (cases c) simp

lemma add_accepted:
  assumes "accepted_output out" and "CreateLuckyStarMap sha fuel c0 = Some (Inr (True, c1))"
    and "mLuckyStar c = mLuckyStar c1"
  shows "\<exists>b. add_bet out c = Inr (c\<lparr>vBet := vBet c @ [b]\<rparr>) \<and> nValue b = out_value out \<and> rewardmap b = reward_spec b"
proof -
  from assms(1) obtain d where d: "GetBetData (scriptPubKey out) = Some d" "CLotto_IsValid d (out_value out) = Inr True"
    "out_value out < 2 ^ 63" by (auto simp: accepted_output_def split: option.splits)
  from accepted_bet [OF d(2,3) assms(2) d(1) refl] obtain b
    where b: "add_bet out c1 = Inr (c1\<lparr>vBet := vBet c1 @ [b]\<rparr>)" "nValue b = out_value out" "rewardmap b = reward_spec b"
    by blast
  from b(1) d(1) assms(3) have "add_bet out c = Inr (c\<lparr>vBet := vBet c @ [b]\<rparr>)"
    by (auto simp: add_bet_def bindE_eq_Inr)
  with b show ?thesis by blast
qed

lemma add_all_accepted:
  assumes "\<And>out. out \<in> set outs \<Longrightarrow> accepted_output out"
    and "CreateLuckyStarMap sha fuel c0 = Some (Inr (True, c1))" and "mLuckyStar c = mLuckyStar c1"
  shows "\<exists>bs. foldE add_bet outs c = Inr (c\<lparr>vBet := vBet c @ bs\<rparr>) \<and> map nValue bs = map out_value outs
    \<and> (\<forall>b\<in>set bs. rewardmap b = reward_spec b)"
  using assms(1,3)
proof (induction outs arbitrary: c)
  case (Cons out outs)
  from add_accepted [OF _ assms(2), of out c] Cons.prems obtain b
    where b: "add_bet out c = Inr (c\<lparr>vBet := vBet c @ [b]\<rparr>)" "nValue b = out_value out" "rewardmap b = reward_spec b"
    by auto
  from Cons.IH [of "c\<lparr>vBet := vBet c @ [b]\<rparr>"] Cons.prems obtain bs
    where "foldE add_bet outs (c\<lparr>vBet := vBet c @ [b]\<rparr>) = Inr (c\<lparr>vBet := vBet c @ b # bs\<rparr>)"
      "map nValue bs = map out_value outs" "\<forall>b\<in>set bs. rewardmap b = reward_spec b" by auto
  with b show ?case by (intro exI [of _ "b # bs"]) simp
qed (auto intro!: exI [of _ "[]"])

text \<open>No bet that a draw evaluates without a fault has a negative prize, whether it is valid or not.\<close>

definition prizes_ok :: "(RWD_TYPE \<rightharpoonup> int) \<Rightarrow> bool" where
  "prizes_ok m \<longleftrightarrow> (\<forall>k x. m k = Some x \<longrightarrow> 0 \<le> x \<and> k \<noteq> TOP_null)"

lemma prizes_ok_empty [simp]: "prizes_ok Map.empty"
  by (simp add: prizes_ok_def)

lemma prizes_ok_put: "prizes_ok m \<Longrightarrow> k \<noteq> TOP_null \<Longrightarrow> prizes_ok (put_if_pos k v m)"
  by (simp add: prizes_ok_def put_if_pos_def)

lemma prizes_ok_scale:
  assumes "scale_rewards v m = Inr m'" and "0 \<le> v" and "prizes_ok m"
  shows "prizes_ok m'"
  by (rule foldE_invariant [where P = prizes_ok, OF assms(1) [unfolded scale_rewards_def] assms(3)])
    (use assms(2) in \<open>auto simp: prizes_ok_def bindE_eq_Inr split: option.splits\<close>)

lemma MselectN_nonneg:
  assumes "MselectN m n = Inr q"
  shows "0 \<le> q"
proof -
  have "0 \<le> m" "0 \<le> n" using assms by (auto simp: MselectN_def bindE_eq_Inr)
  then show ?thesis using assms MselectN_binomial [of "nat m" "nat n"] by (auto split: if_splits)
qed

lemma per_bet_nonneg:
  assumes "bindE (getTotalBer b) (div64 (nValue b)) = Inr v" and "0 \<le> nValue b"
  shows "0 \<le> v"
proof -
  from assms(1) obtain t where t: "getTotalBer b = Inr t" "div64 (nValue b) t = Inr v" by (auto simp: bindE_eq_Inr)
  have "0 \<le> t" using t(1)
    by (auto simp: getTotalBer_def getTotalBer_156_def getTotalBer_Mulity_def Let_def bindE_eq_Inr dest!: MselectN_nonneg split: bet_class.splits)
  then show ?thesis using t(2) assms(2) pos_imp_zdiv_nonneg_iff [of t "nValue b"] by (auto simp: div64_def trunc_div_nonneg split: if_splits)
qed

lemma CreateRewardMap_nonneg:
  assumes "CreateRewardMap b = Inr b'" and "0 \<le> nValue b" and "rewardmap b = Map.empty"
  shows "prizes_ok (rewardmap b')"
proof (cases "cls b")
  case Class_CBet
  then show ?thesis using assms(1) by (simp add: CreateRewardMap_def)
next
  case Class_CBet_15_6
  then obtain v m k1 k2 k3 where x: "bindE (getTotalBer b) (div64 (nValue b)) = Inr v"
    "scale_rewards v (put_if_pos TOP_3 k3 (put_if_pos TOP_2 k2 (put_if_pos TOP_1 k1 Map.empty))) = Inr m" "rewardmap b' = m"
    using assms(1) by (auto simp: CreateRewardMap_def CBet_15_6_CreateRewardMap_def Let_def bindE_eq_Inr)
  show ?thesis unfolding x(3) by (rule prizes_ok_scale [OF x(2) per_bet_nonneg [OF x(1) assms(2)]]) (intro prizes_ok_put prizes_ok_empty RWD_TYPE.distinct)
next
  case Class_CBetMulity
  then have m: "CBetMulity_CreateRewardMap b = Inr b'" using assms(1) by (simp add: CreateRewardMap_def)
  have calc: "prizes_ok (rewardmap b')" if "CalcRewardBet (b\<lparr>rewardmap := Map.empty\<rparr>) i j = Inr b'" for i j
  proof -
    let ?b = "b\<lparr>rewardmap := Map.empty\<rparr>"
    define m1 :: "RWD_TYPE \<rightharpoonup> int" where "m1 = (if 5 \<le> i \<and> 2 \<le> j then (rewardmap ?b)(TOP_1 \<mapsto> 1) else rewardmap ?b)"
    have m1: "prizes_ok m1" by (simp add: m1_def prizes_ok_def)
    from that obtain v m k2 k3 k4 k5 where x: "bindE (getTotalBer ?b) (div64 (nValue ?b)) = Inr v"
      "scale_rewards v (put_if_pos TOP_5 k5 (put_if_pos TOP_4 k4 (put_if_pos TOP_3 k3 (put_if_pos TOP_2 k2 m1)))) = Inr m" "b' = ?b\<lparr>rewardmap := m\<rparr>"
      unfolding CalcRewardBet_def Let_def m1_def [symmetric] by (auto simp: bindE_eq_Inr)
    have "prizes_ok m" by (rule prizes_ok_scale [OF x(2) per_bet_nonneg [OF x(1)]]) (use assms(2) m1 in \<open>auto intro!: prizes_ok_put\<close>)
    then show ?thesis using x(3) by simp
  qed
  show ?thesis using m calc assms(3) by (auto simp: CBetMulity_CreateRewardMap_def Let_def split: if_splits)
qed

lemma add_bet_nonneg:
  assumes "add_bet out c = Inr c'" and "0 \<le> out_value out"
  shows "\<exists>b. vBet c' = vBet c @ [b] \<and> prizes_ok (rewardmap b)"
proof -
  from assms(1) obtain d b b1 b2 where d: "CreateCbet d = Inr b" "input_lucky (input_value b (out_value out)) (mLuckyStar c (btype b)) = Inr b1"
    "CreateRewardMap b1 = Inr b2" "c' = c\<lparr>vBet := vBet c @ [b2]\<rparr>" by (auto simp: add_bet_def bindE_eq_Inr split: option.splits)
  from d(1) obtain t where "GetType d = Inr t" "(case t of TYPE_15_6 \<Rightarrow> input_betdata (new_CBet Class_CBet_15_6) d
     | TYPE_MULILT \<Rightarrow> bindE (input_betdata (new_CBet Class_CBetMulity) d) (\<lambda>p. Inr (SplitSelectNum p)) | typenull \<Rightarrow> Inl AssertFailed) = Inr b"
    unfolding CreateCbet_def by (auto simp: bindE_eq_Inr simp del: BET_TYPE.case)
  then have "rewardmap b = Map.empty" by (cases t) (auto simp: bindE_eq_Inr input_betdata_def new_CBet_def SplitSelectNum_def)
  then have "rewardmap b1 = Map.empty" "nValue b1 = out_value out" using d(2) by (auto simp: input_lucky_def input_value_def bindE_eq_Inr)
  then show ?thesis using CreateRewardMap_nonneg [OF d(3)] assms(2) d(4) by simp
qed

lemma draw_bets_ok:
  assumes "CLotto_hash sha fuel h pool outs = Some (Inr c)" and "\<forall>out\<in>set outs. 0 \<le> out_value out"
  shows "bets_ok c"
proof -
  from assms(1) have "vBet c = [] \<or> (\<exists>c1. vBet c1 = [] \<and> foldE add_bet outs c1 = Inr c)"
    by (auto simp: CLotto_hash_def Init_def CreateLuckyStarMap_def new_CLotto_def split: option.splits sum.splits if_splits)
  moreover have "\<forall>b\<in>set (vBet c). prizes_ok (rewardmap b)" if "vBet c1 = []" "foldE add_bet outs c1 = Inr c" for c1
    using that(2)
  proof (rule foldE_invariant)
    fix out s s' assume a: "out \<in> set outs" "\<forall>b\<in>set (vBet s). prizes_ok (rewardmap b)" "add_bet out s = Inr s'"
    then show "\<forall>b\<in>set (vBet s'). prizes_ok (rewardmap b)" using add_bet_nonneg [OF a(3)] assms(2) by auto
  qed (use that(1) in simp)
  ultimately show ?thesis by (auto simp: bets_ok_def prizes_ok_def)
qed

lemma pay_bets_sum:
  assumes "foldE (pay_bet c) vs (os, l) = Inr (os', l')"
  shows "l' - l = sum_list (map out_value os') - sum_list (map out_value os)"
proof -
  have "case (os', l') of (o1, l1) \<Rightarrow> l1 - l = sum_list (map out_value o1) - sum_list (map out_value os)"
    using assms by (rule foldE_invariant) (auto simp: pay_bet_def bindE_eq_Inr split: if_splits)
  then show ?thesis by simp
qed

lemma CLotto_hash_pool: "CLotto_hash sha fuel h pool outs = Some (Inr c) \<Longrightarrow> rewardPool c = pool"
proof -
  have "foldE add_bet os s = Inr t \<Longrightarrow> rewardPool t = rewardPool s" for os s t
    by (rule foldE_invariant) (auto simp: add_bet_def bindE_eq_Inr split: option.splits)
  then show "CLotto_hash sha fuel h pool outs = Some (Inr c) \<Longrightarrow> rewardPool c = pool"
    by (auto simp: CLotto_hash_def Init_def CreateLuckyStarMap_def new_CLotto_def
        split: option.splits sum.splits if_splits)
qed

text \<open>C13: A draw never pays more than 80% of the pool, and the amount it reports is the sum of the outputs it creates. The bets need not
  be valid: it is enough that no stake is negative. The pool has to be an amount of money, at most \<open>2 ^ 53\<close>, which is the range in
  which the \<open>double\<close> arithmetic of the statistics decides exactly what fits the pool.\<close>

theorem draw_never_overpays:
  assumes "\<forall>out\<in>set outs. 0 \<le> out_value out" and "0 \<le> pool" and "pool \<le> 2 ^ 53"
    and "CLotto_hash sha fuel h pool outs = Some (Inr c)"
    and "GetReWardOutput c [] 0 = Inr (c', pays, llRemains)"
  shows "llRemains \<le> pool * 8 div 10 \<and> llRemains = sum_list (map out_value pays)"
proof -
  note pool = CLotto_hash_pool [OF assms(4)]
  have "llRemains - 0 \<le> rewardPool c * 8 div 10"
    by (rule solvency [OF assms(5) _ draw_bets_ok [OF assms(4,1)]]) (use assms(2,3) pool in simp_all)
  moreover have "llRemains = sum_list (map out_value pays)"
    using assms(5) by (auto simp: GetReWardOutput_def bindE_eq_Inr dest: pay_bets_sum)
  ultimately show ?thesis using pool by simp
qed

definition toy_output :: CTxOut where
  "toy_output = \<lparr>out_value = 700001, scriptPubKey = [OP_LOTTO] @ push_data toy_payload @ []\<rparr>"

definition toy_block :: CLotto where
  "toy_block = (case CLotto_hash toy_sha 9 [255, 1] 1000000000 [toy_output] of Some (Inr c) \<Rightarrow> c | _ \<Rightarrow> toy_lotto)"

definition toy_reward :: "(CLotto \<times> CTxOut list \<times> int) result" where
  "toy_reward = GetReWardOutput toy_block [] 0"

lemma toy_block_init: "\<exists>c. CLotto_hash toy_sha 9 [255, 1] 1000000000 [toy_output] = Some (Inr c)"
proof -
  have "case CLotto_hash toy_sha 9 [255, 1] 1000000000 [toy_output] of Some (Inr c) \<Rightarrow> True | _ \<Rightarrow> False"
    by code_simp
  then show ?thesis by (auto split: option.splits sum.splits)
qed

lemma toy_accepted: "accepted_output toy_output"
  using GetBetData_push [of toy_payload "[]"] toy_valid
  by (simp add: accepted_output_def toy_output_def toy_payload_def bet_payload_def)

lemma toy_pays: "case toy_reward of Inr (c', pays, l) \<Rightarrow> map out_value pays = [310200000] \<and> l = 310200000 | _ \<Rightarrow> False"
  by code_simp

theorem draw_never_overpays_witness:
  "\<exists>c' pays. GetReWardOutput toy_block [] 0 = Inr (c', pays, 310200000)
    \<and> 310200000 \<le> (1000000000 * 8 div 10 :: int) \<and> 310200000 = sum_list (map out_value pays)"
proof -
  have b: "CLotto_hash toy_sha 9 [255, 1] 1000000000 [toy_output] = Some (Inr toy_block)"
    using toy_block_init by (auto simp: toy_block_def)
  from toy_pays obtain c' pays where g: "GetReWardOutput toy_block [] 0 = Inr (c', pays, 310200000)"
    by (auto simp: toy_reward_def split: sum.splits)
  have "\<forall>out\<in>set [toy_output]. 0 \<le> out_value out" by (simp add: toy_output_def)
  from draw_never_overpays [OF this _ _ b g] g show ?thesis by auto
qed

text \<open>C37: A prize level whose winners are entitled to more than 80% of the pool pays nothing at all: the share of such a level is computed by integer
  division of the maximal reward by the stakes and then by the larger total of the prizes, which is always 0, so no winner of the level
  adds to its amount. The stakes are not negative and the pool is an amount of money, at most \<open>2 ^ 53\<close>.\<close>

theorem oversubscribed_level_pays_nothing:
  assumes "\<forall>out\<in>set outs. 0 \<le> out_value out" and "0 \<le> pool" and "pool \<le> 2 ^ 53"
    and "CLotto_hash sha fuel h pool outs = Some (Inr c)"
    and "GetReWardOutput c [] 0 = Inr (c', pays, llRemains)"
    and "pool * 8 div 10 < level_sum (prizes (vBet c)) k"
    and "v \<in> set (vBet c)" and "rewardmap v k = Some x" and "int64_range acc"
  shows "pay_item c' v (k, x) acc = Inr acc"
proof -
  let ?L = "prizes (vBet c)"
  have bets: "bets_ok c" by (rule draw_bets_ok [OF assms(4,1)])
  have pool: "rewardPool c = pool" by (rule CLotto_hash_pool [OF assms(4)])
  obtain paid where le: "(\<Sum>k\<in>paid. level_sum ?L k) \<le> rewardPool c * 8 div 10"
    and sch: "\<And>v k x. (v, k, x) \<in> set ?L \<Longrightarrow>
      if k \<in> paid then mRewardScheme c' (btype v) k = None else mRewardScheme c' (btype v) k = Some 0"
    using reward_levels [OF assms(5) _ bets] assms(2,3) pool by auto
  have "0 \<le> level_sum ?L k" for k using bets by (intro level_sum_nonneg) (auto simp: set_prizes bets_ok_def)
  then have "k \<in> paid \<Longrightarrow> level_sum ?L k \<le> (\<Sum>k\<in>paid. level_sum ?L k)"
    by (intro member_le_sum) auto
  with le assms(6) pool have "k \<notin> paid" by auto
  with sch [of v k x] assms(7,8) have "mRewardScheme c' (btype v) k = Some 0" by (auto simp: set_prizes)
  then show ?thesis using assms(9) by (simp add: pay_item_def i64_Inr int64_range_def)
qed

definition toy_poor :: CLotto where
  "toy_poor = (case CLotto_hash toy_sha 9 [255, 1] 1000000 [toy_output] of Some (Inr c) \<Rightarrow> c | _ \<Rightarrow> toy_lotto)"

definition toy_poor_reward :: "(CLotto \<times> CTxOut list \<times> int) result" where
  "toy_poor_reward = GetReWardOutput toy_poor [] 0"

lemma toy_poor_init: "\<exists>c. CLotto_hash toy_sha 9 [255, 1] 1000000 [toy_output] = Some (Inr c)"
proof -
  have "case CLotto_hash toy_sha 9 [255, 1] 1000000 [toy_output] of Some (Inr c) \<Rightarrow> True | _ \<Rightarrow> False"
    by code_simp
  then show ?thesis by (auto split: option.splits sum.splits)
qed

lemma toy_poor_pays: "case toy_poor_reward of Inr (c', pays, l) \<Rightarrow> map out_value pays = [0] \<and> l = 0 | _ \<Rightarrow> False"
  by code_simp

lemma toy_poor_winner: "rewardmap (hd (vBet toy_poor)) TOP_1 = Some 100000"
  by code_simp

lemma toy_poor_bets: "length (vBet toy_poor) = 1"
  by code_simp

theorem oversubscribed_level_pays_nothing_witness:
  "\<exists>c' pays. GetReWardOutput toy_poor [] 0 = Inr (c', pays, 0)
    \<and> pay_item c' (hd (vBet toy_poor)) (TOP_1, 100000) 0 = Inr 0"
proof -
  have b: "CLotto_hash toy_sha 9 [255, 1] 1000000 [toy_output] = Some (Inr toy_poor)"
    using toy_poor_init by (auto simp: toy_poor_def)
  from toy_poor_pays obtain c' pays where g: "GetReWardOutput toy_poor [] 0 = Inr (c', pays, 0)"
    by (auto simp: toy_poor_reward_def split: sum.splits)
  have w: "hd (vBet toy_poor) \<in> set (vBet toy_poor)" using toy_poor_bets by (cases "vBet toy_poor") auto
  have "1000000 * 8 div 10 < level_sum (prizes (vBet toy_poor)) TOP_1" by code_simp
  moreover have "\<forall>out\<in>set [toy_output]. 0 \<le> out_value out" by (simp add: toy_output_def)
  ultimately show ?thesis using oversubscribed_level_pays_nothing [OF _ _ _ b g _ w toy_poor_winner, of 0] g by (auto simp: int64_range_def)
qed

end
