(* ===== verification/Double_Round.thy ===== *)
theory Double_Round
  imports Lotto_Reward
begin

text \<open>Rounding of integers to the 53 bits of a \<open>double\<close>: error bound and monotonicity at multiples of powers of two.\<close>

text \<open>Rounding to 53 bits is exact on multiples of the last place and off by at most half of it.\<close>

lemma dround_bounds:
  assumes "0 < p" and "p < 2 ^ 109"
  shows "2 ^ 53 * (dround p - p) \<le> p" and "k * 2 ^ 56 \<le> p \<Longrightarrow> k * 2 ^ 56 \<le> dround p"
proof -
  have "2 ^ 53 * (dround p - p) \<le> p \<and> (\<forall>k. k * 2 ^ 56 \<le> p \<longrightarrow> k * 2 ^ 56 \<le> dround p)"
  proof (cases "p \<le> 2 ^ 53")
    case True
    with assms show ?thesis by simp
  next
    case False
    define a where "a = nat p"
    define e where "e = bit_length a - 53"
    have p: "p = int a" using assms by (simp add: a_def)
    have a: "0 < a" "2 ^ 53 < a" "a < 2 ^ 109" using assms False by (simp_all add: a_def)
    note bl = bit_length_bounds [OF a(1)]
    have "bit_length a \<le> 109"
    proof (rule ccontr)
      assume "\<not> bit_length a \<le> 109"
      then have "(2 :: nat) ^ 109 \<le> 2 ^ (bit_length a - 1)" by (intro power_increasing) auto
      with bl a(3) show False by linarith
    qed
    moreover have "53 < bit_length a"
    proof (rule ccontr)
      assume "\<not> 53 < bit_length a"
      then have "(2 :: nat) ^ bit_length a \<le> 2 ^ 53" by (intro power_increasing) auto
      with bl a(2) show False by linarith
    qed
    ultimately have e: "1 \<le> e" "e \<le> 56" and "bit_length a - 1 = 52 + e" by (auto simp: e_def)
    with bl have ae: "2 ^ 52 * 2 ^ e \<le> a" by (simp add: power_add)
    define q where "q = a div 2 ^ e"
    define r where "r = a mod 2 ^ e"
    define up where "up \<longleftrightarrow> r > 2 ^ (e - 1) \<or> (r = 2 ^ (e - 1) \<and> odd q)"
    have aqr: "a = q * 2 ^ e + r" and r: "r < 2 ^ e" unfolding q_def r_def by (simp_all only: div_mult_mod_eq) simp
    have sg: "sgn p = 1" "(\<bar>p\<bar> \<le> 2 ^ 53) = False" "nat \<bar>p\<bar> = a" using assms False by (simp_all add: a_def)
    have d: "dround (int a) = int ((if up then q + 1 else q) * 2 ^ e)"
      unfolding p [symmetric] dround_def Let_def sg(3) e_def [symmetric] q_def [symmetric] r_def [symmetric] up_def [symmetric]
      by (simp only: sg if_False mult_1)
    have half: "2 * 2 ^ (e - 1) = (2 :: nat) ^ e" using e(1) by (metis Suc_diff_1 Suc_le_eq One_nat_def power_Suc)
    have "2 * ((if up then q + 1 else q) * 2 ^ e) \<le> 2 * a + 2 ^ e"
      using aqr half by (auto simp: up_def)
    then have "2 ^ 53 * ((if up then q + 1 else q) * 2 ^ e) \<le> 2 ^ 53 * a + 2 ^ 52 * 2 ^ e" by simp
    with ae have "2 ^ 53 * ((if up then q + 1 else q) * 2 ^ e) \<le> 2 ^ 53 * a + a" by linarith
    then have "int (2 ^ 53 * ((if up then q + 1 else q) * 2 ^ e)) \<le> int (2 ^ 53 * a + a)" by (simp only: zle_int)
    then have "2 ^ 53 * dround p \<le> 2 ^ 53 * p + p" by (simp add: d p algebra_simps)
    then have 1: "2 ^ 53 * (dround p - p) \<le> p" by (simp add: right_diff_distrib)
    have 2: "k * 2 ^ 56 \<le> dround p" if "k * 2 ^ 56 \<le> p" for k
    proof -
      have "(2 :: int) ^ 56 = 2 ^ (56 - e) * 2 ^ e" using e by (simp flip: power_add)
      then have k: "k * 2 ^ 56 = (k * 2 ^ (56 - e)) * 2 ^ e" by (simp only: mult.assoc)
      then have "(k * 2 ^ (56 - e)) * 2 ^ e div 2 ^ e \<le> p div 2 ^ e" using that unfolding k by (intro zdiv_mono1) simp_all
      then have "k * 2 ^ (56 - e) \<le> int q" by (simp add: p q_def zdiv_int)
      then have "k * 2 ^ 56 \<le> int q * 2 ^ e" unfolding k by (rule mult_right_mono) simp
      also have "\<dots> \<le> dround p" by (simp add: d p algebra_simps)
      finally show ?thesis .
    qed
    from 1 2 show ?thesis by blast
  qed
  then show "2 ^ 53 * (dround p - p) \<le> p" and "k * 2 ^ 56 \<le> p \<Longrightarrow> k * 2 ^ 56 \<le> dround p" by blast+
qed

text \<open>Multiplying an amount of money by the \<open>double\<close> nearest to 0.05 and truncating divides it by 20.\<close>

lemma dround_twentieth:
  assumes "0 \<le> x" and "x \<le> 52000000 * 100000000"
  shows "dround (dround x * 3602879701896397) div 2 ^ 56 = x div 20"
proof (cases "x = 0")
  case False
  define p where "p = x * 3602879701896397"
  define k where "k = x div 20"
  have x: "20 * k \<le> x" "x \<le> 20 * k + 19" unfolding k_def by presburger+
  have p: "0 < p" "p < 2 ^ 109" using assms False by (simp_all add: p_def)
  have "k * 2 ^ 56 \<le> p" using x assms by (simp add: p_def)
  then have lo: "k * 2 ^ 56 \<le> dround p" by (rule dround_bounds(2) [OF p])
  have "2 ^ 53 * (dround p - p) \<le> p" by (rule dround_bounds(1) [OF p])
  then have "dround p < (k + 1) * 2 ^ 56" using x assms unfolding p_def by simp
  with lo have "dround p div 2 ^ 56 = k" by (intro int_div_pos_eq [where r = "dround p - k * 2 ^ 56"]) simp_all
  moreover have "dround x = x" using assms by simp
  ultimately show ?thesis by (simp add: p_def k_def)
qed simp

end
