(* ===== verification/Chain_Tx.thy ===== *)
theory Chain_Tx
  imports Chain_Types Lotto_Correct Double_Round
begin

text \<open>
  Lottery outputs of transactions: their classification (\<open>CTxOut::GetLottoTxOutType\<close>,
  \<open>CTransaction::IsTransactionValid\<close> of \<open>core.cpp\<close>), the stakes of a transaction and of a block
  (\<open>GetLottoValueFromTx\<close>, \<open>GetLottoValueFromBlock\<close> of \<open>main.cpp\<close>), the fee on bets
  (\<open>GetLottoFee\<close>) and the bets a draw collects from a block (the loop of \<open>DrawLottery\<close> in \<open>miner.cpp\<close>).

  The key id of the pool and the height of the active chain are arguments.
\<close>

section \<open>Classifying an output\<close>

datatype TransactionState = NORMAL_STATE | VALID_LOTTO_STATE | INVALID_LOTTO_STATE

text \<open>The output parameter \<open>TxType\<close> is passed in and returned; a path that does not assign it leaves it as it was.\<close>

function lotto_type_loop :: "int \<Rightarrow> int \<Rightarrow> nat \<Rightarrow> byte list \<Rightarrow> TransactionState \<Rightarrow> (bool \<times> TransactionState) result" where
  "lotto_type_loop tip val nOpCount pc TxType =
     (if pc = [] then Inr (True, TxType)
      else case GetOp pc of
        None \<Rightarrow> Inr (False, TxType)
      | Some (opc, _, pc') \<Rightarrow>
          let nOpCount' = (if opc > OP_16 then nOpCount + 1 else nOpCount) in
          if opc > OP_16 \<and> nOpCount' > 201 then Inr (False, TxType)
          else if opc = OP_LOTTO then
            (case GetOp pc' of
               None \<Rightarrow> Inr (False, TxType)
             | Some (_, vchPushValue, _) \<Rightarrow>
                 bindE (CLotto_IsValid vchPushValue val) (\<lambda>valid.
                 if \<not> valid \<and> tip > 4380 then Inr (True, INVALID_LOTTO_STATE) else Inr (True, VALID_LOTTO_STATE)))
          else lotto_type_loop tip val nOpCount' pc' TxType)"
  by pat_completeness auto
termination
  by (relation "measure (\<lambda>(tip, val, n, pc, t). length pc)") (auto dest: GetOp_shorter)

declare lotto_type_loop.simps [simp del]

definition GetLottoTxOutType :: "byte list \<Rightarrow> int \<Rightarrow> CTxOut \<Rightarrow> TransactionState \<Rightarrow> (bool \<times> TransactionState) result" where
  "GetLottoTxOutType pool tip txout TxType =
     (if \<not> IsSendPoolAdress pool (scriptPubKey txout) then Inr (True, NORMAL_STATE)
      else lotto_type_loop tip (out_value txout) 0 (scriptPubKey txout) TxType)"

section \<open>Transactions and blocks\<close>

fun tx_valid_loop :: "byte list \<Rightarrow> int \<Rightarrow> CTxOut list \<Rightarrow> TransactionState \<Rightarrow> bool result" where
  "tx_valid_loop pool tip [] iTxType = Inr True"
| "tx_valid_loop pool tip (v # vs) iTxType =
     bindE (GetLottoTxOutType pool tip v iTxType) (\<lambda>(ok, iTxType).
     if \<not> ok then Inr False
     else if iTxType = INVALID_LOTTO_STATE then Inr False
     else tx_valid_loop pool tip vs iTxType)"

definition IsTransactionValid :: "byte list \<Rightarrow> int \<Rightarrow> CTransaction \<Rightarrow> bool result" where
  "IsTransactionValid pool tip tx = tx_valid_loop pool tip (vout tx) NORMAL_STATE"

text \<open>The loops over the outputs keep the type of the previous output.\<close>

definition lotto_value_step :: "byte list \<Rightarrow> int \<Rightarrow> CTxOut \<Rightarrow> int \<times> TransactionState \<Rightarrow> (int \<times> TransactionState) result" where
  "lotto_value_step pool tip vOut s = (case s of (val, iTxType) \<Rightarrow>
     bindE (GetLottoTxOutType pool tip vOut iTxType) (\<lambda>(ok, iTxType).
     if ok \<and> iTxType = VALID_LOTTO_STATE then bindE (i64 (val + out_value vOut)) (\<lambda>val. Inr (val, iTxType))
     else Inr (val, iTxType)))"

definition GetLottoValueFromTx :: "byte list \<Rightarrow> int \<Rightarrow> CTransaction \<Rightarrow> int result" where
  "GetLottoValueFromTx pool tip tx =
     (if IsCoinBase tx then Inr 0
      else bindE (foldE (lotto_value_step pool tip) (vout tx) (0, NORMAL_STATE)) (\<lambda>(val, _). Inr val))"

definition GetLottoValueFromBlock :: "byte list \<Rightarrow> int \<Rightarrow> CTransaction list \<Rightarrow> int result" where
  "GetLottoValueFromBlock pool tip txs =
     foldE (\<lambda>tx val. bindE (GetLottoValueFromTx pool tip tx) (\<lambda>v. i64 (val + v))) txs 0"

text \<open>The fee: the product with the constant 0.05, a \<open>double\<close> whose value is \<open>3602879701896397 / 2 ^ 56\<close>, rounded to 53 bits
  and truncated.\<close>

definition mul_005 :: "int \<Rightarrow> int" where
  "mul_005 x = dround (dround x * 3602879701896397) div 2 ^ 56"

definition GetLottoFee :: "byte list \<Rightarrow> int \<Rightarrow> CTransaction \<Rightarrow> int result" where
  "GetLottoFee pool tip tx =
     bindE (foldE (lotto_value_step pool tip) (vout tx) (0, NORMAL_STATE)) (\<lambda>(val, _). Inr (mul_005 val))"

text \<open>The bets of a block, as \<open>DrawLottery\<close> collects them; the first transaction is skipped.\<close>

definition collect_step :: "byte list \<Rightarrow> int \<Rightarrow> CTxOut \<Rightarrow> CTxOut list \<times> TransactionState \<Rightarrow> (CTxOut list \<times> TransactionState) result" where
  "collect_step pool tip txout s = (case s of (bets, iTxType) \<Rightarrow>
     bindE (GetLottoTxOutType pool tip txout iTxType) (\<lambda>(ok, iTxType).
     Inr (if ok \<and> iTxType = VALID_LOTTO_STATE then bets @ [txout] else bets, iTxType)))"

definition collect_tx :: "byte list \<Rightarrow> int \<Rightarrow> CTransaction \<Rightarrow> CTxOut list \<Rightarrow> CTxOut list result" where
  "collect_tx pool tip tx bets =
     (if IsCoinBase tx then Inr bets
      else bindE (foldE (collect_step pool tip) (vout tx) (bets, NORMAL_STATE)) (\<lambda>(bets, _). Inr bets))"

definition collect_bets :: "byte list \<Rightarrow> int \<Rightarrow> CTransaction list \<Rightarrow> CTxOut list result" where
  "collect_bets pool tip txs = foldE (collect_tx pool tip) (tl txs) []"

section \<open>What a classification means\<close>

text \<open>The loop of the classification and that of \<open>GetBetData\<close> walk over the script in the same way.\<close>

definition bet_type :: "int \<Rightarrow> int \<Rightarrow> byte list \<Rightarrow> (bool \<times> TransactionState) result" where
  "bet_type tip val d = bindE (CLotto_IsValid d val) (\<lambda>valid.
     if \<not> valid \<and> tip > 4380 then Inr (True, INVALID_LOTTO_STATE) else Inr (True, VALID_LOTTO_STATE))"

lemma lotto_type_loop_bet_data:
  "\<exists>b. lotto_type_loop tip val n pc t = (case bet_data_loop n pc of None \<Rightarrow> Inr (b, t) | Some d \<Rightarrow> bet_type tip val d)"
proof (induction pc arbitrary: n rule: length_induct)
  case (1 pc)
  note unfold = lotto_type_loop.simps [of tip val n pc t] bet_data_loop.simps [of n pc]
  show ?case
  proof (cases "pc = [] \<or> GetOp pc = None")
    case True
    then show ?thesis by (auto simp: unfold)
  next
    case False
    then obtain opc d pc' where op: "GetOp pc = Some (opc, d, pc')" "pc \<noteq> []" by auto
    define n' where "n' = (if opc > OP_16 then n + 1 else n)"
    have eqs: "lotto_type_loop tip val n pc t = (if opc > OP_16 \<and> n' > 201 then Inr (False, t)
        else if opc = OP_LOTTO then (case GetOp pc' of None \<Rightarrow> Inr (False, t) | Some (_, d, _) \<Rightarrow> bet_type tip val d)
        else lotto_type_loop tip val n' pc' t)"
      "bet_data_loop n pc = (if opc > OP_16 \<and> n' > 201 then None
        else if opc = OP_LOTTO then (case GetOp pc' of None \<Rightarrow> None | Some (_, d, _) \<Rightarrow> Some d) else bet_data_loop n' pc')"
      using op unfolding unfold n'_def bet_type_def by (simp_all add: Let_def)
    from "1.IH" GetOp_shorter [OF op(1)] obtain b where
      "lotto_type_loop tip val n' pc' t = (case bet_data_loop n' pc' of None \<Rightarrow> Inr (b, t) | Some d \<Rightarrow> bet_type tip val d)"
      by blast
    then show ?thesis unfolding eqs by (auto split: option.splits)
  qed
qed

lemma GetLottoTxOutType_bet:
  assumes "GetBetData (scriptPubKey v) = Some d" and "IsSendPoolAdress pool (scriptPubKey v)"
  shows "GetLottoTxOutType pool tip v t = bet_type tip (out_value v) d"
  using assms lotto_type_loop_bet_data [of tip "out_value v" 0 "scriptPubKey v" t]
  by (auto simp: GetLottoTxOutType_def GetBetData_def)

lemma GetLottoTxOutType_no_bet:
  assumes "GetBetData (scriptPubKey v) = None" and "IsSendPoolAdress pool (scriptPubKey v)"
  shows "\<exists>b. GetLottoTxOutType pool tip v t = Inr (b, t)"
  using assms lotto_type_loop_bet_data [of tip "out_value v" 0 "scriptPubKey v" t]
  by (auto simp: GetLottoTxOutType_def GetBetData_def)

text \<open>The height of the tip matters only in being above 4380 or not.\<close>

lemma lotto_type_loop_tip:
  assumes "t1 > 4380 \<longleftrightarrow> t2 > 4380"
  shows "lotto_type_loop t1 val n pc t = lotto_type_loop t2 val n pc t"
proof (induction pc arbitrary: n rule: length_induct)
  case (1 pc)
  have "lotto_type_loop t1 val n' pc' t = lotto_type_loop t2 val n' pc' t" if "GetOp pc = Some (opc, d, pc')" for n' opc d pc'
    using 1 GetOp_shorter [OF that] by blast
  then show ?case using assms
    by (auto simp: lotto_type_loop.simps [of _ val n pc t] Let_def split: option.splits)
qed

lemma GetLottoTxOutType_tip:
  "(t1 > 4380 \<longleftrightarrow> t2 > 4380) \<Longrightarrow> GetLottoTxOutType pool t1 = GetLottoTxOutType pool t2"
  by (intro ext) (auto simp: GetLottoTxOutType_def intro: lotto_type_loop_tip)

lemma collect_bets_tip:
  assumes "t1 > 4380 \<longleftrightarrow> t2 > 4380"
  shows "collect_bets pool t1 txs = collect_bets pool t2 txs"
proof -
  have step: "collect_step pool t1 = collect_step pool t2"
    by (intro ext) (simp add: collect_step_def GetLottoTxOutType_tip [OF assms])
  have "collect_tx pool t1 = collect_tx pool t2" by (intro ext) (simp add: collect_tx_def step)
  then show ?thesis by (simp add: collect_bets_def)
qed

section \<open>Counted stakes and collected bets\<close>

text \<open>Both loops classify the outputs in the same way, so they agree on what is a bet.\<close>

lemma collect_value_loop:
  assumes "foldE (lotto_value_step pool tip) vs (x, t) = Inr (x', t')"
  shows "\<exists>bets. \<forall>acc. foldE (collect_step pool tip) vs (acc, t) = Inr (acc @ bets, t') \<and> x' = x + sum_list (map out_value bets)"
  using assms
proof (induction vs arbitrary: x t)
  case (Cons v vs)
  from Cons.prems obtain x1 t1 where s: "lotto_value_step pool tip v (x, t) = Inr (x1, t1)"
    and rest: "foldE (lotto_value_step pool tip) vs (x1, t1) = Inr (x', t')" by (auto simp: bindE_eq_Inr)
  from s obtain ok where g: "GetLottoTxOutType pool tip v t = Inr (ok, t1)"
    and x1: "x1 = (if ok \<and> t1 = VALID_LOTTO_STATE then x + out_value v else x)"
    by (auto simp: lotto_value_step_def bindE_eq_Inr split: if_splits)
  from Cons.IH [OF rest] obtain bets where b: "\<forall>acc. foldE (collect_step pool tip) vs (acc, t1) = Inr (acc @ bets, t')
    \<and> x' = x1 + sum_list (map out_value bets)" by blast
  have "collect_step pool tip v (acc, t) = Inr (acc @ (if ok \<and> t1 = VALID_LOTTO_STATE then [v] else []), t1)" for acc
    using g by (simp add: collect_step_def)
  with b x1 show ?case
    by (intro exI [of _ "(if ok \<and> t1 = VALID_LOTTO_STATE then [v] else []) @ bets"]) auto
qed simp

lemma collect_value_tx:
  assumes "GetLottoValueFromTx pool tip tx = Inr x"
  shows "\<exists>bets. \<forall>acc. collect_tx pool tip tx acc = Inr (acc @ bets) \<and> x = sum_list (map out_value bets)"
proof (cases "IsCoinBase tx")
  case True
  with assms show ?thesis by (auto simp: GetLottoValueFromTx_def collect_tx_def)
next
  case False
  with assms obtain t' where "foldE (lotto_value_step pool tip) (vout tx) (0, NORMAL_STATE) = Inr (x, t')"
    by (auto simp: GetLottoValueFromTx_def bindE_eq_Inr)
  from collect_value_loop [OF this] False show ?thesis by (auto simp: collect_tx_def)
qed

lemma collect_value_txs:
  assumes "foldE (\<lambda>tx val. bindE (GetLottoValueFromTx pool tip tx) (\<lambda>v. i64 (val + v))) txs y = Inr x"
  shows "\<exists>bets. \<forall>acc. foldE (collect_tx pool tip) txs acc = Inr (acc @ bets) \<and> x = y + sum_list (map out_value bets)"
  using assms
proof (induction txs arbitrary: y)
  case (Cons tx txs)
  from Cons.prems obtain v where v: "GetLottoValueFromTx pool tip tx = Inr v"
    and r: "foldE (\<lambda>tx val. bindE (GetLottoValueFromTx pool tip tx) (\<lambda>v. i64 (val + v))) txs (y + v) = Inr x"
    by (auto simp: bindE_eq_Inr)
  from collect_value_tx [OF v] obtain b1 where b1: "\<forall>acc. collect_tx pool tip tx acc = Inr (acc @ b1)"
    "v = sum_list (map out_value b1)" by blast
  from Cons.IH [OF r] obtain b2 where b2: "\<forall>acc. foldE (collect_tx pool tip) txs acc = Inr (acc @ b2)"
    "x = y + v + sum_list (map out_value b2)" by blast
  show ?case by (rule exI [of _ "b1 @ b2"]) (use b1 b2 in auto)
qed simp

text \<open>C33: The stakes that a block adds to the pool when its stakes are counted are exactly the stakes of the outputs that the later
  draw over this block evaluates, provided that the tip of the active chain is above height 4380 at both times or at
  neither: the classification of an output depends on the tip at the time of the call.\<close>

theorem stakes_are_collected:
  assumes "IsCoinBase cb" and "GetLottoValueFromBlock pool tip (cb # txs) = Inr stakes"
    and "tip > 4380 \<longleftrightarrow> draw_tip > 4380"
  shows "\<exists>bets. collect_bets pool draw_tip (cb # txs) = Inr bets \<and> stakes = sum_list (map out_value bets)"
proof -
  have "i64 0 = Inr 0" by (simp add: int64_range_def)
  with assms(1,2) have "foldE (\<lambda>tx val. bindE (GetLottoValueFromTx pool tip tx) (\<lambda>v. i64 (val + v))) txs 0 = Inr stakes"
    by (simp add: GetLottoValueFromBlock_def GetLottoValueFromTx_def)
  from collect_value_txs [OF this] show ?thesis
    unfolding collect_bets_tip [OF assms(3), symmetric] by (auto simp: collect_bets_def)
qed

section \<open>Valid transactions\<close>

text \<open>An output that pays to the pool without naming a bet.\<close>

definition stray_output :: "byte list \<Rightarrow> CTxOut \<Rightarrow> bool" where
  "stray_output pool v \<longleftrightarrow> IsSendPoolAdress pool (scriptPubKey v) \<and> GetBetData (scriptPubKey v) = None"

lemma tx_valid_outputs:
  assumes "tx_valid_loop pool tip vs t = Inr True" and "tip > 4380" and "t \<noteq> INVALID_LOTTO_STATE"
    and "v \<in> set vs" and "IsSendPoolAdress pool (scriptPubKey v)" and "GetBetData (scriptPubKey v) = Some d"
  shows "CLotto_IsValid d (out_value v) = Inr True"
  using assms
proof (induction vs arbitrary: t)
  case (Cons w vs)
  from Cons.prems(1) obtain t1 where g: "GetLottoTxOutType pool tip w t = Inr (True, t1)" "t1 \<noteq> INVALID_LOTTO_STATE"
    and r: "tx_valid_loop pool tip vs t1 = Inr True" by (auto simp: bindE_eq_Inr split: if_splits)
  show ?case
  proof (cases "v = w")
    case True
    with g Cons.prems(2,5,6) show ?thesis
      by (auto simp: GetLottoTxOutType_bet bet_type_def bindE_eq_Inr split: if_splits)
  next
    case False
    with Cons.IH [OF r Cons.prems(2) g(2)] Cons.prems(4-6) show ?thesis by simp
  qed
qed simp

lemma collect_loop_valid:
  assumes "tx_valid_loop pool tip vs t = Inr True" and "tip > 4380"
    and "\<forall>v\<in>set vs. \<not> stray_output pool v"
  shows "\<exists>t'. foldE (collect_step pool tip) vs (acc, t) = Inr (acc @ filter (\<lambda>v. IsSendPoolAdress pool (scriptPubKey v)) vs, t')"
  using assms
proof (induction vs arbitrary: t acc)
  case (Cons w vs)
  from Cons.prems(1) obtain t1 where g: "GetLottoTxOutType pool tip w t = Inr (True, t1)" "t1 \<noteq> INVALID_LOTTO_STATE"
    and r: "tx_valid_loop pool tip vs t1 = Inr True" by (auto simp: bindE_eq_Inr split: if_splits)
  note IH = Cons.IH [OF r Cons.prems(2)]
  show ?case
  proof (cases "IsSendPoolAdress pool (scriptPubKey w)")
    case True
    then obtain d where "GetBetData (scriptPubKey w) = Some d" using Cons.prems(3) by (auto simp: stray_output_def)
    with True g Cons.prems(2) have "t1 = VALID_LOTTO_STATE"
      by (auto simp: GetLottoTxOutType_bet bet_type_def bindE_eq_Inr split: if_splits)
    then have "collect_step pool tip w (acc, t) = Inr (acc @ [w], t1)" using g by (simp add: collect_step_def)
    with True IH [of "acc @ [w]"] Cons.prems(3) show ?thesis by auto
  next
    case False
    with g have "t1 = NORMAL_STATE" by (simp add: GetLottoTxOutType_def)
    then have "collect_step pool tip w (acc, t) = Inr (acc, t1)" using g by (simp add: collect_step_def)
    with False IH [of acc] Cons.prems(3) show ?thesis by auto
  qed
qed simp

text \<open>C34: Let a transaction other than a coinbase be valid while the tip of the active chain is above height 4380 (at or below it an
  invalid bet counts as a valid one), with amounts in range and no output that pays to the pool without a bet. Then the
  outputs that count are exactly those that pay to the pool, and every one of them is an accepted bet, so that the draw can
  evaluate it.\<close>

theorem valid_tx_bets:
  assumes "IsTransactionValid pool tip tx = Inr True" and "tip > 4380" and "\<not> IsCoinBase tx"
    and "\<forall>v\<in>set (vout tx). \<not> stray_output pool v \<and> 0 \<le> out_value v \<and> out_value v < 2 ^ 63"
  shows "collect_tx pool tip tx [] = Inr (filter (\<lambda>v. IsSendPoolAdress pool (scriptPubKey v)) (vout tx))
    \<and> (\<forall>v\<in>set (vout tx). IsSendPoolAdress pool (scriptPubKey v) \<longrightarrow> accepted_output v)"
proof -
  have v: "tx_valid_loop pool tip (vout tx) NORMAL_STATE = Inr True" using assms(1) by (simp add: IsTransactionValid_def)
  have "\<exists>t'. foldE (collect_step pool tip) (vout tx) ([], NORMAL_STATE)
      = Inr ([] @ filter (\<lambda>v. IsSendPoolAdress pool (scriptPubKey v)) (vout tx), t')"
    using collect_loop_valid [OF v assms(2)] assms(4) by blast
  moreover have "accepted_output w" if "w \<in> set (vout tx)" "IsSendPoolAdress pool (scriptPubKey w)" for w
  proof -
    from that assms(4) obtain d where d: "GetBetData (scriptPubKey w) = Some d" by (auto simp: stray_output_def)
    with tx_valid_outputs [OF v assms(2) _ that(1,2) d] assms(4) that(1) show ?thesis by (simp add: accepted_output_def)
  qed
  ultimately show ?thesis using assms(3) by (auto simp: collect_tx_def)
qed

definition toy_pool :: "byte list" where
  "toy_pool = replicate 20 7"

definition toy_bet_out :: CTxOut where
  "toy_bet_out = \<lparr>out_value = 700001, scriptPubKey = pay_to_key toy_pool @ [OP_LOTTO] @ push_data toy_payload\<rparr>"

definition toy_stray_out :: CTxOut where
  "toy_stray_out = \<lparr>out_value = 50, scriptPubKey = pay_to_key toy_pool\<rparr>"

definition toy_bet_tx :: "CTxOut list \<Rightarrow> CTransaction" where
  "toy_bet_tx outs = \<lparr>tx_nVersion = 1, vin = [\<lparr>prevout = \<lparr>op_hash = 5, op_n = 0\<rparr>, scriptSig = [], nSequence = 0\<rparr>],
     vout = outs, nLockTime = 0\<rparr>"

definition toy_coinbase :: CTransaction where
  "toy_coinbase = \<lparr>tx_nVersion = 1, vin = [\<lparr>prevout = \<lparr>op_hash = 0, op_n = - 1\<rparr>, scriptSig = [1, 2], nSequence = 0\<rparr>],
     vout = [\<lparr>out_value = 5, scriptPubKey = []\<rparr>], nLockTime = 0\<rparr>"

lemma toy_bet_tx_facts:
  "IsTransactionValid toy_pool 5000 (toy_bet_tx [toy_bet_out]) = Inr True"
  "GetLottoValueFromBlock toy_pool 5000 [toy_coinbase, toy_bet_tx [toy_bet_out]] = Inr 700001"
  "IsCoinBase toy_coinbase" "\<not> IsCoinBase (toy_bet_tx outs)"
  "\<not> stray_output toy_pool toy_bet_out" "stray_output toy_pool toy_stray_out"
  "IsSendPoolAdress toy_pool (scriptPubKey toy_bet_out)"
  "GetLottoValueFromTx toy_pool 5000 (toy_bet_tx [toy_bet_out]) = Inr 700001"
  "accepted_output toy_bet_out"
  subgoal by code_simp
  subgoal by code_simp
  subgoal by code_simp
  subgoal by (simp add: toy_bet_tx_def IsCoinBase_def COutPoint_IsNull_def)
  subgoal by code_simp
  subgoal by code_simp
  subgoal by code_simp
  subgoal by code_simp
  subgoal by code_simp
  done

theorem stakes_are_collected_witness:
  "\<exists>bets. collect_bets toy_pool 5119 [toy_coinbase, toy_bet_tx [toy_bet_out]] = Inr bets \<and> 700001 = sum_list (map out_value bets)"
  by (rule stakes_are_collected [OF toy_bet_tx_facts(3,2)]) simp

theorem valid_tx_bets_witness:
  "collect_tx toy_pool 5000 (toy_bet_tx [toy_bet_out]) [] = Inr [toy_bet_out] \<and> accepted_output toy_bet_out"
  using valid_tx_bets [OF toy_bet_tx_facts(1) _ toy_bet_tx_facts(4)] toy_bet_tx_facts(5,7)
  by (simp add: toy_bet_tx_def toy_bet_out_def)

section \<open>Payments to the pool\<close>

text \<open>An ordinary payment to the key of the pool, without a bet. Its classification is that of the output before it.\<close>

definition pool_payment :: "byte list \<Rightarrow> int \<Rightarrow> CTxOut" where
  "pool_payment pool x = \<lparr>out_value = x, scriptPubKey = pay_to_key pool\<rparr>"

lemma GetOp_pay_to_key:
  assumes "length k = 20"
  obtains opc where "opc \<le> OP_PUSHDATA4" "GetOp (push_data k @ [OP_EQUALVERIFY, OP_CHECKSIG]) = Some (opc, k, [OP_EQUALVERIFY, OP_CHECKSIG])"
  using GetOp_push_data [of k] assms by auto

lemma pool_payment_type:
  assumes "length pool = 20"
  shows "stray_output pool (pool_payment pool x)" and "GetLottoTxOutType pool tip (pool_payment pool x) t = Inr (True, t)"
proof -
  obtain opc where op: "opc \<le> OP_PUSHDATA4"
    "GetOp (push_data pool @ [OP_EQUALVERIFY, OP_CHECKSIG]) = Some (opc, pool, [OP_EQUALVERIFY, OP_CHECKSIG])"
    by (rule GetOp_pay_to_key [OF assms])
  then have no: "\<not> opc > OP_16" "opc \<noteq> OP_LOTTO" by (auto simp: opcode_defs word_le_nat_alt word_less_nat_alt)
  have ne: "push_data pool @ [OP_EQUALVERIFY, OP_CHECKSIG] \<noteq> []" by simp
  have ops: "GetOp (pay_to_key pool) = Some (OP_DUP, [], OP_HASH160 # push_data pool @ [OP_EQUALVERIFY, OP_CHECKSIG])"
    "GetOp (OP_HASH160 # push_data pool @ [OP_EQUALVERIFY, OP_CHECKSIG]) = Some (OP_HASH160, [], push_data pool @ [OP_EQUALVERIFY, OP_CHECKSIG])"
    "GetOp [OP_EQUALVERIFY, OP_CHECKSIG] = Some (OP_EQUALVERIFY, [], [OP_CHECKSIG])" "GetOp [OP_CHECKSIG] = Some (OP_CHECKSIG, [], [])"
    by (simp_all add: pay_to_key_def GetOp_def opcode_defs)
  have key: "OP_DUP \<noteq> OP_LOTTO" "OP_HASH160 \<noteq> OP_LOTTO" "OP_EQUALVERIFY \<noteq> OP_LOTTO" "OP_CHECKSIG \<noteq> OP_LOTTO" "pay_to_key pool \<noteq> []"
    by (simp_all add: opcode_defs pay_to_key_def)
  have bet: "GetBetData (pay_to_key pool) = None"
    by (simp add: GetBetData_def bet_data_loop.simps ops op(2) no key ne)
  have loop: "lotto_type_loop tip x 0 (pay_to_key pool) t = Inr (True, t)"
    by (simp add: lotto_type_loop.simps ops op(2) no key ne)
  have addr: "IsSendPoolAdress pool (pay_to_key pool)" using address_of_pay_to_key [OF assms] by (simp add: IsSendPoolAdress_def)
  show "stray_output pool (pool_payment pool x)" using addr bet by (simp add: stray_output_def pool_payment_def)
  show "GetLottoTxOutType pool tip (pool_payment pool x) t = Inr (True, t)"
    using addr loop by (simp add: GetLottoTxOutType_def pool_payment_def)
qed

lemma accepted_bet_type:
  assumes "IsSendPoolAdress pool (scriptPubKey b)" and "accepted_output b"
  shows "GetLottoTxOutType pool tip b t = Inr (True, VALID_LOTTO_STATE)"
  using assms by (auto simp: accepted_output_def GetLottoTxOutType_bet bet_type_def split: option.splits)

lemma tx_valid_loop_append:
  "tx_valid_loop pool tip (xs @ ys) t = Inr True \<longleftrightarrow>
    (\<exists>t'. (\<forall>zs. tx_valid_loop pool tip (xs @ zs) t = tx_valid_loop pool tip zs t') \<and> tx_valid_loop pool tip ys t' = Inr True)"
proof (induction xs arbitrary: t)
  case Nil
  then show ?case by (auto intro: exI [of _ t])
next
  case (Cons x xs)
  then show ?case
    by (cases "GetLottoTxOutType pool tip x t") (auto split: if_splits)
qed

lemma lotto_value_mono:
  assumes "foldE (lotto_value_step pool tip) vs (a, t) = Inr (s, t')" and "\<forall>v\<in>set vs. 0 \<le> out_value v"
  shows "a \<le> s"
proof -
  have "fst (s, t') \<ge> a"
    using assms(1) by (rule foldE_invariant) (use assms(2) in \<open>force simp: lotto_value_step_def bindE_eq_Inr split: if_splits\<close>)+
  then show ?thesis by simp
qed

lemma lotto_value_shift:
  assumes "foldE (lotto_value_step pool tip) vs (a, t) = Inr (s, t')" and "\<forall>v\<in>set vs. 0 \<le> out_value v"
    and "0 \<le> a" and "0 \<le> x" and "s + x < 2 ^ 63"
  shows "a \<le> s \<and> foldE (lotto_value_step pool tip) vs (a + x, t) = Inr (s + x, t')"
  using assms
proof (induction vs arbitrary: a t)
  case (Cons v vs)
  from Cons.prems(1) obtain a1 t1 where st: "lotto_value_step pool tip v (a, t) = Inr (a1, t1)"
    and rest: "foldE (lotto_value_step pool tip) vs (a1, t1) = Inr (s, t')" by (auto simp: bindE_eq_Inr)
  from st obtain ok where g: "GetLottoTxOutType pool tip v t = Inr (ok, t1)"
    and a1: "a1 = (if ok \<and> t1 = VALID_LOTTO_STATE then a + out_value v else a)"
    by (auto simp: lotto_value_step_def bindE_eq_Inr split: if_splits)
  have le: "a \<le> a1" using a1 Cons.prems(2) by auto
  note IH = Cons.IH [OF rest _ _ Cons.prems(4,5)]
  have r: "a1 \<le> s" "foldE (lotto_value_step pool tip) vs (a1 + x, t1) = Inr (s + x, t')"
    using IH Cons.prems(2,3) le by auto
  then have "int64_range (a1 + x)" using Cons.prems(3-5) le by (auto simp: int64_range_def)
  then have "lotto_value_step pool tip v (a + x, t) = Inr (a1 + x, t1)"
    using g a1 by (auto simp: lotto_value_step_def i64_Inr algebra_simps)
  with r le show ?case by auto
qed simp

text \<open>Behind an accepted bet a payment to the pool is not noticed by the checks and is collected as a bet.\<close>

lemma pool_payment_valid:
  assumes "IsTransactionValid pool tip tx = Inr True" and "vout tx = xs @ b # ys"
    and "IsSendPoolAdress pool (scriptPubKey b)" and "accepted_output b" and "length pool = 20"
  shows "IsTransactionValid pool tip (tx\<lparr>vout := xs @ b # pool_payment pool x # ys\<rparr>) = Inr True"
proof -
  note b = accepted_bet_type [OF assms(3,4)] and p = pool_payment_type(2) [OF assms(5)]
  from assms(1,2) have "tx_valid_loop pool tip (xs @ b # ys) NORMAL_STATE = Inr True" by (simp add: IsTransactionValid_def)
  then obtain t where t: "\<And>zs. tx_valid_loop pool tip (xs @ zs) NORMAL_STATE = tx_valid_loop pool tip zs t"
    "tx_valid_loop pool tip (b # ys) t = Inr True" unfolding tx_valid_loop_append by blast
  then show ?thesis by (simp add: IsTransactionValid_def b p)
qed

lemma pool_payment_value:
  assumes "GetLottoValueFromTx pool tip tx = Inr s" and "vout tx = xs @ b # ys" and "\<not> IsCoinBase tx"
    and "IsSendPoolAdress pool (scriptPubKey b)" and "accepted_output b" and "length pool = 20"
    and "\<forall>v\<in>set (vout tx). 0 \<le> out_value v" and "0 \<le> x" and "s + x < 2 ^ 63"
  shows "GetLottoValueFromTx pool tip (tx\<lparr>vout := xs @ b # pool_payment pool x # ys\<rparr>) = Inr (s + x)"
proof -
  let ?f = "foldE (lotto_value_step pool tip)"
  note b = accepted_bet_type [OF assms(4,5)] and p = pool_payment_type(2) [OF assms(6)]
  from assms(1-3) obtain t' where "?f (xs @ b # ys) (0, NORMAL_STATE) = Inr (s, t')"
    by (auto simp: GetLottoValueFromTx_def bindE_eq_Inr)
  then obtain a t c u where a: "?f xs (0, NORMAL_STATE) = Inr (a, t)" and c: "lotto_value_step pool tip b (a, t) = Inr (c, u)"
    and r: "?f ys (c, u) = Inr (s, t')" by (auto simp: foldE_append bindE_eq_Inr)
  have vs: "\<forall>v\<in>set xs. 0 \<le> out_value v" "0 \<le> out_value b" "\<forall>v\<in>set ys. 0 \<le> out_value v" using assms(2,7) by auto
  from c have u: "u = VALID_LOTTO_STATE" "c = a + out_value b" by (auto simp: lotto_value_step_def b bindE_eq_Inr)
  have c0: "0 \<le> c" using lotto_value_mono [OF a vs(1)] u(2) vs(2) by simp
  have le: "c \<le> s" and y: "?f ys (c + x, u) = Inr (s + x, t')" using lotto_value_shift [OF r vs(3) c0 assms(8,9)] by auto
  have "int64_range (c + x)" using c0 le assms(8,9) by (simp add: int64_range_def)
  then have "lotto_value_step pool tip (pool_payment pool x) (c, u) = Inr (c + x, u)"
    by (simp add: lotto_value_step_def p u(1)) (simp add: pool_payment_def i64_Inr)
  with a c y show ?thesis using assms(3) by (auto simp: GetLottoValueFromTx_def IsCoinBase_def foldE_append)
qed

lemma collect_step_keeps: "v \<in> set (fst s) \<Longrightarrow> collect_step pool tip w s = Inr s' \<Longrightarrow> v \<in> set (fst s')"
  by (auto simp: collect_step_def bindE_eq_Inr split: prod.splits)

lemma pool_payment_collected:
  assumes "collect_bets pool tip txs = Inr bets" and "tx \<in> set (tl txs)" and "vout tx = xs @ b # pool_payment pool x # ys"
    and "\<not> IsCoinBase tx" and "IsSendPoolAdress pool (scriptPubKey b)" and "accepted_output b" and "length pool = 20"
  shows "pool_payment pool x \<in> set bets"
proof -
  let ?p = "pool_payment pool x" and ?f = "foldE (collect_step pool tip)"
  have keep: "?p \<in> set (fst s')" if "?f vs s = Inr s'" "?p \<in> set (fst s)" for vs s s'
    using that by (rule foldE_invariant) (rule collect_step_keeps)
  have keep_tx: "?p \<in> set acc'" if "collect_tx pool tip t acc = Inr acc'" "?p \<in> set acc" for t acc acc'
    using that keep by (fastforce simp: collect_tx_def bindE_eq_Inr split: if_splits)
  have here: "?p \<in> set acc'" if "collect_tx pool tip tx acc = Inr acc'" for acc acc'
  proof -
    from that assms(3,4) obtain a t r where "?f xs (acc, NORMAL_STATE) = Inr (a, t)"
      "?f ys (a @ [b] @ [?p], VALID_LOTTO_STATE) = Inr (acc', r)"
      by (auto simp: collect_tx_def foldE_append bindE_eq_Inr collect_step_def accepted_bet_type [OF assms(5,6)]
          pool_payment_type(2) [OF assms(7)])
    from keep [OF this(2)] show ?thesis by simp
  qed
  from assms(2) obtain us vs where split: "tl txs = us @ tx # vs" by (meson split_list)
  with assms(1) obtain acc acc' where "collect_tx pool tip tx acc = Inr acc'" "foldE (collect_tx pool tip) vs acc' = Inr bets"
    by (auto simp: collect_bets_def foldE_append bindE_eq_Inr)
  with here keep_tx show ?thesis by (auto intro: foldE_invariant [where P = "\<lambda>s. ?p \<in> set s"])
qed

lemma stray_output_faults:
  assumes "stray_output pool p" and "p \<in> set outs"
  shows "foldE add_bet outs c \<noteq> Inr c'"
proof -
  have "add_bet p s = Inl AssertFailed" for s using assms(1) by (simp add: add_bet_def stray_output_def)
  moreover from assms(2) obtain us vs where "outs = us @ p # vs" by (meson split_list)
  ultimately show ?thesis by (auto simp: foldE_append bindE_eq_Inr)
qed

section \<open>The fee on bets\<close>

lemma mul_005_spec: "MoneyRange x \<Longrightarrow> mul_005 x = x div 20"
  unfolding mul_005_def by (rule dround_twentieth) (simp_all add: MoneyRange_def MAX_MONEY_def)

text \<open>C40: The fee on a transaction that is no coinbase is a twentieth of its stakes, rounded down, for every amount of money:
  the multiplication by the \<open>double\<close> 0.05 never rounds across an integer.\<close>

theorem lotto_fee_twentieth:
  assumes "GetLottoValueFromTx pool tip tx = Inr stakes" and "\<not> IsCoinBase tx" and "MoneyRange stakes"
  shows "GetLottoFee pool tip tx = Inr (stakes div 20)"
  using assms by (auto simp: GetLottoValueFromTx_def GetLottoFee_def bindE_eq_Inr mul_005_spec)

theorem lotto_fee_twentieth_witness:
  "GetLottoFee toy_pool 5000 (toy_bet_tx [toy_bet_out]) = Inr (700001 div 20)"
proof (rule lotto_fee_twentieth)
  show "GetLottoValueFromTx toy_pool 5000 (toy_bet_tx [toy_bet_out]) = Inr 700001" by code_simp
qed (simp_all add: toy_bet_tx_facts MoneyRange_def MAX_MONEY_def)

end
