(* ===== verification/Chain_Lotto.thy ===== *)
theory Chain_Lotto
  imports Chain_Tx Chain_Index
begin

text \<open>
  The lottery rules of the block chain: the key and the hash of a draw (\<open>GetLotteryKey\<close> of \<open>main.cpp\<close>,
  \<open>GetLotteryHash\<close> of \<open>miner.cpp\<close>), the draw of a block (\<open>DrawLottery\<close>), the check of a block
  (\<open>CheckLottoResult\<close> of \<open>main.cpp\<close>) and the part of \<open>CreateNewBlock\<close> that fills the lottery header and
  the coinbase.

  What these functions read is collected in the record \<open>chain_env\<close>. A pointer to a block index is the hash under
  which \<open>mapBlockIndex\<close> owns it. The tables filled by other parts of the program (lottery keys, key file, Bitcoin
  headers, checkpoints) and the hash functions are fields of the record.
\<close>

section \<open>What the rules read\<close>

record chain_env =
  mapBlockIndex :: "u256 \<Rightarrow> CBlockIndex option"
  vChain :: "CBlockIndex list"
  ReadBlockFromDisk :: "nat \<times> nat \<Rightarrow> CBlock option"
  ReadLotteryKey :: "int \<Rightarrow> u256 list option"
  ReadClottoData :: "int \<Rightarrow> u256 \<Rightarrow> byte list option"
  GetBitcoinBlockIndex :: "int \<Rightarrow> CBlockIndex option"
  btc_prev :: "u256 \<Rightarrow> CBlockIndex option"
  btc_chain :: "CBlockIndex list"
  Checkpoints_CheckBlock :: "int \<Rightarrow> u256 \<Rightarrow> bool"
  HashGenesisBlock :: u256
  poolKeyId :: "byte list"
  nLottoStep :: int
  env_sha :: "byte list \<Rightarrow> byte list"
  env_Hash9 :: "byte list \<Rightarrow> u256"

definition nIntervalLottery :: int where "nIntervalLottery = 60"

definition BTC_START_HIGHT :: int where "BTC_START_HIGHT = 308447"

text \<open>\<open>chainActive[h]\<close>, \<open>NULL\<close> outside the chain, and the height of its tip.\<close>

definition chain_at :: "chain_env \<Rightarrow> int \<Rightarrow> CBlockIndex option" where
  "chain_at env h = (if h < 0 \<or> h \<ge> int (length (vChain env)) then None else Some (vChain env ! nat h))"

definition tip_height :: "chain_env \<Rightarrow> int" where
  "tip_height env = (case vChain env of [] \<Rightarrow> - 1 | _ \<Rightarrow> nHeight (last (vChain env)))"

section \<open>Key and hash of a draw\<close>

definition GetLotteryKey :: "chain_env \<Rightarrow> int \<Rightarrow> (bool \<times> int \<times> u256) result" where
  "GetLotteryKey env h =
     (let nID = trunc_div h nIntervalLottery - 1 in
      if h \<le> 2 * nIntervalLottery then Inr (True, 0, 1)
      else case ReadLotteryKey env nID of
        None \<Rightarrow> Inr (False, nID, 0)
      | Some [] \<Rightarrow> Inl OutOfBounds
      | Some (k # _) \<Rightarrow> Inr (True, nID, k))"

text \<open>The step is clamped before it is used; the clamped value is kept.\<close>

definition GetLotteryHash :: "chain_env \<Rightarrow> CBlockIndex \<Rightarrow> u256 result" where
  "GetLotteryHash env pIndex =
     (let nId = trunc_div (nHeight pIndex) nIntervalLottery - 1 in
      if nId < 0 then Inr 0
      else
        let step = (if nLottoStep env \<ge> nIntervalLottery then nIntervalLottery - 1 else nLottoStep env) in
        case chain_at env (nIntervalLottery * nId + step) of
          None \<Rightarrow> Inl AssertFailed
        | Some pLottorIndex \<Rightarrow>
            (case mBitcoinHash (idx_lottoHeader pLottorIndex) of
               [] \<Rightarrow> Inl OutOfBounds
             | m \<Rightarrow> Inr (snd (last m))))"

section \<open>The draw of a block\<close>

text \<open>\<open>nStep\<close> steps to the predecessor; a step from \<open>NULL\<close> has no result.\<close>

fun step_back :: "chain_env \<Rightarrow> nat \<Rightarrow> CBlockIndex option \<Rightarrow> CBlockIndex option result" where
  "step_back env 0 p = Inr p"
| "step_back env (Suc n) p = (case p of
     None \<Rightarrow> Inl OutOfBounds
   | Some idx \<Rightarrow> step_back env n (case pprev idx of None \<Rightarrow> None | Some h \<Rightarrow> mapBlockIndex env h))"

text \<open>The block whose bets are drawn.\<close>

definition lottery_block :: "chain_env \<Rightarrow> CBlockIndex \<Rightarrow> CBlock result" where
  "lottery_block env pindexPrev =
     bindE (step_back env (nat (2 * nIntervalLottery - 1)) (Some pindexPrev)) (\<lambda>p.
     case p of
       None \<Rightarrow> Inl AssertFailed
     | Some idx \<Rightarrow> (case ReadBlockFromDisk env (diskPos idx) of None \<Rightarrow> Inl InvalidData | Some b \<Rightarrow> Inr b))"

definition DrawLottery :: "chain_env \<Rightarrow> nat \<Rightarrow> int \<Rightarrow> CBlockIndex \<Rightarrow> CTxOut list \<Rightarrow> int \<Rightarrow> int \<Rightarrow> u256
    \<Rightarrow> (CTxOut list \<times> int) result option" where
  "DrawLottery env fuel drawPool pindexPrev vTxOut llRewards nID key =
     (if nHeight pindexPrev < 2 * nIntervalLottery \<or> key = 0 then Some (Inr (vTxOut, llRewards))
      else case bindE (lottery_block env pindexPrev) (\<lambda>b.
             bindE (collect_bets (poolKeyId env) (tip_height env) (vtx b)) (\<lambda>bets.
             bindE (GetLotteryHash env pindexPrev) (\<lambda>h. Inr (bets, h)))) of
          Inl e \<Rightarrow> Some (Inl e)
        | Inr (bets, h) \<Rightarrow>
            if bets = [] then Some (Inr (vTxOut, llRewards))
            else case CLotto_key (env_sha env) fuel (ser_word h) (ReadClottoData env nID key) drawPool bets of
                None \<Rightarrow> None
              | Some (Inl e) \<Rightarrow> Some (Inl e)
              | Some (Inr c) \<Rightarrow> Some (bindE (GetReWardOutput c vTxOut llRewards) (\<lambda>(_, outs, r). Inr (outs, r))))"

section \<open>Checking a block\<close>

datatype verdict =
  Accept
| Reject (nDoS: int) (chRejectCode: nat) (strRejectReason: string)
  (corruptionPossible: bool)

definition REJECT_CHECKPOINT :: nat where "REJECT_CHECKPOINT = 0x43"
definition REJECT_INVALID_LOTTO :: nat where "REJECT_INVALID_LOTTO = 0x50"
definition REJECT_DIRTY_BLOCK :: nat where "REJECT_DIRTY_BLOCK = 0x51"

text \<open>The Bitcoin hashes have to continue those of the previous block.\<close>

definition check_btc_start :: "chain_env \<Rightarrow> CLottoHeader \<Rightarrow> CLottoHeader \<Rightarrow> verdict result" where
  "check_btc_start env lh pre =
     bindE (i32 (GetFirstBitcoinHeight lh - GetLastBitcoinHeight pre)) (\<lambda>gap.
     if gap > 1 then Inr (Reject 100 REJECT_DIRTY_BLOCK ''bad-btc-hash-sequence'' True)
     else if fst (hd (mBitcoinHash lh)) \<noteq> BTC_START_HIGHT then
       (let first = fst (hd (mBitcoinHash lh)) in
        bindE (i32 (first - 1)) (\<lambda>before. Inr (
        case GetBitcoinBlockIndex env first of
          None \<Rightarrow> Reject 0 REJECT_INVALID_LOTTO ''bad-btc-hash-sequence'' True
        | Some pBitcoinIndex \<Rightarrow>
            if GetLastBitcoinHash pre \<noteq> phashBlock pBitcoinIndex
              \<and> (case GetBitcoinBlockIndex env before of
                   None \<Rightarrow> False | Some pPre \<Rightarrow> GetLastBitcoinHash pre \<noteq> phashBlock pPre)
            then Reject 100 REJECT_INVALID_LOTTO ''bad-btc-hash-sequence'' True else Accept)))
     else Inr Accept)"

fun check_btc_loop :: "chain_env \<Rightarrow> (int \<times> u256) list \<Rightarrow> u256 \<Rightarrow> verdict" where
  "check_btc_loop env [] pre = Accept"
| "check_btc_loop env ((h, btc) # m) pre =
     (case GetBitcoinBlockIndex env h of
        None \<Rightarrow> Reject 0 REJECT_INVALID_LOTTO ''bad-btc-hash-sequence'' True
      | Some pBitcoinIndex \<Rightarrow>
          if (pre \<noteq> 0 \<and> (case btc_prev env (phashBlock pBitcoinIndex) of None \<Rightarrow> False | Some p \<Rightarrow> phashBlock p \<noteq> pre))
             \<or> phashBlock pBitcoinIndex \<noteq> btc
          then Reject 0 REJECT_DIRTY_BLOCK ''bad-btchash'' True
          else if pre = btc then Reject 100 REJECT_DIRTY_BLOCK ''bad-btchash'' True
          else check_btc_loop env m btc)"

text \<open>Coinbase and pool. The first branch repeats the draw, the second one admits no pay-out.\<close>

definition coinbase_rewards :: "CBlock \<Rightarrow> CTxOut list result" where
  "coinbase_rewards b = (case vtx b of
     [] \<Rightarrow> Inl OutOfBounds
   | cb # _ \<Rightarrow> (case vout cb of [] \<Rightarrow> Inl OutOfBounds | _ # outs \<Rightarrow> Inr outs))"

definition check_draw :: "chain_env \<Rightarrow> nat \<Rightarrow> CBlock \<Rightarrow> CBlockIndex \<Rightarrow> CBlock \<Rightarrow> int \<Rightarrow> verdict result option" where
  "check_draw env fuel b pPreBlockIndex pPreBlock nCurBetValue =
     (case bindE (coinbase_rewards b) (\<lambda>outs. bindE (GetLotteryKey env (nHeight pPreBlockIndex)) (\<lambda>k. Inr (outs, k))) of
        Inl e \<Rightarrow> Some (Inl e)
      | Inr (lottoTxOut, found, nID, lottoKey) \<Rightarrow>
          if \<not> found then Some (Inr (Reject 0 REJECT_INVALID_LOTTO ''check lotto result error'' True))
          else if lottoKey \<noteq> uLottoKey (lottoHeader b) \<or> nID \<noteq> nLottoID (lottoHeader b)
          then Some (Inr (Reject 100 REJECT_INVALID_LOTTO ''bad-block'' True))
          else case DrawLottery env fuel (llPool (lottoHeader pPreBlock)) pPreBlockIndex [] 0 nID lottoKey of
              None \<Rightarrow> None
            | Some r \<Rightarrow> Some (bindE r (\<lambda>(vTxOut, llRewards).
                bindE (i64 (llPool (lottoHeader b) + llRewards)) (\<lambda>lhs.
                bindE (i64 (llPool (lottoHeader pPreBlock) + nCurBetValue)) (\<lambda>rhs.
                Inr (if lhs \<noteq> rhs then Reject 100 REJECT_DIRTY_BLOCK ''bad-block'' True
                     else if vTxOut \<noteq> lottoTxOut then Reject 100 REJECT_DIRTY_BLOCK ''bad-block'' True
                     else Accept))))))"

definition check_no_draw :: "CBlock \<Rightarrow> CBlockIndex \<Rightarrow> CBlock \<Rightarrow> int \<Rightarrow> verdict result" where
  "check_no_draw b pPreBlockIndex pPreBlock nCurBetValue =
     bindE (i64 (llPool (lottoHeader pPreBlock) + nCurBetValue)) (\<lambda>expected.
     if llPool (lottoHeader b) \<noteq> expected then Inr (Reject 100 REJECT_DIRTY_BLOCK ''bad-block'' True)
     else case vtx b of
       [] \<Rightarrow> Inl OutOfBounds
     | cb # _ \<Rightarrow> Inr (
         if length (vout cb) \<noteq> 1 then Reject 100 REJECT_DIRTY_BLOCK ''bad-block'' True
         else if nHeight pPreBlockIndex mod nIntervalLottery \<noteq> 0
           \<and> uLottoKey (idx_lottoHeader pPreBlockIndex) \<noteq> 0 \<and> uLottoKey (idx_lottoHeader pPreBlockIndex) \<noteq> 1
           \<and> uLottoKey (lottoHeader b) = 0
         then Reject 100 REJECT_DIRTY_BLOCK ''bad-block'' True
         else Accept))"

definition check_pool :: "chain_env \<Rightarrow> nat \<Rightarrow> CBlock \<Rightarrow> CBlockIndex \<Rightarrow> CBlock \<Rightarrow> verdict result option" where
  "check_pool env fuel b pPreBlockIndex pPreBlock =
     (case GetLottoValueFromBlock (poolKeyId env) (tip_height env) (vtx b) of
        Inl e \<Rightarrow> Some (Inl e)
      | Inr nCurBetValue \<Rightarrow>
          if nHeight pPreBlockIndex \<ge> 2 * nIntervalLottery \<and> uLottoKey (lottoHeader b) \<noteq> 0
          then check_draw env fuel b pPreBlockIndex pPreBlock nCurBetValue
          else Some (check_no_draw b pPreBlockIndex pPreBlock nCurBetValue))"

definition CheckLottoResult :: "chain_env \<Rightarrow> nat \<Rightarrow> CBlock \<Rightarrow> verdict result option" where
  "CheckLottoResult env fuel b =
     (let hash = CBlockHeader_GetHash (env_Hash9 env) b in
      if hash = HashGenesisBlock env then Some (Inr Accept)
      else case mapBlockIndex env (hashPrevBlock b) of
        None \<Rightarrow> Some (Inr (Reject 10 0 ''bad-prevblk'' False))
      | Some pPreBlockIndex \<Rightarrow>
          if \<not> Checkpoints_CheckBlock env (nHeight pPreBlockIndex + 1) hash
          then Some (Inr (Reject 100 REJECT_CHECKPOINT ''checkpoint mismatch'' False))
          else if mBitcoinHash (lottoHeader b) = []
          then Some (Inr (Reject 100 REJECT_DIRTY_BLOCK ''bad-btc-hash-map'' True))
          else case ReadBlockFromDisk env (diskPos pPreBlockIndex) of
            None \<Rightarrow> Some (Inr (Reject 100 REJECT_INVALID_LOTTO ''bad-previous-block'' True))
          | Some pPreBlock \<Rightarrow>
              (case check_btc_start env (lottoHeader b) (lottoHeader pPreBlock) of
                 Inl e \<Rightarrow> Some (Inl e)
               | Inr (Reject d c r p) \<Rightarrow> Some (Inr (Reject d c r p))
               | Inr Accept \<Rightarrow>
                   (case check_btc_loop env (mBitcoinHash (lottoHeader b)) 0 of
                      Reject d c r p \<Rightarrow> Some (Inr (Reject d c r p))
                    | Accept \<Rightarrow> check_pool env fuel b pPreBlockIndex pPreBlock)))"

section \<open>Creating a block\<close>

text \<open>The Bitcoin hashes of a new block: the Bitcoin blocks above the last one the previous block names, or the tip of the
  Bitcoin chain if there are none. \<open>btc_chain\<close> lists the chain from its tip.\<close>

definition new_btc_hashes :: "chain_env \<Rightarrow> CLottoHeader \<Rightarrow> (int \<times> u256) list result" where
  "new_btc_hashes env pre =
     (let pBTCBlocks = takeWhile (\<lambda>i. GetLastBitcoinHeight pre \<noteq> nHeight i) (btc_chain env) in
      if pBTCBlocks = [] then
        (case btc_chain env of [] \<Rightarrow> Inl OutOfBounds | t # _ \<Rightarrow> Inr [(nHeight t, phashBlock t)])
      else Inr (map_insert_range (map (\<lambda>i. (nHeight i, phashBlock i)) (rev pBTCBlocks)) []))"

definition out_total :: "CTxOut list \<Rightarrow> int result" where
  "out_total outs = foldE (\<lambda>v s. i64 (s + out_value v)) outs 0"

definition add_rewards :: "CTxOut list \<Rightarrow> CTransaction list \<Rightarrow> CTransaction list" where
  "add_rewards outs txs = (case txs of [] \<Rightarrow> [] | cb # r \<Rightarrow> cb\<lparr>vout := vout cb @ outs\<rparr> # r)"

text \<open>The key of the draw is missing in the middle of an interval: no block is created (\<open>return NULL\<close>).\<close>

definition key_missing :: "CBlockIndex \<Rightarrow> u256 \<Rightarrow> bool" where
  "key_missing pindexPrev key \<longleftrightarrow> nHeight pindexPrev mod nIntervalLottery \<noteq> 0
     \<and> uLottoKey (idx_lottoHeader pindexPrev) \<noteq> 0 \<and> uLottoKey (idx_lottoHeader pindexPrev) \<noteq> 1 \<and> key = 0"

definition create_lottery :: "chain_env \<Rightarrow> nat \<Rightarrow> CBlock \<Rightarrow> CBlockIndex \<Rightarrow> int \<Rightarrow> CBlock option result option" where
  "create_lottery env fuel pblock pindexPrev nCurBetValue =
     (case ReadBlockFromDisk env (diskPos pindexPrev) of
        None \<Rightarrow> Some (Inl InvalidData)
      | Some tip \<Rightarrow>
          let nPool = llPool (lottoHeader tip) in
          case bindE (new_btc_hashes env (idx_lottoHeader (last (vChain env)))) (\<lambda>m.
               bindE (GetLotteryKey env (nHeight pindexPrev)) (\<lambda>k. Inr (m, k))) of
            Inl e \<Rightarrow> Some (Inl e)
          | Inr (m, _, nID, key) \<Rightarrow>
              if key_missing pindexPrev key then Some (Inr None)
              else case DrawLottery env fuel nPool pindexPrev [] 0 nID key of
                  None \<Rightarrow> None
                | Some r \<Rightarrow> Some (bindE r (\<lambda>(vTxOut, llRewards).
                    bindE (out_total vTxOut) (\<lambda>txOutValue.
                    bindE (i64 (nPool - txOutValue)) (\<lambda>p.
                    bindE (i64 (p + nCurBetValue)) (\<lambda>p.
                    Inr (Some (pblock\<lparr>vtx := add_rewards vTxOut (vtx pblock),
                      lottoHeader := CLottoHeader_assign (lottoHeader pblock)
                        (new_CLottoHeader\<lparr>mBitcoinHash := m, uLottoKey := key, nLottoID := nID, llPool := p\<rparr>)\<rparr>))))))))"

section \<open>Draws report what they pay\<close>

lemma GetReWardOutput_sum:
  "GetReWardOutput c outs l = Inr (c', outs', l') \<Longrightarrow> l' - l = sum_list (map out_value outs') - sum_list (map out_value outs)"
  by (auto simp: GetReWardOutput_def bindE_eq_Inr dest: pay_bets_sum)

lemma DrawLottery_sum:
  assumes "DrawLottery env fuel pool idx [] 0 nID key = Some (Inr (outs, rewards))"
  shows "rewards = sum_list (map out_value outs)"
  using assms
  by (auto simp: DrawLottery_def bindE_eq_Inr split: if_splits sum.splits option.splits dest!: GetReWardOutput_sum)

lemma DrawLottery_none:
  "nHeight idx < 2 * nIntervalLottery \<or> key = 0 \<Longrightarrow> DrawLottery env fuel pool idx outs r nID key = Some (Inr (outs, r))"
  by (simp add: DrawLottery_def)

section \<open>Accepted blocks conserve the pool\<close>

lemma check_pool_conserves:
  assumes "check_pool env fuel b idx pre = Some (Inr Accept)"
  shows "\<exists>stakes outs. GetLottoValueFromBlock (poolKeyId env) (tip_height env) (vtx b) = Inr stakes
    \<and> coinbase_rewards b = Inr outs
    \<and> llPool (lottoHeader b) = llPool (lottoHeader pre) + stakes - sum_list (map out_value outs)"
proof -
  from assms obtain stakes where s: "GetLottoValueFromBlock (poolKeyId env) (tip_height env) (vtx b) = Inr stakes"
    by (auto simp: check_pool_def split: sum.splits)
  show ?thesis
  proof (cases "nHeight idx \<ge> 2 * nIntervalLottery \<and> uLottoKey (lottoHeader b) \<noteq> 0")
    case True
    with assms s have c: "check_draw env fuel b idx pre stakes = Some (Inr Accept)" by (simp add: check_pool_def)
    from c obtain outs found nID k where o: "coinbase_rewards b = Inr outs" "GetLotteryKey env (nHeight idx) = Inr (found, nID, k)"
      by (auto simp: check_draw_def bindE_eq_Inr split: sum.splits)
    with c obtain rewards where "DrawLottery env fuel (llPool (lottoHeader pre)) idx [] 0 nID k = Some (Inr (outs, rewards))"
      and "llPool (lottoHeader b) + rewards = llPool (lottoHeader pre) + stakes"
      by (auto simp: check_draw_def bindE_eq_Inr split: if_splits option.splits)
    with DrawLottery_sum s o(1) show ?thesis by (intro exI [of _ stakes] exI [of _ outs]) auto
  next
    case False
    with assms s have c: "check_no_draw b idx pre stakes = Inr Accept" by (simp add: check_pool_def)
    then have p: "llPool (lottoHeader b) = llPool (lottoHeader pre) + stakes"
      by (auto simp: check_no_draw_def bindE_eq_Inr split: if_splits list.splits)
    from c obtain cb txs where cb: "vtx b = cb # txs" "length (vout cb) = 1"
      by (auto simp: check_no_draw_def bindE_eq_Inr split: if_splits list.splits)
    then have "coinbase_rewards b = Inr []" by (cases "vout cb") (auto simp: coinbase_rewards_def)
    with s p show ?thesis by simp
  qed
qed

lemma CheckLottoResult_Accept:
  assumes "CheckLottoResult env fuel b = Some (Inr Accept)" and "CBlockHeader_GetHash (env_Hash9 env) b \<noteq> HashGenesisBlock env"
  obtains idx pre where "mapBlockIndex env (hashPrevBlock b) = Some idx" and "ReadBlockFromDisk env (diskPos idx) = Some pre"
    and "check_pool env fuel b idx pre = Some (Inr Accept)"
  using assms by (auto simp: CheckLottoResult_def Let_def split: if_splits option.splits verdict.splits sum.splits)

text \<open>C14: An accepted block conserves the lottery pool: its pool is the pool of the previous block plus the stakes of its own
  bets minus the amounts that its coinbase pays out beyond the first output, with or without a draw.\<close>

theorem accepted_block_conserves_pool:
  assumes "CheckLottoResult env fuel b = Some (Inr Accept)" and "CBlockHeader_GetHash (env_Hash9 env) b \<noteq> HashGenesisBlock env"
  shows "\<exists>idx pre stakes outs. mapBlockIndex env (hashPrevBlock b) = Some idx \<and> ReadBlockFromDisk env (diskPos idx) = Some pre
    \<and> GetLottoValueFromBlock (poolKeyId env) (tip_height env) (vtx b) = Inr stakes \<and> coinbase_rewards b = Inr outs
    \<and> llPool (lottoHeader b) = llPool (lottoHeader pre) + stakes - sum_list (map out_value outs)"
  using CheckLottoResult_Accept [OF assms] check_pool_conserves by metis

section \<open>Draws are covered by the pool\<close>

text \<open>The amounts of a block are not negative, which \<open>CheckTransaction\<close> ensures for every block that is stored.\<close>

definition amounts_nonneg :: "CBlock \<Rightarrow> bool" where
  "amounts_nonneg b \<longleftrightarrow> (\<forall>tx\<in>set (vtx b). \<forall>out\<in>set (vout tx). 0 \<le> out_value out)"

lemma set_tl: "x \<in> set (tl xs) \<Longrightarrow> x \<in> set xs"
  by (cases xs) simp_all

lemma collect_bets_subset:
  assumes "collect_bets pool tip txs = Inr bets" and "out \<in> set bets"
  shows "\<exists>tx\<in>set txs. out \<in> set (vout tx)"
proof -
  let ?P = "\<lambda>outs. \<forall>out\<in>set outs. \<exists>tx\<in>set txs. out \<in> set (vout tx)"
  have step: "?P acc'" if tx: "tx \<in> set txs" and p: "?P acc" and c: "collect_tx pool tip tx acc = Inr acc'" for tx acc acc'
  proof (cases "IsCoinBase tx")
    case False
    with c obtain t where f: "foldE (collect_step pool tip) (vout tx) (acc, NORMAL_STATE) = Inr (acc', t)"
      by (auto simp: collect_tx_def bindE_eq_Inr)
    have "?P (fst (acc', t))"
      by (rule foldE_invariant [OF f]) (use p tx in \<open>fastforce simp: collect_step_def bindE_eq_Inr split: if_splits\<close>)+
    then show ?thesis by simp
  qed (use p c in \<open>simp add: collect_tx_def\<close>)
  have "?P bets"
    by (rule foldE_invariant [OF assms(1) [unfolded collect_bets_def]]) (use step in \<open>auto dest: set_tl\<close>)+
  with assms(2) show ?thesis by blast
qed

lemma GetLottoValueFromBlock_nonneg:
  assumes "GetLottoValueFromBlock pool tip txs = Inr n" and "\<forall>tx\<in>set txs. \<forall>out\<in>set (vout tx). 0 \<le> out_value out"
  shows "0 \<le> n"
proof -
  have tx: "0 \<le> v" if "GetLottoValueFromTx pool tip tx = Inr v" "tx \<in> set txs" for tx v
    using that assms(2) by (auto simp: GetLottoValueFromTx_def bindE_eq_Inr dest!: lotto_value_mono split: if_splits)
  show ?thesis
    by (rule foldE_invariant [OF assms(1) [unfolded GetLottoValueFromBlock_def]])
      (use tx in \<open>fastforce simp: bindE_eq_Inr\<close>)+
qed

lemma DrawLottery_solvent:
  assumes draw: "DrawLottery env fuel pool idx [] 0 nID key = Some (Inr (outs, rewards))"
    and pool: "0 \<le> pool" "pool \<le> 2 ^ 53" and sound: "\<And>lb. lottery_block env idx = Inr lb \<Longrightarrow> amounts_nonneg lb"
  shows "rewards \<le> pool * 8 div 10"
proof (cases "rewards = 0")
  case True
  with pool(1) show ?thesis by (simp add: pos_imp_zdiv_nonneg_iff)
next
  case False
  with draw obtain lb bets h c c' where lb: "lottery_block env idx = Inr lb"
    "collect_bets (poolKeyId env) (tip_height env) (vtx lb) = Inr bets"
    and h: "GetLotteryHash env idx = Inr h" and k: "CLotto_key (env_sha env) fuel (ser_word h) (ReadClottoData env nID key) pool bets = Some (Inr c)"
    and g: "GetReWardOutput c [] 0 = Inr (c', outs, rewards)"
    by (auto simp: DrawLottery_def bindE_eq_Inr split: if_splits sum.splits option.splits)
  from k obtain h' where c: "CLotto_hash (env_sha env) fuel h' pool bets = Some (Inr c)"
    by (auto simp: CLotto_key_def CLotto_hash_def)
  have bets: "\<forall>out\<in>set bets. 0 \<le> out_value out"
    using sound [OF lb(1)] collect_bets_subset [OF lb(2)] unfolding amounts_nonneg_def by blast
  have "rewards - 0 \<le> rewardPool c * 8 div 10"
    by (rule solvency [OF g _ draw_bets_ok [OF c bets]]) (use pool CLotto_hash_pool [OF c] in simp_all)
  then show ?thesis using CLotto_hash_pool [OF c] by simp
qed

lemma check_pool_solvent:
  assumes "check_pool env fuel b idx pre = Some (Inr Accept)" and "coinbase_rewards b = Inr outs"
    and "0 \<le> llPool (lottoHeader pre)" and "llPool (lottoHeader pre) \<le> 2 ^ 53"
    and "\<And>lb. lottery_block env idx = Inr lb \<Longrightarrow> amounts_nonneg lb"
  shows "sum_list (map out_value outs) \<le> llPool (lottoHeader pre) * 8 div 10"
proof (cases "nHeight idx \<ge> 2 * nIntervalLottery \<and> uLottoKey (lottoHeader b) \<noteq> 0")
  case True
  with assms(1) obtain stakes where c: "check_draw env fuel b idx pre stakes = Some (Inr Accept)"
    by (auto simp: check_pool_def split: sum.splits)
  with assms(2) obtain nID k rewards where
    d: "DrawLottery env fuel (llPool (lottoHeader pre)) idx [] 0 nID k = Some (Inr (outs, rewards))"
    by (auto simp: check_draw_def bindE_eq_Inr split: if_splits option.splits sum.splits)
  with DrawLottery_solvent [OF d assms(3-5)] DrawLottery_sum [OF d] show ?thesis by simp
next
  case False
  with assms(1,2) have "outs = []"
    by (auto simp: check_pool_def check_no_draw_def coinbase_rewards_def bindE_eq_Inr split: if_splits list.splits sum.splits)
  with assms(3) show ?thesis by (simp add: pos_imp_zdiv_nonneg_iff)
qed

section \<open>Created blocks pass the check\<close>

lemma out_total_sum: "out_total outs = Inr x \<Longrightarrow> x = sum_list (map out_value outs)"
proof -
  have "foldE (\<lambda>v s. i64 (s + out_value v)) outs y = Inr x \<Longrightarrow> x = y + sum_list (map out_value outs)" for y
    by (induction outs arbitrary: y) (fastforce simp: bindE_eq_Inr)+
  from this [of 0] show "out_total outs = Inr x \<Longrightarrow> x = sum_list (map out_value outs)" by (simp add: out_total_def)
qed

lemma GetLottoValueFromBlock_rewards:
  "IsCoinBase cb \<Longrightarrow> GetLottoValueFromBlock pool tip (add_rewards outs (cb # txs)) = GetLottoValueFromBlock pool tip (cb # txs)"
  by (simp add: GetLottoValueFromBlock_def add_rewards_def GetLottoValueFromTx_def IsCoinBase_def)

text \<open>C15: The block that the miner assembles passes the pool and pay-out rules of \<open>CheckLottoResult\<close> on the same chain: the draw
  is repeated with the same result, and the pool it writes is the one the check computes.\<close>

theorem created_block_passes_check:
  assumes create: "create_lottery env fuel pb idx cur = Some (Inr (Some b))"
    and pb: "vtx pb = cb # txs" "IsCoinBase cb" "length (vout cb) = 1"
    and cur: "GetLottoValueFromBlock (poolKeyId env) (tip_height env) (vtx pb) = Inr cur"
    and pre: "ReadBlockFromDisk env (diskPos idx) = Some pre" and range: "int64_range (llPool (lottoHeader pre) + cur)"
  shows "check_pool env fuel b idx pre = Some (Inr Accept)"
proof -
  let ?P = "llPool (lottoHeader pre)"
  from create pre obtain m found nID key outs rewards where
    k: "GetLotteryKey env (nHeight idx) = Inr (found, nID, key)" and miss: "\<not> key_missing idx key"
    and draw: "DrawLottery env fuel ?P idx [] 0 nID key = Some (Inr (outs, rewards))"
    and b: "b = pb\<lparr>vtx := add_rewards outs (vtx pb), lottoHeader := CLottoHeader_assign (lottoHeader pb)
      (new_CLottoHeader\<lparr>mBitcoinHash := m, uLottoKey := key, nLottoID := nID, llPool := ?P - sum_list (map out_value outs) + cur\<rparr>)\<rparr>"
    by (auto simp: create_lottery_def Let_def bindE_eq_Inr split: if_splits sum.splits option.splits dest!: out_total_sum)
  have lh: "uLottoKey (lottoHeader b) = key" "nLottoID (lottoHeader b) = nID" 
    "llPool (lottoHeader b) = ?P - sum_list (map out_value outs) + cur" "vtx b = cb\<lparr>vout := vout cb @ outs\<rparr> # txs"
    using pb by (simp_all add: b CLottoHeader_assign_def add_rewards_def)
  have val: "GetLottoValueFromBlock (poolKeyId env) (tip_height env) (vtx b) = Inr cur"
    using cur pb(1,2) GetLottoValueFromBlock_rewards by (simp add: b)
  have rew: "rewards = sum_list (map out_value outs)" by (rule DrawLottery_sum [OF draw])
  have cbr: "coinbase_rewards b = Inr outs" using pb(3) lh(4) by (cases "vout cb") (simp_all add: coinbase_rewards_def)
  show ?thesis
  proof (cases "nHeight idx \<ge> 2 * nIntervalLottery \<and> key \<noteq> 0")
    case True
    have "found" using k True by (auto simp: GetLotteryKey_def Let_def split: if_splits option.splits list.splits)
    then show ?thesis using True val cbr k draw lh rew range
      by (simp add: check_pool_def check_draw_def i64_Inr)
  next
    case False
    then have "DrawLottery env fuel ?P idx [] 0 nID key = Some (Inr ([], 0))" by (intro DrawLottery_none) auto
    with draw have "outs = []" by simp
    then show ?thesis using False val lh pb(3) range miss
      by (auto simp: check_pool_def check_no_draw_def i64_Inr key_missing_def)
  qed
qed

section \<open>A payment to the pool stops the draw\<close>

lemma pool_payment_draw:
  assumes "lottery_block env idx = Inr lb" and "tx \<in> set (tl (vtx lb))" and "vout tx = xs @ b # pool_payment (poolKeyId env) x # ys"
    and "\<not> IsCoinBase tx" and "IsSendPoolAdress (poolKeyId env) (scriptPubKey b)" and "accepted_output b" and "length (poolKeyId env) = 20"
    and "2 * nIntervalLottery \<le> nHeight idx" and "key \<noteq> 0" and "ReadClottoData env nID key = Some tep"
    and "\<forall>h. \<not> list_all (\<lambda>b. b = 0) (Hash (env_sha env) (ser_word (h :: u256) @ tep))"
  shows "DrawLottery env fuel amount idx outs r nID key \<noteq> Some (Inr res)"
proof
  assume d: "DrawLottery env fuel amount idx outs r nID key = Some (Inr res)"
  from d assms(1,8,9) obtain bets h where bets: "collect_bets (poolKeyId env) (tip_height env) (vtx lb) = Inr bets"
    and h: "GetLotteryHash env idx = Inr h" by (auto simp: DrawLottery_def bindE_eq_Inr split: if_splits sum.splits)
  have p: "pool_payment (poolKeyId env) x \<in> set bets" by (rule pool_payment_collected [OF bets assms(2-7)])
  then have "bets \<noteq> []" by auto
  with d assms(1,8-10) bets h obtain c where
    "CLotto_key (env_sha env) fuel (ser_word h) (Some tep) amount bets = Some (Inr c)"
    by (auto simp: DrawLottery_def split: option.splits sum.splits)
  then obtain c1 where "foldE add_bet bets c1 = Inr c" using assms(11)
    by (auto simp: CLotto_key_def Init_def CreateLuckyStarMap_def new_CLotto_def split: option.splits sum.splits if_splits)
  with stray_output_faults [OF pool_payment_type(1) [OF assms(7)] p] show False by blast
qed

text \<open>C36: An output that pays to the key of the pool without a bet keeps the classification of the output before it. Inserted
  directly behind an accepted bet of any valid transaction it leaves the transaction valid and raises its stakes by its
  amount. When the bets of a block with such a transaction are drawn, the constructor of the draw runs into a failed
  assertion: with the key of the draw known and its hash not zero, no block that holds this draw can be created, and none is
  accepted.\<close>

theorem stray_output_breaks_draw:
  assumes "IsTransactionValid (poolKeyId env) tip tx = Inr True" and "GetLottoValueFromTx (poolKeyId env) tip tx = Inr s"
    and "vout tx = xs @ b # ys" and "\<not> IsCoinBase tx"
    and "IsSendPoolAdress (poolKeyId env) (scriptPubKey b)" and "accepted_output b" and "length (poolKeyId env) = 20"
    and "\<forall>v\<in>set (vout tx). 0 \<le> out_value v" and "0 \<le> x" and "s + x < 2 ^ 63"
    and "tx' = tx\<lparr>vout := xs @ b # pool_payment (poolKeyId env) x # ys\<rparr>"
    and "lottery_block env idx = Inr lb" and "tx' \<in> set (tl (vtx lb))" and "2 * nIntervalLottery \<le> nHeight idx"
    and "GetLotteryKey env (nHeight idx) = Inr (True, nID, key)" and "key \<noteq> 0" and "ReadClottoData env nID key = Some tep"
    and "\<forall>h. \<not> list_all (\<lambda>b. b = 0) (Hash (env_sha env) (ser_word (h :: u256) @ tep))"
  shows "IsTransactionValid (poolKeyId env) tip tx' = Inr True
    \<and> GetLottoValueFromTx (poolKeyId env) tip tx' = Inr (s + x)
    \<and> create_lottery env fuel template idx cur \<noteq> Some (Inr (Some created))
    \<and> (CBlockHeader_GetHash (env_Hash9 env) nb \<noteq> HashGenesisBlock env \<and> mapBlockIndex env (hashPrevBlock nb) = Some idx
         \<and> uLottoKey (lottoHeader nb) \<noteq> 0 \<longrightarrow> CheckLottoResult env fuel nb \<noteq> Some (Inr Accept))"
proof (intro conjI impI notI)
  have v: "vout tx' = xs @ b # pool_payment (poolKeyId env) x # ys" "\<not> IsCoinBase tx'" using assms(4,11) by (simp_all add: IsCoinBase_def)
  note draw = pool_payment_draw [OF assms(12,13) v assms(5-7,14,16-18)]
  show "IsTransactionValid (poolKeyId env) tip tx' = Inr True" unfolding assms(11) by (rule pool_payment_valid [OF assms(1,3,5-7)])
  show "GetLottoValueFromTx (poolKeyId env) tip tx' = Inr (s + x)" unfolding assms(11) by (rule pool_payment_value [OF assms(2-10)])
  show False if "create_lottery env fuel template idx cur = Some (Inr (Some created))"
    using that assms(15) draw by (auto simp: create_lottery_def Let_def bindE_eq_Inr split: if_splits sum.splits option.splits)
  assume a: "CBlockHeader_GetHash (env_Hash9 env) nb \<noteq> HashGenesisBlock env \<and> mapBlockIndex env (hashPrevBlock nb) = Some idx
    \<and> uLottoKey (lottoHeader nb) \<noteq> 0" and acc: "CheckLottoResult env fuel nb = Some (Inr Accept)"
  from a have gen: "CBlockHeader_GetHash (env_Hash9 env) nb \<noteq> HashGenesisBlock env" by simp
  obtain idx' pre where "mapBlockIndex env (hashPrevBlock nb) = Some idx'" "check_pool env fuel nb idx' pre = Some (Inr Accept)"
    by (rule CheckLottoResult_Accept [OF acc gen])
  with a assms(14) obtain stakes where "check_draw env fuel nb idx pre stakes = Some (Inr Accept)"
    by (auto simp: check_pool_def split: sum.splits)
  with assms(15) draw show False by (auto simp: check_draw_def bindE_eq_Inr split: if_splits sum.splits option.splits)
qed

section \<open>A fault\<close>

text \<open>The heights of the Bitcoin hashes in a lottery header are chosen by whoever sends the block. A first height far below
  zero makes the check of the header overflow an \<open>int\<close>, before any other rule of the header could reject the block.\<close>

theorem btc_height_overflow:
  assumes "CBlockHeader_GetHash (env_Hash9 env) b \<noteq> HashGenesisBlock env"
    and "mapBlockIndex env (hashPrevBlock b) = Some idx" and "ReadBlockFromDisk env (diskPos idx) = Some pre"
    and "Checkpoints_CheckBlock env (nHeight idx + 1) (CBlockHeader_GetHash (env_Hash9 env) b)"
    and "mBitcoinHash (lottoHeader b) = (h, btc) # m" and "h - GetLastBitcoinHeight (lottoHeader pre) < - (2 ^ 31)"
  shows "CheckLottoResult env fuel b = Some (Inl IntOverflow)"
  using assms
  by (simp add: CheckLottoResult_def Let_def check_btc_start_def GetFirstBitcoinHeight_def i32_def int32_range_def)

section \<open>A concrete chain\<close>

text \<open>126 blocks, each holding the same bet; the block after them draws the bets of block 6.\<close>

definition toy_btc :: "int \<Rightarrow> CBlockIndex option" where
  "toy_btc h = (if h = 308447 \<or> h = 308448 then Some \<lparr>phashBlock = (if h = 308447 then 9 else 10), pprev = None, nHeight = h,
     diskPos = (0, 0), idx_nTime = 0, idx_nBits = 0, idx_lottoHeader = new_CLottoHeader\<rparr> else None)"

definition toy_old_block :: CBlock where
  "toy_old_block = \<lparr>nVersion = 2, hashPrevBlock = 3, hashMerkleRoot = 4, nTime = 5, nBits = 6, nNonce = 7,
     lottoHeader = new_CLottoHeader\<lparr>mBitcoinHash := [(308447, 9)], llPool := 1000000000\<rparr>,
     vtx = [toy_coinbase, toy_bet_tx [toy_bet_out]], vMerkleTree = []\<rparr>"

definition toy_idx :: "u256 \<Rightarrow> CBlockIndex" where
  "toy_idx h = \<lparr>phashBlock = h, pprev = Some (h - 1), nHeight = uint h, diskPos = (0, 0), idx_nTime = 0, idx_nBits = 0,
     idx_lottoHeader = lottoHeader toy_old_block\<rparr>"

definition toy_env :: chain_env where
  "toy_env = \<lparr>mapBlockIndex = (\<lambda>h. if h \<le> 125 then Some (toy_idx h) else None),
     vChain = map (\<lambda>n. toy_idx (word_of_nat n)) [0..<126],
     ReadBlockFromDisk = (\<lambda>_. Some toy_old_block), ReadLotteryKey = (\<lambda>_. Some [5]), ReadClottoData = (\<lambda>_ _. Some [3]),
     GetBitcoinBlockIndex = toy_btc, btc_prev = (\<lambda>h. if h = 10 then toy_btc 308447 else None),
     btc_chain = map (\<lambda>h. the (toy_btc h)) [308448, 308447],
     Checkpoints_CheckBlock = (\<lambda>_ _. True), HashGenesisBlock = 1, poolKeyId = toy_pool, nLottoStep = 0,
     env_sha = toy_sha, env_Hash9 = (\<lambda>_. 77)\<rparr>"

definition toy_template :: CBlock where
  "toy_template = toy_old_block\<lparr>hashPrevBlock := 125, lottoHeader := new_CLottoHeader,
     vtx := [toy_coinbase\<lparr>vout := [\<lparr>out_value = 5, scriptPubKey = []\<rparr>]\<rparr>, toy_bet_tx [toy_bet_out]]\<rparr>"

definition toy_prize :: CTxOut where
  "toy_prize = \<lparr>out_value = 600000, scriptPubKey = pay_to_key toy_pool\<rparr>"

definition toy_created :: CBlock where
  "toy_created = toy_template\<lparr>vtx := [toy_coinbase\<lparr>vout := [\<lparr>out_value = 5, scriptPubKey = []\<rparr>, toy_prize]\<rparr>, toy_bet_tx [toy_bet_out]],
     lottoHeader := new_CLottoHeader\<lparr>mBitcoinHash := [(308448, 10)], uLottoKey := 5, nLottoID := 1, llPool := 1000100001\<rparr>\<rparr>"

lemma toy_idx_simps [simp]: "pprev (toy_idx h) = Some (h - 1)" "nHeight (toy_idx h) = uint h" "diskPos (toy_idx h) = (0, 0)"
  "idx_lottoHeader (toy_idx h) = lottoHeader toy_old_block"
  by (simp_all add: toy_idx_def)

lemma toy_env_simps:
  "mapBlockIndex toy_env h = (if h \<le> 125 then Some (toy_idx h) else None)" "ReadBlockFromDisk toy_env p = Some toy_old_block"
  "ReadLotteryKey toy_env n = Some [5]" "ReadClottoData toy_env n k = Some [3]" "poolKeyId toy_env = toy_pool" "env_sha toy_env = toy_sha"
  "nLottoStep toy_env = 0" "GetBitcoinBlockIndex toy_env = toy_btc" "env_Hash9 toy_env = (\<lambda>_. 77)" "HashGenesisBlock toy_env = 1"
  "Checkpoints_CheckBlock toy_env n h" "btc_prev toy_env h = (if h = 10 then toy_btc 308447 else None)"
  "btc_chain toy_env = map (\<lambda>h. the (toy_btc h)) [308448, 308447]"
  by (simp_all add: toy_env_def)

lemma toy_step_back: "n \<le> unat h \<Longrightarrow> h \<le> 125 \<Longrightarrow> step_back toy_env n (Some (toy_idx h)) = Inr (Some (toy_idx (h - word_of_nat n)))"
proof (induction n arbitrary: h)
  case (Suc n)
  have "1 \<le> h" using Suc.prems(1) by (simp add: word_le_nat_alt)
  then have u: "unat (h - 1) = unat h - 1" by (simp add: unat_sub)
  have "n \<le> unat (h - 1)" and "h - 1 \<le> 125" using Suc.prems u by (simp_all add: word_le_nat_alt)
  then show ?case using Suc.IH by (simp add: toy_env_simps algebra_simps)
qed simp

lemma toy_tip: "tip_height toy_env = 125"
  by (simp add: tip_height_def toy_env_def upt_rec [of 0] last_map)
lemma toy_chain60: "chain_at toy_env 60 = Some (toy_idx 60)"
 by (simp add: chain_at_def toy_env_def)
lemma toy_collect: "collect_bets toy_pool 125 (vtx toy_old_block) = Inr [toy_bet_out]" by code_simp
lemma toy_lb: "lottery_block toy_env (toy_idx 125) = Inr toy_old_block"
  by (simp add: lottery_block_def nIntervalLottery_def toy_step_back toy_env_simps)
lemma toy_lh: "GetLotteryHash toy_env (toy_idx 125) = Inr 9"
  by (simp add: GetLotteryHash_def nIntervalLottery_def trunc_div_def toy_env_simps toy_chain60 toy_old_block_def)

lemma toy_draw_reward: "case CLotto_hash toy_sha 9 [1, 1] 1000000000 [toy_bet_out] of
    Some (Inr c) \<Rightarrow> bindE (GetReWardOutput c [] 0) (\<lambda>(_, outs, r). Inr (outs, r)) = Inr ([toy_prize], 600000) | _ \<Rightarrow> False"
  by code_simp

lemma toy_bitcoin_key: "Hash toy_sha (ser_word (9 :: u256) @ [3]) = [1, 1]"
proof -
  have "length (ser_word (9 :: u256) @ [3]) = 33" by (simp add: ser_word_def ser_uint_def)
  then have "toy_sha (ser_word (9 :: u256) @ [3]) = [0, 1]" by (auto simp: toy_sha_def split: list.splits)
  then show ?thesis by (simp add: Hash_def toy_sha_def)
qed

lemma toy_DrawLottery: "DrawLottery toy_env 9 1000000000 (toy_idx 125) [] 0 1 5 = Some (Inr ([toy_prize], 600000))"
proof -
  from toy_draw_reward obtain c where c: "CLotto_hash toy_sha 9 [1, 1] 1000000000 [toy_bet_out] = Some (Inr c)"
    "bindE (GetReWardOutput c [] 0) (\<lambda>(_, outs, r). Inr (outs, r)) = Inr ([toy_prize], 600000)"
    by (auto split: option.splits sum.splits)
  have "CLotto_key toy_sha 9 (ser_word (9 :: u256)) (Some [3]) 1000000000 [toy_bet_out] = Some (Inr c)"
    using c(1) toy_bitcoin_key by (simp add: CLotto_key_def CLotto_hash_def)
  then show ?thesis using c(2)
    by (simp add: DrawLottery_def nIntervalLottery_def toy_lb toy_lh toy_env_simps toy_tip toy_collect)
qed

lemma toy_key: "GetLotteryKey toy_env 125 = Inr (True, 1, 5)"
  by (simp add: GetLotteryKey_def nIntervalLottery_def trunc_div_def toy_env_simps)

lemma toy_last: "idx_lottoHeader (last (vChain toy_env)) = lottoHeader toy_old_block"
  by (simp add: toy_env_def upt_rec [of 0] last_map)

lemma toy_old_lotto: "lottoHeader toy_old_block = new_CLottoHeader\<lparr>mBitcoinHash := [(308447, 9)], llPool := 1000000000\<rparr>"
  by (simp add: toy_old_block_def)

lemma toy_pool_value: "llPool (lottoHeader toy_old_block) = 1000000000" "uLottoKey (lottoHeader toy_old_block) = 0"
  by (simp_all add: toy_old_lotto new_CLottoHeader_def)

lemma toy_new_btc: "new_btc_hashes toy_env (lottoHeader toy_old_block) = Inr [(308448, 10)]"
  by (simp add: new_btc_hashes_def toy_env_simps toy_btc_def toy_old_lotto GetLastBitcoinHeight_def map_insert_range_def)

lemma toy_create: "create_lottery toy_env 9 toy_template (toy_idx 125) 700001 = Some (Inr (Some toy_created))"
  by (simp add: create_lottery_def toy_env_simps toy_last toy_new_btc toy_key key_missing_def toy_pool_value toy_DrawLottery
    out_total_def int64_range_def toy_prize_def toy_template_def toy_created_def add_rewards_def CLottoHeader_assign_def
    new_CLottoHeader_def map_insert_range_def i64_Inr)

lemma toy_stakes: "GetLottoValueFromBlock toy_pool 125 (vtx toy_template) = Inr 700001"
  by code_simp

lemma toy_stakes_created: "GetLottoValueFromBlock toy_pool 125 (vtx toy_created) = Inr 700001"
  by code_simp

lemma toy_created_simps:
  "uLottoKey (lottoHeader toy_created) = 5" "nLottoID (lottoHeader toy_created) = 1" "llPool (lottoHeader toy_created) = 1000100001"
  "mBitcoinHash (lottoHeader toy_created) = [(308448, 10)]" "hashPrevBlock toy_created = 125" "coinbase_rewards toy_created = Inr [toy_prize]"
  by (simp_all add: toy_created_def toy_template_def coinbase_rewards_def)

lemma toy_check_pool: "check_pool toy_env 9 toy_created (toy_idx 125) toy_old_block = Some (Inr Accept)"
  by (simp add: check_pool_def check_draw_def toy_env_simps toy_tip toy_stakes_created nIntervalLottery_def toy_key toy_pool_value
    toy_DrawLottery toy_created_simps i64_Inr int64_range_def)

lemma toy_genesis: "CBlockHeader_GetHash (env_Hash9 toy_env) b \<noteq> HashGenesisBlock toy_env"
  by (simp add: CBlockHeader_GetHash_def toy_env_simps)

lemma toy_btc_rules: "check_btc_start toy_env (lottoHeader toy_created) (lottoHeader toy_old_block) = Inr Accept"
  "check_btc_loop toy_env (mBitcoinHash (lottoHeader toy_created)) 0 = Accept"
  by (simp_all add: check_btc_start_def GetFirstBitcoinHeight_def GetLastBitcoinHeight_def GetLastBitcoinHash_def toy_created_simps
    toy_old_lotto BTC_START_HIGHT_def toy_env_simps toy_btc_def i32_def int32_range_def)

lemma toy_accepted_block: "CheckLottoResult toy_env 9 toy_created = Some (Inr Accept)"
  using toy_genesis [of toy_created] toy_btc_rules
  by (simp add: CheckLottoResult_def toy_env_simps toy_check_pool toy_created_simps)

theorem accepted_block_conserves_pool_witness:
  "\<exists>idx pre stakes outs. mapBlockIndex toy_env (hashPrevBlock toy_created) = Some idx
    \<and> ReadBlockFromDisk toy_env (diskPos idx) = Some pre
    \<and> GetLottoValueFromBlock (poolKeyId toy_env) (tip_height toy_env) (vtx toy_created) = Inr stakes
    \<and> coinbase_rewards toy_created = Inr outs
    \<and> llPool (lottoHeader toy_created) = llPool (lottoHeader pre) + stakes - sum_list (map out_value outs)"
  by (rule accepted_block_conserves_pool [OF toy_accepted_block toy_genesis])

theorem created_block_passes_check_witness:
  "check_pool toy_env 9 toy_created (toy_idx 125) toy_old_block = Some (Inr Accept)"
proof (rule created_block_passes_check [OF toy_create])
  show "vtx toy_template = [toy_coinbase\<lparr>vout := [\<lparr>out_value = 5, scriptPubKey = []\<rparr>]\<rparr>, toy_bet_tx [toy_bet_out]]"
    by (simp add: toy_template_def)
  show "IsCoinBase (toy_coinbase\<lparr>vout := [\<lparr>out_value = 5, scriptPubKey = []\<rparr>]\<rparr>)" by code_simp
qed (simp_all add: toy_env_simps toy_tip toy_stakes toy_pool_value int64_range_def)

text \<open>The chain in which the bet of the drawn block is followed by a payment of 50 to the pool.\<close>

definition toy_stray_tx :: CTransaction where
  "toy_stray_tx = toy_bet_tx [toy_bet_out, pool_payment toy_pool 50]"

definition toy_stray_env :: chain_env where
  "toy_stray_env = toy_env\<lparr>ReadBlockFromDisk := (\<lambda>_. Some (toy_old_block\<lparr>vtx := [toy_coinbase, toy_stray_tx]\<rparr>)),
     env_sha := (\<lambda>_. replicate 32 1)\<rparr>"

lemma toy_stray_env_simps:
  "poolKeyId toy_stray_env = toy_pool" "env_sha toy_stray_env = (\<lambda>_. replicate 32 1)" "ReadClottoData toy_stray_env n k = Some [3]"
  "mapBlockIndex toy_stray_env = mapBlockIndex toy_env" "GetLotteryKey toy_stray_env = GetLotteryKey toy_env"
  "CBlockHeader_GetHash (env_Hash9 toy_stray_env) b \<noteq> HashGenesisBlock toy_stray_env"
  "ReadBlockFromDisk toy_stray_env p = Some (toy_old_block\<lparr>vtx := [toy_coinbase, toy_stray_tx]\<rparr>)"
  using toy_genesis [of b] by (simp_all add: toy_stray_env_def toy_env_simps fun_eq_iff) (simp add: GetLotteryKey_def Let_def)

lemma toy_stray_block: "lottery_block toy_stray_env (toy_idx 125) = Inr (toy_old_block\<lparr>vtx := [toy_coinbase, toy_stray_tx]\<rparr>)"
proof -
  have "step_back toy_stray_env n p = step_back toy_env n p" for n p
    by (induction n arbitrary: p) (simp_all add: toy_stray_env_simps split: option.splits)
  then show ?thesis by (simp add: lottery_block_def nIntervalLottery_def toy_step_back toy_stray_env_simps)
qed

theorem stray_output_breaks_draw_witness:
  "IsTransactionValid toy_pool 5000 toy_stray_tx = Inr True \<and> GetLottoValueFromTx toy_pool 5000 toy_stray_tx = Inr 700051
    \<and> create_lottery toy_stray_env 9 toy_template (toy_idx 125) 700001 \<noteq> Some (Inr (Some toy_created))
    \<and> CheckLottoResult toy_stray_env 9 toy_created \<noteq> Some (Inr Accept)"
proof -
  let ?H = "\<forall>h. \<not> list_all (\<lambda>b. b = 0) (Hash (env_sha toy_stray_env) (ser_word (h :: u256) @ [3]))"
  have hash: ?H by (simp add: toy_stray_env_simps Hash_def list_all_iff)
  have tx: "toy_stray_tx = toy_bet_tx [toy_bet_out]\<lparr>vout := [] @ toy_bet_out # pool_payment toy_pool 50 # []\<rparr>"
    by (simp add: toy_stray_tx_def toy_bet_tx_def)
  have "IsTransactionValid (poolKeyId toy_stray_env) 5000 toy_stray_tx = Inr True
    \<and> GetLottoValueFromTx (poolKeyId toy_stray_env) 5000 toy_stray_tx = Inr (700001 + 50)
    \<and> create_lottery toy_stray_env 9 toy_template (toy_idx 125) 700001 \<noteq> Some (Inr (Some toy_created))
    \<and> (CBlockHeader_GetHash (env_Hash9 toy_stray_env) toy_created \<noteq> HashGenesisBlock toy_stray_env
         \<and> mapBlockIndex toy_stray_env (hashPrevBlock toy_created) = Some (toy_idx 125)
         \<and> uLottoKey (lottoHeader toy_created) \<noteq> 0 \<longrightarrow> CheckLottoResult toy_stray_env 9 toy_created \<noteq> Some (Inr Accept))"
    by (rule stray_output_breaks_draw [where tx = "toy_bet_tx [toy_bet_out]" and xs = "[]" and ys = "[]" and b = toy_bet_out
        and lb = "toy_old_block\<lparr>vtx := [toy_coinbase, toy_stray_tx]\<rparr>" and nID = 1 and key = 5 and tep = "[3]"])
      (use hash toy_bet_tx_facts tx in \<open>simp_all add: toy_stray_env_simps toy_stray_block toy_key nIntervalLottery_def
         toy_bet_tx_def toy_bet_out_def toy_pool_def\<close>)
  then show ?thesis by (simp add: toy_stray_env_simps toy_env_simps toy_created_simps)
qed

definition toy_low_block :: CBlock where
  "toy_low_block = toy_created\<lparr>lottoHeader := new_CLottoHeader\<lparr>mBitcoinHash := [(- (2 ^ 31), 10)]\<rparr>\<rparr>"

theorem btc_height_overflow_witness: "CheckLottoResult toy_env 9 toy_low_block = Some (Inl IntOverflow)"
proof (rule btc_height_overflow [OF toy_genesis])
  show "mapBlockIndex toy_env (hashPrevBlock toy_low_block) = Some (toy_idx 125)"
    by (simp add: toy_low_block_def toy_created_simps toy_env_simps)
  show "ReadBlockFromDisk toy_env (diskPos (toy_idx 125)) = Some toy_old_block" by (simp add: toy_env_simps)
  show "mBitcoinHash (lottoHeader toy_low_block) = (- (2 ^ 31), 10) # []" by (simp add: toy_low_block_def)
qed (simp_all add: toy_env_simps toy_old_lotto GetLastBitcoinHeight_def)

end
