(* ===== verification/Chain_Work.thy ===== *)
theory Chain_Work
  imports Chain_Index
begin

text \<open>
  Proof of work: the compact form of a target (\<open>CBigNum::SetCompact\<close> and \<open>GetCompact\<close> of \<open>bignum.h\<close>), the check of a block hash
  against it (\<open>CheckProofOfWork\<close> of \<open>main.cpp\<close>) and the target of the next block (\<open>DarkGravityWave3\<close>, \<open>GetNextWorkRequired\<close>).

  A \<open>CBigNum\<close> is an integer; OpenSSL's division truncates. The compact form rounds a target down by less than one part in
  \<open>2 ^ 15\<close>. The target of the next block stays between a third and three times the range of the targets of the
  last 24 blocks and below the limit of the network.
\<close>

section \<open>Compact form\<close>

fun BN_num_bytes :: "nat \<Rightarrow> nat" where
  "BN_num_bytes n = (if n = 0 then 0 else Suc (BN_num_bytes (n div 256)))"

declare BN_num_bytes.simps [simp del]

lemma BN_num_bytes_0 [simp]: "BN_num_bytes 0 = 0" "BN_num_bytes n = 0 \<longleftrightarrow> n = 0"
  by (simp_all add: BN_num_bytes.simps [of 0] BN_num_bytes.simps [of n])

definition SetCompact :: "u32 \<Rightarrow> int" where
  "SetCompact nCompact =
     (let nSize = unat (drop_bit 24 nCompact);
          fNegative = (nCompact AND 0x00800000 \<noteq> 0);
          nWord = unat (nCompact AND 0x007fffff);
          v = (if nSize \<le> 3 then drop_bit (8 * (3 - nSize)) nWord else push_bit (8 * (nSize - 3)) nWord)
      in if fNegative then - int v else int v)"

definition GetCompact :: "int \<Rightarrow> u32" where
  "GetCompact n =
     (let a = nat \<bar>n\<bar>;
          nSize = BN_num_bytes a;
          nCompact = (if nSize \<le> 3 then word_of_nat (push_bit (8 * (3 - nSize)) a) else word_of_nat (drop_bit (8 * (nSize - 3)) a)) :: u32;
          (nCompact, nSize) = (if nCompact AND 0x00800000 \<noteq> 0 then (drop_bit 8 nCompact, Suc nSize) else (nCompact, nSize))
      in (nCompact OR push_bit 24 (word_of_nat nSize)) OR (if n < 0 then 0x00800000 else 0))"

text \<open>\<open>getuint256\<close> keeps the low 256 bits of the absolute value.\<close>

definition getuint256 :: "int \<Rightarrow> u256" where
  "getuint256 n = word_of_nat (nat \<bar>n\<bar>)"

definition CheckProofOfWork :: "int \<Rightarrow> u256 \<Rightarrow> u32 \<Rightarrow> bool" where
  "CheckProofOfWork bnLimit hash bits =
     (let bnTarget = SetCompact bits in
      if bnTarget \<le> 0 \<or> bnTarget > bnLimit then False
      else \<not> hash > getuint256 bnTarget)"

section \<open>The next target\<close>

definition nTargetSpacing :: int where "nTargetSpacing = 150"

record dgw_state =
  dgw_nActualTimespan :: int
  LastBlockTime :: int
  CountBlocks :: int
  PastDifficultyAverage :: int
  PastDifficultyAveragePrev :: int

definition dgw_step :: "CBlockIndex \<Rightarrow> dgw_state \<Rightarrow> dgw_state" where
  "dgw_step BlockReading s =
     (let n = CountBlocks s + 1;
          t = SetCompact (idx_nBits BlockReading);
          avg = (if n \<le> 24
                 then (if n = 1 then t else trunc_div (PastDifficultyAveragePrev s * n + t) (n + 1))
                 else PastDifficultyAverage s);
          prev = (if n \<le> 24 then avg else PastDifficultyAveragePrev s);
          span = (if LastBlockTime s > 0 then dgw_nActualTimespan s + (LastBlockTime s - GetBlockTime BlockReading)
                  else dgw_nActualTimespan s)
      in \<lparr>dgw_nActualTimespan = span, LastBlockTime = GetBlockTime BlockReading, CountBlocks = n,
          PastDifficultyAverage = avg, PastDifficultyAveragePrev = prev\<rparr>)"

text \<open>The first argument counts the rounds up to \<open>PastBlocksMax\<close> that are left.\<close>

fun dgw_loop :: "nat \<Rightarrow> (u256 \<Rightarrow> CBlockIndex option) \<Rightarrow> CBlockIndex option \<Rightarrow> dgw_state \<Rightarrow> dgw_state" where
  "dgw_loop 0 blocks BlockReading s = s"
| "dgw_loop (Suc left) blocks BlockReading s = (case BlockReading of
     None \<Rightarrow> s
   | Some b \<Rightarrow> if nHeight b > 0 then dgw_loop left blocks (prev_index blocks b) (dgw_step b s) else s)"

definition dgw_clamp :: "int \<Rightarrow> int \<Rightarrow> int" where
  "dgw_clamp nTargetTimespan a =
     (let a = (if a < trunc_div nTargetTimespan 3 then trunc_div nTargetTimespan 3 else a)
      in if a > nTargetTimespan * 3 then nTargetTimespan * 3 else a)"

definition dgw_retarget :: "int \<Rightarrow> dgw_state \<Rightarrow> int" where
  "dgw_retarget bnLimit s =
     (let nTargetTimespan = CountBlocks s * nTargetSpacing;
          bnNew = trunc_div (PastDifficultyAverage s * dgw_clamp nTargetTimespan (dgw_nActualTimespan s)) nTargetTimespan
      in if bnNew > bnLimit then bnLimit else bnNew)"

definition DarkGravityWave3 :: "int \<Rightarrow> (u256 \<Rightarrow> CBlockIndex option) \<Rightarrow> CBlockIndex option \<Rightarrow> u32" where
  "DarkGravityWave3 bnLimit blocks pindexLast =
     (case pindexLast of
        None \<Rightarrow> GetCompact bnLimit
      | Some idx \<Rightarrow>
          if nHeight idx = 0 \<or> nHeight idx < 24 then GetCompact bnLimit
          else GetCompact (dgw_retarget bnLimit (dgw_loop 24 blocks (Some idx)
            \<lparr>dgw_nActualTimespan = 0, LastBlockTime = 0, CountBlocks = 0, PastDifficultyAverage = 0, PastDifficultyAveragePrev = 0\<rparr>)))"

text \<open>\<open>debugdiffculty\<close> is the command line option of that name.\<close>

definition GetNextWorkRequired :: "int \<Rightarrow> bool \<Rightarrow> (u256 \<Rightarrow> CBlockIndex option) \<Rightarrow> CBlockIndex option \<Rightarrow> u32" where
  "GetNextWorkRequired bnLimit debugdiffculty blocks pindexLast =
     (if \<not> debugdiffculty then GetCompact bnLimit else DarkGravityWave3 bnLimit blocks pindexLast)"


section \<open>Rounding of the compact form\<close>

lemma num_bytes_bounds: "n < 256 ^ BN_num_bytes n \<and> (n \<noteq> 0 \<longrightarrow> 256 ^ (BN_num_bytes n - 1) \<le> n)"
proof (induction n rule: BN_num_bytes.induct)
  case (1 n)
  show ?case
  proof (cases "n = 0")
    case False
    with 1 have IH: "n div 256 < 256 ^ BN_num_bytes (n div 256)" "n div 256 \<noteq> 0 \<longrightarrow> 256 ^ (BN_num_bytes (n div 256) - 1) \<le> n div 256" by auto
    have b: "BN_num_bytes n = Suc (BN_num_bytes (n div 256))" using False by (simp add: BN_num_bytes.simps [of n])
    have "n < 256 * 256 ^ BN_num_bytes (n div 256)" using IH(1) by (simp add: div_less_iff_less_mult mult.commute)
    moreover have "256 ^ BN_num_bytes (n div 256) \<le> n"
    proof (cases "n div 256 = 0")
      case True
      then show ?thesis using False by simp
    next
      case F: False
      then have "BN_num_bytes (n div 256) = Suc (BN_num_bytes (n div 256) - 1)" by (metis BN_num_bytes_0(2) Suc_pred' not_gr0)
      then have "(256::nat) ^ BN_num_bytes (n div 256) = 256 ^ (BN_num_bytes (n div 256) - 1) * 256" by (metis power_Suc2)
      also have "\<dots> \<le> n div 256 * 256" using IH(2) F by simp
      finally show ?thesis by simp
    qed
    ultimately show ?thesis by (simp add: b)
  qed simp
qed

definition compact_parts :: "nat \<Rightarrow> nat \<times> nat" where
  "compact_parts a =
     (let s = BN_num_bytes a; m = (if s \<le> 3 then a * 256 ^ (3 - s) else a div 256 ^ (s - 3))
      in if m \<ge> 2 ^ 23 then (m div 256, Suc s) else (m, s))"

lemma pow256: "(2::nat) ^ (8 * k) = 256 ^ k" by (simp add: power_mult)

lemma bit_unat_odd: "bit (w :: u32) k \<longleftrightarrow> odd (unat w div 2 ^ k)"
  using bit_iff_odd [of "unat w" k] by (simp add: bit_unsigned_iff)

lemma unat_div_mod: "unat (drop_bit k (w :: u32)) = unat w div 2 ^ k" "unat (take_bit k w) = unat w mod 2 ^ k"
  by (simp_all only: unat_drop_bit_eq unsigned_take_bit_eq drop_bit_eq_div [of k "unat w"] take_bit_eq_mod [of k "unat w"])

lemma SetCompact_parts:
  assumes u: "unat (w :: u32) = m + e * 2 ^ 24" and "m < 2 ^ 23"
  shows "SetCompact w = int (if e \<le> 3 then m div 256 ^ (3 - e) else m * 256 ^ (e - 3))"
proof -
  have 1: "unat (drop_bit 24 w) = e" unfolding unat_div_mod u using assms(2) by simp
  have "(m + e * 2 ^ 24) div 2 ^ 23 = e * 2" using assms(2) div_mult_self3 [of "2 ^ 23" "e * 2" m] by (simp add: mult.commute)
  then have 2: "\<not> bit w 23" unfolding bit_unat_odd u by simp
  have "w AND 0x007fffff = take_bit 23 w" by (simp add: take_bit_eq_mask mask_numeral)
  moreover have "(m + e * 2 ^ 24) mod 2 ^ 23 = m" using assms(2) mod_mult_self1 [of m "e * 2" "2 ^ 23"] by (simp add: mult.commute)
  ultimately have 3: "unat (w AND 0x007fffff) = m" by (simp only: unat_div_mod u)
  have 4: "w AND 0x00800000 = 0" using 2 and_exp_eq_0_iff_not_bit [of w 23] by simp
  show ?thesis unfolding SetCompact_def Let_def 1 3 4 by (simp add: drop_bit_eq_div push_bit_eq_mult pow256)
qed

lemma mantissa_bounds:
  assumes "s = BN_num_bytes a" and "m = (if s \<le> 3 then a * 256 ^ (3 - s) else a div 256 ^ (s - 3))"
  shows "m < 2 ^ 24" and "a \<noteq> 0 \<Longrightarrow> 2 ^ 16 \<le> m"
proof -
  note b = num_bytes_bounds [of a, folded assms(1)]
  have d: "256 ^ s = 256 ^ (s - 3) * (256 ^ 3 :: nat)" if "\<not> s \<le> 3" using that power_add [of "256::nat" "s - 3" 3] by simp
  have e: "256 ^ s * 256 ^ (3 - s) = (256 ^ 3 :: nat)" if "s \<le> 3" using that by (simp flip: power_add)
  show "m < 2 ^ 24"
  proof (cases "s \<le> 3")
    case True
    then have "a * 256 ^ (3 - s) < 256 ^ s * 256 ^ (3 - s)" using b by simp
    then show ?thesis using True assms(2) e by simp
  next
    case False
    then show ?thesis using b assms(2) d by (simp add: div_less_iff_less_mult mult.commute)
  qed
  show "2 ^ 16 \<le> m" if "a \<noteq> 0"
  proof (cases "s \<le> 3")
    case True
    have "s \<noteq> 0" using that assms(1) by simp
    with True have "256 ^ (s - 1) * 256 ^ (3 - s) = (256 ^ 2 :: nat)" by (simp flip: power_add)
    moreover have "256 ^ (s - 1) * 256 ^ (3 - s) \<le> a * 256 ^ (3 - s)" using b that by simp
    ultimately show ?thesis using True assms(2) by simp
  next
    case False
    then have "256 ^ (s - 1) = 256 ^ (s - 3) * (256 ^ 2 :: nat)" 
      by (subst power_add [symmetric]) (rule arg_cong [of _ _ "power 256"], simp)
    with b that have "256 ^ 2 * 256 ^ (s - 3) \<le> a" by (simp add: mult.commute)
    then show ?thesis using False assms(2) by (simp add: less_eq_div_iff_mult_less_eq)
  qed
qed

lemma GetCompact_parts:
  assumes "BN_num_bytes a \<le> 254" and "compact_parts a = (m, e)"
  shows "unat (GetCompact (int a)) = m + e * 2 ^ 24" and "m < 2 ^ 23" and "e \<le> 255"
proof -
  define s where "s = BN_num_bytes a"
  define m0 where "m0 = (if s \<le> 3 then a * 256 ^ (3 - s) else a div 256 ^ (s - 3))"
  note b = mantissa_bounds [OF s_def m0_def]
  define w where "w = (word_of_nat m0 :: u32)"
  have w: "unat w = m0" using b(1) by (simp add: w_def unat_of_nat)
  have wd: "(if s \<le> 3 then word_of_nat (push_bit (8 * (3 - s)) a) else word_of_nat (drop_bit (8 * (s - 3)) a)) = w"
    by (simp add: w_def m0_def push_bit_eq_mult drop_bit_eq_div pow256)
  have bit: "w AND 0x00800000 \<noteq> 0 \<longleftrightarrow> m0 \<ge> 2 ^ 23"
  proof -
    have "w AND 0x00800000 \<noteq> 0 \<longleftrightarrow> bit w 23" using and_exp_eq_0_iff_not_bit [of w 23] by simp
    also have "\<dots> \<longleftrightarrow> odd (m0 div 2 ^ 23)" by (simp only: bit_unat_odd w)
    also have "\<dots> \<longleftrightarrow> m0 div 2 ^ 23 = 1" using b(1) less_mult_imp_div_less [of m0 2 "2 ^ 23"] by (auto simp: less_2_cases_iff)
    also have "\<dots> \<longleftrightarrow> m0 \<ge> 2 ^ 23" using b(1) by (auto simp: div_nat_eqI elim: contrapos_pp)
    finally show ?thesis .
  qed
  have parts: "(m, e) = (if m0 \<ge> 2 ^ 23 then (m0 div 256, Suc s) else (m0, s))"
    using assms(2) unfolding compact_parts_def Let_def s_def [symmetric] m0_def [symmetric] by simp
  then show m: "m < 2 ^ 23" and e: "e \<le> 255" using b(1) assms(1) by (auto simp: s_def split: if_splits)
  define v where "v = (if w AND 0x00800000 \<noteq> 0 then drop_bit 8 w else w)"
  have v: "unat v = m"
  proof (cases "m0 \<ge> 2 ^ 23")
    case True
    then have "v = drop_bit 8 w" "m = m0 div 2 ^ 8" using parts bit by (simp_all add: v_def)
    then show ?thesis by (simp only: unat_div_mod w)
  next
    case False
    then show ?thesis using parts bit w by (simp add: v_def)
  qed
  have "GetCompact (int a) = v OR push_bit 24 (word_of_nat e)"
    unfolding GetCompact_def Let_def abs_of_nat nat_int s_def [symmetric] wd using parts bit by (auto simp: v_def split: if_splits)
  moreover have "unat (word_of_nat e :: u32) = e" using e by (simp add: unat_of_nat)
  then have "unat (push_bit 24 (word_of_nat e :: u32)) = e * 2 ^ 24" using e
    by (simp only: unsigned_push_bit_eq push_bit_eq_mult [of 24 e] take_bit_eq_mod) simp
  moreover have "m AND push_bit 24 e = 0"
  proof -
    have "n < 24" if "bit m n" for n using that m bit_take_bit_iff [of 24 m n] by (simp add: take_bit_nat_eq_self)
    then show ?thesis by (force intro!: bit_eqI simp: bit_and_iff bit_push_bit_iff)
  qed
  ultimately show "unat (GetCompact (int a)) = m + e * 2 ^ 24"
    by (simp only: unsigned_or_eq v push_bit_eq_mult [of 24 e, symmetric] disjunctive_add_eq_or)
qed

lemma compact_value:
  assumes "BN_num_bytes a \<le> 254" and "compact_parts a = (m, e)"
  shows "SetCompact (GetCompact (int a)) = int (a div 256 ^ (e - 3) * 256 ^ (e - 3))"
    and "e > 3 \<Longrightarrow> 2 ^ 15 * 256 ^ (e - 3) \<le> a"
proof -
  define s where "s = BN_num_bytes a"
  define m0 where "m0 = (if s \<le> 3 then a * 256 ^ (3 - s) else a div 256 ^ (s - 3))"
  note b = mantissa_bounds [OF s_def m0_def]
  have parts: "(m, e) = (if m0 \<ge> 2 ^ 23 then (m0 div 256, Suc s) else (m0, s))"
    using assms(2) unfolding compact_parts_def Let_def s_def [symmetric] m0_def [symmetric] by simp
  have val: "(if e \<le> 3 then m div 256 ^ (3 - e) else m * 256 ^ (e - 3)) = a div 256 ^ (e - 3) * 256 ^ (e - 3)"
  proof (cases "m0 \<ge> 2 ^ 23")
    case True
    then have me: "m = m0 div 256" "e = Suc s" using parts by auto
    consider "s \<le> 2" | "s = 3" | "s > 3" by linarith
    then show ?thesis
    proof cases
      case 1
      then have "3 - s = Suc (2 - s)" by simp
      then have "m0 = a * 256 ^ (2 - s) * 256" using 1 by (simp add: m0_def)
      then show ?thesis using 1 by (simp add: me)
    next
      case 3
      then have "e - 3 = Suc (s - 3)" by (simp add: me)
      then have "a div 256 ^ (e - 3) = m0 div 256" using 3 by (simp only: power_Suc2 div_mult2_eq m0_def) simp
      then show ?thesis using 3 by (simp add: me)
    qed (simp add: me m0_def)
  next
    case False
    then show ?thesis using parts by (auto simp: m0_def)
  qed
  show "SetCompact (GetCompact (int a)) = int (a div 256 ^ (e - 3) * 256 ^ (e - 3))"
    by (simp only: SetCompact_parts [OF GetCompact_parts(1,2) [OF assms]] val)
  show "2 ^ 15 * 256 ^ (e - 3) \<le> a" if "e > 3"
  proof -
    have "a \<noteq> 0" using that parts by (cases "a = 0") (auto simp: s_def m0_def)
    with b(2) have "2 ^ 15 \<le> m" using parts by (auto split: if_splits)
    then have "2 ^ 15 * 256 ^ (e - 3) \<le> m * 256 ^ (e - 3)" by (rule mult_le_mono1)
    also have "\<dots> = a div 256 ^ (e - 3) * 256 ^ (e - 3)" using val that by simp
    finally show ?thesis using div_times_less_eq_dividend order_trans by blast
  qed
qed

lemma num_bytes_256:
  assumes "a < 2 ^ 256"
  shows "BN_num_bytes a \<le> 32"
proof (cases "a = 0")
  case False
  then have "(256::nat) ^ (BN_num_bytes a - 1) < 256 ^ 32" using num_bytes_bounds [of a] assms by simp
  from power_less_imp_less_exp [OF _ this] have "BN_num_bytes a - 1 < 32" by simp
  then show ?thesis by simp
qed simp

lemma compact_rounds:
  assumes "0 \<le> n" and "n < 2 ^ 256"
  shows "0 \<le> SetCompact (GetCompact n)" and "SetCompact (GetCompact n) \<le> n" and "2 ^ 15 * (n - SetCompact (GetCompact n)) \<le> n"
proof -
  obtain a where a: "n = int a" using assms(1) nonneg_int_cases by blast
  obtain m e where me: "compact_parts a = (m, e)" by (cases "compact_parts a")
  have "a < 2 ^ 256" using assms(2) by (simp add: a)
  then have b: "BN_num_bytes a \<le> 254" using num_bytes_256 by fastforce
  let ?k = "256 ^ (e - 3) :: nat"
  note v = compact_value [OF b me]
  show "0 \<le> SetCompact (GetCompact n)" and "SetCompact (GetCompact n) \<le> n" by (simp_all add: a v(1) flip: of_nat_mult)
  have "a - a div ?k * ?k = a mod ?k" by (simp add: minus_div_mult_eq_mod)
  then have "int a - int (a div ?k * ?k) = int (a mod ?k)" by (metis div_times_less_eq_dividend of_nat_diff)
  then have d: "n - SetCompact (GetCompact n) = int (a mod ?k)" unfolding a v(1) .
  have "2 ^ 15 * (a mod ?k) \<le> a"
  proof (cases "e > 3")
    case True
    have "2 ^ 15 * (a mod ?k) \<le> 2 ^ 15 * ?k" by (intro mult_le_mono2 less_imp_le mod_less_divisor) simp
    with v(2) [OF True] show ?thesis by linarith
  qed simp
  then have "int (2 ^ 15 * (a mod ?k)) \<le> int a" by (rule of_nat_mono)
  then show "2 ^ 15 * (n - SetCompact (GetCompact n)) \<le> n" unfolding d by (simp add: a)
qed

section \<open>Bounds of the next target\<close>

fun dgw_blocks :: "nat \<Rightarrow> (u256 \<Rightarrow> CBlockIndex option) \<Rightarrow> CBlockIndex option \<Rightarrow> CBlockIndex list" where
  "dgw_blocks 0 blocks p = []"
| "dgw_blocks (Suc n) blocks p = (case p of None \<Rightarrow> [] | Some b \<Rightarrow> if nHeight b > 0 then b # dgw_blocks n blocks (prev_index blocks b) else [])"

lemma dgw_loop_fold: "dgw_loop n blocks p s = fold dgw_step (dgw_blocks n blocks p) s"
  by (induction n blocks p s rule: dgw_loop.induct) (auto split: option.splits)

lemma length_dgw_blocks: "length (dgw_blocks n blocks p) \<le> n"
  by (induction n blocks p rule: dgw_blocks.induct) (auto split: option.splits)

lemma weighted_mean:
  assumes "lo \<le> (x::int)" "x \<le> hi" "lo \<le> t" "t \<le> hi" "1 \<le> n"
  shows "lo \<le> (x * n + t) div (n + 1)" "(x * n + t) div (n + 1) \<le> hi"
proof -
  have "lo * n \<le> x * n" "x * n \<le> hi * n" using assms by (simp_all add: mult_right_mono)
  then have "lo * (n + 1) \<le> x * n + t" "x * n + t \<le> hi * (n + 1)" using assms(3,4) unfolding distrib_left by linarith+
  then show "lo \<le> (x * n + t) div (n + 1)" "(x * n + t) div (n + 1) \<le> hi"
    using assms(5) zdiv_mono1 [of "x * n + t" "hi * (n + 1)" "n + 1"] zdiv_mono1 [of "lo * (n + 1)" "x * n + t" "n + 1"] by simp_all
qed

definition dgw_mean_ok :: "int \<Rightarrow> int \<Rightarrow> dgw_state \<Rightarrow> bool" where
  "dgw_mean_ok lo hi s \<longleftrightarrow> PastDifficultyAveragePrev s = PastDifficultyAverage s
     \<and> (CountBlocks s > 0 \<longrightarrow> lo \<le> PastDifficultyAverage s \<and> PastDifficultyAverage s \<le> hi)"

lemma dgw_step_mean:
  assumes "dgw_mean_ok lo hi s" "0 \<le> lo" "lo \<le> SetCompact (idx_nBits b)" "SetCompact (idx_nBits b) \<le> hi" "0 \<le> CountBlocks s" "CountBlocks s < 24"
  shows "dgw_mean_ok lo hi (dgw_step b s)" "CountBlocks (dgw_step b s) = CountBlocks s + 1"
proof -
  let ?n = "CountBlocks s + 1" and ?t = "SetCompact (idx_nBits b)"
  show "CountBlocks (dgw_step b s) = CountBlocks s + 1" by (simp add: dgw_step_def Let_def)
  show "dgw_mean_ok lo hi (dgw_step b s)"
  proof (cases "CountBlocks s = 0")
    case True
    with assms show ?thesis by (simp add: dgw_mean_ok_def dgw_step_def Let_def)
  next
    case False
    with assms(1,5) have m: "lo \<le> PastDifficultyAveragePrev s" "PastDifficultyAveragePrev s \<le> hi" by (simp_all add: dgw_mean_ok_def)
    have "0 \<le> PastDifficultyAveragePrev s * ?n + ?t" using m assms by simp
    with weighted_mean [OF m assms(3,4), of ?n] False assms(5,6) show ?thesis
      by (simp add: dgw_mean_ok_def dgw_step_def Let_def trunc_div_nonneg)
  qed
qed

lemma dgw_fold_mean:
  assumes "dgw_mean_ok lo hi s" "0 \<le> lo" "0 \<le> CountBlocks s" "CountBlocks s + int (length bs) \<le> 24"
    and "\<forall>b\<in>set bs. lo \<le> SetCompact (idx_nBits b) \<and> SetCompact (idx_nBits b) \<le> hi"
  shows "dgw_mean_ok lo hi (fold dgw_step bs s) \<and> CountBlocks (fold dgw_step bs s) = CountBlocks s + int (length bs)"
  using assms
proof (induction bs arbitrary: s)
  case (Cons b bs)
  from Cons.prems dgw_step_mean [of lo hi s b] have "dgw_mean_ok lo hi (dgw_step b s)" "CountBlocks (dgw_step b s) = CountBlocks s + 1" by auto
  with Cons.IH [of "dgw_step b s"] Cons.prems show ?case by simp
qed simp

lemma dgw_clamp_bounds:
  assumes "0 < c"
  shows "c * 50 \<le> dgw_clamp (c * nTargetSpacing) a" "dgw_clamp (c * nTargetSpacing) a \<le> c * 450"
    "c * 50 \<le> a \<Longrightarrow> a \<le> c * 450 \<Longrightarrow> dgw_clamp (c * nTargetSpacing) a = a"
  using assms by (simp_all add: dgw_clamp_def nTargetSpacing_def trunc_div_nonneg Let_def)

lemma dgw_retarget_eq:
  assumes "0 < CountBlocks s" "0 \<le> PastDifficultyAverage s"
  shows "dgw_retarget bnLimit s = min bnLimit
    (PastDifficultyAverage s * dgw_clamp (CountBlocks s * nTargetSpacing) (dgw_nActualTimespan s) div (CountBlocks s * 150))"
proof -
  let ?c = "CountBlocks s * nTargetSpacing"
  have "0 \<le> dgw_clamp ?c (dgw_nActualTimespan s)" using dgw_clamp_bounds(1) [OF assms(1), of "dgw_nActualTimespan s"] assms(1) by linarith
  then have "trunc_div (PastDifficultyAverage s * dgw_clamp ?c (dgw_nActualTimespan s)) ?c
      = PastDifficultyAverage s * dgw_clamp ?c (dgw_nActualTimespan s) div ?c"
    using assms by (intro trunc_div_nonneg) (simp_all add: nTargetSpacing_def)
  then show ?thesis by (simp add: dgw_retarget_def Let_def min_def nTargetSpacing_def)
qed

lemma dgw_retarget_bounds:
  assumes "0 < CountBlocks s" "0 \<le> lo" "lo \<le> PastDifficultyAverage s" "PastDifficultyAverage s \<le> hi"
  shows "min bnLimit (lo div 3) \<le> dgw_retarget bnLimit s" "dgw_retarget bnLimit s \<le> min bnLimit (3 * hi)"
proof -
  define c where "c = CountBlocks s"
  define p where "p = PastDifficultyAverage s"
  define a where "a = dgw_clamp (c * nTargetSpacing) (dgw_nActualTimespan s)"
  have c: "0 < c" and p: "0 \<le> p" using assms by (simp_all add: c_def p_def)
  have a: "c * 50 \<le> a" "a \<le> c * 450" using dgw_clamp_bounds [OF c] by (simp_all add: a_def)
  have r: "dgw_retarget bnLimit s = min bnLimit (p * a div (c * 150))"
    using dgw_retarget_eq [of s] c p by (simp add: c_def p_def a_def)
  have "p * (c * 50) \<le> p * a" "p * a \<le> p * (c * 450)" using a p by (simp_all add: mult_left_mono)
  then have "p * (c * 50) div (c * 150) \<le> p * a div (c * 150)" "p * a div (c * 150) \<le> p * (c * 450) div (c * 150)"
    using c by (intro zdiv_mono1; simp)+
  moreover have "p * (c * 50) div (c * 150) = p div 3" using c div_mult_mult1 [of "c * 50" p 3] by (simp add: mult.commute mult.left_commute)
  moreover have "p * (c * 450) div (c * 150) = 3 * p" using c div_mult_mult1 [of "c * 150" "3 * p" 1] by (simp add: mult.commute mult.left_commute)
  moreover have "lo div 3 \<le> p div 3" using assms(3) by (simp add: p_def zdiv_mono1)
  moreover have "p \<le> hi" using assms(4) by (simp add: p_def)
  ultimately have "lo div 3 \<le> p * a div (c * 150)" "p * a div (c * 150) \<le> 3 * hi" by linarith+
  then show "min bnLimit (lo div 3) \<le> dgw_retarget bnLimit s" "dgw_retarget bnLimit s \<le> min bnLimit (3 * hi)"
    unfolding r by (simp_all only: min.mono order_refl)
qed

lemma uint_getuint256:
  assumes "0 \<le> n" "n < 2 ^ 256"
  shows "uint (getuint256 n) = n"
proof -
  have "nat n < 2 ^ 256" using assms by (simp add: nat_less_iff)
  then have "unat (word_of_nat (nat n) :: u256) = nat n" by (simp add: unat_of_nat)
  then show ?thesis using assms(1) by (simp add: getuint256_def uint_nat)
qed

text \<open>C29: The target that the next block has to meet is a third of the smallest to three times the largest target of the last 24
  blocks, cut off at the limit of the network and rounded down to the compact form by less than one part in 32768. So it is
  positive, passes the range check of \<open>CheckProofOfWork\<close>, and exactly the hashes up to it are accepted.\<close>

theorem next_target_bounds:
  assumes "24 \<le> nHeight idx" and "0 < bnLimit" and "bnLimit < 2 ^ 256" and "3 \<le> lo"
    and "\<forall>b\<in>set (dgw_blocks 24 blocks (Some idx)). lo \<le> SetCompact (idx_nBits b) \<and> SetCompact (idx_nBits b) \<le> hi"
  defines "bits \<equiv> GetNextWorkRequired bnLimit True blocks (Some idx)"
  shows "\<exists>T. min bnLimit (lo div 3) \<le> T \<and> T \<le> min bnLimit (3 * hi) \<and> SetCompact bits \<le> T \<and> 2 ^ 15 * (T - SetCompact bits) \<le> T
    \<and> 0 < SetCompact bits \<and> (\<forall>hash. CheckProofOfWork bnLimit hash bits \<longleftrightarrow> uint hash \<le> SetCompact bits)"
proof -
  let ?bs = "dgw_blocks 24 blocks (Some idx)"
  define s0 where "s0 = \<lparr>dgw_nActualTimespan = 0, LastBlockTime = 0, CountBlocks = 0, PastDifficultyAverage = 0, PastDifficultyAveragePrev = 0\<rparr>"
  let ?s = "fold dgw_step ?bs s0"
  define T where "T = dgw_retarget bnLimit ?s"
  have "dgw_blocks (Suc 23) blocks (Some idx) \<noteq> []" unfolding dgw_blocks.simps using assms(1) by simp
  then have ne: "?bs \<noteq> []" by simp
  have "dgw_mean_ok lo hi s0" "CountBlocks s0 = 0" by (simp_all add: s0_def dgw_mean_ok_def)
  moreover have "int (length ?bs) \<le> 24" using length_dgw_blocks [of 24 blocks "Some idx"] by linarith
  ultimately have "dgw_mean_ok lo hi ?s \<and> CountBlocks ?s = int (length ?bs)"
    using dgw_fold_mean [of lo hi s0 ?bs] assms(4,5) by simp
  with ne have m: "0 < CountBlocks ?s" "lo \<le> PastDifficultyAverage ?s" "PastDifficultyAverage ?s \<le> hi" by (auto simp: dgw_mean_ok_def)
  have T: "min bnLimit (lo div 3) \<le> T" "T \<le> min bnLimit (3 * hi)"
    using dgw_retarget_bounds [OF m(1) _ m(2,3)] assms(4) by (simp_all add: T_def)
  have bits: "bits = GetCompact T" using assms(1) by (simp add: bits_def GetNextWorkRequired_def DarkGravityWave3_def T_def dgw_loop_fold s0_def)
  have "1 \<le> lo div 3" using assms(4) by simp
  with T assms(2) have T0: "1 \<le> T" "T < 2 ^ 256" "T \<le> bnLimit" using assms(3) by auto
  have "0 \<le> T" using T0(1) by simp
  note r = compact_rounds [OF this T0(2), folded bits]
  have pos: "0 < SetCompact bits" using r(1,3) T0(1) by (cases "SetCompact bits = 0") auto
  have "CheckProofOfWork bnLimit hash bits \<longleftrightarrow> uint hash \<le> SetCompact bits" for hash
  proof -
    have "SetCompact bits \<le> bnLimit" "SetCompact bits < 2 ^ 256" using r T0 by linarith+
    moreover from this(2) pos have "uint (getuint256 (SetCompact bits)) = SetCompact bits"
      by (intro uint_getuint256) auto
    ultimately show ?thesis using pos by (simp add: CheckProofOfWork_def Let_def word_less_def not_less)
  qed
  then show ?thesis using T T0 r pos by (intro exI [of _ T]) auto
qed

section \<open>A chain on schedule\<close>

fun on_schedule :: "int \<Rightarrow> int \<Rightarrow> CBlockIndex list \<Rightarrow> bool" where
  "on_schedule t0 time [] \<longleftrightarrow> True"
| "on_schedule t0 time (b # bs) \<longleftrightarrow> SetCompact (idx_nBits b) = t0 \<and> GetBlockTime b = time \<and> 0 < time \<and> on_schedule t0 (time - nTargetSpacing) bs"

lemma dgw_step_const:
  assumes "PastDifficultyAverage s = t0" "PastDifficultyAveragePrev s = t0" "SetCompact (idx_nBits b) = t0" "0 \<le> t0" "0 \<le> CountBlocks s"
  shows "PastDifficultyAverage (dgw_step b s) = t0 \<and> PastDifficultyAveragePrev (dgw_step b s) = t0"
proof -
  have "trunc_div (t0 * (CountBlocks s + 1) + t0) (CountBlocks s + 1 + 1) = (t0 * (CountBlocks s + 1) + t0) div (CountBlocks s + 1 + 1)"
    using assms(4,5) by (intro trunc_div_nonneg) auto
  also have "\<dots> = t0 * (CountBlocks s + 1 + 1) div (CountBlocks s + 1 + 1)" by (simp add: algebra_simps)
  finally show ?thesis using assms by (simp add: dgw_step_def Let_def)
qed

lemma dgw_fold_schedule:
  assumes "on_schedule t0 (LastBlockTime s - nTargetSpacing) bs" "0 < LastBlockTime s" "0 \<le> t0" "0 \<le> CountBlocks s"
    and "PastDifficultyAverage s = t0" "PastDifficultyAveragePrev s = t0"
  shows "PastDifficultyAverage (fold dgw_step bs s) = t0 \<and> CountBlocks (fold dgw_step bs s) = CountBlocks s + int (length bs)
    \<and> dgw_nActualTimespan (fold dgw_step bs s) = dgw_nActualTimespan s + int (length bs) * nTargetSpacing"
  using assms
proof (induction bs arbitrary: s)
  case (Cons b bs)
  let ?s = "dgw_step b s"
  have "LastBlockTime ?s = LastBlockTime s - nTargetSpacing" "CountBlocks ?s = CountBlocks s + 1"
    "dgw_nActualTimespan ?s = dgw_nActualTimespan s + nTargetSpacing"
    using Cons.prems(1,2) by (simp_all add: dgw_step_def Let_def)
  moreover have "PastDifficultyAverage ?s = t0" "PastDifficultyAveragePrev ?s = t0" using dgw_step_const [of s t0 b] Cons.prems by auto
  ultimately show ?case using Cons.IH [of ?s] Cons.prems by (simp add: distrib_right)
qed simp

text \<open>C32: The difficulty drifts on a chain that keeps its schedule. With 24 blocks of the same target, each 150 seconds after the
  one before, the sum of the differences covers 23 intervals but is compared with 24, so the next target is only 23/24 of the
  current one.\<close>

theorem steady_chain_drifts:
  assumes "24 \<le> nHeight idx" and "length (dgw_blocks 24 blocks (Some idx)) = 24"
    and "on_schedule t0 time (dgw_blocks 24 blocks (Some idx))" and "0 \<le> t0" and "t0 \<le> bnLimit"
  shows "DarkGravityWave3 bnLimit blocks (Some idx) = GetCompact (t0 * 23 div 24)"
proof -
  define s0 where "s0 = \<lparr>dgw_nActualTimespan = 0, LastBlockTime = 0, CountBlocks = 0, PastDifficultyAverage = 0, PastDifficultyAveragePrev = 0\<rparr>"
  obtain b bs where bs: "dgw_blocks 24 blocks (Some idx) = b # bs" and l: "length bs = 23" using assms(2)
    by (cases "dgw_blocks 24 blocks (Some idx)") auto
  let ?s1 = "dgw_step b s0" and ?s = "fold dgw_step bs (dgw_step b s0)"
  have b: "SetCompact (idx_nBits b) = t0" "GetBlockTime b = time" "0 < time" "on_schedule t0 (time - nTargetSpacing) bs"
    using assms(3) by (simp_all add: bs)
  have "LastBlockTime ?s1 = time" "CountBlocks ?s1 = 1" "dgw_nActualTimespan ?s1 = 0" "PastDifficultyAverage ?s1 = t0"
    "PastDifficultyAveragePrev ?s1 = t0" using b by (simp_all add: dgw_step_def Let_def s0_def)
  then have s: "PastDifficultyAverage ?s = t0" "CountBlocks ?s = 24" "dgw_nActualTimespan ?s = 23 * nTargetSpacing"
    using dgw_fold_schedule [of t0 ?s1 bs] b assms(4) l by simp_all
  have "t0 * (23 * nTargetSpacing) div (24 * 150) = t0 * 23 div 24" using div_mult_mult1 [of 150 "t0 * 23" 24] by (simp add: nTargetSpacing_def)
  moreover have "dgw_clamp (24 * nTargetSpacing) (23 * nTargetSpacing) = 23 * nTargetSpacing"
    by (intro dgw_clamp_bounds(3)) (simp_all add: nTargetSpacing_def)
  ultimately have "dgw_retarget bnLimit ?s = min bnLimit (t0 * 23 div 24)" using dgw_retarget_eq [of ?s bnLimit] assms(4) by (simp add: s)
  also have "\<dots> = t0 * 23 div 24" using assms(4,5) by (intro min_absorb2) linarith
  finally show ?thesis using assms(1) by (simp add: DarkGravityWave3_def dgw_loop_fold bs flip: s0_def)
qed

section \<open>An example chain\<close>

definition ex_index :: "u256 \<Rightarrow> CBlockIndex option" where
  "ex_index h = Some \<lparr>phashBlock = h, pprev = Some (h - 1), nHeight = uint h, diskPos = (0, 0), idx_nTime = ucast h * 150, idx_nBits = 0x1d00ffff,
     idx_lottoHeader = new_CLottoHeader\<rparr>"

lemma ex_index_fields: "nHeight (the (ex_index h)) = uint h" "idx_nBits (the (ex_index h)) = 0x1d00ffff"
  "GetBlockTime (the (ex_index h)) = uint (ucast h * 150 :: u32)" "prev_index ex_index (the (ex_index h)) = Some (the (ex_index (h - 1)))"
  by (simp_all add: ex_index_def GetBlockTime_def prev_index_def)

lemma ex_index_blocks: "n \<le> unat h \<Longrightarrow> dgw_blocks n ex_index (Some (the (ex_index h))) = map (\<lambda>k. the (ex_index (h - word_of_nat k))) [0..<n]"
proof (induction n arbitrary: h)
  case (Suc n)
  then have "0 < int (unat h)" by linarith
  then have h: "h \<noteq> 0" "0 < uint h" by (auto simp only: uint_nat unat_0)
  then have "dgw_blocks n ex_index (Some (the (ex_index (h - 1)))) = map (\<lambda>k. the (ex_index (h - 1 - word_of_nat k))) [0..<n]"
    using Suc by (intro Suc.IH) (simp add: unat_minus_one)
  then show ?case using h(2) by (simp add: ex_index_fields upt_conv_Cons map_Suc_upt [symmetric] diff_diff_eq del: upt_Suc)
qed simp

lemma ex_target: "SetCompact 0x1d00ffff = 0xffff * 256 ^ 26"
  using SetCompact_parts [of "0x1d00ffff" "0xffff" 29] by simp

theorem next_target_bounds_witness:
  "0 < SetCompact (GetNextWorkRequired (2 ^ 248 - 1) True ex_index (Some (the (ex_index 30))))"
proof -
  let ?b = "GetNextWorkRequired (2 ^ 248 - 1) True ex_index (Some (the (ex_index 30)))"
  have "\<exists>T. min (2 ^ 248 - 1) (0xffff * 256 ^ 26 div 3) \<le> T \<and> T \<le> min (2 ^ 248 - 1) (3 * (0xffff * 256 ^ 26))
    \<and> SetCompact ?b \<le> T \<and> 2 ^ 15 * (T - SetCompact ?b) \<le> T
    \<and> 0 < SetCompact ?b \<and> (\<forall>hash. CheckProofOfWork (2 ^ 248 - 1) hash ?b \<longleftrightarrow> uint hash \<le> SetCompact ?b)"
    by (rule next_target_bounds) (auto simp: ex_index_blocks ex_index_fields ex_target)
  then show ?thesis by blast
qed

theorem steady_chain_drifts_witness:
  "DarkGravityWave3 (2 ^ 248 - 1) ex_index (Some (the (ex_index 30))) = GetCompact (0xffff * 256 ^ 26 * 23 div 24)"
proof (rule steady_chain_drifts)
  have "[0..<24] = [0, 1, 2, 3, 4, 5, 6, 7, 8, 9, 10, 11, 12, 13, 14, 15, 16, 17, 18, 19, 20, 21, 22, 23]" by code_simp
  then show "on_schedule (0xffff * 256 ^ 26) 4500 (dgw_blocks 24 ex_index (Some (the (ex_index 30))))"
    by (simp add: ex_index_blocks ex_index_fields ex_target nTargetSpacing_def)
qed (auto simp: ex_index_blocks ex_index_fields ex_target)

end
