(* ===== verification/Merkle.thy ===== *)
theory Merkle
  imports Chain_Types
begin

text \<open>
  Merkle trees (\<open>CBlock::BuildMerkleTree\<close>, \<open>GetMerkleBranch\<close> and \<open>CheckMerkleBranch\<close> of \<open>core.cpp\<close>).

  The code keeps all rows of the tree in one vector and walks over it with an offset. The specification is the
  list of the rows: each row pairs up the hashes of the row below and repeats the last one if their number
  is odd.
\<close>

section \<open>The tree in one vector\<close>

text \<open>\<open>Hash\<close> of two ranges, here the bytes of two 256-bit numbers, and \<open>CTransaction::GetHash\<close>.\<close>

definition Hash2 :: "(byte list \<Rightarrow> byte list) \<Rightarrow> u256 \<Rightarrow> u256 \<Rightarrow> u256" where
  "Hash2 sha a b = word_of_nat (le_nat (Hash sha (ser_word a @ ser_word b)))"

definition CTransaction_GetHash :: "(byte list \<Rightarrow> byte list) \<Rightarrow> CTransaction \<Rightarrow> u256" where
  "CTransaction_GetHash sha tx = word_of_nat (le_nat (Hash sha (ser_CTransaction tx)))"

function merkle_row :: "(byte list \<Rightarrow> byte list) \<Rightarrow> int \<Rightarrow> int \<Rightarrow> int \<Rightarrow> u256 list \<Rightarrow> u256 list result" where
  "merkle_row sha j nSize i t =
     (if i < nSize then
        bindE (vec_at t (j + i)) (\<lambda>a.
        bindE (vec_at t (j + min (i + 1) (nSize - 1))) (\<lambda>b.
        merkle_row sha j nSize (i + 2) (t @ [Hash2 sha a b])))
      else Inr t)"
  by pat_completeness auto
termination
  by (relation "measure (\<lambda>(sha, j, n, i, t). nat (n - i))") auto

function merkle_levels :: "(byte list \<Rightarrow> byte list) \<Rightarrow> int \<Rightarrow> int \<Rightarrow> u256 list \<Rightarrow> u256 list result" where
  "merkle_levels sha j nSize t =
     (if nSize > 1 then
        bindE (merkle_row sha j nSize 0 t) (\<lambda>t. merkle_levels sha (j + nSize) ((nSize + 1) div 2) t)
      else Inr t)"
  by pat_completeness auto
termination
  by (relation "measure (\<lambda>(sha, j, n, t). nat n)") auto

declare merkle_row.simps [simp del] merkle_levels.simps [simp del]

definition BuildMerkleTree :: "(byte list \<Rightarrow> byte list) \<Rightarrow> CBlock \<Rightarrow> (CBlock \<times> u256) result" where
  "BuildMerkleTree sha b =
     bindE (merkle_levels sha 0 (int (length (vtx b))) (map (CTransaction_GetHash sha) (vtx b))) (\<lambda>t.
     Inr (b\<lparr>vMerkleTree := t\<rparr>, if t = [] then 0 else last t))"

function branch_loop :: "u256 list \<Rightarrow> int \<Rightarrow> int \<Rightarrow> int \<Rightarrow> u256 list \<Rightarrow> u256 list result" where
  "branch_loop t nIndex j nSize vMerkleBranch =
     (if nSize > 1 then
        bindE (vec_at t (j + min (nIndex XOR 1) (nSize - 1))) (\<lambda>x.
        branch_loop t (drop_bit 1 nIndex) (j + nSize) ((nSize + 1) div 2) (vMerkleBranch @ [x]))
      else Inr vMerkleBranch)"
  by pat_completeness auto
termination
  by (relation "measure (\<lambda>(t, i, j, n, v). nat n)") auto

declare branch_loop.simps [simp del]

definition GetMerkleBranch :: "(byte list \<Rightarrow> byte list) \<Rightarrow> CBlock \<Rightarrow> int \<Rightarrow> (CBlock \<times> u256 list) result" where
  "GetMerkleBranch sha b nIndex =
     bindE (if vMerkleTree b = [] then bindE (BuildMerkleTree sha b) (\<lambda>(b, _). Inr b) else Inr b) (\<lambda>b.
     bindE (branch_loop (vMerkleTree b) nIndex 0 (int (length (vtx b))) []) (\<lambda>br. Inr (b, br)))"

definition check_step :: "(byte list \<Rightarrow> byte list) \<Rightarrow> u256 \<Rightarrow> u256 \<times> int \<Rightarrow> u256 \<times> int" where
  "check_step sha otherside s = (case s of (hash, nIndex) \<Rightarrow>
     (if nIndex AND 1 \<noteq> 0 then Hash2 sha otherside hash else Hash2 sha hash otherside, drop_bit 1 nIndex))"

definition CheckMerkleBranch :: "(byte list \<Rightarrow> byte list) \<Rightarrow> u256 \<Rightarrow> u256 list \<Rightarrow> int \<Rightarrow> u256" where
  "CheckMerkleBranch sha hash vMerkleBranch nIndex =
     (if nIndex = - 1 then 0 else fst (fold (check_step sha) vMerkleBranch (hash, nIndex)))"

section \<open>The rows of the tree\<close>

fun pair_up :: "('a \<Rightarrow> 'a \<Rightarrow> 'a) \<Rightarrow> 'a list \<Rightarrow> 'a list" where
  "pair_up f [] = []"
| "pair_up f [a] = [f a a]"
| "pair_up f (a # b # r) = f a b # pair_up f r"

lemma length_pair_up [simp]: "length (pair_up f xs) = (length xs + 1) div 2"
  by (induction f xs rule: pair_up.induct) auto

lemma nth_pair_up:
  "k < (length xs + 1) div 2 \<Longrightarrow> pair_up f xs ! k = f (xs ! (2 * k)) (xs ! min (2 * k + 1) (length xs - 1))"
proof (induction f xs arbitrary: k rule: pair_up.induct)
  case (3 f a b r)
  then show ?case
  proof (cases k)
    case (Suc k')
    with 3 have "k' < (length r + 1) div 2" by simp
    moreover from this have "r \<noteq> []" by auto
    then have "min (Suc (2 * Suc k')) (Suc (length r)) = Suc (Suc (min (2 * k' + 1) (length r - 1)))" by (cases r) auto
    ultimately show ?thesis using 3 Suc by simp
  qed simp
qed auto

function merkle_rows :: "('a \<Rightarrow> 'a \<Rightarrow> 'a) \<Rightarrow> 'a list \<Rightarrow> 'a list" where
  "merkle_rows f xs = (if length xs > 1 then xs @ merkle_rows f (pair_up f xs) else xs)"
  by pat_completeness auto
termination
  by (relation "measure (\<lambda>(f, xs). length xs)") auto

text \<open>The root, 0 for no transactions.\<close>

function merkle_root :: "(u256 \<Rightarrow> u256 \<Rightarrow> u256) \<Rightarrow> u256 list \<Rightarrow> u256" where
  "merkle_root f xs = (if length xs > 1 then merkle_root f (pair_up f xs) else if xs = [] then 0 else hd xs)"
  by pat_completeness auto
termination
  by (relation "measure (\<lambda>(f, xs). length xs)") auto

declare merkle_rows.simps [simp del] merkle_root.simps [simp del]

lemma merkle_rows_Nil [simp]: "merkle_rows f xs = [] \<longleftrightarrow> xs = []"
  using merkle_rows.simps [of f xs] by (cases "length xs > 1") auto

lemma merkle_rows_root: "(if xs = [] then 0 else last (merkle_rows f xs)) = merkle_root f xs"
proof (induction f xs rule: merkle_root.induct)
  case (1 f xs)
  show ?case
  proof (cases "length xs > 1")
    case True
    then have ne: "pair_up f xs \<noteq> []" "xs \<noteq> []" by (auto dest: arg_cong [of _ _ length])
    have "last (merkle_rows f xs) = last (merkle_rows f (pair_up f xs))"
      using True ne by (subst merkle_rows.simps) simp
    also have "\<dots> = merkle_root f (pair_up f xs)" using 1 True ne by simp
    also have "\<dots> = merkle_root f xs" using True by (subst (2) merkle_root.simps) simp
    finally show ?thesis using ne by simp
  next
    case False
    then show ?thesis by (subst merkle_rows.simps, subst merkle_root.simps) (cases xs, auto)
  qed
qed

section \<open>The vector holds the rows\<close>

lemma merkle_row_pairs:
  assumes "2 * k \<le> length L + 1"
  shows "merkle_row sha (int (length pre)) (int (length L)) (int (2 * k)) (pre @ L @ take k (pair_up (Hash2 sha) L))
    = Inr (pre @ L @ pair_up (Hash2 sha) L)"
  using assms
proof (induction "length L - 2 * k" arbitrary: k rule: less_induct)
  case less
  show ?case
  proof (cases "2 * k < length L")
    case True
    let ?t = "pre @ L @ take k (pair_up (Hash2 sha) L)"
    have k: "k < (length L + 1) div 2" using True by simp
    have m: "min (int (2 * k) + 1) (int (length L) - 1) = int (min (2 * k + 1) (length L - 1))" using True by auto
    have at: "vec_at ?t (int (length pre) + int i) = Inr (L ! i)" if "i < length L" for i
      using that vec_at_nat [of "length pre + i" ?t] by (simp add: nth_append)
    have "take (Suc k) (pair_up (Hash2 sha) L) = take k (pair_up (Hash2 sha) L)
        @ [Hash2 sha (L ! (2 * k)) (L ! min (2 * k + 1) (length L - 1))]"
      using k nth_pair_up [OF k, of "Hash2 sha"] by (simp add: take_Suc_conv_app_nth)
    with less(1) [of "Suc k"] True at [of "2 * k"] at [of "min (2 * k + 1) (length L - 1)"] m show ?thesis
      by (subst merkle_row.simps) (simp add: add.commute)
  next
    case False
    then show ?thesis by (subst merkle_row.simps) simp
  qed
qed

lemma merkle_levels_rows:
  "merkle_levels sha (int (length pre)) (int (length L)) (pre @ L) = Inr (pre @ merkle_rows (Hash2 sha) L)"
proof (induction "length L" arbitrary: pre L rule: less_induct)
  case less
  have half: "(int (length L) + 1) div 2 = int (length (pair_up (Hash2 sha) L))" by simp
  show ?case
  proof (cases "length L > 1")
    case True
    have row: "merkle_row sha (int (length pre)) (int (length L)) 0 (pre @ L) = Inr ((pre @ L) @ pair_up (Hash2 sha) L)"
      using merkle_row_pairs [of 0 L sha pre] by simp
    have rec: "merkle_levels sha (int (length (pre @ L))) (int (length (pair_up (Hash2 sha) L))) ((pre @ L) @ pair_up (Hash2 sha) L)
        = Inr ((pre @ L) @ merkle_rows (Hash2 sha) (pair_up (Hash2 sha) L))"
      by (rule less) (use True in simp)
    have l: "int (length (pre @ L)) = int (length pre) + int (length L)" by simp
    show ?thesis
      by (subst merkle_levels.simps, subst merkle_rows.simps) (use True row rec in \<open>simp add: half l del: length_append length_pair_up\<close>)
  next
    case False
    then show ?thesis by (subst merkle_levels.simps, subst merkle_rows.simps) simp
  qed
qed


lemma BuildMerkleTree_rows:
  "BuildMerkleTree sha b = (let h = map (CTransaction_GetHash sha) (vtx b) in
     Inr (b\<lparr>vMerkleTree := merkle_rows (Hash2 sha) h\<rparr>, merkle_root (Hash2 sha) h))"
  using merkle_levels_rows [of sha "[]" "map (CTransaction_GetHash sha) (vtx b)"]
    merkle_rows_root [of "map (CTransaction_GetHash sha) (vtx b)" "Hash2 sha"]
  by (simp add: BuildMerkleTree_def Let_def)

section \<open>Branches lead to the root\<close>

lemma sibling_int: "int i XOR 1 = int (if even i then i + 1 else i - 1)"
  using odd_pos [of i] by (auto simp: xor_one_eq of_nat_diff)

lemma check_step_pair:
  assumes "i < length L"
  shows "check_step sha (L ! min (if even i then i + 1 else i - 1) (length L - 1)) (L ! i, int i)
    = (pair_up (Hash2 sha) L ! (i div 2), int (i div 2))"
proof -
  have k: "i div 2 < (length L + 1) div 2" using assms by linarith
  have "2 * (i div 2) = (if even i then i else i - 1)" by (auto elim: oddE)
  then show ?thesis using assms nth_pair_up [OF k, of "Hash2 sha"]
    by (auto simp: check_step_def and_one_eq drop_bit_Suc zdiv_int min_def)
qed

lemma branch_loop_check:
  assumes "i < length L"
  shows "\<exists>br. branch_loop (pre @ merkle_rows (Hash2 sha) L) (int i) (int (length pre)) (int (length L)) acc = Inr (acc @ br)
    \<and> fst (fold (check_step sha) br (L ! i, int i)) = merkle_root (Hash2 sha) L"
  using assms
proof (induction "length L" arbitrary: pre L i acc rule: less_induct)
  case less
  let ?P = "pair_up (Hash2 sha) L"
  show ?case
  proof (cases "length L > 1")
    case True
    let ?m = "min (if even i then i + 1 else i - 1) (length L - 1)"
    define x where "x = L ! ?m"
    have m: "?m < length L" using True by auto
    have at: "vec_at (pre @ merkle_rows (Hash2 sha) L) (int (length pre) + min (int i XOR 1) (int (length L) - 1)) = Inr x"
    proof -
      have "min (int i XOR 1) (int (length L) - 1) = int ?m" using True by (auto simp: sibling_int min_def)
      moreover have "(pre @ merkle_rows (Hash2 sha) L) ! (length pre + ?m) = L ! ?m"
        using True m by (subst merkle_rows.simps) (simp add: nth_append)
      moreover have "length pre + ?m < length (pre @ merkle_rows (Hash2 sha) L)"
        using True m by (subst merkle_rows.simps) simp
      ultimately show ?thesis unfolding x_def using vec_at_nat [of "length pre + ?m" "pre @ merkle_rows (Hash2 sha) L"] by simp
    qed
    have i2: "i div 2 < length ?P" and shorter: "length ?P < length L" using less(2) True by simp_all
    have rows: "pre @ merkle_rows (Hash2 sha) L = (pre @ L) @ merkle_rows (Hash2 sha) ?P"
      using True by (subst merkle_rows.simps) simp
    obtain br where br: "branch_loop ((pre @ L) @ merkle_rows (Hash2 sha) ?P) (int (i div 2)) (int (length (pre @ L))) (int (length ?P))
        (acc @ [x]) = Inr ((acc @ [x]) @ br)"
      and root: "fst (fold (check_step sha) br (?P ! (i div 2), int (i div 2))) = merkle_root (Hash2 sha) ?P"
      using less(1) [OF shorter i2, of "pre @ L" "acc @ [x]"] by blast
    have half: "drop_bit (Suc 0) (int i) = int (i div 2)" "(int (length L) + 1) div 2 = int (length ?P)"
      "int (length pre) + int (length L) = int (length (pre @ L))" by (simp_all add: drop_bit_Suc zdiv_int)
    have "branch_loop (pre @ merkle_rows (Hash2 sha) L) (int i) (int (length pre)) (int (length L)) acc = Inr (acc @ x # br)"
      by (subst branch_loop.simps) (use True at br in \<open>simp add: half rows del: length_append length_pair_up of_nat_add append_assoc\<close>)
    moreover have "merkle_root (Hash2 sha) L = merkle_root (Hash2 sha) ?P" using True by (subst merkle_root.simps) simp
    ultimately show ?thesis using root check_step_pair [OF less(2), of sha, folded x_def]
      by (intro exI [of _ "x # br"]) simp
  next
    case False
    with less(2) obtain x where "L = [x]" "i = 0" by (cases L) auto
    then show ?thesis by (subst branch_loop.simps, subst merkle_root.simps) auto
  qed
qed

text \<open>C27: The branch of a transaction leads from its hash to the Merkle root of the block, for every position and every
  number of transactions, and no access to the vector of the tree is out of bounds.\<close>

theorem merkle_branch_correct:
  assumes "i < length (vtx b)" and "vMerkleTree b = []"
  shows "\<exists>b' root br. BuildMerkleTree sha b = Inr (b', root) \<and> GetMerkleBranch sha b (int i) = Inr (b', br)
    \<and> GetMerkleBranch sha b' (int i) = Inr (b', br)
    \<and> CheckMerkleBranch sha (CTransaction_GetHash sha (vtx b ! i)) br (int i) = root"
proof -
  let ?h = "map (CTransaction_GetHash sha) (vtx b)"
  obtain br where br: "branch_loop (merkle_rows (Hash2 sha) ?h) (int i) 0 (int (length ?h)) [] = Inr br"
    and root: "fst (fold (check_step sha) br (?h ! i, int i)) = merkle_root (Hash2 sha) ?h"
    using branch_loop_check [of i ?h "[]" sha "[]"] assms(1) by auto
  have "vtx b \<noteq> []" using assms(1) by auto
  then show ?thesis using br root assms
    by (intro exI [of _ "b\<lparr>vMerkleTree := merkle_rows (Hash2 sha) ?h\<rparr>"] exI [of _ "merkle_root (Hash2 sha) ?h"] exI [of _ br])
      (simp add: BuildMerkleTree_rows GetMerkleBranch_def CheckMerkleBranch_def Let_def)
qed

definition toy_tree_block :: CBlock where
  "toy_tree_block = \<lparr>nVersion = 2, hashPrevBlock = 3, hashMerkleRoot = 4, nTime = 5, nBits = 6, nNonce = 7,
     lottoHeader = new_CLottoHeader, vtx = map (\<lambda>n. toy_tx\<lparr>nLockTime := n\<rparr>) [0, 1, 2], vMerkleTree = []\<rparr>"

theorem merkle_branch_correct_witness:
  "\<exists>b' root br. BuildMerkleTree rev toy_tree_block = Inr (b', root) \<and> GetMerkleBranch rev toy_tree_block (int 2) = Inr (b', br)
    \<and> GetMerkleBranch rev b' (int 2) = Inr (b', br)
    \<and> CheckMerkleBranch rev (CTransaction_GetHash rev (vtx toy_tree_block ! 2)) br (int 2) = root"
  by (rule merkle_branch_correct) (simp_all add: toy_tree_block_def)

end
