(* ===== verification/Merkle_Partial.thy ===== *)
theory Merkle_Partial
  imports Merkle
begin

text \<open>
  Partial Merkle trees (\<open>CPartialMerkleTree\<close> of \<open>main.h\<close> and \<open>main.cpp\<close>): a part of the tree of a block that proves
  which of its transactions match a filter.

  Building a partial tree and extracting its matches are related to the rows of the Merkle tree. A
  built tree gives back the root and the matches, also over the wire; a tree from an untrusted peer that
  leads to the root of a block names only transactions of this block, or else it contains a collision of
  the hash function.
\<close>

section \<open>The code\<close>

definition MAX_BLOCK_SIZE :: nat where "MAX_BLOCK_SIZE = 1000000"

record CPartialMerkleTree =
  nTransactions :: nat
  vBits :: "bool list"
  vHash :: "u256 list"
  fBad :: bool

definition CalcTreeWidth :: "nat \<Rightarrow> nat \<Rightarrow> nat" where
  "CalcTreeWidth nTx height = ((nTx + 2 ^ height - 1) mod 2 ^ 32) div 2 ^ height"

fun CalcHash :: "(byte list \<Rightarrow> byte list) \<Rightarrow> nat \<Rightarrow> u256 list \<Rightarrow> nat \<Rightarrow> nat \<Rightarrow> u256 result" where
  "CalcHash sha nTx vTxid 0 pos = vec_at vTxid (int pos)"
| "CalcHash sha nTx vTxid (Suc height) pos =
     bindE (CalcHash sha nTx vTxid height (pos * 2)) (\<lambda>left.
     bindE (if pos * 2 + 1 < CalcTreeWidth nTx height then CalcHash sha nTx vTxid height (pos * 2 + 1) else Inr left) (\<lambda>right.
     Inr (Hash2 sha left right)))"

definition parent_of_match :: "nat \<Rightarrow> bool list \<Rightarrow> nat \<Rightarrow> nat \<Rightarrow> bool result" where
  "parent_of_match nTx vMatch height pos =
     foldE (\<lambda>p found. bindE (vec_at vMatch (int p)) (\<lambda>m. Inr (found \<or> m)))
       [push_bit height pos ..< min (push_bit height (pos + 1)) nTx] False"

fun TraverseAndBuild :: "(byte list \<Rightarrow> byte list) \<Rightarrow> nat \<Rightarrow> u256 list \<Rightarrow> bool list \<Rightarrow> nat \<Rightarrow> nat
    \<Rightarrow> bool list \<times> u256 list \<Rightarrow> (bool list \<times> u256 list) result" where
  "TraverseAndBuild sha nTx vTxid vMatch 0 pos (bits, hashes) =
     bindE (parent_of_match nTx vMatch 0 pos) (\<lambda>found.
     bindE (CalcHash sha nTx vTxid 0 pos) (\<lambda>h. Inr (bits @ [found], hashes @ [h])))"
| "TraverseAndBuild sha nTx vTxid vMatch (Suc height) pos (bits, hashes) =
     bindE (parent_of_match nTx vMatch (Suc height) pos) (\<lambda>found.
     if \<not> found then bindE (CalcHash sha nTx vTxid (Suc height) pos) (\<lambda>h. Inr (bits @ [found], hashes @ [h]))
     else
       bindE (TraverseAndBuild sha nTx vTxid vMatch height (pos * 2) (bits @ [found], hashes)) (\<lambda>s.
       if pos * 2 + 1 < CalcTreeWidth nTx height then TraverseAndBuild sha nTx vTxid vMatch height (pos * 2 + 1) s
       else Inr s))"

text \<open>The counters, the matches found so far and the error flag are passed along; after an error the traversal goes on with
  the hash 0.\<close>

type_synonym extract_state = "nat \<times> nat \<times> u256 list \<times> bool"

fun TraverseAndExtract :: "(byte list \<Rightarrow> byte list) \<Rightarrow> nat \<Rightarrow> bool list \<Rightarrow> u256 list \<Rightarrow> nat \<Rightarrow> nat
    \<Rightarrow> extract_state \<Rightarrow> u256 \<times> extract_state" where
  "TraverseAndExtract sha nTx bits hashes height pos (nBitsUsed, nHashUsed, vMatch, bad) =
     (if nBitsUsed \<ge> length bits then (0, nBitsUsed, nHashUsed, vMatch, True)
      else
        let found = bits ! nBitsUsed; nBitsUsed = nBitsUsed + 1 in
        if height = 0 \<or> \<not> found then
          (if nHashUsed \<ge> length hashes then (0, nBitsUsed, nHashUsed, vMatch, True)
           else (hashes ! nHashUsed, nBitsUsed, nHashUsed + 1,
             if height = 0 \<and> found then vMatch @ [hashes ! nHashUsed] else vMatch, bad))
        else
          let (left, s) = TraverseAndExtract sha nTx bits hashes (height - 1) (pos * 2) (nBitsUsed, nHashUsed, vMatch, bad);
              (right, s) = (if pos * 2 + 1 < CalcTreeWidth nTx (height - 1)
                then TraverseAndExtract sha nTx bits hashes (height - 1) (pos * 2 + 1) s else (left, s))
          in (Hash2 sha left right, s))"

declare TraverseAndExtract.simps [simp del]

function tree_height :: "nat \<Rightarrow> nat \<Rightarrow> nat" where
  "tree_height nTx nHeight = (if CalcTreeWidth nTx nHeight > 1 then tree_height nTx (nHeight + 1) else nHeight)"
  by pat_completeness auto

lemma CalcTreeWidth_32: "32 \<le> h \<Longrightarrow> CalcTreeWidth n h = 0"
proof -
  assume "32 \<le> h"
  then have "(2 :: nat) ^ 32 \<le> 2 ^ h" by (intro power_increasing) auto
  moreover have "(n + 2 ^ h - 1) mod 2 ^ 32 < (2 :: nat) ^ 32" by simp
  ultimately show ?thesis unfolding CalcTreeWidth_def by (intro div_less) linarith
qed

termination tree_height
proof (relation "measure (\<lambda>(n, h). 32 - h)")
  fix n h :: nat
  assume "1 < CalcTreeWidth n h"
  then have "h < 32" using CalcTreeWidth_32 [of h n] by (cases "32 \<le> h") auto
  then show "((n, h + 1), (n, h)) \<in> measure (\<lambda>(n, h). 32 - h)" by simp
qed simp

declare tree_height.simps [simp del]

definition new_CPartialMerkleTree :: CPartialMerkleTree where
  "new_CPartialMerkleTree = \<lparr>nTransactions = 0, vBits = [], vHash = [], fBad = True\<rparr>"

definition CPartialMerkleTree_of :: "(byte list \<Rightarrow> byte list) \<Rightarrow> u256 list \<Rightarrow> bool list \<Rightarrow> CPartialMerkleTree result" where
  "CPartialMerkleTree_of sha vTxid vMatch =
     (let nTx = length vTxid mod 2 ^ 32 in
      bindE (TraverseAndBuild sha nTx vTxid vMatch (tree_height nTx 0) 0 ([], [])) (\<lambda>(bits, hashes).
      Inr \<lparr>nTransactions = nTx, vBits = bits, vHash = hashes, fBad = False\<rparr>))"

definition ExtractMatches :: "(byte list \<Rightarrow> byte list) \<Rightarrow> CPartialMerkleTree \<Rightarrow> u256 \<times> u256 list \<times> CPartialMerkleTree" where
  "ExtractMatches sha t =
     (if nTransactions t = 0 then (0, [], t)
      else if nTransactions t > MAX_BLOCK_SIZE div 60 then (0, [], t)
      else if length (vHash t) > nTransactions t then (0, [], t)
      else if length (vBits t) < length (vHash t) then (0, [], t)
      else
        let (root, nBitsUsed, nHashUsed, vMatch, bad) =
          TraverseAndExtract sha (nTransactions t) (vBits t) (vHash t) (tree_height (nTransactions t) 0) 0 (0, 0, [], fBad t);
          t = t\<lparr>fBad := bad\<rparr> in
        if bad then (0, vMatch, t)
        else if (nBitsUsed + 7) div 8 \<noteq> (length (vBits t) + 7) div 8 then (0, vMatch, t)
        else if nHashUsed \<noteq> length (vHash t) then (0, vMatch, t)
        else (root, vMatch, t))"

section \<open>Wire format\<close>

definition pack_bits :: "bool list \<Rightarrow> byte list" where
  "pack_bits bits = fold (\<lambda>p v. v[p div 8 := v ! (p div 8) OR push_bit (p mod 8) (of_bool (bits ! p))])
     [0..<length bits] (replicate ((length bits + 7) div 8) 0)"

definition unpack_bits :: "byte list \<Rightarrow> bool list" where
  "unpack_bits v = map (\<lambda>p. v ! (p div 8) AND push_bit (p mod 8) 1 \<noteq> 0) [0..<length v * 8]"

definition ser_CPartialMerkleTree :: "CPartialMerkleTree \<Rightarrow> byte list" where
  "ser_CPartialMerkleTree t =
     ser_word (word_of_nat (nTransactions t) :: u32) @ ser_vector ser_word (vHash t) @ ser_bytes (pack_bits (vBits t))"

definition unser_CPartialMerkleTree :: "byte list \<Rightarrow> (CPartialMerkleTree \<times> byte list) result" where
  "unser_CPartialMerkleTree s =
     bindE (unser_word s) (\<lambda>(n :: u32, s).
     bindE (unser_vector unser_word s) (\<lambda>(h, s).
     bindE (unser_bytes s) (\<lambda>(v, s).
     Inr (\<lparr>nTransactions = unat n, vBits = unpack_bits v, vHash = h, fBad = False\<rparr>, s))))"

section \<open>Nodes of the tree\<close>

abbreviation node_row :: "(byte list \<Rightarrow> byte list) \<Rightarrow> u256 list \<Rightarrow> nat \<Rightarrow> u256 list" where
  "node_row sha xs h \<equiv> (pair_up (Hash2 sha) ^^ h) xs"

lemma length_node_row: "length (node_row sha xs h) = (length xs + 2 ^ h - 1) div 2 ^ h"
proof (induction h)
  case (Suc h)
  let ?w = "(length xs + 2 ^ h - 1) div 2 ^ h"
  have pos: "(1 :: nat) \<le> 2 ^ h" by simp
  have "(?w + 1) div 2 = ((length xs + 2 ^ h - 1 + 2 ^ h) div 2 ^ h) div 2"
    by (subst div_add_self2) simp_all
  also have "\<dots> = (length xs + 2 ^ h - 1 + 2 ^ h) div (2 ^ h * 2)" by (simp add: div_mult2_eq)
  also have "length xs + 2 ^ h - 1 + 2 ^ h = length xs + 2 ^ Suc h - 1" using pos by simp
  finally show ?case using Suc by (simp add: ac_simps)
qed simp

lemma CalcTreeWidth_row:
  assumes "length xs < 2 ^ 31" and "h < 32"
  shows "CalcTreeWidth (length xs) h = length (node_row sha xs h)"
proof -
  have "(2 :: nat) ^ h \<le> 2 ^ 31" using assms(2) by (intro power_increasing) auto
  with assms(1) have "length xs + 2 ^ h - 1 < 2 ^ 32" by simp
  then show ?thesis unfolding CalcTreeWidth_def length_node_row by simp
qed


lemma node_row_Suc:
  assumes "pos < length (node_row sha xs (Suc h))"
  shows "2 * pos < length (node_row sha xs h)"
    and "node_row sha xs (Suc h) ! pos = Hash2 sha (node_row sha xs h ! (2 * pos))
      (if 2 * pos + 1 < length (node_row sha xs h) then node_row sha xs h ! (2 * pos + 1) else node_row sha xs h ! (2 * pos))"
proof -
  have p: "pos < (length (node_row sha xs h) + 1) div 2" using assms by simp
  then show l: "2 * pos < length (node_row sha xs h)" by linarith
  then have "min (2 * pos + 1) (length (node_row sha xs h) - 1)
      = (if 2 * pos + 1 < length (node_row sha xs h) then 2 * pos + 1 else 2 * pos)" by auto
  with nth_pair_up [OF p, of "Hash2 sha"] show "node_row sha xs (Suc h) ! pos = Hash2 sha (node_row sha xs h ! (2 * pos))
      (if 2 * pos + 1 < length (node_row sha xs h) then node_row sha xs h ! (2 * pos + 1) else node_row sha xs h ! (2 * pos))"
    by auto
qed

lemma CalcHash_row:
  assumes "length xs < 2 ^ 31" and "h < 32" and "pos < length (node_row sha xs h)"
  shows "CalcHash sha (length xs) xs h pos = Inr (node_row sha xs h ! pos)"
  using assms(2,3)
proof (induction h arbitrary: pos)
  case (Suc h)
  note row = node_row_Suc [OF Suc.prems(2)] and w = CalcTreeWidth_row [OF assms(1), of h sha]
  have "CalcHash sha (length xs) xs h (pos * 2) = Inr (node_row sha xs h ! (2 * pos))"
    using Suc.IH [of "pos * 2"] Suc.prems row(1) by (simp add: mult.commute)
  moreover have "CalcHash sha (length xs) xs h (pos * 2 + 1) = Inr (node_row sha xs h ! (2 * pos + 1))"
    if "2 * pos + 1 < length (node_row sha xs h)"
    using Suc.IH [of "pos * 2 + 1"] Suc.prems that by (simp add: mult.commute)
  ultimately show ?case using Suc.prems w row(2) by (simp add: mult.commute del: funpow.simps)
qed simp

text \<open>The positions of the transactions below a node.\<close>

definition below :: "nat \<Rightarrow> nat \<Rightarrow> nat \<Rightarrow> nat list" where
  "below n h pos = [pos * 2 ^ h ..< min ((pos + 1) * 2 ^ h) n]"

lemma below_split: "below n (Suc h) pos = below n h (2 * pos) @ below n h (2 * pos + 1)"
proof -
  let ?a = "2 * pos * 2 ^ h" and ?b = "(2 * pos + 1) * 2 ^ h" and ?c = "(2 * pos + 1 + 1) * 2 ^ h"
  have le: "?a \<le> ?b" "?b \<le> ?c" by simp_all
  have "below n (Suc h) pos = [?a ..< min ?c n]" by (simp add: below_def algebra_simps)
  also have "\<dots> = [?a ..< min ?b n] @ [?b ..< min ?c n]"
  proof (cases "?b \<le> n")
    case True
    with le have "[?a ..< min ?c n] = [?a ..< ?b] @ [?b ..< min ?c n]"
      using upt_add_eq_append [of ?a ?b "min ?c n - ?b"] by simp
    with True show ?thesis by (simp add: min_def)
  next
    case False
    with le show ?thesis by (simp add: min_def)
  qed
  finally show ?thesis by (simp add: below_def)
qed

lemma node_row_bounds:
  "pos < length (node_row sha xs h) \<longleftrightarrow> pos * 2 ^ h < length xs"
proof -
  have "pos < length (node_row sha xs h) \<longleftrightarrow> (pos + 1) * 2 ^ h \<le> length xs + 2 ^ h - 1"
    unfolding length_node_row
    using less_eq_div_iff_mult_less_eq [of "2 ^ h" "pos + 1" "length xs + 2 ^ h - 1"] by (simp only: Suc_le_eq Suc_eq_plus1 [symmetric]) simp
  also have "\<dots> \<longleftrightarrow> pos * 2 ^ h < length xs" 
  proof -
    have "d + q \<le> l + d - 1 \<longleftrightarrow> q < l" if "1 \<le> d" for d q l :: nat using that by arith
    from this [of "2 ^ h" "pos * 2 ^ h" "length xs"] show ?thesis by simp
  qed
  finally show ?thesis .
qed

lemma below_beyond: "length (node_row sha xs h) \<le> pos \<Longrightarrow> below (length xs) h pos = []"
  using node_row_bounds [where pos = pos and xs = xs and h = h and sha = sha] by (simp add: below_def)

lemma below_nonempty: "pos < length (node_row sha xs h) \<Longrightarrow> 0 < length (below (length xs) h pos)"
  using node_row_bounds [where pos = pos and xs = xs and h = h and sha = sha] by (simp add: below_def min_def)

lemma parent_of_match_below:
  assumes "length vMatch = n"
  shows "parent_of_match n vMatch h pos = Inr (\<exists>p\<in>set (below n h pos). vMatch ! p)"
proof -
  have "foldE (\<lambda>p found. bindE (vec_at vMatch (int p)) (\<lambda>m. Inr (found \<or> m))) ps b = Inr (b \<or> (\<exists>p\<in>set ps. vMatch ! p))"
    if "\<forall>p\<in>set ps. p < length vMatch" for ps b
    using that by (induction ps arbitrary: b) auto
  from this [of "below n h pos" False] assms show ?thesis
    by (simp add: parent_of_match_def push_bit_eq_mult below_def)
qed

section \<open>Built trees are extracted\<close>

definition matched :: "u256 list \<Rightarrow> bool list \<Rightarrow> nat \<Rightarrow> nat \<Rightarrow> u256 list" where
  "matched xs vMatch h pos = map ((!) xs) (filter ((!) vMatch) (below (length xs) h pos))"

lemma matched_split: "matched xs vMatch (Suc h) pos = matched xs vMatch h (2 * pos) @ matched xs vMatch h (2 * pos + 1)"
  unfolding matched_def below_split by simp


lemma matched_none: "\<not> (\<exists>p\<in>set (below (length xs) h pos). vMatch ! p) \<Longrightarrow> matched xs vMatch h pos = []"
  by (simp add: matched_def)

text \<open>What building appends for a node is what extraction consumes, whatever surrounds it.\<close>

definition built :: "(byte list \<Rightarrow> byte list) \<Rightarrow> u256 list \<Rightarrow> bool list \<Rightarrow> nat \<Rightarrow> nat \<Rightarrow> bool list \<Rightarrow> u256 list \<Rightarrow> bool" where
  "built sha xs vMatch h pos bs hs \<longleftrightarrow>
     length hs \<le> length bs \<and> length hs \<le> length (below (length xs) h pos) \<and> length bs < 2 ^ Suc h
     \<and> (\<forall>b0 h0. TraverseAndBuild sha (length xs) xs vMatch h pos (b0, h0) = Inr (b0 @ bs, h0 @ hs))
     \<and> (\<forall>b0 h0 b1 h1 m bad. TraverseAndExtract sha (length xs) (b0 @ bs @ b1) (h0 @ hs @ h1) h pos (length b0, length h0, m, bad)
         = (node_row sha xs h ! pos, length b0 + length bs, length h0 + length hs, m @ matched xs vMatch h pos, bad))"

lemma built_leaf:
  assumes "length xs < 2 ^ 31" and "length vMatch = length xs" and "h < 32" and "pos < length (node_row sha xs h)"
    and stop: "h = 0 \<or> \<not> (\<exists>p\<in>set (below (length xs) h pos). vMatch ! p)"
  shows "built sha xs vMatch h pos [\<exists>p\<in>set (below (length xs) h pos). vMatch ! p] [node_row sha xs h ! pos]"
proof -
  let ?f = "\<exists>p\<in>set (below (length xs) h pos). vMatch ! p" and ?x = "node_row sha xs h ! pos"
  note c = CalcHash_row [OF assms(1,3,4)] and f = parent_of_match_below [OF assms(2), of h pos]
  have b: "TraverseAndBuild sha (length xs) xs vMatch h pos (b0, h0) = Inr (b0 @ [?f], h0 @ [?x])" for b0 h0
    using c f stop by (cases h) (auto simp del: funpow.simps CalcHash.simps)
  have m: "matched xs vMatch h pos = (if h = 0 \<and> ?f then [?x] else [])"
    using stop assms(4) by (auto simp: matched_def below_def min_def)
  have "TraverseAndExtract sha (length xs) (b0 @ [?f] @ b1) (h0 @ [?x] @ h1) h pos (length b0, length h0, mm, bad)
      = (?x, length b0 + 1, length h0 + 1, mm @ matched xs vMatch h pos, bad)" for b0 h0 b1 h1 mm bad
    using stop unfolding m by (subst TraverseAndExtract.simps) (auto simp: nth_append)
  moreover have "1 < (2 :: nat) ^ Suc h" by (rule one_less_power) simp_all
  ultimately show ?thesis using b below_nonempty [OF assms(4)] unfolding built_def by (simp add: Suc_le_eq)
qed


lemma built_extract:
  assumes "built sha xs vMatch h pos bs hs" and "B = b0 @ bs @ b1" and "H = h0 @ hs @ h1" and "nb = length b0" and "nh = length h0"
  shows "TraverseAndExtract sha (length xs) B H h pos (nb, nh, m, bad)
    = (node_row sha xs h ! pos, nb + length bs, nh + length hs, m @ matched xs vMatch h pos, bad)"
  using assms unfolding built_def by blast

lemma built_node:
  assumes "length xs < 2 ^ 31" and "length vMatch = length xs" and "Suc h < 32" and "pos < length (node_row sha xs (Suc h))"
    and found: "\<exists>p\<in>set (below (length xs) (Suc h) pos). vMatch ! p"
    and left: "built sha xs vMatch h (2 * pos) bl hl"
    and right: "if 2 * pos + 1 < length (node_row sha xs h) then built sha xs vMatch h (2 * pos + 1) br hr else br = [] \<and> hr = []"
  shows "built sha xs vMatch (Suc h) pos (True # bl @ br) (hl @ hr)"
proof -
  note f = parent_of_match_below [OF assms(2), of "Suc h" pos] and row = node_row_Suc [OF assms(4)]
  have w: "CalcTreeWidth (length xs) h = length (node_row sha xs h)" using CalcTreeWidth_row assms(1,3) by simp
  have b: "TraverseAndBuild sha (length xs) xs vMatch (Suc h) pos (b0, h0) = Inr (b0 @ True # bl @ br, h0 @ hl @ hr)" for b0 h0
    using f found left right w by (auto simp: built_def mult.commute split: if_splits)
  have m: "matched xs vMatch (Suc h) pos
      = matched xs vMatch h (2 * pos) @ (if 2 * pos + 1 < length (node_row sha xs h) then matched xs vMatch h (2 * pos + 1) else [])"
    unfolding matched_split using below_beyond [where sha = sha and xs = xs and h = h and pos = "2 * pos + 1"] by (simp add: matched_def)
  have "TraverseAndExtract sha (length xs) (b0 @ (True # bl @ br) @ b1) (h0 @ (hl @ hr) @ h1) (Suc h) pos (length b0, length h0, mm, bad)
      = (node_row sha xs (Suc h) ! pos, length b0 + length (True # bl @ br), length h0 + length (hl @ hr),
         mm @ matched xs vMatch (Suc h) pos, bad)" for b0 h0 b1 h1 mm bad
  proof -
    let ?B = "b0 @ (True # bl @ br) @ b1" and ?H = "h0 @ (hl @ hr) @ h1"
    have l: "TraverseAndExtract sha (length xs) ?B ?H h (2 * pos) (Suc (length b0), length h0, mm, bad)
        = (node_row sha xs h ! (2 * pos), Suc (length b0) + length bl, length h0 + length hl, mm @ matched xs vMatch h (2 * pos), bad)"
      by (rule built_extract [OF left, of _ "b0 @ [True]" "br @ b1" _ h0 "hr @ h1"]) simp_all
    have r: "TraverseAndExtract sha (length xs) ?B ?H h (2 * pos + 1) (Suc (length b0) + length bl, length h0 + length hl, mm', bad)
        = (node_row sha xs h ! (2 * pos + 1), Suc (length b0) + length bl + length br, length h0 + length hl + length hr,
           mm' @ matched xs vMatch h (2 * pos + 1), bad)" if "2 * pos + 1 < length (node_row sha xs h)" for mm'
      by (rule built_extract [of sha xs vMatch _ _ br hr _ "b0 @ True # bl" b1 _ "h0 @ hl" h1]) (use right that in simp_all)
    show ?thesis
      by (subst TraverseAndExtract.simps) (use l r w m row(2) right in \<open>simp add: mult.commute del: funpow.simps\<close>)
  qed
  moreover have "length (below (length xs) (Suc h) pos) = length (below (length xs) h (2 * pos)) + length (below (length xs) h (2 * pos + 1))"
    unfolding below_split by simp
  ultimately show ?thesis using b left right unfolding built_def by (auto split: if_splits)
qed

lemma build_extract:
  assumes "length xs < 2 ^ 31" and "length vMatch = length xs"
  shows "h < 32 \<Longrightarrow> pos < length (node_row sha xs h) \<Longrightarrow> \<exists>bs hs. built sha xs vMatch h pos bs hs"
proof (induction h arbitrary: pos)
  case 0
  then show ?case using built_leaf [OF assms] by blast
next
  case (Suc h)
  show ?case
  proof (cases "\<exists>p\<in>set (below (length xs) (Suc h) pos). vMatch ! p")
    case True
    obtain bl hl where "built sha xs vMatch h (2 * pos) bl hl"
      using Suc.IH [OF _ node_row_Suc(1) [OF Suc.prems(2)]] Suc.prems(1) by auto
    moreover have "\<exists>br hr. if 2 * pos + 1 < length (node_row sha xs h) then built sha xs vMatch h (2 * pos + 1) br hr else br = [] \<and> hr = []"
      using Suc.IH [of "2 * pos + 1"] Suc.prems(1) by (cases "2 * pos + 1 < length (node_row sha xs h)") auto
    ultimately show ?thesis using built_node [OF assms Suc.prems True] by blast
  next
    case False
    then show ?thesis using built_leaf [OF assms Suc.prems] by blast
  qed
qed


section \<open>Height and root\<close>

lemma tree_height_root:
  assumes "length xs < 2 ^ 31" and "xs \<noteq> []"
  shows "h < 32 \<Longrightarrow> tree_height (length xs) h < 32 \<and> length (node_row sha xs (tree_height (length xs) h)) = 1
    \<and> merkle_root (Hash2 sha) (node_row sha xs h) = node_row sha xs (tree_height (length xs) h) ! 0"
proof (induction "length xs" h rule: tree_height.induct)
  case (1 h)
  note w = CalcTreeWidth_row [OF assms(1) 1(2), of sha]
  show ?case
  proof (cases "CalcTreeWidth (length xs) h > 1")
    case True
    have "h \<noteq> 31" using True w assms(1) unfolding length_node_row by (auto simp: less_Suc_eq_le div_le_mono div_le_dividend)
    with 1 True have IH: "tree_height (length xs) (h + 1) < 32" "length (node_row sha xs (tree_height (length xs) (h + 1))) = 1"
      "merkle_root (Hash2 sha) (node_row sha xs (h + 1)) = node_row sha xs (tree_height (length xs) (h + 1)) ! 0" by auto
    have "tree_height (length xs) h = tree_height (length xs) (h + 1)" using True by (subst tree_height.simps) simp
    moreover have "merkle_root (Hash2 sha) (node_row sha xs h) = merkle_root (Hash2 sha) (node_row sha xs (h + 1))"
      using True w by (subst merkle_root.simps) simp
    ultimately show ?thesis using IH by simp
  next
    case False
    then have t: "tree_height (length xs) h = h" by (subst tree_height.simps) simp
    have "0 < length (node_row sha xs h)" using node_row_bounds [where pos = 0 and xs = xs and h = h and sha = sha] assms(2) by simp
    with False w have l: "length (node_row sha xs h) = 1" by linarith
    then show ?thesis using 1(2) t by (subst merkle_root.simps) (auto simp: hd_conv_nth)
  qed
qed

lemma tree_height_le: "CalcTreeWidth n k \<le> 1 \<Longrightarrow> h \<le> k \<Longrightarrow> tree_height n h \<le> k"
proof (induction n h rule: tree_height.induct)
  case (1 n h)
  show ?case
  proof (cases "CalcTreeWidth n h > 1")
    case True
    with 1(2,3) have "h + 1 \<le> k" by (cases "h = k") auto
    with 1 True show ?thesis by (subst tree_height.simps) simp
  next
    case False
    with 1(3) show ?thesis by (subst tree_height.simps) simp
  qed
qed

lemma matched_root:
  assumes "length vMatch = length xs" and "length (node_row sha xs h) = 1"
  shows "matched xs vMatch h 0 = map fst (filter snd (zip xs vMatch))"
proof -
  have "\<not> 1 < length (node_row sha xs h)" using assms(2) by simp
  then have "length xs \<le> 2 ^ h" using node_row_bounds [where pos = 1 and xs = xs and h = h and sha = sha] by simp
  then have "below (length xs) h 0 = [0..<length xs]" by (simp add: below_def min_def)
  moreover have "zip xs vMatch = map (\<lambda>i. (xs ! i, vMatch ! i)) [0..<length xs]"
    using assms(1) by (intro nth_equalityI) auto
  ultimately show ?thesis by (simp add: matched_def filter_map o_def)
qed

section \<open>Bits in bytes\<close>

lemma pack_bits_prefix:
  assumes "k \<le> length bits"
  shows "let v = fold (\<lambda>p v. v[p div 8 := v ! (p div 8) OR push_bit (p mod 8) (of_bool (bits ! p))]) [0..<k]
      (replicate ((length bits + 7) div 8) (0 :: byte)) in
    length v = (length bits + 7) div 8 \<and> (\<forall>q<length v. \<forall>j<8. bit (v ! q) j \<longleftrightarrow> 8 * q + j < k \<and> bits ! (8 * q + j))"
  using assms
proof (induction k)
  case (Suc k)
  let ?f = "\<lambda>p v. v[p div 8 := v ! (p div 8) OR push_bit (p mod 8) (of_bool (bits ! p))]"
  let ?v = "fold ?f [0..<k] (replicate ((length bits + 7) div 8) (0 :: byte))"
  from Suc have IH: "length ?v = (length bits + 7) div 8"
    "\<And>q j. q < length ?v \<Longrightarrow> j < 8 \<Longrightarrow> bit (?v ! q) j \<longleftrightarrow> 8 * q + j < k \<and> bits ! (8 * q + j)" by (simp_all add: Let_def)
  have k: "k div 8 < length ?v" using Suc.prems IH(1) by linarith
  have pos: "8 * q + j = k \<longleftrightarrow> q = k div 8 \<and> j = k mod 8" if "j < 8" for q j using that by auto
  have "bit (?f k ?v ! q) j \<longleftrightarrow> 8 * q + j < Suc k \<and> bits ! (8 * q + j)" if "q < length ?v" "j < 8" for q j
    using IH(2) [OF that] pos [OF that(2), of q] that k
    by (cases "q = k div 8") (auto simp: nth_list_update bit_or_iff bit_push_bit_iff bit_of_bool_iff bit_1_iff less_Suc_eq)
  then show ?case using IH(1) by (simp add: Let_def)
qed simp

lemma unpack_pack: "unpack_bits (pack_bits bits) = bits @ replicate (8 * ((length bits + 7) div 8) - length bits) False"
proof -
  let ?v = "pack_bits bits"
  from pack_bits_prefix [of "length bits" bits] have v: "length ?v = (length bits + 7) div 8"
    "\<And>q j. q < length ?v \<Longrightarrow> j < 8 \<Longrightarrow> bit (?v ! q) j \<longleftrightarrow> 8 * q + j < length bits \<and> bits ! (8 * q + j)"
    by (simp_all add: Let_def pack_bits_def)
  have le: "length bits \<le> 8 * length ?v" using v(1) by simp
  have "bit (?v ! (p div 8)) (p mod 8) \<longleftrightarrow> (bits @ replicate (8 * length ?v - length bits) False) ! p" if "p < 8 * length ?v" for p
    using v(2) [of "p div 8" "p mod 8"] that by (auto simp: nth_append)
  then have "map (\<lambda>p. bit (?v ! (p div 8)) (p mod 8)) [0..<length ?v * 8] = bits @ replicate (8 * length ?v - length bits) False"
    using le by (intro nth_equalityI) simp_all
  then show ?thesis unfolding unpack_bits_def bit_iff_and_push_bit_not_eq_0 v(1) .
qed


section \<open>Round trip\<close>

text \<open>A tree that was built, followed by any padding, is accepted.\<close>

lemma ExtractMatches_built:
  assumes "length vMatch = length xs" and "xs \<noteq> []" and "length xs \<le> MAX_BLOCK_SIZE div 60"
    and "built sha xs vMatch (tree_height (length xs) 0) 0 bs hs" and "nTransactions t = length xs" and "vHash t = hs" and "\<not> fBad t"
    and "vBits t = bs @ pad" and "(length (bs @ pad) + 7) div 8 = (length bs + 7) div 8"
  shows "ExtractMatches sha t = (merkle_root (Hash2 sha) xs, map fst (filter snd (zip xs vMatch)), t)"
proof -
  have n: "length xs < 2 ^ 31" using assms(3) by (simp add: MAX_BLOCK_SIZE_def)
  note h = tree_height_root [OF n assms(2), of 0 sha, simplified]
  have "TraverseAndExtract sha (length xs) (vBits t) (vHash t) (tree_height (length xs) 0) 0 (0, 0, [], False)
      = (node_row sha xs (tree_height (length xs) 0) ! 0, length bs, length hs, matched xs vMatch (tree_height (length xs) 0) 0, False)"
    using built_extract [OF assms(4), of "vBits t" "[]" pad "vHash t" "[]" "[]" 0 0 "[]" False] assms(6,8) by simp
  moreover have "length hs \<le> length bs" "length hs \<le> length xs"
    using assms(4) by (auto simp: built_def below_def)
  moreover have "matched xs vMatch (tree_height (length xs) 0) 0 = map fst (filter snd (zip xs vMatch))"
    by (rule matched_root [OF assms(1), where sha = sha]) (use h in simp)
  moreover have "t\<lparr>fBad := False\<rparr> = t" using assms(7) by (cases t) simp
  ultimately show ?thesis using assms h by (simp add: ExtractMatches_def)
qed

interpretation hashes: codec "ser_vector (ser_word :: u256 \<Rightarrow> byte list)" "unser_vector unser_word"
  "\<lambda>v. length v \<le> MAX_SIZE \<and> (\<forall>x\<in>set v. True)"
  by (rule codec_vector) (rule word256.codec_axioms)

lemma unser_ser_partial:
  assumes "length (vHash t) \<le> MAX_SIZE" and "length (vBits t) < 2 ^ 24" and "nTransactions t < 2 ^ 32"
  shows "unser_CPartialMerkleTree (ser_CPartialMerkleTree t @ rest)
    = Inr (t\<lparr>vBits := vBits t @ replicate (8 * ((length (vBits t) + 7) div 8) - length (vBits t)) False, fBad := False\<rparr>, rest)"
proof -
  have l: "length (pack_bits (vBits t)) = (length (vBits t) + 7) div 8"
    using pack_bits_prefix [of "length (vBits t)" "vBits t"] by (simp add: Let_def pack_bits_def)
  have "unser_bytes (ser_bytes (pack_bits (vBits t)) @ rest) = Inr (pack_bits (vBits t), rest)"
    by (rule bytes.read_back) (use assms(2) in \<open>simp add: l MAX_SIZE_def\<close>)
  moreover have "unser_vector unser_word (ser_vector ser_word (vHash t) @ s) = Inr (vHash t, s)" for s
    by (rule hashes.read_back) (use assms(1) in simp)
  moreover have "unat (word_of_nat (nTransactions t) :: u32) = nTransactions t" using assms(3) by (simp add: unat_of_nat)
  ultimately show ?thesis
    by (simp add: unser_CPartialMerkleTree_def ser_CPartialMerkleTree_def word32.read_back unpack_pack)
qed

text \<open>C24: A partial Merkle tree built for the transactions of a block gives back the Merkle root of the block and exactly the
  matching transactions in their order, both directly and after it was written and read.\<close>

theorem partial_tree_roundtrip:
  assumes "txids \<noteq> []" and "length txids \<le> MAX_BLOCK_SIZE div 60" and "length vMatch = length txids"
  shows "\<exists>t t'. CPartialMerkleTree_of sha txids vMatch = Inr t
    \<and> ExtractMatches sha t = (merkle_root (Hash2 sha) txids, map fst (filter snd (zip txids vMatch)), t)
    \<and> unser_CPartialMerkleTree (ser_CPartialMerkleTree t @ rest) = Inr (t', rest)
    \<and> ExtractMatches sha t' = (merkle_root (Hash2 sha) txids, map fst (filter snd (zip txids vMatch)), t')"
proof -
  have n: "length txids < 2 ^ 31" "length txids \<le> 16666" using assms(2) by (simp_all add: MAX_BLOCK_SIZE_def)
  let ?h = "tree_height (length txids) 0"
  note h = tree_height_root [OF n(1) assms(1), of 0 sha, simplified]
  obtain bs hs where b: "built sha txids vMatch ?h 0 bs hs"
    using build_extract [OF n(1) assms(3), of ?h 0 sha] h by auto
  define t where "t = \<lparr>nTransactions = length txids, vBits = bs, vHash = hs, fBad = False\<rparr>"
  let ?pad = "replicate (8 * ((length bs + 7) div 8) - length bs) False"
  have "CPartialMerkleTree_of sha txids vMatch = Inr t"
    using b n(1) by (simp add: CPartialMerkleTree_of_def t_def built_def)
  moreover have "ExtractMatches sha t = (merkle_root (Hash2 sha) txids, map fst (filter snd (zip txids vMatch)), t)"
    by (rule ExtractMatches_built [OF assms(3,1,2) b, where pad = "[]"]) (simp_all add: t_def)
  moreover have "unser_CPartialMerkleTree (ser_CPartialMerkleTree t @ rest) = Inr (t\<lparr>vBits := bs @ ?pad\<rparr>, rest)"
  proof -
    have "CalcTreeWidth (length txids) 15 \<le> 1" using n(2) by (simp add: CalcTreeWidth_def)
    then have "?h \<le> 15" by (rule tree_height_le) simp
    then have "(2 :: nat) ^ Suc ?h \<le> 2 ^ 16" by (intro power_increasing) auto
    with b have "length bs < 2 ^ 16" unfolding built_def by linarith
    moreover have "length hs \<le> length bs" using b unfolding built_def by simp
    ultimately show ?thesis
      using unser_ser_partial [of t rest] n(1) by (simp add: t_def MAX_SIZE_def)
  qed
  moreover have "ExtractMatches sha (t\<lparr>vBits := bs @ ?pad\<rparr>)
      = (merkle_root (Hash2 sha) txids, map fst (filter snd (zip txids vMatch)), t\<lparr>vBits := bs @ ?pad\<rparr>)"
    by (rule ExtractMatches_built [OF assms(3,1,2) b, where pad = ?pad]) (simp_all add: t_def)
  ultimately show ?thesis by blast
qed

theorem partial_tree_roundtrip_witness:
  "\<exists>t t'. CPartialMerkleTree_of rev [5, 6, 7] [False, False, True] = Inr t
    \<and> ExtractMatches rev t = (merkle_root (Hash2 rev) [5, 6, 7], [7], t)
    \<and> unser_CPartialMerkleTree (ser_CPartialMerkleTree t @ [1]) = Inr (t', [1])
    \<and> ExtractMatches rev t' = (merkle_root (Hash2 rev) [5, 6, 7], [7], t')"
  using partial_tree_roundtrip [of "[5, 6, 7]" "[False, False, True]" rev "[1]"] by (simp add: MAX_BLOCK_SIZE_def)


section \<open>Soundness\<close>

text \<open>The pairs that are hashed: in the tree of a block up to a height, and during an extraction.\<close>

definition tree_pairs :: "(byte list \<Rightarrow> byte list) \<Rightarrow> u256 list \<Rightarrow> nat \<Rightarrow> (u256 \<times> u256) set" where
  "tree_pairs sha xs H = {(node_row sha xs h ! (2 * p),
       if 2 * p + 1 < length (node_row sha xs h) then node_row sha xs h ! (2 * p + 1) else node_row sha xs h ! (2 * p)) | h p.
     h < H \<and> p < length (node_row sha xs (Suc h))}"

fun extract_pairs :: "(byte list \<Rightarrow> byte list) \<Rightarrow> nat \<Rightarrow> bool list \<Rightarrow> u256 list \<Rightarrow> nat \<Rightarrow> nat \<Rightarrow> extract_state \<Rightarrow> (u256 \<times> u256) set" where
  "extract_pairs sha nTx bits hashes 0 pos s = {}"
| "extract_pairs sha nTx bits hashes (Suc h) pos (nb, nh, m, bad) =
     (if nb \<ge> length bits \<or> \<not> bits ! nb then {}
      else
        let s = (nb + 1, nh, m, bad);
            (left, s1) = TraverseAndExtract sha nTx bits hashes h (pos * 2) s;
            (right, s2) = TraverseAndExtract sha nTx bits hashes h (pos * 2 + 1) s1
        in if pos * 2 + 1 < CalcTreeWidth nTx h
           then insert (left, right) (extract_pairs sha nTx bits hashes h (pos * 2) s \<union> extract_pairs sha nTx bits hashes h (pos * 2 + 1) s1)
           else insert (left, left) (extract_pairs sha nTx bits hashes h (pos * 2) s))"

lemma tree_pairs_mono: "h \<le> h' \<Longrightarrow> tree_pairs sha xs h \<subseteq> tree_pairs sha xs h'"
  unfolding tree_pairs_def by fastforce

lemma TraverseAndExtract_Suc:
  "TraverseAndExtract sha n bits hashes (Suc h) pos (nb, nh, m, bad) =
    (if nb \<ge> length bits then (0, nb, nh, m, True)
     else if \<not> bits ! nb then
       (if nh \<ge> length hashes then (0, nb + 1, nh, m, True) else (hashes ! nh, nb + 1, nh + 1, m, bad))
     else let (left, s1) = TraverseAndExtract sha n bits hashes h (pos * 2) (nb + 1, nh, m, bad);
              (right, s2) = (if pos * 2 + 1 < CalcTreeWidth n h then TraverseAndExtract sha n bits hashes h (pos * 2 + 1) s1 else (left, s1))
          in (Hash2 sha left right, s2))"
  by (subst TraverseAndExtract.simps) (simp only: Let_def diff_Suc_1 nat.distinct simp_thms if_False)

lemma TraverseAndExtract_0:
  "TraverseAndExtract sha n bits hashes 0 pos (nb, nh, m, bad) =
    (if nb \<ge> length bits then (0, nb, nh, m, True)
     else if nh \<ge> length hashes then (0, nb + 1, nh, m, True)
     else (hashes ! nh, nb + 1, nh + 1, if bits ! nb then m @ [hashes ! nh] else m, bad))"
  by (subst TraverseAndExtract.simps) (auto simp: Let_def)

lemma extract_bad_mono:
  "TraverseAndExtract sha n bits hashes h pos (nb, nh, m, bad) = (x, nb', nh', m', bad') \<Longrightarrow> bad \<Longrightarrow> bad'"
proof (induction h arbitrary: pos nb nh m bad x nb' nh' m' bad')
  case 0
  then show ?case by (auto simp: TraverseAndExtract_0 split: if_splits)
next
  case (Suc h)
  obtain l nb1 nh1 m1 bad1 where l: "TraverseAndExtract sha n bits hashes h (pos * 2) (nb + 1, nh, m, bad) = (l, nb1, nh1, m1, bad1)"
    by (cases "TraverseAndExtract sha n bits hashes h (pos * 2) (nb + 1, nh, m, bad)") auto
  from Suc.IH [OF l] Suc.prems(2) have bad1 by simp
  with Suc.prems l Suc.IH [of "pos * 2 + 1" nb1 nh1 m1 bad1] show ?case
    by (auto simp: TraverseAndExtract_Suc split: if_splits prod.splits)
qed


text \<open>Without a collision an extraction that ends in a node of the tree follows the tree down to the transactions.\<close>

lemma extract_sound:
  assumes n: "length xs < 2 ^ 31"
  shows "TraverseAndExtract sha (length xs) bits hashes h pos (nb, nh, m, bad) = (x, nb', nh', m', bad') \<Longrightarrow> \<not> bad' \<Longrightarrow>
    h < 32 \<Longrightarrow> pos < length (node_row sha xs h) \<Longrightarrow> x = node_row sha xs h ! pos \<Longrightarrow>
    (\<forall>(a, b)\<in>extract_pairs sha (length xs) bits hashes h pos (nb, nh, m, bad). \<forall>(c, d)\<in>tree_pairs sha xs h.
       Hash2 sha a b = Hash2 sha c d \<longrightarrow> a = c \<and> b = d) \<Longrightarrow>
    \<exists>ms. m' = m @ ms \<and> set ms \<subseteq> set xs"
proof (induction h arbitrary: pos nb nh m bad x nb' nh' m' bad')
  case 0
  then show ?case by (auto simp: TraverseAndExtract_0 split: if_splits)
next
  case (Suc h)
  let ?s = "(nb + 1, nh, m, bad)" and ?T = "TraverseAndExtract sha (length xs) bits hashes h"
    and ?E = "extract_pairs sha (length xs) bits hashes h"
  have w: "CalcTreeWidth (length xs) h = length (node_row sha xs h)" using CalcTreeWidth_row [OF n] Suc.prems(3) by simp
  note row = node_row_Suc [OF Suc.prems(4)]
  show ?case
  proof (cases "nb < length bits \<and> bits ! nb")
    case False
    with Suc.prems(1,2) show ?thesis by (auto simp: TraverseAndExtract_Suc split: if_splits)
  next
    case True
    obtain l nb1 nh1 m1 bad1 where l: "?T (pos * 2) ?s = (l, nb1, nh1, m1, bad1)" by (cases "?T (pos * 2) ?s") auto
    obtain r nb2 nh2 m2 bad2 where r: "?T (pos * 2 + 1) (nb1, nh1, m1, bad1) = (r, nb2, nh2, m2, bad2)"
      by (cases "?T (pos * 2 + 1) (nb1, nh1, m1, bad1)") auto
    have two: "2 * pos = pos * 2" by simp
    define right where "right = (pos * 2 + 1 < length (node_row sha xs h))"
    have res: "x = Hash2 sha l (if right then r else l)" "m' = (if right then m2 else m1)" "bad' = (if right then bad2 else bad1)"
      using Suc.prems(1) True l r w by (auto simp: TraverseAndExtract_Suc right_def split: if_splits)
    have pairs: "extract_pairs sha (length xs) bits hashes (Suc h) pos (nb, nh, m, bad)
        = insert (l, if right then r else l) (?E (pos * 2) ?s \<union> (if right then ?E (pos * 2 + 1) (nb1, nh1, m1, bad1) else {}))"
      using True l r w by (auto simp: right_def)
    let ?c = "node_row sha xs h ! (pos * 2)" and ?d = "if right then node_row sha xs h ! (pos * 2 + 1) else node_row sha xs h ! (pos * 2)"
    have "(?c, ?d) \<in> tree_pairs sha xs (Suc h)"
      using Suc.prems(4) unfolding tree_pairs_def right_def two [symmetric] by blast
    moreover have "Hash2 sha l (if right then r else l) = Hash2 sha ?c ?d"
      using Suc.prems(5) res(1) row(2) unfolding right_def two by simp
    ultimately have lr: "l = ?c" "right \<longrightarrow> r = node_row sha xs h ! (pos * 2 + 1)"
      using Suc.prems(6) unfolding pairs by auto
    have sub: "\<And>p. p \<in> tree_pairs sha xs h \<Longrightarrow> p \<in> tree_pairs sha xs (Suc h)" using tree_pairs_mono [of h "Suc h"] by auto
    have bad1: "\<not> bad1" using Suc.prems(2) res(3) extract_bad_mono [OF r] by (cases right) auto
    obtain ms1 where m1: "m1 = m @ ms1" "set ms1 \<subseteq> set xs"
      using Suc.IH [OF l bad1 _ _ lr(1)] Suc.prems(3,6) row(1) sub unfolding pairs two by fastforce
    show ?thesis
    proof (cases right)
      case True
      then obtain ms2 where "m2 = m1 @ ms2" "set ms2 \<subseteq> set xs"
        using Suc.IH [OF r _ _ _ lr(2) [rule_format, OF True]] Suc.prems(2,3,6) res(3) sub unfolding pairs right_def by fastforce
      with m1 res(2) True show ?thesis by auto
    next
      case False
      with m1 res(2) show ?thesis by auto
    qed
  qed
qed

text \<open>The number of transactions is taken from the message as well and is compared with nothing. A message that states one transaction leads to any
  root it names and names this root as a transaction, so the number has to be known to be right.\<close>

lemma forged_count_extracts_root:
  assumes "nTransactions t = 1" and "vHash t = [root]" and "vBits t = [True]" and "\<not> fBad t"
  shows "ExtractMatches sha t = (root, [root], t)"
proof -
  have "tree_height 1 0 = 0" by (subst tree_height.simps) (simp add: CalcTreeWidth_def)
  moreover have "t\<lparr>fBad := False\<rparr> = t" using assms(4) by (cases t) simp
  ultimately show ?thesis using assms by (simp add: ExtractMatches_def MAX_BLOCK_SIZE_def TraverseAndExtract.simps)
qed

text \<open>C23: A partial Merkle tree from anywhere that states the number of transactions of a block and leads to the Merkle root of this
  block, which is not zero, names only transactions of the block, or else the extraction and the tree of the block together contain two
  different pairs with the same hash. The number of transactions is a condition on the message: \<open>ExtractMatches\<close> does not
  check it.\<close>

theorem partial_tree_sound:
  assumes "ExtractMatches sha t = (root, ms, t')" and "root \<noteq> 0" and "root = merkle_root (Hash2 sha) txids"
    and "nTransactions t = length txids"
  shows "set ms \<subseteq> set txids \<or> (\<exists>a b c d. (a, b) \<noteq> (c, d) \<and> Hash2 sha a b = Hash2 sha c d
    \<and> (a, b) \<in> extract_pairs sha (length txids) (vBits t) (vHash t) (tree_height (length txids) 0) 0 (0, 0, [], fBad t)
    \<and> (c, d) \<in> tree_pairs sha txids (tree_height (length txids) 0))"
proof -
  let ?h = "tree_height (length txids) 0"
  have ne: "txids \<noteq> []" and n: "length txids < 2 ^ 31"
    using assms by (auto simp: ExtractMatches_def MAX_BLOCK_SIZE_def split: if_splits)
  from assms(1,2,4) obtain nb nh where e: "TraverseAndExtract sha (length txids) (vBits t) (vHash t) ?h 0 (0, 0, [], fBad t) = (root, nb, nh, ms, False)"
    by (auto simp: ExtractMatches_def Let_def split: if_splits prod.splits)
  note h = tree_height_root [OF n ne, of 0 sha, simplified]
  have "root = node_row sha txids ?h ! 0" "?h < 32" "0 < length (node_row sha txids ?h)" using assms(3) h by simp_all
  from extract_sound [OF n e _ this(2,3,1)] show ?thesis by fastforce
qed

lemma Hash2_rev: "Hash2 rev a b = a"
proof -
  have "unat a < 256 ^ 32" using unsigned_less [of a, where ?'a = nat] by simp
  then have "le_nat (ser_word a @ ser_word b) = unat a + 2 ^ 256 * le_nat (ser_word b)"
    by (simp add: le_nat_append ser_word_def ser_uint_def le_nat_le_bytes)
  moreover have "(word_of_nat (2 ^ 256 * le_nat (ser_word b)) :: u256) = 0" unfolding word_of_nat_eq_0_iff by simp
  ultimately have "word_of_nat (le_nat (ser_word a @ ser_word b)) = a" by (simp only: of_nat_add) simp
  then show ?thesis by (simp add: Hash2_def Hash_def)
qed

theorem partial_tree_sound_witness:
  "set [7] \<subseteq> set [5, 6, 7 :: u256] \<or> (\<exists>a b c d. (a, b) \<noteq> (c, d) \<and> Hash2 rev a b = Hash2 rev c d
    \<and> (a, b) \<in> extract_pairs rev 3 [True, False, True, True] [5, 7] 2 0 (0, 0, [], False)
    \<and> (c, d) \<in> tree_pairs rev [5, 6, 7] 2)"
proof -
  let ?t = "\<lparr>nTransactions = 3, vBits = [True, False, True, True], vHash = [5, 7], fBad = False\<rparr>"
  have w: "CalcTreeWidth 3 0 = 3" "CalcTreeWidth 3 (Suc 0) = 2" "CalcTreeWidth 3 2 = 1" by (simp_all add: CalcTreeWidth_def)
  have h: "tree_height 3 0 = 2"
  proof -
    have "tree_height 3 0 = tree_height 3 (Suc 0)" by (subst tree_height.simps) (simp add: w)
    also have "\<dots> = tree_height 3 2" by (subst tree_height.simps) (simp add: w numeral_2_eq_2)
    also have "\<dots> = 2" by (subst tree_height.simps) (simp add: w)
    finally show ?thesis .
  qed
  have "merkle_root (Hash2 rev) [5, 6, 7] = 5"
  proof -
    have "merkle_root (Hash2 rev) [5, 6, 7] = merkle_root (Hash2 rev) [5, 7]" by (subst merkle_root.simps) (simp add: Hash2_rev)
    also have "\<dots> = merkle_root (Hash2 rev) [5]" by (subst merkle_root.simps) (simp add: Hash2_rev)
    also have "\<dots> = 5" by (subst merkle_root.simps) simp
    finally show ?thesis .
  qed
  moreover have "TraverseAndExtract rev 3 [True, False, True, True] [5, 7] (Suc (Suc 0)) 0 (0, 0, [], False) = (5, 4, 2, [7], False)"
    by (simp add: TraverseAndExtract_Suc TraverseAndExtract_0 w Hash2_rev)
  from this [folded numeral_2_eq_2] have "ExtractMatches rev ?t = (5, [7], ?t)" by (simp add: ExtractMatches_def h MAX_BLOCK_SIZE_def)
  ultimately show ?thesis using partial_tree_sound [of rev ?t 5 "[7]" ?t "[5, 6, 7]"] h by simp
qed

end
