(* ===== verification/Chain_Check.thy ===== *)
theory Chain_Check
  imports Chain_Lotto Chain_Work Merkle_Partial
begin

text \<open>
  The rules for transactions and blocks that need no coins, all of \<open>main.cpp\<close>: \<open>CheckTransaction\<close>, \<open>IsFinalTx\<close>, the count of
  signature operations (with \<open>CScript::GetSigOpCount\<close> of \<open>script.cpp\<close>), \<open>CheckBlock\<close> and the subsidy \<open>GetBlockValue\<close>.

  An accepted block starts with its only coinbase, its transactions have distinct ids and amounts in range, and
  its Merkle root commits to them. Along a chain of accepted blocks the lottery pool stays solvent. The subsidies of all heights together stay below \<open>MAX_MONEY\<close>.
\<close>

section \<open>Transactions\<close>

definition REJECT_INVALID :: nat where "REJECT_INVALID = 0x10"

abbreviation invalid :: "int \<Rightarrow> string \<Rightarrow> verdict" where
  "invalid level reason \<equiv> Reject level REJECT_INVALID reason False"

fun check_outputs :: "CTxOut list \<Rightarrow> int \<Rightarrow> verdict result" where
  "check_outputs [] nValueOut = Inr Accept"
| "check_outputs (txout # r) nValueOut =
     (if out_value txout < 0 then Inr (invalid 100 ''bad-txns-vout-negative'')
      else if out_value txout > MAX_MONEY then Inr (invalid 100 ''bad-txns-vout-toolarge'')
      else bindE (i64 (nValueOut + out_value txout)) (\<lambda>nValueOut.
        if \<not> MoneyRange nValueOut then Inr (invalid 100 ''bad-txns-txouttotal-toolarge'')
        else check_outputs r nValueOut))"

fun duplicate_inputs :: "CTxIn list \<Rightarrow> COutPoint set \<Rightarrow> bool" where
  "duplicate_inputs [] vInOutPoints = False"
| "duplicate_inputs (txin # r) vInOutPoints =
     (if prevout txin \<in> vInOutPoints then True else duplicate_inputs r (insert (prevout txin) vInOutPoints))"

definition CheckTransaction :: "CTransaction \<Rightarrow> verdict result" where
  "CheckTransaction tx =
     (if vin tx = [] then Inr (invalid 10 ''bad-txns-vin-empty'')
      else if vout tx = [] then Inr (invalid 10 ''bad-txns-vout-empty'')
      else if length (ser_CTransaction tx) > MAX_BLOCK_SIZE then Inr (invalid 100 ''bad-txns-oversize'')
      else bindE (check_outputs (vout tx) 0) (\<lambda>v.
        if v \<noteq> Accept then Inr v
        else if duplicate_inputs (vin tx) {} then Inr (invalid 100 ''bad-txns-inputs-duplicate'')
        else if IsCoinBase tx then
          Inr (if length (scriptSig (hd (vin tx))) < 2 \<or> length (scriptSig (hd (vin tx))) > 100
               then invalid 100 ''bad-cb-length'' else Accept)
        else Inr (if \<exists>txin\<in>set (vin tx). COutPoint_IsNull (prevout txin) then invalid 10 ''bad-txns-prevout-null'' else Accept)))"

definition LOCKTIME_THRESHOLD :: int where "LOCKTIME_THRESHOLD = 500000000"

text \<open>The height of the chain and the adjusted time, used for a height or time 0, are arguments.\<close>

definition IsFinalTx :: "int \<Rightarrow> int \<Rightarrow> CTransaction \<Rightarrow> int \<Rightarrow> int \<Rightarrow> bool" where
  "IsFinalTx chainHeight adjustedTime tx nBlockHeight nBlockTime =
     (if nLockTime tx = 0 then True
      else
        let nBlockHeight = (if nBlockHeight = 0 then chainHeight else nBlockHeight);
            nBlockTime = (if nBlockTime = 0 then adjustedTime else nBlockTime);
            lock = uint (nLockTime tx)
        in if lock < (if lock < LOCKTIME_THRESHOLD then nBlockHeight else nBlockTime) then True
           else \<forall>txin\<in>set (vin tx). CTxIn_IsFinal txin)"

section \<open>Signature operations\<close>

definition OP_0 :: byte where "OP_0 = 0x00"
definition OP_1 :: byte where "OP_1 = 0x51"
definition OP_EQUAL :: byte where "OP_EQUAL = 0x87"
definition OP_CHECKSIGVERIFY :: byte where "OP_CHECKSIGVERIFY = 0xad"
definition OP_CHECKMULTISIG :: byte where "OP_CHECKMULTISIG = 0xae"
definition OP_CHECKMULTISIGVERIFY :: byte where "OP_CHECKMULTISIGVERIFY = 0xaf"
definition OP_INVALIDOPCODE :: byte where "OP_INVALIDOPCODE = 0xff"

text \<open>\<open>DecodeOP_N\<close> is called for \<open>OP_1\<close> to \<open>OP_16\<close> only.\<close>

definition DecodeOP_N :: "byte \<Rightarrow> nat" where
  "DecodeOP_N opcode = (if opcode = OP_0 then 0 else unat opcode - (unat OP_1 - 1))"

function sigop_loop :: "bool \<Rightarrow> byte \<Rightarrow> u32 \<Rightarrow> byte list \<Rightarrow> u32" where
  "sigop_loop fAccurate lastOpcode n pc =
     (if pc = [] then n
      else case GetOp pc of
        None \<Rightarrow> n
      | Some (opcode, _, pc') \<Rightarrow>
          let n = (if opcode = OP_CHECKSIG \<or> opcode = OP_CHECKSIGVERIFY then n + 1
                   else if opcode = OP_CHECKMULTISIG \<or> opcode = OP_CHECKMULTISIGVERIFY then
                     (if fAccurate \<and> lastOpcode \<ge> OP_1 \<and> lastOpcode \<le> OP_16 then n + word_of_nat (DecodeOP_N lastOpcode) else n + 20)
                   else n)
          in sigop_loop fAccurate opcode n pc')"
  by pat_completeness auto
termination
  by (relation "measure (\<lambda>(f, l, n, pc). length pc)") (auto dest: GetOp_shorter)

declare sigop_loop.simps [simp del]

definition GetSigOpCount :: "bool \<Rightarrow> byte list \<Rightarrow> u32" where
  "GetSigOpCount fAccurate s = sigop_loop fAccurate OP_INVALIDOPCODE 0 s"

definition IsPayToScriptHash :: "byte list \<Rightarrow> bool" where
  "IsPayToScriptHash s \<longleftrightarrow> length s = 23 \<and> s ! 0 = OP_HASH160 \<and> s ! 1 = 0x14 \<and> s ! 22 = OP_EQUAL"

text \<open>The last item that a script of pushes leaves on the stack; \<open>None\<close> if it is not one.\<close>

function last_push :: "byte list \<Rightarrow> byte list \<Rightarrow> byte list option" where
  "last_push dat pc =
     (if pc = [] then Some dat
      else case GetOp pc of
        None \<Rightarrow> None
      | Some (opcode, dat, pc') \<Rightarrow> if opcode > OP_16 then None else last_push dat pc')"
  by pat_completeness auto
termination
  by (relation "measure (\<lambda>(d, pc). length pc)") (auto dest: GetOp_shorter)

declare last_push.simps [simp del]

definition GetSigOpCount_P2SH :: "byte list \<Rightarrow> byte list \<Rightarrow> u32" where
  "GetSigOpCount_P2SH s sig =
     (if \<not> IsPayToScriptHash s then GetSigOpCount True s
      else case last_push [] sig of None \<Rightarrow> 0 | Some subscript \<Rightarrow> GetSigOpCount True subscript)"

definition GetLegacySigOpCount :: "CTransaction \<Rightarrow> u32" where
  "GetLegacySigOpCount tx =
     fold (\<lambda>txout n. n + GetSigOpCount False (scriptPubKey txout)) (vout tx)
       (fold (\<lambda>txin n. n + GetSigOpCount False (scriptSig txin)) (vin tx) 0)"

section \<open>Blocks\<close>

definition MAX_BLOCK_SIGOPS :: u32 where "MAX_BLOCK_SIGOPS = 20000"

definition ser_CBlock :: "CBlock \<Rightarrow> byte list" where
  "ser_CBlock b = ser_CBlockHeader b @ ser_vector ser_CTransaction (vtx b)"

definition GetTxHash :: "CBlock \<Rightarrow> nat \<Rightarrow> u256 result" where
  "GetTxHash b nIndex =
     (if \<not> (length (vMerkleTree b) > 0) then Inl AssertFailed
      else if \<not> nIndex < length (vtx b) then Inl AssertFailed
      else vec_at (vMerkleTree b) (int nIndex))"

fun check_transactions :: "CTransaction list \<Rightarrow> verdict result" where
  "check_transactions [] = Inr Accept"
| "check_transactions (tx # r) = bindE (CheckTransaction tx) (\<lambda>v. if v \<noteq> Accept then Inr v else check_transactions r)"

definition tx_hashes :: "CBlock \<Rightarrow> u256 list result" where
  "tx_hashes b = foldE (\<lambda>i hs. bindE (GetTxHash b i) (\<lambda>h. Inr (hs @ [h]))) [0..<length (vtx b)] []"

text \<open>The block is returned with the tree built; \<open>vMerkleTree\<close> is \<open>mutable\<close>. The limit of the proof of work and the adjusted time are
  arguments.\<close>

definition CheckBlock :: "chain_env \<Rightarrow> int \<Rightarrow> int \<Rightarrow> CBlock \<Rightarrow> bool \<Rightarrow> bool \<Rightarrow> (CBlock \<times> verdict) result" where
  "CheckBlock env bnLimit adjustedTime b fCheckPOW fCheckMerkleRoot =
     (if vtx b = [] \<or> length (vtx b) > MAX_BLOCK_SIZE \<or> length (ser_CBlock b) > MAX_BLOCK_SIZE
      then Inr (b, invalid 100 ''bad-blk-length'')
      else if fCheckPOW \<and> \<not> CheckProofOfWork bnLimit (CBlockHeader_GetHash (env_Hash9 env) b) (nBits b)
      then Inr (b, invalid 50 ''high-hash'')
      else if uint (nTime b) > adjustedTime + 2 * 60 * 60 then Inr (b, invalid 0 ''time-too-new'')
      else if vtx b = [] \<or> \<not> IsCoinBase (hd (vtx b)) then Inr (b, invalid 100 ''bad-cb-missing'')
      else if \<exists>tx\<in>set (tl (vtx b)). IsCoinBase tx then Inr (b, invalid 100 ''bad-cb-multiple'')
      else bindE (check_transactions (vtx b)) (\<lambda>v.
        if v \<noteq> Accept then Inr (b, v)
        else bindE (BuildMerkleTree (env_sha env) b) (\<lambda>(b, _).
        bindE (tx_hashes b) (\<lambda>hashes.
          if card (set hashes) \<noteq> length (vtx b) then Inr (b, Reject 100 REJECT_INVALID ''bad-txns-duplicate'' True)
          else if fold (\<lambda>tx n. n + GetLegacySigOpCount tx) (vtx b) 0 > MAX_BLOCK_SIGOPS
          then Inr (b, Reject 100 REJECT_INVALID ''bad-blk-sigops'' True)
          else if fCheckMerkleRoot \<and> vMerkleTree b = [] then Inl OutOfBounds
          else if fCheckMerkleRoot \<and> hashMerkleRoot b \<noteq> last (vMerkleTree b)
          then Inr (b, Reject 100 REJECT_INVALID ''bad-txnmrklroot'' True)
          else Inr (b, Accept)))))"

section \<open>The subsidy\<close>

definition COIN :: int where "COIN = 100000000"

definition nSubsidy :: "int \<Rightarrow> int" where
  "nSubsidy h = (if h < 101 then 100000 * COIN else if h < 105121 then 250 * COIN else if h < 210240 then 130 * COIN else 20)"

definition GetBlockValue :: "int \<Rightarrow> int \<Rightarrow> int result" where
  "GetBlockValue h nFees = i64 (nSubsidy h + nFees)"

section \<open>What an accepted transaction is\<close>

lemma MoneyRange_i64: "MoneyRange a \<Longrightarrow> MoneyRange b \<Longrightarrow> i64 (a + b) = Inr (a + b)"
  by (simp add: MoneyRange_def MAX_MONEY_def i64_def int64_range_def)

lemma sum_list_out_nonneg: "\<forall>v\<in>set vs. 0 \<le> out_value v \<Longrightarrow> 0 \<le> sum_list (map out_value vs)"
  by (intro sum_list_nonneg) auto

lemma check_outputs_Cons:
  assumes "MoneyRange n"
  shows "check_outputs (v # vs) n = (if out_value v < 0 then Inr (invalid 100 ''bad-txns-vout-negative'')
    else if out_value v > MAX_MONEY then Inr (invalid 100 ''bad-txns-vout-toolarge'')
    else if \<not> MoneyRange (n + out_value v) then Inr (invalid 100 ''bad-txns-txouttotal-toolarge'')
    else check_outputs vs (n + out_value v))"
proof (cases "MoneyRange (out_value v)")
  case True
  then show ?thesis by (simp only: check_outputs.simps MoneyRange_i64 [OF assms True] bindE_simps)
next
  case False
  then show ?thesis by (auto simp: MoneyRange_def)
qed

lemma check_outputs_Accept:
  assumes "MoneyRange n"
  shows "check_outputs vs n = Inr Accept \<longleftrightarrow> (\<forall>v\<in>set vs. 0 \<le> out_value v) \<and> n + sum_list (map out_value vs) \<le> MAX_MONEY"
  using assms
proof (induction vs arbitrary: n)
  case (Cons v vs)
  note step = check_outputs_Cons [OF Cons.prems, of v vs]
  show ?case
  proof (cases "0 \<le> out_value v \<and> n + out_value v \<le> MAX_MONEY")
    case True
    then have t: "MoneyRange (n + out_value v)" "out_value v \<le> MAX_MONEY" using Cons.prems by (auto simp: MoneyRange_def)
    show ?thesis using Cons.IH [OF t(1)] True t step by (simp add: add.assoc)
  next
    case False
    then have "check_outputs (v # vs) n \<noteq> Inr Accept" using Cons.prems by (auto simp: step MoneyRange_def)
    moreover have "\<not> ((\<forall>v\<in>set (v # vs). 0 \<le> out_value v) \<and> n + sum_list (map out_value (v # vs)) \<le> MAX_MONEY)"
      using False sum_list_out_nonneg [of vs] by auto
    ultimately show ?thesis by blast
  qed
qed (simp add: MoneyRange_def)

lemma check_outputs_total: "MoneyRange n \<Longrightarrow> \<exists>v. check_outputs vs n = Inr v"
proof (induction vs arbitrary: n)
  case (Cons v vs)
  then show ?case by (auto simp: check_outputs_Cons simp del: check_outputs.simps)
qed simp

lemma duplicate_inputs_iff: "duplicate_inputs ins S \<longleftrightarrow> \<not> (distinct (map prevout ins) \<and> prevout ` set ins \<inter> S = {})"
  by (induction ins arbitrary: S) auto

lemma CheckTransaction_total: "\<exists>v. CheckTransaction tx = Inr v"
proof -
  obtain v where "check_outputs (vout tx) 0 = Inr v" using check_outputs_total [of 0] by (auto simp: MoneyRange_def MAX_MONEY_def)
  then show ?thesis by (auto simp: CheckTransaction_def)
qed

lemma CheckTransaction_Accept:
  "CheckTransaction tx = Inr Accept \<longleftrightarrow>
    vin tx \<noteq> [] \<and> vout tx \<noteq> [] \<and> length (ser_CTransaction tx) \<le> MAX_BLOCK_SIZE
    \<and> (\<forall>v\<in>set (vout tx). 0 \<le> out_value v) \<and> sum_list (map out_value (vout tx)) \<le> MAX_MONEY
    \<and> distinct (map prevout (vin tx))
    \<and> (if IsCoinBase tx then length (scriptSig (hd (vin tx))) \<in> {2..100} else \<forall>i\<in>set (vin tx). \<not> COutPoint_IsNull (prevout i))"
proof -
  have m: "MoneyRange 0" by (simp add: MoneyRange_def MAX_MONEY_def)
  obtain v where v: "check_outputs (vout tx) 0 = Inr v" using check_outputs_total [OF m] by blast
  show ?thesis using check_outputs_Accept [OF m, of "vout tx"]
    by (cases "v = Accept") (auto simp: CheckTransaction_def v duplicate_inputs_iff not_less)
qed

text \<open>C30: \<open>CheckTransaction\<close> never faults and accepts exactly the transactions that have inputs and outputs, fit a block, have
  amounts that are not negative with a sum of at most \<open>MAX_MONEY\<close>, spend no output twice, and have a coinbase script of 2 to
  100 bytes or no null input.\<close>

theorem CheckTransaction_iff:
  "\<exists>v. CheckTransaction tx = Inr v \<and> (v = Accept \<longleftrightarrow>
    vin tx \<noteq> [] \<and> vout tx \<noteq> [] \<and> length (ser_CTransaction tx) \<le> MAX_BLOCK_SIZE
    \<and> (\<forall>v\<in>set (vout tx). 0 \<le> out_value v) \<and> sum_list (map out_value (vout tx)) \<le> MAX_MONEY
    \<and> distinct (map prevout (vin tx))
    \<and> (if IsCoinBase tx then length (scriptSig (hd (vin tx))) \<in> {2..100} else \<forall>i\<in>set (vin tx). \<not> COutPoint_IsNull (prevout i)))"
  using CheckTransaction_total [of tx] unfolding CheckTransaction_Accept [of tx, symmetric] by auto

section \<open>What an accepted block is\<close>

lemma merkle_rows_prefix: "take (length xs) (merkle_rows f xs) = xs"
  by (subst merkle_rows.simps) simp

lemma check_transactions_Accept: "check_transactions txs = Inr Accept \<longleftrightarrow> (\<forall>tx\<in>set txs. CheckTransaction tx = Inr Accept)"
  by (induction txs) (auto simp: bindE_eq_Inr)

lemma tx_hashes_prefix:
  assumes "length (vtx b) \<le> length (vMerkleTree b)" and "vMerkleTree b \<noteq> []"
  shows "tx_hashes b = Inr (take (length (vtx b)) (vMerkleTree b))"
proof -
  have "foldE (\<lambda>i hs. bindE (GetTxHash b i) (\<lambda>h. Inr (hs @ [h]))) [0..<k] [] = Inr (take k (vMerkleTree b))" if "k \<le> length (vtx b)" for k
    using that assms
  proof (induction k)
    case (Suc k)
    then have "GetTxHash b k = Inr (vMerkleTree b ! k)" by (simp add: GetTxHash_def)
    with Suc show ?case by (simp add: foldE_append take_Suc_conv_app_nth)
  qed simp
  then show ?thesis by (simp add: tx_hashes_def)
qed

lemma CheckBlock_Accept:
  assumes "CheckBlock env bnLimit adjustedTime b pow root = Inr (b', Accept)"
  defines "ids \<equiv> map (CTransaction_GetHash (env_sha env)) (vtx b)"
  shows "b' = b\<lparr>vMerkleTree := merkle_rows (Hash2 (env_sha env)) ids\<rparr>" and "tx_hashes b' = Inr ids" and "vtx b \<noteq> []"
    and "IsCoinBase (hd (vtx b))" and "\<forall>tx\<in>set (tl (vtx b)). \<not> IsCoinBase tx" and "\<forall>tx\<in>set (vtx b). CheckTransaction tx = Inr Accept"
    and "distinct ids" and "root \<Longrightarrow> hashMerkleRoot b = merkle_root (Hash2 (env_sha env)) ids"
    and "pow \<Longrightarrow> CheckProofOfWork bnLimit (CBlockHeader_GetHash (env_Hash9 env) b) (nBits b)"
proof -
  define B where "B = b\<lparr>vMerkleTree := merkle_rows (Hash2 (env_sha env)) ids\<rparr>"
  have B: "vtx B = vtx b" "vMerkleTree B = merkle_rows (Hash2 (env_sha env)) ids" "hashMerkleRoot B = hashMerkleRoot b" by (simp_all add: B_def)
  have ne: "vtx b \<noteq> []" using assms(1) by (auto simp: CheckBlock_def)
  then have ids: "ids \<noteq> []" by (simp add: ids_def)
  note pre = merkle_rows_prefix [of ids "Hash2 (env_sha env)"]
  have "length (vtx B) \<le> length (vMerkleTree B)" using arg_cong [OF pre, of length] unfolding B by (simp add: ids_def)
  with pre ids have th: "tx_hashes B = Inr ids" using tx_hashes_prefix [of B] by (simp add: B ids_def)
  have mt: "BuildMerkleTree (env_sha env) b = Inr (B, merkle_root (Hash2 (env_sha env)) ids)"
    by (simp add: BuildMerkleTree_rows Let_def B_def ids_def)
  have "check_transactions (vtx b) = Inr Accept"
    using assms(1) unfolding CheckBlock_def by (simp only: bindE_eq_Inr split: if_splits) auto
  moreover from this have c: "b' = B" "IsCoinBase (hd (vtx b))" "\<forall>tx\<in>set (tl (vtx b)). \<not> IsCoinBase tx" "card (set ids) = length (vtx b)"
    "\<not> (root \<and> hashMerkleRoot b \<noteq> last (vMerkleTree B))" "\<not> (pow \<and> \<not> CheckProofOfWork bnLimit (CBlockHeader_GetHash (env_Hash9 env) b) (nBits b))"
    using assms(1) unfolding CheckBlock_def by (simp_all add: mt th B(1,3) split: if_split_asm)
  ultimately show "\<forall>tx\<in>set (vtx b). CheckTransaction tx = Inr Accept" by (simp add: check_transactions_Accept)
  show "b' = b\<lparr>vMerkleTree := merkle_rows (Hash2 (env_sha env)) ids\<rparr>" "tx_hashes b' = Inr ids" using c(1) th by (simp_all add: B_def)
  show "vtx b \<noteq> []" "IsCoinBase (hd (vtx b))" "\<forall>tx\<in>set (tl (vtx b)). \<not> IsCoinBase tx" by (rule ne c)+
  show "distinct ids" using c(4) by (intro card_distinct) (simp add: ids_def)
  show "hashMerkleRoot b = merkle_root (Hash2 (env_sha env)) ids" if root
    using c(5) that merkle_rows_root [of ids "Hash2 (env_sha env)"] ids by (simp add: B)
  show "CheckProofOfWork bnLimit (CBlockHeader_GetHash (env_Hash9 env) b) (nBits b)" if pow using c(6) that by simp
qed

section \<open>The lottery along a chain\<close>

text \<open>\<open>lotto_run g b s r\<close>: accepted blocks lead from \<open>g\<close> to \<open>b\<close>, with \<open>s\<close> staked and \<open>r\<close> paid out on the way. Every block may
  be checked in an environment of its own. A block is accepted if \<open>CheckTransaction\<close> accepts its transactions and
  \<open>CheckLottoResult\<close> the block; the blocks on disk, from which the bets of a draw are read, were accepted by
  \<open>CheckTransaction\<close> before they were written.\<close>

definition disk_checked :: "chain_env \<Rightarrow> bool" where
  "disk_checked env \<longleftrightarrow> (\<forall>p d. ReadBlockFromDisk env p = Some d \<longrightarrow> check_transactions (vtx d) = Inr Accept)"

inductive lotto_run :: "CBlock \<Rightarrow> CBlock \<Rightarrow> int \<Rightarrow> int \<Rightarrow> bool" where
  start: "lotto_run g g 0 0"
| accept: "lotto_run g pre s r \<Longrightarrow> disk_checked env \<Longrightarrow> check_transactions (vtx b) = Inr Accept \<Longrightarrow>
    CheckLottoResult env fuel b = Some (Inr Accept) \<Longrightarrow> CBlockHeader_GetHash (env_Hash9 env) b \<noteq> HashGenesisBlock env \<Longrightarrow>
    mapBlockIndex env (hashPrevBlock b) = Some idx \<Longrightarrow> ReadBlockFromDisk env (diskPos idx) = Some pre \<Longrightarrow>
    GetLottoValueFromBlock (poolKeyId env) (tip_height env) (vtx b) = Inr stakes \<Longrightarrow> coinbase_rewards b = Inr outs \<Longrightarrow>
    lotto_run g b (s + stakes) (r + sum_list (map out_value outs))"

lemma check_transactions_nonneg: "check_transactions (vtx b) = Inr Accept \<Longrightarrow> amounts_nonneg b"
  by (auto simp: check_transactions_Accept CheckTransaction_Accept amounts_nonneg_def)

lemma disk_checked_nonneg:
  assumes "disk_checked env" and "lottery_block env idx = Inr lb"
  shows "amounts_nonneg lb"
proof (rule check_transactions_nonneg)
  show "check_transactions (vtx lb) = Inr Accept"
    using assms(2) by (auto simp: lottery_block_def bindE_eq_Inr split: option.splits intro: assms(1) [unfolded disk_checked_def, rule_format])
qed

lemma coinbase_rewards_nonneg: "coinbase_rewards b = Inr outs \<Longrightarrow> amounts_nonneg b \<Longrightarrow> 0 \<le> sum_list (map out_value outs)"
  by (rule sum_list_out_nonneg) (auto simp: coinbase_rewards_def amounts_nonneg_def split: list.splits)

text \<open>C1: Take a chain of blocks whose transactions \<open>CheckTransaction\<close> accepts and which \<open>CheckLottoResult\<close> accepts, with the stored
  blocks checked by \<open>CheckTransaction\<close> as well. If its first pool is not negative and, together with all stakes, at most \<open>2 ^ 53\<close>
  (\<open>MAX_MONEY\<close> is smaller), then the last pool is what the chain started with plus all stakes minus all pay-outs, and it is not negative:
  the pay-outs are covered by the stakes.\<close>

theorem lottery_is_solvent:
  assumes "lotto_run g b s r" and "0 \<le> llPool (lottoHeader g)" and "llPool (lottoHeader g) + s \<le> 2 ^ 53"
  shows "llPool (lottoHeader b) = llPool (lottoHeader g) + s - r \<and> 0 \<le> llPool (lottoHeader b)"
proof -
  have "(llPool (lottoHeader b) = llPool (lottoHeader g) + s - r \<and> 0 \<le> llPool (lottoHeader b)) \<and> 0 \<le> r"
    using assms
  proof (induction rule: lotto_run.induct)
    case (accept g pre s r env b fuel idx stakes outs)
    obtain idx' pre' where "mapBlockIndex env (hashPrevBlock b) = Some idx'" "ReadBlockFromDisk env (diskPos idx') = Some pre'"
      "check_pool env fuel b idx' pre' = Some (Inr Accept)" by (rule CheckLottoResult_Accept [OF accept.hyps(4,5)])
    with accept.hyps(6,7) have c: "check_pool env fuel b idx pre = Some (Inr Accept)" by simp
    note amounts = check_transactions_nonneg [OF accept.hyps(3)]
    have stakes: "0 \<le> stakes"
      using GetLottoValueFromBlock_nonneg [OF accept.hyps(8)] amounts unfolding amounts_nonneg_def by blast
    note outs = coinbase_rewards_nonneg [OF accept.hyps(9) amounts]
    from check_pool_conserves [OF c] accept.hyps(8,9)
    have eq: "llPool (lottoHeader b) = llPool (lottoHeader pre) + stakes - sum_list (map out_value outs)" by auto
    have IH: "llPool (lottoHeader pre) = llPool (lottoHeader g) + s - r" "0 \<le> llPool (lottoHeader pre)" "0 \<le> r"
      using accept.IH accept.prems stakes by auto
    then have "llPool (lottoHeader pre) \<le> 2 ^ 53" using accept.prems(2) stakes by linarith
    from check_pool_solvent [OF c accept.hyps(9) IH(2) this] disk_checked_nonneg [OF accept.hyps(2)]
    have "sum_list (map out_value outs) \<le> llPool (lottoHeader pre) * 8 div 10" by blast
    then have "sum_list (map out_value outs) \<le> llPool (lottoHeader pre)" using IH(2) by linarith
    with eq IH stakes outs show ?case by simp
  qed simp
  then show ?thesis by simp
qed

lemma toy_script_lengths: "length (scriptPubKey toy_bet_out) = 55" "length (scriptPubKey toy_prize) = 25"
  by code_simp+

lemmas ser_sizes = ser_CTransaction_def ser_CTxIn_def ser_CTxOut_def ser_COutPoint_def ser_vector_def ser_bytes_def WriteCompactSize_def
  ser_int64_def ser_int32_def ser_word_def ser_uint_def

lemma toy_transactions:
  "CheckTransaction (toy_bet_tx [toy_bet_out]) = Inr Accept" "CheckTransaction toy_coinbase = Inr Accept"
  "CheckTransaction (toy_coinbase\<lparr>vout := [\<lparr>out_value = 5, scriptPubKey = []\<rparr>, toy_prize]\<rparr>) = Inr Accept"
proof -
  have size: "length (ser_CTransaction (toy_bet_tx [toy_bet_out])) \<le> MAX_BLOCK_SIZE" "length (ser_CTransaction toy_coinbase) \<le> MAX_BLOCK_SIZE"
    "length (ser_CTransaction (toy_coinbase\<lparr>vout := [\<lparr>out_value = 5, scriptPubKey = []\<rparr>, toy_prize]\<rparr>)) \<le> MAX_BLOCK_SIZE"
    by (simp_all add: ser_sizes toy_bet_tx_def toy_coinbase_def toy_script_lengths MAX_BLOCK_SIZE_def)
  show "CheckTransaction (toy_bet_tx [toy_bet_out]) = Inr Accept"
    using size(1) unfolding CheckTransaction_Accept
    by (simp add: toy_bet_tx_def IsCoinBase_def COutPoint_IsNull_def toy_bet_out_def MAX_MONEY_def)
  show "CheckTransaction toy_coinbase = Inr Accept"
    using size(2) unfolding CheckTransaction_Accept by (simp add: toy_coinbase_def IsCoinBase_def COutPoint_IsNull_def MAX_MONEY_def)
  show "CheckTransaction (toy_coinbase\<lparr>vout := [\<lparr>out_value = 5, scriptPubKey = []\<rparr>, toy_prize]\<rparr>) = Inr Accept"
    using size(3) unfolding CheckTransaction_Accept
    by (simp add: toy_coinbase_def toy_prize_def IsCoinBase_def COutPoint_IsNull_def MAX_MONEY_def)
qed

lemma toy_disk_checked: "disk_checked toy_env"
  using toy_transactions(1,2) by (simp add: disk_checked_def toy_env_simps toy_old_block_def check_transactions_Accept)

theorem lottery_is_solvent_witness:
  "llPool (lottoHeader toy_created) = llPool (lottoHeader toy_old_block) + (0 + 700001) - (0 + sum_list (map out_value [toy_prize]))
    \<and> 0 \<le> llPool (lottoHeader toy_created)"
proof (rule lottery_is_solvent)
  have "check_transactions (vtx toy_created) = Inr Accept"
    using toy_transactions(1,3) by (simp add: toy_created_def check_transactions_Accept)
  then show "lotto_run toy_old_block toy_created (0 + 700001) (0 + sum_list (map out_value [toy_prize]))"
    using toy_accepted_block toy_genesis
    by (rule lotto_run.accept [OF lotto_run.start toy_disk_checked, where idx = "toy_idx 125"])
      (simp_all add: toy_env_simps toy_created_simps toy_tip toy_stakes_created)
qed (simp_all add: toy_pool_value)

section \<open>The subsidy of all blocks\<close>

text \<open>The subsidies of the blocks after the genesis block up to, but not including, a height.\<close>

definition subsidy_sum :: "nat \<Rightarrow> int" where
  "subsidy_sum n = (\<Sum>h\<in>{1..<n}. nSubsidy (int h))"

lemma subsidy_sum_simps: "subsidy_sum 1 = 0" "1 \<le> n \<Longrightarrow> subsidy_sum (Suc n) = subsidy_sum n + nSubsidy (int n)"
  by (simp_all add: subsidy_sum_def)

lemma subsidy_sum_le:
  assumes "1 \<le> n"
  shows "subsidy_sum n \<le> int (min n 101 - 1) * (100000 * COIN) + int (min n 105121 - min n 101) * (250 * COIN)
     + int (min n 210240 - min n 105121) * (130 * COIN) + int (n - min n 210240) * 20"
  using assms
proof (induction n rule: dec_induct)
  case (step n)
  then show ?case unfolding subsidy_sum_simps(2) [OF step(1)] by (auto simp: nSubsidy_def COIN_def min_def split: if_splits)
qed (simp add: subsidy_sum_simps(1) del: One_nat_def)

definition genesis_llPool :: int where "genesis_llPool = 2000000 * COIN"

lemma subsidies_below_MAX_MONEY:
  assumes "1 \<le> n" "n \<le> 2 ^ 31"
  shows "genesis_llPool + subsidy_sum n < MAX_MONEY"
proof -
  have "int (min n 101 - 1) \<le> 100" "int (min n 105121 - min n 101) \<le> 105121 - 101" "int (min n 210240 - min n 105121) \<le> 210240 - 105121"
    "int (n - min n 210240) \<le> 2 ^ 31" using assms by (auto simp: min_def)
  moreover have "genesis_llPool + x < MAX_MONEY" if "x \<le> a * (100000 * COIN) + b * (250 * COIN) + c * (130 * COIN) + d * 20"
    "a \<le> 100" "b \<le> 105121 - 101" "c \<le> 210240 - 105121" "d \<le> 2 ^ 31" for x a b c d :: int
    using that by (simp add: COIN_def MAX_MONEY_def genesis_llPool_def)
  ultimately show ?thesis using subsidy_sum_le [OF assms(1)] by blast
qed

end
