(* ===== verification/Coins.thy ===== *)
theory Coins
  imports Chain_Types
begin

text \<open>
  The unspent outputs of a transaction (\<open>CCoins\<close> of \<open>coins.h\<close> and \<open>coins.cpp\<close>) and the views on the coin database:
  the database itself (\<open>CCoinsViewDB\<close> of \<open>txdb.cpp\<close>) and the caches stacked on it (\<open>CCoinsViewCache\<close>).

  The locale \<open>coins_view\<close> is the contract of a view. Its abstract state is the map of the coins that are not
  completely spent; a view may or may not still hold an entry for spent ones. A cache over a view is a
  view again, and flushing it gives its base the state of the cache.
\<close>

section \<open>Unspent outputs of a transaction\<close>

definition OP_RETURN :: byte where "OP_RETURN = 0x6a"
definition OP_LOTTOUNSPEND :: byte where "OP_LOTTOUNSPEND = 0xc2"

definition CTxOut_null :: CTxOut where "CTxOut_null = \<lparr>out_value = - 1, scriptPubKey = []\<rparr>"

definition CTxOut_IsNull :: "CTxOut \<Rightarrow> bool" where "CTxOut_IsNull v \<longleftrightarrow> out_value v = - 1"

definition IsUnspendable :: "byte list \<Rightarrow> bool" where
  "IsUnspendable s \<longleftrightarrow> s \<noteq> [] \<and> (hd s = OP_RETURN \<or> hd s = OP_LOTTOUNSPEND)"

record CCoins =
  c_fCoinBase :: bool
  c_vout :: "CTxOut list"
  c_nHeight :: int
  c_nVersion :: int

definition new_CCoins :: CCoins where
  "new_CCoins = \<lparr>c_fCoinBase = False, c_vout = [], c_nHeight = 0, c_nVersion = 0\<rparr>"

definition Cleanup :: "CCoins \<Rightarrow> CCoins" where
  "Cleanup c = c\<lparr>c_vout := rev (dropWhile CTxOut_IsNull (rev (c_vout c)))\<rparr>"

definition ClearUnspendable :: "CCoins \<Rightarrow> CCoins" where
  "ClearUnspendable c =
     Cleanup (c\<lparr>c_vout := map (\<lambda>txout. if IsUnspendable (scriptPubKey txout) then CTxOut_null else txout) (c_vout c)\<rparr>)"

definition CCoins_of :: "CTransaction \<Rightarrow> int \<Rightarrow> CCoins" where
  "CCoins_of tx nHeightIn =
     ClearUnspendable \<lparr>c_fCoinBase = IsCoinBase tx, c_vout = vout tx, c_nHeight = nHeightIn, c_nVersion = tx_nVersion tx\<rparr>"

definition IsAvailable :: "CCoins \<Rightarrow> nat \<Rightarrow> bool" where
  "IsAvailable c nPos \<longleftrightarrow> nPos < length (c_vout c) \<and> \<not> CTxOut_IsNull (c_vout c ! nPos)"

definition IsPruned :: "CCoins \<Rightarrow> bool" where
  "IsPruned c \<longleftrightarrow> (\<forall>out\<in>set (c_vout c). CTxOut_IsNull out)"

definition CCoins_eq :: "CCoins \<Rightarrow> CCoins \<Rightarrow> bool" where
  "CCoins_eq a b \<longleftrightarrow> (IsPruned a \<and> IsPruned b)
     \<or> (c_fCoinBase a = c_fCoinBase b \<and> c_nHeight a = c_nHeight b \<and> c_nVersion a = c_nVersion b \<and> c_vout a = c_vout b)"

text \<open>Undo data: the spent output, and the other data of the transaction if it was the last one.\<close>

record CTxInUndo =
  u_txout :: CTxOut
  u_fCoinBase :: bool
  u_nHeight :: u32
  u_nVersion :: int

definition CTxInUndo_of :: "CTxOut \<Rightarrow> CTxInUndo" where
  "CTxInUndo_of txoutIn = \<lparr>u_txout = txoutIn, u_fCoinBase = False, u_nHeight = 0, u_nVersion = 0\<rparr>"

text \<open>\<open>None\<close>: the output is not there or already spent (\<open>return false\<close>).\<close>

definition Spend :: "CCoins \<Rightarrow> COutPoint \<Rightarrow> (CCoins \<times> CTxInUndo) option" where
  "Spend c out =
     (let n = unat (op_n out) in
      if n \<ge> length (c_vout c) then None
      else if CTxOut_IsNull (c_vout c ! n) then None
      else
        let undo = CTxInUndo_of (c_vout c ! n);
            c' = Cleanup (c\<lparr>c_vout := (c_vout c)[n := CTxOut_null]\<rparr>)
        in Some (c', if c_vout c' = [] then undo\<lparr>u_nHeight := word_of_int (c_nHeight c'), u_fCoinBase := c_fCoinBase c',
                       u_nVersion := c_nVersion c'\<rparr>
                     else undo))"

section \<open>Views\<close>

text \<open>The database. A completely spent transaction is erased.\<close>

record coins_db =
  db_coins :: "u256 \<rightharpoonup> CCoins"
  db_best :: "u256 option"

definition db_GetCoins :: "coins_db \<Rightarrow> u256 \<Rightarrow> coins_db \<times> CCoins option" where
  "db_GetCoins d txid = (d, db_coins d txid)"

definition db_HaveCoins :: "coins_db \<Rightarrow> u256 \<Rightarrow> coins_db \<times> bool" where
  "db_HaveCoins d txid = (d, db_coins d txid \<noteq> None)"

definition BatchWriteCoins :: "u256 \<Rightarrow> CCoins \<Rightarrow> (u256 \<rightharpoonup> CCoins) \<Rightarrow> (u256 \<rightharpoonup> CCoins)" where
  "BatchWriteCoins hash coins m = (if IsPruned coins then m(hash := None) else m(hash \<mapsto> coins))"

definition db_SetCoins :: "coins_db \<Rightarrow> u256 \<Rightarrow> CCoins \<Rightarrow> coins_db" where
  "db_SetCoins d txid coins = d\<lparr>db_coins := BatchWriteCoins txid coins (db_coins d)\<rparr>"

definition db_GetBestBlock :: "coins_db \<Rightarrow> coins_db \<times> u256" where
  "db_GetBestBlock d = (d, case db_best d of None \<Rightarrow> 0 | Some h \<Rightarrow> h)"

definition db_SetBestBlock :: "coins_db \<Rightarrow> u256 \<Rightarrow> coins_db" where
  "db_SetBestBlock d h = d\<lparr>db_best := Some h\<rparr>"

definition db_BatchWrite :: "coins_db \<Rightarrow> (u256 \<rightharpoonup> CCoins) \<Rightarrow> u256 \<Rightarrow> coins_db" where
  "db_BatchWrite d mapCoins hashBlock =
     (let d = d\<lparr>db_coins := (\<lambda>h. case mapCoins h of None \<Rightarrow> db_coins d h | Some c \<Rightarrow> BatchWriteCoins h c (db_coins d) h)\<rparr>
      in if hashBlock \<noteq> 0 then d\<lparr>db_best := Some hashBlock\<rparr> else d)"

text \<open>A cache over a view; the operations of the view it calls are arguments.\<close>

record 'v coins_cache =
  cache_base :: 'v
  hashBlock :: u256
  cacheCoins :: "u256 \<rightharpoonup> CCoins"

definition new_cache :: "'v \<Rightarrow> 'v coins_cache" where
  "new_cache v = \<lparr>cache_base = v, hashBlock = 0, cacheCoins = Map.empty\<rparr>"

definition FetchCoins :: "('v \<Rightarrow> u256 \<Rightarrow> 'v \<times> CCoins option) \<Rightarrow> 'v coins_cache \<Rightarrow> u256 \<Rightarrow> 'v coins_cache \<times> CCoins option" where
  "FetchCoins bget c txid = (case cacheCoins c txid of
     Some x \<Rightarrow> (c, Some x)
   | None \<Rightarrow> (case bget (cache_base c) txid of
       (b, None) \<Rightarrow> (c\<lparr>cache_base := b\<rparr>, None)
     | (b, Some x) \<Rightarrow> (c\<lparr>cache_base := b, cacheCoins := (cacheCoins c)(txid \<mapsto> x)\<rparr>, Some x)))"

text \<open>\<open>GetCoins(txid, coins)\<close> copies the entry, \<open>GetCoins(txid)\<close> returns a reference to it and asserts that it exists.\<close>

definition cache_GetCoins :: "('v \<Rightarrow> u256 \<Rightarrow> 'v \<times> CCoins option) \<Rightarrow> 'v coins_cache \<Rightarrow> u256 \<Rightarrow> 'v coins_cache \<times> CCoins option" where
  "cache_GetCoins bget c txid = (case cacheCoins c txid of
     Some x \<Rightarrow> (c, Some x)
   | None \<Rightarrow> (case bget (cache_base c) txid of
       (b, Some x) \<Rightarrow> (c\<lparr>cache_base := b, cacheCoins := (cacheCoins c)(txid \<mapsto> x)\<rparr>, Some x)
     | (b, None) \<Rightarrow> (c\<lparr>cache_base := b\<rparr>, None)))"

definition cache_ref :: "('v \<Rightarrow> u256 \<Rightarrow> 'v \<times> CCoins option) \<Rightarrow> 'v coins_cache \<Rightarrow> u256 \<Rightarrow> ('v coins_cache \<times> CCoins) result" where
  "cache_ref bget c txid = (case FetchCoins bget c txid of
     (c, None) \<Rightarrow> Inl AssertFailed
   | (c, Some x) \<Rightarrow> Inr (c, x))"

definition cache_SetCoins :: "'v coins_cache \<Rightarrow> u256 \<Rightarrow> CCoins \<Rightarrow> 'v coins_cache" where
  "cache_SetCoins c txid coins = c\<lparr>cacheCoins := (cacheCoins c)(txid \<mapsto> coins)\<rparr>"

definition cache_HaveCoins :: "('v \<Rightarrow> u256 \<Rightarrow> 'v \<times> CCoins option) \<Rightarrow> 'v coins_cache \<Rightarrow> u256 \<Rightarrow> 'v coins_cache \<times> bool" where
  "cache_HaveCoins bget c txid = (case FetchCoins bget c txid of (c, r) \<Rightarrow> (c, r \<noteq> None))"

definition cache_GetBestBlock :: "('v \<Rightarrow> 'v \<times> u256) \<Rightarrow> 'v coins_cache \<Rightarrow> 'v coins_cache \<times> u256" where
  "cache_GetBestBlock bbest c =
     (if hashBlock c = 0 then case bbest (cache_base c) of (b, h) \<Rightarrow> (c\<lparr>cache_base := b, hashBlock := h\<rparr>, h)
      else (c, hashBlock c))"

definition cache_SetBestBlock :: "'v coins_cache \<Rightarrow> u256 \<Rightarrow> 'v coins_cache" where
  "cache_SetBestBlock c h = c\<lparr>hashBlock := h\<rparr>"

definition cache_BatchWrite :: "'v coins_cache \<Rightarrow> (u256 \<rightharpoonup> CCoins) \<Rightarrow> u256 \<Rightarrow> 'v coins_cache" where
  "cache_BatchWrite c mapCoins h = c\<lparr>cacheCoins := cacheCoins c ++ mapCoins, hashBlock := h\<rparr>"

definition Flush :: "('v \<Rightarrow> (u256 \<rightharpoonup> CCoins) \<Rightarrow> u256 \<Rightarrow> 'v) \<Rightarrow> 'v coins_cache \<Rightarrow> 'v coins_cache" where
  "Flush bwrite c = c\<lparr>cache_base := bwrite (cache_base c) (cacheCoins c) (hashBlock c), cacheCoins := Map.empty\<rparr>"

section \<open>The contract of a view\<close>

definition live :: "CCoins option \<Rightarrow> CCoins option" where
  "live r = (case r of None \<Rightarrow> None | Some c \<Rightarrow> if IsPruned c then None else Some c)"

lemma live_simps [simp]: "live None = None" "IsPruned c \<Longrightarrow> live (Some c) = None" "\<not> IsPruned c \<Longrightarrow> live (Some c) = Some c"
  by (simp_all add: live_def)

lemma live_eq_Some: "live r = Some c \<longleftrightarrow> r = Some c \<and> \<not> IsPruned c"
  by (auto simp: live_def split: option.splits)

text \<open>The coins of a cache, and its best block, given those of its base.\<close>

definition cache_state :: "('v \<Rightarrow> (u256 \<rightharpoonup> CCoins)) \<Rightarrow> 'v coins_cache \<Rightarrow> (u256 \<rightharpoonup> CCoins)" where
  "cache_state coins c h = (case cacheCoins c h of None \<Rightarrow> coins (cache_base c) h | Some x \<Rightarrow> live (Some x))"

definition cache_best :: "('v \<Rightarrow> u256) \<Rightarrow> 'v coins_cache \<Rightarrow> u256" where
  "cache_best best c = (if hashBlock c = 0 then best (cache_base c) else hashBlock c)"

locale coins_view =
  fixes get :: "'v \<Rightarrow> u256 \<Rightarrow> 'v \<times> CCoins option"
    and bbest :: "'v \<Rightarrow> 'v \<times> u256"
    and bwrite :: "'v \<Rightarrow> (u256 \<rightharpoonup> CCoins) \<Rightarrow> u256 \<Rightarrow> 'v"
    and coins :: "'v \<Rightarrow> (u256 \<rightharpoonup> CCoins)"
    and best :: "'v \<Rightarrow> u256"
  assumes get_coins: "get v h = (v', r) \<Longrightarrow> coins v' = coins v \<and> best v' = best v \<and> live r = coins v h"
    and get_best: "bbest v = (v', b) \<Longrightarrow> coins v' = coins v \<and> best v' = best v \<and> b = best v"
    and write_coins: "coins (bwrite v m b) h = (case m h of None \<Rightarrow> coins v h | Some c \<Rightarrow> live (Some c))"
    and write_best: "b \<noteq> 0 \<Longrightarrow> best (bwrite v m b) = b"
begin

lemma cache_get:
  assumes "cache_GetCoins get c h = (c', r)"
  shows "cache_state coins c' = cache_state coins c \<and> cache_best best c' = cache_best best c \<and> live r = cache_state coins c h"
  using assms get_coins [of "cache_base c" h]
  by (auto simp: cache_GetCoins_def cache_state_def cache_best_def fun_eq_iff split: option.splits prod.splits if_splits)

lemma Fetch_get: "FetchCoins get c h = cache_GetCoins get c h"
  by (auto simp: FetchCoins_def cache_GetCoins_def split: option.splits prod.splits)

lemma cache_ref_live:
  assumes "cache_state coins c h = Some x"
  shows "\<exists>c'. cache_ref get c h = Inr (c', x) \<and> cache_state coins c' = cache_state coins c \<and> cache_best best c' = cache_best best c"
proof -
  obtain c' r where g: "cache_GetCoins get c h = (c', r)" by (cases "cache_GetCoins get c h")
  with cache_get [OF g] assms show ?thesis by (auto simp: cache_ref_def Fetch_get live_eq_Some)
qed

lemma cache_have:
  assumes "cache_HaveCoins get c h = (c', b)"
  shows "cache_state coins c' = cache_state coins c \<and> cache_best best c' = cache_best best c \<and> (cache_state coins c h \<noteq> None \<longrightarrow> b)"
  using assms cache_get [of c h] by (auto simp: cache_HaveCoins_def Fetch_get split: prod.splits)

lemma cache_set: "cache_state coins (cache_SetCoins c h x) = (cache_state coins c)(h := live (Some x))"
  "cache_best best (cache_SetCoins c h x) = cache_best best c"
  by (auto simp: cache_state_def cache_best_def cache_SetCoins_def fun_eq_iff split: option.split)

lemma cache_set_best: "cache_state coins (cache_SetBestBlock c b) = cache_state coins c"
  "b \<noteq> 0 \<Longrightarrow> cache_best best (cache_SetBestBlock c b) = b"
  by (auto simp: cache_state_def cache_best_def cache_SetBestBlock_def fun_eq_iff split: option.split)

lemma cache_get_best:
  assumes "cache_GetBestBlock bbest c = (c', b)"
  shows "cache_state coins c' = cache_state coins c \<and> cache_best best c' = cache_best best c \<and> b = cache_best best c"
  using assms get_best [of "cache_base c"]
  by (auto simp: cache_GetBestBlock_def cache_state_def cache_best_def fun_eq_iff split: if_splits prod.splits option.split)

text \<open>A cache over a view is a view.\<close>

lemma cache_is_view:
  "coins_view (cache_GetCoins get) (cache_GetBestBlock bbest) cache_BatchWrite (cache_state coins) (cache_best best)"
proof
  show "cache_state coins (cache_BatchWrite c m b) h = (case m h of None \<Rightarrow> cache_state coins c h | Some x \<Rightarrow> live (Some x))"
    for c :: "'v coins_cache" and m b h
    by (auto simp: cache_state_def cache_BatchWrite_def map_add_def split: option.splits)
qed (use cache_get cache_get_best in \<open>auto simp: cache_best_def cache_BatchWrite_def\<close>)

text \<open>Flushing hands the state of the cache to its base and keeps it visible in the cache.\<close>

lemma flush_base:
  assumes "hashBlock c \<noteq> 0"
  shows "coins (cache_base (Flush bwrite c)) = cache_state coins c \<and> best (cache_base (Flush bwrite c)) = cache_best best c
    \<and> cache_state coins (Flush bwrite c) = cache_state coins c \<and> cache_best best (Flush bwrite c) = cache_best best c"
  using assms by (auto simp: Flush_def write_coins write_best cache_state_def cache_best_def fun_eq_iff)

lemma new_cache_state: "cache_state coins (new_cache v) = coins v" "cache_best best (new_cache v) = best v"
  by (auto simp: new_cache_def cache_state_def cache_best_def fun_eq_iff)

end

definition db_state :: "coins_db \<Rightarrow> (u256 \<rightharpoonup> CCoins)" where
  "db_state d h = live (db_coins d h)"

definition db_best_state :: "coins_db \<Rightarrow> u256" where
  "db_best_state d = (case db_best d of None \<Rightarrow> 0 | Some h \<Rightarrow> h)"

interpretation db: coins_view db_GetCoins db_GetBestBlock db_BatchWrite db_state db_best_state
  by unfold_locales
    (auto simp: db_GetCoins_def db_GetBestBlock_def db_BatchWrite_def db_state_def db_best_state_def BatchWriteCoins_def Let_def
      split: option.splits)

text \<open>The two caches the node uses: \<open>pcoinsTip\<close> over the database, and a cache over it for the block at hand.\<close>

interpretation tip: coins_view "cache_GetCoins db_GetCoins" "cache_GetBestBlock db_GetBestBlock" cache_BatchWrite
  "cache_state db_state" "cache_best db_best_state"
  by (rule db.cache_is_view)

text \<open>C25: The stack of coin views behaves as one map. \<open>GetCoins\<close> of a cache over \<open>pcoinsTip\<close> answers from that map and leaves it as it
  is; after \<open>SetBestBlock\<close> with a non-null hash and \<open>Flush\<close> of the cache and then of \<open>pcoinsTip\<close>, the database holds exactly
  the map the cache showed and the new best block, and completely spent transactions are erased.\<close>

theorem flush_reaches_database:
  fixes view :: "coins_db coins_cache coins_cache"
  assumes "h \<noteq> 0" and "cache_GetCoins (cache_GetCoins db_GetCoins) view k = (view', r)"
  defines "tip' \<equiv> cache_base (Flush cache_BatchWrite (cache_SetBestBlock view' h))"
  shows "live r = cache_state (cache_state db_state) view k
    \<and> db_state (cache_base (Flush db_BatchWrite tip')) = cache_state (cache_state db_state) view
    \<and> db_best_state (cache_base (Flush db_BatchWrite tip')) = h"
proof -
  let ?v = "cache_SetBestBlock view' h"
  note g = tip.cache_get [OF assms(2)]
  have "hashBlock ?v \<noteq> 0" using assms(1) by (cases view') (simp add: cache_SetBestBlock_def)
  note f = tip.flush_base [OF this]
  have t: "cache_state db_state tip' = cache_state (cache_state db_state) view" using f g by (simp add: tip'_def tip.cache_set_best)
  have "hashBlock tip' = h" unfolding tip'_def Flush_def cache_BatchWrite_def cache_SetBestBlock_def
    by (cases view', cases "cache_base view'") simp
  with t g db.flush_base [of tip'] assms(1) show ?thesis by (auto simp: cache_best_def)
qed

definition ex_coins :: CCoins where
  "ex_coins = \<lparr>c_fCoinBase = True, c_vout = [\<lparr>out_value = 9, scriptPubKey = [0x51]\<rparr>], c_nHeight = 1, c_nVersion = 1\<rparr>"

definition ex_stack :: "coins_db coins_cache coins_cache" where
  "ex_stack = new_cache (new_cache \<lparr>db_coins = [7 \<mapsto> ex_coins], db_best = None\<rparr>)"

lemma ex_stack_state: "cache_state (cache_state db_state) ex_stack = [7 \<mapsto> ex_coins]"
  by (auto simp: ex_stack_def tip.new_cache_state db.new_cache_state db_state_def fun_eq_iff ex_coins_def IsPruned_def CTxOut_IsNull_def)

theorem flush_reaches_database_witness:
  "\<exists>view' r. cache_GetCoins (cache_GetCoins db_GetCoins) ex_stack 7 = (view', r)
    \<and> db_state (cache_base (Flush db_BatchWrite (cache_base (Flush cache_BatchWrite (cache_SetBestBlock view' 5))))) = [7 \<mapsto> ex_coins]"
proof -
  obtain view' r where r: "cache_GetCoins (cache_GetCoins db_GetCoins) ex_stack 7 = (view', r)"
    by (cases "cache_GetCoins (cache_GetCoins db_GetCoins) ex_stack 7")
  moreover have "(5::u256) \<noteq> 0" by simp
  ultimately show ?thesis using flush_reaches_database [of 5, OF _ r] unfolding ex_stack_state by blast
qed

end
