(* ===== verification/Coins_Update.thy ===== *)
theory Coins_Update
  imports Coins
begin

text \<open>
  Applying a block to the coins and taking it back: \<open>UpdateCoins\<close>, the loop over the transactions of \<open>ConnectBlock\<close> that
  calls it, and \<open>DisconnectBlock\<close> of \<open>main.cpp\<close>.

  Disconnecting with the undo data that connecting has produced restores exactly the coins before the
  block, and the checks of \<open>DisconnectBlock\<close> report no inconsistency.
\<close>

section \<open>Connecting transactions\<close>

definition put_ref :: "'v coins_cache \<Rightarrow> u256 \<Rightarrow> CCoins \<Rightarrow> 'v coins_cache" where
  "put_ref c txid x = c\<lparr>cacheCoins := (cacheCoins c)(txid \<mapsto> x)\<rparr>"

definition spend_input :: "('v \<Rightarrow> u256 \<Rightarrow> 'v \<times> CCoins option) \<Rightarrow> CTxIn \<Rightarrow> 'v coins_cache \<times> CTxInUndo list
    \<Rightarrow> ('v coins_cache \<times> CTxInUndo list) result" where
  "spend_input bget txin s = (case s of (c, vprevout) \<Rightarrow>
     bindE (cache_ref bget c (op_hash (prevout txin))) (\<lambda>(c, coins).
     case Spend coins (prevout txin) of
       None \<Rightarrow> Inl AssertFailed
     | Some (coins, undo) \<Rightarrow> Inr (put_ref c (op_hash (prevout txin)) coins, vprevout @ [undo])))"

definition UpdateCoins :: "('v \<Rightarrow> u256 \<Rightarrow> 'v \<times> CCoins option) \<Rightarrow> CTransaction \<Rightarrow> 'v coins_cache \<Rightarrow> int \<Rightarrow> u256
    \<Rightarrow> ('v coins_cache \<times> CTxInUndo list) result" where
  "UpdateCoins bget tx inputs nHeight txhash =
     bindE (if \<not> IsCoinBase tx then foldE (spend_input bget) (vin tx) (inputs, []) else Inr (inputs, [])) (\<lambda>(inputs, txundo).
     Inr (cache_SetCoins inputs txhash (CCoins_of tx nHeight), txundo))"

text \<open>The part of the loop of \<open>ConnectBlock\<close> that changes the coins and collects the undo data.\<close>

definition update_tx :: "('v \<Rightarrow> u256 \<Rightarrow> 'v \<times> CCoins option) \<Rightarrow> (CTransaction \<Rightarrow> u256) \<Rightarrow> int \<Rightarrow> CTransaction
    \<Rightarrow> 'v coins_cache \<times> CTxInUndo list list \<Rightarrow> ('v coins_cache \<times> CTxInUndo list list) result" where
  "update_tx bget txid nHeight tx s = (case s of (view, vtxundo) \<Rightarrow>
     bindE (UpdateCoins bget tx view nHeight (txid tx)) (\<lambda>(view, txundo).
     Inr (view, if \<not> IsCoinBase tx then vtxundo @ [txundo] else vtxundo)))"

section \<open>Disconnecting a block\<close>

definition resize_vout :: "CTxOut list \<Rightarrow> nat \<Rightarrow> CTxOut list" where
  "resize_vout v n = (if length v < n then v @ replicate (n - length v) CTxOut_null else v)"

definition undo_input :: "('v \<Rightarrow> u256 \<Rightarrow> 'v \<times> CCoins option) \<Rightarrow> CTxIn \<times> CTxInUndo \<Rightarrow> 'v coins_cache \<times> bool
    \<Rightarrow> ('v coins_cache \<times> bool) result" where
  "undo_input bget p s = (case p of (txin, undo) \<Rightarrow> case s of (view, fClean) \<Rightarrow>
     case cache_GetCoins bget view (op_hash (prevout txin)) of (view, r) \<Rightarrow>
     let out = prevout txin;
         coins = (case r of None \<Rightarrow> new_CCoins | Some x \<Rightarrow> x);
         fClean = (fClean \<and> (if u_nHeight undo \<noteq> 0 then IsPruned coins else \<not> IsPruned coins));
         coins = (if u_nHeight undo \<noteq> 0
           then new_CCoins\<lparr>c_fCoinBase := u_fCoinBase undo, c_nHeight := sint (u_nHeight undo), c_nVersion := u_nVersion undo\<rparr>
           else coins);
         fClean = (fClean \<and> \<not> IsAvailable coins (unat (op_n out)));
         v = resize_vout (c_vout coins) (unat (op_n out + 1))
     in if unat (op_n out) < length v
        then Inr (cache_SetCoins view (op_hash out) (coins\<lparr>c_vout := v[unat (op_n out) := u_txout undo]\<rparr>), fClean)
        else Inl OutOfBounds)"

text \<open>The outputs of a transaction are compared with those the block creates, and removed.\<close>

definition undo_outputs :: "('v \<Rightarrow> u256 \<Rightarrow> 'v \<times> CCoins option) \<Rightarrow> u256 \<Rightarrow> CCoins \<Rightarrow> 'v coins_cache \<times> bool
    \<Rightarrow> ('v coins_cache \<times> bool) result" where
  "undo_outputs bget hash outsBlock s = (case s of (view, fClean) \<Rightarrow>
     let fix_version = (\<lambda>outs. if c_nVersion outsBlock < 0 then outs\<lparr>c_nVersion := c_nVersion outsBlock\<rparr> else outs) in
     case cache_HaveCoins bget view hash of
       (view, False) \<Rightarrow> Inr (view, fClean \<and> CCoins_eq (fix_version (ClearUnspendable new_CCoins)) outsBlock)
     | (view, True) \<Rightarrow> bindE (cache_ref bget view hash) (\<lambda>(view, outs).
         Inr (put_ref view hash new_CCoins, fClean \<and> CCoins_eq (fix_version (ClearUnspendable outs)) outsBlock)))"

text \<open>The loop from the last transaction to the first; \<open>Inr None\<close> is \<open>return error(...)\<close>.\<close>

fun disconnect_loop :: "('v \<Rightarrow> u256 \<Rightarrow> 'v \<times> CCoins option) \<Rightarrow> (CTransaction \<Rightarrow> u256) \<Rightarrow> int \<Rightarrow> (CTransaction \<times> CTxInUndo list option) list
    \<Rightarrow> 'v coins_cache \<times> bool \<Rightarrow> ('v coins_cache \<times> bool) option result" where
  "disconnect_loop bget txid nHeight [] s = Inr (Some s)"
| "disconnect_loop bget txid nHeight ((tx, txundo) # r) s =
     bindE (undo_outputs bget (txid tx) (CCoins_of tx nHeight) s) (\<lambda>s.
     case txundo of
       None \<Rightarrow> disconnect_loop bget txid nHeight r s
     | Some vprevout \<Rightarrow>
         if length vprevout \<noteq> length (vin tx) then Inr None
         else bindE (foldE (undo_input bget) (rev (zip (vin tx) vprevout)) s) (\<lambda>s. disconnect_loop bget txid nHeight r s))"

text \<open>\<open>blockUndo\<close> is what was read from disk, \<open>None\<close> if there is no undo data or it cannot be read.\<close>

definition DisconnectBlock :: "('v \<Rightarrow> u256 \<Rightarrow> 'v \<times> CCoins option) \<Rightarrow> ('v \<Rightarrow> 'v \<times> u256) \<Rightarrow> (CTransaction \<Rightarrow> u256)
    \<Rightarrow> CTxInUndo list list option \<Rightarrow> CTransaction list \<Rightarrow> int \<Rightarrow> u256 \<Rightarrow> u256 \<Rightarrow> 'v coins_cache
    \<Rightarrow> ('v coins_cache \<times> bool) option result" where
  "DisconnectBlock bget bbest txid blockUndo txs nHeight hash hashPrev view =
     (case cache_GetBestBlock bbest view of (view, b) \<Rightarrow>
      if hash \<noteq> b then Inl AssertFailed
      else case blockUndo of
        None \<Rightarrow> Inr None
      | Some vtxundo \<Rightarrow>
          if length vtxundo + 1 \<noteq> length txs then Inr None
          else bindE (disconnect_loop bget txid nHeight (rev (zip txs (None # map Some vtxundo))) (view, True)) (\<lambda>r.
            Inr (case r of None \<Rightarrow> None | Some (view, fClean) \<Rightarrow> Some (cache_SetBestBlock view hashPrev, fClean))))"

section \<open>Spending and restoring an output\<close>

definition canonical :: "CTxOut list \<Rightarrow> bool" where
  "canonical vs \<longleftrightarrow> (\<forall>v\<in>set vs. CTxOut_IsNull v \<longrightarrow> v = CTxOut_null) \<and> (vs \<noteq> [] \<longrightarrow> \<not> CTxOut_IsNull (last vs))"

definition coins_ok :: "CCoins \<Rightarrow> bool" where
  "coins_ok x \<longleftrightarrow> canonical (c_vout x) \<and> length (c_vout x) < 2 ^ 32 \<and> 0 < c_nHeight x \<and> c_nHeight x < 2 ^ 31"

abbreviation trim :: "CTxOut list \<Rightarrow> CTxOut list" where
  "trim vs \<equiv> rev (dropWhile CTxOut_IsNull (rev vs))"

lemma IsNull_null [simp]: "CTxOut_IsNull CTxOut_null" "out_value CTxOut_null = - 1"
  by (simp_all add: CTxOut_IsNull_def CTxOut_null_def)

lemma trim_append: "vs = trim vs @ rev (takeWhile CTxOut_IsNull (rev vs))"
  by (metis rev_append rev_rev_ident takeWhile_dropWhile_id)

lemma length_trim: "length (trim vs) \<le> length vs"
  using length_dropWhile_le [of CTxOut_IsNull "rev vs"] by simp

lemma trim_last: "trim vs \<noteq> [] \<Longrightarrow> \<not> CTxOut_IsNull (last (trim vs))"
  using hd_dropWhile [of CTxOut_IsNull "rev vs"] by (simp add: last_rev)

lemma trim_id: "vs = [] \<or> \<not> CTxOut_IsNull (last vs) \<Longrightarrow> trim vs = vs"
  by (cases vs rule: rev_cases) auto

lemma trim_null_iff: "trim vs = [] \<longleftrightarrow> (\<forall>v\<in>set vs. CTxOut_IsNull v)"
  by (simp add: dropWhile_eq_Nil_conv)

lemma trim_pad:
  assumes "\<forall>v\<in>set vs. CTxOut_IsNull v \<longrightarrow> v = CTxOut_null"
  shows "trim vs @ replicate (length vs - length (trim vs)) CTxOut_null = vs"
proof -
  let ?t = "rev (takeWhile CTxOut_IsNull (rev vs))"
  have "v = CTxOut_null" if "v \<in> set ?t" for v using that assms by (auto dest: set_takeWhileD)
  then have "?t = replicate (length ?t) CTxOut_null" by (intro replicate_eqI) auto
  moreover have "length ?t = length vs - length (trim vs)" using arg_cong [OF trim_append [of vs], of length] by simp
  ultimately show ?thesis using trim_append [of vs] by simp
qed

lemma canonical_trim: "\<forall>v\<in>set vs. CTxOut_IsNull v \<longrightarrow> v = CTxOut_null \<Longrightarrow> canonical (trim vs)"
  unfolding canonical_def using trim_last [of vs] by (auto dest: set_dropWhileD)

lemma null_update: "\<forall>v\<in>set vs. CTxOut_IsNull v \<longrightarrow> v = CTxOut_null \<Longrightarrow> \<forall>v\<in>set (vs[n := CTxOut_null]). CTxOut_IsNull v \<longrightarrow> v = CTxOut_null"
  using set_update_subset_insert [of vs n CTxOut_null] by blast

text \<open>Putting an output back undoes its removal.\<close>

lemma restore_output:
  assumes "canonical vs" and "n < length vs"
  shows "(resize_vout (trim (vs[n := CTxOut_null])) (n + 1))[n := vs ! n] = vs"
proof -
  let ?w = "vs[n := CTxOut_null]"
  have null: "\<forall>v\<in>set ?w. CTxOut_IsNull v \<longrightarrow> v = CTxOut_null"
    by (rule null_update) (use assms(1) in \<open>simp add: canonical_def\<close>)
  have "resize_vout (trim ?w) (n + 1) = ?w"
  proof (cases "n + 1 = length vs")
    case True
    have "length (trim ?w) \<le> length ?w" by (rule length_trim)
    then show ?thesis using trim_pad [OF null] True by (auto simp: resize_vout_def)
  next
    case False
    then have "last ?w = last vs" using assms(2) by (subst last_list_update) auto
    then have "trim ?w = ?w" using assms by (intro trim_id) (auto simp: canonical_def)
    then show ?thesis using assms(2) by (simp add: resize_vout_def)
  qed
  then show ?thesis by simp
qed


lemma Spend_Some:
  assumes "Spend x out = Some (x', u)"
  shows "unat (op_n out) < length (c_vout x)" and "\<not> CTxOut_IsNull (c_vout x ! unat (op_n out))"
    and "x' = x\<lparr>c_vout := trim ((c_vout x)[unat (op_n out) := CTxOut_null])\<rparr>" and "u_txout u = c_vout x ! unat (op_n out)"
    and "if c_vout x' = [] then u_nHeight u = word_of_int (c_nHeight x) \<and> u_fCoinBase u = c_fCoinBase x \<and> u_nVersion u = c_nVersion x
      else u_nHeight u = 0"
    and "\<not> IsPruned x"
  using assms by (auto simp: Spend_def Let_def Cleanup_def CTxInUndo_of_def IsPruned_def split: if_splits)

lemma Spend_ok:
  assumes "Spend x out = Some (x', u)" and "coins_ok x"
  shows "coins_ok x'"
proof -
  have "canonical (trim ((c_vout x)[unat (op_n out) := CTxOut_null]))"
    by (intro canonical_trim null_update) (use assms(2) in \<open>simp add: coins_ok_def canonical_def\<close>)
  moreover have "length (trim ((c_vout x)[unat (op_n out) := CTxOut_null])) \<le> length (c_vout x)"
    using length_trim [of "(c_vout x)[unat (op_n out) := CTxOut_null]"] by simp
  ultimately show ?thesis using assms(2) Spend_Some(3) [OF assms(1)] by (simp add: coins_ok_def)
qed

lemma IsPruned_canonical: "canonical (c_vout x) \<Longrightarrow> IsPruned x \<longleftrightarrow> c_vout x = []"
  by (auto simp: IsPruned_def canonical_def dest: last_in_set)

lemma unat_suc: "n < 2 ^ 32 - 1 \<Longrightarrow> unat (w :: u32) = n \<Longrightarrow> unat (w + 1) = n + 1"
  by (subst unat_plus_if_size) (auto simp: word_size)

lemma height_word:
  assumes "0 < h" and "h < 2 ^ 31"
  shows "(word_of_int h :: u32) \<noteq> 0 \<and> sint (word_of_int h :: u32) = h"
proof -
  have "sint (word_of_int h :: u32) = h" using assms by (simp add: sint_sbintrunc' signed_take_bit_int_eq_self)
  with assms(1) show ?thesis by (metis less_irrefl signed_0)
qed

lemma ClearUnspendable_idem: "ClearUnspendable (ClearUnspendable x) = ClearUnspendable x"
proof -
  let ?f = "\<lambda>v. if IsUnspendable (scriptPubKey v) then CTxOut_null else v"
  have f: "?f (?f v) = ?f v" for v by (simp add: IsUnspendable_def CTxOut_null_def)
  have "map ?f (trim (map ?f vs)) = trim (map ?f vs)" for vs
    by (rule map_idI) (use f in \<open>auto dest!: set_dropWhileD\<close>)
  moreover have "trim (trim vs) = trim vs" for vs using trim_last [of vs] by (intro trim_id) blast
  ultimately show ?thesis by (simp add: ClearUnspendable_def Cleanup_def)
qed

lemma CCoins_of_ok:
  assumes "\<forall>v\<in>set (vout tx). 0 \<le> out_value v" and "length (vout tx) < 2 ^ 32" and "0 < nHeight" and "nHeight < 2 ^ 31"
  shows "coins_ok (CCoins_of tx nHeight)"
proof -
  let ?w = "map (\<lambda>v. if IsUnspendable (scriptPubKey v) then CTxOut_null else v) (vout tx)"
  have "\<forall>v\<in>set ?w. CTxOut_IsNull v \<longrightarrow> v = CTxOut_null" using assms(1) by (auto simp: CTxOut_IsNull_def)
  then have "canonical (trim ?w)" by (rule canonical_trim)
  moreover have "length (trim ?w) < 2 ^ 32" using length_trim [of ?w] assms(2) by simp
  ultimately show ?thesis using assms(3,4) by (simp add: coins_ok_def CCoins_of_def ClearUnspendable_def Cleanup_def)
qed

text \<open>Coins as a map: the good states, and the effect of spending.\<close>

definition coins_map_ok :: "(u256 \<rightharpoonup> CCoins) \<Rightarrow> bool" where
  "coins_map_ok A \<longleftrightarrow> (\<forall>h x. A h = Some x \<longrightarrow> coins_ok x)"

lemma coins_map_ok_upd: "coins_map_ok A \<Longrightarrow> coins_ok x \<Longrightarrow> coins_map_ok (A(h := live (Some x)))"
  by (auto simp: coins_map_ok_def live_def split: if_splits)

context coins_view
begin

lemma put_ref_state: "cache_state coins (put_ref c h x) = (cache_state coins c)(h := live (Some x))"
  "cache_best best (put_ref c h x) = cache_best best c"
  using cache_set [of c h x] by (simp_all add: put_ref_def cache_SetCoins_def)

lemma spend_input_state:
  assumes "spend_input get txin (c, us) = Inr (c', us')"
  obtains x x' u where "cache_state coins c (op_hash (prevout txin)) = Some x" and "Spend x (prevout txin) = Some (x', u)"
    and "us' = us @ [u]" and "cache_state coins c' = (cache_state coins c)(op_hash (prevout txin) := live (Some x'))"
    and "cache_best best c' = cache_best best c"
proof -
  let ?h = "op_hash (prevout txin)"
  obtain c1 r where g: "cache_GetCoins get c ?h = (c1, r)" by (cases "cache_GetCoins get c ?h")
  with assms obtain x x' u where "r = Some x" "Spend x (prevout txin) = Some (x', u)" "us' = us @ [u]" "c' = put_ref c1 ?h x'"
    by (auto simp: spend_input_def cache_ref_def Fetch_get bindE_eq_Inr split: option.splits)
  with cache_get [OF g] Spend_Some(6) show ?thesis by (intro that) (auto simp: put_ref_state)
qed

lemma undo_input_state:
  assumes "Spend x (prevout txin) = Some (x', u)" and "A (op_hash (prevout txin)) = Some x" and "coins_ok x"
    and c: "cache_state coins c = A(op_hash (prevout txin) := live (Some x'))"
  shows "\<exists>c'. undo_input get (txin, u) (c, clean) = Inr (c', clean) \<and> cache_state coins c' = A \<and> cache_best best c' = cache_best best c"
proof -
  let ?h = "op_hash (prevout txin)" and ?n = "unat (op_n (prevout txin))"
  note sp = Spend_Some [OF assms(1)]
  obtain c1 r where g: "cache_GetCoins get c ?h = (c1, r)" by (cases "cache_GetCoins get c ?h")
  from cache_get [OF g] c have c1: "cache_state coins c1 = A(?h := live (Some x'))" "cache_best best c1 = cache_best best c"
    "live r = live (Some x')" by auto
  have n1: "unat (op_n (prevout txin) + 1) = ?n + 1" using sp(1) assms(3) by (intro unat_suc) (auto simp: coins_ok_def)
  have ok': "coins_ok x'" using Spend_ok assms(1,3) by blast
  then have pr: "IsPruned x' \<longleftrightarrow> c_vout x' = []" by (intro IsPruned_canonical) (simp add: coins_ok_def)
  have rest: "(resize_vout (c_vout x') (?n + 1))[?n := c_vout x ! ?n] = c_vout x"
    using restore_output [of "c_vout x" ?n] assms(3) sp(1,3) by (simp add: coins_ok_def)
  have len: "?n < length (resize_vout v (?n + 1))" for v by (simp add: resize_vout_def)
  show ?thesis
  proof (cases "c_vout x' = []")
    case True
    with pr c1(3) have "IsPruned (case r of None \<Rightarrow> new_CCoins | Some y \<Rightarrow> y)"
      by (auto simp: live_def IsPruned_def new_CCoins_def split: option.splits if_splits)
    moreover have "u_nHeight u \<noteq> 0" "sint (u_nHeight u) = c_nHeight x" "u_fCoinBase u = c_fCoinBase x" "u_nVersion u = c_nVersion x"
      using sp(5) True height_word [of "c_nHeight x"] assms(3) by (auto simp: coins_ok_def)
    moreover have "new_CCoins\<lparr>c_fCoinBase := c_fCoinBase x, c_nHeight := c_nHeight x, c_nVersion := c_nVersion x,
        c_vout := (resize_vout [] (?n + 1))[?n := c_vout x ! ?n]\<rparr> = x"
      using rest True by (cases x) (simp add: new_CCoins_def)
    ultimately show ?thesis
      using g c1 n1 len [of "[]"] sp(4,6) assms(2)
      by (auto simp: undo_input_def Let_def new_CCoins_def IsAvailable_def cache_set fun_eq_iff)
  next
    case False
    then have r: "r = Some x'" using c1(3) pr by (auto simp: live_def split: option.splits if_splits)
    have "\<not> IsAvailable x' ?n"
    proof
      assume av: "IsAvailable x' ?n"
      have "(c_vout x)[?n := CTxOut_null] ! ?n = c_vout x' ! ?n"
        using trim_append [of "(c_vout x)[?n := CTxOut_null]"] av sp(3) by (metis IsAvailable_def CCoins.select_convs(2) CCoins.update_convs(2) nth_append CCoins.surjective)
      with av sp(1) show False by (simp add: IsAvailable_def)
    qed
    moreover have "x'\<lparr>c_vout := (resize_vout (c_vout x') (?n + 1))[?n := c_vout x ! ?n]\<rparr> = x"
      using rest sp(3) by (cases x) simp
    ultimately show ?thesis
      using g c1 n1 r pr False len [of "c_vout x'"] sp(4,5,6) assms(2)
      by (auto simp: undo_input_def Let_def cache_set fun_eq_iff)
  qed
qed

text \<open>All inputs of a transaction.\<close>

lemma spend_inputs_state:
  assumes "foldE (spend_input get) ins (c, us) = Inr (c', us')" and "coins_map_ok (cache_state coins c)"
  shows "\<exists>vs. us' = us @ vs \<and> length vs = length ins \<and> coins_map_ok (cache_state coins c') \<and> cache_best best c' = cache_best best c
    \<and> (\<forall>h. cache_state coins c h = None \<longrightarrow> cache_state coins c' h = None)
    \<and> (\<forall>d clean. cache_state coins d = cache_state coins c' \<longrightarrow> (\<exists>d'. foldE (undo_input get) (rev (zip ins vs)) (d, clean) = Inr (d', clean)
        \<and> cache_state coins d' = cache_state coins c \<and> cache_best best d' = cache_best best d))"
  using assms
proof (induction ins arbitrary: c us)
  case Nil
  then show ?case by simp
next
  case (Cons txin ins)
  from Cons.prems(1) obtain c1 us1 where s: "spend_input get txin (c, us) = Inr (c1, us1)"
    and r: "foldE (spend_input get) ins (c1, us1) = Inr (c', us')" by (auto simp: bindE_eq_Inr)
  from s obtain x x' u where x: "cache_state coins c (op_hash (prevout txin)) = Some x" "Spend x (prevout txin) = Some (x', u)"
    and us1: "us1 = us @ [u]" and c1: "cache_state coins c1 = (cache_state coins c)(op_hash (prevout txin) := live (Some x'))"
      "cache_best best c1 = cache_best best c" by (rule spend_input_state)
  have ok: "coins_ok x" using x(1) Cons.prems(2) by (simp add: coins_map_ok_def)
  have ok1: "coins_map_ok (cache_state coins c1)"
    unfolding c1 by (rule coins_map_ok_upd [OF Cons.prems(2) Spend_ok [OF x(2) ok]])
  from Cons.IH [OF r ok1] obtain vs where vs: "us' = us1 @ vs" "length vs = length ins" "coins_map_ok (cache_state coins c')"
    "cache_best best c' = cache_best best c1" "\<forall>h. cache_state coins c1 h = None \<longrightarrow> cache_state coins c' h = None"
    and undo: "\<And>d clean. cache_state coins d = cache_state coins c' \<Longrightarrow> \<exists>d'. foldE (undo_input get) (rev (zip ins vs)) (d, clean) = Inr (d', clean)
        \<and> cache_state coins d' = cache_state coins c1 \<and> cache_best best d' = cache_best best d" by blast
  have "\<exists>d'. foldE (undo_input get) (rev (zip (txin # ins) (u # vs))) (d, clean) = Inr (d', clean)
        \<and> cache_state coins d' = cache_state coins c \<and> cache_best best d' = cache_best best d"
    if "cache_state coins d = cache_state coins c'" for d clean
  proof -
    from undo [OF that] obtain d1 where d1: "foldE (undo_input get) (rev (zip ins vs)) (d, clean) = Inr (d1, clean)"
      "cache_state coins d1 = cache_state coins c1" "cache_best best d1 = cache_best best d" by blast
    from undo_input_state [OF x(2), of "cache_state coins c" d1 clean] x(1) ok d1 c1(1) obtain d' where
      "undo_input get (txin, u) (d1, clean) = Inr (d', clean)" "cache_state coins d' = cache_state coins c" "cache_best best d' = cache_best best d1"
      by auto
    with d1 show ?thesis by (simp add: foldE_append)
  qed
  moreover have "cache_state coins c' h = None" if "cache_state coins c h = None" for h
    using vs(5) [rule_format, of h] that x(1) unfolding c1 by (cases "h = op_hash (prevout txin)") auto
  ultimately show ?case using vs us1 c1(2) by (intro exI [of _ "u # vs"]) auto
qed

text \<open>The outputs of a transaction.\<close>

lemma undo_outputs_state:
  assumes "cache_state coins c = A(h := live (Some outsBlock))" and "A h = None" and "ClearUnspendable outsBlock = outsBlock"
  shows "\<exists>c'. undo_outputs get h outsBlock (c, clean) = Inr (c', clean) \<and> cache_state coins c' = A \<and> cache_best best c' = cache_best best c"
proof -
  have clear: "IsPruned p \<Longrightarrow> IsPruned (ClearUnspendable p)" for p
    by (auto simp: ClearUnspendable_def Cleanup_def IsPruned_def dest!: set_dropWhileD)
  have fixv: "IsPruned (x\<lparr>c_nVersion := v\<rparr>) = IsPruned x" for x v by (simp add: IsPruned_def)
  have new: "IsPruned new_CCoins" by (simp add: IsPruned_def new_CCoins_def)
  have same: "A(h := None) = A" using assms(2) by auto
  obtain c1 r where g: "cache_GetCoins get c h = (c1, r)" by (cases "cache_GetCoins get c h")
  from cache_get [OF g] assms(1) have c1: "cache_state coins c1 = A(h := live (Some outsBlock))" "cache_best best c1 = cache_best best c"
    "live r = live (Some outsBlock)" by auto
  have have_c: "cache_HaveCoins get c h = (c1, r \<noteq> None)" using g by (simp add: cache_HaveCoins_def Fetch_get)
  show ?thesis
  proof (cases r)
    case None
    then have "IsPruned outsBlock" using c1(3) by (auto simp: live_def split: if_splits)
    then show ?thesis using have_c None c1 same clear [OF new]
      by (auto simp: undo_outputs_def Let_def CCoins_eq_def fixv)
  next
    case (Some x)
    obtain c2 r2 where g2: "cache_GetCoins get c1 h = (c2, r2)" by (cases "cache_GetCoins get c1 h")
    have r2: "r2 = Some x"
      using g g2 Some by (auto simp: cache_GetCoins_def split: option.splits prod.splits)
    from cache_get [OF g2] c1 have c2: "cache_state coins c2 = A(h := live (Some outsBlock))" "cache_best best c2 = cache_best best c" by auto
    have "CCoins_eq (ClearUnspendable x) outsBlock" "CCoins_eq (ClearUnspendable x\<lparr>c_nVersion := c_nVersion outsBlock\<rparr>) outsBlock"
      using c1(3) Some assms(3) clear [of x] by (auto simp: live_def CCoins_eq_def fixv split: if_splits)
    then show ?thesis using have_c Some g2 r2 c2 same new
      by (auto simp: undo_outputs_def Let_def cache_ref_def Fetch_get put_ref_state)
  qed
qed

text \<open>One transaction, and all transactions of a block.\<close>

lemma update_tx_state:
  assumes "update_tx get txid nHeight tx (c, us) = Inr (c', us')" and "coins_map_ok (cache_state coins c)"
    and "cache_state coins c (txid tx) = None" and "coins_ok (CCoins_of tx nHeight)"
  shows "\<exists>vs. us' = us @ (if IsCoinBase tx then [] else [vs]) \<and> coins_map_ok (cache_state coins c') \<and> cache_best best c' = cache_best best c
    \<and> (\<forall>h. h \<noteq> txid tx \<longrightarrow> cache_state coins c h = None \<longrightarrow> cache_state coins c' h = None)
    \<and> (\<forall>d clean r. cache_state coins d = cache_state coins c' \<longrightarrow> (\<exists>d'. cache_state coins d' = cache_state coins c
        \<and> cache_best best d' = cache_best best d
        \<and> disconnect_loop get txid nHeight ((tx, if IsCoinBase tx then None else Some vs) # r) (d, clean)
          = disconnect_loop get txid nHeight r (d', clean)))"
proof -
  have clear: "ClearUnspendable (CCoins_of tx nHeight) = CCoins_of tx nHeight"
    by (simp add: CCoins_of_def ClearUnspendable_idem)
  obtain c1 vs where s: "(if \<not> IsCoinBase tx then foldE (spend_input get) (vin tx) (c, []) else Inr (c, [])) = Inr (c1, vs)"
    and c': "c' = cache_SetCoins c1 (txid tx) (CCoins_of tx nHeight)" and us': "us' = us @ (if IsCoinBase tx then [] else [vs])"
    using assms(1) by (auto simp: update_tx_def UpdateCoins_def bindE_eq_Inr split: if_splits)
  have "\<exists>vs'. vs = [] @ vs' \<and> (IsCoinBase tx \<longrightarrow> vs' = [] \<and> c1 = c) \<and> coins_map_ok (cache_state coins c1)
    \<and> cache_best best c1 = cache_best best c \<and> (\<forall>h. cache_state coins c h = None \<longrightarrow> cache_state coins c1 h = None)
    \<and> (\<not> IsCoinBase tx \<longrightarrow> length vs' = length (vin tx) \<and>
       (\<forall>d clean. cache_state coins d = cache_state coins c1 \<longrightarrow> (\<exists>d'. foldE (undo_input get) (rev (zip (vin tx) vs')) (d, clean) = Inr (d', clean)
        \<and> cache_state coins d' = cache_state coins c \<and> cache_best best d' = cache_best best d)))"
    using s assms(2) spend_inputs_state [of "vin tx" c "[]" c1 vs] by (cases "IsCoinBase tx") auto
  then have c1: "coins_map_ok (cache_state coins c1)" "cache_best best c1 = cache_best best c"
    "\<And>h. cache_state coins c h = None \<Longrightarrow> cache_state coins c1 h = None" "IsCoinBase tx \<Longrightarrow> c1 = c"
    and un: "\<And>d clean. \<not> IsCoinBase tx \<Longrightarrow> cache_state coins d = cache_state coins c1 \<Longrightarrow> length vs = length (vin tx) \<and>
      (\<exists>d'. foldE (undo_input get) (rev (zip (vin tx) vs)) (d, clean) = Inr (d', clean)
        \<and> cache_state coins d' = cache_state coins c \<and> cache_best best d' = cache_best best d)" by auto
  have st: "cache_state coins c' = (cache_state coins c1)(txid tx := live (Some (CCoins_of tx nHeight)))" "cache_best best c' = cache_best best c"
    using c1(2) by (simp_all add: c' cache_set)
  have "\<exists>d'. cache_state coins d' = cache_state coins c \<and> cache_best best d' = cache_best best d
      \<and> disconnect_loop get txid nHeight ((tx, if IsCoinBase tx then None else Some vs) # r) (d, clean)
        = disconnect_loop get txid nHeight r (d', clean)"
    if d: "cache_state coins d = cache_state coins c'" for d clean r
  proof -
    obtain d1 where d1: "undo_outputs get (txid tx) (CCoins_of tx nHeight) (d, clean) = Inr (d1, clean)"
      "cache_state coins d1 = cache_state coins c1" "cache_best best d1 = cache_best best d"
      using undo_outputs_state [of d "cache_state coins c1" "txid tx" "CCoins_of tx nHeight" clean] d st(1) c1(3) assms(3) clear by auto
    show ?thesis
    proof (cases "IsCoinBase tx")
      case True
      then show ?thesis using d1 c1(4) by auto
    next
      case False
      from un [OF False d1(2), of clean] d1 False show ?thesis by auto
    qed
  qed
  moreover have "coins_map_ok (cache_state coins c')" unfolding st(1) by (rule coins_map_ok_upd [OF c1(1) assms(4)])
  ultimately show ?thesis using us' st c1(3) by (intro exI [of _ vs]) auto
qed

lemma update_txs_state:
  assumes "foldE (update_tx get txid nHeight) txs (c, us) = Inr (c', us')" and "coins_map_ok (cache_state coins c)"
    and "distinct (map txid txs)" and "\<forall>tx\<in>set txs. cache_state coins c (txid tx) = None \<and> coins_ok (CCoins_of tx nHeight)"
  shows "\<exists>vss. length vss = length txs \<and> cache_best best c' = cache_best best c \<and> coins_map_ok (cache_state coins c')
    \<and> us' = us @ concat (map2 (\<lambda>tx vs. if IsCoinBase tx then [] else [vs]) txs vss)
    \<and> (\<forall>d clean r. cache_state coins d = cache_state coins c' \<longrightarrow> (\<exists>d'. cache_state coins d' = cache_state coins c
        \<and> cache_best best d' = cache_best best d
        \<and> disconnect_loop get txid nHeight (rev (map2 (\<lambda>tx vs. (tx, if IsCoinBase tx then None else Some vs)) txs vss) @ r) (d, clean)
          = disconnect_loop get txid nHeight r (d', clean)))"
  using assms
proof (induction txs arbitrary: c us)
  case Nil
  then show ?case by auto
next
  case (Cons tx txs)
  from Cons.prems(1) obtain c1 us1 where s: "update_tx get txid nHeight tx (c, us) = Inr (c1, us1)"
    and r: "foldE (update_tx get txid nHeight) txs (c1, us1) = Inr (c', us')" by (auto simp: bindE_eq_Inr)
  from update_tx_state [OF s Cons.prems(2)] Cons.prems(4) obtain vs where
    us1: "us1 = us @ (if IsCoinBase tx then [] else [vs])" and ok1: "coins_map_ok (cache_state coins c1)" "cache_best best c1 = cache_best best c"
    and fresh: "\<And>h. h \<noteq> txid tx \<Longrightarrow> cache_state coins c h = None \<Longrightarrow> cache_state coins c1 h = None"
    and un: "\<And>d clean r. cache_state coins d = cache_state coins c1 \<Longrightarrow> \<exists>d'. cache_state coins d' = cache_state coins c
        \<and> cache_best best d' = cache_best best d
        \<and> disconnect_loop get txid nHeight ((tx, if IsCoinBase tx then None else Some vs) # r) (d, clean)
          = disconnect_loop get txid nHeight r (d', clean)" by auto
  have "\<forall>t\<in>set txs. cache_state coins c1 (txid t) = None \<and> coins_ok (CCoins_of t nHeight)"
  proof
    fix t
    assume t: "t \<in> set txs"
    with Cons.prems(3) have "txid t \<noteq> txid tx" by (auto simp: image_iff)
    with fresh Cons.prems(4) t show "cache_state coins c1 (txid t) = None \<and> coins_ok (CCoins_of t nHeight)" by simp
  qed
  from Cons.IH [OF r ok1(1) _ this] Cons.prems(3) obtain vss where vss: "length vss = length txs" "cache_best best c' = cache_best best c1" "coins_map_ok (cache_state coins c')"
    "us' = us1 @ concat (map2 (\<lambda>tx vs. if IsCoinBase tx then [] else [vs]) txs vss)"
    and undo: "\<And>d clean r. cache_state coins d = cache_state coins c' \<Longrightarrow> \<exists>d'. cache_state coins d' = cache_state coins c1
        \<and> cache_best best d' = cache_best best d
        \<and> disconnect_loop get txid nHeight (rev (map2 (\<lambda>tx vs. (tx, if IsCoinBase tx then None else Some vs)) txs vss) @ r) (d, clean)
          = disconnect_loop get txid nHeight r (d', clean)" by auto
  have "\<exists>d'. cache_state coins d' = cache_state coins c \<and> cache_best best d' = cache_best best d
        \<and> disconnect_loop get txid nHeight
            (rev (map2 (\<lambda>tx vs. (tx, if IsCoinBase tx then None else Some vs)) (tx # txs) (vs # vss)) @ r) (d, clean)
          = disconnect_loop get txid nHeight r (d', clean)"
    if "cache_state coins d = cache_state coins c'" for d clean r
  proof -
    from undo [OF that, of "(tx, if IsCoinBase tx then None else Some vs) # r" clean] obtain d1 where
      "cache_state coins d1 = cache_state coins c1" "cache_best best d1 = cache_best best d"
      "disconnect_loop get txid nHeight (rev (map2 (\<lambda>tx vs. (tx, if IsCoinBase tx then None else Some vs)) (tx # txs) (vs # vss)) @ r) (d, clean)
        = disconnect_loop get txid nHeight ((tx, if IsCoinBase tx then None else Some vs) # r) (d1, clean)" by auto
    with un [of d1 r clean] show ?thesis by auto
  qed
  then show ?case using vss us1 ok1(2) by (intro exI [of _ "vs # vss"]) auto
qed

text \<open>The undo data takes every view with the coins after the block back to the coins before it.\<close>

lemma disconnect_state:
  assumes conn: "foldE (update_tx get txid nHeight) (cb # txs) (c, []) = Inr (c', undo)"
    and cb: "IsCoinBase cb" "\<forall>tx\<in>set txs. \<not> IsCoinBase tx" and ok: "coins_map_ok (cache_state coins c)" "distinct (map txid (cb # txs))"
      "\<forall>tx\<in>set (cb # txs). cache_state coins c (txid tx) = None \<and> coins_ok (CCoins_of tx nHeight)"
    and d: "cache_state coins d = cache_state coins c'" "cache_best best d = hash"
  shows "\<exists>d'. DisconnectBlock get bbest txid (Some undo) (cb # txs) nHeight hash hashPrev d = Inr (Some (d', True))
    \<and> cache_state coins d' = cache_state coins c \<and> hashBlock d' = hashPrev"
proof -
  obtain e where b: "cache_GetBestBlock bbest d = (e, hash)" "cache_state coins e = cache_state coins c'"
    using cache_get_best [of d] d by (cases "cache_GetBestBlock bbest d") auto
  from update_txs_state [OF conn ok] obtain ws where ws: "length ws = length (cb # txs)"
    "undo = concat (map2 (\<lambda>tx vs. if IsCoinBase tx then [] else [vs]) (cb # txs) ws)"
    and un: "\<And>d clean r. cache_state coins d = cache_state coins c' \<Longrightarrow> \<exists>d'. cache_state coins d' = cache_state coins c
        \<and> cache_best best d' = cache_best best d
        \<and> disconnect_loop get txid nHeight (rev (map2 (\<lambda>tx vs. (tx, if IsCoinBase tx then None else Some vs)) (cb # txs) ws) @ r) (d, clean)
          = disconnect_loop get txid nHeight r (d', clean)" unfolding append.simps by blast
  obtain vs vss where w: "ws = vs # vss" and vss: "length vss = length txs" using ws(1) by (cases ws) auto
  have u: "concat (map2 (\<lambda>tx vs. if IsCoinBase tx then [] else [vs]) ts ws) = ws" "map2 (\<lambda>tx vs. (tx, if IsCoinBase tx then None else Some vs)) ts ws = zip ts (map Some ws)"
    if "\<forall>tx\<in>set ts. \<not> IsCoinBase tx" "length ws = length ts" for ts and ws :: "CTxInUndo list list"
    using that(2,1) by (induction ws ts rule: list_induct2) auto
  have undo: "undo = vss" using ws(2) cb u(1) [OF cb(2) vss] by (simp add: w)
  have "map2 (\<lambda>tx vs. (tx, if IsCoinBase tx then None else Some vs)) (cb # txs) ws = zip (cb # txs) (None # map Some undo)"
    using cb(1) u(2) [OF cb(2) vss] undo by (simp add: w)
  with un [OF b(2), of "[]" True] obtain d' where d': "cache_state coins d' = cache_state coins c"
    "disconnect_loop get txid nHeight (rev (zip (cb # txs) (None # map Some undo))) (e, True) = Inr (Some (d', True))"
    by auto
  then show ?thesis using b(1) vss undo
    by (simp add: DisconnectBlock_def cache_set_best) (simp add: cache_SetBestBlock_def)
qed

end

text \<open>C22: Taking a block back undoes it. When the transactions of a block were applied to a cache over \<open>pcoinsTip\<close> and the coin
  database, \<open>DisconnectBlock\<close> with the undo data collected on the way finds no inconsistency and restores exactly the
  coins before the block, including height, version and coinbase flag of transactions that had been spent
  completely.\<close>

theorem disconnect_undoes_connect:
  fixes view :: "coins_db coins_cache coins_cache"
  assumes "foldE (update_tx (cache_GetCoins db_GetCoins) txid nHeight) (cb # txs) (view, []) = Inr (view', undo)"
    and "IsCoinBase cb" and "\<forall>tx\<in>set txs. \<not> IsCoinBase tx" and "distinct (map txid (cb # txs))"
    and "coins_map_ok (cache_state (cache_state db_state) view)"
    and "\<forall>tx\<in>set (cb # txs). cache_state (cache_state db_state) view (txid tx) = None"
    and "\<forall>tx\<in>set (cb # txs). length (vout tx) < 2 ^ 32 \<and> (\<forall>v\<in>set (vout tx). 0 \<le> out_value v)"
    and "0 < nHeight" and "nHeight < 2 ^ 31" and "hash \<noteq> 0"
  shows "\<exists>view''. DisconnectBlock (cache_GetCoins db_GetCoins) (cache_GetBestBlock db_GetBestBlock) txid (Some undo) (cb # txs) nHeight hash hashPrev
      (cache_SetBestBlock view' hash) = Inr (Some (view'', True))
    \<and> cache_state (cache_state db_state) view'' = cache_state (cache_state db_state) view \<and> hashBlock view'' = hashPrev"
  using tip.disconnect_state [OF assms(1-3,5,4) _ tip.cache_set_best(1) tip.cache_set_best(2) [OF assms(10)]] assms(6-9) CCoins_of_ok by blast

text \<open>A block with its coinbase and a transaction that spends the only output of an earlier one.\<close>

definition ex_out :: "int \<Rightarrow> CTxOut" where "ex_out v = \<lparr>out_value = v, scriptPubKey = [0x51]\<rparr>"
definition ex_coinbase :: CTransaction where
  "ex_coinbase = \<lparr>tx_nVersion = 1, vin = [\<lparr>prevout = \<lparr>op_hash = 0, op_n = - 1\<rparr>, scriptSig = [], nSequence = - 1\<rparr>],
     vout = [ex_out 20], nLockTime = 0\<rparr>"
definition ex_spend :: CTransaction where
  "ex_spend = \<lparr>tx_nVersion = 1, vin = [\<lparr>prevout = \<lparr>op_hash = 7, op_n = 0\<rparr>, scriptSig = [], nSequence = - 1\<rparr>],
     vout = [ex_out 3, ex_out 4], nLockTime = 0\<rparr>"
lemmas ex_block = ex_out_def ex_coinbase_def ex_spend_def IsCoinBase_def COutPoint_IsNull_def

lemma ex_connect:
  "\<exists>view' undo. foldE (update_tx (cache_GetCoins db_GetCoins) (\<lambda>tx. if IsCoinBase tx then 1 else 2) 2) [ex_coinbase, ex_spend] (ex_stack, []) = Inr (view', undo)"
  by (simp add: update_tx_def UpdateCoins_def spend_input_def cache_ref_def FetchCoins_def cache_GetCoins_def db_GetCoins_def
      ex_stack_def ex_coins_def new_cache_def cache_SetCoins_def Spend_def CTxOut_IsNull_def Let_def ex_block)

theorem disconnect_undoes_connect_witness:
  "\<exists>view' undo view''. foldE (update_tx (cache_GetCoins db_GetCoins) (\<lambda>tx. if IsCoinBase tx then 1 else 2) 2) [ex_coinbase, ex_spend] (ex_stack, [])
      = Inr (view', undo)
    \<and> DisconnectBlock (cache_GetCoins db_GetCoins) (cache_GetBestBlock db_GetBestBlock) (\<lambda>tx. if IsCoinBase tx then 1 else 2)
      (Some undo) [ex_coinbase, ex_spend] 2 5 6 (cache_SetBestBlock view' 5) = Inr (Some (view'', True))
    \<and> cache_state (cache_state db_state) view'' = [7 \<mapsto> ex_coins]"
proof -
  obtain view' undo where u: "foldE (update_tx (cache_GetCoins db_GetCoins) (\<lambda>tx. if IsCoinBase tx then 1 else 2) 2) [ex_coinbase, ex_spend] (ex_stack, [])
      = Inr (view', undo)" using ex_connect by blast
  have ok: "coins_map_ok (cache_state (cache_state db_state) ex_stack)"
    by (simp add: ex_stack_state coins_map_ok_def coins_ok_def canonical_def CTxOut_IsNull_def IsPruned_def ex_coins_def)
  have "\<exists>view''. DisconnectBlock (cache_GetCoins db_GetCoins) (cache_GetBestBlock db_GetBestBlock) (\<lambda>tx. if IsCoinBase tx then 1 else 2)
      (Some undo) [ex_coinbase, ex_spend] 2 5 6 (cache_SetBestBlock view' 5) = Inr (Some (view'', True))
    \<and> cache_state (cache_state db_state) view'' = cache_state (cache_state db_state) ex_stack \<and> hashBlock view'' = 6"
    by (rule disconnect_undoes_connect [OF u]) (simp_all add: ok, simp_all add: ex_stack_state ex_block)
  then show ?thesis using u unfolding ex_stack_state by blast
qed

end
