(* ===== verification/Chain_Connect.thy ===== *)
theory Chain_Connect
  imports Chain_Check Coins_Update
begin

text \<open>
  Connecting a block to the coins: the inputs of a transaction (\<open>CCoinsViewCache::HaveInputs\<close>, \<open>GetValueIn\<close> and \<open>GetOutputFor\<close> of
  \<open>coins.cpp\<close>), \<open>CheckInputs\<close>, \<open>GetP2SHSigOpCount\<close> and \<open>ConnectBlock\<close> of \<open>main.cpp\<close>.

  What the rules read beside the coins is the record \<open>connect_env\<close>. The script interpreter (\<open>VerifyScript\<close>) is a field of it, as are
  the maturity of a coinbase (a command line option), the last checkpoint, and whether scripts are checked by other
  threads. Writing undo data and index entries to disk either succeeds as a whole or aborts the node.
\<close>

record connect_env =
  cn_chain :: chain_env
  bnProofOfWorkLimit :: int
  GetAdjustedTime :: int
  VerifyScript :: "byte list \<Rightarrow> byte list \<Rightarrow> CTransaction \<Rightarrow> nat \<Rightarrow> u32 \<Rightarrow> bool"
  COINBASE_MATURITY :: int
  GetTotalBlocksEstimate :: int
  nScriptCheckThreads :: nat
  disk_ok :: bool

section \<open>The inputs of a transaction\<close>

fun have_coins_loop :: "('v \<Rightarrow> u256 \<Rightarrow> 'v \<times> CCoins option) \<Rightarrow> CTxIn list \<Rightarrow> 'v coins_cache \<Rightarrow> 'v coins_cache \<times> bool" where
  "have_coins_loop bget [] view = (view, True)"
| "have_coins_loop bget (txin # r) view = (case cache_HaveCoins bget view (op_hash (prevout txin)) of
     (view, False) \<Rightarrow> (view, False)
   | (view, True) \<Rightarrow> have_coins_loop bget r view)"

fun available_loop :: "('v \<Rightarrow> u256 \<Rightarrow> 'v \<times> CCoins option) \<Rightarrow> CTxIn list \<Rightarrow> 'v coins_cache \<Rightarrow> ('v coins_cache \<times> bool) result" where
  "available_loop bget [] view = Inr (view, True)"
| "available_loop bget (txin # r) view =
     bindE (cache_ref bget view (op_hash (prevout txin))) (\<lambda>(view, coins).
     if \<not> IsAvailable coins (unat (op_n (prevout txin))) then Inr (view, False) else available_loop bget r view)"

definition HaveInputs :: "('v \<Rightarrow> u256 \<Rightarrow> 'v \<times> CCoins option) \<Rightarrow> CTransaction \<Rightarrow> 'v coins_cache \<Rightarrow> ('v coins_cache \<times> bool) result" where
  "HaveInputs bget tx view =
     (if \<not> IsCoinBase tx then
        (case have_coins_loop bget (vin tx) view of
           (view, False) \<Rightarrow> Inr (view, False)
         | (view, True) \<Rightarrow> available_loop bget (vin tx) view)
      else Inr (view, True))"

definition GetOutputFor :: "('v \<Rightarrow> u256 \<Rightarrow> 'v \<times> CCoins option) \<Rightarrow> CTxIn \<Rightarrow> 'v coins_cache \<Rightarrow> ('v coins_cache \<times> CTxOut) result" where
  "GetOutputFor bget input view =
     bindE (cache_ref bget view (op_hash (prevout input))) (\<lambda>(view, coins).
     if \<not> IsAvailable coins (unat (op_n (prevout input))) then Inl AssertFailed
     else Inr (view, c_vout coins ! unat (op_n (prevout input))))"

definition value_in_step :: "('v \<Rightarrow> u256 \<Rightarrow> 'v \<times> CCoins option) \<Rightarrow> CTxIn \<Rightarrow> 'v coins_cache \<times> int \<Rightarrow> ('v coins_cache \<times> int) result" where
  "value_in_step bget txin s = (case s of (view, nResult) \<Rightarrow>
     bindE (GetOutputFor bget txin view) (\<lambda>(view, out). bindE (i64 (nResult + out_value out)) (\<lambda>n. Inr (view, n))))"

definition GetValueIn :: "('v \<Rightarrow> u256 \<Rightarrow> 'v \<times> CCoins option) \<Rightarrow> CTransaction \<Rightarrow> 'v coins_cache \<Rightarrow> ('v coins_cache \<times> int) result" where
  "GetValueIn bget tx view = (if IsCoinBase tx then Inr (view, 0) else foldE (value_in_step bget) (vin tx) (view, 0))"

definition p2sh_step :: "('v \<Rightarrow> u256 \<Rightarrow> 'v \<times> CCoins option) \<Rightarrow> CTxIn \<Rightarrow> 'v coins_cache \<times> u32 \<Rightarrow> ('v coins_cache \<times> u32) result" where
  "p2sh_step bget txin s = (case s of (view, nSigOps) \<Rightarrow>
     bindE (GetOutputFor bget txin view) (\<lambda>(view, out).
     Inr (view, if IsPayToScriptHash (scriptPubKey out) then nSigOps + GetSigOpCount_P2SH (scriptPubKey out) (scriptSig txin) else nSigOps)))"

definition GetP2SHSigOpCount :: "('v \<Rightarrow> u256 \<Rightarrow> 'v \<times> CCoins option) \<Rightarrow> CTransaction \<Rightarrow> 'v coins_cache \<Rightarrow> ('v coins_cache \<times> u32) result" where
  "GetP2SHSigOpCount bget tx view = (if IsCoinBase tx then Inr (view, 0) else foldE (p2sh_step bget) (vin tx) (view, 0))"

section \<open>Checking the inputs\<close>

definition REJECT_NONSTANDARD :: nat where "REJECT_NONSTANDARD = 0x40"
definition SCRIPT_VERIFY_P2SH :: u32 where "SCRIPT_VERIFY_P2SH = 1"
definition SCRIPT_VERIFY_STRICTENC :: u32 where "SCRIPT_VERIFY_STRICTENC = 2"
definition SCRIPT_VERIFY_NOCACHE :: u32 where "SCRIPT_VERIFY_NOCACHE = 8"

fun check_values :: "('v \<Rightarrow> u256 \<Rightarrow> 'v \<times> CCoins option) \<Rightarrow> int \<Rightarrow> int \<Rightarrow> CTxIn list \<Rightarrow> 'v coins_cache \<Rightarrow> int
    \<Rightarrow> ('v coins_cache \<times> int \<times> verdict) result" where
  "check_values bget maturity nSpendHeight [] view nValueIn = Inr (view, nValueIn, Accept)"
| "check_values bget maturity nSpendHeight (txin # r) view nValueIn =
     bindE (cache_ref bget view (op_hash (prevout txin))) (\<lambda>(view, coins).
     bindE (if c_fCoinBase coins then bindE (i32 (nSpendHeight - c_nHeight coins)) (\<lambda>d. Inr (d < maturity)) else Inr False) (\<lambda>immature.
     if immature then Inr (view, nValueIn, invalid 0 ''bad-txns-premature-spend-of-coinbase'')
     else bindE (vec_at (c_vout coins) (uint (op_n (prevout txin)))) (\<lambda>out.
     bindE (i64 (nValueIn + out_value out)) (\<lambda>nValueIn.
     if \<not> MoneyRange (out_value out) \<or> \<not> MoneyRange nValueIn then Inr (view, nValueIn, invalid 100 ''bad-txns-inputvalues-outofrange'')
     else check_values bget maturity nSpendHeight r view nValueIn))))"

text \<open>A check that is left to other threads is represented by its outcome.\<close>

fun check_scripts :: "('v \<Rightarrow> u256 \<Rightarrow> 'v \<times> CCoins option) \<Rightarrow> (byte list \<Rightarrow> byte list \<Rightarrow> CTransaction \<Rightarrow> nat \<Rightarrow> u32 \<Rightarrow> bool) \<Rightarrow> bool \<Rightarrow> u32
    \<Rightarrow> CTransaction \<Rightarrow> (nat \<times> CTxIn) list \<Rightarrow> 'v coins_cache \<Rightarrow> bool list \<Rightarrow> ('v coins_cache \<times> bool list \<times> verdict) result" where
  "check_scripts bget verify threads flags tx [] view pvChecks = Inr (view, pvChecks, Accept)"
| "check_scripts bget verify threads flags tx ((i, txin) # r) view pvChecks =
     bindE (cache_ref bget view (op_hash (prevout txin))) (\<lambda>(view, coins).
     bindE (vec_at (c_vout coins) (uint (op_n (prevout txin)))) (\<lambda>out.
     let check = (\<lambda>flags. verify (scriptSig txin) (scriptPubKey out) tx i flags) in
     if threads then check_scripts bget verify threads flags tx r view (pvChecks @ [check flags])
     else if \<not> check flags then
       Inr (view, pvChecks, Reject (if flags AND SCRIPT_VERIFY_STRICTENC \<noteq> 0 \<and> check (flags AND NOT SCRIPT_VERIFY_STRICTENC) then 0 else 100)
         REJECT_NONSTANDARD ''non-canonical'' False)
     else check_scripts bget verify threads flags tx r view pvChecks))"

text \<open>The tests after the inputs have been found.\<close>

definition check_amounts :: "('v \<Rightarrow> u256 \<Rightarrow> 'v \<times> CCoins option) \<Rightarrow> connect_env \<Rightarrow> CTransaction \<Rightarrow> bool \<Rightarrow> u32 \<Rightarrow> bool \<Rightarrow> int \<Rightarrow> 'v coins_cache
    \<Rightarrow> ('v coins_cache \<times> bool list \<times> verdict) result" where
  "check_amounts bget env tx fScriptChecks flags threads nSpendHeight inputs =
     bindE (check_values bget (COINBASE_MATURITY env) nSpendHeight (vin tx) inputs 0) (\<lambda>(inputs, nValueIn, v).
     if v \<noteq> Accept then Inr (inputs, [], v)
     else bindE (GetValueOut tx) (\<lambda>nValueOut.
     if nValueIn < nValueOut then Inr (inputs, [], invalid 100 ''bad-txns-in-belowout'')
     else bindE (i64 (nValueIn - nValueOut)) (\<lambda>nTxFee.
     if nTxFee < 0 then Inr (inputs, [], invalid 100 ''bad-txns-fee-negative'')
     else if \<not> MoneyRange nTxFee then Inr (inputs, [], invalid 100 ''bad-txns-fee-outofrange'')
     else if fScriptChecks then
       check_scripts bget (VerifyScript env) threads flags tx (zip [0..<length (vin tx)] (vin tx)) inputs []
     else Inr (inputs, [], Accept))))"

definition CheckInputs :: "('v \<Rightarrow> u256 \<Rightarrow> 'v \<times> CCoins option) \<Rightarrow> ('v \<Rightarrow> 'v \<times> u256) \<Rightarrow> connect_env \<Rightarrow> CTransaction \<Rightarrow> 'v coins_cache
    \<Rightarrow> bool \<Rightarrow> u32 \<Rightarrow> bool \<Rightarrow> ('v coins_cache \<times> bool list \<times> verdict) result" where
  "CheckInputs bget bbest env tx inputs fScriptChecks flags threads =
     (if IsCoinBase tx then Inr (inputs, [], Accept)
      else bindE (HaveInputs bget tx inputs) (\<lambda>(inputs, have).
      if \<not> have then Inr (inputs, [], Reject 0 0 '''' False)
      else case cache_GetBestBlock bbest inputs of (inputs, best) \<Rightarrow>
        case mapBlockIndex (cn_chain env) best of
          None \<Rightarrow> Inl OutOfBounds
        | Some pindexPrev \<Rightarrow>
            bindE (i32 (nHeight pindexPrev + 1)) (\<lambda>nSpendHeight.
            check_amounts bget env tx fScriptChecks flags threads nSpendHeight inputs)))"

section \<open>Connecting a block\<close>

fun overwrites :: "('v \<Rightarrow> u256 \<Rightarrow> 'v \<times> CCoins option) \<Rightarrow> u256 list \<Rightarrow> 'v coins_cache \<Rightarrow> ('v coins_cache \<times> bool) result" where
  "overwrites bget [] view = Inr (view, False)"
| "overwrites bget (h # r) view = (case cache_HaveCoins bget view h of
     (view, False) \<Rightarrow> overwrites bget r view
   | (view, True) \<Rightarrow> bindE (cache_ref bget view h) (\<lambda>(view, coins).
       if \<not> IsPruned coins then Inr (view, True) else overwrites bget r view))"

text \<open>\<open>hasHash\<close> is false for the index entry of a block under construction.\<close>

definition fEnforceBIP30 :: "bool \<Rightarrow> CBlockIndex \<Rightarrow> bool" where
  "fEnforceBIP30 hasHash pindex \<longleftrightarrow> \<not> hasHash \<or> \<not>
     ((nHeight pindex = 91842 \<and> phashBlock pindex = 0x00000000000a4d0a398161ffc163c503763b1f4360639393e0e4c8e300e0caec)
      \<or> (nHeight pindex = 91880 \<and> phashBlock pindex = 0x00000000000743f190a18c5577a3c2d2a1f610ae9601ac046a38084ccb7cd721))"

record 'v connect_state =
  st_view :: "'v coins_cache"
  st_nFees :: int
  st_nSigOps :: u32
  st_vtxundo :: "CTxInUndo list list"
  st_checks :: "bool list"

text \<open>The inputs of a transaction that is no coinbase.\<close>

definition connect_inputs :: "('v \<Rightarrow> u256 \<Rightarrow> 'v \<times> CCoins option) \<Rightarrow> ('v \<Rightarrow> 'v \<times> u256) \<Rightarrow> connect_env \<Rightarrow> bool \<Rightarrow> bool \<Rightarrow> u32 \<Rightarrow> CTransaction
    \<Rightarrow> 'v connect_state \<Rightarrow> ('v connect_state \<times> verdict) result" where
  "connect_inputs bget bbest env fScriptChecks fStrict flags tx s =
     bindE (HaveInputs bget tx (st_view s)) (\<lambda>(view, have).
     if \<not> have then Inr (s, invalid 100 ''bad-txns-inputs-missingorspent'')
     else bindE (if fStrict then GetP2SHSigOpCount bget tx view else Inr (view, 0)) (\<lambda>(view, n).
     let nSigOps = st_nSigOps s + n in
     if fStrict \<and> nSigOps > MAX_BLOCK_SIGOPS then Inr (s, invalid 100 ''bad-blk-sigops'')
     else bindE (GetValueIn bget tx view) (\<lambda>(view, nValueIn).
     bindE (GetValueOut tx) (\<lambda>nValueOut.
     bindE (i64 (nValueIn - nValueOut)) (\<lambda>fee.
     bindE (i64 (st_nFees s + fee)) (\<lambda>nFees.
     bindE (CheckInputs bget bbest env tx view fScriptChecks flags (nScriptCheckThreads env \<noteq> 0)) (\<lambda>(view, vChecks, v).
     Inr (s\<lparr>st_view := view, st_nFees := nFees, st_nSigOps := nSigOps, st_checks := st_checks s @ vChecks\<rparr>, v))))))))"

definition connect_tx :: "('v \<Rightarrow> u256 \<Rightarrow> 'v \<times> CCoins option) \<Rightarrow> ('v \<Rightarrow> 'v \<times> u256) \<Rightarrow> connect_env \<Rightarrow> bool \<Rightarrow> bool \<Rightarrow> u32 \<Rightarrow> int \<Rightarrow> CTransaction \<Rightarrow> u256
    \<Rightarrow> 'v connect_state \<Rightarrow> ('v connect_state \<times> verdict) result" where
  "connect_tx bget bbest env fScriptChecks fStrict flags h tx txhash s =
     (let s = s\<lparr>st_nSigOps := st_nSigOps s + GetLegacySigOpCount tx\<rparr> in
      if st_nSigOps s > MAX_BLOCK_SIGOPS then Inr (s, invalid 100 ''bad-blk-sigops'')
      else bindE (if \<not> IsCoinBase tx then connect_inputs bget bbest env fScriptChecks fStrict flags tx s else Inr (s, Accept)) (\<lambda>(s, v).
        if v \<noteq> Accept then Inr (s, v)
        else bindE (UpdateCoins bget tx (st_view s) h txhash) (\<lambda>(view, txundo).
        Inr (s\<lparr>st_view := view, st_vtxundo := (if \<not> IsCoinBase tx then st_vtxundo s @ [txundo] else st_vtxundo s)\<rparr>, Accept))))"

fun connect_txs :: "('v \<Rightarrow> u256 \<Rightarrow> 'v \<times> CCoins option) \<Rightarrow> ('v \<Rightarrow> 'v \<times> u256) \<Rightarrow> connect_env \<Rightarrow> bool \<Rightarrow> bool \<Rightarrow> u32 \<Rightarrow> int
    \<Rightarrow> (CTransaction \<times> u256) list \<Rightarrow> 'v connect_state \<Rightarrow> ('v connect_state \<times> verdict) result" where
  "connect_txs bget bbest env fScriptChecks fStrict flags h [] s = Inr (s, Accept)"
| "connect_txs bget bbest env fScriptChecks fStrict flags h ((tx, txhash) # r) s =
     bindE (connect_tx bget bbest env fScriptChecks fStrict flags h tx txhash s) (\<lambda>(s, v).
     if v \<noteq> Accept then Inr (s, v) else connect_txs bget bbest env fScriptChecks fStrict flags h r s)"

text \<open>A rejected block leaves a view that the callers throw away.\<close>

datatype 'v connected =
  Connected "'v coins_cache" "CTxInUndo list list"
| Rejected verdict
| NodeError

text \<open>From the point where the view is known to belong to the previous block. The ids of the transactions are read off the
  Merkle tree that \<open>CheckBlock\<close> has built.\<close>

definition connect_coins :: "('v \<Rightarrow> u256 \<Rightarrow> 'v \<times> CCoins option) \<Rightarrow> ('v \<Rightarrow> 'v \<times> u256) \<Rightarrow> connect_env \<Rightarrow> bool \<Rightarrow> CBlock \<Rightarrow> CBlockIndex \<Rightarrow> bool
    \<Rightarrow> 'v coins_cache \<Rightarrow> 'v connected result" where
  "connect_coins bget bbest env fJustCheck b pindex hasHash view =
     (let fScriptChecks = (nHeight pindex \<ge> GetTotalBlocksEstimate env);
          fStrict = (uint (idx_nTime pindex) \<ge> 1333238400);
          flags = (SCRIPT_VERIFY_NOCACHE OR (if fStrict then SCRIPT_VERIFY_P2SH else 0)) in
      bindE (tx_hashes b) (\<lambda>hashes.
      bindE (if fEnforceBIP30 hasHash pindex then overwrites bget hashes view else Inr (view, False)) (\<lambda>(view, over).
      if over then Inr (Rejected (invalid 100 ''bad-txns-BIP30''))
      else bindE (connect_txs bget bbest env fScriptChecks fStrict flags (nHeight pindex) (zip (vtx b) hashes)
          \<lparr>st_view = view, st_nFees = 0, st_nSigOps = 0, st_vtxundo = [], st_checks = []\<rparr>) (\<lambda>(s, v).
      if v \<noteq> Accept then Inr (Rejected v)
      else bindE (vec_at (vtx b) 0) (\<lambda>cb.
      bindE (vec_at (vout cb) 0) (\<lambda>out.
      bindE (GetBlockValue (nHeight pindex) (st_nFees s)) (\<lambda>limit.
      if out_value out > limit then Inr (Rejected (invalid 100 ''bad-cb-amount''))
      else if \<not> (\<forall>c\<in>set (st_checks s). c) then Inr (Rejected (Reject 100 0 '''' False))
      else if fJustCheck then Inr (Connected (st_view s) (st_vtxundo s))
      else if \<not> disk_ok env then Inr NodeError
      else Inr (Connected (cache_SetBestBlock (st_view s) (phashBlock pindex)) (st_vtxundo s)))))))))"

definition ConnectBlock :: "('v \<Rightarrow> u256 \<Rightarrow> 'v \<times> CCoins option) \<Rightarrow> ('v \<Rightarrow> 'v \<times> u256) \<Rightarrow> connect_env \<Rightarrow> nat \<Rightarrow> CBlock \<Rightarrow> CBlockIndex \<Rightarrow> bool
    \<Rightarrow> 'v coins_cache \<Rightarrow> bool \<Rightarrow> 'v connected result option" where
  "ConnectBlock bget bbest env fuel b pindex hasHash view fJustCheck =
     (case CheckBlock (cn_chain env) (bnProofOfWorkLimit env) (GetAdjustedTime env) b (\<not> fJustCheck) (\<not> fJustCheck) of
        Inl e \<Rightarrow> Some (Inl e)
      | Inr (b, v) \<Rightarrow>
          if v \<noteq> Accept then Some (Inr (Rejected v))
          else case CheckLottoResult (cn_chain env) fuel b of
            None \<Rightarrow> None
          | Some (Inl e) \<Rightarrow> Some (Inl e)
          | Some (Inr v) \<Rightarrow>
              if v \<noteq> Accept then Some (Inr (Rejected v))
              else
                let hashPrev = (case prev_index (mapBlockIndex (cn_chain env)) pindex of None \<Rightarrow> 0 | Some p \<Rightarrow> phashBlock p) in
                case cache_GetBestBlock bbest view of (view, best) \<Rightarrow>
                  if hashPrev \<noteq> best then Some (Inr (Rejected (Reject 100 REJECT_INVALID ''bad-pre-hash'' True)))
                  else if CBlockHeader_GetHash (env_Hash9 (cn_chain env)) b = HashGenesisBlock (cn_chain env)
                  then Some (Inr (Connected (cache_SetBestBlock view (phashBlock pindex)) []))
                  else Some (connect_coins bget bbest env fJustCheck b pindex hasHash view))"

end
