(* ===== verification/Chain_Activate.thy ===== *)
theory Chain_Activate
  imports Chain_Best Chain_Connect
begin

text \<open>
  Making the chain with the most work the active one: the loops of \<open>ActivateBestChain\<close>, over the operations that connect and disconnect
  one block. \<open>activate_loop\<close> is \<open>ActivateBestChain\<close> with these two operations as arguments.

  \<open>tip_contract\<close> states what activation needs of them: validation of a block at the tip is a matter of the block (\<open>good\<close>), a
  good block extends the active chain, and a block that is refused is marked as failed. Under this contract activation ends,
  and the active chain ends in a block that no known block with a valid history surpasses. A block that is refused without
  being marked breaks the contract; with a child that is a candidate, activation then never ends. \<open>Chain_Accept\<close> shows the contract for the operations
  of the node, given their answers.
\<close>

datatype 's tip_outcome = TipDone 's | TipInvalid nat bool 's | TipError 's

datatype round_end = Finished | Again | Broken

fun disconnect_while :: "('a node_state_scheme \<Rightarrow> 'a node_state_scheme tip_outcome result option) \<Rightarrow> u256 list \<Rightarrow> 'a node_state_scheme
    \<Rightarrow> (bool \<times> 'a node_state_scheme) result option" where
  "disconnect_while disc [] st = returnF (True, st)"
| "disconnect_while disc (p # r) st =
     (if Contains (ns_index st) (chainMostWork st) p then returnF (True, st)
      else bindF (disc st) (\<lambda>out. case out of
          TipDone st \<Rightarrow> disconnect_while disc r st
        | TipInvalid code corrupt st \<Rightarrow> returnF (False, st)
        | TipError st \<Rightarrow> returnF (False, st)))"

text \<open>A block that could not be connected because it violates a rule.\<close>

definition block_refused :: "(u256 \<Rightarrow> nat) \<Rightarrow> u256 \<Rightarrow> nat \<Rightarrow> bool \<Rightarrow> 'a node_state_scheme \<Rightarrow> (round_end \<times> 'a node_state_scheme) result option" where
  "block_refused addr p code corrupt st =
     (let st = (if \<not> corrupt then (case Tip (chainMostWork st) of None \<Rightarrow> st | Some t \<Rightarrow> note_invalid t st) else st);
          fComplete = (if code \<noteq> REJECT_INVALID_LOTTO then Again else Finished)
      in if code = REJECT_DIRTY_BLOCK then
           (case parent (ns_index st) p of
              None \<Rightarrow> Some (Inl AssertFailed)
            | Some q \<Rightarrow> returnF (fComplete, valid_erase addr p (set_most (Some q) st)))
         else returnF (fComplete, st))"

fun connect_while :: "(u256 \<Rightarrow> nat) \<Rightarrow> (u256 \<Rightarrow> 'a node_state_scheme \<Rightarrow> 'a node_state_scheme tip_outcome result option) \<Rightarrow> nat
    \<Rightarrow> 'a node_state_scheme \<Rightarrow> (round_end \<times> 'a node_state_scheme) result option" where
  "connect_while addr conn 0 st = None"
| "connect_while addr conn (Suc fuel) st = (case Tip (chainMostWork st) of
     None \<Rightarrow> Some (Inl InvalidData)
   | Some t \<Rightarrow>
       if Contains (ns_index st) (chainActive st) t then returnF (Finished, st)
       else case chain_get (chainMostWork st) (Height (chainActive st) + 1) of
         None \<Rightarrow> Some (Inl InvalidData)
       | Some pindexConnect \<Rightarrow> bindF (conn pindexConnect st) (\<lambda>out. case out of
             TipDone st \<Rightarrow> connect_while addr conn fuel st
           | TipInvalid code corrupt st \<Rightarrow> block_refused addr pindexConnect code corrupt st
           | TipError st \<Rightarrow> returnF (Broken, st)))"

fun activate_loop :: "(u256 \<Rightarrow> nat) \<Rightarrow> (int \<Rightarrow> CBlockIndex option) \<Rightarrow> (u256 \<Rightarrow> 'a node_state_scheme \<Rightarrow> 'a node_state_scheme tip_outcome result option)
    \<Rightarrow> ('a node_state_scheme \<Rightarrow> 'a node_state_scheme tip_outcome result option) \<Rightarrow> nat \<Rightarrow> 'a node_state_scheme
    \<Rightarrow> (bool \<times> 'a node_state_scheme) result option" where
  "activate_loop addr btc conn disc 0 st = None"
| "activate_loop addr btc conn disc (Suc fuel) st = (case FindMostWorkChain addr btc fuel st of
     None \<Rightarrow> None
   | Some st \<Rightarrow>
       if Tip (chainMostWork st) = None then returnF (True, st)
       else bindF (disconnect_while disc (lineage (ns_index st) (Tip (chainActive st))) st) (\<lambda>(ok, st).
         if \<not> ok then returnF (False, st)
         else bindF (connect_while addr conn fuel st) (\<lambda>(fComplete, st). case fComplete of
             Finished \<Rightarrow> returnF (True, st)
           | Again \<Rightarrow> activate_loop addr btc conn disc fuel st
           | Broken \<Rightarrow> returnF (False, st))))"

section \<open>Chains inside a chain\<close>

lemma chain_of_nth:
  assumes "index_wf idx" and "idx t = Some e" and "n < length (chain_of idx (Some t))"
  shows "\<exists>p f. chain_of idx (Some t) ! n = Some p \<and> idx p = Some f \<and> height idx p = n \<and> p \<in> set (lineage idx (Some t))"
  using assms
proof (induction arbitrary: n rule: lineage_induct)
  case (root t e)
  then show ?case using chain_of_step [OF assms(1) root(1)] lineage_simps(2) [OF assms(1) root(1)] by auto
next
  case (step t e q f)
  note c = chain_of_step [OF assms(1) step(1)] and cq = chain_of_step(2) [OF assms(1) step(3)]
  show ?case
  proof (cases "n < length (chain_of idx (Some q))")
    case True
    then show ?thesis using step.IH [of n] lineage_simps(2) [OF assms(1) step(1)] by (auto simp: c(1) step(2) nth_append)
  next
    case False
    then have "n = length (chain_of idx (Some q))" using step.prems c cq step(4) by simp
    then show ?thesis using step(1,2,4) cq lineage_simps(2) [OF assms(1) step(1)] by (intro exI [of _ t] exI [of _ e]) (simp add: c(1) nth_append)
  qed
qed

lemma chain_next:
  assumes wf: "index_wf idx" and t: "idx t = Some e" and a: "valid_ptr idx a" and pre: "chain_of idx a = take (length (chain_of idx a)) (chain_of idx (Some t))"
    and "length (chain_of idx a) < length (chain_of idx (Some t))"
  obtains p f where "chain_get (chain_of idx (Some t)) (Height (chain_of idx a) + 1) = Some p" "idx p = Some f" "parent idx p = a"
    "p \<in> set (lineage idx (Some t))" "chain_of idx (Some p) = take (Suc (length (chain_of idx a))) (chain_of idx (Some t))"
proof -
  let ?n = "length (chain_of idx a)"
  from chain_of_nth [OF wf t assms(5)] obtain p f where p: "chain_of idx (Some t) ! ?n = Some p" "idx p = Some f" "height idx p = ?n" "p \<in> set (lineage idx (Some t))"
    by blast
  have c: "chain_of idx (Some p) = take (Suc ?n) (chain_of idx (Some t))" using lineage_mem [OF wf t p(4)] p(3) by simp
  also have "\<dots> = chain_of idx a @ [Some p]" using pre p(1) assms(5) by (simp add: take_Suc_conv_app_nth)
  finally have "chain_of idx (parent idx p) = chain_of idx a" using chain_of_step(1) [OF wf p(2)] by simp
  then have "parent idx p = a" using Tip_of_chain [OF wf a] Tip_of_chain [OF wf valid_parent [OF wf, of p]] by simp
  with p c that [of p f] assms(5) show ?thesis by (simp add: chain_get_def Height_def)
qed

lemma same_lineage:
  assumes "index_wf idx" and "idx a = Some e" "idx b = Some f" and "a \<in> set (lineage idx (Some b))" "b \<in> set (lineage idx (Some a))"
  shows "a = b"
proof -
  note m = lineage_mem [OF assms(1,3,4)] lineage_mem [OF assms(1,2,5)]
  have "height idx a = height idx b" by (rule le_antisym) (use m in simp_all)
  moreover have "take (Suc (height idx a)) (chain_of idx (Some b)) = chain_of idx (Some a)" using m(1) by simp
  ultimately have "chain_of idx (Some a) = chain_of idx (Some b)" using chain_of_step(2) [OF assms(1,3)] by simp
  from arg_cong [OF this, of Tip] show ?thesis by (simp only: Tip_chain_of [OF assms(1,2)] Tip_chain_of [OF assms(1,3)] option.inject)
qed

lemma lineage_distinct:
  assumes "index_wf idx" and "idx t = Some e"
  shows "distinct (lineage idx (Some t))"
proof -
  have "distinct (chain_of idx (Some t))"
    unfolding distinct_conv_nth using chain_of_nth [OF assms] by (metis option.inject)
  then show ?thesis by (simp add: chain_of_def distinct_map)
qed

lemma chain_length:
  assumes "index_wf idx" and "finite (dom idx)" and "chain_wf idx c"
  shows "length c \<le> card (dom idx)"
proof (cases "Tip c")
  case None
  then show ?thesis using chain_wf_Tip(1) [OF assms(1,3)] by simp
next
  case (Some t)
  then obtain e where e: "idx t = Some e" using chain_wf_Tip(2) [OF assms(1,3)] by auto
  have "length c = card (set (lineage idx (Some t)))"
    using chain_wf_Tip(1) [OF assms(1,3)] Some distinct_card [OF lineage_distinct [OF assms(1) e]] by (metis chain_of_def length_map length_rev)
  also have "\<dots> \<le> card (dom idx)" using lineage_mem [OF assms(1) e] by (intro card_mono [OF assms(2)]) auto
  finally show ?thesis .
qed

lemma sorted_distinct: "sorted_wrt (work_less addr idx) xs \<Longrightarrow> distinct xs"
  by (induction xs) (auto simp: work_less_irrefl)


section \<open>The contract\<close>

definition extends_tip :: "u256 \<Rightarrow> 'a node_state_scheme \<Rightarrow> 'a node_state_scheme \<Rightarrow> bool" where
  "extends_tip p st st' \<longleftrightarrow> tree (ns_index st') = tree (ns_index st) \<and> failed (ns_index st') = failed (ns_index st)
     \<and> chainActive st' = fst (SetTip (ns_index st) (Some p) (chainActive st)) \<and> chainMostWork st' = chainMostWork st
     \<and> setBlockIndexValid st' = setBlockIndexValid st"

definition refuses_tip :: "(u256 \<Rightarrow> nat) \<Rightarrow> u256 \<Rightarrow> 'a node_state_scheme \<Rightarrow> 'a node_state_scheme \<Rightarrow> bool" where
  "refuses_tip addr p st st' \<longleftrightarrow> tree (ns_index st') = tree (ns_index st) \<and> (\<forall>q. failed (ns_index st') q \<longleftrightarrow> failed (ns_index st) q \<or> q = p)
     \<and> chainActive st' = chainActive st \<and> chainMostWork st' = chainMostWork st
     \<and> setBlockIndexValid st' = cset_erase (work_less addr (ns_index st)) p (setBlockIndexValid st)"

definition retracts_tip :: "u256 \<Rightarrow> 'a node_state_scheme \<Rightarrow> 'a node_state_scheme \<Rightarrow> bool" where
  "retracts_tip p st st' \<longleftrightarrow> tree (ns_index st') = tree (ns_index st) \<and> failed (ns_index st') = failed (ns_index st)
     \<and> chainActive st' = fst (SetTip (ns_index st) (parent (ns_index st) p) (chainActive st)) \<and> chainMostWork st' = chainMostWork st
     \<and> setBlockIndexValid st' = setBlockIndexValid st"

text \<open>\<open>Inv\<close> is what the operations need of the rest of the node, such as the coins being those of the active chain. It may not depend on marks,
  on the candidates and on the most-work chain.\<close>

definition stored :: "block_index \<Rightarrow> block_index" where
  "stored idx p = map_option (\<lambda>e. e\<lparr>nStatus := nStatus e AND NOT BLOCK_FAILED_MASK\<rparr>) (idx p)"

definition same_rest :: "'a node_state_scheme \<Rightarrow> 'a node_state_scheme \<Rightarrow> bool" where
  "same_rest st st' \<longleftrightarrow> stored (ns_index st') = stored (ns_index st) \<and> chainActive st' = chainActive st \<and> node_state.more st' = node_state.more st"

definition tip_contract :: "(u256 \<Rightarrow> nat) \<Rightarrow> (u256 \<Rightarrow> bool) \<Rightarrow> ('a node_state_scheme \<Rightarrow> bool)
    \<Rightarrow> (u256 \<Rightarrow> 'a node_state_scheme \<Rightarrow> 'a node_state_scheme tip_outcome result option)
    \<Rightarrow> ('a node_state_scheme \<Rightarrow> 'a node_state_scheme tip_outcome result option) \<Rightarrow> bool" where
  "tip_contract addr good Inv conn disc \<longleftrightarrow>
     (\<forall>st p. Inv st \<and> best_inv addr good st \<and> ns_index st p \<noteq> None \<and> parent (ns_index st) p = Tip (chainActive st) \<longrightarrow>
        (if good p then \<exists>st'. conn p st = returnF (TipDone st') \<and> extends_tip p st st' \<and> Inv st'
         else \<exists>code st'. conn p st = returnF (TipInvalid code False st') \<and> code \<notin> {REJECT_INVALID_LOTTO, REJECT_DIRTY_BLOCK} \<and> refuses_tip addr p st st' \<and> Inv st'))
   \<and> (\<forall>st p. Inv st \<and> best_inv addr good st \<and> Tip (chainActive st) = Some p \<and> Tip (chainMostWork st) \<noteq> None \<and> \<not> Contains (ns_index st) (chainMostWork st) p \<longrightarrow>
        (\<exists>st'. disc st = returnF (TipDone st') \<and> retracts_tip p st st' \<and> Inv st'))
   \<and> (\<forall>st st'. Inv st \<and> same_rest st st' \<longrightarrow> Inv st')"

lemma tip_contract_conn:
  assumes "tip_contract addr good Inv conn disc" and "Inv st" and "best_inv addr good st" and "ns_index st p = Some e" and "parent (ns_index st) p = Tip (chainActive st)"
  shows "good p \<Longrightarrow> \<exists>st'. conn p st = returnF (TipDone st') \<and> extends_tip p st st' \<and> Inv st'"
    "\<not> good p \<Longrightarrow> \<exists>code st'. conn p st = returnF (TipInvalid code False st') \<and> code \<notin> {REJECT_INVALID_LOTTO, REJECT_DIRTY_BLOCK} \<and> refuses_tip addr p st st' \<and> Inv st'"
  using conjunct1 [OF assms(1) [unfolded tip_contract_def], THEN spec, THEN spec, THEN mp, of st p] assms(2-5) by simp_all

section \<open>What the search leaves alone\<close>

lemma stored_tree: "stored idx' = stored idx \<Longrightarrow> tree idx' = tree idx"
proof
  fix p assume "stored idx' = stored idx"
  then have "map_option (\<lambda>e. e\<lparr>nStatus := 0\<rparr>) (stored idx' p) = map_option (\<lambda>e. e\<lparr>nStatus := 0\<rparr>) (stored idx p)" by simp
  then show "tree idx' p = tree idx p" by (simp add: stored_def tree_def option.map_comp comp_def)
qed

lemma same_rest_refl [simp]: "same_rest st st"
  by (simp add: same_rest_def)

lemma same_rest_trans: "same_rest a b \<Longrightarrow> same_rest b c \<Longrightarrow> same_rest a c"
  by (simp add: same_rest_def)

lemma or_not_mask: "(x OR m) AND NOT k = x AND NOT (k :: u32)" if "m AND NOT k = 0"
  using that by (auto simp: bit_eq_iff bit_simps)

lemma same_rest_steps:
  "same_rest st (valid_erase addr p st)" "same_rest st (set_most q st)" "same_rest st (note_invalid p st)"
  "m AND NOT BLOCK_FAILED_MASK = 0 \<Longrightarrow> same_rest st (or_status m p st)"
  by (auto simp: same_rest_def valid_erase_def set_most_def note_invalid_def or_status_def stored_def fun_eq_iff or_not_mask split: option.splits)

lemma drop_failed_rest: "same_rest st (drop_failed addr ps st)"
proof (induction addr ps st rule: drop_failed.induct)
  case (2 addr p r st)
  then show ?case using same_rest_trans [OF same_rest_trans [OF same_rest_steps(1) same_rest_steps(2)]] by auto
qed simp

lemma fail_children_rest: "same_rest st (fail_children addr t ps st)"
proof (induction addr t ps st rule: fail_children.induct)
  case (2 addr t p r st)
  have "BLOCK_FAILED_CHILD AND NOT BLOCK_FAILED_MASK = 0" by (simp add: BLOCK_FAILED_CHILD_def BLOCK_FAILED_MASK_def)
  from same_rest_trans [OF same_rest_steps(4) [OF this, of st p] same_rest_steps(1)] 2 show ?case by (auto intro: same_rest_trans)
qed simp

lemma find_candidate_rest: "find_candidate addr btc fuel st = Some (r, st') \<Longrightarrow> same_rest st st'"
proof (induction fuel arbitrary: st)
  case (Suc fuel)
  let ?p = "last (setBlockIndexValid st)"
  let ?path = "lineage (ns_index st) (Some ?p)"
  have n: "same_rest st (fail_children addr t ?path (note_invalid ?p st))" for t
    by (rule same_rest_trans [OF same_rest_steps(3) fail_children_rest])
  from Suc.prems consider "st' = st" | "find_candidate addr btc fuel (valid_erase addr ?p st) = Some (r, st')"
    | t where "find_candidate addr btc fuel (fail_children addr t ?path (note_invalid ?p st)) = Some (r, st')"
    by (auto simp: Let_def split: if_splits option.splits)
  then show ?case using Suc.IH same_rest_trans [OF same_rest_steps(1)] same_rest_trans [OF n] by cases (simp, blast+)
qed simp

lemma FindMostWorkChain_rest:
  assumes "FindMostWorkChain addr btc fuel st = Some st'"
  shows "same_rest st st'"
proof -
  from assms obtain r s where f: "find_candidate addr btc fuel (drop_failed addr (lineage (ns_index st) (Tip (chainMostWork st))) st) = Some (r, s)"
    and s: "\<exists>q. st' \<in> {s, set_most q s}"
    by (fastforce simp: FindMostWorkChain_def Let_def split: option.splits if_splits)
  from same_rest_trans [OF drop_failed_rest find_candidate_rest [OF f]] s show ?thesis using same_rest_trans [OF _ same_rest_steps(2)] by fastforce
qed

section \<open>The loops under the contract\<close>

lemma retract_inv:
  assumes inv: "best_inv addr good st" and tip: "Tip (chainActive st) = Some p" and r: "retracts_tip p st st'"
  shows "best_inv addr good st'" "chainActive st' = chain_of (ns_index st) (parent (ns_index st) p)" "Tip (chainActive st') = parent (ns_index st) p"
proof -
  note i = best_invD [OF inv]
  have t: "tree (ns_index st') = tree (ns_index st)" using r by (simp add: retracts_tip_def)
  obtain e where e: "ns_index st p = Some e" using chain_wf_Tip(2) [OF i(1,4)] tip by auto
  note v = valid_parent [OF i(1), of p]
  show c: "chainActive st' = chain_of (ns_index st) (parent (ns_index st) p)" using chain_wf_SetTip(1) [OF i(1,4) v] r by (simp add: retracts_tip_def)
  show tp: "Tip (chainActive st') = parent (ns_index st) p" unfolding c by (rule Tip_of_chain [OF i(1) v])
  have "chain_wf (ns_index st) (chainActive st')" using v c unfolding chain_wf_def by blast
  moreover have "sound good (ns_index st) (Tip (chainActive st'))" unfolding tp using i(8) tip sound_step [OF i(1) e] by simp
  moreover have "marks_ok good (ns_index st')" by (rule marks_ok_status [OF t i(7)]) (use r in \<open>simp_all add: retracts_tip_def\<close>)
  ultimately show "best_inv addr good st'" using r i unfolding best_inv_def node_ok_def retracts_tip_def
    by (simp add: same_tree(3,5,11) [OF t] same_tree_chain_wf [OF t])
qed

lemma extend_inv:
  assumes inv: "best_inv addr good st" and p: "ns_index st p = Some e" "parent (ns_index st) p = Tip (chainActive st)" "good p" and x: "extends_tip p st st'"
  shows "best_inv addr good st'" "chainActive st' = chain_of (ns_index st) (Some p)" "Tip (chainActive st') = Some p"
proof -
  note i = best_invD [OF inv]
  have t: "tree (ns_index st') = tree (ns_index st)" using x by (simp add: extends_tip_def)
  have v: "valid_ptr (ns_index st) (Some p)" using p(1) by simp
  show c: "chainActive st' = chain_of (ns_index st) (Some p)" using chain_wf_SetTip(1) [OF i(1,4) v] x by (simp add: extends_tip_def)
  show tp: "Tip (chainActive st') = Some p" unfolding c by (rule Tip_of_chain [OF i(1) v])
  have "chain_wf (ns_index st) (chainActive st')" using v c unfolding chain_wf_def by blast
  moreover have "sound good (ns_index st) (Tip (chainActive st'))" unfolding tp using i(8) p sound_step [OF i(1) p(1)] by simp
  moreover have "marks_ok good (ns_index st')" by (rule marks_ok_status [OF t i(7)]) (use x in \<open>simp_all add: extends_tip_def\<close>)
  ultimately show "best_inv addr good st'" using x i unfolding best_inv_def node_ok_def extends_tip_def
    by (simp add: same_tree(3,5,11) [OF t] same_tree_chain_wf [OF t])
qed

lemma refuse_inv:
  assumes inv: "best_inv addr good st" and p: "ns_index st p = Some e" "parent (ns_index st) p = Tip (chainActive st)" "\<not> good p" and x: "refuses_tip addr p st st'"
  shows "best_inv addr good st'" "set (setBlockIndexValid st') = set (setBlockIndexValid st) - {p}"
proof -
  note i = best_invD [OF inv]
  have t: "tree (ns_index st') = tree (ns_index st)" and f: "\<And>q. failed (ns_index st') q \<longleftrightarrow> failed (ns_index st) q \<or> q = p" using x by (simp_all add: refuses_tip_def)
  have e: "setBlockIndexValid st' = filter (\<lambda>q. q \<noteq> p) (setBlockIndexValid st)" using x cset_erase_set [OF i(2,6), of p] p(1) by (auto simp: refuses_tip_def)
  then show "set (setBlockIndexValid st') = set (setBlockIndexValid st) - {p}" by auto
  have m: "marks_ok good (ns_index st')"
    by (rule marks_ok_status [OF t i(7)]) (use f p i(8) in auto)
  show "best_inv addr good st'"
  proof (rule best_inv_cong [OF inv t _ _ e _ m])
    show "\<forall>q\<in>set (setBlockIndexValid st'). \<not> failed (ns_index st') q" unfolding e using f i(9) by auto
  qed (use x i(5) in \<open>simp_all add: refuses_tip_def\<close>)
qed


text \<open>Disconnecting goes back to a block of the most-work chain, or to the empty chain.\<close>

lemma disconnect_while_spec:
  fixes st :: "'a node_state_scheme"
  assumes c: "tip_contract addr good Inv conn disc" and "Inv st" and "best_inv addr good st" and "idx = ns_index st" and most: "Tip (chainMostWork st) \<noteq> None"
  shows "\<exists>st'. disconnect_while disc (lineage idx (Tip (chainActive st))) st = returnF (True, st') \<and> Inv st' \<and> best_inv addr good st'
    \<and> tree (ns_index st') = tree idx \<and> failed (ns_index st') = failed idx \<and> chainMostWork st' = chainMostWork st \<and> setBlockIndexValid st' = setBlockIndexValid st
    \<and> (\<forall>p. Tip (chainActive st') = Some p \<longrightarrow> Contains idx (chainMostWork st) p)"
proof (cases "Tip (chainActive st)")
  case None
  then show ?thesis using assms by simp
next
  case (Some p)
  have wf: "index_wf idx" using best_invD(1) [OF assms(3)] assms(4) by simp
  obtain e where e: "idx p = Some e" using chain_wf_Tip(2) [OF best_invD(1,4) [OF assms(3)]] Some assms(4) by auto
  define good_end where "good_end s s' \<longleftrightarrow> Inv s' \<and> best_inv addr good s' \<and> tree (ns_index s') = tree (ns_index s) \<and> failed (ns_index s') = failed (ns_index s)
      \<and> chainMostWork s' = chainMostWork s \<and> setBlockIndexValid s' = setBlockIndexValid s \<and> (\<forall>p. Tip (chainActive s') = Some p \<longrightarrow> Contains idx (chainMostWork s) p)"
    for s s' :: "'a node_state_scheme"
  have one: "\<exists>s'. disconnect_while disc (p # r) s = disconnect_while disc r s' \<and> Inv s' \<and> best_inv addr good s' \<and> tree (ns_index s') = tree idx
      \<and> Tip (chainActive s') = parent idx p \<and> chainMostWork s' = chainMostWork st \<and> (\<forall>u. good_end s' u \<longrightarrow> good_end s u)"
    if s: "Inv s" "best_inv addr good s" "tree (ns_index s) = tree idx" "Tip (chainActive s) = Some p" "chainMostWork s = chainMostWork st" "\<not> Contains idx (chainMostWork s) p" for s p r
  proof -
    have "Tip (chainMostWork s) \<noteq> None" "\<not> Contains (ns_index s) (chainMostWork s) p" using s(5,6) most same_tree(9) [OF s(3)] by simp_all
    with c s(1,2,4) obtain s' where d: "disc s = returnF (TipDone s')" "retracts_tip p s s'" "Inv s'" unfolding tip_contract_def by blast
    note r = retract_inv [OF s(2,4) d(2)]
    show ?thesis using d r s(3,5,6) same_tree(2,9) [OF s(3)] by (intro exI [of _ s']) (auto simp: retracts_tip_def good_end_def)
  qed
  have "\<exists>s'. disconnect_while disc (lineage idx (Some p)) s = returnF (True, s') \<and> good_end s s'"
    if "Inv s" "best_inv addr good s" "tree (ns_index s) = tree idx" "Tip (chainActive s) = Some p" "chainMostWork s = chainMostWork st" for s
    using wf e that
  proof (induction arbitrary: s rule: lineage_induct)
    case (root p e)
    note l = lineage_simps(2) [OF wf root(1)]
    show ?case
    proof (cases "Contains idx (chainMostWork s) p")
      case True
      then show ?thesis using root.prems same_tree(9) [OF root.prems(3)] by (simp add: l good_end_def)
    next
      case False
      from one [OF root.prems False, of "[]"] obtain s' where s': "disconnect_while disc [p] s = returnF (True, s')" "Inv s'" "best_inv addr good s'"
        "Tip (chainActive s') = None" "\<And>u. good_end s' u \<Longrightarrow> good_end s u" using root(2) by auto
      have "good_end s' s'" using s' by (simp add: good_end_def)
      from s'(5) [OF this] s'(1) root(2) show ?thesis by (simp del: disconnect_while.simps add: l)
    qed
  next
    case (step p e q f)
    note l = lineage_simps(2) [OF wf step(1)]
    show ?case
    proof (cases "Contains idx (chainMostWork s) p")
      case True
      then show ?thesis using step.prems same_tree(9) [OF step.prems(3)] by (simp add: l good_end_def)
    next
      case False
      from one [OF step.prems False, of "lineage idx (Some q)"] step(2)
      obtain s' where s': "disconnect_while disc (p # lineage idx (Some q)) s = disconnect_while disc (lineage idx (Some q)) s'" "Inv s'" "best_inv addr good s'"
        "tree (ns_index s') = tree idx" "Tip (chainActive s') = Some q" "chainMostWork s' = chainMostWork st" "\<And>u. good_end s' u \<Longrightarrow> good_end s u" by auto
      from step.IH [OF s'(2-6)] s'(1,7) show ?thesis by (auto simp: l step(2))
    qed
  qed
  from this [OF assms(2,3) _ Some refl] assms(4) Some show ?thesis by (simp add: good_end_def)
qed


text \<open>The block that is connected next.\<close>

lemma next_block:
  assumes i: "index_wf (ns_index st)" "chain_wf (ns_index st) (chainActive st)" "chain_wf (ns_index st) (chainMostWork st)"
    and tip: "Tip (chainMostWork st) = Some t" and pre: "\<forall>p. Tip (chainActive st) = Some p \<longrightarrow> Contains (ns_index st) (chainMostWork st) p"
  shows "Contains (ns_index st) (chainActive st) t \<Longrightarrow> chainActive st = chainMostWork st"
    "\<not> Contains (ns_index st) (chainActive st) t \<Longrightarrow> length (chainActive st) < length (chainMostWork st) \<and> (\<exists>p f. chain_get (chainMostWork st) (Height (chainActive st) + 1) = Some p
      \<and> ns_index st p = Some f \<and> parent (ns_index st) p = Tip (chainActive st) \<and> p \<in> set (lineage (ns_index st) (Some t))
      \<and> Contains (ns_index st) (chainMostWork st) p)"
proof -
  let ?idx = "ns_index st" and ?a = "Tip (chainActive st)"
  note a = chain_wf_Tip [OF i(1,2)] and m = chain_wf_Tip [OF i(1,3)]
  obtain e where e: "?idx t = Some e" using m(2) tip by auto
  have most: "chainMostWork st = chain_of ?idx (Some t)" using m(1) tip by simp
  have mc: "Contains ?idx (chainMostWork st) q \<longleftrightarrow> q \<in> set (lineage ?idx (Some t))" for q using chain_wf_Contains [OF i(1,3)] tip by simp
  have ac: "Contains ?idx (chainActive st) q \<longleftrightarrow> q \<in> set (lineage ?idx ?a)" for q using chain_wf_Contains [OF i(1,2)] .
  { assume c: "Contains ?idx (chainActive st) t"
    then obtain q where q: "?a = Some q" using ac by (cases ?a) auto
    obtain f where f: "?idx q = Some f" using a(2) q by auto
    have "q = t" by (rule same_lineage [OF i(1) f e]) (use pre q mc c ac in auto)
    then show "chainActive st = chainMostWork st" using a(1) q most by simp }
  assume n: "\<not> Contains ?idx (chainActive st) t"
  have pref: "chain_of ?idx ?a = take (length (chain_of ?idx ?a)) (chain_of ?idx (Some t))"
  proof (cases ?a)
    case (Some q)
    then obtain f where f: "?idx q = Some f" using a(2) by auto
    have "q \<in> set (lineage ?idx (Some t))" using pre Some mc by simp
    with lineage_mem [OF i(1) e] have "take (Suc (height ?idx q)) (chain_of ?idx (Some t)) = chain_of ?idx (Some q)" by blast
    then show ?thesis using chain_of_step(2) [OF i(1) f] Some by simp
  qed simp
  have lt: "length (chain_of ?idx ?a) < length (chain_of ?idx (Some t))"
  proof (rule ccontr)
    assume "\<not> length (chain_of ?idx ?a) < length (chain_of ?idx (Some t))"
    then have "chainActive st = chain_of ?idx (Some t)" using pref a(1) by simp
    then show False using n Contains_chain_of [OF i(1) e] lineage_simps(2) [OF i(1) e] by simp
  qed
  obtain p f where p: "chain_get (chain_of ?idx (Some t)) (Height (chain_of ?idx ?a) + 1) = Some p" "?idx p = Some f" "parent ?idx p = ?a" "p \<in> set (lineage ?idx (Some t))"
    by (rule chain_next [OF i(1) e a(2) pref lt])
  then show "length (chainActive st) < length (chainMostWork st) \<and> (\<exists>p f. chain_get (chainMostWork st) (Height (chainActive st) + 1) = Some p
      \<and> ?idx p = Some f \<and> parent ?idx p = ?a \<and> p \<in> set (lineage ?idx (Some t)) \<and> Contains ?idx (chainMostWork st) p)"
    using lt a(1) most mc by auto
qed

definition round_ok :: "(u256 \<Rightarrow> nat) \<Rightarrow> (int \<Rightarrow> CBlockIndex option) \<Rightarrow> (u256 \<Rightarrow> bool) \<Rightarrow> u256 \<Rightarrow> 'a node_state_scheme \<Rightarrow> round_end \<Rightarrow> 'a node_state_scheme \<Rightarrow> bool" where
  "round_ok addr btc good t st r st' \<longleftrightarrow> best_inv addr good st' \<and> tree (ns_index st') = tree (ns_index st)
     \<and> (\<forall>p. failed (ns_index st) p \<longrightarrow> failed (ns_index st') p) \<and> chainMostWork st' = chainMostWork st
     \<and> set (setBlockIndexValid st') \<subseteq> set (setBlockIndexValid st)
     \<and> (\<forall>q\<in>set (setBlockIndexValid st). sound good (ns_index st) (Some q) \<longrightarrow> q \<in> set (setBlockIndexValid st'))
     \<and> (r = Finished \<and> chainActive st' = chainMostWork st
        \<or> r = Again \<and> most_ok btc good st' \<and> (\<exists>b\<in>set (lineage (ns_index st) (Some t)). failed (ns_index st') b))"

lemma refused_round:
  assumes inv: "best_inv addr good st" and mo: "most_ok btc good st" and tip: "Tip (chainMostWork st) = Some t"
    and p: "ns_index st p = Some e" "parent (ns_index st) p = Tip (chainActive st)" "\<not> good p" "p \<in> set (lineage (ns_index st) (Some t))"
    and x: "refuses_tip addr p st st'" and code: "code \<notin> {REJECT_INVALID_LOTTO, REJECT_DIRTY_BLOCK}"
  shows "block_refused addr p code False st' = returnF (Again, note_invalid t st')" "round_ok addr btc good t st Again (note_invalid t st')"
proof -
  note r = refuse_inv [OF inv p(1-3) x]
  have tr: "tree (ns_index st') = tree (ns_index st)" and f: "\<And>q. failed (ns_index st') q \<longleftrightarrow> failed (ns_index st) q \<or> q = p"
    and most: "chainMostWork st' = chainMostWork st" using x by (simp_all add: refuses_tip_def)
  show "block_refused addr p code False st' = returnF (Again, note_invalid t st')" using code tip most by (simp add: block_refused_def Let_def)
  have "best_inv addr good (note_invalid t st')"
    by (rule best_inv_cong [OF r(1), of _ "\<lambda>_. True"]) (use best_invD [OF r(1)] in simp_all)
  moreover have "most_ok btc good (note_invalid t st')"
    using mo f tip by (auto simp: most_ok_def most r(2) same_tree(6) [OF tr] same_tree_chain_wf(2) [OF tr])
  moreover have "\<not> sound good (ns_index st) (Some p)" using sound_step [OF best_invD(1) [OF inv] p(1)] p(3) by simp
  ultimately show "round_ok addr btc good t st Again (note_invalid t st')"
    using tr f most p(4) by (auto simp: round_ok_def r(2))
qed

lemma connect_while_spec:
  assumes c: "tip_contract addr good Inv conn disc" and "Inv st" and "best_inv addr good st" and "most_ok btc good st" and "Tip (chainMostWork st) = Some t"
    and "\<forall>p. Tip (chainActive st) = Some p \<longrightarrow> Contains (ns_index st) (chainMostWork st) p" and "length (chainMostWork st) - length (chainActive st) < fuel"
  shows "\<exists>r st'. connect_while addr conn fuel st = returnF (r, st') \<and> Inv st' \<and> round_ok addr btc good t st r st'"
  using assms(2-7)
proof (induction fuel arbitrary: st)
  case (Suc fuel)
  note inv = Suc.prems(2) and tip = Suc.prems(4)
  note i = best_invD [OF inv] and nb = next_block [OF i(1,4,5) tip Suc.prems(5)]
  show ?case
  proof (cases "Contains (ns_index st) (chainActive st) t")
    case True
    then show ?thesis using nb(1) Suc.prems by (simp add: round_ok_def)
  next
    case False
    from nb(2) [OF False] obtain p f where lt: "length (chainActive st) < length (chainMostWork st)"
      and p: "chain_get (chainMostWork st) (Height (chainActive st) + 1) = Some p" "ns_index st p = Some f" "parent (ns_index st) p = Tip (chainActive st)"
        "p \<in> set (lineage (ns_index st) (Some t))" "Contains (ns_index st) (chainMostWork st) p" by blast
    show ?thesis
    proof (cases "good p")
      case True
      from tip_contract_conn(1) [OF c Suc.prems(1) inv p(2,3) True] obtain s where s: "conn p st = returnF (TipDone s)" "extends_tip p st s" "Inv s" by blast
      have tr: "tree (ns_index s) = tree (ns_index st)" and same: "failed (ns_index s) = failed (ns_index st)" "chainMostWork s = chainMostWork st"
        "setBlockIndexValid s = setBlockIndexValid st" using s(2) by (simp_all add: extends_tip_def)
      note x = extend_inv [OF inv p(2,3) True s(2)]
      have len: "length (chainActive s) = Suc (length (chainActive st))"
        using x(2) chain_of_step [OF i(1) p(2)] chain_wf_Tip(1) [OF i(1,4)] p(3) by (metis length_append_singleton)
      have ms: "most_ok btc good s" using Suc.prems(3) by (simp add: most_ok_def same same_tree(6) [OF tr] same_tree_chain_wf(2) [OF tr])
      have "\<exists>r st'. connect_while addr conn fuel s = returnF (r, st') \<and> Inv st' \<and> round_ok addr btc good t s r st'"
        by (rule Suc.IH [OF s(3) x(1) ms]) (use tip p(5) x(3) same_tree(9) [OF tr] len lt Suc.prems(6) in \<open>simp_all add: same\<close>)
      then show ?thesis using False tip p(1) s(1)
        by (auto simp: round_ok_def same same_tree(7) [OF tr] same_tree_chain_wf(2) [OF tr] tr)
    next
      case bad: False
      from tip_contract_conn(2) [OF c Suc.prems(1) inv p(2,3) bad] obtain code s where s: "conn p st = returnF (TipInvalid code False s)" "code \<notin> {REJECT_INVALID_LOTTO, REJECT_DIRTY_BLOCK}"
        "refuses_tip addr p st s" "Inv s" by blast
      note r = refused_round [OF inv Suc.prems(3) tip p(2,3) bad p(4) s(3,2)]
      have "Inv (note_invalid t s)" using c s(4) same_rest_steps(3) unfolding tip_contract_def by blast
      with r s(1) p(1) tip False show ?thesis by simp
    qed
  qed
qed simp


section \<open>Activation\<close>

definition unmarked :: "block_index \<Rightarrow> nat" where
  "unmarked idx = card {p \<in> dom idx. \<not> failed idx p}"

lemma unmarked_less:
  assumes "tree idx' = tree idx" and "finite (dom idx)" and "\<And>p. failed idx p \<Longrightarrow> failed idx' p" and "failed idx' b" and "\<not> failed idx b"
  shows "unmarked idx' < unmarked idx"
proof -
  have "b \<in> dom idx" using failed_dom [OF assms(4)] same_tree(3) [OF assms(1)] by auto
  then show ?thesis unfolding unmarked_def same_tree(3) [OF assms(1)] using assms by (intro psubset_card_mono) auto
qed

lemma unmarked_le: "finite (dom idx) \<Longrightarrow> unmarked idx \<le> card (dom idx)"
  unfolding unmarked_def by (intro card_mono) auto

text \<open>The result of activation: the active chain ends in a block that no candidate with a valid history surpasses.\<close>

definition best_active :: "(u256 \<Rightarrow> nat) \<Rightarrow> (int \<Rightarrow> CBlockIndex option) \<Rightarrow> (u256 \<Rightarrow> bool) \<Rightarrow> 'a node_state_scheme \<Rightarrow> 'a node_state_scheme \<Rightarrow> bool" where
  "best_active addr btc good st st' \<longleftrightarrow> tree (ns_index st') = tree (ns_index st) \<and> node_ok addr st' \<and> sound good (ns_index st) (Tip (chainActive st'))
     \<and> (\<forall>q\<in>set (setBlockIndexValid st). sound good (ns_index st) (Some q) \<and> CheckBTCHashValid btc (ns_index st) q \<longrightarrow>
          (\<exists>t. Tip (chainActive st') = Some t \<and> \<not> work_less addr (ns_index st) t q))"

lemma best_active_trans:
  assumes "tree (ns_index s) = tree (ns_index st)"
    and "\<forall>q\<in>set (setBlockIndexValid st). sound good (ns_index st) (Some q) \<and> CheckBTCHashValid btc (ns_index st) q \<longrightarrow> q \<in> set (setBlockIndexValid s)"
    and "best_active addr btc good s st'"
  shows "best_active addr btc good st st'"
  using assms unfolding best_active_def same_tree(5,6) [OF assms(1)] same_tree_chain_wf(2) [OF assms(1)] assms(1) by blast

lemma finished_best:
  assumes bs: "best_step addr btc good st s" and t: "Tip (chainMostWork s) = Some t" and tr: "tree (ns_index u) = tree (ns_index s)" and most: "chainMostWork u = chainMostWork s"
    and r: "best_inv addr good st'" "tree (ns_index st') = tree (ns_index u)" "chainActive st' = chainMostWork u"
  shows "best_active addr btc good st st'"
proof -
  have trs: "tree (ns_index s) = tree (ns_index st)" using bs by (simp add: best_step_def)
  then have tr': "tree (ns_index st') = tree (ns_index st)" using r(2) tr by simp
  have "\<exists>t. Tip (chainActive st') = Some t \<and> \<not> work_less addr (ns_index st) t q"
    if "q \<in> set (setBlockIndexValid st)" "sound good (ns_index st) (Some q)" "CheckBTCHashValid btc (ns_index st) q" for q
    using bs that unfolding best_step_def same_tree(5) [OF trs] r(3) most by blast
  moreover have "sound good (ns_index st) (Tip (chainActive st'))" using best_invD(8) [OF r(1)] same_tree_chain_wf(2) [OF tr'] by simp
  ultimately show ?thesis using r(1) tr' by (simp add: best_active_def best_inv_def)
qed

lemma activate_loop_spec:
  assumes c: "tip_contract addr good Inv conn disc" and "Inv st" and "best_inv addr good st" and "most_ok btc good st"
    and "unmarked (ns_index st) + card (dom (ns_index st)) + 2 \<le> fuel"
  shows "\<exists>st'. activate_loop addr btc conn disc fuel st = returnF (True, st') \<and> best_active addr btc good st st'
    \<and> Inv st' \<and> best_inv addr good st' \<and> most_ok btc good st'"
  using assms(2-5)
proof (induction "unmarked (ns_index st)" arbitrary: st fuel rule: less_induct)
  case less
  note i = best_invD [OF less.prems(2)]
  obtain n where n: "fuel = Suc n" "unmarked (ns_index st) + card (dom (ns_index st)) < n" using less.prems(4) by (cases fuel) auto
  have "length (setBlockIndexValid st) = card (set (setBlockIndexValid st))" using distinct_card [OF sorted_distinct [OF i(10)]] by simp
  also have "\<dots> \<le> card (dom (ns_index st))" by (rule card_mono [OF i(3,6)])
  finally have "length (setBlockIndexValid st) < n" using n(2) by simp
  from FindMostWorkChain_spec [OF less.prems(2,3) this] obtain s where s: "FindMostWorkChain addr btc n st = Some s" "best_step addr btc good st s" by blast
  have bs: "best_inv addr good s" "most_ok btc good s" "tree (ns_index s) = tree (ns_index st)" "chainActive s = chainActive st" using s(2) by (simp_all add: best_step_def)
  have Is: "Inv s" using c less.prems(1) FindMostWorkChain_rest [OF s(1)] unfolding tip_contract_def by blast
  show ?case
  proof (cases "Tip (chainMostWork s)")
    case None
    have "best_active addr btc good st s"
      using s(2) None best_invD(8) [OF bs(1)] same_tree_chain_wf(2) [OF bs(3)] bs(1,3) unfolding best_step_def best_active_def best_inv_def by fastforce
    then show ?thesis using s(1) None Is bs(1,2) by (simp add: n(1))
  next
    case (Some t)
    have "Tip (chainMostWork s) \<noteq> None" using Some by simp
    from disconnect_while_spec [OF c Is bs(1) refl this] obtain u where u: "disconnect_while disc (lineage (ns_index s) (Tip (chainActive s))) s = returnF (True, u)"
      "Inv u" "best_inv addr good u" "tree (ns_index u) = tree (ns_index s)" "failed (ns_index u) = failed (ns_index s)" "chainMostWork u = chainMostWork s"
      "setBlockIndexValid u = setBlockIndexValid s" "\<forall>p. Tip (chainActive u) = Some p \<longrightarrow> Contains (ns_index u) (chainMostWork u) p"
      using same_tree(9) by metis
    have mu: "most_ok btc good u" using bs(2) by (simp add: most_ok_def u(5,6,7) same_tree(6) [OF u(4)] same_tree_chain_wf(2) [OF u(4)])
    have "length (chainMostWork u) \<le> card (dom (ns_index u))" using chain_length [OF best_invD(1,3,5) [OF u(3)]] .
    then have fl: "length (chainMostWork u) - length (chainActive u) < n" using n(2) same_tree(3) [OF u(4)] same_tree(3) [OF bs(3)] by simp
    from connect_while_spec [OF c u(2,3) mu _ u(8) fl, of t] Some u(6) obtain r w where w: "connect_while addr conn n u = returnF (r, w)" "Inv w" "round_ok addr btc good t u r w" by auto
    have rw: "best_inv addr good w" "tree (ns_index w) = tree (ns_index u)" using w(3) by (simp_all add: round_ok_def)
    have tw: "tree (ns_index w) = tree (ns_index st)" using rw(2) u(4) bs(3) by simp
    show ?thesis
    proof (cases "r = Finished")
      case True
      have "best_active addr btc good st w" by (rule finished_best [OF s(2) Some u(4,6) rw]) (use w(3) True in \<open>simp add: round_ok_def\<close>)
      moreover have "most_ok btc good w" using w(3) True best_invD(8) [OF rw(1)] by (auto simp: most_ok_def round_ok_def)
      ultimately show ?thesis using s(1) Some u(1) w(1,2) rw(1) True by (simp add: n(1))
    next
      case False
      then have r: "r = Again" "most_ok btc good w" "\<exists>b\<in>set (lineage (ns_index u) (Some t)). failed (ns_index w) b" using w(3) by (simp_all add: round_ok_def)
      have mono: "\<And>p. failed (ns_index st) p \<Longrightarrow> failed (ns_index w) p" "\<And>p. failed (ns_index s) p \<Longrightarrow> failed (ns_index w) p"
        using s(2) w(3) u(5) by (simp_all add: best_step_def round_ok_def)
      have "\<exists>b. failed (ns_index w) b \<and> \<not> failed (ns_index st) b"
      proof (cases "clear_chain (ns_index s) (chainMostWork s)")
        case True
        from r(3) obtain b where b: "b \<in> set (lineage (ns_index s) (Some t))" "failed (ns_index w) b" unfolding same_tree(7) [OF u(4)] by blast
        then have "\<not> failed (ns_index s) b" using True Some by (simp add: clear_chain_def)
        then have "\<not> failed (ns_index st) b" using s(2) by (auto simp: best_step_def)
        with b(2) show ?thesis by blast
      next
        case False
        then show ?thesis using s(2) mono(2) unfolding best_step_def by blast
      qed
      then have dec: "unmarked (ns_index w) < unmarked (ns_index st)" using unmarked_less [OF tw i(3) mono(1)] by blast
      have "\<exists>st'. activate_loop addr btc conn disc n w = returnF (True, st') \<and> best_active addr btc good w st'
          \<and> Inv st' \<and> best_inv addr good st' \<and> most_ok btc good st'"
        by (rule less.hyps [OF dec w(2) rw(1) r(2)]) (use dec n(2) same_tree(3) [OF tw] in simp)
      moreover have "\<forall>q\<in>set (setBlockIndexValid st). sound good (ns_index st) (Some q) \<and> CheckBTCHashValid btc (ns_index st) q \<longrightarrow> q \<in> set (setBlockIndexValid w)"
      proof (intro ballI impI)
        fix q assume q: "q \<in> set (setBlockIndexValid st)" "sound good (ns_index st) (Some q) \<and> CheckBTCHashValid btc (ns_index st) q"
        have "q \<in> set (setBlockIndexValid u)" using s(2) q by (simp add: best_step_def u(7))
        moreover have "sound good (ns_index u) (Some q)" using q(2) same_tree_chain_wf(2) [OF u(4)] same_tree_chain_wf(2) [OF bs(3)] by simp
        ultimately show "q \<in> set (setBlockIndexValid w)" using w(3) by (simp add: round_ok_def)
      qed
      ultimately show ?thesis using best_active_trans [OF tw] s(1) Some u(1) w(1) r(1) by (auto simp: n(1))
    qed
  qed
qed

lemma activate_loop_best:
  assumes "tip_contract addr good Inv conn disc" and "Inv st" and "best_inv addr good st" and "most_ok btc good st"
    and "2 * card (dom (ns_index st)) + 2 \<le> fuel"
  shows "\<exists>st'. activate_loop addr btc conn disc fuel st = returnF (True, st') \<and> best_active addr btc good st st'
    \<and> Inv st' \<and> best_inv addr good st' \<and> most_ok btc good st'"
proof (rule activate_loop_spec [OF assms(1-4)])
  show "unmarked (ns_index st) + card (dom (ns_index st)) + 2 \<le> fuel" using unmarked_le [OF best_invD(3) [OF assms(3)]] assms(5) by simp
qed

end
