(* ===== verification/Chain_Safe.thy ===== *)
theory Chain_Safe
  imports Chain_Activate
begin

text \<open>
  What activation keeps and where it may stop, from what the operations on the tip do when they return (\<open>tip_operations\<close>), with no
  assumption that they succeed. Whatever happens, the index, both chains and the set of candidates stay well-formed; if
  activation reports success, no candidate surpasses the tip, unless the last round was ended by a refusal with \<open>REJECT_INVALID_LOTTO\<close>
  (\<open>last_refusal\<close>).

  Activation does not always end: a block that is refused as possibly corrupted is not marked, and \<open>stuck\<close> describes the states in
  which the search then proposes it again and again.
\<close>

section \<open>The search keeps the node well-formed\<close>

lemma node_okD:
  assumes "node_ok addr st"
  shows "index_wf (ns_index st)" "finite (dom (ns_index st))" "inj_on addr (dom (ns_index st))" "chain_wf (ns_index st) (chainActive st)"
    "chain_wf (ns_index st) (chainMostWork st)" "set (setBlockIndexValid st) \<subseteq> dom (ns_index st)"
    "sorted_wrt (work_less addr (ns_index st)) (setBlockIndexValid st)" "p \<in> set (setBlockIndexValid st) \<Longrightarrow> \<not> failed (ns_index st) p"
  using assms by (auto simp: node_ok_def)

text \<open>A step that changes at most marks, chains and removes candidates.\<close>

lemma node_ok_step:
  assumes ok: "node_ok addr st" and t: "tree (ns_index st') = tree (ns_index st)" and a: "chain_wf (ns_index st) (chainActive st')"
    and m: "chain_wf (ns_index st) (chainMostWork st')" and v: "setBlockIndexValid st' = filter P (setBlockIndexValid st)"
    and f: "\<And>p. p \<in> set (setBlockIndexValid st') \<Longrightarrow> failed (ns_index st') p \<Longrightarrow> failed (ns_index st) p"
  shows "node_ok addr st'"
proof -
  note o = node_okD [OF ok]
  have "set (setBlockIndexValid st') \<subseteq> dom (ns_index st)" using o(6) by (auto simp: v)
  moreover have "sorted_wrt (work_less addr (ns_index st)) (setBlockIndexValid st')" unfolding v by (rule sorted_wrt_filter [OF o(7)])
  moreover have "\<not> failed (ns_index st') p" if "p \<in> set (setBlockIndexValid st')" for p
    using f [OF that] o(8) [of p] that by (auto simp: v)
  ultimately show ?thesis using o(1-3) a m unfolding node_ok_def by (simp add: same_tree(3,5,11) [OF t] same_tree_chain_wf(1) [OF t])
qed

lemma search_steps_ok:
  assumes "node_ok addr st"
  shows "node_ok addr (valid_erase addr p st)" "valid_ptr (ns_index st) q \<Longrightarrow> node_ok addr (set_most q st)" "node_ok addr (note_invalid p st)"
    "p \<in> dom (ns_index st) \<Longrightarrow> m AND BLOCK_FAILED_MASK \<noteq> 0 \<Longrightarrow> node_ok addr (valid_erase addr p (or_status m p st))"
proof -
  note o = node_okD [OF assms]
  show "node_ok addr (valid_erase addr p st)" using o by (intro node_ok_step [OF assms]) (simp_all add: cset_erase_def)
  show "node_ok addr (note_invalid p st)" using o by (intro node_ok_step [OF assms, of _ "\<lambda>_. True"]) simp_all
  show "node_ok addr (set_most q st)" if "valid_ptr (ns_index st) q"
    using o chain_wf_SetTip(2) [OF o(1,5) that] by (intro node_ok_step [OF assms, of _ "\<lambda>_. True"]) simp_all
  show "node_ok addr (valid_erase addr p (or_status m p st))" if p: "p \<in> dom (ns_index st)" "m AND BLOCK_FAILED_MASK \<noteq> 0"
  proof (rule node_ok_step [OF assms, of _ "\<lambda>q. q \<noteq> p"])
    show "setBlockIndexValid (valid_erase addr p (or_status m p st)) = filter (\<lambda>q. q \<noteq> p) (setBlockIndexValid st)"
      using cset_erase_set [OF o(3,6) p(1)] by (simp add: same_tree(5) [OF or_status_tree])
    then show "failed (ns_index (valid_erase addr p (or_status m p st))) q \<Longrightarrow> failed (ns_index st) q"
      if "q \<in> set (setBlockIndexValid (valid_erase addr p (or_status m p st)))" for q
      using that or_status_failed [OF p(2)] by auto
  qed (use o in simp_all)
qed

lemma drop_failed_ok: "node_ok addr st \<Longrightarrow> node_ok addr (drop_failed addr ps st)"
proof (induction addr ps st rule: drop_failed.induct)
  case (2 addr p r st)
  have "node_ok addr (set_most (parent (ns_index st) p) (valid_erase addr p st))"
    using search_steps_ok(2) [OF search_steps_ok(1) [OF "2.prems"]] valid_parent [OF node_okD(1) [OF "2.prems"]] by simp
  with 2 show ?case by simp
qed simp

lemma fail_children_ok: "node_ok addr st \<Longrightarrow> set ps \<subseteq> dom (ns_index st) \<Longrightarrow> node_ok addr (fail_children addr t ps st)"
proof (induction addr t ps st rule: fail_children.induct)
  case (2 addr t p r st)
  let ?st = "valid_erase addr p (or_status BLOCK_FAILED_CHILD p st)"
  have "node_ok addr ?st" using search_steps_ok(4) [OF "2.prems"(1) _ failed_masks(1)] "2.prems"(2) by simp
  moreover have "dom (ns_index ?st) = dom (ns_index st)" using same_tree(3) [OF or_status_tree] by simp
  ultimately show ?case using 2 by simp
qed simp

lemma find_candidate_step:
  assumes "find_candidate addr btc (Suc fuel) st = Some (r, st')" and "setBlockIndexValid st \<noteq> []"
  shows "st' = st \<and> r = Some (last (setBlockIndexValid st)) \<or> find_candidate addr btc fuel (valid_erase addr (last (setBlockIndexValid st)) st) = Some (r, st')
    \<or> (\<exists>t. find_candidate addr btc fuel (fail_children addr t (lineage (ns_index st) (Some (last (setBlockIndexValid st)))) (note_invalid (last (setBlockIndexValid st)) st)) = Some (r, st'))"
proof (cases "CheckBTCHashValid btc (ns_index st) (last (setBlockIndexValid st))")
  case True
  then show ?thesis using assms
    by (cases "failed_ancestor (ns_index st) (chainActive st) (lineage (ns_index st) (Some (last (setBlockIndexValid st))))") (auto simp: Let_def)
qed (use assms in simp)

lemma find_candidate_ok:
  assumes "node_ok addr st" and "find_candidate addr btc fuel st = Some (r, st')"
  shows "node_ok addr st'" "r = None \<Longrightarrow> setBlockIndexValid st' = []" "r = Some q \<Longrightarrow> setBlockIndexValid st' \<noteq> [] \<and> q = last (setBlockIndexValid st')"
proof -
  have "node_ok addr st' \<and> (case r of None \<Rightarrow> setBlockIndexValid st' = [] | Some q \<Rightarrow> setBlockIndexValid st' \<noteq> [] \<and> q = last (setBlockIndexValid st'))"
    using assms
  proof (induction fuel arbitrary: st)
    case (Suc fuel)
    let ?p = "last (setBlockIndexValid st)"
    let ?path = "lineage (ns_index st) (Some ?p)"
    note o = node_okD [OF Suc.prems(1)]
    show ?case
    proof (cases "setBlockIndexValid st = []")
      case True
      then show ?thesis using Suc.prems by simp
    next
      case False
      then obtain e where e: "ns_index st ?p = Some e" using o(6) by (meson domD last_in_set subsetD)
      have fc: "node_ok addr (fail_children addr t ?path (note_invalid ?p st))" for t
        by (rule fail_children_ok [OF search_steps_ok(3) [OF Suc.prems(1)]]) (use lineage_mem [OF o(1) e] in auto)
      from False Suc.prems(2) consider "st' = st" "r = Some ?p" | "find_candidate addr btc fuel (valid_erase addr ?p st) = Some (r, st')"
        | t where "find_candidate addr btc fuel (fail_children addr t ?path (note_invalid ?p st)) = Some (r, st')"
        using find_candidate_step by blast
      then show ?thesis
      proof cases
        case 1
        then show ?thesis using Suc.prems(1) False by simp
      next
        case 2
        then show ?thesis using Suc.IH [OF search_steps_ok(1) [OF Suc.prems(1)]] by simp
      next
        case (3 t)
        then show ?thesis using Suc.IH [OF fc [of t]] by simp
      qed
    qed
  qed simp
  then show "node_ok addr st'" "r = None \<Longrightarrow> setBlockIndexValid st' = []" "r = Some q \<Longrightarrow> setBlockIndexValid st' \<noteq> [] \<and> q = last (setBlockIndexValid st')" by auto
qed

text \<open>The tip of the most-work chain is not surpassed by a candidate.\<close>

definition unsurpassed :: "(u256 \<Rightarrow> nat) \<Rightarrow> 'a node_state_scheme \<Rightarrow> u256 option \<Rightarrow> bool" where
  "unsurpassed addr st p \<longleftrightarrow> (\<forall>q\<in>set (setBlockIndexValid st). \<exists>t. p = Some t \<and> \<not> work_less addr (ns_index st) t q)"

lemma work_less_last:
  assumes ok: "node_ok addr st" and "setBlockIndexValid st \<noteq> []" and q: "q \<in> set (setBlockIndexValid st)"
  shows "q = last (setBlockIndexValid st) \<or> work_less addr (ns_index st) q (last (setBlockIndexValid st))"
proof -
  have "setBlockIndexValid st = butlast (setBlockIndexValid st) @ [last (setBlockIndexValid st)]" using assms(2) by simp
  then have "\<forall>q\<in>set (butlast (setBlockIndexValid st)). work_less addr (ns_index st) q (last (setBlockIndexValid st))"
    using node_okD(7) [OF ok] by (metis list.set_intros(1) sorted_wrt_append)
  then show ?thesis using q \<open>setBlockIndexValid st = _\<close> by (metis UnE empty_iff empty_set set_ConsD set_append)
qed

lemma work_less_order:
  assumes "idx a \<noteq> None" "idx b \<noteq> None" "idx c \<noteq> None"
  shows "work_less addr idx a b \<Longrightarrow> work_less addr idx b c \<Longrightarrow> work_less addr idx a c"
  using assms by (auto simp: work_less_iff)

lemma best_unsurpassed:
  assumes ok: "node_ok addr st" and ne: "setBlockIndexValid st \<noteq> []" and t: "ns_index st t \<noteq> None" and n: "\<not> work_less addr (ns_index st) t (last (setBlockIndexValid st))"
  shows "unsurpassed addr st (Some t)"
proof -
  have l: "ns_index st q \<noteq> None" if "q \<in> set (setBlockIndexValid st)" for q using node_okD(6) [OF ok] that by auto
  have "\<not> work_less addr (ns_index st) t q" if q: "q \<in> set (setBlockIndexValid st)" for q
    using work_less_last [OF ok ne q] n work_less_order [OF t l [OF q] l [OF last_in_set [OF ne]]] by auto
  then show ?thesis by (simp add: unsurpassed_def)
qed

lemma FindMostWorkChain_ok:
  assumes ok: "node_ok addr st" and f: "FindMostWorkChain addr btc fuel st = Some st'"
  shows "node_ok addr st'" "unsurpassed addr st' (Tip (chainMostWork st'))"
proof -
  from f obtain r s where c: "find_candidate addr btc fuel (drop_failed addr (lineage (ns_index st) (Tip (chainMostWork st))) st) = Some (r, s)"
    and s: "st' = (case r of None \<Rightarrow> s | Some q \<Rightarrow> (case Tip (chainMostWork s) of Some p \<Rightarrow> if \<not> work_less addr (ns_index s) p q then s else set_most (Some q) s
      | None \<Rightarrow> set_most (Some q) s))"
    by (auto simp: FindMostWorkChain_def Let_def split: option.splits)
  note fc = find_candidate_ok [OF drop_failed_ok [OF ok] c]
  note o = node_okD [OF fc(1)]
  have "node_ok addr st' \<and> unsurpassed addr st' (Tip (chainMostWork st'))"
  proof (cases r)
    case None
    then show ?thesis using s fc(1,2) by (simp add: unsurpassed_def)
  next
    case (Some q)
    note l = fc(3) [OF Some]
    then have q: "ns_index s q \<noteq> None" using o(6) last_in_set by blast
    from s Some consider (new) "st' = set_most (Some q) s" | (old) p where "st' = s" "Tip (chainMostWork s) = Some p" "\<not> work_less addr (ns_index s) p q"
      by (auto split: option.splits if_splits)
    then show ?thesis
    proof cases
      case new
      have "Tip (chainMostWork st') = Some q" using chain_wf_SetTip(1) [OF o(1,5), of "Some q"] Tip_of_chain [OF o(1), of "Some q"] q by (simp add: new)
      moreover have "unsurpassed addr s (Some q)" using best_unsurpassed [OF fc(1)] l q work_less_irrefl by simp
      ultimately show ?thesis using search_steps_ok(2) [OF fc(1), of "Some q"] q by (simp add: new unsurpassed_def)
    next
      case old
      then show ?thesis using best_unsurpassed [OF fc(1)] l chain_wf_Tip(2) [OF o(1,5)] fc(1) by simp
    qed
  qed
  then show "node_ok addr st'" "unsurpassed addr st' (Tip (chainMostWork st'))" by simp_all
qed

section \<open>The operations on the tip\<close>

text \<open>Moving the tip of the active chain.\<close>

lemma move_tip_ok:
  assumes ok: "node_ok addr st" and p: "valid_ptr (ns_index st) p" and t: "tree (ns_index st') = tree (ns_index st)" and f: "failed (ns_index st') = failed (ns_index st)"
    and c: "chainActive st' = fst (SetTip (ns_index st) p (chainActive st))" "chainMostWork st' = chainMostWork st" "setBlockIndexValid st' = setBlockIndexValid st"
  shows "node_ok addr st'" "Tip (chainActive st') = p"
proof -
  note o = node_okD [OF ok]
  note w = chain_wf_SetTip [OF o(1,4) p]
  show "Tip (chainActive st') = p" unfolding c(1) w(1) by (rule Tip_of_chain [OF o(1) p])
  show "node_ok addr st'" by (rule node_ok_step [OF ok t, of "\<lambda>_. True"]) (use w(2) o(5) c f in simp_all)
qed

lemma refuse_ok:
  assumes ok: "node_ok addr st" and p: "p \<in> dom (ns_index st)" and r: "refuses_tip addr p st st'"
  shows "node_ok addr st'" "set (setBlockIndexValid st') \<subseteq> set (setBlockIndexValid st)"
proof -
  note o = node_okD [OF ok]
  have v: "setBlockIndexValid st' = filter (\<lambda>q. q \<noteq> p) (setBlockIndexValid st)" using r cset_erase_set [OF o(3,6) p] by (simp add: refuses_tip_def)
  then show "set (setBlockIndexValid st') \<subseteq> set (setBlockIndexValid st)" by auto
  show "node_ok addr st'" by (rule node_ok_step [OF ok _ _ _ v]) (use r o(4,5) v in \<open>auto simp: refuses_tip_def\<close>)
qed

text \<open>The block by which a call of \<open>ActivateBestChain\<close> leaves its last round early, with the code of the refusal: the rounds are followed as the function
  runs through them, and the blocks of the last round up to the one that was refused, if any.\<close>

fun connect_refusal :: "(u256 \<Rightarrow> 'a node_state_scheme \<Rightarrow> 'a node_state_scheme tip_outcome result option) \<Rightarrow> nat \<Rightarrow> 'a node_state_scheme \<Rightarrow> (u256 \<times> nat) option" where
  "connect_refusal conn 0 st = None"
| "connect_refusal conn (Suc fuel) st = (case Tip (chainMostWork st) of
     None \<Rightarrow> None
   | Some t \<Rightarrow>
       if Contains (ns_index st) (chainActive st) t then None
       else case chain_get (chainMostWork st) (Height (chainActive st) + 1) of
         None \<Rightarrow> None
       | Some p \<Rightarrow> (case conn p st of
             Some (Inr (TipDone st)) \<Rightarrow> connect_refusal conn fuel st
           | Some (Inr (TipInvalid code corrupt st)) \<Rightarrow> Some (p, code)
           | _ \<Rightarrow> None))"

fun last_refusal :: "(u256 \<Rightarrow> nat) \<Rightarrow> (int \<Rightarrow> CBlockIndex option) \<Rightarrow> (u256 \<Rightarrow> 'a node_state_scheme \<Rightarrow> 'a node_state_scheme tip_outcome result option)
    \<Rightarrow> ('a node_state_scheme \<Rightarrow> 'a node_state_scheme tip_outcome result option) \<Rightarrow> nat \<Rightarrow> 'a node_state_scheme \<Rightarrow> (u256 \<times> nat) option" where
  "last_refusal addr btc conn disc 0 st = None"
| "last_refusal addr btc conn disc (Suc fuel) st = (case FindMostWorkChain addr btc fuel st of
     None \<Rightarrow> None
   | Some st \<Rightarrow>
       if Tip (chainMostWork st) = None then None
       else case disconnect_while disc (lineage (ns_index st) (Tip (chainActive st))) st of
         Some (Inr (True, st)) \<Rightarrow> (case connect_while addr conn fuel st of
             Some (Inr (Again, st')) \<Rightarrow> last_refusal addr btc conn disc fuel st'
           | _ \<Rightarrow> connect_refusal conn fuel st)
       | _ \<Rightarrow> None)"

locale tip_operations =
  fixes addr :: "u256 \<Rightarrow> nat"
    and keeps :: "'a node_state_scheme \<Rightarrow> bool"
    and conn :: "u256 \<Rightarrow> 'a node_state_scheme \<Rightarrow> 'a node_state_scheme tip_outcome result option"
    and disc :: "'a node_state_scheme \<Rightarrow> 'a node_state_scheme tip_outcome result option"
  assumes connect_done: "node_ok addr st \<Longrightarrow> keeps st \<Longrightarrow> conn p st = returnF (TipDone st') \<Longrightarrow> extends_tip p st st' \<and> keeps st'"
    and connect_invalid: "node_ok addr st \<Longrightarrow> keeps st \<Longrightarrow> conn p st = returnF (TipInvalid code corrupt st') \<Longrightarrow>
      same_rest st st' \<and> (if corrupt then st' = st else refuses_tip addr p st st')"
    and connect_error: "node_ok addr st \<Longrightarrow> keeps st \<Longrightarrow> conn p st = returnF (TipError st') \<Longrightarrow> node_ok addr st'"
    and disconnect_done: "node_ok addr st \<Longrightarrow> keeps st \<Longrightarrow> disc st = returnF (TipDone st') \<Longrightarrow> \<exists>p. Tip (chainActive st) = Some p \<and> retracts_tip p st st' \<and> keeps st'"
    and disconnect_error: "node_ok addr st \<Longrightarrow> keeps st \<Longrightarrow> disc st = returnF (TipError st') \<Longrightarrow> node_ok addr st'"
    and disconnect_valid: "disc st \<noteq> returnF (TipInvalid code corrupt st')"
    and keeps_rest: "keeps st \<Longrightarrow> same_rest st st' \<Longrightarrow> keeps st'"
begin

lemma disconnect_while_ok:
  assumes "node_ok addr st" and "keeps st" and "disconnect_while disc ps st = returnF (ok, st')" and "ps = lineage (ns_index st) (Tip (chainActive st))"
  shows "node_ok addr st' \<and> (ok \<longrightarrow> keeps st' \<and> tree (ns_index st') = tree (ns_index st) \<and> chainMostWork st' = chainMostWork st
    \<and> setBlockIndexValid st' = setBlockIndexValid st \<and> (\<forall>p. Tip (chainActive st') = Some p \<longrightarrow> Contains (ns_index st') (chainMostWork st') p))"
  using assms
proof (induction ps arbitrary: st)
  case Nil
  then have "Tip (chainActive st) = None" using lineage_nonempty(1) by (metis option.exhaust)
  then show ?case using Nil by simp
next
  case (Cons q ps)
  note o = node_okD [OF Cons.prems(1)]
  from Cons.prems(4) obtain p where p: "Tip (chainActive st) = Some p" by (cases "Tip (chainActive st)") auto
  obtain e where e: "ns_index st p = Some e" using chain_wf_Tip(2) [OF o(1,4)] p by auto
  have q: "q = p" "ps = lineage (ns_index st) (parent (ns_index st) p)" using Cons.prems(4) lineage_simps(2) [OF o(1) e] by (simp_all add: p)
  show ?case
  proof (cases "Contains (ns_index st) (chainMostWork st) p")
    case True
    then show ?thesis using Cons.prems p q by simp
  next
    case False
    with Cons.prems(3) q(1) obtain out where out: "disc st = returnF out" by (auto simp: bindF_eq_Inr)
    show ?thesis
    proof (cases out)
      case (TipDone s)
      from disconnect_done [OF Cons.prems(1,2)] out TipDone p have r: "retracts_tip p st s" "keeps s" by auto
      have t: "tree (ns_index s) = tree (ns_index st)" and same: "failed (ns_index s) = failed (ns_index st)" "chainMostWork s = chainMostWork st" "setBlockIndexValid s = setBlockIndexValid st"
        and act: "chainActive s = fst (SetTip (ns_index st) (parent (ns_index st) p) (chainActive st))" using r(1) by (simp_all add: retracts_tip_def)
      note m = move_tip_ok [OF Cons.prems(1) valid_parent [OF o(1)] t same(1) act same(2,3)]
      have "disconnect_while disc ps s = returnF (ok, st')" using Cons.prems(3) False q(1) out TipDone by simp
      from Cons.IH [OF m(1) r(2) this] show ?thesis using q(2) same_tree(7) [OF t] m(2) t same by auto
    next
      case (TipInvalid code corrupt s)
      then show ?thesis using out disconnect_valid by simp
    next
      case (TipError s)
      then show ?thesis using out False Cons.prems(3) q(1) disconnect_error [OF Cons.prems(1,2)] by simp
    qed
  qed
qed

text \<open>Blocks are taken off the active chain only down to the most-work chain.\<close>

lemma disconnect_while_stops:
  assumes "node_ok addr st" and "keeps st" and "disconnect_while disc ps st = returnF (True, st')" and "ps = lineage (ns_index st) (Tip (chainActive st))"
    and "q \<in> set ps" and "Contains (ns_index st) (chainMostWork st) q"
  shows "q \<in> set (lineage (ns_index st) (Tip (chainActive st')))"
  using assms
proof (induction ps arbitrary: st)
  case (Cons x ps)
  note o = node_okD [OF Cons.prems(1)]
  from Cons.prems(4) obtain p where p: "Tip (chainActive st) = Some p" by (cases "Tip (chainActive st)") auto
  obtain e where e: "ns_index st p = Some e" using chain_wf_Tip(2) [OF o(1,4)] p by auto
  have x: "x = p" "ps = lineage (ns_index st) (parent (ns_index st) p)" using Cons.prems(4) lineage_simps(2) [OF o(1) e] by (simp_all add: p)
  show ?case
  proof (cases "Contains (ns_index st) (chainMostWork st) p")
    case True
    then show ?thesis using Cons.prems x(1) by simp
  next
    case False
    with Cons.prems(3) x(1) obtain out where out: "disc st = returnF out" by (auto simp: bindF_eq_Inr)
    then obtain s where s: "disc st = returnF (TipDone s)" "disconnect_while disc ps s = returnF (True, st')"
      using False Cons.prems(3) x(1) by (cases out) simp_all
    from disconnect_done [OF Cons.prems(1,2) s(1)] p have r: "retracts_tip p st s" "keeps s" by auto
    have t: "tree (ns_index s) = tree (ns_index st)" and same: "failed (ns_index s) = failed (ns_index st)" "chainMostWork s = chainMostWork st" "setBlockIndexValid s = setBlockIndexValid st"
      and act: "chainActive s = fst (SetTip (ns_index st) (parent (ns_index st) p) (chainActive st))" using r(1) by (simp_all add: retracts_tip_def)
    note m = move_tip_ok [OF Cons.prems(1) valid_parent [OF o(1)] t same(1) act same(2,3)]
    have q: "q \<in> set ps" using Cons.prems(5,6) False x(1) by auto
    have "q \<in> set (lineage (ns_index s) (Tip (chainActive st')))"
      by (rule Cons.IH [OF m(1) r(2) s(2) _ q]) (use x(2) m(2) same_tree(7,9) [OF t] Cons.prems(6) same(2) in simp_all)
    then show ?thesis using same_tree(7) [OF t] by simp
  qed
qed simp

lemma block_refused_ok:
  assumes ok: "node_ok addr st" and k: "keeps st" and c: "conn p st = returnF (TipInvalid code corrupt s)" and p: "ns_index st p = Some e"
    and b: "block_refused addr p code corrupt s = returnF (r, st')"
  shows "node_ok addr st'" "keeps st'" "r = Finished \<Longrightarrow> code = REJECT_INVALID_LOTTO" "r \<noteq> Broken" "tree (ns_index st') = tree (ns_index st)"
proof -
  from connect_invalid [OF ok k c] have s: "same_rest st s" "if corrupt then s = st else refuses_tip addr p st s" by simp_all
  have "node_ok addr s" using s(2) ok refuse_ok(1) [OF ok _, of p s] p by (cases corrupt) auto
  let ?u = "if \<not> corrupt then (case Tip (chainMostWork s) of None \<Rightarrow> s | Some t \<Rightarrow> note_invalid t s) else s"
  have u: "node_ok addr ?u" "same_rest st ?u"
    using \<open>node_ok addr s\<close> search_steps_ok(3) same_rest_trans [OF s(1) same_rest_steps(3)] s(1) by (auto split: option.splits)
  have "node_ok addr (valid_erase addr p (set_most (parent (ns_index ?u) p) ?u))" "same_rest st (valid_erase addr p (set_most (parent (ns_index ?u) p) ?u))"
    using search_steps_ok(1) [OF search_steps_ok(2) [OF u(1) valid_parent [OF node_okD(1) [OF u(1)]]]]
      same_rest_trans [OF same_rest_trans [OF u(2) same_rest_steps(2)] same_rest_steps(1)] by auto
  moreover have "st' = ?u \<or> st' = valid_erase addr p (set_most (parent (ns_index ?u) p) ?u)" and fin: "r = Finished \<longleftrightarrow> code = REJECT_INVALID_LOTTO" "r \<noteq> Broken"
    using b by (auto simp: block_refused_def Let_def split: if_splits option.splits)
  ultimately have st': "node_ok addr st'" "same_rest st st'" using u by auto
  show "node_ok addr st'" "keeps st'" using st' keeps_rest [OF k] by auto
  show "r \<noteq> Broken" by (rule fin(2))
  show "tree (ns_index st') = tree (ns_index st)" by (rule stored_tree) (use st'(2) in \<open>simp add: same_rest_def\<close>)
  show "code = REJECT_INVALID_LOTTO" if "r = Finished" using fin(1) that by simp
qed

lemma connect_while_ok:
  assumes "node_ok addr st" and "keeps st" and "connect_while addr conn fuel st = returnF (r, st')" and "Tip (chainMostWork st) = Some t"
    and "\<forall>p. Tip (chainActive st) = Some p \<longrightarrow> Contains (ns_index st) (chainMostWork st) p" and "unsurpassed addr st (Some t)"
  shows "node_ok addr st' \<and> (r \<noteq> Broken \<longrightarrow> keeps st' \<and> tree (ns_index st') = tree (ns_index st)) \<and> (r = Finished \<longrightarrow> unsurpassed addr st' (Tip (chainActive st'))
    \<or> (\<exists>p. connect_refusal conn fuel st = Some (p, REJECT_INVALID_LOTTO)))"
  using assms
proof (induction fuel arbitrary: st)
  case (Suc fuel)
  note o = node_okD [OF Suc.prems(1)] and tip = Suc.prems(4)
  note nb = next_block [OF o(1,4,5) tip Suc.prems(5)]
  show ?case
  proof (cases "Contains (ns_index st) (chainActive st) t")
    case True
    then show ?thesis using nb(1) Suc.prems by simp
  next
    case False
    from nb(2) [OF False] obtain p f where p: "chain_get (chainMostWork st) (Height (chainActive st) + 1) = Some p" "ns_index st p = Some f"
      "Contains (ns_index st) (chainMostWork st) p" by blast
    from Suc.prems(3) tip False p(1) obtain out where out: "conn p st = returnF out" by (auto simp: bindF_eq_Inr)
    show ?thesis
    proof (cases out)
      case (TipDone s)
      from connect_done [OF Suc.prems(1,2)] out TipDone have x: "extends_tip p st s" "keeps s" by auto
      have tr: "tree (ns_index s) = tree (ns_index st)" and same: "failed (ns_index s) = failed (ns_index st)" "chainMostWork s = chainMostWork st" "setBlockIndexValid s = setBlockIndexValid st"
        and act: "chainActive s = fst (SetTip (ns_index st) (Some p) (chainActive st))" using x(1) by (simp_all add: extends_tip_def)
      note m = move_tip_ok [OF Suc.prems(1) _ tr same(1) act same(2,3)]
      have "connect_while addr conn fuel s = returnF (r, st')" using Suc.prems(3) tip False p(1) out TipDone by simp
      moreover have "connect_refusal conn (Suc fuel) st = connect_refusal conn fuel s" using tip False p(1) out TipDone by simp
      ultimately show ?thesis using Suc.IH [OF m(1) x(2)] p tip m(2) same tr same_tree(5,9) [OF tr] Suc.prems(6) by (simp add: unsurpassed_def)
    next
      case (TipInvalid code corrupt s)
      then have b: "block_refused addr p code corrupt s = returnF (r, st')" using Suc.prems(3) tip False p(1) out by simp
      have "conn p st = returnF (TipInvalid code corrupt s)" using out TipInvalid by simp
      note k = block_refused_ok [OF Suc.prems(1,2) this p(2) b]
      have "connect_refusal conn (Suc fuel) st = Some (p, code)" using tip False p(1) out TipInvalid by simp
      then show ?thesis using k by blast
    next
      case (TipError s)
      then show ?thesis using Suc.prems(3) tip False p(1) out connect_error [OF Suc.prems(1,2)] by auto
    qed
  qed
qed simp

lemma activate_loop_ok:
  assumes "node_ok addr st" and "keeps st" and "activate_loop addr btc conn disc fuel st = returnF (ok, st')"
  shows "node_ok addr st' \<and> (ok \<longrightarrow> keeps st' \<and> tree (ns_index st') = tree (ns_index st) \<and> (unsurpassed addr st' (Tip (chainActive st'))
    \<or> (\<exists>p. last_refusal addr btc conn disc fuel st = Some (p, REJECT_INVALID_LOTTO))))"
  using assms
proof (induction fuel arbitrary: st)
  case (Suc fuel)
  from Suc.prems(3) obtain s where s: "FindMostWorkChain addr btc fuel st = Some s" by (auto split: option.splits)
  note f = FindMostWorkChain_ok [OF Suc.prems(1) s] and rest = FindMostWorkChain_rest [OF s]
  note k = keeps_rest [OF Suc.prems(2) rest]
  have t: "tree (ns_index s) = tree (ns_index st)" by (rule stored_tree) (use rest in \<open>simp add: same_rest_def\<close>)
  show ?case
  proof (cases "Tip (chainMostWork s)")
    case None
    then show ?thesis using Suc.prems(3) s f k t by (auto simp: unsurpassed_def)
  next
    case (Some t)
    with Suc.prems(3) s obtain d u where d: "disconnect_while disc (lineage (ns_index s) (Tip (chainActive s))) s = returnF (d, u)" by (auto simp: bindF_eq_Inr)
    note du = disconnect_while_ok [OF f(1) k d refl]
    show ?thesis
    proof (cases d)
      case False
      then show ?thesis using Suc.prems(3) s Some d du by simp
    next
      case True
      with Suc.prems(3) s Some d obtain r w where w: "connect_while addr conn fuel u = returnF (r, w)" by (auto simp: bindF_eq_Inr)
      have "unsurpassed addr u (Some t)" using f(2) du True Some same_tree(5) [of "ns_index u" "ns_index s"] by (simp add: unsurpassed_def)
      then have c: "node_ok addr w \<and> (r \<noteq> Broken \<longrightarrow> keeps w \<and> tree (ns_index w) = tree (ns_index u)) \<and> (r = Finished \<longrightarrow> unsurpassed addr w (Tip (chainActive w))
          \<or> (\<exists>p. connect_refusal conn fuel u = Some (p, REJECT_INVALID_LOTTO)))"
        using du True Some by (intro connect_while_ok [OF _ _ w]) auto
      show ?thesis using Suc.prems(3) s Some d True w c t du Suc.IH [of w] by (cases r) auto
    qed
  qed
qed simp

end

section \<open>Rounds without end\<close>

text \<open>\<open>b\<close> is the next block on the way to the best candidate \<open>c\<close>, and nothing on that way is marked.\<close>

definition stuck :: "(u256 \<Rightarrow> nat) \<Rightarrow> (int \<Rightarrow> CBlockIndex option) \<Rightarrow> u256 \<Rightarrow> u256 \<Rightarrow> 'a node_state_scheme \<Rightarrow> bool" where
  "stuck addr btc b c st \<longleftrightarrow> node_ok addr st \<and> setBlockIndexValid st \<noteq> [] \<and> last (setBlockIndexValid st) = c \<and> CheckBTCHashValid btc (ns_index st) c
     \<and> b \<in> set (lineage (ns_index st) (Some c)) \<and> parent (ns_index st) b = Tip (chainActive st)
     \<and> (\<forall>p\<in>set (lineage (ns_index st) (Some c)). \<not> failed (ns_index st) p)
     \<and> (\<forall>t. Tip (chainMostWork st) = Some t \<longrightarrow> \<not> failed (ns_index st) t \<and> (t = c \<or> work_less addr (ns_index st) t c))"

lemma failed_ancestor_clear: "\<forall>p\<in>set ps. \<not> failed idx p \<Longrightarrow> failed_ancestor idx act ps = None"
  by (induction ps) auto

lemma last_filter: "xs \<noteq> [] \<Longrightarrow> P (last xs) \<Longrightarrow> filter P xs \<noteq> [] \<and> last (filter P xs) = last xs"
  by (induction xs rule: rev_induct) auto

text \<open>The search proposes the candidate again.\<close>

lemma stuck_search:
  assumes st: "stuck addr btc b c st" and f: "FindMostWorkChain addr btc (Suc fuel) st = Some s"
  shows "stuck addr btc b c s" "Tip (chainMostWork s) = Some c" "ns_index s = ns_index st" "chainActive s = chainActive st" "setBlockIndexValid s = setBlockIndexValid st"
proof -
  have ok: "node_ok addr st" using st by (simp add: stuck_def)
  note o = node_okD [OF ok]
  have c: "ns_index st c \<noteq> None" using o(6) st last_in_set [of "setBlockIndexValid st"] by (auto simp: stuck_def)
  have "drop_failed addr (lineage (ns_index st) (Tip (chainMostWork st))) st = st"
  proof (cases "Tip (chainMostWork st)")
    case (Some t)
    then obtain e where "ns_index st t = Some e" using chain_wf_Tip(2) [OF o(1,5)] by auto
    then show ?thesis using lineage_simps(2) [OF o(1)] st Some by (simp add: stuck_def)
  qed simp
  moreover have "find_candidate addr btc (Suc fuel) st = Some (Some c, st)"
    using st by (simp add: stuck_def Let_def failed_ancestor_clear)
  ultimately have s: "s = (case Tip (chainMostWork st) of Some p \<Rightarrow> if \<not> work_less addr (ns_index st) p c then st else set_most (Some c) st | None \<Rightarrow> set_most (Some c) st)"
    using f by (simp add: FindMostWorkChain_def Let_def)
  have tc: "Tip (fst (SetTip (ns_index st) (Some c) (chainMostWork st))) = Some c"
    using chain_wf_SetTip(1) [OF o(1,5), of "Some c"] Tip_of_chain [OF o(1), of "Some c"] c by simp
  have sn: "node_ok addr s" "Tip (chainMostWork s) = Some c"
    using s search_steps_ok(2) [OF ok, of "Some c"] c tc st ok by (auto simp: stuck_def split: option.splits)
  show "ns_index s = ns_index st" "chainActive s = chainActive st" "setBlockIndexValid s = setBlockIndexValid st" "Tip (chainMostWork s) = Some c"
    using s sn(2) by (auto split: option.splits)
  then show "stuck addr btc b c s" using st sn by (simp add: stuck_def) (metis last_in_set o(8))
qed

lemma stuck_next:
  assumes st: "stuck addr btc b c s" and t: "Tip (chainMostWork s) = Some c"
  shows "disconnect_while disc (lineage (ns_index s) (Tip (chainActive s))) s = returnF (True, s)" "\<not> Contains (ns_index s) (chainActive s) c"
    "chain_get (chainMostWork s) (Height (chainActive s) + 1) = Some b"
proof -
  let ?idx = "ns_index s"
  have ok: "node_ok addr s" and b: "b \<in> set (lineage ?idx (Some c))" and pb: "parent ?idx b = Tip (chainActive s)" using st by (simp_all add: stuck_def)
  note o = node_okD [OF ok]
  obtain e where e: "?idx c = Some e" using chain_wf_Tip(2) [OF o(1,5)] t by auto
  from lineage_mem [OF o(1) e b] obtain f where f: "?idx b = Some f" by blast
  have mc: "Contains ?idx (chainMostWork s) q \<longleftrightarrow> q \<in> set (lineage ?idx (Some c))" for q using chain_wf_Contains [OF o(1,5)] t by simp
  have anc: "set (lineage ?idx (Some b)) \<subseteq> set (lineage ?idx (Some c))"
  proof -
    have "set (chain_of ?idx (Some b)) \<subseteq> set (chain_of ?idx (Some c))" using lineage_mem [OF o(1) e b] set_take_subset by metis
    then show ?thesis by (auto simp: chain_of_def)
  qed
  have pre: "\<forall>p. Tip (chainActive s) = Some p \<longrightarrow> Contains ?idx (chainMostWork s) p"
  proof (intro allI impI)
    fix p assume p: "Tip (chainActive s) = Some p"
    then obtain g where "?idx p = Some g" using chain_wf_Tip(2) [OF o(1,4)] by auto
    then have "p \<in> set (lineage ?idx (Some b))" using lineage_simps(2) [OF o(1) f] lineage_simps(2) [OF o(1)] pb p by simp
    then show "Contains ?idx (chainMostWork s) p" using mc anc by blast
  qed
  show "disconnect_while disc (lineage ?idx (Tip (chainActive s))) s = returnF (True, s)"
  proof (cases "Tip (chainActive s)")
    case (Some p)
    then obtain g where "?idx p = Some g" using chain_wf_Tip(2) [OF o(1,4)] by auto
    then show ?thesis using lineage_simps(2) [OF o(1)] pre Some by simp
  qed simp
  note nb = next_block [OF o(1,4,5) t pre]
  have hb: "height ?idx b \<le> height ?idx c" using lineage_mem [OF o(1) e b] by simp
  show n: "\<not> Contains ?idx (chainActive s) c"
  proof
    assume "Contains ?idx (chainActive s) c"
    then have "parent ?idx b = Some c" using nb(1) pb t by simp
    then show False using parent_height(2) [OF o(1) f] hb by simp
  qed
  from nb(2) [OF n] obtain p g where p: "chain_get (chainMostWork s) (Height (chainActive s) + 1) = Some p" "?idx p = Some g" "parent ?idx p = Tip (chainActive s)"
    "p \<in> set (lineage ?idx (Some c))" by blast
  have "chain_of ?idx (Some p) = chain_of ?idx (parent ?idx b) @ [Some p]" using chain_of_step(1) [OF o(1) p(2)] p(3) pb by simp
  then have "height ?idx p = height ?idx b" using chain_of_step(2) [OF o(1) p(2)] chain_of_parent_length [OF o(1) f] by simp
  then have "chain_of ?idx (Some p) = chain_of ?idx (Some b)" using lineage_mem [OF o(1) e p(4)] lineage_mem [OF o(1) e b] by simp
  from arg_cong [OF this, of Tip] have "p = b" by (simp only: Tip_chain_of [OF o(1) p(2)] Tip_chain_of [OF o(1) f] option.inject)
  with p(1) show "chain_get (chainMostWork s) (Height (chainActive s) + 1) = Some b" by simp
qed

lemma stuck_again:
  assumes st: "stuck addr btc b c s" and t: "Tip (chainMostWork s) = Some c" and "code \<noteq> REJECT_INVALID_LOTTO"
    and dirty: "code = REJECT_DIRTY_BLOCK \<Longrightarrow> b \<noteq> c \<and> (\<exists>a. Tip (chainActive s) = Some a \<and> work_less addr (ns_index s) a c)"
  shows "\<exists>s'. block_refused addr b code True s = returnF (Again, s') \<and> stuck addr btc b c s' \<and> same_rest s s'
    \<and> ns_index s' = ns_index s \<and> chainActive s' = chainActive s"
proof (cases "code = REJECT_DIRTY_BLOCK")
  case False
  then show ?thesis using st assms(3) by (simp add: block_refused_def)
next
  case True
  let ?idx = "ns_index s"
  from dirty [OF True] obtain a where bc: "b \<noteq> c" and a: "Tip (chainActive s) = Some a" "work_less addr ?idx a c" by blast
  have ok: "node_ok addr s" and b: "b \<in> set (lineage ?idx (Some c))" and pb: "parent ?idx b = Some a" using st a by (simp_all add: stuck_def)
  note o = node_okD [OF ok]
  let ?s = "valid_erase addr b (set_most (Some a) s)"
  have va: "valid_ptr ?idx (Some a)" using chain_wf_Tip(2) [OF o(1,4)] a by simp
  obtain e where e: "?idx c = Some e" using chain_wf_Tip(2) [OF o(1,5)] t by auto
  have db: "b \<in> dom ?idx" using lineage_mem [OF o(1) e b] by auto
  have v: "setBlockIndexValid ?s = filter (\<lambda>q. q \<noteq> b) (setBlockIndexValid s)" using cset_erase_set [OF o(3,6) db] by simp
  have l: "setBlockIndexValid ?s \<noteq> []" "last (setBlockIndexValid ?s) = c" unfolding v using last_filter [of "setBlockIndexValid s" "\<lambda>q. q \<noteq> b"] st bc by (simp_all add: stuck_def)
  have "Tip (chainMostWork ?s) = Some a" using chain_wf_SetTip(1) [OF o(1,5) va] Tip_of_chain [OF o(1) va] by simp
  moreover have "\<not> failed ?idx a"
  proof -
    have "Contains ?idx (chainMostWork s) a"
      using stuck_next(1) [OF st t, of "\<lambda>_. None"] a(1) lineage_simps(2) [OF o(1)] va by (cases "Contains ?idx (chainMostWork s) a") auto
    then have "a \<in> set (lineage ?idx (Some c))" using chain_wf_Contains [OF o(1,5)] t by simp
    then show ?thesis using st by (simp add: stuck_def)
  qed
  ultimately have "stuck addr btc b c ?s"
    using st l a search_steps_ok(1) [OF search_steps_ok(2) [OF ok va]] unfolding stuck_def by simp
  moreover have "same_rest s ?s" by (rule same_rest_trans [OF same_rest_steps(2) same_rest_steps(1)])
  ultimately show ?thesis using True pb by (simp add: block_refused_def REJECT_DIRTY_BLOCK_def REJECT_INVALID_LOTTO_def)
qed

lemma activate_loop_stuck:
  assumes "stuck addr btc b c st" and code: "code \<noteq> REJECT_INVALID_LOTTO"
    and dirty: "code = REJECT_DIRTY_BLOCK \<Longrightarrow> b \<noteq> c \<and> (\<exists>a. Tip (chainActive st) = Some a \<and> work_less addr (ns_index st) a c)"
    and refused: "\<And>s. same_rest st s \<Longrightarrow> ns_index s = ns_index st \<Longrightarrow> conn b s = returnF (TipInvalid code True s)"
  shows "activate_loop addr btc conn disc fuel st = None"
proof -
  have "activate_loop addr btc conn disc fuel s = None" if "stuck addr btc b c s" "same_rest st s" "ns_index s = ns_index st" for s
    using that
  proof (induction fuel arbitrary: s)
    case (Suc fuel)
    show ?case
    proof (cases "FindMostWorkChain addr btc fuel s")
      case (Some u)
      then obtain n where n: "fuel = Suc n" by (cases fuel) (auto simp: FindMostWorkChain_def Let_def)
      note u = stuck_search [OF Suc.prems(1) Some [unfolded n]]
      have ru: "same_rest st u" by (rule same_rest_trans [OF Suc.prems(2) FindMostWorkChain_rest [OF Some]])
      note nx = stuck_next [OF u(1,2)]
      have cu: "conn b u = returnF (TipInvalid code True u)" using refused [OF ru] u(3) Suc.prems(3) by simp
      have act: "chainActive u = chainActive st" using ru by (simp add: same_rest_def)
      obtain s' where s': "block_refused addr b code True u = returnF (Again, s')" "stuck addr btc b c s'" "same_rest u s'" "ns_index s' = ns_index u"
        using stuck_again [OF u(1,2) code] dirty u(3) Suc.prems(3) act by auto
      have "connect_while addr conn fuel u = returnF (Again, s')" using u(2) nx(2,3) cu s'(1) by (simp add: n)
      moreover have "activate_loop addr btc conn disc fuel s' = None"
        by (rule Suc.IH [OF s'(2) same_rest_trans [OF ru s'(3)]]) (use s'(4) u(3) Suc.prems(3) in simp)
      ultimately show ?thesis using Some u(2) nx(1) by simp
    qed simp
  qed simp
  with assms(1) show ?thesis by simp
qed

end
