(* ===== verification/Mempool.thy ===== *)
theory Mempool
  imports Coins Fuel
begin

text \<open>
  The memory pool (\<open>CTxMemPool\<close> of \<open>txmempool.h\<close> and \<open>txmempool.cpp\<close>): transactions that wait for a block, with an index from each
  output they spend to the spending input, and the view of the coins that includes them (\<open>CCoinsViewMemPool\<close>).

  A pointer into the pool (\<open>CInPoint::ptx\<close>) is the id of the transaction it points to; following a pointer to an entry that is gone is
  a fault. The id of a transaction is a parameter. The priority is a \<open>double\<close> that is only stored; it is kept as its bit pattern.

  What \<open>check\<close> asserts of the two maps is the invariant \<open>mempool_ok\<close>. It is kept by every operation; a recursive removal leaves no transaction
  that depends on a removed one, and removing the conflicts of a transaction leaves no other transaction that spends its inputs.
\<close>

section \<open>The pool\<close>

record CTxMemPoolEntry =
  e_tx :: CTransaction
  e_nFee :: int
  e_nTxSize :: nat
  e_nTime :: int
  e_dPriority :: u64
  e_nHeight :: u32

definition MEMPOOL_HEIGHT :: int where "MEMPOOL_HEIGHT = 0x7FFFFFFF"

definition CTxMemPoolEntry_of :: "CTransaction \<Rightarrow> int \<Rightarrow> int \<Rightarrow> u64 \<Rightarrow> u32 \<Rightarrow> CTxMemPoolEntry" where
  "CTxMemPoolEntry_of tx fee time prio h =
     \<lparr>e_tx = tx, e_nFee = fee, e_nTxSize = length (ser_CTransaction tx), e_nTime = time, e_dPriority = prio, e_nHeight = h\<rparr>"

record CInPoint =
  ip_ptx :: u256
  ip_n :: nat

record CTxMemPool =
  nTransactionsUpdated :: u32
  mapTx :: "u256 \<rightharpoonup> CTxMemPoolEntry"
  mapNextTx :: "COutPoint \<rightharpoonup> CInPoint"

definition new_CTxMemPool :: CTxMemPool where
  "new_CTxMemPool = \<lparr>nTransactionsUpdated = 0, mapTx = Map.empty, mapNextTx = Map.empty\<rparr>"

definition mp_exists :: "CTxMemPool \<Rightarrow> u256 \<Rightarrow> bool" where
  "mp_exists pool hash \<longleftrightarrow> mapTx pool hash \<noteq> None"

definition mp_lookup :: "CTxMemPool \<Rightarrow> u256 \<Rightarrow> CTransaction option" where
  "mp_lookup pool hash = (case mapTx pool hash of None \<Rightarrow> None | Some e \<Rightarrow> Some (e_tx e))"

definition AddTransactionsUpdated :: "CTxMemPool \<Rightarrow> u32 \<Rightarrow> CTxMemPool" where
  "AddTransactionsUpdated pool n = pool\<lparr>nTransactionsUpdated := nTransactionsUpdated pool + n\<rparr>"

definition mark_inputs :: "u256 \<Rightarrow> (nat \<times> CTxIn) list \<Rightarrow> (COutPoint \<rightharpoonup> CInPoint) \<Rightarrow> (COutPoint \<rightharpoonup> CInPoint)" where
  "mark_inputs hash = fold (\<lambda>(i, txin) m. m(prevout txin \<mapsto> \<lparr>ip_ptx = hash, ip_n = i\<rparr>))"

definition addUnchecked :: "CTxMemPool \<Rightarrow> u256 \<Rightarrow> CTxMemPoolEntry \<Rightarrow> CTxMemPool" where
  "addUnchecked pool hash entry =
     pool\<lparr>mapTx := (mapTx pool)(hash \<mapsto> entry),
          mapNextTx := mark_inputs hash (zip [0..<length (vin (e_tx entry))] (vin (e_tx entry))) (mapNextTx pool),
          nTransactionsUpdated := nTransactionsUpdated pool + 1\<rparr>"

section \<open>Removing transactions\<close>

text \<open>Following the pointer of an index entry.\<close>

definition deref_tx :: "CTxMemPool \<Rightarrow> CInPoint \<Rightarrow> CTransaction result option" where
  "deref_tx pool p = (case mapTx pool (ip_ptx p) of None \<Rightarrow> Some (Inl InvalidData) | Some e \<Rightarrow> returnF (e_tx e))"

definition erase_inputs :: "CTxIn list \<Rightarrow> (COutPoint \<rightharpoonup> CInPoint) \<Rightarrow> (COutPoint \<rightharpoonup> CInPoint)" where
  "erase_inputs = fold (\<lambda>txin m. m(prevout txin := None))"

text \<open>The second half of \<open>remove\<close>: the transaction itself. The list collects what was removed.\<close>

definition remove_self :: "u256 \<Rightarrow> CTransaction \<Rightarrow> CTxMemPool \<times> CTransaction list \<Rightarrow> CTxMemPool \<times> CTransaction list" where
  "remove_self hash tx s = (case s of (pool, removed) \<Rightarrow>
     if mapTx pool hash \<noteq> None then
       (pool\<lparr>mapNextTx := erase_inputs (vin tx) (mapNextTx pool), mapTx := (mapTx pool)(hash := None),
             nTransactionsUpdated := nTransactionsUpdated pool + 1\<rparr>, tx # removed)
     else (pool, removed))"

fun mp_remove :: "(CTransaction \<Rightarrow> u256) \<Rightarrow> nat \<Rightarrow> CTransaction \<Rightarrow> bool \<Rightarrow> CTxMemPool \<times> CTransaction list
    \<Rightarrow> (CTxMemPool \<times> CTransaction list) result option" where
  "mp_remove txid 0 tx fRecursive s = None"
| "mp_remove txid (Suc fuel) tx fRecursive s =
     bindF (if fRecursive then
              foldF (\<lambda>i s. case mapNextTx (fst s) \<lparr>op_hash = txid tx, op_n = word_of_nat i\<rparr> of
                        None \<Rightarrow> returnF s
                      | Some p \<Rightarrow> bindF (deref_tx (fst s) p) (\<lambda>spender. mp_remove txid fuel spender True s))
                [0..<length (vout tx)] s
            else returnF s)
       (\<lambda>s. returnF (remove_self (txid tx) tx s))"

definition conflict_step :: "(CTransaction \<Rightarrow> u256) \<Rightarrow> nat \<Rightarrow> CTransaction \<Rightarrow> CTxIn \<Rightarrow> CTxMemPool \<times> CTransaction list
    \<Rightarrow> (CTxMemPool \<times> CTransaction list) result option" where
  "conflict_step txid fuel tx txin s = (case mapNextTx (fst s) (prevout txin) of
     None \<Rightarrow> returnF s
   | Some p \<Rightarrow> bindF (deref_tx (fst s) p) (\<lambda>txConflict. if txConflict \<noteq> tx then mp_remove txid fuel txConflict True s else returnF s))"

definition removeConflicts :: "(CTransaction \<Rightarrow> u256) \<Rightarrow> nat \<Rightarrow> CTransaction \<Rightarrow> CTxMemPool \<times> CTransaction list
    \<Rightarrow> (CTxMemPool \<times> CTransaction list) result option" where
  "removeConflicts txid fuel tx = foldF (conflict_step txid fuel tx) (vin tx)"

text \<open>What \<open>ConnectTip\<close> does for the transactions of a block: each is taken out of the pool alone, then what conflicts with it.\<close>

definition remove_connected :: "(CTransaction \<Rightarrow> u256) \<Rightarrow> nat \<Rightarrow> CTransaction \<Rightarrow> CTxMemPool \<times> CTransaction list
    \<Rightarrow> (CTxMemPool \<times> CTransaction list) result option" where
  "remove_connected txid fuel tx s = (case s of (pool, txConflicted) \<Rightarrow>
     bindF (mp_remove txid fuel tx False (pool, [])) (\<lambda>(pool, unused). removeConflicts txid fuel tx (pool, txConflicted)))"

definition mp_clear :: "CTxMemPool \<Rightarrow> CTxMemPool" where
  "mp_clear pool = pool\<lparr>mapTx := Map.empty, mapNextTx := Map.empty, nTransactionsUpdated := nTransactionsUpdated pool + 1\<rparr>"

section \<open>The coins with the pool\<close>

text \<open>\<open>pruneSpent\<close> visits the outputs of \<open>hashTx\<close> that the pool spends, in order; spending one that is not there has no effect.\<close>

definition pruneSpent :: "CTxMemPool \<Rightarrow> u256 \<Rightarrow> CCoins \<Rightarrow> CCoins" where
  "pruneSpent pool hashTx coins =
     fold (\<lambda>n coins. let out = \<lparr>op_hash = hashTx, op_n = word_of_nat n\<rparr> in
             if mapNextTx pool out = None then coins else case Spend coins out of None \<Rightarrow> coins | Some (coins, _) \<Rightarrow> coins)
       [0..<length (c_vout coins)] coins"

definition mp_GetCoins :: "('v \<Rightarrow> u256 \<Rightarrow> 'v \<times> CCoins option) \<Rightarrow> CTxMemPool \<Rightarrow> 'v \<Rightarrow> u256 \<Rightarrow> 'v \<times> CCoins option" where
  "mp_GetCoins bget pool base txid = (case bget base txid of
     (base, Some coins) \<Rightarrow> (base, Some coins)
   | (base, None) \<Rightarrow> (case mp_lookup pool txid of None \<Rightarrow> (base, None) | Some tx \<Rightarrow> (base, Some (CCoins_of tx MEMPOOL_HEIGHT))))"

definition mp_HaveCoins :: "('v \<Rightarrow> u256 \<Rightarrow> 'v \<times> bool) \<Rightarrow> CTxMemPool \<Rightarrow> 'v \<Rightarrow> u256 \<Rightarrow> 'v \<times> bool" where
  "mp_HaveCoins bhave pool base txid = (if mp_exists pool txid then (base, True) else bhave base txid)"

section \<open>The invariant\<close>

definition entry_ok :: "(CTransaction \<Rightarrow> u256) \<Rightarrow> (COutPoint \<rightharpoonup> CInPoint) \<Rightarrow> u256 \<Rightarrow> CTransaction \<Rightarrow> bool" where
  "entry_ok txid next h tx \<longleftrightarrow> txid tx = h \<and> (\<forall>i<length (vin tx). next (prevout (vin tx ! i)) = Some \<lparr>ip_ptx = h, ip_n = i\<rparr>)"

definition index_ok :: "(u256 \<rightharpoonup> CTxMemPoolEntry) \<Rightarrow> COutPoint \<Rightarrow> CInPoint \<Rightarrow> bool" where
  "index_ok txs out p \<longleftrightarrow> (\<exists>e. txs (ip_ptx p) = Some e \<and> ip_n p < length (vin (e_tx e)) \<and> prevout (vin (e_tx e) ! ip_n p) = out)"

definition mempool_ok :: "(CTransaction \<Rightarrow> u256) \<Rightarrow> CTxMemPool \<Rightarrow> bool" where
  "mempool_ok txid pool \<longleftrightarrow> (\<forall>h e. mapTx pool h = Some e \<longrightarrow> entry_ok txid (mapNextTx pool) h (e_tx e))
     \<and> (\<forall>out p. mapNextTx pool out = Some p \<longrightarrow> index_ok (mapTx pool) out p)"

text \<open>The pool only shrinks.\<close>

definition pool_le :: "CTxMemPool \<Rightarrow> CTxMemPool \<Rightarrow> bool" where
  "pool_le p q \<longleftrightarrow> mapTx p \<subseteq>\<^sub>m mapTx q \<and> mapNextTx p \<subseteq>\<^sub>m mapNextTx q"

lemma pool_le_refl [simp]: "pool_le p p"
  by (simp add: pool_le_def)

lemma pool_le_trans: "pool_le p q \<Longrightarrow> pool_le q r \<Longrightarrow> pool_le p r"
  by (auto simp: pool_le_def intro: map_le_trans)

lemma pool_leD: "pool_le p q \<Longrightarrow> mapTx p h = Some e \<Longrightarrow> mapTx q h = Some e"
  "pool_le p q \<Longrightarrow> mapNextTx p out = Some ip \<Longrightarrow> mapNextTx q out = Some ip"
  by (auto simp: pool_le_def map_le_def dom_def)

lemma pool_le_None: "pool_le p q \<Longrightarrow> mapTx q h = None \<Longrightarrow> mapTx p h = None"
  "pool_le p q \<Longrightarrow> mapNextTx q out = None \<Longrightarrow> mapNextTx p out = None"
  by (metis not_None_eq pool_leD(1), metis not_None_eq pool_leD(2))

lemma erase_inputs_apply: "erase_inputs ins m out = (if out \<in> prevout ` set ins then None else m out)"
  unfolding erase_inputs_def by (induction ins arbitrary: m) auto

lemma mark_inputs_Cons:
  "mark_inputs h (zip (n # ns) (x # ins)) m = mark_inputs h (zip ns ins) (m(prevout x \<mapsto> \<lparr>ip_ptx = h, ip_n = n\<rparr>))"
  by (simp add: mark_inputs_def)

lemma mark_inputs_other:
  "out \<notin> prevout ` set ins \<Longrightarrow> mark_inputs h (zip ns ins) m out = m out"
  unfolding mark_inputs_def
proof (induction ins arbitrary: ns m)
  case (Cons x ins)
  then show ?case by (cases ns) auto
qed simp

lemma mark_inputs_nth:
  assumes "distinct (map prevout ins)" and "length ns = length ins" and "i < length ins"
  shows "mark_inputs h (zip ns ins) m (prevout (ins ! i)) = Some \<lparr>ip_ptx = h, ip_n = ns ! i\<rparr>"
  using assms
proof (induction ins arbitrary: ns m i)
  case (Cons x ins)
  then obtain n ns' where ns: "ns = n # ns'" by (cases ns) auto
  show ?case
  proof (cases i)
    case 0
    have "mark_inputs h (zip ns' ins) (m(prevout x \<mapsto> \<lparr>ip_ptx = h, ip_n = n\<rparr>)) (prevout x) = Some \<lparr>ip_ptx = h, ip_n = n\<rparr>"
      using Cons.prems(1) by (subst mark_inputs_other) auto
    then show ?thesis by (simp only: 0 ns mark_inputs_Cons nth_Cons_0)
  next
    case (Suc j)
    have "mark_inputs h (zip ns' ins) m' (prevout (ins ! j)) = Some \<lparr>ip_ptx = h, ip_n = ns' ! j\<rparr>" for m'
      by (rule Cons.IH) (use Cons.prems in \<open>simp_all add: ns Suc\<close>)
    then show ?thesis by (simp only: Suc ns mark_inputs_Cons nth_Cons_Suc)
  qed
qed simp

section \<open>Adding\<close>

lemma mempool_okD:
  assumes "mempool_ok txid pool"
  shows "mapTx pool h = Some e \<Longrightarrow> txid (e_tx e) = h"
    "mapTx pool h = Some e \<Longrightarrow> i < length (vin (e_tx e)) \<Longrightarrow> mapNextTx pool (prevout (vin (e_tx e) ! i)) = Some \<lparr>ip_ptx = h, ip_n = i\<rparr>"
    "mapNextTx pool out = Some p \<Longrightarrow> \<exists>e. mapTx pool (ip_ptx p) = Some e \<and> ip_n p < length (vin (e_tx e)) \<and> prevout (vin (e_tx e) ! ip_n p) = out"
  using assms by (auto simp: mempool_ok_def entry_ok_def index_ok_def)

lemma addUnchecked_ok:
  assumes ok: "mempool_ok txid pool" and new: "mapTx pool (txid (e_tx entry)) = None"
    and free: "\<forall>txin\<in>set (vin (e_tx entry)). mapNextTx pool (prevout txin) = None" and dist: "distinct (map prevout (vin (e_tx entry)))"
  shows "mempool_ok txid (addUnchecked pool (txid (e_tx entry)) entry)"
proof -
  let ?h = "txid (e_tx entry)" and ?ins = "vin (e_tx entry)"
  let ?m = "mark_inputs ?h (zip [0..<length ?ins] ?ins) (mapNextTx pool)"
  have nth: "?m (prevout (?ins ! i)) = Some \<lparr>ip_ptx = ?h, ip_n = i\<rparr>" if "i < length ?ins" for i
    using mark_inputs_nth [OF dist, of "[0..<length ?ins]" i] that by simp
  have old: "?m out = mapNextTx pool out" if "out \<notin> prevout ` set ?ins" for out using that by (rule mark_inputs_other)
  have used: "prevout (vin (e_tx e) ! i) \<notin> prevout ` set ?ins" if "mapTx pool h = Some e" "i < length (vin (e_tx e))" for h e i
    using mempool_okD(2) [OF ok that] free by fastforce
  have "entry_ok txid ?m h (e_tx e)" if "((mapTx pool)(?h \<mapsto> entry)) h = Some e" for h e
    using that nth mempool_okD(1,2) [OF ok, of h e] used [of h e] old by (auto simp: entry_ok_def split: if_splits)
  moreover have "index_ok ((mapTx pool)(?h \<mapsto> entry)) out p" if "?m out = Some p" for out p
  proof (cases "out \<in> prevout ` set ?ins")
    case True
    then obtain i where "i < length ?ins" "out = prevout (?ins ! i)" by (auto simp: in_set_conv_nth)
    with nth [of i] that show ?thesis by (auto simp: index_ok_def)
  next
    case False
    with that have "mapNextTx pool out = Some p" by (simp add: old)
    with mempool_okD(3) [OF ok this] new show ?thesis by (auto simp: index_ok_def)
  qed
  ultimately show ?thesis by (simp add: mempool_ok_def addUnchecked_def)
qed

section \<open>Removing\<close>

text \<open>No other transaction of the pool has the id.\<close>

definition consistent_tx :: "(CTransaction \<Rightarrow> u256) \<Rightarrow> CTxMemPool \<Rightarrow> CTransaction \<Rightarrow> bool" where
  "consistent_tx txid pool tx \<longleftrightarrow> (\<forall>e. mapTx pool (txid tx) = Some e \<longrightarrow> vin (e_tx e) = vin tx)"

lemma remove_self_ok:
  assumes ok: "mempool_ok txid pool" and same: "consistent_tx txid pool tx"
    and r: "remove_self (txid tx) tx (pool, removed) = (pool', removed')"
  shows "mempool_ok txid pool' \<and> pool_le pool' pool \<and> mapTx pool' (txid tx) = None"
proof (cases "mapTx pool (txid tx)")
  case None
  then show ?thesis using ok r by (simp add: remove_self_def)
next
  case (Some e)
  let ?n = "erase_inputs (vin tx) (mapNextTx pool)" and ?t = "(mapTx pool)(txid tx := None)"
  have v: "vin (e_tx e) = vin tx" using same Some by (simp add: consistent_tx_def)
  have own: "mapNextTx pool out = Some p \<Longrightarrow> out \<in> prevout ` set (vin tx) \<longleftrightarrow> ip_ptx p = txid tx" for out p
  proof
    assume "mapNextTx pool out = Some p" "out \<in> prevout ` set (vin tx)"
    then show "ip_ptx p = txid tx" using mempool_okD(2) [OF ok Some] by (auto simp: v in_set_conv_nth)
  next
    assume "mapNextTx pool out = Some p" "ip_ptx p = txid tx"
    then show "out \<in> prevout ` set (vin tx)" using mempool_okD(3) [OF ok, of out p] Some v by (auto intro: rev_image_eqI)
  qed
  have "entry_ok txid ?n h (e_tx f)" if "?t h = Some f" for h f
    using that mempool_okD(1,2) [OF ok, of h f] own by (fastforce simp: entry_ok_def erase_inputs_apply split: if_splits)
  moreover have "index_ok ?t out p" if "?n out = Some p" for out p
    using that mempool_okD(3) [OF ok, of out p] own [of out p] by (auto simp: index_ok_def erase_inputs_apply split: if_splits)
  moreover have "?n \<subseteq>\<^sub>m mapNextTx pool" "?t \<subseteq>\<^sub>m mapTx pool" by (auto simp: map_le_def erase_inputs_apply split: if_splits)
  ultimately show ?thesis using r Some by (auto simp: remove_self_def mempool_ok_def pool_le_def)
qed


text \<open>What a removal establishes of a transaction: it is gone, and so is everything that spends an output of it.\<close>

definition purged :: "(CTransaction \<Rightarrow> u256) \<Rightarrow> CTxMemPool \<Rightarrow> CTransaction \<Rightarrow> bool" where
  "purged txid pool tx \<longleftrightarrow> mapTx pool (txid tx) = None \<and> (\<forall>i<length (vout tx). mapNextTx pool \<lparr>op_hash = txid tx, op_n = word_of_nat i\<rparr> = None)"

lemma purged_mono: "pool_le p q \<Longrightarrow> purged txid q tx \<Longrightarrow> purged txid p tx"
  by (simp add: purged_def pool_le_None)

definition removal :: "(CTransaction \<Rightarrow> u256) \<Rightarrow> CTxMemPool \<times> CTransaction list \<Rightarrow> CTxMemPool \<times> CTransaction list \<Rightarrow> bool" where
  "removal txid s s' \<longleftrightarrow> mempool_ok txid (fst s') \<and> pool_le (fst s') (fst s) \<and> (\<forall>t\<in>set (snd s'). t \<in> set (snd s) \<or> purged txid (fst s') t)"

lemma removal_refl: "mempool_ok txid (fst s) \<Longrightarrow> removal txid s s"
  by (simp add: removal_def)

lemma removal_trans: "removal txid s t \<Longrightarrow> removal txid t u \<Longrightarrow> removal txid s u"
  unfolding removal_def by (meson pool_le_trans purged_mono)

lemma consistent_mono: "pool_le p q \<Longrightarrow> consistent_tx txid q tx \<Longrightarrow> consistent_tx txid p tx"
  by (auto simp: consistent_tx_def dest: pool_leD(1))

lemma deref_consistent:
  assumes "mempool_ok txid pool" and "mapNextTx pool out = Some p" and "deref_tx pool p = Some (Inr t)"
  shows "txid t = ip_ptx p \<and> (\<exists>e. mapTx pool (txid t) = Some e \<and> e_tx e = t)"
  using assms mempool_okD(1) [OF assms(1)] by (auto simp: deref_tx_def split: option.splits)

lemma consistent_deref:
  assumes "mempool_ok txid pool" and "mapNextTx pool out = Some p" and "deref_tx pool p = Some (Inr t)"
  shows "consistent_tx txid pool t"
  using deref_consistent [OF assms] by (auto simp: consistent_tx_def)

lemma removed_spender:
  assumes "mempool_ok txid q" and "mapNextTx q out = Some ip" and "pool_le p q" and "mempool_ok txid p" and "mapTx p (ip_ptx ip) = None"
  shows "mapNextTx p out = None"
proof (rule ccontr)
  assume "mapNextTx p out \<noteq> None"
  then have "mapNextTx p out = Some ip" using pool_leD(2) [OF assms(3), of out] assms(2) by fastforce
  with mempool_okD(3) [OF assms(4)] assms(5) show False by fastforce
qed

lemma remove_self_removal:
  assumes "mempool_ok txid (fst s)" and "consistent_tx txid (fst s) tx"
    and "\<forall>i<length (vout tx). mapNextTx (fst s) \<lparr>op_hash = txid tx, op_n = word_of_nat i\<rparr> = None"
  shows "removal txid s (remove_self (txid tx) tx s) \<and> purged txid (fst (remove_self (txid tx) tx s)) tx"
proof -
  obtain pool removed pool' removed' where s: "s = (pool, removed)" and s': "remove_self (txid tx) tx s = (pool', removed')"
    by (metis surj_pair)
  have "mempool_ok txid pool' \<and> pool_le pool' pool \<and> mapTx pool' (txid tx) = None"
    by (rule remove_self_ok [of txid pool tx removed pool' removed']) (use assms s s' in simp_all)
  moreover have "set removed' \<subseteq> insert tx (set removed)" using s' s by (auto simp: remove_self_def split: if_splits)
  moreover from calculation(1) have "purged txid pool' tx" using assms(3) by (auto simp: purged_def s intro: pool_le_None(2))
  ultimately show ?thesis using s' by (auto simp: removal_def s)
qed

lemma mp_remove_recursive:
  assumes "mempool_ok txid (fst s)" and "consistent_tx txid (fst s) tx" and "mp_remove txid fuel tx True s = Some (Inr s')"
  shows "removal txid s s' \<and> purged txid (fst s') tx"
  using assms
proof (induction fuel arbitrary: tx s s')
  case (Suc fuel)
  let ?out = "\<lambda>i. \<lparr>op_hash = txid tx, op_n = word_of_nat i\<rparr>"
  let ?f = "\<lambda>i s. case mapNextTx (fst s) (?out i) of None \<Rightarrow> returnF s
    | Some p \<Rightarrow> bindF (deref_tx (fst s) p) (\<lambda>spender. mp_remove txid fuel spender True s)"
  from Suc.prems(3) obtain t where t: "foldF ?f [0..<length (vout tx)] s = Some (Inr t)" "s' = remove_self (txid tx) tx t"
    by (auto simp: bindF_eq_Inr)
  have step: "removal txid s u \<and> mapNextTx (fst u) (?out i) = None" if ok: "mempool_ok txid (fst s)" and "?f i s = Some (Inr u)" for i s u
  proof (cases "mapNextTx (fst s) (?out i)")
    case None
    then show ?thesis using that removal_refl by auto
  next
    case (Some p)
    with that obtain sp where sp: "deref_tx (fst s) p = Some (Inr sp)" "mp_remove txid fuel sp True s = Some (Inr u)"
      by (auto simp: bindF_eq_Inr)
    note d = deref_consistent [OF ok Some sp(1)]
    have "removal txid s u \<and> purged txid (fst u) sp"
      by (rule Suc.IH [OF ok consistent_deref [OF ok Some sp(1)] sp(2)])
    then show ?thesis using removed_spender [OF ok Some, of "fst u"] d by (simp add: removal_def purged_def)
  qed
  have "removal txid s t \<and> (\<forall>i\<in>set [0..<length (vout tx)]. mapNextTx (fst t) (?out i) = None)"
  proof (rule foldF_establishes [OF t(1), where P = "removal txid s"])
    show "removal txid s s" using Suc.prems(1) by (rule removal_refl)
  next
    fix i v w assume "removal txid s v" "?f i v = Some (Inr w)"
    then show "removal txid s w \<and> mapNextTx (fst w) (?out i) = None" using step [of v i w] removal_trans [of txid s v w] by (simp add: removal_def)
  next
    fix i j v w assume "removal txid s v" "?f j v = Some (Inr w)" "mapNextTx (fst v) (?out i) = None"
    then show "mapNextTx (fst w) (?out i) = None" using step [of v j w] pool_le_None(2) [of "fst w" "fst v"] by (simp add: removal_def)
  qed
  then have tt: "removal txid s t" "\<forall>i<length (vout tx). mapNextTx (fst t) (?out i) = None" by auto
  have "pool_le (fst t) (fst s)" "mempool_ok txid (fst t)" using tt(1) by (simp_all add: removal_def)
  then have "removal txid t s' \<and> purged txid (fst s') tx" unfolding t(2)
    by (intro remove_self_removal [OF _ consistent_mono [OF _ Suc.prems(2)] tt(2)])
  with tt(1) removal_trans [of txid s t s'] show ?case by simp
qed simp

lemma mp_remove_single:
  assumes "mempool_ok txid (fst s)" and "consistent_tx txid (fst s) tx" and "mp_remove txid fuel tx False s = Some (Inr s')"
  shows "mempool_ok txid (fst s') \<and> pool_le (fst s') (fst s) \<and> mapTx (fst s') (txid tx) = None"
proof (cases fuel)
  case (Suc n)
  then show ?thesis using assms remove_self_ok [of txid "fst s" tx "snd s" "fst s'" "snd s'"] by simp
qed (use assms in simp)


lemma conflict_step_spec:
  assumes ok: "mempool_ok txid (fst s)" and "conflict_step txid fuel tx txin s = Some (Inr s')"
  shows "removal txid s s' \<and> (\<forall>p. mapNextTx (fst s') (prevout txin) = Some p \<longrightarrow> deref_tx (fst s') p = Some (Inr tx))"
proof (cases "mapNextTx (fst s) (prevout txin)")
  case None
  then show ?thesis using assms removal_refl by (simp add: conflict_step_def)
next
  case (Some p)
  with assms obtain c where c: "deref_tx (fst s) p = Some (Inr c)" "(if c \<noteq> tx then mp_remove txid fuel c True s else returnF s) = Some (Inr s')"
    by (auto simp: conflict_step_def bindF_eq_Inr)
  show ?thesis
  proof (cases "c = tx")
    case True
    then show ?thesis using c Some removal_refl [OF ok] by simp
  next
    case False
    with c mp_remove_recursive [OF ok consistent_deref [OF ok Some c(1)]] have r: "removal txid s s'" "purged txid (fst s') c" by auto
    then have "mapNextTx (fst s') (prevout txin) = None"
      using removed_spender [OF ok Some, of "fst s'"] deref_consistent [OF ok Some c(1)] by (simp add: removal_def purged_def)
    with r show ?thesis by simp
  qed
qed

lemma deref_mono:
  assumes "pool_le p q" and "mempool_ok txid p" and "mapNextTx p out = Some ip" and "deref_tx q ip = Some (Inr t)"
  shows "deref_tx p ip = Some (Inr t)"
proof -
  from mempool_okD(3) [OF assms(2,3)] obtain e where "mapTx p (ip_ptx ip) = Some e" by blast
  with pool_leD(1) [OF assms(1) this] assms(4) show ?thesis by (simp add: deref_tx_def)
qed

lemma removeConflicts_spec:
  assumes ok: "mempool_ok txid (fst s)" and r: "removeConflicts txid fuel tx s = Some (Inr s')"
  shows "removal txid s s' \<and> (\<forall>txin\<in>set (vin tx). \<forall>p. mapNextTx (fst s') (prevout txin) = Some p \<longrightarrow> deref_tx (fst s') p = Some (Inr tx))"
proof (rule foldF_establishes [OF r [unfolded removeConflicts_def], where P = "removal txid s"])
  show "removal txid s s" using ok by (rule removal_refl)
next
  fix x v w assume v: "removal txid s v" and w: "conflict_step txid fuel tx x v = Some (Inr w)"
  from v have "mempool_ok txid (fst v)" by (simp add: removal_def)
  from conflict_step_spec [OF this w] v removal_trans [of txid s v w]
  show "removal txid s w \<and> (\<forall>p. mapNextTx (fst w) (prevout x) = Some p \<longrightarrow> deref_tx (fst w) p = Some (Inr tx))" by simp
next
  fix x y v w assume v: "removal txid s v" and w: "conflict_step txid fuel tx y v = Some (Inr w)"
    and q: "\<forall>p. mapNextTx (fst v) (prevout x) = Some p \<longrightarrow> deref_tx (fst v) p = Some (Inr tx)"
  from v have "mempool_ok txid (fst v)" by (simp add: removal_def)
  from conflict_step_spec [OF this w] have w': "pool_le (fst w) (fst v)" "mempool_ok txid (fst w)" by (simp_all add: removal_def)
  show "\<forall>p. mapNextTx (fst w) (prevout x) = Some p \<longrightarrow> deref_tx (fst w) p = Some (Inr tx)"
    using q deref_mono [OF w'] pool_leD(2) [OF w'(1)] by blast
qed

text \<open>A transaction that is in a block: gone from the pool, with everything else that spends its inputs.\<close>

definition settled :: "(CTransaction \<Rightarrow> u256) \<Rightarrow> CTxMemPool \<Rightarrow> CTransaction \<Rightarrow> bool" where
  "settled txid pool tx \<longleftrightarrow> mapTx pool (txid tx) = None \<and> (\<forall>txin\<in>set (vin tx). mapNextTx pool (prevout txin) = None)"

lemma settled_mono: "pool_le p q \<Longrightarrow> settled txid q tx \<Longrightarrow> settled txid p tx"
  by (simp add: settled_def pool_le_None)

lemma remove_connected_spec:
  assumes ok: "mempool_ok txid (fst s)" and c: "consistent_tx txid (fst s) tx" and r: "remove_connected txid fuel tx s = Some (Inr s')"
  shows "mempool_ok txid (fst s') \<and> pool_le (fst s') (fst s) \<and> settled txid (fst s') tx"
proof -
  obtain pool cs where s: "s = (pool, cs)" by (cases s)
  from r obtain t where t: "mp_remove txid fuel tx False (pool, []) = Some (Inr t)" "removeConflicts txid fuel tx (fst t, cs) = Some (Inr s')"
    by (auto simp: remove_connected_def s bindF_eq_Inr split: prod.splits)
  have t1: "mempool_ok txid (fst t)" "pool_le (fst t) pool" "mapTx (fst t) (txid tx) = None"
    using mp_remove_single [OF _ _ t(1)] ok c by (simp_all add: s)
  have t2: "removal txid (fst t, cs) s'" "\<And>txin p. txin \<in> set (vin tx) \<Longrightarrow> mapNextTx (fst s') (prevout txin) = Some p \<Longrightarrow> deref_tx (fst s') p = Some (Inr tx)"
    using removeConflicts_spec [OF _ t(2)] t1(1) by auto
  have ok': "mempool_ok txid (fst s')" and le: "pool_le (fst s') (fst t)" using t2(1) by (simp_all add: removal_def)
  have gone: "mapTx (fst s') (txid tx) = None" using pool_le_None(1) [OF le] t1(3) by simp
  have "mapNextTx (fst s') (prevout txin) = None" if txin: "txin \<in> set (vin tx)" for txin
  proof (cases "mapNextTx (fst s') (prevout txin)")
    case (Some p)
    from deref_consistent [OF ok' Some t2(2) [OF txin Some]] gone show ?thesis by simp
  qed
  then show ?thesis using ok' gone pool_le_trans [OF le t1(2)] by (simp add: settled_def s)
qed

lemma remove_block_spec:
  assumes "mempool_ok txid pool" and "\<forall>tx\<in>set txs. consistent_tx txid pool tx"
    and "foldF (remove_connected txid fuel) txs (pool, []) = Some (Inr (pool', txConflicted))"
  shows "mempool_ok txid pool' \<and> pool_le pool' pool \<and> (\<forall>tx\<in>set txs. settled txid pool' tx)"
proof -
  let ?P = "\<lambda>s. mempool_ok txid (fst s) \<and> pool_le (fst s) pool"
  have step: "?P w \<and> pool_le (fst w) (fst v) \<and> settled txid (fst w) x"
    if "x \<in> set txs" "?P v" "remove_connected txid fuel x v = Some (Inr w)" for x v w
    using remove_connected_spec [of txid v x fuel w] that consistent_mono [of "fst v" pool txid x] assms(2) pool_le_trans [of "fst w" "fst v" pool] by simp
  have "?P (pool', txConflicted) \<and> (\<forall>tx\<in>set txs. settled txid (fst (pool', txConflicted)) tx)"
  proof (rule foldF_establishes [OF assms(3), where P = ?P])
    show "?P (pool, [])" using assms(1) by simp
  next
    fix x v w assume "x \<in> set txs" "?P v" "remove_connected txid fuel x v = Some (Inr w)"
    then show "?P w \<and> settled txid (fst w) x" using step [of x v w] by simp
  next
    fix x y v w assume "y \<in> set txs" "?P v" "remove_connected txid fuel y v = Some (Inr w)" "settled txid (fst v) x"
    then show "settled txid (fst w) x" using step [of y v w] settled_mono [of "fst w" "fst v" txid x] by simp
  qed
  then show ?thesis by simp
qed

section \<open>Removal ends\<close>

text \<open>A pool without cycles: a transaction ranks above those it spends. Ids are hashes, so a cycle would be a collision.\<close>

definition pool_ranked :: "(u256 \<Rightarrow> nat) \<Rightarrow> nat \<Rightarrow> CTxMemPool \<Rightarrow> bool" where
  "pool_ranked rank n pool \<longleftrightarrow> (\<forall>h e. mapTx pool h = Some e \<longrightarrow> rank h < n \<and> (\<forall>txin\<in>set (vin (e_tx e)). rank (op_hash (prevout txin)) < rank h))"

lemma pool_ranked_mono: "pool_le p q \<Longrightarrow> pool_ranked rank n q \<Longrightarrow> pool_ranked rank n p"
  unfolding pool_ranked_def by (meson pool_leD(1))

lemma mp_remove_total:
  assumes "mempool_ok txid (fst s)" and "consistent_tx txid (fst s) tx" and "pool_ranked rank n (fst s)" and "n - rank (txid tx) < fuel"
  shows "\<exists>s'. mp_remove txid fuel tx fRecursive s = Some (Inr s')"
  using assms
proof (induction fuel arbitrary: tx s fRecursive)
  case (Suc fuel)
  let ?out = "\<lambda>i. \<lparr>op_hash = txid tx, op_n = word_of_nat i\<rparr>"
  let ?f = "\<lambda>i s. case mapNextTx (fst s) (?out i) of None \<Rightarrow> returnF s
    | Some p \<Rightarrow> bindF (deref_tx (fst s) p) (\<lambda>spender. mp_remove txid fuel spender True s)"
  have "\<exists>t. foldF ?f [0..<length (vout tx)] s = Some (Inr t) \<and> removal txid s t"
  proof (rule foldF_total)
    show "removal txid s s" using Suc.prems(1) by (rule removal_refl)
  next
    fix i v assume v: "removal txid s v"
    then have ok: "mempool_ok txid (fst v)" and le: "pool_le (fst v) (fst s)" by (simp_all add: removal_def)
    show "\<exists>w. ?f i v = Some (Inr w) \<and> removal txid s w"
    proof (cases "mapNextTx (fst v) (?out i)")
      case (Some p)
      from mempool_okD(3) [OF ok Some] obtain e where e: "mapTx (fst v) (ip_ptx p) = Some e" "ip_n p < length (vin (e_tx e))" "prevout (vin (e_tx e) ! ip_n p) = ?out i"
        by blast
      have rk: "pool_ranked rank n (fst v)" using pool_ranked_mono [OF le Suc.prems(3)] .
      have "rank (op_hash (prevout (vin (e_tx e) ! ip_n p))) < rank (ip_ptx p)" "rank (ip_ptx p) < n"
        using rk e(1) nth_mem [OF e(2)] unfolding pool_ranked_def by blast+
      then have lt: "n - rank (txid (e_tx e)) < fuel" using Suc.prems(4) mempool_okD(1) [OF ok e(1)] by (simp add: e(3))
      have d: "deref_tx (fst v) p = Some (Inr (e_tx e))" by (simp add: deref_tx_def e(1))
      from Suc.IH [OF ok consistent_deref [OF ok Some d] rk lt] obtain w where w: "mp_remove txid fuel (e_tx e) True v = Some (Inr w)" by blast
      with mp_remove_recursive [OF ok consistent_deref [OF ok Some d] w] removal_trans [OF v, of w] show ?thesis by (simp add: Some d)
    qed (use v in simp)
  qed
  then show ?case by (cases fRecursive) auto
qed simp


lemma removeConflicts_total:
  assumes ok: "mempool_ok txid (fst s)" and rk: "pool_ranked rank n (fst s)" and "n < fuel"
  shows "\<exists>s'. removeConflicts txid fuel tx s = Some (Inr s') \<and> removal txid s s'"
  unfolding removeConflicts_def
proof (rule foldF_total)
  show "removal txid s s" using ok by (rule removal_refl)
next
  fix x v assume v: "removal txid s v"
  then have okv: "mempool_ok txid (fst v)" and le: "pool_le (fst v) (fst s)" by (simp_all add: removal_def)
  have "\<exists>w. conflict_step txid fuel tx x v = Some (Inr w)"
  proof (cases "mapNextTx (fst v) (prevout x)")
    case (Some p)
    from mempool_okD(3) [OF okv Some] obtain e where e: "mapTx (fst v) (ip_ptx p) = Some e" by blast
    then have d: "deref_tx (fst v) p = Some (Inr (e_tx e))" by (simp add: deref_tx_def)
    from mp_remove_total [OF okv consistent_deref [OF okv Some d] pool_ranked_mono [OF le rk], of fuel] assms(3)
    obtain w where "mp_remove txid fuel (e_tx e) True v = Some (Inr w)" by (meson diff_le_self le_less_trans)
    then show ?thesis by (cases "e_tx e = tx") (simp_all add: conflict_step_def Some d)
  qed (simp add: conflict_step_def)
  with conflict_step_spec [OF okv] removal_trans [OF v] show "\<exists>w. conflict_step txid fuel tx x v = Some (Inr w) \<and> removal txid s w" by blast
qed

lemma remove_connected_total:
  assumes "mempool_ok txid (fst s)" and "consistent_tx txid (fst s) tx" and "pool_ranked rank n (fst s)" and "n < fuel"
  shows "\<exists>s'. remove_connected txid fuel tx s = Some (Inr s')"
proof -
  obtain pool cs where s: "s = (pool, cs)" by (cases s)
  have "n - rank (txid tx) < fuel" using assms(4) by simp
  with mp_remove_total [of txid "(pool, [])" tx rank n fuel False] assms obtain t where t: "mp_remove txid fuel tx False (pool, []) = Some (Inr t)"
    by (auto simp: s)
  have t1: "mempool_ok txid (fst t)" "pool_le (fst t) pool" using mp_remove_single [OF _ _ t] assms by (simp_all add: s)
  from removeConflicts_total [of txid "(fst t, cs)" rank n fuel tx] t1 pool_ranked_mono [OF t1(2)] assms(3,4)
  show ?thesis by (auto simp: remove_connected_def s t split: prod.splits)
qed

text \<open>C12: A connected block leaves no conflict in the memory pool. In a well-formed pool without cycles, removing the transactions of a
  block ends, and leaves a well-formed pool that contains none of them, no transaction that spends an output the block has spent, and
  nothing that was not there before. Fuel above the longest chain of dependent transactions is enough.\<close>

theorem block_leaves_no_conflicts:
  assumes "mempool_ok txid pool" and "pool_ranked rank n pool" and "n < fuel" and "\<forall>tx\<in>set txs. consistent_tx txid pool tx"
  shows "\<exists>pool' txConflicted. foldF (remove_connected txid fuel) txs (pool, []) = Some (Inr (pool', txConflicted))
    \<and> mempool_ok txid pool' \<and> pool_le pool' pool \<and> (\<forall>tx\<in>set txs. settled txid pool' tx)"
proof -
  let ?P = "\<lambda>s :: CTxMemPool \<times> CTransaction list. mempool_ok txid (fst s) \<and> pool_le (fst s) pool"
  have "\<exists>t. foldF (remove_connected txid fuel) txs (pool, []) = Some (Inr t) \<and> ?P t"
  proof (rule foldF_total)
    show "?P (pool, [])" using assms(1) by simp
  next
    fix x v assume x: "x \<in> set txs" and v: "?P v"
    have c: "consistent_tx txid (fst v) x" using consistent_mono [of "fst v" pool] v x assms(4) by simp
    from remove_connected_total [of txid v x rank n fuel] v c pool_ranked_mono [of "fst v" pool rank n] assms(2,3)
    obtain w where "remove_connected txid fuel x v = Some (Inr w)" by auto
    with remove_connected_spec [of txid v x fuel w] v c pool_le_trans [of "fst w" "fst v" pool]
    show "\<exists>w. remove_connected txid fuel x v = Some (Inr w) \<and> ?P w" by simp
  qed
  then obtain pool' cs where "foldF (remove_connected txid fuel) txs (pool, []) = Some (Inr (pool', cs))" by (metis surj_pair)
  with remove_block_spec [OF assms(1,4) this] show ?thesis by blast
qed

text \<open>A pool with a transaction, one that spends it, and a block that spends the input of the first.\<close>

definition ex_mp_tx :: "u256 \<Rightarrow> u32 \<Rightarrow> CTransaction" where
  "ex_mp_tx from n = \<lparr>tx_nVersion = 1, vin = [\<lparr>prevout = \<lparr>op_hash = from, op_n = 0\<rparr>, scriptSig = [], nSequence = 0\<rparr>],
     vout = [\<lparr>out_value = 1, scriptPubKey = []\<rparr>], nLockTime = n\<rparr>"

definition ex_txid :: "CTransaction \<Rightarrow> u256" where
  "ex_txid tx = ucast (nLockTime tx)"

definition ex_entry :: "CTransaction \<Rightarrow> CTxMemPoolEntry" where
  "ex_entry tx = CTxMemPoolEntry_of tx 0 0 0 0"

definition ex_pool :: CTxMemPool where
  "ex_pool = addUnchecked (addUnchecked new_CTxMemPool 7 (ex_entry (ex_mp_tx 1 7))) 8 (ex_entry (ex_mp_tx 7 8))"

lemma new_mempool_ok: "mempool_ok txid new_CTxMemPool"
  by (simp add: mempool_ok_def new_CTxMemPool_def)

lemma ex_pool_ok: "mempool_ok ex_txid ex_pool"
proof -
  have a: "mempool_ok ex_txid (addUnchecked new_CTxMemPool (ex_txid (e_tx (ex_entry (ex_mp_tx 1 7)))) (ex_entry (ex_mp_tx 1 7)))"
    by (rule addUnchecked_ok [OF new_mempool_ok]) (simp_all add: new_CTxMemPool_def ex_entry_def CTxMemPoolEntry_of_def ex_mp_tx_def)
  have id: "ex_txid (e_tx (ex_entry (ex_mp_tx 1 7))) = 7" "ex_txid (e_tx (ex_entry (ex_mp_tx 7 8))) = 8"
    by (simp_all add: ex_txid_def ex_entry_def CTxMemPoolEntry_of_def ex_mp_tx_def)
  have "mempool_ok ex_txid (addUnchecked (addUnchecked new_CTxMemPool 7 (ex_entry (ex_mp_tx 1 7))) (ex_txid (e_tx (ex_entry (ex_mp_tx 7 8)))) (ex_entry (ex_mp_tx 7 8)))"
    by (rule addUnchecked_ok [OF a [unfolded id]], unfold id)
      (simp_all add: addUnchecked_def new_CTxMemPool_def ex_entry_def CTxMemPoolEntry_of_def ex_mp_tx_def mark_inputs_def)
  then show ?thesis by (simp add: ex_pool_def id)
qed

lemma ex_entry_tx [simp]: "e_tx (ex_entry tx) = tx"
  by (simp add: ex_entry_def CTxMemPoolEntry_of_def)

theorem block_leaves_no_conflicts_witness:
  "\<exists>pool' cs. foldF (remove_connected ex_txid 10) [ex_mp_tx 1 9] (ex_pool, []) = Some (Inr (pool', cs))
    \<and> mapTx pool' 9 = None \<and> mapNextTx pool' \<lparr>op_hash = 1, op_n = 0\<rparr> = None
    \<and> mapNextTx ex_pool \<lparr>op_hash = 1, op_n = 0\<rparr> = Some \<lparr>ip_ptx = 7, ip_n = 0\<rparr>"
proof -
  have rk: "pool_ranked unat 9 ex_pool"
    by (auto simp: pool_ranked_def ex_pool_def addUnchecked_def new_CTxMemPool_def ex_entry_def CTxMemPoolEntry_of_def ex_mp_tx_def split: if_splits)
  have cs: "consistent_tx ex_txid ex_pool (ex_mp_tx 1 9)"
    by (auto simp: consistent_tx_def ex_txid_def ex_pool_def addUnchecked_def new_CTxMemPool_def ex_entry_def CTxMemPoolEntry_of_def ex_mp_tx_def)
  have "\<exists>pool' cs. foldF (remove_connected ex_txid 10) [ex_mp_tx 1 9] (ex_pool, []) = Some (Inr (pool', cs))
      \<and> mempool_ok ex_txid pool' \<and> pool_le pool' ex_pool \<and> (\<forall>tx\<in>set [ex_mp_tx 1 9]. settled ex_txid pool' tx)"
    by (rule block_leaves_no_conflicts [OF ex_pool_ok rk]) (simp, simp add: cs)
  then obtain pool' cs where r: "foldF (remove_connected ex_txid 10) [ex_mp_tx 1 9] (ex_pool, []) = Some (Inr (pool', cs))"
      "settled ex_txid pool' (ex_mp_tx 1 9)"
    by (meson list.set_intros(1))
  moreover have "mapNextTx ex_pool \<lparr>op_hash = 1, op_n = 0\<rparr> = Some \<lparr>ip_ptx = 7, ip_n = 0\<rparr>"
    by (simp add: ex_pool_def addUnchecked_def mark_inputs_def ex_mp_tx_def)
  ultimately show ?thesis by (auto simp: settled_def ex_mp_tx_def ex_txid_def simp del: foldF.simps)
qed

end
