(* ===== verification/Mempool_Accept.thy ===== *)
theory Mempool_Accept
  imports Mempool Chain_Connect
begin

text \<open>
  Taking a transaction into the memory pool: \<open>AcceptToMemoryPool\<close> and \<open>GetMinFee\<close> of \<open>main.cpp\<close>. The coins are seen through a cache over the
  pool's view over \<open>pcoinsTip\<close>; once the inputs are cached, the cache is put on an empty view.

  The script templates (\<open>IsStandardTx\<close>, and the test of one input in \<open>AreInputsStandard\<close>), the floating-point priority and the rate limiter
  for free transactions are fields of \<open>policy_env\<close>, as are the clock and the fee options.

  The pool stays well-formed under everything that changes it: taking in a transaction, removing one with what depends
  on it, connecting a block, clearing.
\<close>

record policy_env =
  pe_main :: bool
  IsStandardTx :: "CTransaction \<Rightarrow> int \<Rightarrow> string option"
  input_standard :: "CTransaction \<Rightarrow> nat \<Rightarrow> CTxOut \<Rightarrow> bool"
  GetPriority :: "CTransaction \<Rightarrow> int \<Rightarrow> u64"
  pe_GetTime :: int
  nMinTxFee :: int
  nMinRelayTxFee :: int
  free_limited :: bool

section \<open>Fees\<close>

datatype GetMinFee_mode = GMF_RELAY | GMF_SEND

definition DEFAULT_BLOCK_PRIORITY_SIZE :: nat where "DEFAULT_BLOCK_PRIORITY_SIZE = 50000"
definition CENT :: int where "CENT = 1000000"

definition GetMinFee :: "policy_env \<Rightarrow> byte list \<Rightarrow> int \<Rightarrow> CTransaction \<Rightarrow> nat \<Rightarrow> bool \<Rightarrow> GetMinFee_mode \<Rightarrow> int result" where
  "GetMinFee pe poolkey tip tx nBytes fAllowFree mode =
     (let nBaseFee = (if mode = GMF_RELAY then nMinRelayTxFee pe else nMinTxFee pe) in
      bindE (i64 ((1 + int nBytes div 1000) * nBaseFee)) (\<lambda>nMinFee.
      let nMinFee = (if fAllowFree \<and> nBytes < (if mode = GMF_SEND then 1000 else DEFAULT_BLOCK_PRIORITY_SIZE - 1000) then 0 else nMinFee);
          nMinFee = (if nMinFee < nBaseFee \<and> mode = GMF_SEND \<and> (\<exists>txout\<in>set (vout tx). out_value txout < CENT) then nBaseFee else nMinFee);
          nMinFee = (if \<not> MoneyRange nMinFee then MAX_MONEY else nMinFee)
      in bindE (GetLottoFee poolkey tip tx) (\<lambda>llLottoFee. i64 (nMinFee + llLottoFee))))"

section \<open>The coins of a transaction\<close>

text \<open>\<open>CCoinsView\<close>: a view without coins, and putting a cache on another view.\<close>

definition dummy_GetCoins :: "unit \<Rightarrow> u256 \<Rightarrow> unit \<times> CCoins option" where
  "dummy_GetCoins v txid = ((), None)"

definition dummy_GetBestBlock :: "unit \<Rightarrow> unit \<times> u256" where
  "dummy_GetBestBlock v = ((), 0)"

definition SetBackend :: "'v coins_cache \<Rightarrow> 'w \<Rightarrow> 'w coins_cache" where
  "SetBackend c b = \<lparr>cache_base = b, hashBlock = hashBlock c, cacheCoins = cacheCoins c\<rparr>"

text \<open>\<open>NotPooled\<close>: refused, with what the validation state says, if anything.\<close>

datatype pool_verdict = Pooled | MissingInputs | NotPooled verdict

definition REJECT_DUPLICATE :: nat where "REJECT_DUPLICATE = 0x12"
definition REJECT_INSUFFICIENTFEE :: nat where "REJECT_INSUFFICIENTFEE = 0x42"

definition pool_inputs :: "('v \<Rightarrow> u256 \<Rightarrow> 'v \<times> CCoins option) \<Rightarrow> ('v \<Rightarrow> 'v \<times> u256) \<Rightarrow> CTransaction \<Rightarrow> u256 \<Rightarrow> CTxMemPool \<Rightarrow> 'v
    \<Rightarrow> ('v coins_cache \<times> pool_verdict) result" where
  "pool_inputs bget bbest tx hash pool base =
     (let get = mp_GetCoins bget pool in
      case cache_HaveCoins get (new_cache base) hash of
        (view, True) \<Rightarrow> Inr (view, NotPooled Accept)
      | (view, False) \<Rightarrow>
          (case have_coins_loop get (vin tx) view of
             (view, False) \<Rightarrow> Inr (view, MissingInputs)
           | (view, True) \<Rightarrow>
               bindE (HaveInputs get tx view) (\<lambda>(view, have).
               if \<not> have then Inr (view, NotPooled (Reject 0 REJECT_DUPLICATE ''bad-txns-inputs-spent'' False))
               else Inr (fst (cache_GetBestBlock bbest view), Pooled))))"

fun standard_loop :: "('v \<Rightarrow> u256 \<Rightarrow> 'v \<times> CCoins option) \<Rightarrow> policy_env \<Rightarrow> CTransaction \<Rightarrow> (nat \<times> CTxIn) list \<Rightarrow> 'v coins_cache
    \<Rightarrow> ('v coins_cache \<times> bool) result" where
  "standard_loop bget pe tx [] view = Inr (view, True)"
| "standard_loop bget pe tx ((i, txin) # r) view =
     bindE (GetOutputFor bget txin view) (\<lambda>(view, prev).
     if \<not> input_standard pe tx i prev then Inr (view, False) else standard_loop bget pe tx r view)"

definition AreInputsStandard :: "('v \<Rightarrow> u256 \<Rightarrow> 'v \<times> CCoins option) \<Rightarrow> policy_env \<Rightarrow> CTransaction \<Rightarrow> 'v coins_cache \<Rightarrow> ('v coins_cache \<times> bool) result" where
  "AreInputsStandard bget pe tx mapInputs =
     (if IsCoinBase tx then Inr (mapInputs, True) else standard_loop bget pe tx (zip [0..<length (vin tx)] (vin tx)) mapInputs)"

text \<open>From the fees on; \<open>view\<close> is on the empty view. The result is the entry, or the validation state of a refusal.\<close>

definition pool_fees :: "policy_env \<Rightarrow> connect_env \<Rightarrow> CTransaction \<Rightarrow> bool \<Rightarrow> bool \<Rightarrow> unit coins_cache
    \<Rightarrow> (CTxMemPoolEntry + verdict) result" where
  "pool_fees pe env tx fLimitFree fRejectInsaneFee view =
     (let key = poolKeyId (cn_chain env); tip = tip_height (cn_chain env) in
      bindE (GetValueIn dummy_GetCoins tx view) (\<lambda>(view, nValueIn).
      bindE (GetValueOut tx) (\<lambda>nValueOut.
      bindE (i64 (nValueIn - nValueOut)) (\<lambda>nFees.
      bindE (IsTransactionValid key tip tx) (\<lambda>valid.
      if \<not> valid then Inr (Inr Accept)
      else bindE (GetLottoFee key tip tx) (\<lambda>lottofee.
      if nFees < lottofee then Inr (Inr Accept)
      else let entry = CTxMemPoolEntry_of tx nFees (pe_GetTime pe) (GetPriority pe tx tip) (word_of_int tip) in
      bindE (GetMinFee pe key tip tx (e_nTxSize entry) True GMF_RELAY) (\<lambda>txMinFee.
      if fLimitFree \<and> nFees < txMinFee then Inr (Inr (Reject 0 REJECT_INSUFFICIENTFEE ''insufficient fee'' False))
      else if fLimitFree \<and> nFees < nMinRelayTxFee pe \<and> free_limited pe
        then Inr (Inr (Reject 0 REJECT_INSUFFICIENTFEE ''insufficient priority'' False))
      else if fRejectInsaneFee \<and> nFees > nMinRelayTxFee pe * 10000 then Inr (Inr Accept)
      else bindE (CheckInputs dummy_GetCoins dummy_GetBestBlock env tx view True (SCRIPT_VERIFY_P2SH OR SCRIPT_VERIFY_STRICTENC) False)
        (\<lambda>(view, checks, v). Inr (if v \<noteq> Accept then Inr v else Inl entry)))))))))"

definition pool_checks :: "('v \<Rightarrow> u256 \<Rightarrow> 'v \<times> CCoins option) \<Rightarrow> ('v \<Rightarrow> 'v \<times> u256) \<Rightarrow> policy_env \<Rightarrow> connect_env \<Rightarrow> CTransaction
    \<Rightarrow> u256 \<Rightarrow> bool \<Rightarrow> bool \<Rightarrow> CTxMemPool \<times> 'v \<Rightarrow> ((CTxMemPool \<times> 'v) \<times> pool_verdict) result" where
  "pool_checks bget bbest pe env tx hash fLimitFree fRejectInsaneFee s = (case s of (pool, base) \<Rightarrow>
     bindE (pool_inputs bget bbest tx hash pool base) (\<lambda>(view, v).
     let base = cache_base view; view = SetBackend view () in
     if v \<noteq> Pooled then Inr ((pool, base), v)
     else bindE (if pe_main pe then AreInputsStandard dummy_GetCoins pe tx view else Inr (view, True)) (\<lambda>(view, std).
     if \<not> std then Inr ((pool, base), NotPooled Accept)
     else bindE (pool_fees pe env tx fLimitFree fRejectInsaneFee view) (\<lambda>r. case r of
         Inl entry \<Rightarrow> Inr ((addUnchecked pool hash entry, base), Pooled)
       | Inr v \<Rightarrow> Inr ((pool, base), NotPooled v)))))"

definition AcceptToMemoryPool :: "('v \<Rightarrow> u256 \<Rightarrow> 'v \<times> CCoins option) \<Rightarrow> ('v \<Rightarrow> 'v \<times> u256) \<Rightarrow> (CTransaction \<Rightarrow> u256) \<Rightarrow> policy_env
    \<Rightarrow> connect_env \<Rightarrow> CTransaction \<Rightarrow> bool \<Rightarrow> bool \<Rightarrow> CTxMemPool \<times> 'v \<Rightarrow> ((CTxMemPool \<times> 'v) \<times> pool_verdict) result" where
  "AcceptToMemoryPool bget bbest txid pe env tx fLimitFree fRejectInsaneFee s =
     bindE (CheckTransaction tx) (\<lambda>v.
     if v \<noteq> Accept then Inr (s, NotPooled v)
     else if IsCoinBase tx then Inr (s, NotPooled (invalid 100 ''coinbase''))
     else case (if pe_main pe then IsStandardTx pe tx (tip_height (cn_chain env)) else None) of
       Some reason \<Rightarrow> Inr (s, NotPooled (Reject 0 REJECT_NONSTANDARD reason False))
     | None \<Rightarrow>
         let hash = txid tx in
         if mp_exists (fst s) hash then Inr (s, NotPooled Accept)
         else if \<exists>txin\<in>set (vin tx). mapNextTx (fst s) (prevout txin) \<noteq> None then Inr (s, NotPooled Accept)
         else pool_checks bget bbest pe env tx hash fLimitFree fRejectInsaneFee s)"

section \<open>The pool stays well-formed\<close>

lemma pool_fees_entry:
  assumes "pool_fees pe env tx fLimitFree fRejectInsaneFee view = Inr (Inl entry)"
  shows "e_tx entry = tx"
  using assms by (auto simp: pool_fees_def Let_def bindE_eq_Inr CTxMemPoolEntry_of_def split: if_splits prod.splits)

lemma pool_checks_pool:
  assumes "pool_checks bget bbest pe env tx hash l f (pool, base) = Inr ((pool', base'), v)"
  shows "(v \<noteq> Pooled \<and> pool' = pool) \<or> (v = Pooled \<and> (\<exists>entry. e_tx entry = tx \<and> pool' = addUnchecked pool hash entry))"
proof -
  from assms obtain view v1 where 1: "pool_inputs bget bbest tx hash pool base = Inr (view, v1)"
    "(if v1 \<noteq> Pooled then Inr ((pool, cache_base view), v1) else
      bindE (if pe_main pe then AreInputsStandard dummy_GetCoins pe tx (SetBackend view ()) else Inr (SetBackend view (), True))
       (\<lambda>(view', std). if \<not> std then Inr ((pool, cache_base view), NotPooled Accept)
         else bindE (pool_fees pe env tx l f view') (\<lambda>r. case r of Inl entry \<Rightarrow> Inr ((addUnchecked pool hash entry, cache_base view), Pooled)
           | Inr v \<Rightarrow> Inr ((pool, cache_base view), NotPooled v)))) = Inr ((pool', base'), v)"
    by (auto simp: pool_checks_def bindE_eq_Inr Let_def)
  show ?thesis
  proof (cases "v1 = Pooled")
    case False
    with 1(2) show ?thesis by auto
  next
    case True
    with 1(2) obtain view' std where 2: "(if \<not> std then Inr ((pool, cache_base view), NotPooled Accept)
         else bindE (pool_fees pe env tx l f view') (\<lambda>r. case r of Inl entry \<Rightarrow> Inr ((addUnchecked pool hash entry, cache_base view), Pooled)
           | Inr v \<Rightarrow> Inr ((pool, cache_base view), NotPooled v))) = Inr ((pool', base'), v)"
      by (auto simp: bindE_eq_Inr simp del: if_split)
    show ?thesis
    proof (cases std)
      case False
      with 2 show ?thesis by auto
    next
      case True
      with 2 obtain r where r: "pool_fees pe env tx l f view' = Inr r"
        "(case r of Inl entry \<Rightarrow> Inr ((addUnchecked pool hash entry, cache_base view), Pooled) | Inr v \<Rightarrow> Inr ((pool, cache_base view), NotPooled v)) = (Inr ((pool', base'), v) :: ((CTxMemPool \<times> 'a) \<times> pool_verdict) result)"
        by (auto simp: bindE_eq_Inr)
      then show ?thesis using pool_fees_entry [of pe env tx l f view'] by (cases r) auto
    qed
  qed
qed


lemma AcceptToMemoryPool_ok:
  assumes ok: "mempool_ok txid pool" and acc: "AcceptToMemoryPool bget bbest txid pe env tx l f (pool, base) = Inr ((pool', base'), v)"
  shows "mempool_ok txid pool' \<and> (v = Pooled \<longrightarrow> mp_lookup pool' (txid tx) = Some tx) \<and> (v \<noteq> Pooled \<longrightarrow> pool' = pool)"
proof -
  obtain c where c: "CheckTransaction tx = Inr c" using CheckTransaction_total by blast
  have "pool' = pool \<and> v \<noteq> Pooled \<or> (c = Accept \<and> mapTx pool (txid tx) = None \<and> (\<forall>txin\<in>set (vin tx). mapNextTx pool (prevout txin) = None)
      \<and> pool_checks bget bbest pe env tx (txid tx) l f (pool, base) = Inr ((pool', base'), v))"
    using acc by (auto simp: AcceptToMemoryPool_def c Let_def mp_exists_def split: if_splits option.splits)
  then show ?thesis
  proof
    assume "pool' = pool \<and> v \<noteq> Pooled"
    with ok show ?thesis by simp
  next
    assume a: "c = Accept \<and> mapTx pool (txid tx) = None \<and> (\<forall>txin\<in>set (vin tx). mapNextTx pool (prevout txin) = None)
      \<and> pool_checks bget bbest pe env tx (txid tx) l f (pool, base) = Inr ((pool', base'), v)"
    then have d: "distinct (map prevout (vin tx))" using CheckTransaction_Accept [of tx] c by simp
    from pool_checks_pool [of bget bbest pe env tx "txid tx" l f pool base pool' base' v] a
    consider "pool' = pool" "v \<noteq> Pooled" | entry where "e_tx entry = tx" "pool' = addUnchecked pool (txid tx) entry" "v = Pooled" by auto
    then show ?thesis
    proof cases
      case 2
      then show ?thesis using addUnchecked_ok [OF ok, of entry] a d by (simp add: mp_lookup_def addUnchecked_def)
    qed (use ok in simp)
  qed
qed

text \<open>The pools a node can come to: from the empty one, by the operations of the node.\<close>

inductive pool_reachable :: "(CTransaction \<Rightarrow> u256) \<Rightarrow> CTxMemPool \<Rightarrow> bool" for txid where
  empty: "pool_reachable txid new_CTxMemPool"
| accept: "pool_reachable txid pool \<Longrightarrow> AcceptToMemoryPool (cache_GetCoins db_GetCoins) (cache_GetBestBlock db_GetBestBlock) txid pe env tx l f (pool, base)
    = Inr ((pool', base'), v) \<Longrightarrow> pool_reachable txid pool'"
| drop: "pool_reachable txid pool \<Longrightarrow> consistent_tx txid pool tx \<Longrightarrow> mp_remove txid fuel tx True (pool, removed) = Some (Inr (pool', removed'))
    \<Longrightarrow> pool_reachable txid pool'"
| block: "pool_reachable txid pool \<Longrightarrow> \<forall>tx\<in>set txs. consistent_tx txid pool tx
    \<Longrightarrow> foldF (remove_connected txid fuel) txs (pool, []) = Some (Inr (pool', txConflicted)) \<Longrightarrow> pool_reachable txid pool'"
| clear: "pool_reachable txid pool \<Longrightarrow> pool_reachable txid (mp_clear pool)"
| updated: "pool_reachable txid pool \<Longrightarrow> pool_reachable txid (AddTransactionsUpdated pool n)"

text \<open>C11: The memory pool is always consistent. Whatever sequence of acceptances, removals, connected blocks and resets a node goes
  through, the pool holds what \<open>CTxMemPool::check\<close> asserts: every transaction is stored under its id, each of its inputs is
  indexed to it and to the right position, and every index entry points to a transaction of the pool with that input; so no two
  transactions of the pool spend the same output.\<close>

theorem reachable_pool_consistent:
  assumes "pool_reachable txid pool"
  shows "mempool_ok txid pool"
  using assms
proof induction
  case (accept pool pe env tx l f base pool' base' v)
  show ?case using AcceptToMemoryPool_ok [OF accept.IH accept.hyps(2)] by simp
next
  case (drop pool tx fuel removed pool' removed')
  then show ?case using mp_remove_recursive [of txid "(pool, removed)" tx fuel "(pool', removed')"] by (simp add: removal_def)
next
  case (block pool txs fuel pool' txConflicted)
  then show ?case using remove_block_spec by blast
qed (simp_all add: new_mempool_ok [unfolded mempool_ok_def] mempool_ok_def mp_clear_def AddTransactionsUpdated_def)

end
