(* ===== verification/Chain_Tip.thy ===== *)
theory Chain_Tip
  imports Chain_Safe Mempool_Accept Chain_Work
begin

text \<open>
  The node: \<open>ConnectTip\<close>, \<open>DisconnectTip\<close>, \<open>UpdateTip\<close>, \<open>WriteChainState\<close>, \<open>InvalidBlockFound\<close>, \<open>ActivateBestChain\<close> and \<open>AddToBlockIndex\<close> of
  \<open>main.cpp\<close>, over the coins, the memory pool, the undo files and the block index.

  \<open>tip_env\<close> is what these functions read and never change: the rules, the relay policy, the addresses of the index entries, whether the coins
  are due to be written and whether the disk has room. The rules see the index and the active chain of the node (\<open>rules_of\<close>). Coins
  that a refused block only looked up stay cached in \<open>pcoinsTip\<close>; this does not change the coins and is not tracked. The undo data of a
  block is kept under its hash. \<open>InvalidChainFound\<close> logs the active tip, which exists unless the genesis block itself is refused. Messages, wallets, the log, the misbehaviour of peers and \<open>-checkmempool\<close> are left out.
\<close>

section \<open>The node\<close>

record full_node = node_state +
  pcoinsTip :: "coins_db coins_cache"
  mempool :: CTxMemPool
  undo_files :: "u256 \<rightharpoonup> CTxInUndo list list"
  nBlockSequenceId :: u32

record tip_env =
  te_rules :: connect_env
  te_policy :: policy_env
  te_addr :: "u256 \<Rightarrow> nat"
  te_write_due :: "full_node \<Rightarrow> bool"
  CheckDiskSpace :: "full_node \<Rightarrow> bool"
  te_fuel :: nat

definition index_view :: "block_index \<Rightarrow> u256 \<Rightarrow> CBlockIndex option" where
  "index_view idx h = map_option CBlockIndex.truncate (idx h)"

definition rules_of :: "tip_env \<Rightarrow> 'a node_state_scheme \<Rightarrow> connect_env" where
  "rules_of env st = (te_rules env)\<lparr>cn_chain := (cn_chain (te_rules env))\<lparr>mapBlockIndex := index_view (ns_index st),
     vChain := List.map_filter (\<lambda>p. Option.bind p (index_view (ns_index st))) (chainActive st)\<rparr>\<rparr>"

definition te_txid :: "tip_env \<Rightarrow> CTransaction \<Rightarrow> u256" where
  "te_txid env = CTransaction_GetHash (env_sha (cn_chain (te_rules env)))"

text \<open>\<open>GetBlockPos\<close> is null without data, and nothing can be read there. Reading at a position is a field of the rules.\<close>

definition ReadBlockFromDisk_index :: "chain_env \<Rightarrow> CBlockNode \<Rightarrow> CBlock option" where
  "ReadBlockFromDisk_index env pindex =
     (if nStatus pindex AND BLOCK_HAVE_DATA = 0 then None
      else case ReadBlockFromDisk env (diskPos pindex) of
        None \<Rightarrow> None
      | Some b \<Rightarrow> if CBlockHeader_GetHash (env_Hash9 env) b \<noteq> phashBlock pindex then None else Some b)"

definition WriteChainState :: "tip_env \<Rightarrow> full_node \<Rightarrow> full_node option" where
  "WriteChainState env st =
     (if te_write_due env st then
        if \<not> CheckDiskSpace env st then None else Some (st\<lparr>pcoinsTip := Flush db_BatchWrite (pcoinsTip st)\<rparr>)
      else Some st)"

text \<open>The log entry reads the new tip.\<close>

definition UpdateTip :: "u256 option \<Rightarrow> full_node \<Rightarrow> full_node result" where
  "UpdateTip pindexNew st = (case pindexNew of
     None \<Rightarrow> Inl OutOfBounds
   | Some p \<Rightarrow> Inr (st\<lparr>chainActive := fst (SetTip (ns_index st) (Some p) (chainActive st)), mempool := AddTransactionsUpdated (mempool st) 1\<rparr>))"

section \<open>Connecting a block\<close>

definition InvalidBlockFound :: "(u256 \<Rightarrow> nat) \<Rightarrow> u256 \<Rightarrow> bool \<Rightarrow> 'a node_state_scheme \<Rightarrow> 'a node_state_scheme" where
  "InvalidBlockFound addr p corrupt st =
     (if \<not> corrupt then note_invalid p (valid_erase addr p (or_status BLOCK_FAILED_VALID p st)) else st)"

text \<open>The end of \<open>ConnectBlock\<close>: the undo data and the status of the index entry.\<close>

definition write_undo :: "u256 \<Rightarrow> CTxInUndo list list \<Rightarrow> full_node \<Rightarrow> full_node" where
  "write_undo p blockundo st = (case ns_index st p of
     None \<Rightarrow> st
   | Some e \<Rightarrow>
       if nStatus e AND BLOCK_HAVE_UNDO = 0 \<or> nStatus e AND BLOCK_VALID_MASK < BLOCK_VALID_SCRIPTS then
         let (status, files) = (if nStatus e AND BLOCK_HAVE_UNDO = 0 then (nStatus e OR BLOCK_HAVE_UNDO, (undo_files st)(p \<mapsto> blockundo))
                                else (nStatus e, undo_files st))
         in st\<lparr>ns_index := (ns_index st)(p \<mapsto> e\<lparr>nStatus := (status AND NOT BLOCK_VALID_MASK) OR BLOCK_VALID_SCRIPTS\<rparr>), undo_files := files\<rparr>
       else st)"

definition connected_tip :: "tip_env \<Rightarrow> u256 \<Rightarrow> CBlock \<Rightarrow> coins_db coins_cache coins_cache \<Rightarrow> CTxInUndo list list \<Rightarrow> full_node \<Rightarrow> full_node tip_outcome result option" where
  "connected_tip env p block view blockundo st =
     (let chain = cn_chain (te_rules env);
          st = (if CBlockHeader_GetHash (env_Hash9 chain) block = HashGenesisBlock chain then st else write_undo p blockundo st);
          st = st\<lparr>pcoinsTip := cache_base (Flush cache_BatchWrite view)\<rparr>
      in case WriteChainState env st of
        None \<Rightarrow> returnF (TipError st)
      | Some st \<Rightarrow>
          bindF (foldF (remove_connected (te_txid env) (te_fuel env)) (vtx block) (mempool st, [])) (\<lambda>(pool, txConflicted).
          bindF (Some (UpdateTip (Some p) (st\<lparr>mempool := pool\<rparr>))) (\<lambda>st. returnF (TipDone st))))"

definition ConnectTip :: "tip_env \<Rightarrow> u256 \<Rightarrow> full_node \<Rightarrow> full_node tip_outcome result option" where
  "ConnectTip env p st =
     (if parent (ns_index st) p \<noteq> Tip (chainActive st) then Some (Inl AssertFailed)
      else case ns_index st p of
        None \<Rightarrow> Some (Inl OutOfBounds)
      | Some pindexNew \<Rightarrow> (case ReadBlockFromDisk_index (cn_chain (te_rules env)) pindexNew of
          None \<Rightarrow> returnF (TipError st)
        | Some block \<Rightarrow>
            bindF (ConnectBlock (cache_GetCoins db_GetCoins) (cache_GetBestBlock db_GetBestBlock) (rules_of env st) (te_fuel env) block
                (CBlockIndex.truncate pindexNew) True (new_cache (pcoinsTip st)) False) (\<lambda>r. case r of
              Connected view blockundo \<Rightarrow> connected_tip env p block view blockundo st
            | Rejected (Reject dos code reason corrupt) \<Rightarrow> returnF (TipInvalid code corrupt (InvalidBlockFound (te_addr env) p corrupt st))
            | Rejected Accept \<Rightarrow> returnF (TipError st)
            | NodeError \<Rightarrow> returnF (TipError st))))"

section \<open>Disconnecting a block\<close>

text \<open>A transaction of a disconnected block goes back to the pool; if the pool refuses it, what depends on it has to go.\<close>

definition resurrect :: "tip_env \<Rightarrow> CTransaction \<Rightarrow> full_node \<Rightarrow> full_node result option" where
  "resurrect env tx st =
     (if IsCoinBase tx then returnF st
      else bindF (Some (AcceptToMemoryPool (cache_GetCoins db_GetCoins) (cache_GetBestBlock db_GetBestBlock) (te_txid env) (te_policy env) (rules_of env st)
          tx False False (mempool st, pcoinsTip st))) (\<lambda>((pool, coins), v).
        let st = st\<lparr>mempool := pool, pcoinsTip := coins\<rparr> in
        if v = Pooled then returnF st
        else bindF (mp_remove (te_txid env) (te_fuel env) tx True (pool, [])) (\<lambda>(pool, removed). returnF (st\<lparr>mempool := pool\<rparr>))))"

definition DisconnectTip :: "tip_env \<Rightarrow> full_node \<Rightarrow> full_node tip_outcome result option" where
  "DisconnectTip env st = (case Tip (chainActive st) of
     None \<Rightarrow> Some (Inl AssertFailed)
   | Some p \<Rightarrow> (case ns_index st p of
       None \<Rightarrow> Some (Inl OutOfBounds)
     | Some pindexDelete \<Rightarrow> (case ReadBlockFromDisk_index (cn_chain (te_rules env)) pindexDelete of
         None \<Rightarrow> returnF (TipError st)
       | Some block \<Rightarrow>
           let blockUndo = (if nStatus pindexDelete AND BLOCK_HAVE_UNDO = 0 then None else undo_files st p) in
           if blockUndo \<noteq> None \<and> pprev pindexDelete = None then Some (Inl OutOfBounds)
           else bindF (Some (DisconnectBlock (cache_GetCoins db_GetCoins) (cache_GetBestBlock db_GetBestBlock) (te_txid env) blockUndo (vtx block)
               (nHeight pindexDelete) p (case pprev pindexDelete of None \<Rightarrow> 0 | Some q \<Rightarrow> q) (new_cache (pcoinsTip st)))) (\<lambda>r. case r of
             None \<Rightarrow> returnF (TipError st)
           | Some (view, fClean) \<Rightarrow>
               if \<not> fClean then returnF (TipError st)
               else let st = st\<lparr>pcoinsTip := cache_base (Flush cache_BatchWrite view)\<rparr> in
                 case WriteChainState env st of
                   None \<Rightarrow> returnF (TipError st)
                 | Some st \<Rightarrow> bindF (foldF (resurrect env) (vtx block) st) (\<lambda>st.
                     bindF (Some (UpdateTip (pprev pindexDelete) st)) (\<lambda>st. returnF (TipDone st)))))))"

definition ActivateBestChain :: "tip_env \<Rightarrow> nat \<Rightarrow> full_node \<Rightarrow> (bool \<times> full_node) result option" where
  "ActivateBestChain env fuel st =
     activate_loop (te_addr env) (GetBitcoinBlockIndex (cn_chain (te_rules env))) (ConnectTip env) (DisconnectTip env) fuel st"

section \<open>A new block\<close>

definition GetBlockWork :: "u32 \<Rightarrow> int" where
  "GetBlockWork bits = (let bnTarget = SetCompact bits in if bnTarget \<le> 0 then 0 else 2 ^ 256 div (bnTarget + 1))"

definition new_CBlockNode :: "CBlock \<Rightarrow> u256 \<Rightarrow> u32 \<Rightarrow> CBlockNode" where
  "new_CBlockNode block hash seq = \<lparr>phashBlock = hash, pprev = None, nHeight = 0, diskPos = (0, 0), idx_nTime = nTime block, idx_nBits = nBits block,
     idx_lottoHeader = lottoHeader block, nd_nVersion = nVersion block, nChainWork = 0, nStatus = 0, nSequenceId = seq, nd_nTx = 0, nChainTx = 0\<rparr>"

definition link_block :: "CBlock \<Rightarrow> nat \<times> nat \<Rightarrow> block_index \<Rightarrow> CBlockNode \<Rightarrow> CBlockNode result" where
  "link_block block pos idx pindexNew = (case idx (hashPrevBlock block) of
     None \<Rightarrow> Inr (pindexNew\<lparr>nd_nTx := word_of_nat (length (vtx block)), nChainWork := getuint256 (GetBlockWork (nBits block)),
       nChainTx := word_of_nat (length (vtx block)), diskPos := pos, nStatus := BLOCK_VALID_TRANSACTIONS OR BLOCK_HAVE_DATA\<rparr>)
   | Some prev \<Rightarrow> bindE (i32 (nHeight prev + 1)) (\<lambda>h. Inr (pindexNew\<lparr>pprev := Some (hashPrevBlock block), nHeight := h,
       nd_nTx := word_of_nat (length (vtx block)), nChainWork := nChainWork prev + getuint256 (GetBlockWork (nBits block)),
       nChainTx := nChainTx prev + word_of_nat (length (vtx block)), diskPos := pos, nStatus := BLOCK_VALID_TRANSACTIONS OR BLOCK_HAVE_DATA\<rparr>)))"

definition AddToBlockIndex :: "tip_env \<Rightarrow> nat \<Rightarrow> CBlock \<Rightarrow> nat \<times> nat \<Rightarrow> full_node \<Rightarrow> (bool \<times> full_node) result option" where
  "AddToBlockIndex env fuel block pos st =
     (let hash = CBlockHeader_GetHash (env_Hash9 (cn_chain (te_rules env))) block in
      if ns_index st hash \<noteq> None then returnF (False, st)
      else let pindexNew = new_CBlockNode block hash (nBlockSequenceId st) in
        bindF (Some (link_block block pos ((ns_index st)(hash \<mapsto> pindexNew)) pindexNew)) (\<lambda>pindexNew.
        let idx = (ns_index st)(hash \<mapsto> pindexNew);
            st = st\<lparr>ns_index := idx, nBlockSequenceId := nBlockSequenceId st + 1,
                    setBlockIndexValid := cset_insert (work_less (te_addr env) idx) hash (setBlockIndexValid st)\<rparr>
        in if \<not> disk_ok (te_rules env) then returnF (False, st) else ActivateBestChain env fuel st))"

end
