(* ===== verification/Chain_Supply.thy ===== *)
theory Chain_Supply
  imports Chain_Connect
begin

text \<open>
  The money supply: the value of the coins, how connecting a block changes it, and the balance with the lottery pool.

  A connected block adds at most its subsidy and the prizes of its coinbase to the coins, and takes the outputs away that are marked
  unspendable. Together with the rules of the lottery this bounds the sum of coins and pool along a chain.
\<close>

section \<open>The value of coins\<close>

definition txout_value :: "CTxOut \<Rightarrow> int" where
  "txout_value v = (if CTxOut_IsNull v then 0 else out_value v)"

definition coins_value :: "CCoins \<Rightarrow> int" where
  "coins_value x = sum_list (map txout_value (c_vout x))"

definition coins_total :: "(u256 \<rightharpoonup> CCoins) \<Rightarrow> int" where
  "coins_total A = (\<Sum>h\<in>dom A. coins_value (the (A h)))"

text \<open>States with finitely many coins, none of them of negative value.\<close>

definition coins_sound :: "(u256 \<rightharpoonup> CCoins) \<Rightarrow> bool" where
  "coins_sound A \<longleftrightarrow> finite (dom A) \<and> (\<forall>x\<in>ran A. \<forall>v\<in>set (c_vout x). 0 \<le> txout_value v)"

definition output_of :: "(u256 \<rightharpoonup> CCoins) \<Rightarrow> COutPoint \<Rightarrow> CTxOut option" where
  "output_of A p = (case A (op_hash p) of
     None \<Rightarrow> None
   | Some x \<Rightarrow> if IsAvailable x (unat (op_n p)) then Some (c_vout x ! unat (op_n p)) else None)"

definition spent_value :: "(u256 \<rightharpoonup> CCoins) \<Rightarrow> COutPoint \<Rightarrow> int" where
  "spent_value A p = (case output_of A p of None \<Rightarrow> 0 | Some v \<Rightarrow> out_value v)"

lemma txout_value_simps [simp]: "txout_value CTxOut_null = 0" "\<not> CTxOut_IsNull v \<Longrightarrow> txout_value v = out_value v"
  by (simp_all add: txout_value_def)

lemma sum_trim: "sum_list (map txout_value (trim vs)) = sum_list (map txout_value vs)"
proof -
  have "sum_list (map txout_value (rev (takeWhile CTxOut_IsNull (rev vs)))) = 0"
    by (intro sum_list_0 [THEN trans [rotated]] arg_cong [of _ _ sum_list]) (auto intro!: map_cong dest!: set_takeWhileD simp: txout_value_def)
  then show ?thesis using arg_cong [OF trim_append [of vs], of "\<lambda>l. sum_list (map txout_value l)"] by simp
qed

lemma coins_value_pruned: "IsPruned x \<Longrightarrow> coins_value x = 0"
  by (auto simp: coins_value_def IsPruned_def txout_value_def intro!: sum_list_0 [THEN trans [rotated]] arg_cong [of _ _ sum_list] map_cong)

lemma coins_value_live: "coins_value x = (case live (Some x) of None \<Rightarrow> 0 | Some y \<Rightarrow> coins_value y)"
  by (cases "IsPruned x") (simp_all add: coins_value_pruned)

lemma sum_list_map_update: "i < length xs \<Longrightarrow> sum_list (map f (xs[i := v])) = sum_list (map f xs) - f (xs ! i) + (f v :: int)"
  by (induction xs arbitrary: i) (auto split: nat.split)

lemma coins_value_Spend:
  assumes "Spend x p = Some (x', u)"
  shows "coins_value x' = coins_value x - out_value (c_vout x ! unat (op_n p))"
    and "\<forall>v\<in>set (c_vout x'). v = CTxOut_null \<or> v \<in> set (c_vout x)"
proof -
  note s = Spend_Some [OF assms]
  have "sum_list (map txout_value ((c_vout x)[unat (op_n p) := CTxOut_null])) = coins_value x - txout_value (c_vout x ! unat (op_n p))"
    using sum_list_map_update [OF s(1), of txout_value] by (simp add: coins_value_def)
  then show "coins_value x' = coins_value x - out_value (c_vout x ! unat (op_n p))" using s(2) sum_trim by (simp add: s(3) coins_value_def)
  show "\<forall>v\<in>set (c_vout x'). v = CTxOut_null \<or> v \<in> set (c_vout x)"
    using set_update_subset_insert [of "c_vout x" "unat (op_n p)" CTxOut_null] by (auto simp: s(3) dest!: set_dropWhileD)
qed

text \<open>Replacing the coins of a transaction.\<close>

lemma coins_total_upd:
  assumes "finite (dom A)"
  shows "coins_total (A(h := live (Some x))) = coins_total A - (case A h of None \<Rightarrow> 0 | Some y \<Rightarrow> coins_value y) + coins_value x"
proof -
  have rest: "(\<Sum>k\<in>dom A - {h}. coins_value (the ((A(h := z)) k))) = (\<Sum>k\<in>dom A - {h}. coins_value (the (A k)))" for z
    by (rule sum.cong) auto
  have new: "coins_total (A(h := z)) = (\<Sum>k\<in>dom A - {h}. coins_value (the (A k))) + (case z of None \<Rightarrow> 0 | Some y \<Rightarrow> coins_value y)" for z
  proof (cases z)
    case (Some y)
    have "dom (A(h := z)) = insert h (dom A - {h})" using Some by auto
    then show ?thesis unfolding coins_total_def using assms rest [of z] Some by (simp only:) (subst sum.insert, auto)
  qed (simp add: coins_total_def dom_fun_upd rest del: fun_upd_apply)
  have "coins_total A = (\<Sum>k\<in>dom A - {h}. coins_value (the (A k))) + (case A h of None \<Rightarrow> 0 | Some y \<Rightarrow> coins_value y)"
    using new [of "A h"] by simp
  then show ?thesis using new [of "live (Some x)"] coins_value_live [of x] by simp
qed

lemma coins_sound_upd:
  assumes "coins_sound A" and "\<forall>v\<in>set (c_vout x). 0 \<le> txout_value v"
  shows "coins_sound (A(h := live (Some x)))"
  using assms by (cases "IsPruned x") (auto simp: coins_sound_def ran_def)

lemma trim_nth: "n < length (trim vs) \<Longrightarrow> trim vs ! n = vs ! n"
  using arg_cong [OF trim_append [of vs], of "\<lambda>l. l ! n"] by (simp add: nth_append)

lemma trim_rest:
  assumes "length (trim vs) \<le> n" "n < length vs"
  shows "CTxOut_IsNull (vs ! n)"
proof -
  let ?t = "rev (takeWhile CTxOut_IsNull (rev vs))"
  have "length vs = length (trim vs) + length ?t" using arg_cong [OF trim_append [of vs], of length] by simp
  then have "n - length (trim vs) < length ?t" using assms by linarith
  then have "?t ! (n - length (trim vs)) \<in> set ?t" by (rule nth_mem)
  moreover have "vs ! n = ?t ! (n - length (trim vs))" using assms(1) by (subst (1) trim_append [of vs]) (simp add: nth_append del: length_rev)
  ultimately show ?thesis by (auto dest: set_takeWhileD)
qed

lemma output_of_upd:
  assumes "A (op_hash p) = Some x" and "Spend x p = Some (x', u)" and "q \<noteq> p"
  shows "output_of (A(op_hash p := live (Some x'))) q = output_of A q"
proof (cases "op_hash q = op_hash p")
  case True
  with assms(3) have n: "unat (op_n q) \<noteq> unat (op_n p)" by (cases p, cases q) (auto simp: word_unat_eq_iff)
  let ?w = "(c_vout x)[unat (op_n p) := CTxOut_null]" and ?n = "unat (op_n q)"
  have x': "c_vout x' = trim ?w" using Spend_Some(3) [OF assms(2)] by simp
  have nth: "c_vout x' ! ?n = c_vout x ! ?n" if "?n < length (c_vout x')" using that n trim_nth [of ?n ?w] by (simp add: x')
  have len: "length (c_vout x') \<le> length (c_vout x)" using length_trim [of ?w] by (simp add: x')
  have av: "IsAvailable x' ?n \<longleftrightarrow> IsAvailable x ?n"
  proof (cases "?n < length (c_vout x')")
    case True
    then show ?thesis using nth len by (simp add: IsAvailable_def)
  next
    case False
    then show ?thesis using trim_rest [of ?w ?n] n by (auto simp: IsAvailable_def x')
  qed
  show ?thesis
  proof (cases "IsPruned x'")
    case True
    then have "\<not> IsAvailable x' ?n" by (auto simp: IsPruned_def IsAvailable_def)
    then show ?thesis using True \<open>op_hash q = op_hash p\<close> assms(1) av by (simp add: output_of_def)
  next
    case False
    then show ?thesis using True assms(1) av nth by (auto simp: output_of_def IsAvailable_def)
  qed
qed (simp add: output_of_def)

text \<open>The outputs of a transaction that the coins keep, and those they drop.\<close>

definition spendable_value :: "CTxOut list \<Rightarrow> int" where
  "spendable_value vs = (\<Sum>v\<leftarrow>filter (\<lambda>v. \<not> IsUnspendable (scriptPubKey v)) vs. out_value v)"

definition unspendable_value :: "CTxOut list \<Rightarrow> int" where
  "unspendable_value vs = (\<Sum>v\<leftarrow>filter (\<lambda>v. IsUnspendable (scriptPubKey v)) vs. out_value v)"

lemma spendable_split: "spendable_value vs + unspendable_value vs = (\<Sum>v\<leftarrow>vs. out_value v)"
  by (induction vs) (auto simp: spendable_value_def unspendable_value_def)

lemma unspendable_nonneg: "\<forall>v\<in>set vs. 0 \<le> out_value v \<Longrightarrow> 0 \<le> unspendable_value vs"
  unfolding unspendable_value_def by (intro sum_list_nonneg) auto

lemma CCoins_of_value:
  assumes "\<forall>v\<in>set (vout tx). 0 \<le> out_value v"
  shows "coins_value (CCoins_of tx h) = spendable_value (vout tx)" and "\<forall>v\<in>set (c_vout (CCoins_of tx h)). 0 \<le> txout_value v"
proof -
  let ?f = "\<lambda>v. if IsUnspendable (scriptPubKey v) then CTxOut_null else v"
  have c: "c_vout (CCoins_of tx h) = trim (map ?f (vout tx))" by (simp add: CCoins_of_def ClearUnspendable_def Cleanup_def)
  have "sum_list (map txout_value (map ?f vs)) = spendable_value vs" if "\<forall>v\<in>set vs. 0 \<le> out_value v" for vs
    using that by (induction vs) (auto simp: spendable_value_def txout_value_def CTxOut_IsNull_def CTxOut_null_def)
  then show "coins_value (CCoins_of tx h) = spendable_value (vout tx)" using assms sum_trim [of "map ?f (vout tx)"] by (simp add: coins_value_def c)
  have "\<forall>w\<in>set (map ?f (vout tx)). 0 \<le> txout_value w" using assms by (auto simp: txout_value_def CTxOut_null_def CTxOut_IsNull_def)
  then show "\<forall>v\<in>set (c_vout (CCoins_of tx h)). 0 \<le> txout_value v" unfolding c by (metis set_dropWhileD set_rev)
qed

lemma GetValueOut_sum:
  assumes "GetValueOut tx = Inr n"
  shows "n = (\<Sum>v\<leftarrow>vout tx. out_value v)"
proof -
  define f where "f = (\<lambda>(txout :: CTxOut) nValueOut. bindE (i64 (nValueOut + out_value txout)) (\<lambda>nValueOut.
    if \<not> MoneyRange (out_value txout) \<or> \<not> MoneyRange nValueOut then Inl InvalidData else Inr nValueOut))"
  have "n' = n + (\<Sum>v\<leftarrow>vs. out_value v)" if "foldE f vs n = Inr n'" for vs n n'
    using that
  proof (induction vs arbitrary: n)
    case (Cons v vs)
    then obtain m where "f v n = Inr m" "foldE f vs m = Inr n'" by (auto simp: bindE_eq_Inr)
    with Cons.IH [of m] show ?case by (auto simp: f_def bindE_eq_Inr split: if_splits)
  qed simp
  from this [of "vout tx" 0 n] assms show ?thesis by (simp add: GetValueOut_def f_def)
qed

text \<open>What a transaction does to the sum of coins and collected fees.\<close>

definition tx_balance :: "CTransaction \<Rightarrow> int" where
  "tx_balance tx = (if IsCoinBase tx then spendable_value (vout tx) else - unspendable_value (vout tx))"

definition tx_sound :: "CTransaction \<Rightarrow> bool" where
  "tx_sound tx \<longleftrightarrow> distinct (map prevout (vin tx)) \<and> (\<forall>v\<in>set (vout tx). 0 \<le> out_value v)"

section \<open>Reading the inputs\<close>

text \<open>An operation that only looks at coins leaves the state of the view as it is.\<close>

context coins_view
begin

definition same_view :: "'v coins_cache \<Rightarrow> 'v coins_cache \<Rightarrow> bool" where
  "same_view c c' \<longleftrightarrow> cache_state coins c' = cache_state coins c \<and> cache_best best c' = cache_best best c"

lemma same_view_refl [simp]: "same_view c c"
  by (simp add: same_view_def)

lemma same_view_trans [trans]: "same_view a b \<Longrightarrow> same_view b c \<Longrightarrow> same_view a c"
  by (simp add: same_view_def)

lemma cache_ref_same:
  assumes "cache_ref get c h = Inr (c', x)"
  shows "same_view c c'" and "live (Some x) = cache_state coins c h"
  using assms cache_get [of c h c' "Some x"] by (auto simp: cache_ref_def Fetch_get same_view_def split: prod.splits option.splits)

lemma cache_have_same: "cache_HaveCoins get c h = (c', b) \<Longrightarrow> same_view c c'"
  using cache_have by (simp add: same_view_def)

lemma cache_best_same: "cache_GetBestBlock bbest c = (c', b) \<Longrightarrow> same_view c c'"
  using cache_get_best by (simp add: same_view_def)

lemma GetOutputFor_state:
  assumes "GetOutputFor get txin c = Inr (c', v)"
  shows "same_view c c'" and "output_of (cache_state coins c) (prevout txin) = Some v"
proof -
  obtain x where x: "cache_ref get c (op_hash (prevout txin)) = Inr (c', x)" "IsAvailable x (unat (op_n (prevout txin)))"
    "v = c_vout x ! unat (op_n (prevout txin))" using assms by (auto simp: GetOutputFor_def bindE_eq_Inr split: if_splits)
  have "\<not> IsPruned x" using x(2) by (auto simp: IsAvailable_def IsPruned_def)
  then show "same_view c c'" "output_of (cache_state coins c) (prevout txin) = Some v"
    using cache_ref_same [OF x(1)] x(2,3) by (simp_all add: output_of_def flip: cache_ref_same(2) [OF x(1)])
qed

lemma foldE_same_view:
  assumes "foldE f xs (c, r) = Inr (c', r')" and "\<And>x c r c' r'. f x (c, r) = Inr (c', r') \<Longrightarrow> same_view c c'"
  shows "same_view c c'"
  using assms(1)
proof (induction xs arbitrary: c r)
  case (Cons x xs)
  then obtain c1 r1 where "f x (c, r) = Inr (c1, r1)" "foldE f xs (c1, r1) = Inr (c', r')" by (auto simp: bindE_eq_Inr)
  with assms(2) Cons.IH same_view_trans show ?case by blast
qed simp

lemma value_in_state:
  assumes "foldE (value_in_step get) ins (c, n) = Inr (c', n')"
  shows "same_view c c'" and "n' = n + (\<Sum>i\<leftarrow>ins. spent_value (cache_state coins c) (prevout i))"
proof -
  show "same_view c c'" using assms
    by (rule foldE_same_view) (auto simp: value_in_step_def bindE_eq_Inr dest: GetOutputFor_state(1))
  show "n' = n + (\<Sum>i\<leftarrow>ins. spent_value (cache_state coins c) (prevout i))" using assms
  proof (induction ins arbitrary: c n)
    case (Cons i ins)
    then obtain c1 n1 where a: "value_in_step get i (c, n) = Inr (c1, n1)" "foldE (value_in_step get) ins (c1, n1) = Inr (c', n')"
      by (auto simp: bindE_eq_Inr)
    from a(1) obtain v where "GetOutputFor get i c = Inr (c1, v)" "n1 = n + out_value v" by (auto simp: value_in_step_def bindE_eq_Inr)
    with a(2) have g: "GetOutputFor get i c = Inr (c1, v)" "foldE (value_in_step get) ins (c1, n + out_value v) = Inr (c', n')" by auto
    with Cons.IH [OF g(2)] GetOutputFor_state [OF g(1)] show ?case by (simp add: same_view_def spent_value_def)
  qed simp
qed

lemma GetValueIn_state:
  assumes "GetValueIn get tx c = Inr (c', n)" and "\<not> IsCoinBase tx"
  shows "same_view c c'" and "n = (\<Sum>i\<leftarrow>vin tx. spent_value (cache_state coins c) (prevout i))"
  using assms value_in_state [of "vin tx" c 0 c' n] by (auto simp: GetValueIn_def)

lemma GetP2SHSigOpCount_same: "GetP2SHSigOpCount get tx c = Inr (c', n) \<Longrightarrow> same_view c c'"
proof -
  assume g: "GetP2SHSigOpCount get tx c = Inr (c', n)"
  have "same_view c c'" if "p2sh_step get i (c, r) = Inr (c', r')" for i c r c' r'
    using that by (auto simp: p2sh_step_def bindE_eq_Inr dest: GetOutputFor_state(1))
  with g show ?thesis unfolding GetP2SHSigOpCount_def using foldE_same_view [of "p2sh_step get"] by (auto split: if_splits)
qed

lemma have_coins_same: "have_coins_loop get ins c = (c', b) \<Longrightarrow> same_view c c'"
proof (induction ins arbitrary: c)
  case (Cons i ins)
  obtain c1 b1 where h: "cache_HaveCoins get c (op_hash (prevout i)) = (c1, b1)" by (cases "cache_HaveCoins get c (op_hash (prevout i))")
  note cache_have_same [OF h]
  also have "same_view c1 c'" using Cons h by (cases b1) auto
  finally show ?case .
qed simp

lemma available_state:
  assumes "available_loop get ins c = Inr (c', b)"
  shows "same_view c c'" and "b \<Longrightarrow> \<forall>i\<in>set ins. output_of (cache_state coins c) (prevout i) \<noteq> None"
proof -
  have "same_view c c' \<and> (b \<longrightarrow> (\<forall>i\<in>set ins. output_of (cache_state coins c) (prevout i) \<noteq> None))" using assms
  proof (induction ins arbitrary: c)
    case (Cons i ins)
    then obtain c1 x where r: "cache_ref get c (op_hash (prevout i)) = Inr (c1, x)" by (auto simp: bindE_eq_Inr)
    note s = cache_ref_same [OF r]
    show ?case
    proof (cases "IsAvailable x (unat (op_n (prevout i)))")
      case True
      then have "\<not> IsPruned x" by (auto simp: IsAvailable_def IsPruned_def)
      with True s(2) have "output_of (cache_state coins c) (prevout i) \<noteq> None" by (auto simp: output_of_def simp flip: s(2))
      moreover have "same_view c1 c' \<and> (b \<longrightarrow> (\<forall>i\<in>set ins. output_of (cache_state coins c1) (prevout i) \<noteq> None))"
        using Cons.prems True r by (intro Cons.IH) simp
      ultimately show ?thesis using s(1) by (auto simp: same_view_def)
    next
      case False
      then show ?thesis using Cons.prems r s(1) by simp
    qed
  qed simp
  then show "same_view c c'" and "b \<Longrightarrow> \<forall>i\<in>set ins. output_of (cache_state coins c) (prevout i) \<noteq> None" by blast+
qed

lemma HaveInputs_state:
  assumes "HaveInputs get tx c = Inr (c', b)"
  shows "same_view c c'" and "b \<Longrightarrow> \<not> IsCoinBase tx \<Longrightarrow> \<forall>i\<in>set (vin tx). output_of (cache_state coins c) (prevout i) \<noteq> None"
proof -
  obtain c1 b1 where h: "have_coins_loop get (vin tx) c = (c1, b1)" by (cases "have_coins_loop get (vin tx) c")
  note s1 = have_coins_same [OF h]
  have a: "same_view c1 c'" "b \<Longrightarrow> \<forall>i\<in>set (vin tx). output_of (cache_state coins c1) (prevout i) \<noteq> None" if "\<not> IsCoinBase tx"
    using assms that h available_state [of "vin tx" c1 c' b] by (auto simp: HaveInputs_def split: bool.splits)
  show "same_view c c'" using a(1) s1 assms same_view_trans by (cases "IsCoinBase tx") (auto simp: HaveInputs_def)
  show "\<forall>i\<in>set (vin tx). output_of (cache_state coins c) (prevout i) \<noteq> None" if b "\<not> IsCoinBase tx"
    using a(2) that s1 by (simp add: same_view_def)
qed

lemma check_values_same: "check_values get m h ins c n = Inr (c', n', v) \<Longrightarrow> same_view c c'"
proof (induction ins arbitrary: c n)
  case (Cons i ins)
  then obtain c1 x where r: "cache_ref get c (op_hash (prevout i)) = Inr (c1, x)" by (auto simp: bindE_eq_Inr)
  note cache_ref_same(1) [OF r]
  also have "same_view c1 c'" using Cons.prems Cons.IH r by (auto simp: bindE_eq_Inr split: if_splits)
  finally show ?case .
qed simp

lemma check_scripts_same: "check_scripts get verify th fl tx ins c ch = Inr (c', ch', v) \<Longrightarrow> same_view c c'"
proof (induction ins arbitrary: c ch)
  case (Cons a ins)
  obtain n i where a: "a = (n, i)" by (cases a)
  from Cons.prems obtain c1 x where r: "cache_ref get c (op_hash (prevout i)) = Inr (c1, x)" by (auto simp: bindE_eq_Inr a)
  note cache_ref_same(1) [OF r]
  also have "same_view c1 c'" using Cons.prems Cons.IH r by (auto simp: bindE_eq_Inr Let_def a split: if_splits)
  finally show ?case .
qed simp

lemma check_amounts_state:
  assumes "check_amounts get env tx fs fl th h c = Inr (c', ch, v)"
  shows "same_view c c'"
proof -
  obtain c1 n w where cv: "check_values get (COINBASE_MATURITY env) h (vin tx) c 0 = Inr (c1, n, w)"
    using assms by (auto simp: check_amounts_def bindE_eq_Inr)
  note check_values_same [OF cv]
  also have "same_view c1 c'"
  proof (cases "c' = c1")
    case False
    then have "check_scripts get (VerifyScript env) th fl tx (zip [0..<length (vin tx)] (vin tx)) c1 [] = Inr (c', ch, v)"
      using assms by (simp add: check_amounts_def cv bindE_eq_Inr split: if_splits) (auto split: if_splits)
    then show ?thesis by (rule check_scripts_same)
  qed simp
  finally show ?thesis .
qed

lemma CheckInputs_same:
  assumes "CheckInputs get bbest env tx c fs fl th = Inr (c', ch, v)"
  shows "same_view c c'"
proof (cases "IsCoinBase tx")
  case True
  then show ?thesis using assms by (simp add: CheckInputs_def)
next
  case False
  with assms obtain c1 h where h: "HaveInputs get tx c = Inr (c1, h)" by (auto simp: CheckInputs_def bindE_eq_Inr)
  obtain c2 b where b: "cache_GetBestBlock bbest c1 = (c2, b)" by (cases "cache_GetBestBlock bbest c1")
  note HaveInputs_state(1) [OF h]
  also have "same_view c1 c'"
  proof (cases h)
    case True
    with assms h b False obtain sh where "check_amounts get env tx fs fl th sh c2 = Inr (c', ch, v)"
      by (auto simp: CheckInputs_def bindE_eq_Inr split: option.splits)
    from check_amounts_state [OF this] cache_best_same [OF b] show ?thesis by (metis same_view_trans)
  qed (use assms h False in \<open>simp add: CheckInputs_def\<close>)
  finally show ?thesis .
qed

lemma overwrites_same: "overwrites get hs c = Inr (c', b) \<Longrightarrow> same_view c c'"
proof (induction hs arbitrary: c)
  case (Cons h hs)
  obtain c1 b1 where hv: "cache_HaveCoins get c h = (c1, b1)" by (cases "cache_HaveCoins get c h")
  note cache_have_same [OF hv]
  also have "same_view c1 c'"
  proof (cases b1)
    case True
    with Cons.prems hv obtain c2 x where r: "cache_ref get c1 h = Inr (c2, x)" by (auto simp: bindE_eq_Inr)
    note cache_ref_same(1) [OF r]
    also have "same_view c2 c'" using Cons.prems Cons.IH r hv True by (auto split: if_splits)
    finally show ?thesis .
  next
    case False
    then show ?thesis using Cons hv by simp
  qed
  finally show ?case .
qed simp

section \<open>Spending the inputs\<close>

lemma spend_inputs_total:
  assumes "foldE (spend_input get) ins (c, us) = Inr (c', us')" and "coins_sound (cache_state coins c)" and "distinct (map prevout ins)"
  shows "coins_total (cache_state coins c') = coins_total (cache_state coins c) - (\<Sum>i\<leftarrow>ins. spent_value (cache_state coins c) (prevout i))
    \<and> coins_sound (cache_state coins c')"
  using assms
proof (induction ins arbitrary: c us)
  case (Cons i ins)
  let ?A = "cache_state coins c" and ?p = "prevout i"
  from Cons.prems(1) obtain c1 us1 where s: "spend_input get i (c, us) = Inr (c1, us1)" and r: "foldE (spend_input get) ins (c1, us1) = Inr (c', us')"
    by (auto simp: bindE_eq_Inr)
  from s obtain x x' u where x: "?A (op_hash ?p) = Some x" "Spend x ?p = Some (x', u)"
    and A1: "cache_state coins c1 = ?A(op_hash ?p := live (Some x'))" by (rule spend_input_state)
  note sp = coins_value_Spend [OF x(2)]
  have "spent_value ?A ?p = out_value (c_vout x ! unat (op_n ?p))"
    using x(1) Spend_Some(1,2) [OF x(2)] by (simp add: spent_value_def output_of_def IsAvailable_def)
  moreover have "coins_total (cache_state coins c1) = coins_total ?A - coins_value x + coins_value x'"
    using Cons.prems(2) coins_total_upd [of ?A "op_hash ?p" x'] by (simp add: A1 x(1) coins_sound_def)
  ultimately have t: "coins_total (cache_state coins c1) = coins_total ?A - spent_value ?A ?p" using sp(1) by simp
  have "x \<in> ran ?A" using x(1) by (rule ranI)
  then have "\<forall>v\<in>set (c_vout x'). 0 \<le> txout_value v" using sp(2) Cons.prems(2) by (auto simp: coins_sound_def)
  then have s1: "coins_sound (cache_state coins c1)" unfolding A1 by (rule coins_sound_upd [OF Cons.prems(2)])
  have "spent_value (cache_state coins c1) (prevout j) = spent_value ?A (prevout j)" if "j \<in> set ins" for j
  proof -
    have "prevout j \<noteq> ?p" using that Cons.prems(3) by (auto simp: image_iff)
    then show ?thesis using output_of_upd [of ?A ?p x x' u "prevout j"] x by (simp add: spent_value_def A1)
  qed
  then have eq: "(\<Sum>j\<leftarrow>ins. spent_value (cache_state coins c1) (prevout j)) = (\<Sum>j\<leftarrow>ins. spent_value ?A (prevout j))"
    by (intro arg_cong [of _ _ sum_list] map_cong) auto
  from Cons.IH [OF r s1] Cons.prems(3) t eq show ?case by simp
qed simp

lemma UpdateCoins_total:
  assumes "UpdateCoins get tx c h txid = Inr (c', us)" and "coins_sound (cache_state coins c)" and "tx_sound tx"
  shows "coins_total (cache_state coins c') \<le> coins_total (cache_state coins c)
      - (if IsCoinBase tx then 0 else (\<Sum>i\<leftarrow>vin tx. spent_value (cache_state coins c) (prevout i))) + spendable_value (vout tx)
    \<and> coins_sound (cache_state coins c') \<and> cache_best best c' = cache_best best c"
proof -
  obtain c1 where c1: "(if IsCoinBase tx then Inr (c, []) else foldE (spend_input get) (vin tx) (c, [])) = Inr (c1, us)"
    and c': "c' = cache_SetCoins c1 txid (CCoins_of tx h)" using assms(1) by (auto simp: UpdateCoins_def bindE_eq_Inr split: if_splits)
  let ?A = "cache_state coins c" and ?A1 = "cache_state coins c1"
  have A1: "coins_total ?A1 = coins_total ?A - (if IsCoinBase tx then 0 else (\<Sum>i\<leftarrow>vin tx. spent_value ?A (prevout i)))" "coins_sound ?A1"
  proof -
    show "coins_total ?A1 = coins_total ?A - (if IsCoinBase tx then 0 else (\<Sum>i\<leftarrow>vin tx. spent_value ?A (prevout i)))"
      using c1 spend_inputs_total [of "vin tx" c "[]" c1 us] assms(2,3) by (cases "IsCoinBase tx") (simp_all add: tx_sound_def)
    show "coins_sound ?A1"
      using c1 spend_inputs_total [of "vin tx" c "[]" c1 us] assms(2,3) by (cases "IsCoinBase tx") (simp_all add: tx_sound_def)
  qed
  have b: "cache_best best c1 = cache_best best c"
  proof (cases "IsCoinBase tx")
    case False
    have "cache_best best c2 = cache_best best c1" if "foldE (spend_input get) ins (c1, vs) = Inr (c2, us)" for ins c1 vs c2
      using that
    proof (induction ins arbitrary: c1 vs)
      case (Cons i ins)
      then obtain c3 ws where "spend_input get i (c1, vs) = Inr (c3, ws)" "foldE (spend_input get) ins (c3, ws) = Inr (c2, us)" by (auto simp: bindE_eq_Inr)
      with Cons.IH show ?case by (metis spend_input_state)
    qed simp
    with c1 False show ?thesis by simp
  qed (use c1 in simp)
  note v = CCoins_of_value [of tx h]
  have A': "cache_state coins c' = ?A1(txid := live (Some (CCoins_of tx h)))" by (simp add: c' cache_set)
  have "0 \<le> (case ?A1 txid of None \<Rightarrow> 0 | Some y \<Rightarrow> coins_value y)"
  proof (cases "?A1 txid")
    case (Some y)
    then have "y \<in> ran ?A1" by (rule ranI)
    then show ?thesis using A1(2) Some by (auto simp: coins_sound_def coins_value_def intro!: sum_list_nonneg)
  qed simp
  moreover have "coins_total (cache_state coins c') = coins_total ?A1 - (case ?A1 txid of None \<Rightarrow> 0 | Some y \<Rightarrow> coins_value y) + spendable_value (vout tx)"
    using coins_total_upd [of ?A1 txid "CCoins_of tx h"] A1(2) v(1) assms(3) by (simp add: A' coins_sound_def tx_sound_def)
  moreover have "coins_sound (cache_state coins c')" unfolding A' using A1(2) v(2) assms(3) by (intro coins_sound_upd) (simp_all add: tx_sound_def)
  ultimately show ?thesis using A1(1) b by (simp add: c' cache_set)
qed

lemma connect_inputs_state:
  assumes "connect_inputs get bbest env fs st fl tx s = Inr (s', Accept)" and "\<not> IsCoinBase tx"
  shows "same_view (st_view s) (st_view s')" and "st_nFees s' = st_nFees s + (\<Sum>i\<leftarrow>vin tx. spent_value (cache_state coins (st_view s)) (prevout i))
      - (\<Sum>v\<leftarrow>vout tx. out_value v)"
proof -
  from assms(1) obtain c1 where h: "HaveInputs get tx (st_view s) = Inr (c1, True)"
    by (auto simp: connect_inputs_def bindE_eq_Inr Let_def split: if_splits)
  with assms(1) obtain c2 n where p: "(if st then GetP2SHSigOpCount get tx c1 else Inr (c1, 0)) = Inr (c2, n)"
    by (auto simp: connect_inputs_def bindE_eq_Inr Let_def split: if_splits)
  with assms(1) h obtain c3 n1 n2 ch where vi: "GetValueIn get tx c2 = Inr (c3, n1)" and vo: "GetValueOut tx = Inr n2"
    and ci: "CheckInputs get bbest env tx c3 fs fl (nScriptCheckThreads env \<noteq> 0) = Inr (st_view s', ch, Accept)"
    and fees: "st_nFees s' = st_nFees s + (n1 - n2)"
    by (simp add: connect_inputs_def Let_def split: if_splits) (auto simp: bindE_eq_Inr)
  note s1 = HaveInputs_state(1) [OF h]
  have s2: "same_view c1 c2" using p GetP2SHSigOpCount_same by (auto split: if_splits)
  note s3 = GetValueIn_state [OF vi assms(2)]
  show "same_view (st_view s) (st_view s')" using s1 s2 s3(1) CheckInputs_same [OF ci] by (metis same_view_trans)
  have "cache_state coins c2 = cache_state coins (st_view s)" using s1 s2 by (simp add: same_view_def)
  then show "st_nFees s' = st_nFees s + (\<Sum>i\<leftarrow>vin tx. spent_value (cache_state coins (st_view s)) (prevout i)) - (\<Sum>v\<leftarrow>vout tx. out_value v)"
    using fees s3(2) GetValueOut_sum [OF vo] by simp
qed

section \<open>Connecting a block\<close>

lemma connect_tx_supply:
  assumes "connect_tx get bbest env fs st fl h tx txid s = Inr (s', Accept)" and "coins_sound (cache_state coins (st_view s))" and "tx_sound tx"
  shows "coins_total (cache_state coins (st_view s')) + st_nFees s' \<le> coins_total (cache_state coins (st_view s)) + st_nFees s + tx_balance tx
    \<and> coins_sound (cache_state coins (st_view s'))"
proof -
  define s0 where "s0 = s\<lparr>st_nSigOps := st_nSigOps s + GetLegacySigOpCount tx\<rparr>"
  obtain s1 where s1: "(if \<not> IsCoinBase tx then connect_inputs get bbest env fs st fl tx s0 else Inr (s0, Accept)) = Inr (s1, Accept)"
    using assms(1) by (auto simp: connect_tx_def Let_def bindE_eq_Inr s0_def split: if_splits)
  with assms(1) obtain c us where u: "UpdateCoins get tx (st_view s1) h txid = Inr (c, us)" and s': "st_view s' = c" "st_nFees s' = st_nFees s1"
    by (auto simp: connect_tx_def Let_def bindE_eq_Inr simp flip: s0_def split: if_splits)
  have v: "st_view s0 = st_view s" "st_nFees s0 = st_nFees s" by (simp_all add: s0_def)
  show ?thesis
  proof (cases "IsCoinBase tx")
    case True
    then have "s1 = s0" using s1 by simp
    then show ?thesis using UpdateCoins_total [OF u] assms(2,3) v s' True by (simp add: tx_balance_def)
  next
    case False
    then have ci: "connect_inputs get bbest env fs st fl tx s0 = Inr (s1, Accept)" using s1 by simp
    note i = connect_inputs_state [OF ci False, unfolded v]
    have A: "cache_state coins (st_view s1) = cache_state coins (st_view s)" using i(1) by (simp add: same_view_def)
    then have "coins_sound (cache_state coins (st_view s1))" using assms(2) by simp
    from UpdateCoins_total [OF u this assms(3)] A i(2) s' False spendable_split [of "vout tx"]
    show ?thesis by (simp add: tx_balance_def)
  qed
qed

lemma connect_txs_supply:
  assumes "connect_txs get bbest env fs st fl h txs s = Inr (s', Accept)" and "coins_sound (cache_state coins (st_view s))"
    and "\<forall>(tx, i)\<in>set txs. tx_sound tx"
  shows "coins_total (cache_state coins (st_view s')) + st_nFees s'
      \<le> coins_total (cache_state coins (st_view s)) + st_nFees s + (\<Sum>(tx, i)\<leftarrow>txs. tx_balance tx)
    \<and> coins_sound (cache_state coins (st_view s'))"
  using assms
proof (induction txs arbitrary: s)
  case (Cons a txs)
  obtain tx i where a: "a = (tx, i)" by (cases a)
  with Cons.prems(1) obtain s1 where s1: "connect_tx get bbest env fs st fl h tx i s = Inr (s1, Accept)"
    and r: "connect_txs get bbest env fs st fl h txs s1 = Inr (s', Accept)" by (auto simp: bindE_eq_Inr split: if_splits)
  have "tx_sound tx" using Cons.prems(3) a by simp
  note c = connect_tx_supply [OF s1 Cons.prems(2) this]
  with Cons.IH [OF r] Cons.prems(3) a show ?case by auto
qed simp

lemma connect_coins_supply:
  assumes "connect_coins get bbest env just b pindex hasHash view = Inr (Connected view' undo)" and "tx_hashes b = Inr ids"
    and "length ids = length (vtx b)" and "coins_sound (cache_state coins view)" and "\<forall>tx\<in>set (vtx b). tx_sound tx"
  obtains fees cb txs out outs where "vtx b = cb # txs" and "vout cb = out # outs" and "out_value out \<le> nSubsidy (nHeight pindex) + fees"
    and "coins_total (cache_state coins view') + fees \<le> coins_total (cache_state coins view) + (\<Sum>tx\<leftarrow>vtx b. tx_balance tx)"
    and "coins_sound (cache_state coins view')"
proof -
  obtain c1 where over: "(if fEnforceBIP30 hasHash pindex then overwrites get ids view else Inr (view, False)) = Inr (c1, False)"
    using assms(1,2) by (auto simp: connect_coins_def Let_def bindE_eq_Inr split: if_splits)
  have same: "same_view view c1" using over overwrites_same by (auto split: if_splits)
  let ?s0 = "\<lparr>st_view = c1, st_nFees = 0, st_nSigOps = 0, st_vtxundo = [], st_checks = []\<rparr>"
  from assms(1,2) over obtain fs st fl s' cb out where
    t: "connect_txs get bbest env fs st fl (nHeight pindex) (zip (vtx b) ids) ?s0 = Inr (s', Accept)"
    and cb: "vec_at (vtx b) 0 = Inr cb" "vec_at (vout cb) 0 = Inr out" "out_value out \<le> nSubsidy (nHeight pindex) + st_nFees s'"
    and v: "cache_state coins view' = cache_state coins (st_view s')"
    by (simp add: connect_coins_def Let_def) (auto simp: bindE_eq_Inr GetBlockValue_def cache_set_best split: if_splits)
  have z: "\<forall>(tx, i)\<in>set (zip (vtx b) ids). tx_sound tx" using assms(5) by (auto dest: set_zip_leftD)
  have "coins_sound (cache_state coins (st_view ?s0))" using same assms(4) by (simp add: same_view_def)
  note r = connect_txs_supply [OF t this z]
  have "map (\<lambda>(tx, i). tx_balance tx) (zip (vtx b) ids) = map tx_balance (map fst (zip (vtx b) ids))" by (simp add: split_def)
  also have "map fst (zip (vtx b) ids) = vtx b" using assms(3) by simp
  finally have "(\<Sum>(tx, i)\<leftarrow>zip (vtx b) ids. tx_balance tx) = (\<Sum>tx\<leftarrow>vtx b. tx_balance tx)" by simp
  moreover obtain txs where "vtx b = cb # txs" using cb(1) by (cases "vtx b") (auto simp: vec_at_def)
  moreover obtain outs where "vout cb = out # outs" using cb(2) by (cases "vout cb") (auto simp: vec_at_def)
  ultimately show ?thesis using r same v cb(3) by (intro that [of cb txs out outs "st_nFees s'"]) (simp_all add: same_view_def)
qed

lemma flush_coins: "coins (cache_base (Flush bwrite c)) = cache_state coins c"
  by (auto simp: Flush_def write_coins cache_state_def fun_eq_iff)

end

section \<open>Stakes\<close>

text \<open>Every output that pays to the pool carries the mark that keeps it out of the coins.\<close>

definition bets_unspendable :: "byte list \<Rightarrow> CTransaction list \<Rightarrow> bool" where
  "bets_unspendable pool txs \<longleftrightarrow>
     (\<forall>tx\<in>set txs. \<not> IsCoinBase tx \<longrightarrow> (\<forall>v\<in>set (vout tx). IsSendPoolAdress pool (scriptPubKey v) \<longrightarrow> IsUnspendable (scriptPubKey v)))"

lemma lotto_value_unspendable:
  assumes "foldE (lotto_value_step pool tip) vs (n, t) = Inr (n', t')"
    and "\<forall>v\<in>set vs. 0 \<le> out_value v \<and> (IsSendPoolAdress pool (scriptPubKey v) \<longrightarrow> IsUnspendable (scriptPubKey v))"
  shows "n' \<le> n + unspendable_value vs"
  using assms
proof (induction vs arbitrary: n t)
  case (Cons v vs)
  then obtain n1 t1 where s: "lotto_value_step pool tip v (n, t) = Inr (n1, t1)" and r: "foldE (lotto_value_step pool tip) vs (n1, t1) = Inr (n', t')"
    by (auto simp: bindE_eq_Inr)
  have "n1 = n \<or> IsUnspendable (scriptPubKey v) \<and> n1 = n + out_value v"
    using s Cons.prems(2) by (auto simp: lotto_value_step_def GetLottoTxOutType_def bindE_eq_Inr split: if_splits)
  then show ?case using Cons.IH [OF r] Cons.prems(2) by (auto simp: unspendable_value_def)
qed (simp add: unspendable_value_def)

lemma stakes_unspendable:
  assumes "GetLottoValueFromBlock pool tip txs = Inr n" and "bets_unspendable pool txs" and "\<forall>tx\<in>set txs. \<forall>v\<in>set (vout tx). 0 \<le> out_value v"
  shows "n \<le> (\<Sum>tx\<leftarrow>filter (\<lambda>tx. \<not> IsCoinBase tx) txs. unspendable_value (vout tx))"
proof -
  let ?f = "\<lambda>tx val. bindE (GetLottoValueFromTx pool tip tx) (\<lambda>v. i64 (val + v))"
  have "n' \<le> n + (\<Sum>tx\<leftarrow>filter (\<lambda>tx. \<not> IsCoinBase tx) ts. unspendable_value (vout tx))"
    if "foldE ?f ts n = Inr n'" "set ts \<subseteq> set txs" for ts n n'
    using that
  proof (induction ts arbitrary: n)
    case (Cons tx ts)
    then obtain m where m: "GetLottoValueFromTx pool tip tx = Inr m" "foldE ?f ts (n + m) = Inr n'" by (auto simp: bindE_eq_Inr)
    have "m \<le> (if IsCoinBase tx then 0 else unspendable_value (vout tx))"
      using m(1) lotto_value_unspendable [of pool tip "vout tx" 0 NORMAL_STATE m] assms(2,3) Cons.prems(2)
      by (auto simp: GetLottoValueFromTx_def bets_unspendable_def bindE_eq_Inr split: if_splits)
    with Cons.IH [OF m(2)] Cons.prems(2) show ?case by (auto split: if_splits)
  qed simp
  from this [of txs 0 n] assms(1) show ?thesis by (simp add: GetLottoValueFromBlock_def)
qed

section \<open>The supply\<close>

abbreviation view_state :: "coins_db coins_cache coins_cache \<Rightarrow> (u256 \<rightharpoonup> CCoins)" where
  "view_state \<equiv> cache_state (cache_state db_state)"

text \<open>\<open>ConnectBlock\<close> on a cache over \<open>pcoinsTip\<close>.\<close>

abbreviation ConnectBlock_tip where
  "ConnectBlock_tip \<equiv> ConnectBlock (cache_GetCoins db_GetCoins) (cache_GetBestBlock db_GetBestBlock)"

lemma block_update_simps [simp]:
  "CBlockHeader_GetHash f (b\<lparr>vMerkleTree := t\<rparr>) = CBlockHeader_GetHash f b"
  by (simp add: CBlockHeader_GetHash_def ser_CBlockHeader_def Let_def)

lemma tx_balance_sum:
  assumes "IsCoinBase cb" and "\<forall>tx\<in>set txs. \<not> IsCoinBase tx"
  shows "(\<Sum>tx\<leftarrow>cb # txs. tx_balance tx) = spendable_value (vout cb) - (\<Sum>tx\<leftarrow>filter (\<lambda>tx. \<not> IsCoinBase tx) (cb # txs). unspendable_value (vout tx))"
proof -
  have "(\<Sum>tx\<leftarrow>txs. tx_balance tx) = - (\<Sum>tx\<leftarrow>filter (\<lambda>tx. \<not> IsCoinBase tx) txs. unspendable_value (vout tx))"
    using assms(2) by (induction txs) (auto simp: tx_balance_def)
  then show ?thesis using assms(1) by (simp add: tx_balance_def)
qed

lemma connect_supply:
  assumes conn: "ConnectBlock_tip env fuel b pindex hasHash view just = Some (Inr (Connected view' undo))"
    and gen: "CBlockHeader_GetHash (env_Hash9 (cn_chain env)) b \<noteq> HashGenesisBlock (cn_chain env)"
    and sound: "coins_sound (view_state view)" and bets: "bets_unspendable (poolKeyId (cn_chain env)) (vtx b)"
  obtains idx pre where "mapBlockIndex (cn_chain env) (hashPrevBlock b) = Some idx" and "ReadBlockFromDisk (cn_chain env) (diskPos idx) = Some pre"
    and "coins_total (view_state view') + llPool (lottoHeader b)
      \<le> coins_total (view_state view) + llPool (lottoHeader pre) + nSubsidy (nHeight pindex)"
    and "coins_sound (view_state view')"
proof -
  let ?c = "cn_chain env"
  from conn obtain b' where cb: "CheckBlock ?c (bnProofOfWorkLimit env) (GetAdjustedTime env) b (\<not> just) (\<not> just) = Inr (b', Accept)"
    by (auto simp: ConnectBlock_def split: sum.splits prod.splits if_splits)
  note ck = CheckBlock_Accept [OF cb]
  have b': "vtx b' = vtx b" "lottoHeader b' = lottoHeader b" "hashPrevBlock b' = hashPrevBlock b" by (simp_all add: ck(1))
  obtain view1 best where bb: "cache_GetBestBlock (cache_GetBestBlock db_GetBestBlock) view = (view1, best)"
    by (cases "cache_GetBestBlock (cache_GetBestBlock db_GetBestBlock) view")
  have view1: "view_state view1 = view_state view" using tip.cache_get_best [OF bb] by simp
  have genb: "CBlockHeader_GetHash (env_Hash9 ?c) b' \<noteq> HashGenesisBlock ?c" using gen by (simp add: ck(1))
  from conn have lotto: "CheckLottoResult ?c fuel b' = Some (Inr Accept)"
    by (auto simp: ConnectBlock_def cb split: sum.splits option.splits if_splits)
  from conn have coins: "connect_coins (cache_GetCoins db_GetCoins) (cache_GetBestBlock db_GetBestBlock) env just b' pindex hasHash view1 = Inr (Connected view' undo)"
    using genb by (auto simp: ConnectBlock_def cb lotto bb Let_def split: if_splits)
  have txs: "\<forall>tx\<in>set (vtx b). tx_sound tx" using ck(6) by (simp add: CheckTransaction_Accept tx_sound_def)
  obtain fees c txs out outs where t: "vtx b = c # txs" "vout c = out # outs" "out_value out \<le> nSubsidy (nHeight pindex) + fees"
    "coins_total (view_state view') + fees \<le> coins_total (view_state view) + (\<Sum>tx\<leftarrow>vtx b. tx_balance tx)" "coins_sound (view_state view')"
    by (rule tip.connect_coins_supply [OF coins ck(2)]) (use sound txs in \<open>simp_all add: view1 b'\<close>)
  from CheckLottoResult_Accept [OF lotto genb] obtain idx pre where p: "mapBlockIndex ?c (hashPrevBlock b) = Some idx"
    "ReadBlockFromDisk ?c (diskPos idx) = Some pre" "check_pool ?c fuel b' idx pre = Some (Inr Accept)" unfolding b' by blast
  from check_pool_conserves [OF p(3)] obtain stakes where s: "GetLottoValueFromBlock (poolKeyId ?c) (tip_height ?c) (vtx b) = Inr stakes"
    "llPool (lottoHeader b) = llPool (lottoHeader pre) + stakes - (\<Sum>v\<leftarrow>outs. out_value v)"
    by (auto simp: b' coinbase_rewards_def t(1,2))
  have "stakes \<le> (\<Sum>tx\<leftarrow>filter (\<lambda>tx. \<not> IsCoinBase tx) (vtx b). unspendable_value (vout tx))"
    by (rule stakes_unspendable [OF s(1) bets]) (use txs in \<open>simp add: tx_sound_def\<close>)
  moreover have "spendable_value (vout c) \<le> out_value out + (\<Sum>v\<leftarrow>outs. out_value v)"
    using spendable_split [of "vout c"] unspendable_nonneg [of "vout c"] txs by (simp add: t(1,2) tx_sound_def)
  moreover have "(\<Sum>tx\<leftarrow>vtx b. tx_balance tx) = spendable_value (vout c) - (\<Sum>tx\<leftarrow>filter (\<lambda>tx. \<not> IsCoinBase tx) (vtx b). unspendable_value (vout tx))"
    using tx_balance_sum [of c txs] ck(4,5) by (simp add: t(1))
  ultimately show ?thesis using t(3,4,5) s(2) p by (intro that [of idx pre]) simp_all
qed

text \<open>C2: Connecting a block creates no money beyond its subsidy. If every bet of the block carries the mark that keeps it out of the
  coins, then the value of all coins plus the lottery pool after \<open>ConnectBlock\<close> is at most what it was before plus the
  subsidy of the height, with fees, stakes and prizes accounted for.\<close>

theorem connected_block_supply:
  assumes "ConnectBlock_tip env fuel b pindex hasHash view just = Some (Inr (Connected view' undo))"
    and "CBlockHeader_GetHash (env_Hash9 (cn_chain env)) b \<noteq> HashGenesisBlock (cn_chain env)"
    and "coins_sound (view_state view)" and "bets_unspendable (poolKeyId (cn_chain env)) (vtx b)"
  shows "\<exists>idx pre. mapBlockIndex (cn_chain env) (hashPrevBlock b) = Some idx \<and> ReadBlockFromDisk (cn_chain env) (diskPos idx) = Some pre
    \<and> coins_total (view_state view') + llPool (lottoHeader b)
      \<le> coins_total (view_state view) + llPool (lottoHeader pre) + nSubsidy (nHeight pindex)"
  using connect_supply [OF assms] by metis

text \<open>A chain of blocks connected one after the other: a cache over \<open>pcoinsTip\<close> for each, flushed when the block is connected. The
  first state is that after the genesis block, whose coinbase is not added to the coins. \<open>n\<close> is the height of the next block.\<close>

inductive connected_chain :: "nat \<Rightarrow> coins_db coins_cache \<Rightarrow> CBlock \<Rightarrow> bool" where
  genesis: "cache_state db_state pcoinsTip = Map.empty \<Longrightarrow> llPool (lottoHeader b) = genesis_llPool \<Longrightarrow> connected_chain 1 pcoinsTip b"
| connect: "connected_chain n pcoinsTip prev \<Longrightarrow> nHeight pindex = int n
    \<Longrightarrow> ConnectBlock_tip env fuel b pindex True (new_cache pcoinsTip) False = Some (Inr (Connected view undo))
    \<Longrightarrow> CBlockHeader_GetHash (env_Hash9 (cn_chain env)) b \<noteq> HashGenesisBlock (cn_chain env)
    \<Longrightarrow> mapBlockIndex (cn_chain env) (hashPrevBlock b) = Some idx \<Longrightarrow> ReadBlockFromDisk (cn_chain env) (diskPos idx) = Some prev
    \<Longrightarrow> bets_unspendable (poolKeyId (cn_chain env)) (vtx b)
    \<Longrightarrow> connected_chain (Suc n) (cache_base (Flush cache_BatchWrite view)) b"

lemma connected_chain_supply:
  assumes "connected_chain n pcoinsTip b"
  shows "1 \<le> n \<and> coins_sound (cache_state db_state pcoinsTip)
    \<and> coins_total (cache_state db_state pcoinsTip) + llPool (lottoHeader b) \<le> genesis_llPool + subsidy_sum n"
  using assms
proof induction
  case (genesis pcoinsTip b)
  then show ?case by (simp add: coins_sound_def coins_total_def subsidy_sum_simps(1) del: One_nat_def)
next
  case (connect n pcoinsTip prev pindex env fuel b view undo idx)
  have "coins_sound (view_state (new_cache pcoinsTip))" using connect.IH by (simp add: tip.new_cache_state)
  obtain idx' pre where p: "mapBlockIndex (cn_chain env) (hashPrevBlock b) = Some idx'" "ReadBlockFromDisk (cn_chain env) (diskPos idx') = Some pre"
    and q: "coins_total (view_state view) + llPool (lottoHeader b) \<le> coins_total (view_state (new_cache pcoinsTip)) + llPool (lottoHeader pre) + nSubsidy (nHeight pindex)"
      "coins_sound (view_state view)"
    by (rule connect_supply [OF connect.hyps(3,4) \<open>coins_sound _\<close> connect.hyps(7)])
  have "pre = prev" using p connect.hyps(5,6) by simp
  with q show ?case using connect.IH connect.hyps(2) by (simp add: tip.flush_coins tip.new_cache_state subsidy_sum_simps(2))
qed

text \<open>C3: The money supply is bounded. On every chain of fewer than \<open>2 ^ 31\<close> blocks connected from the genesis state by \<open>ConnectBlock\<close>, all of
  whose outputs to the pool carry the mark that makes them unspendable, the value of all coins and the lottery pool together stay
  below \<open>MAX_MONEY\<close>. \<open>ConnectBlock\<close> itself does not check the mark.\<close>

theorem money_supply_bounded:
  assumes "connected_chain n pcoinsTip b" and "n \<le> 2 ^ 31"
  shows "coins_total (cache_state db_state pcoinsTip) + llPool (lottoHeader b) < MAX_MONEY"
  using connected_chain_supply [OF assms(1)] subsidies_below_MAX_MONEY [of n] assms(2) by linarith

section \<open>Bets without the mark\<close>

lemma collect_nths:
  assumes "foldE (collect_step pool tip) vs (acc, t) = Inr (bets, t')"
  shows "\<exists>I. bets = acc @ nths vs I
    \<and> (\<forall>i<length vs. IsSendPoolAdress pool (scriptPubKey (vs ! i)) \<and> accepted_output (vs ! i) \<longrightarrow> i \<in> I)"
  using assms
proof (induction vs arbitrary: acc t)
  case (Cons v vs)
  then obtain acc1 t1 where s: "collect_step pool tip v (acc, t) = Inr (acc1, t1)"
    and r: "foldE (collect_step pool tip) vs (acc1, t1) = Inr (bets, t')" by (auto simp: bindE_eq_Inr)
  from Cons.IH [OF r] obtain I where I: "bets = acc1 @ nths vs I"
    "\<forall>i<length vs. IsSendPoolAdress pool (scriptPubKey (vs ! i)) \<and> accepted_output (vs ! i) \<longrightarrow> i \<in> I" by blast
  obtain k where k: "acc1 = acc @ (if k then [v] else [])" "IsSendPoolAdress pool (scriptPubKey v) \<and> accepted_output v \<longrightarrow> k"
  proof
    show "acc1 = acc @ (if acc1 \<noteq> acc then [v] else [])" using s by (auto simp: collect_step_def bindE_eq_Inr split: if_splits)
    show "IsSendPoolAdress pool (scriptPubKey v) \<and> accepted_output v \<longrightarrow> acc1 \<noteq> acc"
      using s by (auto simp: collect_step_def accepted_bet_type)
  qed
  let ?J = "(if k then {0} else {}) \<union> Suc ` I"
  have "{j. Suc j \<in> ?J} = I" by auto
  then have "bets = acc @ nths (v # vs) ?J" using I(1) k(1) by (auto simp: nths_Cons)
  moreover have "\<forall>i<length (v # vs). IsSendPoolAdress pool (scriptPubKey ((v # vs) ! i)) \<and> accepted_output ((v # vs) ! i) \<longrightarrow> i \<in> ?J"
    using I(2) k(2) by (auto simp: nth_Cons split: nat.splits)
  ultimately show ?case by blast
qed simp

lemma unspendable_nths: "unspendable_value vs = unspendable_value (nths vs I) + unspendable_value (nths vs (- I))"
proof (induction vs arbitrary: I)
  case (Cons v vs)
  have "{j. Suc j \<in> - I} = - {j. Suc j \<in> I}" by auto
  with Cons.IH [of "{j. Suc j \<in> I}"] show ?case by (auto simp: nths_Cons unspendable_value_def)
qed (simp add: unspendable_value_def)

lemma trim_keeps:
  assumes "i < length vs" and "\<not> CTxOut_IsNull (vs ! i)"
  shows "i < length (trim vs)"
proof (rule ccontr)
  assume "\<not> i < length (trim vs)"
  then have "vs ! i \<in> set (rev (takeWhile CTxOut_IsNull (rev vs)))"
    using assms(1) trim_append [of vs] by (metis (no_types, lifting) add_diff_inverse_nat length_append nat_add_left_cancel_less nth_append nth_mem)
  with assms(2) show False by (auto dest: set_takeWhileD)
qed

lemma unmarked_output_available:
  assumes "i < length (vout tx)" and "\<not> IsUnspendable (scriptPubKey (vout tx ! i))" and "0 \<le> out_value (vout tx ! i)"
  shows "IsAvailable (CCoins_of tx h) i \<and> c_vout (CCoins_of tx h) ! i = vout tx ! i"
proof -
  let ?f = "\<lambda>v. if IsUnspendable (scriptPubKey v) then CTxOut_null else v"
  have c: "c_vout (CCoins_of tx h) = trim (map ?f (vout tx))" by (simp add: CCoins_of_def ClearUnspendable_def Cleanup_def)
  have n: "\<not> CTxOut_IsNull (map ?f (vout tx) ! i)" "map ?f (vout tx) ! i = vout tx ! i" using assms by (simp_all add: CTxOut_IsNull_def)
  have "i < length (trim (map ?f (vout tx)))" by (rule trim_keeps [OF _ n(1)]) (use assms(1) in simp)
  from this trim_nth [OF this] show ?thesis using n unfolding IsAvailable_def c by simp
qed

text \<open>C31: The mark is not enforced. Take any transaction other than a coinbase with amounts that are not negative and stakes that do not overflow, and an
  output of it that is an accepted bet to the pool but does not start with the mark. The output is among those that are counted as
  stakes, and it is also kept among the coins, where it can be spent. The new coins and the stakes of the transaction together
  exceed the total of its outputs by the amounts of all counted outputs without the mark, less the unspendable outputs that are not
  counted.\<close>

theorem unmarked_bet_counts_twice:
  assumes "\<not> IsCoinBase tx" and "GetLottoValueFromTx pool tip tx = Inr stakes" and "\<forall>v\<in>set (vout tx). 0 \<le> out_value v"
    and "i < length (vout tx)" and "IsSendPoolAdress pool (scriptPubKey (vout tx ! i))" and "accepted_output (vout tx ! i)"
    and "\<not> IsUnspendable (scriptPubKey (vout tx ! i))"
  shows "\<exists>I. i \<in> I \<and> collect_tx pool tip tx [] = Inr (nths (vout tx) I) \<and> stakes = sum_list (map out_value (nths (vout tx) I))
    \<and> IsAvailable (CCoins_of tx h) i \<and> c_vout (CCoins_of tx h) ! i = vout tx ! i
    \<and> coins_value (CCoins_of tx h) + stakes = sum_list (map out_value (vout tx))
        + spendable_value (nths (vout tx) I) - unspendable_value (nths (vout tx) (- I))"
proof -
  from collect_value_tx [OF assms(2)] obtain bets where b: "collect_tx pool tip tx [] = Inr bets" "stakes = sum_list (map out_value bets)" by auto
  with assms(1) obtain t where "foldE (collect_step pool tip) (vout tx) ([], NORMAL_STATE) = Inr (bets, t)"
    by (auto simp: collect_tx_def bindE_eq_Inr)
  from collect_nths [OF this] assms(4-6) obtain I where I: "bets = nths (vout tx) I" "i \<in> I" by auto
  have "coins_value (CCoins_of tx h) = spendable_value (vout tx)" by (rule CCoins_of_value(1) [OF assms(3)])
  with b(2) I(1) spendable_split [of "vout tx"] spendable_split [of "nths (vout tx) I"] unspendable_nths [of "vout tx" I]
  have "coins_value (CCoins_of tx h) + stakes = sum_list (map out_value (vout tx))
    + spendable_value (nths (vout tx) I) - unspendable_value (nths (vout tx) (- I))" by simp
  moreover have "IsAvailable (CCoins_of tx h) i \<and> c_vout (CCoins_of tx h) ! i = vout tx ! i"
    by (rule unmarked_output_available [OF assms(4,7)]) (use assms(3,4) in simp)
  ultimately show ?thesis using b I by (intro exI [of _ I]) simp
qed

theorem unmarked_bet_counts_twice_witness:
  "GetLottoValueFromTx toy_pool 5000 (toy_bet_tx [toy_bet_out]) = Inr 700001 \<and> IsAvailable (CCoins_of (toy_bet_tx [toy_bet_out]) 1) 0
    \<and> coins_value (CCoins_of (toy_bet_tx [toy_bet_out]) 1) + 700001 = 700001 + 700001"
proof -
  have m: "\<not> IsUnspendable (scriptPubKey toy_bet_out)" by code_simp
  have v: "vout (toy_bet_tx [toy_bet_out]) = [toy_bet_out]" "out_value toy_bet_out = 700001" by (simp_all add: toy_bet_tx_def toy_bet_out_def)
  from unmarked_bet_counts_twice [OF toy_bet_tx_facts(4,8), of 0 1] m v toy_bet_tx_facts(7,9)
  obtain I where I: "0 \<in> I" "IsAvailable (CCoins_of (toy_bet_tx [toy_bet_out]) 1) 0"
    "coins_value (CCoins_of (toy_bet_tx [toy_bet_out]) 1) + 700001 = 700001
      + spendable_value (nths [toy_bet_out] I) - unspendable_value (nths [toy_bet_out] (- I))" by auto
  then have "spendable_value (nths [toy_bet_out] I) = 700001" "unspendable_value (nths [toy_bet_out] (- I)) = 0"
    using m v by (simp_all add: nths_singleton spendable_value_def unspendable_value_def)
  with I toy_bet_tx_facts(8) show ?thesis by simp
qed

end
