(* ===== verification/Coins_Chain.thy ===== *)
theory Coins_Chain
  imports Chain_Supply
begin

text \<open>
  The coins after a block as a function of the coins before it (\<open>apply_txs\<close>), with no cache, no undo data and no checks, and the proof that
  connecting a block computes it and that its undo data takes it back.
\<close>

section \<open>The coins after a block\<close>

definition spend_output :: "CTxIn \<Rightarrow> (u256 \<rightharpoonup> CCoins) \<Rightarrow> (u256 \<rightharpoonup> CCoins)" where
  "spend_output txin A = (case A (op_hash (prevout txin)) of
     None \<Rightarrow> A
   | Some x \<Rightarrow> (case Spend x (prevout txin) of None \<Rightarrow> A | Some (x', u) \<Rightarrow> A(op_hash (prevout txin) := live (Some x'))))"

definition apply_tx :: "(CTransaction \<Rightarrow> u256) \<Rightarrow> int \<Rightarrow> CTransaction \<Rightarrow> (u256 \<rightharpoonup> CCoins) \<Rightarrow> (u256 \<rightharpoonup> CCoins)" where
  "apply_tx txid h tx A = (if IsCoinBase tx then A else fold spend_output (vin tx) A)(txid tx := live (Some (CCoins_of tx h)))"

definition apply_txs :: "(CTransaction \<Rightarrow> u256) \<Rightarrow> int \<Rightarrow> CTransaction list \<Rightarrow> (u256 \<rightharpoonup> CCoins) \<Rightarrow> (u256 \<rightharpoonup> CCoins)" where
  "apply_txs txid h txs A = fold (apply_tx txid h) txs A"

lemma connect_state_simps [simp]: "st_view (s\<lparr>st_nSigOps := n\<rparr>) = st_view s" "st_vtxundo (s\<lparr>st_nSigOps := n\<rparr>) = st_vtxundo s"
  by simp_all

context coins_view
begin

text \<open>The effect and the undo data depend on the coins alone.\<close>

lemma spend_inputs_spec:
  assumes "foldE (spend_input get) ins (c, us) = Inr (c', us')" and "cache_state coins d = cache_state coins c"
  shows "cache_state coins c' = fold spend_output ins (cache_state coins c) \<and> (\<exists>d'. foldE (spend_input get) ins (d, us) = Inr (d', us') \<and> cache_state coins d' = cache_state coins c')"
  using assms
proof (induction ins arbitrary: c d us)
  case (Cons i ins)
  from Cons.prems(1) obtain c1 us1 where s: "spend_input get i (c, us) = Inr (c1, us1)" and r: "foldE (spend_input get) ins (c1, us1) = Inr (c', us')"
    by (auto simp: bindE_eq_Inr)
  from s obtain x x' u where x: "cache_state coins c (op_hash (prevout i)) = Some x" "Spend x (prevout i) = Some (x', u)" "us1 = us @ [u]"
    and c1: "cache_state coins c1 = (cache_state coins c)(op_hash (prevout i) := live (Some x'))" by (rule spend_input_state)
  from cache_ref_live [of d] Cons.prems(2) x(1) obtain d0 where d0: "cache_ref get d (op_hash (prevout i)) = Inr (d0, x)" "cache_state coins d0 = cache_state coins c" by auto
  let ?d = "put_ref d0 (op_hash (prevout i)) x'"
  have d1: "spend_input get i (d, us) = Inr (?d, us1)" using d0(1) x(2,3) by (simp add: spend_input_def)
  have "cache_state coins ?d = cache_state coins c1" by (simp add: put_ref_state d0(2) c1)
  note ih = Cons.IH [OF r this]
  have "cache_state coins c1 = spend_output i (cache_state coins c)" using x(1,2) c1 by (simp add: spend_output_def)
  with ih d1 show ?case by auto
qed simp

lemma update_tx_spec:
  assumes "update_tx get txid h tx (c, us) = Inr (c', us')" and "cache_state coins d = cache_state coins c"
  shows "cache_state coins c' = apply_tx txid h tx (cache_state coins c)" "\<exists>d'. update_tx get txid h tx (d, us) = Inr (d', us') \<and> cache_state coins d' = cache_state coins c'"
proof -
  obtain c1 vs where s: "(if \<not> IsCoinBase tx then foldE (spend_input get) (vin tx) (c, []) else Inr (c, [])) = Inr (c1, vs)"
    and c': "c' = cache_SetCoins c1 (txid tx) (CCoins_of tx h)" and us': "us' = us @ (if IsCoinBase tx then [] else [vs])"
    using assms(1) by (auto simp: update_tx_def UpdateCoins_def bindE_eq_Inr split: if_splits)
  have "cache_state coins c1 = (if IsCoinBase tx then cache_state coins c else fold spend_output (vin tx) (cache_state coins c))
    \<and> (\<exists>d1. (if \<not> IsCoinBase tx then foldE (spend_input get) (vin tx) (d, []) else Inr (d, [])) = Inr (d1, vs) \<and> cache_state coins d1 = cache_state coins c1)"
    using s spend_inputs_spec [of "vin tx" c "[]" c1 vs d] assms(2) by (cases "IsCoinBase tx") auto
  then obtain d1 where c1: "cache_state coins c1 = (if IsCoinBase tx then cache_state coins c else fold spend_output (vin tx) (cache_state coins c))"
    and d1: "(if \<not> IsCoinBase tx then foldE (spend_input get) (vin tx) (d, []) else Inr (d, [])) = Inr (d1, vs)" "cache_state coins d1 = cache_state coins c1" by blast
  show "cache_state coins c' = apply_tx txid h tx (cache_state coins c)" by (simp add: c' cache_set c1 apply_tx_def)
  have "update_tx get txid h tx (d, us) = Inr (cache_SetCoins d1 (txid tx) (CCoins_of tx h), us')"
    using d1(1) by (simp add: update_tx_def UpdateCoins_def us')
  then show "\<exists>d'. update_tx get txid h tx (d, us) = Inr (d', us') \<and> cache_state coins d' = cache_state coins c'"
    using d1(2) by (simp add: c' cache_set)
qed

text \<open>The loop of \<open>ConnectBlock\<close> changes the coins as the loop without its checks.\<close>

lemma connect_tx_update:
  assumes "connect_tx get bbest env fs st fl h tx (txid tx) s = Inr (s', Accept)"
  obtains c where "same_view (st_view s) c" and "update_tx get txid h tx (c, st_vtxundo s) = Inr (st_view s', st_vtxundo s')"
proof -
  define s0 where "s0 = s\<lparr>st_nSigOps := st_nSigOps s + GetLegacySigOpCount tx\<rparr>"
  have s0: "st_view s0 = st_view s" "st_vtxundo s0 = st_vtxundo s" by (simp_all add: s0_def)
  obtain s1 where s1: "(if \<not> IsCoinBase tx then connect_inputs get bbest env fs st fl tx s0 else Inr (s0, Accept)) = Inr (s1, Accept)"
    using assms by (auto simp: connect_tx_def Let_def bindE_eq_Inr s0_def split: if_splits)
  with assms obtain c us where u: "UpdateCoins get tx (st_view s1) h (txid tx) = Inr (c, us)"
    and s': "st_view s' = c" "st_vtxundo s' = (if \<not> IsCoinBase tx then st_vtxundo s1 @ [us] else st_vtxundo s1)"
    by (auto simp: connect_tx_def Let_def bindE_eq_Inr simp flip: s0_def split: if_splits)
  have "same_view (st_view s0) (st_view s1)" using s1 connect_inputs_state(1) by (cases "IsCoinBase tx") auto
  moreover have "st_vtxundo s1 = st_vtxundo s0" using s1 by (auto simp: connect_inputs_def bindE_eq_Inr Let_def split: if_splits)
  ultimately show ?thesis using u s' s0 by (intro that [of "st_view s1"]) (simp_all add: update_tx_def)
qed

lemma connect_txs_update:
  assumes "connect_txs get bbest env fs st fl h (zip txs (map txid txs)) s = Inr (s', Accept)" and "cache_state coins d = cache_state coins (st_view s)"
  shows "cache_state coins (st_view s') = apply_txs txid h txs (cache_state coins (st_view s))
    \<and> (\<exists>d'. foldE (update_tx get txid h) txs (d, st_vtxundo s) = Inr (d', st_vtxundo s') \<and> cache_state coins d' = cache_state coins (st_view s'))"
  using assms
proof (induction txs arbitrary: s d)
  case (Cons tx txs)
  then obtain s1 where s1: "connect_tx get bbest env fs st fl h tx (txid tx) s = Inr (s1, Accept)"
    and r: "connect_txs get bbest env fs st fl h (zip txs (map txid txs)) s1 = Inr (s', Accept)" by (auto simp: bindE_eq_Inr split: if_splits)
  from s1 obtain c where c: "same_view (st_view s) c" "update_tx get txid h tx (c, st_vtxundo s) = Inr (st_view s1, st_vtxundo s1)" by (rule connect_tx_update)
  have dc: "cache_state coins d = cache_state coins c" "cache_state coins c = cache_state coins (st_view s)" using Cons.prems(2) c(1) by (simp_all add: same_view_def)
  note u = update_tx_spec [OF c(2) dc(1)]
  from u(2) obtain d1 where d1: "update_tx get txid h tx (d, st_vtxundo s) = Inr (d1, st_vtxundo s1)" "cache_state coins d1 = cache_state coins (st_view s1)" by blast
  from Cons.IH [OF r d1(2)] d1(1) u(1) dc(2) show ?case by (auto simp: apply_txs_def)
qed (simp add: apply_txs_def)

lemma overwrites_fresh: "overwrites get hs c = Inr (c', False) \<Longrightarrow> h \<in> set hs \<Longrightarrow> cache_state coins c h = None"
proof (induction hs arbitrary: c)
  case (Cons g hs)
  obtain c1 b where hv: "cache_HaveCoins get c g = (c1, b)" by (cases "cache_HaveCoins get c g")
  have s1: "cache_state coins c1 = cache_state coins c" "b \<longleftrightarrow> cache_state coins c g \<noteq> None \<or> b" using cache_have [OF hv] by auto
  show ?case
  proof (cases b)
    case True
    with Cons.prems(1) hv obtain c2 x where r: "cache_ref get c1 g = Inr (c2, x)" "IsPruned x" "overwrites get hs c2 = Inr (c', False)"
      by (auto simp: bindE_eq_Inr split: if_splits)
    have "cache_state coins c1 g = None" "cache_state coins c2 = cache_state coins c1" using cache_ref_same [OF r(1)] r(2) by (simp_all add: same_view_def)
    then show ?thesis using Cons.IH [OF r(3)] Cons.prems(2) s1(1) by auto
  next
    case False
    then have "overwrites get hs c1 = Inr (c', False)" using Cons.prems(1) hv by simp
    from Cons.IH [OF this] show ?thesis using False Cons.prems(2) cache_have [OF hv] by auto
  qed
qed simp

lemma connect_coins_state:
  assumes conn: "connect_coins get bbest env False b pindex True view = Inr (Connected view' undo)" and ids: "tx_hashes b = Inr (map txid (vtx b))"
    and txs: "vtx b = cb # txs" "IsCoinBase cb" "\<forall>tx\<in>set txs. \<not> IsCoinBase tx" "distinct (map txid (vtx b))"
      "\<forall>tx\<in>set (vtx b). coins_ok (CCoins_of tx (nHeight pindex))"
    and ok: "coins_map_ok (cache_state coins view)" "fEnforceBIP30 True pindex"
  shows "cache_state coins view' = apply_txs txid (nHeight pindex) (vtx b) (cache_state coins view)" "coins_map_ok (cache_state coins view')"
    "hashBlock view' = phashBlock pindex"
    "cache_state coins d = cache_state coins view' \<Longrightarrow> cache_best best d = hash \<Longrightarrow>
      \<exists>d'. DisconnectBlock get bbest txid (Some undo) (vtx b) (nHeight pindex) hash hashPrev d = Inr (Some (d', True))
        \<and> cache_state coins d' = cache_state coins view \<and> hashBlock d' = hashPrev"
proof -
  obtain c1 where over: "overwrites get (map txid (vtx b)) view = Inr (c1, False)"
    using conn ids ok(2) by (auto simp: connect_coins_def Let_def bindE_eq_Inr split: if_splits)
  have same: "cache_state coins c1 = cache_state coins view" using overwrites_same [OF over] by (simp add: same_view_def)
  let ?s0 = "\<lparr>st_view = c1, st_nFees = 0, st_nSigOps = 0, st_vtxundo = [], st_checks = []\<rparr>"
  from conn ids over ok(2) obtain fs st fl s' where
    t: "connect_txs get bbest env fs st fl (nHeight pindex) (zip (vtx b) (map txid (vtx b))) ?s0 = Inr (s', Accept)"
    and v: "view' = cache_SetBestBlock (st_view s') (phashBlock pindex)" "undo = st_vtxundo s'"
    by (simp add: connect_coins_def Let_def) (auto simp: bindE_eq_Inr split: if_splits)
  from connect_txs_update [OF t, of view] same obtain d' where
    a: "cache_state coins (st_view s') = apply_txs txid (nHeight pindex) (vtx b) (cache_state coins view)"
    and d': "foldE (update_tx get txid (nHeight pindex)) (vtx b) (view, []) = Inr (d', undo)" "cache_state coins d' = cache_state coins (st_view s')"
    by (auto simp: v(2))
  have v': "cache_state coins view' = cache_state coins (st_view s')" by (simp add: v(1) cache_set_best)
  have fresh: "\<forall>tx\<in>set (cb # txs). cache_state coins view (txid tx) = None \<and> coins_ok (CCoins_of tx (nHeight pindex))"
    using overwrites_fresh [OF over] txs(1,5) by auto
  show "cache_state coins view' = apply_txs txid (nHeight pindex) (vtx b) (cache_state coins view)" by (simp add: v' a)
  show "hashBlock view' = phashBlock pindex" by (simp add: v(1) cache_SetBestBlock_def)
  show "coins_map_ok (cache_state coins view')"
    using update_txs_state [OF d'(1) [unfolded txs(1)] ok(1) txs(4) [unfolded txs(1)] fresh] v' d'(2) by auto
  show "\<exists>d'. DisconnectBlock get bbest txid (Some undo) (vtx b) (nHeight pindex) hash hashPrev d = Inr (Some (d', True))
        \<and> cache_state coins d' = cache_state coins view \<and> hashBlock d' = hashPrev"
    if "cache_state coins d = cache_state coins view'" "cache_best best d = hash"
    unfolding txs(1) by (rule disconnect_state [OF d'(1) [unfolded txs(1)] txs(2,3) ok(1) txs(4) [unfolded txs(1)] fresh]) (use that v' d'(2) in simp_all)
qed

end

section \<open>Blocks\<close>

lemma ser_vector_length: "\<forall>x\<in>set xs. 0 < length (f x) \<Longrightarrow> length xs \<le> length (ser_vector f xs)"
proof -
  assume "\<forall>x\<in>set xs. 0 < length (f x)"
  then have "length xs \<le> length (concat (map f xs))" 
  proof (induction xs)
    case (Cons a xs)
    then have "0 < length (f a)" "length xs \<le> length (concat (map f xs))" by simp_all
    then show ?case by (simp del: length_greater_0_conv)
  qed simp
  then show "length xs \<le> length (ser_vector f xs)" by (simp add: ser_vector_def)
qed

lemma checked_coins_ok:
  assumes "CheckTransaction tx = Inr Accept" and "0 < h" and "h < 2 ^ 31"
  shows "coins_ok (CCoins_of tx h)"
proof (rule CCoins_of_ok [OF _ _ assms(2,3)])
  have a: "length (ser_CTransaction tx) \<le> MAX_BLOCK_SIZE" "\<forall>v\<in>set (vout tx). 0 \<le> out_value v" using assms(1) by (simp_all add: CheckTransaction_Accept)
  then show "\<forall>v\<in>set (vout tx). 0 \<le> out_value v" by simp
  have "length (vout tx) \<le> length (ser_vector ser_CTxOut (vout tx))" by (rule ser_vector_length) (simp add: ser_CTxOut_def ser_int64_def ser_word_def ser_uint_def le_bytes_def)
  also have "\<dots> \<le> length (ser_CTransaction tx)" by (simp add: ser_CTransaction_def)
  finally show "length (vout tx) < 2 ^ 32" using a(1) by (simp add: MAX_BLOCK_SIZE_def)
qed

text \<open>What \<open>ConnectBlock\<close> does to the coins, and what its undo data does.\<close>

lemma connect_block_state:
  assumes conn: "ConnectBlock_tip env fuel b pindex True view False = Some (Inr (Connected view' undo))"
    and gen: "CBlockHeader_GetHash (env_Hash9 (cn_chain env)) b \<noteq> HashGenesisBlock (cn_chain env)"
    and ok: "coins_map_ok (view_state view)" "fEnforceBIP30 True pindex" and h: "0 < nHeight pindex" "nHeight pindex < 2 ^ 31"
  defines "txid \<equiv> CTransaction_GetHash (env_sha (cn_chain env))"
  shows "view_state view' = apply_txs txid (nHeight pindex) (vtx b) (view_state view)" "coins_map_ok (view_state view')" "hashBlock view' = phashBlock pindex"
    "view_state d = view_state view' \<Longrightarrow> cache_best (cache_best db_best_state) d = hash \<Longrightarrow>
      \<exists>d'. DisconnectBlock (cache_GetCoins db_GetCoins) (cache_GetBestBlock db_GetBestBlock) txid (Some undo) (vtx b) (nHeight pindex) hash hashPrev d
        = Inr (Some (d', True)) \<and> view_state d' = view_state view \<and> hashBlock d' = hashPrev"
proof -
  let ?c = "cn_chain env"
  from conn obtain b' where cb: "CheckBlock ?c (bnProofOfWorkLimit env) (GetAdjustedTime env) b True True = Inr (b', Accept)"
    by (auto simp: ConnectBlock_def split: sum.splits prod.splits if_splits)
  note ck = CheckBlock_Accept [OF cb]
  have b': "vtx b' = vtx b" by (simp add: ck(1))
  obtain view1 best where bb: "cache_GetBestBlock (cache_GetBestBlock db_GetBestBlock) view = (view1, best)"
    by (cases "cache_GetBestBlock (cache_GetBestBlock db_GetBestBlock) view")
  have view1: "view_state view1 = view_state view" using tip.cache_get_best [OF bb] by simp
  have genb: "CBlockHeader_GetHash (env_Hash9 ?c) b' \<noteq> HashGenesisBlock ?c" using gen by (simp add: ck(1))
  from conn have lotto: "CheckLottoResult ?c fuel b' = Some (Inr Accept)"
    by (auto simp: ConnectBlock_def cb split: sum.splits option.splits if_splits)
  from conn have coins: "connect_coins (cache_GetCoins db_GetCoins) (cache_GetBestBlock db_GetBestBlock) env False b' pindex True view1 = Inr (Connected view' undo)"
    using genb by (auto simp: ConnectBlock_def cb lotto bb Let_def split: if_splits)
  obtain c txs where v: "vtx b = c # txs" using ck(3) by (cases "vtx b") auto
  note r = tip.connect_coins_state [OF coins, where txid = txid and cb = c and txs = txs]
  have pre: "tx_hashes b' = Inr (map txid (vtx b'))" "vtx b' = c # txs" "IsCoinBase c" "\<forall>tx\<in>set txs. \<not> IsCoinBase tx" "distinct (map txid (vtx b'))"
    "\<forall>tx\<in>set (vtx b'). coins_ok (CCoins_of tx (nHeight pindex))" "coins_map_ok (view_state view1)"
    using ck(2,4-7) v checked_coins_ok h ok(1) by (simp_all add: b' txid_def view1)
  show "view_state view' = apply_txs txid (nHeight pindex) (vtx b) (view_state view)" "coins_map_ok (view_state view')" "hashBlock view' = phashBlock pindex"
    using r(1-3) [OF pre ok(2)] by (simp_all add: b' view1)
  show "\<exists>d'. DisconnectBlock (cache_GetCoins db_GetCoins) (cache_GetBestBlock db_GetBestBlock) txid (Some undo) (vtx b) (nHeight pindex) hash hashPrev d
        = Inr (Some (d', True)) \<and> view_state d' = view_state view \<and> hashBlock d' = hashPrev"
    if "view_state d = view_state view'" "cache_best (cache_best db_best_state) d = hash"
    using r(4) [OF pre ok(2) that] by (simp add: b' view1)
qed

end
