(* ===== verification/Chain_Node.thy ===== *)
theory Chain_Node
  imports Chain_Tip Coins_Chain
begin

text \<open>
  The coins of the node. \<open>chain_coins\<close> is the specification: the coins that the blocks of a chain leave, one after the other. Whatever branches
  were connected and disconnected, \<open>pcoinsTip\<close> holds the coins of the active chain and names its tip (\<open>coins_consistent\<close>). \<open>ConnectTip\<close>
  and \<open>DisconnectTip\<close> meet the contract \<open>tip_operations\<close> with this invariant.
\<close>

section \<open>Looking up coins\<close>

locale reading =
  fixes get :: "'v \<Rightarrow> u256 \<Rightarrow> 'v \<times> CCoins option" and kept :: "'v \<Rightarrow> bool"
  assumes get_kept: "kept v \<Longrightarrow> get v h = (v', r) \<Longrightarrow> kept v'"
begin

lemma FetchCoins_kept: "kept (cache_base c) \<Longrightarrow> FetchCoins get c h = (c', r) \<Longrightarrow> kept (cache_base c')"
  using get_kept [of "cache_base c" h] by (auto simp: FetchCoins_def split: option.splits prod.splits)

lemma HaveCoins_kept: "kept (cache_base c) \<Longrightarrow> cache_HaveCoins get c h = (c', b) \<Longrightarrow> kept (cache_base c')"
  by (auto simp: cache_HaveCoins_def split: prod.splits dest: FetchCoins_kept)

lemma ref_kept: "kept (cache_base c) \<Longrightarrow> cache_ref get c h = Inr (c', x) \<Longrightarrow> kept (cache_base c')"
  by (auto simp: cache_ref_def split: prod.splits option.splits dest: FetchCoins_kept)

lemma have_coins_kept: "kept (cache_base c) \<Longrightarrow> have_coins_loop get ins c = (c', b) \<Longrightarrow> kept (cache_base c')"
proof (induction ins arbitrary: c)
  case (Cons i ins)
  obtain d r where "cache_HaveCoins get c (op_hash (prevout i)) = (d, r)" by (cases "cache_HaveCoins get c (op_hash (prevout i))")
  with HaveCoins_kept [OF Cons.prems(1) this] Cons show ?case by (cases r) auto
qed simp

lemma available_kept: "kept (cache_base c) \<Longrightarrow> available_loop get ins c = Inr (c', b) \<Longrightarrow> kept (cache_base c')"
  by (induction ins arbitrary: c) (auto simp: bindE_eq_Inr split: if_splits dest: ref_kept)

lemma HaveInputs_kept: "kept (cache_base c) \<Longrightarrow> HaveInputs get tx c = Inr (c', b) \<Longrightarrow> kept (cache_base c')"
  by (auto simp: HaveInputs_def split: if_splits prod.splits bool.splits dest: have_coins_kept available_kept)

end

abbreviation tip_coins :: "coins_db coins_cache \<Rightarrow> (u256 \<rightharpoonup> CCoins)" where
  "tip_coins \<equiv> cache_state db_state"

abbreviation tip_best :: "coins_db coins_cache \<Rightarrow> u256" where
  "tip_best \<equiv> cache_best db_best_state"

interpretation pool_read: reading "mp_GetCoins (cache_GetCoins db_GetCoins) pool" "\<lambda>v. tip_coins v = A \<and> tip_best v = b"
  for pool A b
  by unfold_locales (auto simp: mp_GetCoins_def split: prod.splits option.splits dest: db.cache_get)

lemma cache_base_update: "cache_base (c\<lparr>cache_base := v, hashBlock := h\<rparr>) = v"
  for c :: "'v coins_cache"
  by simp

lemma cache_base_Flush: "cache_base (Flush bwrite c) = bwrite (cache_base c) (cacheCoins c) (hashBlock c)"
  by (simp add: Flush_def)

lemma pool_inputs_coins:
  assumes "pool_inputs (cache_GetCoins db_GetCoins) (cache_GetBestBlock db_GetBestBlock) tx hash pool base = Inr (view, v)"
  shows "tip_coins (cache_base view) = tip_coins base \<and> tip_best (cache_base view) = tip_best base"
proof -
  let ?get = "mp_GetCoins (cache_GetCoins db_GetCoins) pool" and ?K = "\<lambda>c. tip_coins (cache_base c) = tip_coins base \<and> tip_best (cache_base c) = tip_best base"
  obtain c1 b1 where 1: "cache_HaveCoins ?get (new_cache base) hash = (c1, b1)" by (cases "cache_HaveCoins ?get (new_cache base) hash")
  have k1: "?K c1" by (rule pool_read.HaveCoins_kept [OF _ 1]) (simp add: new_cache_def)
  obtain c2 b2 where 2: "have_coins_loop ?get (vin tx) c1 = (c2, b2)" by (cases "have_coins_loop ?get (vin tx) c1")
  have k2: "?K c2" by (rule pool_read.have_coins_kept [OF k1 2])
  have best: "?K (fst (cache_GetBestBlock (cache_GetBestBlock db_GetBestBlock) c))" if "?K c" for c
  proof (cases "hashBlock c = 0")
    case True
    obtain v h where g: "cache_GetBestBlock db_GetBestBlock (cache_base c) = (v, h)" by (cases "cache_GetBestBlock db_GetBestBlock (cache_base c)")
    from db.cache_get_best [OF g] that True g show ?thesis by (simp add: cache_GetBestBlock_def [of "cache_GetBestBlock db_GetBestBlock"] cache_base_update)
  qed (use that in \<open>simp add: cache_GetBestBlock_def\<close>)
  show ?thesis
  proof (cases b1)
    case True
    then show ?thesis using assms 1 k1 by (simp add: pool_inputs_def Let_def)
  next
    case False
    show ?thesis
    proof (cases b2)
      case True
      then obtain c3 b3 where 3: "HaveInputs ?get tx c2 = Inr (c3, b3)" using assms 1 2 False by (auto simp: pool_inputs_def Let_def bindE_eq_Inr)
      with True have "view = (if b3 then fst (cache_GetBestBlock (cache_GetBestBlock db_GetBestBlock) c3) else c3)"
        using assms 1 2 False by (auto simp: pool_inputs_def Let_def split: if_splits)
      moreover have "?K c3" by (rule pool_read.HaveInputs_kept [OF k2 3])
      ultimately show ?thesis using best [of c3] by auto
    next
      case f: False
      then show ?thesis using assms 1 2 False k2 by (simp add: pool_inputs_def Let_def)
    qed
  qed
qed

lemma AcceptToMemoryPool_coins:
  assumes "AcceptToMemoryPool (cache_GetCoins db_GetCoins) (cache_GetBestBlock db_GetBestBlock) txid pe env tx l f (pool, base) = Inr ((pool', base'), v)"
  shows "tip_coins base' = tip_coins base \<and> tip_best base' = tip_best base"
proof -
  obtain c where c: "CheckTransaction tx = Inr c" using CheckTransaction_total by blast
  from assms have "base' = base \<or> pool_checks (cache_GetCoins db_GetCoins) (cache_GetBestBlock db_GetBestBlock) pe env tx (txid tx) l f (pool, base) = Inr ((pool', base'), v)"
    by (auto simp: AcceptToMemoryPool_def c Let_def split: if_splits option.splits)
  then show ?thesis
  proof
    assume p: "pool_checks (cache_GetCoins db_GetCoins) (cache_GetBestBlock db_GetBestBlock) pe env tx (txid tx) l f (pool, base) = Inr ((pool', base'), v)"
    then obtain view w where i: "pool_inputs (cache_GetCoins db_GetCoins) (cache_GetBestBlock db_GetBestBlock) tx (txid tx) pool base = Inr (view, w)"
      by (auto simp: pool_checks_def bindE_eq_Inr)
    have "base' = cache_base view"
    proof (cases "w = Pooled")
      case True
      with p i obtain s std where s: "(if pe_main pe then AreInputsStandard dummy_GetCoins pe tx (SetBackend view ()) else Inr (SetBackend view (), True))
          = Inr (s, std)" by (auto simp: pool_checks_def bindE_eq_Inr Let_def)
      show ?thesis using p i True s by (auto simp: pool_checks_def Let_def bindE_eq_Inr split: if_splits sum.splits)
    qed (use p i in \<open>simp add: pool_checks_def Let_def\<close>)
    then show ?thesis using pool_inputs_coins [OF i] by simp
  qed simp
qed

section \<open>The coins of a chain\<close>

definition block_of :: "tip_env \<Rightarrow> block_index \<Rightarrow> u256 \<Rightarrow> CBlock option" where
  "block_of env idx p = (case idx p of None \<Rightarrow> None | Some e \<Rightarrow> ReadBlockFromDisk (cn_chain (te_rules env)) (diskPos e))"

text \<open>The genesis block adds no coins.\<close>

definition apply_block :: "tip_env \<Rightarrow> block_index \<Rightarrow> u256 \<Rightarrow> (u256 \<rightharpoonup> CCoins) \<Rightarrow> (u256 \<rightharpoonup> CCoins)" where
  "apply_block env idx p A = (case block_of env idx p of
     None \<Rightarrow> A
   | Some b \<Rightarrow> if p = HashGenesisBlock (cn_chain (te_rules env)) then A else apply_txs (te_txid env) (int (height idx p)) (vtx b) A)"

definition chain_coins :: "tip_env \<Rightarrow> block_index \<Rightarrow> u256 option \<Rightarrow> (u256 \<rightharpoonup> CCoins)" where
  "chain_coins env idx t = fold (apply_block env idx) (rev (lineage idx t)) Map.empty"

lemma chain_coins_step:
  assumes "index_wf idx" and "idx p = Some e"
  shows "chain_coins env idx (Some p) = apply_block env idx p (chain_coins env idx (parent idx p))"
  using lineage_simps(2) [OF assms] by (simp add: chain_coins_def)

lemma chain_coins_None [simp]: "chain_coins env idx None = Map.empty"
  by (simp add: chain_coins_def)

lemma same_tree_coins:
  assumes "tree idx = tree idx'"
  shows "block_of env idx = block_of env idx'" "chain_coins env idx = chain_coins env idx'"
proof -
  show b: "block_of env idx = block_of env idx'"
  proof
    fix p
    have "map_option diskPos (tree idx p) = map_option diskPos (tree idx' p)" using assms by simp
    then have "map_option diskPos (idx p) = map_option diskPos (idx' p)" by (simp add: tree_def option.map_comp comp_def)
    then show "block_of env idx p = block_of env idx' p" by (auto simp: block_of_def split: option.splits)
  qed
  then have "apply_block env idx = apply_block env idx'" by (intro ext) (simp only: apply_block_def same_tree(1) [OF assms])
  then show "chain_coins env idx = chain_coins env idx'" by (intro ext) (simp only: chain_coins_def same_tree(7) [OF assms])
qed

section \<open>The invariant of the coins\<close>

text \<open>Only the genesis block has no parent, no hash is zero, heights are 32-bit, and the two blocks that are exempt from the test for overwritten
  coins are not known.\<close>

definition index_sane :: "tip_env \<Rightarrow> block_index \<Rightarrow> bool" where
  "index_sane env idx \<longleftrightarrow> idx 0 = None \<and> (\<forall>p e. idx p = Some e \<longrightarrow> nHeight e < 2 ^ 31 \<and> fEnforceBIP30 True (CBlockIndex.truncate e)
     \<and> (pprev e = None \<longrightarrow> p = HashGenesisBlock (cn_chain (te_rules env))))"

lemma truncate_simps [simp]: "nHeight (CBlockIndex.truncate e) = nHeight e" "phashBlock (CBlockIndex.truncate e) = phashBlock e" "pprev (CBlockIndex.truncate e) = pprev e"
  by (simp_all add: CBlockIndex.truncate_def)

lemma index_sane_tree: "index_sane env (tree idx) = index_sane env idx"
proof -
  have *: "index_sane env idx \<longleftrightarrow> idx 0 = None \<and> (\<forall>p. case idx p of None \<Rightarrow> True | Some e \<Rightarrow> nHeight e < 2 ^ 31 \<and> fEnforceBIP30 True (CBlockIndex.truncate e)
     \<and> (pprev e = None \<longrightarrow> p = HashGenesisBlock (cn_chain (te_rules env))))" for idx
    by (auto simp: index_sane_def split: option.splits)
  show ?thesis unfolding * by (intro arg_cong2 [of _ _ _ _ "(\<and>)"] iff_allI) (auto simp: tree_def fEnforceBIP30_def split: option.splits)
qed

text \<open>The undo data of a block takes its coins back to those of its parent.\<close>

definition undo_ok :: "tip_env \<Rightarrow> block_index \<Rightarrow> u256 \<Rightarrow> CTxInUndo list list \<Rightarrow> bool" where
  "undo_ok env idx p blockundo \<longleftrightarrow> (\<forall>b d hashPrev. block_of env idx p = Some b \<longrightarrow> view_state d = chain_coins env idx (Some p)
     \<longrightarrow> cache_best (cache_best db_best_state) d = p \<longrightarrow>
     (\<exists>d'. DisconnectBlock (cache_GetCoins db_GetCoins) (cache_GetBestBlock db_GetBestBlock) (te_txid env) (Some blockundo) (vtx b) (int (height idx p)) p hashPrev d
        = Inr (Some (d', True)) \<and> view_state d' = chain_coins env idx (parent idx p) \<and> hashBlock d' = hashPrev))"

definition tip_hash :: "u256 option \<Rightarrow> u256" where
  "tip_hash t = (case t of None \<Rightarrow> 0 | Some p \<Rightarrow> p)"

definition coins_consistent :: "tip_env \<Rightarrow> full_node \<Rightarrow> bool" where
  "coins_consistent env st \<longleftrightarrow> index_sane env (ns_index st) \<and> tip_best (pcoinsTip st) = tip_hash (Tip (chainActive st))
     \<and> tip_coins (pcoinsTip st) = chain_coins env (ns_index st) (Tip (chainActive st))
     \<and> (\<forall>p\<in>set (lineage (ns_index st) (Tip (chainActive st))). coins_map_ok (chain_coins env (ns_index st) (Some p)))
     \<and> (\<forall>p u. undo_files st p = Some u \<longrightarrow> p \<in> dom (ns_index st) \<and> undo_ok env (ns_index st) p u)"

lemma undo_ok_tree:
  assumes "tree idx = tree idx'"
  shows "undo_ok env idx = undo_ok env idx'"
  by (intro ext) (simp only: undo_ok_def same_tree_coins [OF assms] same_tree(1,2) [OF assms])

lemma coins_consistent_cong:
  assumes k: "coins_consistent env st" and t: "tree (ns_index st') = tree (ns_index st)" and a: "chainActive st' = chainActive st"
    and c: "tip_best (pcoinsTip st') = tip_best (pcoinsTip st)" "tip_coins (pcoinsTip st') = tip_coins (pcoinsTip st)" and u: "undo_files st' = undo_files st"
  shows "coins_consistent env st'"
proof -
  have "index_sane env (ns_index st') = index_sane env (ns_index st)" by (metis t index_sane_tree)
  then show ?thesis using k c a u
    unfolding coins_consistent_def same_tree_coins [OF t] undo_ok_tree [OF t] same_tree(3,7) [OF t] by simp
qed

lemma more_fields:
  assumes "node_state.more st' = node_state.more st"
  shows "pcoinsTip st' = pcoinsTip st" "undo_files st' = undo_files st" "mempool st' = mempool st"
  using assms by (cases st; cases st'; simp)+

lemma coins_consistent_rest:
  assumes "coins_consistent env st" and "same_rest st st'"
  shows "coins_consistent env st'"
proof -
  have r: "stored (ns_index st') = stored (ns_index st)" "chainActive st' = chainActive st" "node_state.more st' = node_state.more st"
    using assms(2) by (simp_all add: same_rest_def)
  show ?thesis by (rule coins_consistent_cong [OF assms(1) stored_tree [OF r(1)] r(2)]) (simp_all add: more_fields(1,2) [OF r(3)])
qed

text \<open>The coins before the next block.\<close>

lemma coins_map_ok_tip:
  assumes "coins_consistent env st" and "node_ok addr st"
  shows "coins_map_ok (tip_coins (pcoinsTip st))"
proof (cases "Tip (chainActive st)")
  case None
  then show ?thesis using assms(1) by (simp add: coins_consistent_def coins_map_ok_def)
next
  case (Some p)
  then obtain e where "ns_index st p = Some e" using chain_wf_Tip(2) [OF node_okD(1,4) [OF assms(2)]] by auto
  then have "p \<in> set (lineage (ns_index st) (Tip (chainActive st)))" using lineage_simps(2) [OF node_okD(1) [OF assms(2)]] Some by simp
  then show ?thesis using assms(1) Some by (simp add: coins_consistent_def)
qed

section \<open>Connecting\<close>

lemma status_failed:
  "((x AND NOT BLOCK_VALID_MASK) OR BLOCK_VALID_SCRIPTS) AND BLOCK_FAILED_MASK = x AND BLOCK_FAILED_MASK"
  "(x OR BLOCK_HAVE_UNDO) AND BLOCK_FAILED_MASK = x AND BLOCK_FAILED_MASK"
proof -
  have "(x AND NOT BLOCK_VALID_MASK) AND BLOCK_FAILED_MASK = x AND (NOT BLOCK_VALID_MASK AND BLOCK_FAILED_MASK)" by (simp only: and.assoc)
  also have "NOT BLOCK_VALID_MASK AND BLOCK_FAILED_MASK = BLOCK_FAILED_MASK" by (simp add: BLOCK_VALID_MASK_def BLOCK_FAILED_MASK_def)
  finally have 1: "(x AND NOT BLOCK_VALID_MASK) AND BLOCK_FAILED_MASK = x AND BLOCK_FAILED_MASK" .
  have 2: "BLOCK_VALID_SCRIPTS AND BLOCK_FAILED_MASK = 0" "BLOCK_HAVE_UNDO AND BLOCK_FAILED_MASK = 0"
    by (simp_all add: BLOCK_VALID_SCRIPTS_def BLOCK_HAVE_UNDO_def BLOCK_FAILED_MASK_def)
  show "((x AND NOT BLOCK_VALID_MASK) OR BLOCK_VALID_SCRIPTS) AND BLOCK_FAILED_MASK = x AND BLOCK_FAILED_MASK"
    "(x OR BLOCK_HAVE_UNDO) AND BLOCK_FAILED_MASK = x AND BLOCK_FAILED_MASK"
    by (simp_all only: bit.conj_disj_distrib2 1 2 or.right_neutral)
qed

lemma write_undo_facts:
  "tree (ns_index (write_undo p u st)) = tree (ns_index st)" "failed (ns_index (write_undo p u st)) = failed (ns_index st)"
  "chainActive (write_undo p u st) = chainActive st" "chainMostWork (write_undo p u st) = chainMostWork st"
  "setBlockIndexValid (write_undo p u st) = setBlockIndexValid st" "mempool (write_undo p u st) = mempool st"
  "undo_files (write_undo p u st) = undo_files st \<or> undo_files (write_undo p u st) = (undo_files st)(p \<mapsto> u)"
  by (auto simp: write_undo_def Let_def tree_def failed_def status_failed fun_eq_iff split: option.splits)

lemma rules_of_simps [simp]:
  "env_Hash9 (cn_chain (rules_of env st)) = env_Hash9 (cn_chain (te_rules env))" "HashGenesisBlock (cn_chain (rules_of env st)) = HashGenesisBlock (cn_chain (te_rules env))"
  "env_sha (cn_chain (rules_of env st)) = env_sha (cn_chain (te_rules env))"
  by (simp_all add: rules_of_def)

lemma ReadBlockFromDisk_index_Some:
  assumes "ReadBlockFromDisk_index chain e = Some b"
  shows "ReadBlockFromDisk chain (diskPos e) = Some b" "CBlockHeader_GetHash (env_Hash9 chain) b = phashBlock e"
  using assms by (auto simp: ReadBlockFromDisk_index_def split: if_splits option.splits)

text \<open>The coins of \<open>pcoinsTip\<close> after a view over it has been flushed, and after a write to the database.\<close>

lemma flushed_view:
  assumes "hashBlock view = p" and "p \<noteq> 0" and "c = cache_base (Flush cache_BatchWrite view)" and "c' = c \<or> c' = Flush db_BatchWrite c"
  shows "tip_coins c' = view_state view \<and> tip_best c' = p"
proof -
  have h: "hashBlock c = p" using assms(1,3) by (simp add: cache_base_Flush cache_BatchWrite_def)
  have c: "tip_coins c = view_state view" "tip_best c = p" using tip.flush_coins [of view] h assms(2,3) by (simp_all add: cache_best_def)
  with db.flush_base [of c] h assms(2,4) show ?thesis by auto
qed

lemma ConnectTip_cases:
  assumes "ConnectTip env p st = returnF out"
  obtains "out = TipError st"
  | e b r where "parent (ns_index st) p = Tip (chainActive st)" and "ns_index st p = Some e" and "ReadBlockFromDisk_index (cn_chain (te_rules env)) e = Some b"
    and "ConnectBlock_tip (rules_of env st) (te_fuel env) b (CBlockIndex.truncate e) True (new_cache (pcoinsTip st)) False = Some (Inr r)"
    and "case r of Connected view undo \<Rightarrow> connected_tip env p b view undo st = returnF out
      | Rejected v \<Rightarrow> (\<exists>dos code reason corrupt. v = Reject dos code reason corrupt \<and> out = TipInvalid code corrupt (InvalidBlockFound (te_addr env) p corrupt st))
      | NodeError \<Rightarrow> False"
proof (cases "out = TipError st")
  case False
  from assms False obtain e b where e: "parent (ns_index st) p = Tip (chainActive st)" "ns_index st p = Some e" "ReadBlockFromDisk_index (cn_chain (te_rules env)) e = Some b"
    by (auto simp: ConnectTip_def split: if_splits option.splits)
  with assms obtain r where r: "ConnectBlock_tip (rules_of env st) (te_fuel env) b (CBlockIndex.truncate e) True (new_cache (pcoinsTip st)) False = Some (Inr r)"
    by (auto simp: ConnectTip_def bindF_eq_Inr)
  show ?thesis by (rule that(2) [OF e r]) (use assms e r False in \<open>auto simp: ConnectTip_def split: connected.splits verdict.splits\<close>)
qed (rule that(1))

lemma ConnectTip_Done:
  assumes "ConnectTip env p st = returnF (TipDone st')"
  obtains e b view undo u c where "parent (ns_index st) p = Tip (chainActive st)" and "ns_index st p = Some e" and "ReadBlockFromDisk_index (cn_chain (te_rules env)) e = Some b"
    and "ConnectBlock_tip (rules_of env st) (te_fuel env) b (CBlockIndex.truncate e) True (new_cache (pcoinsTip st)) False = Some (Inr (Connected view undo))"
    and "u = (if CBlockHeader_GetHash (env_Hash9 (cn_chain (te_rules env))) b = HashGenesisBlock (cn_chain (te_rules env)) then st else write_undo p undo st)"
    and "ns_index st' = ns_index u" and "chainActive st' = fst (SetTip (ns_index u) (Some p) (chainActive st))" and "chainMostWork st' = chainMostWork st"
    and "setBlockIndexValid st' = setBlockIndexValid st" and "undo_files st' = undo_files u"
    and "c = cache_base (Flush cache_BatchWrite view)" and "pcoinsTip st' = c \<or> pcoinsTip st' = Flush db_BatchWrite c"
proof -
  obtain e b view undo where e: "parent (ns_index st) p = Tip (chainActive st)" "ns_index st p = Some e"
      "ReadBlockFromDisk_index (cn_chain (te_rules env)) e = Some b"
    and r: "ConnectBlock_tip (rules_of env st) (te_fuel env) b (CBlockIndex.truncate e) True (new_cache (pcoinsTip st)) False = Some (Inr (Connected view undo))"
    and ct: "connected_tip env p b view undo st = returnF (TipDone st')" 
  proof (cases rule: ConnectTip_cases [OF assms])
    case (2 e b r)
    then show ?thesis using that by (cases r) auto
  qed simp
  define u where "u = (if CBlockHeader_GetHash (env_Hash9 (cn_chain (te_rules env))) b = HashGenesisBlock (cn_chain (te_rules env)) then st else write_undo p undo st)"
  define c where "c = cache_base (Flush cache_BatchWrite view)"
  have u: "chainActive u = chainActive st" "chainMostWork u = chainMostWork st" "setBlockIndexValid u = setBlockIndexValid st"
    by (simp_all add: u_def write_undo_facts)
  obtain w where w: "WriteChainState env (u\<lparr>pcoinsTip := c\<rparr>) = Some w" using ct by (auto simp: connected_tip_def Let_def simp flip: u_def c_def split: option.splits)
  have wf: "ns_index w = ns_index u" "chainActive w = chainActive u" "chainMostWork w = chainMostWork u" "setBlockIndexValid w = setBlockIndexValid u" "undo_files w = undo_files u"
    "pcoinsTip w = c \<or> pcoinsTip w = Flush db_BatchWrite c"
    using w by (auto simp: WriteChainState_def split: if_splits)
  from ct w obtain pool cs where "st' = w\<lparr>chainActive := fst (SetTip (ns_index w) (Some p) (chainActive w)), mempool := AddTransactionsUpdated pool 1\<rparr>"
    by (auto simp: connected_tip_def Let_def bindF_eq_Inr UpdateTip_def simp flip: u_def c_def)
  then show ?thesis using that [OF e r u_def _ _ _ _ _ c_def] u wf by simp
qed

lemma connected_coins:
  assumes ok: "node_ok addr st" and k: "coins_consistent env st" and p: "parent (ns_index st) p = Tip (chainActive st)" "ns_index st p = Some e"
    and b: "ReadBlockFromDisk_index (cn_chain (te_rules env)) e = Some b"
    and conn: "ConnectBlock_tip (rules_of env st) fuel b (CBlockIndex.truncate e) True (new_cache (pcoinsTip st)) False = Some (Inr (Connected view undo))"
  shows "view_state view = chain_coins env (ns_index st) (Some p)" "hashBlock view = p" "coins_map_ok (view_state view)"
    "CBlockHeader_GetHash (env_Hash9 (cn_chain (te_rules env))) b \<noteq> HashGenesisBlock (cn_chain (te_rules env)) \<Longrightarrow> undo_ok env (ns_index st) p undo"
proof -
  let ?idx = "ns_index st" and ?c = "cn_chain (te_rules env)"
  note o = node_okD [OF ok]
  note rb = ReadBlockFromDisk_index_Some [OF b]
  have wf: "phashBlock e = p" "0 \<le> nHeight e" using o(1) p(2) by (auto simp: index_wf_def split: option.splits) fastforce+
  have bo: "block_of env ?idx p = Some b" using p(2) rb(1) by (simp add: block_of_def)
  have nh: "nHeight e = int (height ?idx p)" using p(2) wf(2) by (simp add: height_def)
  have sane: "nHeight e < 2 ^ 31" "fEnforceBIP30 True (CBlockIndex.truncate e)" "pprev e = None \<Longrightarrow> p = HashGenesisBlock ?c"
    using k p(2) by (auto simp: coins_consistent_def index_sane_def)
  have before: "view_state (new_cache (pcoinsTip st)) = chain_coins env ?idx (parent ?idx p)" using k p(1) by (simp add: coins_consistent_def tip.new_cache_state)
  have mo: "coins_map_ok (view_state (new_cache (pcoinsTip st)))" using coins_map_ok_tip [OF k ok] by (simp add: tip.new_cache_state)
  note step = chain_coins_step [OF o(1) p(2), of env]
  have "view_state view = chain_coins env ?idx (Some p) \<and> hashBlock view = p \<and> coins_map_ok (view_state view) \<and> (p \<noteq> HashGenesisBlock ?c \<longrightarrow> undo_ok env ?idx p undo)"
  proof (cases "p = HashGenesisBlock ?c")
    case True
    from conn obtain b' where cb: "CheckBlock (cn_chain (rules_of env st)) (bnProofOfWorkLimit (rules_of env st)) (GetAdjustedTime (rules_of env st)) b True True = Inr (b', Accept)"
      by (auto simp: ConnectBlock_def split: sum.splits prod.splits if_splits)
    obtain view1 best where bb: "cache_GetBestBlock (cache_GetBestBlock db_GetBestBlock) (new_cache (pcoinsTip st)) = (view1, best)"
      by (cases "cache_GetBestBlock (cache_GetBestBlock db_GetBestBlock) (new_cache (pcoinsTip st))")
    have "CBlockHeader_GetHash (env_Hash9 ?c) b' = HashGenesisBlock ?c" using CheckBlock_Accept(1) [OF cb] rb(2) wf(1) True by simp
    with conn have "view = cache_SetBestBlock view1 p" using wf(1)
      by (auto simp: ConnectBlock_def cb bb Let_def split: sum.splits option.splits if_splits)
    then have "view_state view = view_state (new_cache (pcoinsTip st))" "hashBlock view = p"
      using tip.cache_get_best [OF bb] by (simp_all add: tip.cache_set_best) (simp add: cache_SetBestBlock_def)
    then show ?thesis using before mo step bo True by (simp add: apply_block_def)
  next
    case False
    have h: "0 < nHeight e"
    proof (cases "pprev e")
      case (Some q)
      then show ?thesis using o(1) p(2) by (fastforce simp: index_wf_def)
    qed (use sane(3) False in simp)
    have gen: "CBlockHeader_GetHash (env_Hash9 (cn_chain (rules_of env st))) b \<noteq> HashGenesisBlock (cn_chain (rules_of env st))" using rb(2) wf(1) False by simp
    note cs = connect_block_state [OF conn gen mo sane(2), simplified, OF h]
    have cs': "view_state view = chain_coins env ?idx (Some p)" "coins_map_ok (view_state view)" "hashBlock view = p"
      using cs(1-3) sane(1) before step bo False wf(1) by (simp_all add: apply_block_def te_txid_def nh)
    moreover have "undo_ok env ?idx p undo"
      unfolding undo_ok_def using cs(4) [of _ p] sane(1) cs'(1) before bo by (simp add: te_txid_def nh)
    ultimately show ?thesis by simp
  qed
  then show "view_state view = chain_coins env ?idx (Some p)" "hashBlock view = p" "coins_map_ok (view_state view)"
    "CBlockHeader_GetHash (env_Hash9 ?c) b \<noteq> HashGenesisBlock ?c \<Longrightarrow> undo_ok env ?idx p undo" using rb(2) wf(1) by auto
qed

text \<open>Moving to a block whose coins \<open>pcoinsTip\<close> already holds.\<close>

lemma coins_consistent_moved:
  assumes k: "coins_consistent env st" and t: "tree (ns_index st') = tree (ns_index st)" and a: "Tip (chainActive st') = Some q" and q: "ns_index st q = Some e"
    and wf: "index_wf (ns_index st)"
    and c: "tip_best (pcoinsTip st') = q" "tip_coins (pcoinsTip st') = chain_coins env (ns_index st) (Some q)"
    and l: "\<And>p. p \<in> set (lineage (ns_index st) (parent (ns_index st) q)) \<Longrightarrow> coins_map_ok (chain_coins env (ns_index st) (Some p))"
    and o: "coins_map_ok (chain_coins env (ns_index st) (Some q))"
    and u: "\<And>p w. undo_files st' p = Some w \<Longrightarrow> p \<in> dom (ns_index st) \<and> undo_ok env (ns_index st) p w"
  shows "coins_consistent env st'"
proof -
  have "index_sane env (ns_index st') = index_sane env (ns_index st)" by (metis t index_sane_tree)
  moreover have "\<forall>p\<in>set (lineage (ns_index st) (Some q)). coins_map_ok (chain_coins env (ns_index st) (Some p))"
    using lineage_simps(2) [OF wf q] l o by auto
  ultimately show ?thesis using k c u a
    unfolding coins_consistent_def same_tree_coins [OF t] undo_ok_tree [OF t] same_tree(3,7) [OF t] by (simp add: tip_hash_def)
qed

lemma ConnectTip_done:
  assumes ok: "node_ok addr st" and k: "coins_consistent env st" and c: "ConnectTip env p st = returnF (TipDone st')"
  shows "extends_tip p st st'" "coins_consistent env st'"
proof -
  obtain e b view undo u d where p: "parent (ns_index st) p = Tip (chainActive st)" "ns_index st p = Some e" "ReadBlockFromDisk_index (cn_chain (te_rules env)) e = Some b"
    and conn: "ConnectBlock_tip (rules_of env st) (te_fuel env) b (CBlockIndex.truncate e) True (new_cache (pcoinsTip st)) False = Some (Inr (Connected view undo))"
    and u: "u = (if CBlockHeader_GetHash (env_Hash9 (cn_chain (te_rules env))) b = HashGenesisBlock (cn_chain (te_rules env)) then st else write_undo p undo st)"
    and st': "ns_index st' = ns_index u" "chainActive st' = fst (SetTip (ns_index u) (Some p) (chainActive st))" "chainMostWork st' = chainMostWork st"
      "setBlockIndexValid st' = setBlockIndexValid st" "undo_files st' = undo_files u"
    and d: "d = cache_base (Flush cache_BatchWrite view)" "pcoinsTip st' = d \<or> pcoinsTip st' = Flush db_BatchWrite d"
    by (rule ConnectTip_Done [OF c])
  note o = node_okD [OF ok] and cc = connected_coins [OF ok k p conn]
  have t: "tree (ns_index st') = tree (ns_index st)" "failed (ns_index st') = failed (ns_index st)" unfolding st'(1) u by (simp_all add: write_undo_facts)
  have act: "chainActive st' = fst (SetTip (ns_index st) (Some p) (chainActive st))" using st'(2) same_tree(10) [OF t(1)] st'(1) by simp
  then show "extends_tip p st st'" using t st' by (simp add: extends_tip_def)
  have "Tip (chainActive st') = Some p" using move_tip_ok(2) [OF ok _ t act st'(3,4)] p(2) by simp
  moreover have "p \<noteq> 0" using k p(2) by (auto simp: coins_consistent_def index_sane_def)
  then have "tip_coins (pcoinsTip st') = view_state view \<and> tip_best (pcoinsTip st') = p" using flushed_view [OF cc(2) _ d] by simp
  moreover have "q \<in> dom (ns_index st) \<and> undo_ok env (ns_index st) q w" if "undo_files st' q = Some w" for q w
  proof (cases "undo_files st q = Some w")
    case True
    then show ?thesis using k by (auto simp: coins_consistent_def)
  next
    case False
    then have "CBlockHeader_GetHash (env_Hash9 (cn_chain (te_rules env))) b \<noteq> HashGenesisBlock (cn_chain (te_rules env)) \<and> q = p \<and> w = undo"
      using that write_undo_facts(7) [of p undo st] unfolding st'(5) u by (auto split: if_splits)
    then show ?thesis using cc(4) p(2) by auto
  qed
  ultimately show "coins_consistent env st'" using cc(1,3) k p(1)
    by (intro coins_consistent_moved [OF k t(1) _ p(2) o(1)]) (auto simp: coins_consistent_def)
qed

lemma ConnectTip_invalid:
  assumes ok: "node_ok (te_addr env) st" and k: "coins_consistent env st" and c: "ConnectTip env p st = returnF (TipInvalid code corrupt st')"
  shows "same_rest st st'" "if corrupt then st' = st else refuses_tip (te_addr env) p st st'"
proof -
  note o = node_okD [OF ok]
  from c have ib: "(\<exists>e. ns_index st p = Some e) \<and> st' = InvalidBlockFound (te_addr env) p corrupt st"
  proof (cases rule: ConnectTip_cases)
    case (2 e b r)
    have "connected_tip env p b view undo st \<noteq> returnF (TipInvalid code corrupt st')" for view undo
      by (auto simp: connected_tip_def Let_def bindF_eq_Inr split: option.splits)
    with 2 show ?thesis by (cases r) auto
  qed simp
  have m: "BLOCK_FAILED_VALID AND NOT BLOCK_FAILED_MASK = 0" by (simp add: BLOCK_FAILED_VALID_def BLOCK_FAILED_MASK_def)
  show "same_rest st st'" unfolding conjunct2 [OF ib] InvalidBlockFound_def
    by (simp add: same_rest_trans [OF same_rest_trans [OF same_rest_steps(4) [OF m] same_rest_steps(1)] same_rest_steps(3)])
  show "if corrupt then st' = st else refuses_tip (te_addr env) p st st'"
    using ib by (auto simp: InvalidBlockFound_def refuses_tip_def or_status_failed [OF failed_masks(2)] same_tree(5) [OF or_status_tree])
qed

lemma WriteChainState_node:
  assumes "WriteChainState env st = Some st'"
  shows "ns_index st' = ns_index st" "chainActive st' = chainActive st" "chainMostWork st' = chainMostWork st" "setBlockIndexValid st' = setBlockIndexValid st"
    "undo_files st' = undo_files st" "mempool st' = mempool st" "pcoinsTip st' = pcoinsTip st \<or> pcoinsTip st' = Flush db_BatchWrite (pcoinsTip st)"
  using assms by (auto simp: WriteChainState_def split: if_splits)

lemma connected_tip_error:
  assumes "connected_tip env p b view undo st = returnF (TipError st')"
  shows "\<exists>u c. u \<in> {st, write_undo p undo st} \<and> st' = u\<lparr>pcoinsTip := c\<rparr>"
  using assms unfolding connected_tip_def Let_def
  by (cases "CBlockHeader_GetHash (env_Hash9 (cn_chain (te_rules env))) b = HashGenesisBlock (cn_chain (te_rules env))")
    (auto simp: bindF_eq_Inr split: option.splits prod.splits)

lemma ConnectTip_error:
  assumes ok: "node_ok addr st" and c: "ConnectTip env p st = returnF (TipError st')"
  shows "node_ok addr st'"
proof (cases "st' = st")
  case False
  note o = node_okD [OF ok]
  from c have "\<exists>b view undo. connected_tip env p b view undo st = returnF (TipError st')"
  proof (cases rule: ConnectTip_cases)
    case (2 e b r)
    then show ?thesis by (cases r) auto
  qed (use False in simp)
  then obtain b view undo where "connected_tip env p b view undo st = returnF (TipError st')" by blast
  from connected_tip_error [OF this] obtain u c where u: "u \<in> {st, write_undo p undo st}" "st' = u\<lparr>pcoinsTip := c\<rparr>" by blast
  then have "tree (ns_index st') = tree (ns_index st)" "failed (ns_index st') = failed (ns_index st)" "chainActive st' = chainActive st" "chainMostWork st' = chainMostWork st"
    "setBlockIndexValid st' = setBlockIndexValid st" by (auto simp: write_undo_facts)
  then show ?thesis using o(4,5) by (intro node_ok_step [OF ok, of _ "\<lambda>_. True"]) simp_all
qed (use ok in simp)

section \<open>Disconnecting\<close>

lemma resurrect_node:
  assumes "resurrect env tx st = returnF st'"
  shows "tip_coins (pcoinsTip st') = tip_coins (pcoinsTip st) \<and> tip_best (pcoinsTip st') = tip_best (pcoinsTip st) \<and> ns_index st' = ns_index st \<and> chainActive st' = chainActive st
    \<and> chainMostWork st' = chainMostWork st \<and> setBlockIndexValid st' = setBlockIndexValid st \<and> undo_files st' = undo_files st"
proof (cases "IsCoinBase tx")
  case False
  with assms obtain pool coins v where a: "AcceptToMemoryPool (cache_GetCoins db_GetCoins) (cache_GetBestBlock db_GetBestBlock) (te_txid env) (te_policy env) (rules_of env st)
      tx False False (mempool st, pcoinsTip st) = Inr ((pool, coins), v)"
    by (auto simp: resurrect_def bindF_eq_Inr)
  with assms False have "\<exists>pool'. st' = st\<lparr>mempool := pool, pcoinsTip := coins\<rparr> \<or> st' = st\<lparr>mempool := pool, pcoinsTip := coins, mempool := pool'\<rparr>"
    by (auto simp: resurrect_def Let_def bindF_eq_Inr split: if_splits)
  then show ?thesis using AcceptToMemoryPool_coins [OF a] by auto
qed (use assms in \<open>simp add: resurrect_def\<close>)

lemma DisconnectTip_Done:
  assumes "DisconnectTip env st = returnF (TipDone st')"
  obtains p e b q undo view c where "Tip (chainActive st) = Some p" and "ns_index st p = Some e" and "ReadBlockFromDisk_index (cn_chain (te_rules env)) e = Some b"
    and "pprev e = Some q" and "undo_files st p = Some undo"
    and "DisconnectBlock (cache_GetCoins db_GetCoins) (cache_GetBestBlock db_GetBestBlock) (te_txid env) (Some undo) (vtx b) (nHeight e) p q (new_cache (pcoinsTip st)) = Inr (Some (view, True))"
    and "c = cache_base (Flush cache_BatchWrite view)" and "\<exists>d. (d = c \<or> d = Flush db_BatchWrite c) \<and> tip_coins (pcoinsTip st') = tip_coins d \<and> tip_best (pcoinsTip st') = tip_best d"
    and "ns_index st' = ns_index st" and "chainActive st' = fst (SetTip (ns_index st) (Some q) (chainActive st))" and "chainMostWork st' = chainMostWork st"
    and "setBlockIndexValid st' = setBlockIndexValid st" and "undo_files st' = undo_files st"
proof -
  from assms obtain p e b where p: "Tip (chainActive st) = Some p" "ns_index st p = Some e" "ReadBlockFromDisk_index (cn_chain (te_rules env)) e = Some b"
    by (auto simp: DisconnectTip_def split: option.splits)
  define bu where "bu = (if nStatus e AND BLOCK_HAVE_UNDO = 0 then None else undo_files st p)"
  from assms p obtain r where r: "DisconnectBlock (cache_GetCoins db_GetCoins) (cache_GetBestBlock db_GetBestBlock) (te_txid env) bu (vtx b) (nHeight e) p
      (case pprev e of None \<Rightarrow> 0 | Some q \<Rightarrow> q) (new_cache (pcoinsTip st)) = Inr r" and n: "\<not> (bu \<noteq> None \<and> pprev e = None)"
    by (auto simp: DisconnectTip_def Let_def bindF_eq_Inr simp flip: bu_def split: if_splits)
  with assms p obtain view where v: "r = Some (view, True)"
    by (auto simp: DisconnectTip_def Let_def simp flip: bu_def split: option.splits if_splits prod.splits)
  define c where "c = cache_base (Flush cache_BatchWrite view)"
  from assms p r n v obtain w where w: "WriteChainState env (st\<lparr>pcoinsTip := c\<rparr>) = Some w"
    by (auto simp: DisconnectTip_def Let_def simp flip: bu_def c_def split: option.splits if_splits)
  with assms p r n v obtain s where s: "foldF (resurrect env) (vtx b) w = returnF s" "UpdateTip (pprev e) s = Inr st'"
    by (auto simp: DisconnectTip_def Let_def bindF_eq_Inr simp flip: bu_def c_def split: if_splits)
  from s(2) obtain q where q: "pprev e = Some q" "st' = s\<lparr>chainActive := fst (SetTip (ns_index s) (Some q) (chainActive s)), mempool := AddTransactionsUpdated (mempool s) 1\<rparr>"
    by (auto simp: UpdateTip_def split: option.splits)
  obtain undo where u: "bu = Some undo" using r v by (cases bu) (auto simp: DisconnectBlock_def split: prod.splits if_splits)
  have fs: "tip_coins (pcoinsTip s) = tip_coins (pcoinsTip w) \<and> tip_best (pcoinsTip s) = tip_best (pcoinsTip w) \<and> ns_index s = ns_index w \<and> chainActive s = chainActive w
    \<and> chainMostWork s = chainMostWork w \<and> setBlockIndexValid s = setBlockIndexValid w \<and> undo_files s = undo_files w"
    by (rule foldF_invariant [OF s(1)]) (use resurrect_node in \<open>simp, simp\<close>)
  note wf = WriteChainState_node [OF w]
  have "undo_files st p = Some undo" using u by (simp add: bu_def split: if_splits)
  moreover have "DisconnectBlock (cache_GetCoins db_GetCoins) (cache_GetBestBlock db_GetBestBlock) (te_txid env) (Some undo) (vtx b) (nHeight e) p q (new_cache (pcoinsTip st)) = Inr (Some (view, True))"
    using r v u q(1) by simp
  ultimately show ?thesis using fs wf q by (intro that [OF p q(1) _ _ c_def]) auto
qed

lemma DisconnectTip_done:
  assumes ok: "node_ok addr st" and k: "coins_consistent env st" and d: "DisconnectTip env st = returnF (TipDone st')"
  shows "\<exists>p. Tip (chainActive st) = Some p \<and> retracts_tip p st st' \<and> coins_consistent env st'"
proof -
  obtain p e b q undo view c where p: "Tip (chainActive st) = Some p" "ns_index st p = Some e" "ReadBlockFromDisk_index (cn_chain (te_rules env)) e = Some b"
      "pprev e = Some q" "undo_files st p = Some undo"
    and db: "DisconnectBlock (cache_GetCoins db_GetCoins) (cache_GetBestBlock db_GetBestBlock) (te_txid env) (Some undo) (vtx b) (nHeight e) p q (new_cache (pcoinsTip st)) = Inr (Some (view, True))"
    and c: "c = cache_base (Flush cache_BatchWrite view)" "\<exists>d. (d = c \<or> d = Flush db_BatchWrite c) \<and> tip_coins (pcoinsTip st') = tip_coins d \<and> tip_best (pcoinsTip st') = tip_best d"
    and st': "ns_index st' = ns_index st" "chainActive st' = fst (SetTip (ns_index st) (Some q) (chainActive st))" "chainMostWork st' = chainMostWork st"
      "setBlockIndexValid st' = setBlockIndexValid st" "undo_files st' = undo_files st"
    by (rule DisconnectTip_Done [OF d])
  let ?idx = "ns_index st"
  note o = node_okD [OF ok]
  have par: "parent ?idx p = Some q" using p(2,4) by (simp add: parent_def)
  obtain f where f: "?idx q = Some f" using parent_height(2) [OF o(1) p(2) par] by blast
  have nh: "nHeight e = int (height ?idx p)" using o(1) p(2,4) by (fastforce simp: index_wf_def height_def split: option.splits)
  have bo: "block_of env ?idx p = Some b" using p(2) ReadBlockFromDisk_index_Some(1) [OF p(3)] by (simp add: block_of_def)
  have "view_state (new_cache (pcoinsTip st)) = chain_coins env ?idx (Some p)" "cache_best tip_best (new_cache (pcoinsTip st)) = p"
    using k p(1) by (simp_all add: coins_consistent_def tip.new_cache_state tip_hash_def)
  moreover have "undo_ok env ?idx p undo" using k p(5) by (simp add: coins_consistent_def)
  ultimately obtain v where "DisconnectBlock (cache_GetCoins db_GetCoins) (cache_GetBestBlock db_GetBestBlock) (te_txid env) (Some undo) (vtx b) (nHeight e) p q (new_cache (pcoinsTip st))
      = Inr (Some (v, True))" "view_state v = chain_coins env ?idx (Some q)" "hashBlock v = q"
    using bo par unfolding undo_ok_def nh by metis
  with db have "view_state view = chain_coins env ?idx (Some q)" "hashBlock view = q" by simp_all
  moreover have "q \<noteq> 0" using k f by (auto simp: coins_consistent_def index_sane_def)
  ultimately have tc: "tip_coins (pcoinsTip st') = chain_coins env ?idx (Some q)" "tip_best (pcoinsTip st') = q" using c flushed_view [OF _ _ c(1)] by auto
  have r: "retracts_tip p st st'" using st' par by (simp add: retracts_tip_def)
  have tq: "Tip (chainActive st') = Some q" by (rule move_tip_ok(2) [OF ok]) (use st' f in simp_all)
  have "set (lineage ?idx (parent ?idx q)) \<subseteq> set (lineage ?idx (Some p))" "q \<in> set (lineage ?idx (Some p))"
    using lineage_simps(2) [OF o(1) p(2)] lineage_simps(2) [OF o(1) f] par by auto
  then have "coins_consistent env st'" using k p(1) tc tq st'(1,5)
    by (intro coins_consistent_moved [OF k _ tq f o(1)]) (auto simp: coins_consistent_def)
  with p(1) r show ?thesis by blast
qed

lemma DisconnectTip_error:
  assumes ok: "node_ok addr st" and d: "DisconnectTip env st = returnF (TipError st')"
  shows "node_ok addr st'"
proof (cases "st' = st")
  case False
  from d False obtain p e b where p: "Tip (chainActive st) = Some p" "ns_index st p = Some e" "ReadBlockFromDisk_index (cn_chain (te_rules env)) e = Some b"
    by (auto simp: DisconnectTip_def split: option.splits)
  define bu where "bu = (if nStatus e AND BLOCK_HAVE_UNDO = 0 then None else undo_files st p)"
  from d p obtain r where r: "DisconnectBlock (cache_GetCoins db_GetCoins) (cache_GetBestBlock db_GetBestBlock) (te_txid env) bu (vtx b) (nHeight e) p
      (case pprev e of None \<Rightarrow> 0 | Some q \<Rightarrow> q) (new_cache (pcoinsTip st)) = Inr r" and n: "\<not> (bu \<noteq> None \<and> pprev e = None)"
    by (auto simp: DisconnectTip_def Let_def bindF_eq_Inr simp flip: bu_def split: if_splits)
  with d p False obtain view where v: "r = Some (view, True)"
    by (auto simp: DisconnectTip_def Let_def simp flip: bu_def split: option.splits if_splits prod.splits)
  with d p r n have "\<exists>c. st' = st\<lparr>pcoinsTip := c\<rparr>"
    by (auto simp: DisconnectTip_def Let_def bindF_eq_Inr simp flip: bu_def split: option.splits if_splits)
  then show ?thesis using node_okD(4,5) [OF ok] by (auto intro!: node_ok_step [OF ok, of _ "\<lambda>_. True"])
qed (use ok in simp)

lemma DisconnectTip_valid: "DisconnectTip env st \<noteq> returnF (TipInvalid code corrupt st')"
  by (auto simp: DisconnectTip_def Let_def bindF_eq_Inr split: option.splits if_splits prod.splits)

interpretation node: tip_operations "te_addr env" "coins_consistent env" "ConnectTip env" "DisconnectTip env"
  for env
proof
  fix st st' :: full_node and p code corrupt
  show "node_ok (te_addr env) st \<Longrightarrow> coins_consistent env st \<Longrightarrow> ConnectTip env p st = returnF (TipDone st') \<Longrightarrow> extends_tip p st st' \<and> coins_consistent env st'"
    using ConnectTip_done by blast
  show "node_ok (te_addr env) st \<Longrightarrow> coins_consistent env st \<Longrightarrow> ConnectTip env p st = returnF (TipInvalid code corrupt st') \<Longrightarrow>
      same_rest st st' \<and> (if corrupt then st' = st else refuses_tip (te_addr env) p st st')"
    using ConnectTip_invalid by blast
  show "node_ok (te_addr env) st \<Longrightarrow> coins_consistent env st \<Longrightarrow> ConnectTip env p st = returnF (TipError st') \<Longrightarrow> node_ok (te_addr env) st'"
    by (rule ConnectTip_error)
  show "node_ok (te_addr env) st \<Longrightarrow> coins_consistent env st \<Longrightarrow> DisconnectTip env st = returnF (TipDone st') \<Longrightarrow>
      \<exists>p. Tip (chainActive st) = Some p \<and> retracts_tip p st st' \<and> coins_consistent env st'"
    by (rule DisconnectTip_done)
  show "node_ok (te_addr env) st \<Longrightarrow> coins_consistent env st \<Longrightarrow> DisconnectTip env st = returnF (TipError st') \<Longrightarrow> node_ok (te_addr env) st'"
    by (rule DisconnectTip_error)
  show "DisconnectTip env st \<noteq> returnF (TipInvalid code corrupt st')" by (rule DisconnectTip_valid)
  show "coins_consistent env st \<Longrightarrow> same_rest st st' \<Longrightarrow> coins_consistent env st'" by (rule coins_consistent_rest)
qed

section \<open>A new block\<close>

text \<open>A new entry leaves the lineages of the others as they are.\<close>

lemma lineage_extend:
  assumes "index_wf idx" and "idx p = Some e" and "idx h = None"
  shows "lineage (idx(h \<mapsto> n)) (Some p) = lineage idx (Some p)"
  using assms(1,2)
proof (induction rule: lineage_induct)
  case (root p e)
  then have "p \<noteq> h" using assms(3) by auto
  with root show ?case by (simp add: lineage_def height_def parent_def)
next
  case (step p e q f)
  have ne: "p \<noteq> h" "q \<noteq> h" using step(1,3) assms(3) by auto
  have w: "walk (idx(h \<mapsto> n)) (Suc (height idx q)) (Some p) = p # walk (idx(h \<mapsto> n)) (height idx q) (Some q)" using step(2) ne by (simp add: parent_def)
  have hp: "height (idx(h \<mapsto> n)) p = Suc (height idx q)" "height (idx(h \<mapsto> n)) q = height idx q" using step(4) ne by (simp_all add: height_def)
  show ?case using step.IH lineage_simps(2) [OF assms(1) step(1)] step(2) by (simp only: lineage_def option.case hp w)
qed

lemma index_wf_extend:
  assumes wf: "index_wf idx" and n: "idx h = None" "phashBlock e = h"
    and p: "case pprev e of None \<Rightarrow> nHeight e = 0 | Some q \<Rightarrow> \<exists>f. idx q = Some f \<and> nHeight e = nHeight f + 1"
  shows "index_wf (idx(h \<mapsto> e))"
proof -
  have pos: "0 \<le> nHeight f" if "idx q = Some f" for q f using wf that by (auto simp: index_wf_def split: option.splits) fastforce+
  show ?thesis unfolding index_wf_pointwise
  proof
    fix r
    show "case (idx(h \<mapsto> e)) r of None \<Rightarrow> True | Some e' \<Rightarrow> phashBlock e' = r \<and> (case pprev e' of None \<Rightarrow> nHeight e' = 0
      | Some q \<Rightarrow> (case (idx(h \<mapsto> e)) q of None \<Rightarrow> False | Some f \<Rightarrow> 0 \<le> nHeight f \<and> nHeight e' = nHeight f + 1))"
    proof (cases "r = h")
      case True
      have "q \<noteq> h" if "idx q = Some f" for q f using that n(1) by auto
      with True n(2) p pos show ?thesis by (cases "pprev e") auto
    next
      case False
      have "case idx r of None \<Rightarrow> True | Some e \<Rightarrow> phashBlock e = r \<and>
        (case pprev e of None \<Rightarrow> nHeight e = 0 | Some q \<Rightarrow> (case idx q of None \<Rightarrow> False | Some f \<Rightarrow> 0 \<le> nHeight f \<and> nHeight e = nHeight f + 1))"
        using wf [unfolded index_wf_pointwise] by (rule spec)
      with False n(1) show ?thesis by (cases "idx r") (auto split: option.splits if_splits)
    qed
  qed
qed

lemma work_less_total:
  assumes "inj_on addr (dom idx)" and "p \<in> dom idx" and "q \<in> dom idx" and "p \<noteq> q"
  shows "work_less addr idx p q \<longleftrightarrow> \<not> work_less addr idx q p"
proof -
  have d: "idx p \<noteq> None" "idx q \<noteq> None" using assms(2,3) by auto
  have "work_key addr idx p \<noteq> work_key addr idx q" using work_key_inj [OF assms(1) d] assms(4) by blast
  then show ?thesis unfolding work_less_iff [OF d] work_less_iff [OF d(2,1)] by auto
qed

lemma cset_insert_append:
  assumes "\<forall>x\<in>set a. lt x p" and "\<forall>x\<in>set b. \<not> lt x p \<and> lt p x"
  shows "cset_insert lt p (a @ b) = a @ p # b"
proof -
  have t: "takeWhile (\<lambda>q. lt q p) (a @ b) = a @ takeWhile (\<lambda>q. lt q p) b" "dropWhile (\<lambda>q. lt q p) (a @ b) = dropWhile (\<lambda>q. lt q p) b"
    using assms(1) by (simp_all add: takeWhile_append2 dropWhile_append2)
  show ?thesis unfolding cset_insert_def t using assms(2) by (cases b) simp_all
qed

lemma split_while: "\<exists>a b. xs = a @ b \<and> (\<forall>x\<in>set a. P x) \<and> (b \<noteq> [] \<longrightarrow> \<not> P (hd b))"
  by (rule exI [of _ "takeWhile P xs"], rule exI [of _ "dropWhile P xs"]) (auto simp: hd_dropWhile dest: set_takeWhileD)

lemma cset_insert_ok:
  assumes inj: "inj_on addr (dom idx)" and d: "set xs \<subseteq> dom idx" "p \<in> dom idx" "p \<notin> set xs" and s: "sorted_wrt (work_less addr idx) xs"
  shows "sorted_wrt (work_less addr idx) (cset_insert (work_less addr idx) p xs)" "set (cset_insert (work_less addr idx) p xs) = insert p (set xs)"
proof -
  let ?lt = "work_less addr idx"
  obtain a b where ab: "xs = a @ b" and before: "\<forall>x\<in>set a. ?lt x p" and hb: "b \<noteq> [] \<Longrightarrow> \<not> ?lt (hd b) p"
    using split_while [of xs "\<lambda>x. ?lt x p"] by blast
  have sp: "sorted_wrt ?lt a" "sorted_wrt ?lt b" "\<forall>x\<in>set a. \<forall>y\<in>set b. ?lt x y" using s by (simp_all add: ab sorted_wrt_append)
  have ge: "\<not> ?lt y p \<and> ?lt p y" if y: "y \<in> set b" for y
  proof -
    obtain q r where b: "b = q # r" using y by (cases b) auto
    have q: "q \<in> dom idx" "y \<in> dom idx" "q \<noteq> p" "y \<noteq> p" using d y by (auto simp: ab b)
    have pq: "?lt p q" using work_less_total [OF inj d(2) q(1)] hb q(3) by (auto simp: b)
    then have "?lt p y" using work_less_order [of idx p q y addr] sp(2) y q d(2) by (auto simp: b)
    then show ?thesis using work_less_total [OF inj d(2) q(2)] q(4) by auto
  qed
  have c: "cset_insert ?lt p xs = a @ p # b" unfolding ab by (rule cset_insert_append) (use before ge in auto)
  show "sorted_wrt ?lt (cset_insert ?lt p xs)" unfolding c using sp before ge by (simp add: sorted_wrt_append)
  show "set (cset_insert ?lt p xs) = insert p (set xs)" unfolding c by (auto simp: ab)
qed

text \<open>The chains and their coins in an index with a new entry.\<close>

lemma chain_coins_extend:
  assumes "index_wf idx" and "valid_ptr idx t" and "idx h = None"
  shows "lineage (idx(h \<mapsto> n)) t = lineage idx t" "chain_coins env (idx(h \<mapsto> n)) t = chain_coins env idx t"
proof -
  show l: "lineage (idx(h \<mapsto> n)) t = lineage idx t" using lineage_extend [OF assms(1) _ assms(3)] assms(2) by (cases t) auto
  have "apply_block env (idx(h \<mapsto> n)) q = apply_block env idx q" if "q \<in> set (lineage idx t)" for q
  proof -
    have "\<exists>e. idx q = Some e" using that lineage_mem [OF assms(1)] assms(2) by (cases t) auto
    then have "q \<noteq> h" using assms(3) by auto
    then have "block_of env (idx(h \<mapsto> n)) q = block_of env idx q" "height (idx(h \<mapsto> n)) q = height idx q" by (simp_all add: block_of_def height_def)
    then show ?thesis by (intro ext) (simp only: apply_block_def)
  qed
  then show "chain_coins env (idx(h \<mapsto> n)) t = chain_coins env idx t" unfolding chain_coins_def l by (intro fold_cong) simp_all
qed

lemma undo_ok_extend:
  assumes wf: "index_wf idx" and p: "p \<in> dom idx" and h: "idx h = None" and u: "undo_ok env idx p u"
  shows "undo_ok env (idx(h \<mapsto> n)) p u"
proof -
  have ne: "p \<noteq> h" using p h by auto
  then have same: "block_of env (idx(h \<mapsto> n)) p = block_of env idx p" "height (idx(h \<mapsto> n)) p = height idx p" "parent (idx(h \<mapsto> n)) p = parent idx p"
    by (simp_all add: block_of_def height_def parent_def)
  have "chain_coins env (idx(h \<mapsto> n)) (Some p) = chain_coins env idx (Some p)" "chain_coins env (idx(h \<mapsto> n)) (parent idx p) = chain_coins env idx (parent idx p)"
    using chain_coins_extend(2) [OF wf _ h] valid_parent [OF wf] p by (auto simp: domIff)
  then show ?thesis using u unfolding undo_ok_def same by simp
qed

lemma work_less_extend: "p \<noteq> h \<Longrightarrow> q \<noteq> h \<Longrightarrow> work_less addr (idx(h \<mapsto> n)) p q = work_less addr idx p q"
  by (simp add: work_less_def)

lemma node_ok_extend:
  assumes ok: "node_ok addr st" and inj: "inj addr" and h: "ns_index st h = None" and wf: "index_wf ((ns_index st)(h \<mapsto> n))" and f: "nStatus n AND BLOCK_FAILED_MASK = 0"
    and st': "ns_index st' = (ns_index st)(h \<mapsto> n)" "chainActive st' = chainActive st" "chainMostWork st' = chainMostWork st"
      "setBlockIndexValid st' = cset_insert (work_less addr (ns_index st')) h (setBlockIndexValid st)"
  shows "node_ok addr st'"
proof -
  note o = node_okD [OF ok]
  have cw: "chain_wf (ns_index st') c" if "chain_wf (ns_index st) c" for c
    using that chain_coins_extend(1) [OF o(1) _ h] by (auto simp: chain_wf_def chain_of_def st'(1) valid_ptr_def)
  have s: "set (setBlockIndexValid st) \<subseteq> dom (ns_index st')" "h \<in> dom (ns_index st')" "h \<notin> set (setBlockIndexValid st)" using o(6) h by (auto simp: st'(1))
  have "sorted_wrt (work_less addr (ns_index st')) (setBlockIndexValid st)"
  proof (rule sorted_wrt_mono_rel [OF _ o(7)])
    fix x y assume "x \<in> set (setBlockIndexValid st)" "y \<in> set (setBlockIndexValid st)" "work_less addr (ns_index st) x y"
    moreover from this have "x \<noteq> h" "y \<noteq> h" using s(3) by auto
    ultimately show "work_less addr (ns_index st') x y" unfolding st'(1) by (simp only: work_less_extend not_False_eq_True)
  qed
  note ins = cset_insert_ok [OF inj_on_subset [OF inj] s this]
  have "\<not> failed (ns_index st') p" if "p \<in> set (setBlockIndexValid st')" for p
  proof (cases "p = h")
    case True
    then show ?thesis using f by (simp add: failed_def st'(1))
  next
    case False
    then have "p \<in> set (setBlockIndexValid st)" using that ins(2) st'(4) by simp
    then show ?thesis using o(8) False by (simp add: failed_def st'(1))
  qed
  moreover have "finite (dom (ns_index st'))" using o(2) by (simp add: st'(1))
  moreover have "inj_on addr (dom (ns_index st'))" by (rule inj_on_subset [OF inj]) simp
  moreover have "sorted_wrt (work_less addr (ns_index st')) (setBlockIndexValid st')" "set (setBlockIndexValid st') \<subseteq> dom (ns_index st')" using ins s by (simp_all add: st'(4))
  ultimately show ?thesis using wf cw [OF o(4)] cw [OF o(5)] unfolding node_ok_def st'(2,3) by (simp add: st'(1))
qed

lemma link_block_Inr:
  assumes l: "link_block block pos (idx(h \<mapsto> n0)) n0 = Inr n" and n0: "n0 = new_CBlockNode block h seq" and ne: "hashPrevBlock block \<noteq> h"
  shows "phashBlock n = h" "nHeight n < 2 ^ 31" "nStatus n AND BLOCK_FAILED_MASK = 0" "case pprev n of None \<Rightarrow> nHeight n = 0 | Some q \<Rightarrow> \<exists>f. idx q = Some f \<and> nHeight n = nHeight f + 1"
    "pprev n = None \<Longrightarrow> idx (hashPrevBlock block) = None"
  using l ne unfolding n0
  by (auto simp: link_block_def new_CBlockNode_def bindE_eq_Inr i32_def int32_range_def BLOCK_VALID_TRANSACTIONS_def BLOCK_HAVE_DATA_def BLOCK_FAILED_MASK_def split: option.splits if_splits)

text \<open>What a new block has to satisfy: its parent is known unless it is the genesis block, and its hash is none of three values.\<close>

definition admissible :: "tip_env \<Rightarrow> full_node \<Rightarrow> CBlock \<Rightarrow> bool" where
  "admissible env st block \<longleftrightarrow> (let hash = CBlockHeader_GetHash (env_Hash9 (cn_chain (te_rules env))) block in
     hash \<notin> {0, 0x00000000000a4d0a398161ffc163c503763b1f4360639393e0e4c8e300e0caec, 0x00000000000743f190a18c5577a3c2d2a1f610ae9601ac046a38084ccb7cd721}
     \<and> hashPrevBlock block \<noteq> hash \<and> (ns_index st (hashPrevBlock block) \<noteq> None \<or> hash = HashGenesisBlock (cn_chain (te_rules env))))"

lemma new_entry_ok:
  assumes ok: "node_ok (te_addr env) st" and k: "coins_consistent env st" and inj: "inj (te_addr env)" and a: "admissible env st block"
    and h: "h = CBlockHeader_GetHash (env_Hash9 (cn_chain (te_rules env))) block" "ns_index st h = None"
    and l: "link_block block pos ((ns_index st)(h \<mapsto> new_CBlockNode block h seq)) (new_CBlockNode block h seq) = Inr n"
    and st': "ns_index st' = (ns_index st)(h \<mapsto> n)" "chainActive st' = chainActive st" "chainMostWork st' = chainMostWork st"
      "setBlockIndexValid st' = cset_insert (work_less (te_addr env) (ns_index st')) h (setBlockIndexValid st)"
      "pcoinsTip st' = pcoinsTip st" "undo_files st' = undo_files st"
  shows "node_ok (te_addr env) st'" "coins_consistent env st'"
proof -
  note o = node_okD [OF ok]
  have ne: "hashPrevBlock block \<noteq> h" using a by (simp add: admissible_def h(1) Let_def)
  note n = link_block_Inr [OF l refl ne]
  show "node_ok (te_addr env) st'" by (rule node_ok_extend [OF ok inj h(2) index_wf_extend [OF o(1) h(2) n(1,4)] n(3) st'(1-4)])
  have tv: "valid_ptr (ns_index st) (Tip (chainActive st))" using chain_wf_Tip(2) [OF o(1,4)] .
  have sane: "index_sane env (ns_index st')"
  proof -
    have "index_sane env (ns_index st)" using k by (simp add: coins_consistent_def)
    moreover have "fEnforceBIP30 True (CBlockIndex.truncate n)" using a n(1) by (simp add: admissible_def fEnforceBIP30_def h(1) Let_def)
    moreover have "pprev n = None \<longrightarrow> h = HashGenesisBlock (cn_chain (te_rules env))" using n(5) a by (auto simp: admissible_def h(1) Let_def)
    moreover have "h \<noteq> 0" using a by (simp add: admissible_def h(1) Let_def)
    ultimately show ?thesis using n(2) by (simp add: index_sane_def st'(1))
  qed
  have "coins_map_ok (chain_coins env (ns_index st') (Some p))" if "p \<in> set (lineage (ns_index st) (Tip (chainActive st)))" for p
  proof -
    have "valid_ptr (ns_index st) (Some p)" using that tv lineage_mem [OF o(1)] by (cases "Tip (chainActive st)") fastforce+
    then show ?thesis using k that chain_coins_extend(2) [OF o(1) _ h(2)] by (simp add: coins_consistent_def st'(1))
  qed
  moreover have "p \<in> dom (ns_index st') \<and> undo_ok env (ns_index st') p u" if "undo_files st p = Some u" for p u
    using k that undo_ok_extend [OF o(1) _ h(2)] by (simp add: coins_consistent_def st'(1))
  ultimately show "coins_consistent env st'"
    using k sane chain_coins_extend [OF o(1) tv h(2)] by (simp add: coins_consistent_def st')
qed

lemma AddToBlockIndex_ok:
  assumes ok: "node_ok (te_addr env) st" and k: "coins_consistent env st" and inj: "inj (te_addr env)" and a: "admissible env st block"
    and r: "AddToBlockIndex env fuel block pos st = returnF (True, st')"
  shows "node_ok (te_addr env) st' \<and> coins_consistent env st'"
    "dom (ns_index st') = insert (CBlockHeader_GetHash (env_Hash9 (cn_chain (te_rules env))) block) (dom (ns_index st))"
proof -
  define h where "h = CBlockHeader_GetHash (env_Hash9 (cn_chain (te_rules env))) block"
  from r have h: "ns_index st h = None" by (auto simp: AddToBlockIndex_def Let_def simp flip: h_def split: if_splits)
  with r obtain n where n: "link_block block pos ((ns_index st)(h \<mapsto> new_CBlockNode block h (nBlockSequenceId st))) (new_CBlockNode block h (nBlockSequenceId st)) = Inr n"
    by (auto simp: AddToBlockIndex_def Let_def bindF_eq_Inr simp flip: h_def)
  let ?idx = "(ns_index st)(h \<mapsto> n)"
  let ?s = "st\<lparr>ns_index := ?idx, nBlockSequenceId := nBlockSequenceId st + 1,
    setBlockIndexValid := cset_insert (work_less (te_addr env) ?idx) h (setBlockIndexValid st)\<rparr>"
  have "ActivateBestChain env fuel ?s = returnF (True, st')" using r h n by (simp add: AddToBlockIndex_def Let_def flip: h_def split: if_splits)
  moreover have "node_ok (te_addr env) ?s" "coins_consistent env ?s" by (rule new_entry_ok [OF ok k inj a h_def h n]; simp)+
  ultimately have "node_ok (te_addr env) st' \<and> coins_consistent env st' \<and> tree (ns_index st') = tree ?idx"
    using node.activate_loop_ok [of env ?s] unfolding ActivateBestChain_def by simp
  then show "node_ok (te_addr env) st' \<and> coins_consistent env st'"
    "dom (ns_index st') = insert (CBlockHeader_GetHash (env_Hash9 (cn_chain (te_rules env))) block) (dom (ns_index st))"
    using same_tree(3) [of "ns_index st'" ?idx] by (auto simp flip: h_def)
qed

end
