(* ===== verification/Chain_Btc.thy ===== *)
theory Chain_Btc
  imports Chain_Node
begin

text \<open>
  Following the Bitcoin chain: \<open>CheckLastBlockState\<close> of \<open>main.cpp\<close>, which \<open>ProcessBlock\<close> calls before anything else. From the first block of the active chain
  that names one of the last five Bitcoin blocks up to the tip, every block is checked against the Bitcoin chain; a block with an
  outdated Bitcoin hash loses its descendants among the candidates, and the active chain is taken back below it.

  The reverse iterator over the set of candidates is a position from the end of the list. Reading it at the end, and reading
  through a null pointer, are faults.
\<close>

definition names_btc :: "block_index \<Rightarrow> u256 \<Rightarrow> int \<Rightarrow> bool" where
  "names_btc idx p h \<longleftrightarrow> (case idx p of None \<Rightarrow> False | Some e \<Rightarrow> h \<in> fst ` set (mBitcoinHash (idx_lottoHeader e)))"

text \<open>The heights the search runs through.\<close>

definition btc_heights :: "int \<Rightarrow> int list" where
  "btc_heights nCurBTCHeight = filter (\<lambda>h. h > BTC_START_HIGHT) (map (\<lambda>k. nCurBTCHeight - int k) [0..<5])"

text \<open>The inner loop of the search for the first block to check, on the ancestors that are left.\<close>

definition back_step :: "block_index \<Rightarrow> int \<Rightarrow> u256 list \<Rightarrow> u256 list result" where
  "back_step idx nBTCHeight l =
     (let l = dropWhile (\<lambda>p. names_btc idx p nBTCHeight) l in if l = [] then Inl OutOfBounds else Inr l)"

text \<open>The loop over the candidates, for the block \<open>b\<close> with an outdated hash. A step gives the next position, if the loop goes on.\<close>

definition btc_scan_step :: "(u256 \<Rightarrow> nat) \<Rightarrow> u256 \<Rightarrow> nat \<Rightarrow> 'a node_state_scheme \<Rightarrow> (nat option \<times> 'a node_state_scheme) result" where
  "btc_scan_step addr b i st =
     (let idx = ns_index st; nHeight = height idx b; vs = rev (setBlockIndexValid st) in
      if i \<ge> length vs then Inr (None, st)
      else let path = lineage idx (Some (vs ! i)) in
        case dropWhile (\<lambda>q. height idx q > nHeight) path of
          [] \<Rightarrow> Inl OutOfBounds
        | pBlockTest # _ \<Rightarrow>
            let failed_path = (if pBlockTest = b then takeWhile (\<lambda>q. q \<noteq> pBlockTest) path else []);
                st = fold (valid_erase addr) failed_path st;
                bInvalidBlock = (failed_path \<noteq> []);
                it = (if bInvalidBlock then 0 else i);
                vs = rev (setBlockIndexValid st)
            in if it \<ge> length vs then Inl OutOfBounds
               else if height idx (vs ! it) < nHeight then Inr (None, st)
               else Inr (Some (if bInvalidBlock then it else Suc it), st))"

fun btc_scan :: "(u256 \<Rightarrow> nat) \<Rightarrow> u256 \<Rightarrow> nat \<Rightarrow> nat \<Rightarrow> 'a node_state_scheme \<Rightarrow> 'a node_state_scheme result option" where
  "btc_scan addr b 0 i st = None"
| "btc_scan addr b (Suc fuel) i st = bindF (Some (btc_scan_step addr b i st)) (\<lambda>(next, st). case next of
     None \<Rightarrow> returnF st
   | Some i \<Rightarrow> btc_scan addr b fuel i st)"

definition btc_outdated :: "tip_env \<Rightarrow> nat \<Rightarrow> u256 \<Rightarrow> full_node \<Rightarrow> (bool \<times> full_node) result option" where
  "btc_outdated env fuel p st =
     (case parent (ns_index st) p of
        None \<Rightarrow> Some (Inl AssertFailed)
      | Some q \<Rightarrow> bindF (btc_scan (te_addr env) p fuel 0 st) (\<lambda>st.
          let st = set_most (Some q) st in disconnect_while (DisconnectTip env) (lineage (ns_index st) (Tip (chainActive st))) st))"

fun last_block_loop :: "tip_env \<Rightarrow> nat \<Rightarrow> nat \<Rightarrow> u256 \<Rightarrow> full_node \<Rightarrow> (bool \<times> full_node) result option" where
  "last_block_loop env fuel 0 p st = None"
| "last_block_loop env fuel (Suc n) p st =
     bindF (if \<not> CheckBTCHashValid (GetBitcoinBlockIndex (cn_chain (te_rules env))) (ns_index st) p then btc_outdated env fuel p st else returnF (True, st)) (\<lambda>(ok, st).
       if \<not> ok then returnF (False, st)
       else case Next (ns_index st) (chainActive st) p of
         None \<Rightarrow> returnF (True, st)
       | Some q \<Rightarrow> last_block_loop env fuel n q st)"

definition CheckLastBlockState :: "tip_env \<Rightarrow> nat \<Rightarrow> int \<Rightarrow> full_node \<Rightarrow> (bool \<times> full_node) result option" where
  "CheckLastBlockState env fuel nCurBTCHeight st =
     (if nCurBTCHeight \<le> BTC_START_HIGHT then returnF (True, st)
      else bindF (Some (foldE (back_step (ns_index st)) (btc_heights nCurBTCHeight)
          (lineage (ns_index st) (Tip (chainActive st))))) (\<lambda>l.
        last_block_loop env fuel (Suc (length (chainActive st))) (hd l) st))"

section \<open>What it keeps\<close>

lemma erase_path_keeps:
  assumes "node_ok addr st"
  shows "node_ok addr (fold (valid_erase addr) ps st) \<and> same_rest st (fold (valid_erase addr) ps st)
    \<and> ns_index (fold (valid_erase addr) ps st) = ns_index st \<and> length (setBlockIndexValid (fold (valid_erase addr) ps st)) \<le> length (setBlockIndexValid st)"
  using assms
proof (induction ps arbitrary: st)
  case (Cons p ps)
  let ?s = "valid_erase addr p st"
  have "ns_index ?s = ns_index st" "length (setBlockIndexValid ?s) \<le> length (setBlockIndexValid st)" by (simp_all add: valid_erase_def cset_erase_def)
  moreover note Cons.IH [OF search_steps_ok(1) [OF Cons.prems, of p]]
  ultimately show ?case using same_rest_trans [OF same_rest_steps(1)] by auto
qed simp

lemma btc_scan_step_keeps:
  assumes "node_ok addr st" and "btc_scan_step addr b i st = Inr (n, st')"
  shows "node_ok addr st' \<and> same_rest st st'"
proof -
  from assms(2) have "\<exists>ps. st' = fold (valid_erase addr) ps st"
    by (auto simp: btc_scan_step_def Let_def split: if_splits list.splits intro: exI [of _ "[]"])
  then show ?thesis using erase_path_keeps [OF assms(1)] by auto
qed

lemma btc_scan_keeps:
  assumes "node_ok addr st" and "btc_scan addr b fuel i st = returnF st'"
  shows "node_ok addr st' \<and> same_rest st st'"
  using assms
proof (induction fuel arbitrary: i st)
  case (Suc fuel)
  from Suc.prems(2) obtain n s where s: "btc_scan_step addr b i st = Inr (n, s)" "case n of None \<Rightarrow> st' = s | Some i \<Rightarrow> btc_scan addr b fuel i s = returnF st'"
    by (auto simp: bindF_eq_Inr split: option.splits)
  note k = btc_scan_step_keeps [OF Suc.prems(1) s(1)]
  show ?case using s(2) k Suc.IH [of s] same_rest_trans by (cases n) auto
qed simp

section \<open>It ends\<close>

lemma btc_scan_step_shrinks:
  assumes ok: "node_ok addr st" and s: "btc_scan_step addr b i st = Inr (Some i', st')"
  shows "length (setBlockIndexValid st') < length (setBlockIndexValid st) \<or> st' = st \<and> i' = Suc i \<and> i < length (setBlockIndexValid st)"
proof -
  define vs where "vs = rev (setBlockIndexValid st)"
  define path where "path = lineage (ns_index st) (Some (vs ! i))"
  from s have i: "i < length vs" by (auto simp: btc_scan_step_def Let_def simp flip: vs_def split: if_splits)
  from s i obtain x r where x: "dropWhile (\<lambda>q. height (ns_index st) q > height (ns_index st) b) path = x # r"
    by (auto simp: btc_scan_step_def Let_def simp flip: vs_def path_def split: list.splits)
  define ps where "ps = (if x = b then takeWhile (\<lambda>q. q \<noteq> x) path else [])"
  have "btc_scan_step addr b i st = (let st' = fold (valid_erase addr) ps st; it = (if ps \<noteq> [] then 0 else i); ws = rev (setBlockIndexValid st') in
      if it \<ge> length ws then Inl OutOfBounds else if height (ns_index st) (ws ! it) < height (ns_index st) b then Inr (None, st')
      else Inr (Some (if ps \<noteq> [] then it else Suc it), st'))"
    using i x unfolding btc_scan_step_def Let_def ps_def path_def vs_def by simp
  with s have st': "st' = fold (valid_erase addr) ps st" "ps = [] \<Longrightarrow> i' = Suc i" by (simp_all add: Let_def split: if_splits)
  show ?thesis
  proof (cases ps)
    case Nil
    then show ?thesis using st' i by (simp add: vs_def)
  next
    case (Cons p qs)
    have v: "vs ! i \<in> set (setBlockIndexValid st)" using i nth_mem [of i vs] by (simp add: vs_def)
    then obtain e where e: "ns_index st (vs ! i) = Some e" using node_okD(6) [OF ok] by auto
    have p: "p = vs ! i" using Cons lineage_simps(2) [OF node_okD(1) [OF ok] e] by (auto simp: ps_def path_def split: if_splits)
    have "\<not> work_less addr (ns_index st) p p" by (simp add: work_less_def split: option.splits)
    then have "length (setBlockIndexValid (valid_erase addr p st)) < length (setBlockIndexValid st)"
      using v p by (auto simp: valid_erase_def cset_erase_def intro!: length_filter_less)
    then show ?thesis using erase_path_keeps [OF search_steps_ok(1) [OF ok, of p], of qs] st'(1) Cons by auto
  qed
qed

lemma btc_scan_ends:
  assumes "node_ok addr st" and "length (setBlockIndexValid st) * Suc (length (setBlockIndexValid st)) + (length (setBlockIndexValid st) - i) < fuel"
  shows "btc_scan addr b fuel i st \<noteq> None"
  using assms
proof (induction fuel arbitrary: i st)
  case (Suc fuel)
  let ?n = "length (setBlockIndexValid st)"
  show ?case
  proof (cases "btc_scan_step addr b i st")
    case (Inr y)
    then obtain n s where s: "btc_scan_step addr b i st = Inr (n, s)" by (cases y) auto
    show ?thesis
    proof (cases n)
      case (Some j)
      let ?m = "length (setBlockIndexValid s)"
      from s Some have "btc_scan_step addr b i st = Inr (Some j, s)" by simp
      from btc_scan_step_shrinks [OF Suc.prems(1) this] have "?m * Suc ?m + (?m - j) < fuel"
      proof
        assume "?m < ?n"
        then have "Suc ?m * Suc ?m \<le> ?n * ?n" by (intro mult_le_mono) simp_all
        then show ?thesis using Suc.prems(2) by simp
      qed (use Suc.prems(2) in auto)
      then show ?thesis using s Some Suc.IH [of s j] btc_scan_step_keeps [OF Suc.prems(1) s] by simp
    qed (use s in simp)
  qed simp
qed simp

section \<open>What is left is current\<close>

lemma lineage_subset:
  assumes "index_wf idx" and "idx t = Some e" and "p \<in> set (lineage idx (Some t))"
  shows "set (lineage idx (Some p)) \<subseteq> set (lineage idx (Some t))"
proof -
  have "chain_of idx (Some p) = take (Suc (height idx p)) (chain_of idx (Some t))" using lineage_mem [OF assms] by simp
  then have "set (chain_of idx (Some p)) \<subseteq> set (chain_of idx (Some t))" using set_take_subset by metis
  then show ?thesis by (auto simp: chain_of_def)
qed

lemma Contains_lineage:
  assumes "index_wf idx" and "chain_wf idx c"
  shows "Contains idx c p \<longleftrightarrow> (\<exists>t. Tip c = Some t \<and> p \<in> set (lineage idx (Some t)))"
proof (cases "Tip c")
  case None
  then have "c = []" using chain_wf_Tip(1) [OF assms] by simp
  then show ?thesis using None by (simp add: Contains_def chain_get_def)
next
  case (Some t)
  then show ?thesis using chain_wf_Tip [OF assms] Contains_chain_of [OF assms(1)] by auto
qed

lemma lineage_below:
  assumes "index_wf idx" and "idx t = Some e" and "q \<in> set (lineage idx (Some t))"
  shows "x \<in> set (lineage idx (Some q)) \<longleftrightarrow> x \<in> set (lineage idx (Some t)) \<and> height idx x \<le> height idx q"
proof -
  from lineage_mem [OF assms] obtain f where f: "idx q = Some f" and k: "take (Suc (height idx q)) (chain_of idx (Some t)) = chain_of idx (Some q)" by blast
  show ?thesis
  proof
    assume "x \<in> set (lineage idx (Some q))"
    then show "x \<in> set (lineage idx (Some t)) \<and> height idx x \<le> height idx q" using lineage_subset [OF assms] lineage_mem [OF assms(1) f] by blast
  next
    assume a: "x \<in> set (lineage idx (Some t)) \<and> height idx x \<le> height idx q"
    then have "Contains idx (chain_of idx (Some t)) x" using Contains_chain_of [OF assms(1,2)] by simp
    then have "Contains idx (take (Suc (height idx q)) (chain_of idx (Some t))) x" using a by (auto simp: Contains_def chain_get_def split: if_splits)
    then show "x \<in> set (lineage idx (Some q))" using Contains_chain_of [OF assms(1) f] unfolding k by simp
  qed
qed

lemma btc_outdated_keeps:
  assumes ok: "node_ok (te_addr env) st" and k: "coins_consistent env st" and c: "Contains (ns_index st) (chainActive st) p"
    and r: "btc_outdated env fuel p st = returnF (True, st')"
  shows "node_ok (te_addr env) st' \<and> coins_consistent env st' \<and> tree (ns_index st') = tree (ns_index st)
    \<and> (\<forall>x. Contains (ns_index st) (chainActive st') x \<longleftrightarrow> Contains (ns_index st) (chainActive st) x \<and> height (ns_index st) x < height (ns_index st) p)"
proof -
  let ?idx = "ns_index st"
  note o = node_okD [OF ok]
  from r obtain q s where q: "parent ?idx p = Some q" and s: "btc_scan (te_addr env) p fuel 0 st = returnF s"
    and d: "disconnect_while (DisconnectTip env) (lineage (ns_index (set_most (Some q) s)) (Tip (chainActive (set_most (Some q) s)))) (set_most (Some q) s) = returnF (True, st')"
    by (auto simp: btc_outdated_def bindF_eq_Inr Let_def split: option.splits)
  let ?s = "set_most (Some q) s"
  obtain t e where t: "Tip (chainActive st) = Some t" "?idx t = Some e" "p \<in> set (lineage ?idx (Some t))"
    using c Contains_lineage [OF o(1,4)] chain_wf_Tip(2) [OF o(1,4)] by auto
  obtain f where f: "?idx p = Some f" using lineage_mem [OF o(1) t(2,3)] by blast
  obtain g where g: "?idx q = Some g" "height ?idx p = Suc (height ?idx q)" using parent_height(2) [OF o(1) f q] by blast
  note sk = btc_scan_keeps [OF ok s]
  have rest: "same_rest st ?s" using sk same_rest_trans [OF _ same_rest_steps(2)] by blast
  have ts: "tree (ns_index s) = tree ?idx" by (rule stored_tree) (use sk in \<open>simp add: same_rest_def\<close>)
  have vq: "valid_ptr (ns_index s) (Some q)" using g(1) same_tree(3) [OF ts] by auto
  have sok: "node_ok (te_addr env) ?s" by (rule search_steps_ok(2) [OF _ vq]) (use sk in simp)
  note so = node_okD [OF conjunct1 [OF sk]]
  have "fst (SetTip (ns_index s) (Some q) (chainMostWork s)) = chain_of (ns_index s) (Some q)"
    by (subst chain_wf_Tip(1) [OF so(1,5)]) (rule SetTip_chain [OF so(1) chain_wf_Tip(2) [OF so(1,5)] vq])
  then have most: "chainMostWork ?s = chain_of (ns_index s) (Some q)" by (simp add: set_most_def)
  note u = node.disconnect_while_ok [OF sok coins_consistent_rest [OF k rest] d refl]
  have tu: "tree (ns_index st') = tree ?idx" using u ts by (simp add: set_most_def)
  have wf: "chain_wf ?idx (chainActive st')" using node_okD(4) [of "te_addr env" st'] u same_tree_chain_wf(1) [OF tu] by simp
  have "q \<in> set (lineage ?idx (Some p))" using lineage_simps(2) [OF o(1) f] lineage_simps(2) [OF o(1) g(1)] q by simp
  then have qt: "q \<in> set (lineage ?idx (Some t))" using lineage_subset [OF o(1) t(2,3)] by blast
  have act: "chainActive ?s = chainActive st" using rest by (simp add: same_rest_def)
  have "q \<in> set (lineage (ns_index ?s) (Tip (chainActive st')))"
  proof (rule node.disconnect_while_stops [OF sok coins_consistent_rest [OF k rest] d refl])
    show "q \<in> set (lineage (ns_index ?s) (Tip (chainActive ?s)))" unfolding act using qt t(1) same_tree(7) [OF ts] by (simp add: set_most_def)
    show "Contains (ns_index ?s) (chainMostWork ?s) q" unfolding most
      using Contains_chain_of [OF so(1), of q] vq lineage_simps(2) [OF so(1)] by (auto simp: set_most_def)
  qed
  then have qy: "q \<in> set (lineage ?idx (Tip (chainActive st')))" using same_tree(7) [OF ts] by (simp add: set_most_def)
  then obtain y where y: "Tip (chainActive st') = Some y" by (cases "Tip (chainActive st')") auto
  obtain ey where ey: "?idx y = Some ey" using chain_wf_Tip(2) [OF o(1) wf] y by auto
  have "Contains ?idx (chain_of ?idx (Some q)) y" using u y most same_tree(8) [OF ts] same_tree(9) [OF tu] by auto
  then have "y \<in> set (lineage ?idx (Some q))" using Contains_chain_of [OF o(1) g(1)] by simp
  then have yq: "y = q" using same_lineage [OF o(1) ey g(1)] qy y by simp
  have "Contains ?idx (chainActive st') x \<longleftrightarrow> Contains ?idx (chainActive st) x \<and> height ?idx x < height ?idx p" for x
  proof -
    have "Contains ?idx (chainActive st') x \<longleftrightarrow> x \<in> set (lineage ?idx (Some q))" using Contains_lineage [OF o(1) wf] y yq by simp
    also have "\<dots> \<longleftrightarrow> x \<in> set (lineage ?idx (Some t)) \<and> height ?idx x \<le> height ?idx q" by (rule lineage_below [OF o(1) t(2) qt])
    finally show ?thesis using Contains_lineage [OF o(1,4)] t(1) g(2) by auto
  qed
  then show ?thesis using u tu by simp
qed

lemma Next_chain:
  assumes wf: "index_wf idx" and c: "chain_wf idx c" and p: "Contains idx c p"
  shows "Next idx c p = Some q \<Longrightarrow> Contains idx c q \<and> height idx q = Suc (height idx p)" "Next idx c p = None \<Longrightarrow> length c = Suc (height idx p)"
proof -
  have l: "height idx p < length c" using p by (auto simp: Contains_def chain_get_def split: if_splits)
  obtain t e where t: "c = chain_of idx (Some t)" "idx t = Some e" using chain_wf_Tip [OF wf c] l by (cases "Tip c") auto
  have n: "Next idx c p = chain_get c (int (Suc (height idx p)))" using p by (simp add: Next_def add.commute)
  have nth: "\<exists>q. c ! Suc (height idx p) = Some q \<and> height idx q = Suc (height idx p)" if "Suc (height idx p) < length c"
    using chain_of_nth [OF wf t(2)] that t(1) by blast
  have s: "chain_get c (int (Suc (height idx p))) = (if Suc (height idx p) < length c then c ! Suc (height idx p) else None)" by (simp add: chain_get_def nat_add_distrib)
  show "Contains idx c q \<and> height idx q = Suc (height idx p)" if "Next idx c p = Some q"
    using that nth unfolding n s by (auto simp: Contains_def chain_get_def split: if_splits)
  show "length c = Suc (height idx p)" if "Next idx c p = None" using that nth l unfolding n s by (auto split: if_splits)
qed

text \<open>The blocks of the active chain below the first one from height \<open>h\<close> on that does not agree with the Bitcoin chain.\<close>

definition current_up_to :: "tip_env \<Rightarrow> full_node \<Rightarrow> nat \<Rightarrow> u256 \<Rightarrow> bool" where
  "current_up_to env st h x \<longleftrightarrow> Contains (ns_index st) (chainActive st) x
     \<and> (\<forall>y. Contains (ns_index st) (chainActive st) y \<and> h \<le> height (ns_index st) y \<and> height (ns_index st) y \<le> height (ns_index st) x \<longrightarrow>
          CheckBTCHashValid (GetBitcoinBlockIndex (cn_chain (te_rules env))) (ns_index st) y)"

lemma last_block_loop_keeps:
  assumes "node_ok (te_addr env) st" and "coins_consistent env st" and "Contains (ns_index st) (chainActive st) p"
    and "\<forall>x. Contains (ns_index st) (chainActive st) x \<and> h \<le> height (ns_index st) x \<and> height (ns_index st) x < height (ns_index st) p \<longrightarrow>
      CheckBTCHashValid (GetBitcoinBlockIndex (cn_chain (te_rules env))) (ns_index st) x"
    and "last_block_loop env fuel n p st = returnF (True, st')" and "h \<le> height (ns_index st) p"
  shows "node_ok (te_addr env) st' \<and> coins_consistent env st' \<and> tree (ns_index st') = tree (ns_index st)
    \<and> (\<forall>x. Contains (ns_index st) (chainActive st') x \<longleftrightarrow> current_up_to env st h x)"
  using assms
proof (induction n arbitrary: p)
  case (Suc n)
  let ?idx = "ns_index st" and ?v = "CheckBTCHashValid (GetBitcoinBlockIndex (cn_chain (te_rules env))) (ns_index st)"
  note o = node_okD [OF Suc.prems(1)]
  show ?case
  proof (cases "?v p")
    case True
    show ?thesis
    proof (cases "Next ?idx (chainActive st) p")
      case None
      have "x = p \<or> height ?idx x < height ?idx p" if x: "Contains ?idx (chainActive st) x" for x
      proof -
        have "height ?idx x < length (chainActive st)" using x by (auto simp: Contains_def chain_get_def split: if_splits)
        moreover have "x = p" if "height ?idx x = height ?idx p" using x Suc.prems(3) that by (simp add: Contains_def)
        ultimately show ?thesis using Next_chain(2) [OF o(1,4) Suc.prems(3) None] by (auto simp: less_Suc_eq)
      qed
      then have "current_up_to env st h x" if "Contains ?idx (chainActive st) x" for x
        using Suc.prems(4) True that unfolding current_up_to_def by blast
      then show ?thesis using Suc.prems True None by (auto simp: current_up_to_def)
    next
      case (Some q)
      note q = Next_chain(1) [OF o(1,4) Suc.prems(3) Some]
      have "?v x" if "Contains ?idx (chainActive st) x" "h \<le> height ?idx x" "height ?idx x < height ?idx q" for x
      proof (cases "height ?idx x = height ?idx p")
        case t: True
        then have "x = p" using that(1) Suc.prems(3) by (simp add: Contains_def)
        then show ?thesis using True by simp
      qed (use that q Suc.prems(4) in auto)
      then have "\<forall>x. Contains ?idx (chainActive st) x \<and> h \<le> height ?idx x \<and> height ?idx x < height ?idx q \<longrightarrow> ?v x" by blast
      moreover have "last_block_loop env fuel n q st = returnF (True, st')" using Suc.prems(5) True Some by simp
      ultimately show ?thesis by (rule Suc.IH [OF Suc.prems(1,2) conjunct1 [OF q]]) (use q Suc.prems(6) in simp)
    qed
  next
    case False
    with Suc.prems(5) obtain ok s where s: "btc_outdated env fuel p st = returnF (ok, s)" by (auto simp: bindF_eq_Inr)
    then have okT: ok using Suc.prems(5) False by (cases ok) auto
    from s okT have "btc_outdated env fuel p st = returnF (True, s)" by simp
    note k = btc_outdated_keeps [OF Suc.prems(1-3) this]
    have t: "tree (ns_index s) = tree ?idx" using k by blast
    have "\<not> Contains (ns_index s) (chainActive s) p" unfolding same_tree(9) [OF t] using k by blast
    then have "st' = s" using Suc.prems(5) False s okT by (simp add: Next_def)
    moreover have "current_up_to env st h x \<longleftrightarrow> Contains ?idx (chainActive st) x \<and> height ?idx x < height ?idx p" for x
    proof
      assume c: "current_up_to env st h x"
      have "\<not> height ?idx p \<le> height ?idx x" using c Suc.prems(3,6) False unfolding current_up_to_def by blast
      then show "Contains ?idx (chainActive st) x \<and> height ?idx x < height ?idx p" using c by (simp add: current_up_to_def)
    next
      assume "Contains ?idx (chainActive st) x \<and> height ?idx x < height ?idx p"
      then show "current_up_to env st h x" using Suc.prems(4) unfolding current_up_to_def by (meson le_less_trans)
    qed
    ultimately show ?thesis using k by simp
  qed
qed simp

text \<open>Where the search for the first block to check stops after each of the five Bitcoin heights: \<open>n k\<close> is the height of the block that is reached before
  Bitcoin height \<open>nBTC - k\<close> is looked for. From there the search goes down over the blocks that name this Bitcoin height to the first one that does not.\<close>

definition search_stops :: "block_index \<Rightarrow> CChain \<Rightarrow> int \<Rightarrow> nat \<Rightarrow> (nat \<Rightarrow> nat) \<Rightarrow> bool" where
  "search_stops idx c nBTC m n \<longleftrightarrow> length c = Suc (n 0) \<and> (\<forall>k<m.
     if nBTC - int k \<le> BTC_START_HIGHT then n (Suc k) = n k
     else n (Suc k) \<le> n k \<and> (\<forall>x. Contains idx c x \<and> n (Suc k) \<le> height idx x \<and> height idx x \<le> n k \<longrightarrow>
       (names_btc idx x (nBTC - int k) \<longleftrightarrow> height idx x \<noteq> n (Suc k))))"

lemma lineage_falls:
  assumes "index_wf idx" and "idx t = Some e"
  shows "sorted_wrt (\<lambda>x y. height idx y < height idx x) (lineage idx (Some t))"
  using assms
proof (induction rule: lineage_induct)
  case (root t e)
  then show ?case using lineage_simps(2) [OF assms(1) root(1)] by simp
next
  case (step p e q f)
  have "height idx x < height idx p" if "x \<in> set (lineage idx (Some q))" for x
    using lineage_mem [OF assms(1) step(3) that] step(4) by simp
  then show ?case using lineage_simps(2) [OF assms(1) step(1)] step(2,5) by simp
qed

lemma lineage_suffix:
  assumes "index_wf idx" and "idx t = Some e" and "lineage idx (Some t) = a @ p # m"
  shows "lineage idx (Some p) = p # m"
  using assms(1,2,3)
proof (induction arbitrary: a rule: lineage_induct)
  case (root t e)
  then show ?case using lineage_simps(2) [OF assms(1) root(1)] by (auto simp: Cons_eq_append_conv)
next
  case (step t e q f)
  show ?case
  proof (cases a)
    case Nil
    then show ?thesis using step.prems lineage_simps(2) [OF assms(1) step(1)] by auto
  next
    case (Cons x b)
    then have "lineage idx (Some q) = b @ p # m" using step.prems lineage_simps(2) [OF assms(1) step(1)] step(2) by simp
    then show ?thesis by (rule step(5))
  qed
qed

lemma back_step_stops:
  assumes wf: "index_wf idx" and t: "idx t = Some e" and u: "u \<in> set (lineage idx (Some t))" and b: "back_step idx h (lineage idx (Some u)) = Inr l"
  shows "\<exists>v. l = lineage idx (Some v) \<and> v \<in> set (lineage idx (Some t)) \<and> height idx v \<le> height idx u
    \<and> (\<forall>x\<in>set (lineage idx (Some t)). height idx v \<le> height idx x \<and> height idx x \<le> height idx u \<longrightarrow> (names_btc idx x h \<longleftrightarrow> height idx x \<noteq> height idx v))"
proof -
  obtain f where f: "idx u = Some f" using lineage_mem [OF wf t u] by blast
  let ?n = "\<lambda>p. names_btc idx p h" and ?L = "lineage idx (Some u)"
  from b obtain v m where l: "l = v # m" "dropWhile ?n ?L = v # m" by (cases "dropWhile ?n ?L") (auto simp: back_step_def)
  have L: "?L = takeWhile ?n ?L @ v # m" using takeWhile_dropWhile_id [of ?n ?L] l(2) by simp
  have v: "\<not> ?n v" using l(2) by (metis hd_dropWhile list.distinct(1) list.sel(1))
  have lv: "lineage idx (Some v) = l" using lineage_suffix [OF wf f L] l(1) by simp
  have sub: "set ?L \<subseteq> set (lineage idx (Some t))" by (rule lineage_subset [OF wf t u])
  have vL: "v \<in> set ?L" by (subst L) simp
  have fall: "\<forall>x\<in>set (takeWhile ?n ?L). height idx v < height idx x" "\<forall>x\<in>set m. height idx x < height idx v"
    using lineage_falls [OF wf f] L by (metis (no_types, lifting) list.set_intros(1) sorted_wrt.simps(2) sorted_wrt_append)+
  have "?n x \<longleftrightarrow> height idx x \<noteq> height idx v"
    if x: "x \<in> set (lineage idx (Some t))" "height idx v \<le> height idx x" "height idx x \<le> height idx u" for x
  proof -
    have "x \<in> set (takeWhile ?n ?L @ v # m)" using lineage_below [OF wf t u] x(1,3) L by metis
    then consider "x \<in> set (takeWhile ?n ?L)" | "x = v" | "x \<in> set m" by auto
    then show ?thesis
    proof cases
      case 1
      then show ?thesis using fall(1) set_takeWhileD [OF 1] by auto
    next
      case 2
      then show ?thesis using v by simp
    next
      case 3
      then show ?thesis using fall(2) x(2) by fastforce
    qed
  qed
  then show ?thesis using lv vL sub lineage_mem [OF wf f vL] by (intro exI [of _ v]) auto
qed

lemma search_stops_found:
  assumes wf: "index_wf idx" and c: "chain_wf idx c" and t: "Tip c = Some t" "idx t = Some e"
    and l: "foldE (back_step idx) (filter (\<lambda>h. h > BTC_START_HIGHT) (map (\<lambda>k. nBTC - int k) [0..<m])) (lineage idx (Some t)) = Inr l"
  shows "\<exists>n u. search_stops idx c nBTC m n \<and> l = lineage idx (Some u) \<and> u \<in> set (lineage idx (Some t)) \<and> height idx u = n m"
  using l
proof (induction m arbitrary: l)
  case 0
  have "c = chain_of idx (Some t)" using chain_wf_Tip(1) [OF wf c] t(1) by simp
  then have "length c = Suc (height idx t)" using chain_of_step(2) [OF wf t(2)] by simp
  moreover have "t \<in> set (lineage idx (Some t))" using lineage_simps(2) [OF wf t(2)] by simp
  ultimately show ?case using 0 by (intro exI [of _ "\<lambda>_. height idx t"] exI [of _ t]) (simp add: search_stops_def)
next
  case (Suc m)
  let ?h = "nBTC - int m"
  have mem: "Contains idx c x \<longleftrightarrow> x \<in> set (lineage idx (Some t))" for x using Contains_lineage [OF wf c] t(1) by simp
  from Suc.prems obtain l1 where l1: "foldE (back_step idx) (filter (\<lambda>h. h > BTC_START_HIGHT) (map (\<lambda>k. nBTC - int k) [0..<m])) (lineage idx (Some t)) = Inr l1"
    and l: "if ?h \<le> BTC_START_HIGHT then l = l1 else back_step idx ?h l1 = Inr l"
    by (auto simp: foldE_append bindE_eq_Inr split: if_splits)
  from Suc.IH [OF l1] obtain n u where n: "search_stops idx c nBTC m n" "l1 = lineage idx (Some u)" "u \<in> set (lineage idx (Some t))" "height idx u = n m" by blast
  have ext: "search_stops idx c nBTC (Suc m) (n(Suc m := k))"
    if "if ?h \<le> BTC_START_HIGHT then k = n m else k \<le> n m \<and> (\<forall>x. Contains idx c x \<and> k \<le> height idx x \<and> height idx x \<le> n m \<longrightarrow> (names_btc idx x ?h \<longleftrightarrow> height idx x \<noteq> k))" for k
    using n(1) that unfolding search_stops_def by (auto simp: less_Suc_eq)
  show ?case
  proof (cases "?h \<le> BTC_START_HIGHT")
    case True
    have "search_stops idx c nBTC (Suc m) (n(Suc m := n m))" by (rule ext) (use True in simp)
    moreover have "l = lineage idx (Some u)" "height idx u = (n(Suc m := n m)) (Suc m)" using l n True by simp_all
    ultimately show ?thesis using n(3) by blast
  next
    case False
    then have "back_step idx ?h (lineage idx (Some u)) = Inr l" using l n(2) by simp
    from back_step_stops [OF wf t(2) n(3) this] obtain v where v: "l = lineage idx (Some v)" "v \<in> set (lineage idx (Some t))" "height idx v \<le> height idx u"
      "\<forall>x\<in>set (lineage idx (Some t)). height idx v \<le> height idx x \<and> height idx x \<le> height idx u \<longrightarrow> (names_btc idx x ?h \<longleftrightarrow> height idx x \<noteq> height idx v)" by blast
    have "search_stops idx c nBTC (Suc m) (n(Suc m := height idx v))"
      by (rule ext) (use False v(3,4) n(4) mem in simp)
    moreover have "height idx v = (n(Suc m := height idx v)) (Suc m)" by simp
    ultimately show ?thesis using v(1,2) by blast
  qed
qed

text \<open>With enough fuel for the candidates, a call only runs out of it when disconnecting a block does.\<close>

lemma disconnect_while_ends:
  assumes "\<And>s. disc s \<noteq> None"
  shows "disconnect_while disc ps st \<noteq> None"
proof (induction ps arbitrary: st)
  case (Cons p ps)
  obtain r where "disc st = Some r" using assms [of st] by blast
  then show ?case using Cons by (cases r) (auto split: tip_outcome.splits)
qed simp

lemma btc_outdated_ends:
  assumes "node_ok (te_addr env) st" and "\<And>s. DisconnectTip env s \<noteq> None" and "length (setBlockIndexValid st) * (length (setBlockIndexValid st) + 2) < fuel"
  shows "btc_outdated env fuel p st \<noteq> None"
proof (cases "parent (ns_index st) p")
  case (Some q)
  have "btc_scan (te_addr env) p fuel 0 st \<noteq> None" by (rule btc_scan_ends [OF assms(1)]) (use assms(3) in \<open>simp add: algebra_simps\<close>)
  then obtain r where "btc_scan (te_addr env) p fuel 0 st = Some r" by blast
  then show ?thesis using disconnect_while_ends [OF assms(2)] Some by (cases r) (simp_all add: btc_outdated_def Let_def)
qed (simp add: btc_outdated_def)

lemma last_block_loop_ends:
  assumes "node_ok (te_addr env) st" and "coins_consistent env st" and "Contains (ns_index st) (chainActive st) p" and "\<And>s. DisconnectTip env s \<noteq> None"
    and "length (setBlockIndexValid st) * (length (setBlockIndexValid st) + 2) < fuel" and "length (chainActive st) \<le> n + height (ns_index st) p"
  shows "last_block_loop env fuel (Suc n) p st \<noteq> None"
  using assms(3,6)
proof (induction n arbitrary: p)
  case 0
  then show ?case by (auto simp: Contains_def chain_get_def split: if_splits)
next
  case (Suc n)
  note o = node_okD [OF assms(1)]
  show ?case
  proof (cases "CheckBTCHashValid (GetBitcoinBlockIndex (cn_chain (te_rules env))) (ns_index st) p")
    case True
    show ?thesis
    proof (cases "Next (ns_index st) (chainActive st) p")
      case (Some q)
      have "last_block_loop env fuel (Suc n) q st \<noteq> None" by (rule Suc.IH) (use Next_chain(1) [OF o(1,4) Suc.prems(1) Some] Suc.prems(2) in simp_all)
      then show ?thesis using True Some by (simp del: last_block_loop.simps add: last_block_loop.simps(2) [of _ _ "Suc n"])
    qed (use True in simp)
  next
    case False
    obtain r where r: "btc_outdated env fuel p st = Some r" using btc_outdated_ends [OF assms(1,4,5)] by blast
    show ?thesis
    proof (cases "\<exists>s. r = Inr (True, s)")
      case True
      then obtain s where s: "btc_outdated env fuel p st = returnF (True, s)" using r by blast
      note k = btc_outdated_keeps [OF assms(1,2) Suc.prems(1) s]
      have t: "tree (ns_index s) = tree (ns_index st)" using k by blast
      have "\<not> Contains (ns_index s) (chainActive s) p" unfolding same_tree(9) [OF t] using k by blast
      then show ?thesis using False s by (simp add: Next_def)
    qed (use False r in \<open>cases r; auto\<close>)
  qed
qed

lemma CheckLastBlockState_ends:
  assumes ok: "node_ok (te_addr env) st" "coins_consistent env st" and d: "\<And>s. DisconnectTip env s \<noteq> None"
    and f: "length (setBlockIndexValid st) * (length (setBlockIndexValid st) + 2) < fuel"
  shows "CheckLastBlockState env fuel nBTC st \<noteq> None"
proof (cases "foldE (back_step (ns_index st)) (btc_heights nBTC) (lineage (ns_index st) (Tip (chainActive st)))")
  case (Inr l)
  note o = node_okD [OF ok(1)]
  show ?thesis
  proof (cases "nBTC \<le> BTC_START_HIGHT")
    case False
    have "btc_heights nBTC \<noteq> []" using False by (auto simp: btc_heights_def filter_empty_conv intro!: bexI [of _ "0::nat"])
    then have ne: "lineage (ns_index st) (Tip (chainActive st)) \<noteq> []" using Inr by (cases "btc_heights nBTC") (auto simp: back_step_def)
    then obtain t where t: "Tip (chainActive st) = Some t" by (cases "Tip (chainActive st)") auto
    then obtain e where e: "ns_index st t = Some e" using chain_wf_Tip(2) [OF o(1,4)] by auto
    from search_stops_found [OF o(1,4) t e, of nBTC 5 l] Inr t obtain u f where u: "l = lineage (ns_index st) (Some u)" "u \<in> set (lineage (ns_index st) (Some t))"
      unfolding btc_heights_def by auto
    then have "hd l \<in> set (lineage (ns_index st) (Some t))" using lineage_mem [OF o(1) e u(2)] lineage_simps(2) [OF o(1)] by auto
    then have "Contains (ns_index st) (chainActive st) (hd l)" using Contains_lineage [OF o(1,4)] t by simp
    then show ?thesis using last_block_loop_ends [OF ok _ d f, of "hd l" "length (chainActive st)"] Inr False
      by (simp del: last_block_loop.simps add: CheckLastBlockState_def)
  qed (simp add: CheckLastBlockState_def)
qed (simp add: CheckLastBlockState_def)

lemma CheckLastBlockState_keeps:
  assumes ok: "node_ok (te_addr env) st" and k: "coins_consistent env st" and r: "CheckLastBlockState env fuel nBTC st = returnF (True, st')"
  shows "node_ok (te_addr env) st' \<and> coins_consistent env st' \<and> tree (ns_index st') = tree (ns_index st)"
    "nBTC > BTC_START_HIGHT \<Longrightarrow> \<exists>n. search_stops (ns_index st) (chainActive st) nBTC 5 n
      \<and> (\<forall>x. Contains (ns_index st) (chainActive st') x \<longleftrightarrow> current_up_to env st (n 5) x)"
proof -
  let ?idx = "ns_index st" and ?P = "\<lambda>n. search_stops (ns_index st) (chainActive st) nBTC 5 n
      \<and> (\<forall>x. Contains (ns_index st) (chainActive st') x \<longleftrightarrow> current_up_to env st (n 5) x)"
  note o = node_okD [OF ok]
  have "node_ok (te_addr env) st' \<and> coins_consistent env st' \<and> tree (ns_index st') = tree ?idx \<and> (nBTC > BTC_START_HIGHT \<longrightarrow> (\<exists>n. ?P n))"
  proof (cases "nBTC \<le> BTC_START_HIGHT")
    case True
    then show ?thesis using r ok k by (simp add: CheckLastBlockState_def)
  next
    case False
    with r obtain l where l: "foldE (back_step ?idx) (btc_heights nBTC) (lineage ?idx (Tip (chainActive st))) = Inr l"
        "last_block_loop env fuel (Suc (length (chainActive st))) (hd l) st = returnF (True, st')"
      by (auto simp: CheckLastBlockState_def bindF_eq_Inr)
    have "btc_heights nBTC \<noteq> []" using False by (auto simp: btc_heights_def filter_empty_conv intro!: bexI [of _ "0::nat"])
    then have ne: "lineage ?idx (Tip (chainActive st)) \<noteq> []" using l(1) by (cases "btc_heights nBTC") (auto simp: back_step_def)
    then obtain t e where t: "Tip (chainActive st) = Some t" "?idx t = Some e" using chain_wf_Tip(2) [OF o(1,4)] by (cases "Tip (chainActive st)") auto
    from search_stops_found [OF o(1,4) t, of nBTC 5 l] l(1) t(1) obtain n p where n: "search_stops ?idx (chainActive st) nBTC 5 n"
      and p: "l = lineage ?idx (Some p)" "p \<in> set (lineage ?idx (Some t))" "height ?idx p = n 5" unfolding btc_heights_def by auto
    have h: "hd l = p" using lineage_mem [OF o(1) t(2) p(2)] lineage_simps(2) [OF o(1)] p(1) by auto
    have cp: "Contains ?idx (chainActive st) p" using Contains_lineage [OF o(1,4)] t(1) p(2) by simp
    have "last_block_loop env fuel (Suc (length (chainActive st))) p st = returnF (True, st')" using l(2) h by simp
    note z = last_block_loop_keeps [OF ok k cp _ this, of "n 5"]
    show ?thesis using z p(3) n by fastforce
  qed
  then show "node_ok (te_addr env) st' \<and> coins_consistent env st' \<and> tree (ns_index st') = tree ?idx" "nBTC > BTC_START_HIGHT \<Longrightarrow> \<exists>n. ?P n" by blast+
qed

end
