(* ===== verification/Chain_Accept.thy ===== *)
theory Chain_Accept
  imports Chain_Btc Lotto_Script
begin

text \<open>
  Taking in a block: \<open>AcceptBlock\<close> of \<open>main.cpp\<close> with the rules that depend on the place of the block in its chain (\<open>GetMedianTimePast\<close>,
  \<open>IsSuperMajority\<close>, the checkpoints of \<open>checkpoints.cpp\<close>, the height in the coinbase), and the states a node comes to by
  accepting blocks and transactions and by following the Bitcoin chain.

  Where a block is stored (\<open>FindBlockPos\<close>, \<open>WriteBlockToDisk\<close>) is a field of the environment. Relaying the block is left out.
\<close>

section \<open>The place in the chain\<close>

definition nMedianTimeSpan :: nat where "nMedianTimeSpan = 11"

definition block_time :: "block_index \<Rightarrow> u256 \<Rightarrow> int" where
  "block_time idx p = (case idx p of None \<Rightarrow> 0 | Some e \<Rightarrow> uint (idx_nTime e))"

definition GetMedianTimePast :: "block_index \<Rightarrow> u256 \<Rightarrow> int" where
  "GetMedianTimePast idx p =
     (let pmedian = sort (map (block_time idx) (take nMedianTimeSpan (lineage idx (Some p)))) in pmedian ! (length pmedian div 2))"

fun majority_loop :: "block_index \<Rightarrow> int \<Rightarrow> nat \<Rightarrow> nat \<Rightarrow> nat \<Rightarrow> u256 list \<Rightarrow> nat" where
  "majority_loop idx minVersion nRequired nToCheck nFound [] = nFound"
| "majority_loop idx minVersion nRequired nToCheck nFound (p # r) =
     (if nToCheck = 0 \<or> \<not> nFound < nRequired then nFound
      else majority_loop idx minVersion nRequired (nToCheck - 1)
        (if (case idx p of None \<Rightarrow> False | Some e \<Rightarrow> nd_nVersion e \<ge> minVersion) then nFound + 1 else nFound) r)"

definition IsSuperMajority :: "block_index \<Rightarrow> int \<Rightarrow> u256 \<Rightarrow> nat \<Rightarrow> nat \<Rightarrow> bool" where
  "IsSuperMajority idx minVersion pstart nRequired nToCheck \<longleftrightarrow>
     majority_loop idx minVersion nRequired nToCheck 0 (lineage idx (Some pstart)) \<ge> nRequired"

section \<open>Checkpoints\<close>

record checkpoint_data =
  cp_fEnabled :: bool
  mapCheckpoints :: "(int \<times> u256) list"

definition Checkpoint_CheckBlock :: "checkpoint_data \<Rightarrow> int \<Rightarrow> u256 \<Rightarrow> bool" where
  "Checkpoint_CheckBlock cp h hash \<longleftrightarrow> \<not> cp_fEnabled cp \<or> (case map_of (mapCheckpoints cp) h of None \<Rightarrow> True | Some x \<Rightarrow> hash = x)"

definition GetLastCheckpoint :: "checkpoint_data \<Rightarrow> block_index \<Rightarrow> CBlockNode option" where
  "GetLastCheckpoint cp idx = (if \<not> cp_fEnabled cp then None
     else case find (\<lambda>(h, hash). idx hash \<noteq> None) (rev (mapCheckpoints cp)) of None \<Rightarrow> None | Some (h, hash) \<Rightarrow> idx hash)"

section \<open>The height in the coinbase\<close>

definition CBigNum_getvch :: "int \<Rightarrow> byte list" where
  "CBigNum_getvch n =
     (let a = nat \<bar>n\<bar>; bs = le_bytes (BN_num_bytes a) a in
      if n = 0 then []
      else if 0x80 \<le> last bs then bs @ [if n < 0 then 0x80 else 0]
      else if n < 0 then butlast bs @ [last bs OR 0x80] else bs)"

definition push_int64 :: "int \<Rightarrow> byte list" where
  "push_int64 n = (if n = - 1 \<or> 1 \<le> n \<and> n \<le> 16 then [word_of_int (n + (uint OP_1 - 1))] else push_data (CBigNum_getvch n))"

section \<open>Accepting a block\<close>

record accept_env =
  ae_tip :: tip_env
  ae_checkpoints :: checkpoint_data
  ae_testnet :: bool
  ae_debugdifficulty :: bool
  ae_pos :: "CBlock \<Rightarrow> full_node \<Rightarrow> (nat \<times> nat) option"

definition REJECT_OBSOLETE :: nat where "REJECT_OBSOLETE = 0x11"

datatype accept_result = Stored | NotStored verdict | StoreError

text \<open>The rules for a block that is not the genesis block.\<close>

definition check_place :: "accept_env \<Rightarrow> CBlock \<Rightarrow> u256 \<Rightarrow> full_node \<Rightarrow> verdict result" where
  "check_place env block hash st =
     (let rules = te_rules (ae_tip env); idx = ns_index st; prev = hashPrevBlock block in
      case idx prev of
        None \<Rightarrow> Inr (Reject 10 0 ''bad-prevblk'' False)
      | Some pindexPrev \<Rightarrow>
          bindE (i32 (nHeight pindexPrev + 1)) (\<lambda>h.
          if nBits block \<noteq> GetNextWorkRequired (bnProofOfWorkLimit rules) (ae_debugdifficulty env) (index_view idx) (Some (CBlockIndex.truncate pindexPrev))
          then Inr (invalid 100 ''bad-diffbits'')
          else if uint (nTime block) \<le> GetMedianTimePast idx prev then Inr (invalid 0 ''time-too-old'')
          else if \<exists>tx\<in>set (vtx block). \<not> IsFinalTx (Height (chainActive st)) (GetAdjustedTime rules) tx h (uint (nTime block))
          then Inr (invalid 10 ''bad-txns-nonfinal'')
          else if \<not> Checkpoint_CheckBlock (ae_checkpoints env) h hash then Inr (Reject 100 REJECT_CHECKPOINT ''checkpoint mismatch'' False)
          else if (case GetLastCheckpoint (ae_checkpoints env) idx of None \<Rightarrow> False | Some pcheckpoint \<Rightarrow> h < nHeight pcheckpoint)
          then Inr (Reject 100 0 '''' False)
          else if nVersion block < 2 \<and> (if ae_testnet env then IsSuperMajority idx 2 prev 75 100 else IsSuperMajority idx 2 prev 950 1000)
          then Inr (Reject 0 REJECT_OBSOLETE ''bad-version'' False)
          else if nVersion block \<ge> 2 \<and> (if ae_testnet env then IsSuperMajority idx 2 prev 51 100 else IsSuperMajority idx 2 prev 750 1000)
          then bindE (vec_at (vtx block) 0) (\<lambda>cb. bindE (vec_at (vin cb) 0) (\<lambda>txin.
            let expect = push_int64 h in
            Inr (if length (scriptSig txin) < length expect \<or> take (length expect) (scriptSig txin) \<noteq> expect then invalid 100 ''bad-cb-height'' else Accept)))
          else Inr Accept))"

definition AcceptBlock :: "accept_env \<Rightarrow> nat \<Rightarrow> CBlock \<Rightarrow> full_node \<Rightarrow> (accept_result \<times> full_node) result option" where
  "AcceptBlock env fuel block st =
     (let chain = cn_chain (te_rules (ae_tip env)); hash = CBlockHeader_GetHash (env_Hash9 chain) block in
      if ns_index st hash \<noteq> None then returnF (NotStored (Reject 0 0 ''duplicate'' False), st)
      else bindF (Some (if hash \<noteq> HashGenesisBlock chain then check_place env block hash st else Inr Accept)) (\<lambda>v.
        if v \<noteq> Accept then returnF (NotStored v, st)
        else case ae_pos env block st of
          None \<Rightarrow> returnF (StoreError, st)
        | Some blockPos \<Rightarrow> bindF (AddToBlockIndex (ae_tip env) fuel block blockPos st) (\<lambda>(ok, st). returnF (if ok then Stored else StoreError, st))))"

section \<open>The states of a node\<close>

text \<open>The counting loop of \<open>IsSuperMajority\<close> may stop early; the answer is that of counting all.\<close>

lemma majority_loop_count:
  "majority_loop idx v n k c ps \<ge> n \<longleftrightarrow> c + length (filter (\<lambda>p. case idx p of None \<Rightarrow> False | Some e \<Rightarrow> nd_nVersion e \<ge> v) (take k ps)) \<ge> n"
  by (induction ps arbitrary: k c) (auto simp: take_Cons' not_less)

text \<open>Between two steps of a node everything it reads may change but the contents of the block files, the hash functions, the genesis block and the
  addresses. The block files are taken with all they will ever hold.\<close>

definition same_store :: "tip_env \<Rightarrow> tip_env \<Rightarrow> bool" where
  "same_store env env' \<longleftrightarrow> te_addr env' = te_addr env \<and> env_sha (cn_chain (te_rules env')) = env_sha (cn_chain (te_rules env))
     \<and> env_Hash9 (cn_chain (te_rules env')) = env_Hash9 (cn_chain (te_rules env)) \<and> HashGenesisBlock (cn_chain (te_rules env')) = HashGenesisBlock (cn_chain (te_rules env))
     \<and> ReadBlockFromDisk (cn_chain (te_rules env')) = ReadBlockFromDisk (cn_chain (te_rules env))"

lemma same_store_coins:
  assumes "same_store env env'"
  shows "chain_coins env' = chain_coins env" "coins_consistent env' = coins_consistent env" "te_addr env' = te_addr env"
proof -
  have t: "te_txid env' = te_txid env" "HashGenesisBlock (cn_chain (te_rules env')) = HashGenesisBlock (cn_chain (te_rules env))" using assms by (simp_all add: same_store_def te_txid_def)
  have b: "block_of env' = block_of env" using assms by (intro ext) (simp add: block_of_def same_store_def cong: option.case_cong)
  have "apply_block env' = apply_block env" by (intro ext) (simp only: apply_block_def b t)
  then show c: "chain_coins env' = chain_coins env" by (intro ext) (simp only: chain_coins_def)
  have u: "undo_ok env' = undo_ok env" by (intro ext) (simp only: undo_ok_def b c t)
  have "index_sane env' = index_sane env" by (intro ext) (simp only: index_sane_def t)
  then show "coins_consistent env' = coins_consistent env" by (intro ext) (simp only: coins_consistent_def c u)
  show "te_addr env' = te_addr env" using assms by (simp add: same_store_def)
qed

definition new_node :: full_node where
  "new_node = \<lparr>ns_index = Map.empty, chainActive = [], chainMostWork = [], setBlockIndexValid = [], pindexBestInvalid = None,
     pcoinsTip = new_cache \<lparr>db_coins = Map.empty, db_best = None\<rparr>, mempool = new_CTxMemPool, undo_files = Map.empty, nBlockSequenceId = 1\<rparr>"

text \<open>No hash is one of the three values that \<open>admissible\<close> excludes, and none is the hash of its own predecessor.\<close>

definition hash_ok :: "tip_env \<Rightarrow> CBlock \<Rightarrow> bool" where
  "hash_ok env block \<longleftrightarrow> (let hash = CBlockHeader_GetHash (env_Hash9 (cn_chain (te_rules env))) block in
     hash \<notin> {0, 0x00000000000a4d0a398161ffc163c503763b1f4360639393e0e4c8e300e0caec, 0x00000000000743f190a18c5577a3c2d2a1f610ae9601ac046a38084ccb7cd721}
     \<and> hashPrevBlock block \<noteq> hash)"

inductive node_reachable :: "tip_env \<Rightarrow> full_node \<Rightarrow> bool" for env where
  start: "node_reachable env new_node"
| block: "node_reachable env st \<Longrightarrow> same_store env (ae_tip ae) \<Longrightarrow> hash_ok env block \<Longrightarrow> AcceptBlock ae fuel block st = Some (Inr (r, st')) \<Longrightarrow> r \<noteq> StoreError
    \<Longrightarrow> node_reachable env st'"
| activate: "node_reachable env st \<Longrightarrow> same_store env env' \<Longrightarrow> ActivateBestChain env' fuel st = Some (Inr (True, st')) \<Longrightarrow> node_reachable env st'"
| bitcoin: "node_reachable env st \<Longrightarrow> same_store env env' \<Longrightarrow> CheckLastBlockState env' fuel nBTC st = Some (Inr (True, st')) \<Longrightarrow> node_reachable env st'"
| transaction: "node_reachable env st \<Longrightarrow> AcceptToMemoryPool (cache_GetCoins db_GetCoins) (cache_GetBestBlock db_GetBestBlock) txid pe rules tx l f (mempool st, pcoinsTip st)
    = Inr ((pool, coins), v) \<Longrightarrow> node_reachable env (st\<lparr>mempool := pool, pcoinsTip := coins\<rparr>)"

lemma AcceptBlock_Stored:
  assumes "AcceptBlock ae fuel block st = returnF (r, st')" and "r \<noteq> StoreError"
  shows "r \<noteq> Stored \<and> st' = st \<or> r = Stored \<and> (\<exists>pos. AddToBlockIndex (ae_tip ae) fuel block pos st = returnF (True, st')
    \<and> (ns_index st (hashPrevBlock block) \<noteq> None
       \<or> CBlockHeader_GetHash (env_Hash9 (cn_chain (te_rules (ae_tip ae)))) block = HashGenesisBlock (cn_chain (te_rules (ae_tip ae)))))"
proof (cases "r = Stored")
  case True
  define hash where "hash = CBlockHeader_GetHash (env_Hash9 (cn_chain (te_rules (ae_tip ae)))) block"
  let ?g = "HashGenesisBlock (cn_chain (te_rules (ae_tip ae)))"
  from assms(1) True obtain v where v: "(if hash \<noteq> ?g then check_place ae block hash st else Inr Accept) = Inr v" "v = Accept"
    by (auto simp: AcceptBlock_def Let_def bindF_eq_Inr simp flip: hash_def split: if_splits)
  with assms True obtain pos where "AddToBlockIndex (ae_tip ae) fuel block pos st = returnF (True, st')"
    by (auto simp: AcceptBlock_def Let_def bindF_eq_Inr simp flip: hash_def split: if_splits option.splits)
  moreover have "ns_index st (hashPrevBlock block) \<noteq> None \<or> hash = ?g" using v by (auto simp: check_place_def Let_def split: if_splits option.splits)
  ultimately show ?thesis using True unfolding hash_def by blast
next
  case False
  with assms show ?thesis by (auto simp: AcceptBlock_def Let_def bindF_eq_Inr split: if_splits option.splits)
qed

lemma hash_ok_admissible:
  assumes "same_store env env'" and "hash_ok env b"
    and "ns_index st (hashPrevBlock b) \<noteq> None \<or> CBlockHeader_GetHash (env_Hash9 (cn_chain (te_rules env'))) b = HashGenesisBlock (cn_chain (te_rules env'))"
  shows "admissible env' st b"
  using assms by (simp add: admissible_def hash_ok_def same_store_def Let_def)

lemma new_node_ok: "node_ok addr new_node" "coins_consistent env new_node"
proof -
  have "chain_wf Map.empty []" unfolding chain_wf_def by (intro exI [of _ None]) simp
  then show "node_ok addr new_node" by (simp add: node_ok_def new_node_def index_wf_def)
  have "db_state \<lparr>db_coins = Map.empty, db_best = None\<rparr> = Map.empty" by (auto simp: db_state_def fun_eq_iff)
  then show "coins_consistent env new_node"
    by (simp add: coins_consistent_def new_node_def index_sane_def db.new_cache_state tip_hash_def db_best_state_def)
qed

lemma reachable_consistent:
  assumes "node_reachable env st" and "inj (te_addr env)"
  shows "node_ok (te_addr env) st \<and> coins_consistent env st"
  using assms(1)
proof induction
  case start
  show ?case using new_node_ok by simp
next
  case (block st ae b fuel r st')
  note s = same_store_coins [OF block.hyps(2)]
  from AcceptBlock_Stored [OF block.hyps(4,5)] show ?case
  proof
    assume "r \<noteq> Stored \<and> st' = st"
    then show ?thesis using block.IH by simp
  next
    assume "r = Stored \<and> (\<exists>pos. AddToBlockIndex (ae_tip ae) fuel b pos st = returnF (True, st') \<and> (ns_index st (hashPrevBlock b) \<noteq> None
       \<or> CBlockHeader_GetHash (env_Hash9 (cn_chain (te_rules (ae_tip ae)))) b = HashGenesisBlock (cn_chain (te_rules (ae_tip ae)))))"
    then obtain pos where p: "AddToBlockIndex (ae_tip ae) fuel b pos st = returnF (True, st')" "ns_index st (hashPrevBlock b) \<noteq> None
       \<or> CBlockHeader_GetHash (env_Hash9 (cn_chain (te_rules (ae_tip ae)))) b = HashGenesisBlock (cn_chain (te_rules (ae_tip ae)))" by blast
    from AddToBlockIndex_ok(1) [OF _ _ _ hash_ok_admissible [OF block.hyps(2,3) p(2)] p(1)] block.IH assms(2) show ?thesis unfolding s(2,3) by blast
  qed
next
  case (activate st env' fuel st')
  note s = same_store_coins [OF activate.hyps(2)]
  have "node_ok (te_addr env') st" "coins_consistent env' st" using activate.IH s by simp_all
  from node.activate_loop_ok [OF this] activate.hyps(3) show ?case unfolding ActivateBestChain_def s(2,3) by blast
next
  case (bitcoin st env' fuel nBTC st')
  note s = same_store_coins [OF bitcoin.hyps(2)]
  have "node_ok (te_addr env') st" "coins_consistent env' st" using bitcoin.IH s by simp_all
  from CheckLastBlockState_keeps(1) [OF this bitcoin.hyps(3)] show ?case unfolding s(2,3) by blast
next
  case (transaction st txid pe rules tx l f pool coins v)
  let ?st = "st\<lparr>mempool := pool, pcoinsTip := coins\<rparr>"
  have "node_ok (te_addr env) ?st" using transaction.IH by (simp add: node_ok_def)
  moreover have "coins_consistent env ?st"
    by (rule coins_consistent_cong [of env st]) (use transaction.IH AcceptToMemoryPool_coins [OF transaction.hyps(2)] in simp_all)
  ultimately show ?case ..
qed

lemma AcceptBlock_effect:
  assumes "node_reachable env st" and "inj (te_addr env)" and s: "same_store env (ae_tip ae)" and h: "hash_ok env block"
    and a: "AcceptBlock ae fuel block st = returnF (r, st')" "r \<noteq> StoreError"
  shows "node_reachable env st' \<and> dom (ns_index st') = (if r = Stored then insert (CBlockHeader_GetHash (env_Hash9 (cn_chain (te_rules env))) block) (dom (ns_index st))
    else dom (ns_index st))"
proof -
  note k = reachable_consistent [OF assms(1,2)] and c = same_store_coins [OF s]
  have e: "env_Hash9 (cn_chain (te_rules (ae_tip ae))) = env_Hash9 (cn_chain (te_rules env))" using s by (simp add: same_store_def)
  have "dom (ns_index st') = insert (CBlockHeader_GetHash (env_Hash9 (cn_chain (te_rules env))) block) (dom (ns_index st))" if "r = Stored"
  proof -
    from AcceptBlock_Stored [OF a] that obtain pos where p: "AddToBlockIndex (ae_tip ae) fuel block pos st = returnF (True, st')" "ns_index st (hashPrevBlock block) \<noteq> None
       \<or> CBlockHeader_GetHash (env_Hash9 (cn_chain (te_rules (ae_tip ae)))) block = HashGenesisBlock (cn_chain (te_rules (ae_tip ae)))" by blast
    have "node_ok (te_addr (ae_tip ae)) st" "coins_consistent (ae_tip ae) st" "inj (te_addr (ae_tip ae))" using k c assms(2) by simp_all
    from AddToBlockIndex_ok(2) [OF this hash_ok_admissible [OF s h p(2)] p(1)] show ?thesis unfolding e .
  qed
  then show ?thesis using AcceptBlock_Stored [OF a] node_reachable.block [OF assms(1) s h a] by auto
qed

text \<open>C4: The coins are those of the active chain. Whatever blocks a node has accepted, connected and disconnected, on whatever branches, and whatever
  transactions it has taken into its memory pool, the coins it holds in \<open>pcoinsTip\<close> are exactly those that the blocks of its
  active chain leave when they are applied one after the other to no coins at all, and the best block of the coins is the
  tip of the active chain.\<close>

theorem coins_follow_active_chain:
  assumes "node_reachable env st" and "inj (te_addr env)"
  shows "cache_state db_state (pcoinsTip st) = chain_coins env (ns_index st) (Tip (chainActive st))
    \<and> cache_best db_best_state (pcoinsTip st) = (case Tip (chainActive st) of None \<Rightarrow> 0 | Some p \<Rightarrow> p)"
  using reachable_consistent [OF assms] by (simp add: coins_consistent_def tip_hash_def)

text \<open>C6: The tree of blocks stays well-formed. In every state a node can come to, every known block stands one above its parent, the active chain
  and the most-work chain are each the lineage of their tip, and the candidates are known blocks, none of them marked
  as failed, in strictly ascending order of work.\<close>

theorem node_tree_invariant:
  assumes "node_reachable env st" and "inj (te_addr env)"
  shows "index_wf (ns_index st) \<and> chainActive st = chain_of (ns_index st) (Tip (chainActive st))
    \<and> chainMostWork st = chain_of (ns_index st) (Tip (chainMostWork st))
    \<and> set (setBlockIndexValid st) \<subseteq> dom (ns_index st) - Collect (failed (ns_index st))
    \<and> sorted_wrt (work_less (te_addr env) (ns_index st)) (setBlockIndexValid st)"
proof -
  have ok: "node_ok (te_addr env) st" using reachable_consistent [OF assms] by simp
  note o = node_okD [OF ok]
  show ?thesis using o(1,6,7,8) chain_wf_Tip(1) [OF o(1,4)] chain_wf_Tip(1) [OF o(1,5)] by auto
qed

text \<open>C7: Activation ends at a best block. When \<open>ActivateBestChain\<close> reports success in a state a node can come to, then no candidate that is left
  surpasses the tip of the active chain in the order of work, unless the last round of this very call was ended by a block that was
  refused with \<open>REJECT_INVALID_LOTTO\<close>: \<open>last_refusal\<close> follows the call and gives the block and the code.\<close>

theorem activation_unsurpassed:
  assumes "node_reachable env st" and "inj (te_addr env)" and "ActivateBestChain env fuel st = Some (Inr (True, st'))"
    and "\<forall>p. last_refusal (te_addr env) (GetBitcoinBlockIndex (cn_chain (te_rules env))) (ConnectTip env) (DisconnectTip env) fuel st \<noteq> Some (p, REJECT_INVALID_LOTTO)"
    and "q \<in> set (setBlockIndexValid st')"
  shows "\<exists>t. Tip (chainActive st') = Some t \<and> \<not> work_less (te_addr env) (ns_index st') t q"
proof -
  have "node_ok (te_addr env) st" "coins_consistent env st" using reachable_consistent [OF assms(1,2)] by simp_all
  from node.activate_loop_ok [OF this] assms(3,4) have "unsurpassed (te_addr env) st' (Tip (chainActive st'))" unfolding ActivateBestChain_def by blast
  with assms(5) show ?thesis by (simp add: unsurpassed_def)
qed

text \<open>C9: Blocks with an outdated Bitcoin hash leave the active chain, and only they and what stands on them. Let \<open>CheckLastBlockState\<close> report success in a
  state a node can come to, with the Bitcoin chain above the height at which DS starts to follow it. The first block that is checked is found
  from the tip downwards, over the blocks that name the latest Bitcoin height, then over those that name the one before, and so on for five heights
  (\<open>search_stops\<close> gives the height at which each of these runs ends, \<open>n 5\<close> that of the first block checked). Afterwards the active chain
  consists of exactly the blocks below the first one from there on that does not agree with the Bitcoin chain. No block is forgotten, and the
  coins follow.\<close>

theorem bitcoin_check_leaves_current:
  assumes "node_reachable env st" and "inj (te_addr env)" and "CheckLastBlockState env fuel nBTC st = Some (Inr (True, st'))" and "BTC_START_HIGHT < nBTC"
  shows "dom (ns_index st') = dom (ns_index st) \<and> cache_state db_state (pcoinsTip st') = chain_coins env (ns_index st') (Tip (chainActive st'))
    \<and> (\<exists>n. search_stops (ns_index st) (chainActive st) nBTC 5 n
      \<and> (\<forall>x. Contains (ns_index st) (chainActive st') x \<longleftrightarrow> Contains (ns_index st) (chainActive st) x
          \<and> (\<forall>y. Contains (ns_index st) (chainActive st) y \<and> n 5 \<le> height (ns_index st) y \<and> height (ns_index st) y \<le> height (ns_index st) x \<longrightarrow>
               CheckBTCHashValid (GetBitcoinBlockIndex (cn_chain (te_rules env))) (ns_index st) y)))"
proof -
  have "node_ok (te_addr env) st" "coins_consistent env st" using reachable_consistent [OF assms(1,2)] by simp_all
  note k = CheckLastBlockState_keeps [OF this assms(3)]
  have "dom (ns_index st') = dom (ns_index st)" using k(1) tree_fields(3) by metis
  moreover have "cache_state db_state (pcoinsTip st') = chain_coins env (ns_index st') (Tip (chainActive st'))" using k(1) by (simp add: coins_consistent_def)
  ultimately show ?thesis using k(2) [OF assms(4)] unfolding current_up_to_def by blast
qed

section \<open>Activation with given verdicts\<close>

text \<open>The states between the steps of an activation: from \<open>st\<close>, blocks are connected and disconnected, and the search and refusals change marks, candidates
  and the most-work chain.\<close>

inductive tip_reach :: "tip_env \<Rightarrow> full_node \<Rightarrow> full_node \<Rightarrow> bool" for env st where
  start: "tip_reach env st st"
| search: "tip_reach env st s \<Longrightarrow> same_rest s s' \<Longrightarrow> tip_reach env st s'"
| connect: "tip_reach env st s \<Longrightarrow> node_ok (te_addr env) s \<Longrightarrow> ConnectTip env p s = returnF (TipDone s') \<Longrightarrow> tip_reach env st s'"
| disconnect: "tip_reach env st s \<Longrightarrow> node_ok (te_addr env) s \<Longrightarrow> DisconnectTip env s = returnF (TipDone s') \<Longrightarrow> tip_reach env st s'"

text \<open>The verdicts on the blocks: in all these states, \<open>ConnectTip\<close> connects a block on top of the tip if it is good and otherwise refuses it as certainly
  invalid, and \<open>DisconnectTip\<close> takes a tip back that is not on the most-work chain. Only the answers are fixed; what the operations do
  to the state is that of the code.\<close>

definition tip_verdicts :: "tip_env \<Rightarrow> (u256 \<Rightarrow> bool) \<Rightarrow> full_node \<Rightarrow> bool" where
  "tip_verdicts env good st \<longleftrightarrow> (\<forall>s p. tip_reach env st s \<and> coins_consistent env s \<and> best_inv (te_addr env) good s \<longrightarrow>
     (ns_index s p \<noteq> None \<and> parent (ns_index s) p = Tip (chainActive s) \<longrightarrow>
        (if good p then \<exists>s'. ConnectTip env p s = returnF (TipDone s')
         else \<exists>code s'. ConnectTip env p s = returnF (TipInvalid code False s') \<and> code \<notin> {REJECT_INVALID_LOTTO, REJECT_DIRTY_BLOCK}))
     \<and> (Tip (chainActive s) = Some p \<and> Tip (chainMostWork s) \<noteq> None \<and> \<not> Contains (ns_index s) (chainMostWork s) p \<longrightarrow>
        (\<exists>s'. DisconnectTip env s = returnF (TipDone s'))))"

text \<open>With the verdicts given, the operations of the node fulfil the contract of the activation loop.\<close>

lemma node_tip_contract:
  assumes v: "tip_verdicts env good st"
  shows "tip_contract (te_addr env) good (\<lambda>s. tip_reach env st s \<and> coins_consistent env s) (ConnectTip env) (DisconnectTip env)"
proof -
  have connected: "extends_tip p s s' \<and> tip_reach env st s' \<and> coins_consistent env s'"
    if s: "tip_reach env st s" "coins_consistent env s" "best_inv (te_addr env) good s" and c: "ConnectTip env p s = returnF (TipDone s')" for s s' p
  proof -
    have ok: "node_ok (te_addr env) s" using s(3) by (simp add: best_inv_def)
    show ?thesis using node.connect_done [OF ok s(2) c] tip_reach.connect [OF s(1) ok c] by simp
  qed
  have refused: "refuses_tip (te_addr env) p s s' \<and> tip_reach env st s' \<and> coins_consistent env s'"
    if s: "tip_reach env st s" "coins_consistent env s" "best_inv (te_addr env) good s" and c: "ConnectTip env p s = returnF (TipInvalid code False s')" for s s' p code
  proof -
    have ok: "node_ok (te_addr env) s" using s(3) by (simp add: best_inv_def)
    have "same_rest s s'" "refuses_tip (te_addr env) p s s'" using node.connect_invalid [OF ok s(2) c] by simp_all
    then show ?thesis using tip_reach.search [OF s(1)] coins_consistent_rest [OF s(2)] by simp
  qed
  have retracted: "retracts_tip p s s' \<and> tip_reach env st s' \<and> coins_consistent env s'"
    if s: "tip_reach env st s" "coins_consistent env s" "best_inv (te_addr env) good s" "Tip (chainActive s) = Some p" and c: "DisconnectTip env s = returnF (TipDone s')" for s s' p
  proof -
    have ok: "node_ok (te_addr env) s" using s(3) by (simp add: best_inv_def)
    show ?thesis using node.disconnect_done [OF ok s(2) c] tip_reach.disconnect [OF s(1) ok c] s(4) by simp
  qed
  show ?thesis
    unfolding tip_contract_def
  proof (intro conjI allI impI)
    fix s p
    assume a: "(tip_reach env st s \<and> coins_consistent env s) \<and> best_inv (te_addr env) good s \<and> ns_index s p \<noteq> None \<and> parent (ns_index s) p = Tip (chainActive s)"
    then have "if good p then \<exists>s'. ConnectTip env p s = returnF (TipDone s')
         else \<exists>code s'. ConnectTip env p s = returnF (TipInvalid code False s') \<and> code \<notin> {REJECT_INVALID_LOTTO, REJECT_DIRTY_BLOCK}"
      using v unfolding tip_verdicts_def by blast
    then show "if good p then \<exists>s'. ConnectTip env p s = returnF (TipDone s') \<and> extends_tip p s s' \<and> tip_reach env st s' \<and> coins_consistent env s'
      else \<exists>code s'. ConnectTip env p s = returnF (TipInvalid code False s') \<and> code \<notin> {REJECT_INVALID_LOTTO, REJECT_DIRTY_BLOCK}
        \<and> refuses_tip (te_addr env) p s s' \<and> tip_reach env st s' \<and> coins_consistent env s'"
      using connected [of s p] refused [of s p] a by (cases "good p") (simp_all, blast+)
  next
    fix s p
    assume a: "(tip_reach env st s \<and> coins_consistent env s) \<and> best_inv (te_addr env) good s \<and> Tip (chainActive s) = Some p
      \<and> Tip (chainMostWork s) \<noteq> None \<and> \<not> Contains (ns_index s) (chainMostWork s) p"
    then obtain s' where "DisconnectTip env s = returnF (TipDone s')" using v unfolding tip_verdicts_def by blast
    with retracted [of s p s'] a show "\<exists>s'. DisconnectTip env s = returnF (TipDone s') \<and> retracts_tip p s s' \<and> tip_reach env st s' \<and> coins_consistent env s'" by blast
  next
    fix s s' assume "(tip_reach env st s \<and> coins_consistent env s) \<and> same_rest s s'"
    then show "tip_reach env st s'" "coins_consistent env s'" using tip_reach.search coins_consistent_rest by blast+
  qed
qed

text \<open>The states in which activation starts. A node is well-formed, and its coins follow the active chain, in every state it can come to; the marks agree with the verdicts,
  the active chain is good, and the tip of the most-work chain is marked, or a candidate with current Bitcoin hashes, or has a good
  history.\<close>

definition activation_ready :: "tip_env \<Rightarrow> (u256 \<Rightarrow> bool) \<Rightarrow> full_node \<Rightarrow> bool" where
  "activation_ready env good st \<longleftrightarrow> node_ok (te_addr env) st \<and> coins_consistent env st \<and> marks_ok good (ns_index st)
     \<and> sound good (ns_index st) (Tip (chainActive st)) \<and> most_ok (GetBitcoinBlockIndex (cn_chain (te_rules env))) good st"

text \<open>A new node is such a state, and a new entry of the index leaves a state such a one.\<close>

lemma ready_new_node:
  assumes "inj (te_addr env)"
  shows "activation_ready env good new_node"
proof -
  have "node_ok (te_addr env) new_node" "coins_consistent env new_node" using reachable_consistent [OF node_reachable.start assms] by simp_all
  then show ?thesis by (simp add: activation_ready_def marks_ok_def failed_def sound_def most_ok_def) (simp add: new_node_def Tip_def)
qed

lemma cset_insert_subset: "set xs \<subseteq> set (cset_insert lt p xs)"
proof -
  have "set xs = set (takeWhile (\<lambda>q. lt q p) xs) \<union> set (dropWhile (\<lambda>q. lt q p) xs)" by (metis set_append takeWhile_dropWhile_id)
  then show ?thesis by (cases "dropWhile (\<lambda>q. lt q p) xs") (auto simp: cset_insert_def)
qed

lemma ready_new_entry:
  assumes ready: "activation_ready env good st" and inj: "inj (te_addr env)" and a: "admissible env st block"
    and h: "h = CBlockHeader_GetHash (env_Hash9 (cn_chain (te_rules env))) block" "ns_index st h = None"
    and l: "link_block block pos ((ns_index st)(h \<mapsto> new_CBlockNode block h seq)) (new_CBlockNode block h seq) = Inr n"
    and st': "ns_index st' = (ns_index st)(h \<mapsto> n)" "chainActive st' = chainActive st" "chainMostWork st' = chainMostWork st"
      "setBlockIndexValid st' = cset_insert (work_less (te_addr env) (ns_index st')) h (setBlockIndexValid st)"
      "pcoinsTip st' = pcoinsTip st" "undo_files st' = undo_files st"
  shows "activation_ready env good st'"
proof -
  let ?idx = "ns_index st" and ?btc = "GetBitcoinBlockIndex (cn_chain (te_rules env))"
  have ok: "node_ok (te_addr env) st" and k: "coins_consistent env st" and m: "marks_ok good ?idx" "sound good ?idx (Tip (chainActive st))" "most_ok ?btc good st"
    using ready by (simp_all add: activation_ready_def)
  note o = node_okD [OF ok] and new = new_entry_ok [OF ok k inj a h l st']
  have "hashPrevBlock block \<noteq> h" using a by (simp add: admissible_def h(1) Let_def)
  note n = link_block_Inr [OF l refl this]
  have f: "failed (ns_index st') p \<longleftrightarrow> failed ?idx p" for p using n(3) h(2) by (simp add: failed_def st'(1))
  have snd: "sound good (ns_index st') t \<longleftrightarrow> sound good ?idx t" if "valid_ptr ?idx t" for t
    using chain_coins_extend(1) [OF o(1) that h(2)] by (simp add: sound_def st'(1))
  have par: "parent (ns_index st') p = parent ?idx p" if "p \<noteq> h" for p using that by (simp add: parent_def st'(1))
  have "marks_ok good (ns_index st')"
    unfolding marks_ok_def f
  proof (intro allI impI)
    fix p assume p: "failed ?idx p"
    then have ne: "p \<noteq> h" using failed_dom [OF p] h(2) by auto
    show "\<not> good p \<and> sound good (ns_index st') (parent (ns_index st') p) \<or> (\<exists>q. parent (ns_index st') p = Some q \<and> failed ?idx q)"
      using m(1) p snd [OF valid_parent [OF o(1)]] unfolding marks_ok_def par [OF ne] by blast
  qed
  moreover have "sound good (ns_index st') (Tip (chainActive st'))" using m(2) snd [OF chain_wf_Tip(2) [OF o(1,4)]] by (simp add: st'(2))
  moreover have "most_ok ?btc good st'"
    unfolding most_ok_def st'(3) f
  proof (intro allI impI)
    fix c assume c: "Tip (chainMostWork st) = Some c"
    have v: "valid_ptr ?idx (Some c)" using chain_wf_Tip(2) [OF o(1,5)] c by simp
    then have "c \<noteq> h" using h(2) by auto
    then have "CheckBTCHashValid ?btc (ns_index st') c = CheckBTCHashValid ?btc ?idx c" by (simp add: CheckBTCHashValid_def st'(1))
    moreover have "c \<in> set (setBlockIndexValid st) \<Longrightarrow> c \<in> set (setBlockIndexValid st')" unfolding st'(4) using cset_insert_subset by blast
    ultimately show "failed ?idx c \<or> c \<in> set (setBlockIndexValid st') \<and> CheckBTCHashValid ?btc (ns_index st') c \<or> sound good (ns_index st') (Some c)"
      using m(3) c snd [OF v] unfolding most_ok_def by blast
  qed
  ultimately show ?thesis using new by (simp add: activation_ready_def)
qed

text \<open>C5: Activation ends with the best chain. Assume that the verdicts on blocks are fixed: between the steps of the activation, \<open>ConnectTip\<close> connects the good blocks
  and refuses the others as certainly invalid, with a code other than \<open>REJECT_INVALID_LOTTO\<close> and \<open>REJECT_DIRTY_BLOCK\<close>, and \<open>DisconnectTip\<close> does not
  fail on a tip off the most-work chain. Assume of the state what \<open>activation_ready\<close> says, which holds of a new node and is kept by a new entry of the
  index. Then \<open>ActivateBestChain\<close> returns true, every block of the active chain is good, and no candidate whose whole history is good and whose
  Bitcoin hashes are current has more work (or, at equal work, the better tie-break) than the tip; and what was assumed of the state holds again, so that
  further blocks can follow. Twice the number of known blocks, plus two, is enough fuel.\<close>

theorem activation_reaches_best_chain:
  assumes "activation_ready env good st" and "tip_verdicts env good st" and "2 * card (dom (ns_index st)) + 2 \<le> fuel"
  shows "\<exists>st'. ActivateBestChain env fuel st = Some (Inr (True, st')) \<and> best_active (te_addr env) (GetBitcoinBlockIndex (cn_chain (te_rules env))) good st st'
    \<and> activation_ready env good st'"
proof -
  let ?btc = "GetBitcoinBlockIndex (cn_chain (te_rules env))"
  have r: "best_inv (te_addr env) good st" "most_ok ?btc good st" "coins_consistent env st" using assms(1) by (simp_all add: activation_ready_def best_inv_def)
  from activate_loop_best [OF node_tip_contract [OF assms(2)] _ r(1,2) assms(3)] tip_reach.start [of env st] r(3)
  obtain st' where "ActivateBestChain env fuel st = returnF (True, st')" "best_active (te_addr env) ?btc good st st'" "coins_consistent env st'"
    "best_inv (te_addr env) good st'" "most_ok ?btc good st'" unfolding ActivateBestChain_def by blast
  then show ?thesis by (auto simp: activation_ready_def best_inv_def)
qed

text \<open>A refusal that leaves the block unmarked depends on nothing that changes between two rounds.\<close>

lemma ConnectTip_corrupt:
  assumes r: "same_rest st s" "ns_index s = ns_index st" and p: "parent (ns_index st) b = Tip (chainActive st)" "ns_index st b = Some e"
    and rd: "ReadBlockFromDisk_index (cn_chain (te_rules env)) e = Some block"
    and c: "ConnectBlock_tip (rules_of env st) (te_fuel env) block (CBlockIndex.truncate e) True (new_cache (pcoinsTip st)) False = Some (Inr (Rejected (Reject dos code reason True)))"
  shows "ConnectTip env b s = returnF (TipInvalid code True s)"
proof -
  have "chainActive s = chainActive st" "node_state.more s = node_state.more st" using r(1) by (simp_all add: same_rest_def)
  moreover from more_fields(1) [OF this(2)] have "pcoinsTip s = pcoinsTip st" .
  moreover have "rules_of env s = rules_of env st" using r(2) \<open>chainActive s = chainActive st\<close> by (simp add: rules_of_def)
  ultimately show ?thesis using p rd c r(2) by (simp add: ConnectTip_def InvalidBlockFound_def)
qed

text \<open>C10: Activation may never end. A block that \<open>ConnectBlock\<close> refuses as possibly corrupted, with a code other than \<open>REJECT_INVALID_LOTTO\<close>, is not marked as
  failed. Let it be the next block on the way to the best candidate, with no mark on the way and the Bitcoin hashes of the candidate current (\<open>stuck\<close>); for
  \<open>REJECT_DIRTY_BLOCK\<close>, where the block itself is taken out of the candidates, let the candidate be a proper descendant of it that surpasses the tip. Then
  every round of \<open>ActivateBestChain\<close> proposes and refuses the block again: the function does not return, whatever fuel it is given.\<close>

theorem unmarked_refusal_never_ends:
  assumes "stuck (te_addr env) (GetBitcoinBlockIndex (cn_chain (te_rules env))) b c st" and "ns_index st b = Some e"
    and "ReadBlockFromDisk_index (cn_chain (te_rules env)) e = Some block"
    and "ConnectBlock_tip (rules_of env st) (te_fuel env) block (CBlockIndex.truncate e) True (new_cache (pcoinsTip st)) False = Some (Inr (Rejected (Reject dos code reason True)))"
    and "code \<noteq> REJECT_INVALID_LOTTO"
    and "code = REJECT_DIRTY_BLOCK \<longrightarrow> b \<noteq> c \<and> (\<exists>a. Tip (chainActive st) = Some a \<and> work_less (te_addr env) (ns_index st) a c)"
  shows "ActivateBestChain env fuel st = None"
  unfolding ActivateBestChain_def
proof (rule activate_loop_stuck [OF assms(1,5)])
  show "code = REJECT_DIRTY_BLOCK \<Longrightarrow> b \<noteq> c \<and> (\<exists>a. Tip (chainActive st) = Some a \<and> work_less (te_addr env) (ns_index st) a c)" using assms(6) by blast
  have "parent (ns_index st) b = Tip (chainActive st)" using assms(1) by (simp add: stuck_def)
  then show "\<And>s. same_rest st s \<Longrightarrow> ns_index s = ns_index st \<Longrightarrow> ConnectTip env b s = returnF (TipInvalid code True s)"
    using ConnectTip_corrupt assms(2-4) by blast
qed

end
