(* ===== verification/Chain_Locator.thy ===== *)
theory Chain_Locator
  imports Chain_Activate
begin

text \<open>
  Block locators: \<open>CChain::GetLocator\<close> and \<open>CChain::FindFork\<close> of \<open>main.cpp\<close>. A node describes its chain to a peer by the hashes of the tip, of the
  ten blocks below it, of blocks at exponentially growing distances and of the genesis block; the peer looks for the first of them
  that is in its own chain.

  The loop of \<open>GetLocator\<close> falls in height, so the height of its start is enough fuel.
\<close>

definition locator_next :: "block_index \<Rightarrow> CChain \<Rightarrow> u256 \<Rightarrow> int \<Rightarrow> u256 option result" where
  "locator_next idx c p h = (case dropWhile (\<lambda>q. int (height idx q) > h \<and> \<not> Contains idx c q) (lineage idx (Some p)) of
     [] \<Rightarrow> Inl OutOfBounds
   | q # _ \<Rightarrow> Inr (if int (height idx q) > h then chain_get c h else Some q))"

fun locator_loop :: "block_index \<Rightarrow> CChain \<Rightarrow> nat \<Rightarrow> u256 option \<Rightarrow> int \<Rightarrow> u256 list \<Rightarrow> u256 list result option" where
  "locator_loop idx c fuel None nStep vHave = returnF vHave"
| "locator_loop idx c 0 (Some p) nStep vHave = None"
| "locator_loop idx c (Suc fuel) (Some p) nStep vHave =
     (let vHave = vHave @ [p] in
      if height idx p = 0 then returnF vHave
      else bindF (Some (locator_next idx c p (max (int (height idx p) - nStep) 0))) (\<lambda>pindex.
        bindF (Some (if length vHave > 10 then i32 (nStep * 2) else Inr nStep)) (\<lambda>nStep. locator_loop idx c fuel pindex nStep vHave)))"

definition GetLocator :: "block_index \<Rightarrow> CChain \<Rightarrow> u256 option \<Rightarrow> u256 list result option" where
  "GetLocator idx c pindex =
     (let pindex = (if pindex = None then Tip c else pindex);
          fuel = (case pindex of None \<Rightarrow> 0 | Some p \<Rightarrow> Suc (height idx p))
      in locator_loop idx c fuel pindex 1 [])"

definition FindFork :: "block_index \<Rightarrow> CChain \<Rightarrow> u256 list \<Rightarrow> u256 option" where
  "FindFork idx c vHave = (case find (\<lambda>hash. idx hash \<noteq> None \<and> Contains idx c hash) vHave of None \<Rightarrow> Genesis c | Some p \<Rightarrow> Some p)"

section \<open>A locator finds the fork\<close>

text \<open>A step from a block of the chain leads to the block of the chain at the height asked for.\<close>

lemma locator_next_chain:
  assumes wf: "index_wf idx" and c: "chain_wf idx c" and p: "Contains idx c p" and h: "h < height idx p"
  obtains q where "locator_next idx c p (int h) = Inr (Some q)" "Contains idx c q" "height idx q = h"
proof -
  from p obtain t where t: "Tip c = Some t" "idx t \<noteq> None" "c = chain_of idx (Some t)"
    using chain_wf_Tip [OF wf c] by (cases "Tip c") (auto simp: Contains_def chain_get_def)
  then obtain e where e: "idx t = Some e" by blast
  have l: "height idx p < length c" using p by (auto simp: Contains_def chain_get_def split: if_splits)
  from chain_of_nth [OF wf e, of h] l h t(3) obtain q where q: "c ! h = Some q" "height idx q = h" by auto
  have g: "chain_get c (int h) = Some q" using q(1) l h by (simp add: chain_get_def)
  obtain f where f: "idx p = Some f" using lineage_mem [OF wf e] p t(3) by (auto simp: Contains_chain_of [OF wf e])
  have "locator_next idx c p (int h) = Inr (Some q)" using p h g by (simp add: locator_next_def lineage_simps(2) [OF wf f])
  then show ?thesis using that g q(2) by (simp add: Contains_def)
qed

lemma locator_loop_chain:
  assumes wf: "index_wf idx" and c: "chain_wf idx c" and "Contains idx c p" and "1 \<le> nStep" and "height idx p \<noteq> 0 \<longrightarrow> nStep + int (height idx p) \<le> int (length c)"
    and "length c \<le> 2 ^ 30" and "height idx p < fuel"
  shows "\<exists>r. locator_loop idx c fuel (Some p) nStep vHave = returnF (vHave @ p # r) \<and> (\<forall>q\<in>set (p # r). Contains idx c q)
    \<and> sorted_wrt (\<lambda>x y. height idx y < height idx x) (p # r)
    \<and> (f \<le> height idx p \<longrightarrow> (\<exists>q\<in>set (p # r). height idx q \<le> f \<and> 2 * f < height idx q + length c))"
  using assms(3-5,7)
proof (induction fuel arbitrary: p nStep vHave)
  case (Suc fuel)
  let ?k = "height idx p"
  have len: "?k < length c" using Suc.prems(1) by (auto simp: Contains_def chain_get_def split: if_splits)
  show ?case
  proof (cases "?k = 0")
    case True
    then show ?thesis using Suc.prems(1) len by auto
  next
    case False
    define h where "h = nat (max (int ?k - nStep) 0)"
    have h: "max (int ?k - nStep) 0 = int h" "h < ?k" using False Suc.prems(2) by (auto simp: h_def)
    obtain q where q: "locator_next idx c p (int h) = Inr (Some q)" "Contains idx c q" "height idx q = h"
      by (rule locator_next_chain [OF wf c Suc.prems(1) h(2)])
    define s where "s = (if length (vHave @ [p]) > 10 then nStep * 2 else nStep)"
    have s: "(if length (vHave @ [p]) > 10 then i32 (nStep * 2) else Inr nStep) = Inr s" "1 \<le> s" "s \<le> 2 * nStep"
      using Suc.prems(2,3) False assms(6) by (auto simp: s_def i32_def int32_range_def)
    have st: "h \<noteq> 0 \<longrightarrow> s + int h \<le> int (length c)" using h(1) s(3) Suc.prems(3) False by auto
    obtain r where r: "locator_loop idx c fuel (Some q) s (vHave @ [p]) = returnF ((vHave @ [p]) @ q # r)" "\<forall>x\<in>set (q # r). Contains idx c x"
        "sorted_wrt (\<lambda>x y. height idx y < height idx x) (q # r)"
        "f \<le> h \<longrightarrow> (\<exists>x\<in>set (q # r). height idx x \<le> f \<and> 2 * f < height idx x + length c)"
      using Suc.IH [OF q(2) s(2), of "vHave @ [p]"] st q(3) h(2) Suc.prems(4) by auto
    have loop: "locator_loop idx c (Suc fuel) (Some p) nStep vHave = returnF (vHave @ p # q # r)"
      using False q(1) s(1) r(1) h(1) by (simp add: Let_def)
    have "\<exists>x\<in>set (p # q # r). height idx x \<le> f \<and> 2 * f < height idx x + length c" if "f \<le> ?k"
    proof (cases "f \<le> h")
      case f: False
      show ?thesis
      proof (cases "f = ?k")
        case False
        have "2 * int f < int h + int (length c)" using h(1) Suc.prems(3) \<open>?k \<noteq> 0\<close> that False by linarith
        then show ?thesis using q(3) f by auto
      qed (use len in auto)
    qed (use r(4) in auto)
    then show ?thesis using loop r(2,3) Suc.prems(1) h(2) q(3) by (intro exI [of _ "q # r"]) (auto intro: less_trans)
  qed
qed simp

lemma find_sorted:
  assumes "x \<in> set xs" and "P x" and "sorted_wrt (\<lambda>x y. g y < g x) xs"
  shows "\<exists>y\<in>set xs. find P xs = Some y \<and> P y \<and> (g x :: nat) \<le> g y"
  using assms by (induction xs) (auto simp: less_imp_le)

text \<open>C26: A locator finds a block close to the fork. A node makes a locator from its chain, and a peer whose chain agrees with it up to height \<open>f\<close> looks it
  up. Making the locator ends without overflow, and the block the peer finds is in its chain and at most as far below the fork
  as the fork is below the tip of the first chain. The two nodes may know different blocks; a block that both know has the
  same height.\<close>

theorem locator_close_to_fork:
  assumes "index_wf idx" and "chain_wf idx c" and "length c \<le> 2 ^ 30" and "index_wf idx'" and "chain_wf idx' d"
    and "\<forall>h\<in>dom idx \<inter> dom idx'. height idx' h = height idx h" and "f < length c" and "f < length d" and "take (Suc f) d = take (Suc f) c"
  shows "\<exists>vHave h. GetLocator idx c None = Some (Inr vHave) \<and> FindFork idx' d vHave = Some h \<and> Contains idx' d h \<and> f - height idx' h \<le> (length c - 1) - f"
proof -
  obtain t e where t: "Tip c = Some t" "idx t = Some e" "c = chain_of idx (Some t)" using chain_wf_Tip [OF assms(1,2)] assms(7) by (cases "Tip c") auto
  have ct: "Contains idx c t" using Contains_chain_of [OF assms(1) t(2)] lineage_simps(2) [OF assms(1) t(2)] t(3) by simp
  have lt: "length c = Suc (height idx t)" using chain_of_step(2) [OF assms(1) t(2)] t(3) by simp
  obtain r where r: "locator_loop idx c (Suc (height idx t)) (Some t) 1 [] = returnF (t # r)" "\<forall>q\<in>set (t # r). Contains idx c q"
      "sorted_wrt (\<lambda>x y. height idx y < height idx x) (t # r)" "\<exists>q\<in>set (t # r). height idx q \<le> f \<and> 2 * f < height idx q + length c"
    using locator_loop_chain [OF assms(1,2) ct, of 1 "Suc (height idx t)" "[]" f] lt assms(3,7) by auto
  have known: "Contains idx c q \<Longrightarrow> idx q \<noteq> None" for q using Contains_chain_of [OF assms(1) t(2)] lineage_mem [OF assms(1) t(2)] t(3) by auto
  from r(4) obtain q where q: "q \<in> set (t # r)" "height idx q \<le> f" "2 * f < height idx q + length c" by blast
  have cq: "c ! height idx q = Some q" using r(2) q(1) by (auto simp: Contains_def chain_get_def split: if_splits)
  then have dq: "d ! height idx q = Some q" using q(2) arg_cong [OF assms(9), of "\<lambda>l. l ! height idx q"] by simp
  obtain u e' where u: "idx' u = Some e'" "d = chain_of idx' (Some u)" using chain_wf_Tip [OF assms(4,5)] assms(8) by (cases "Tip d") auto
  from chain_of_nth [OF assms(4) u(1), of "height idx q"] dq q(2) assms(8) u(2) have hq: "height idx' q = height idx q" "idx' q \<noteq> None" by auto
  have "idx' q \<noteq> None \<and> Contains idx' d q" using hq dq q(2) assms(8) by (simp add: Contains_def chain_get_def)
  from find_sorted [where P = "\<lambda>hash. idx' hash \<noteq> None \<and> Contains idx' d hash" and g = "height idx", OF q(1) this r(3)] obtain y
    where y: "y \<in> set (t # r)" "find (\<lambda>hash. idx' hash \<noteq> None \<and> Contains idx' d hash) (t # r) = Some y" "idx' y \<noteq> None" "Contains idx' d y" "height idx q \<le> height idx y" by blast
  have "height idx' y = height idx y" using assms(6) y(1,3) r(2) known by (auto simp: dom_def)
  then have "f - height idx' y \<le> (length c - 1) - f" using y(5) q(3) by simp
  then show ?thesis using y r(1) t(1) by (intro exI [of _ "t # r"] exI [of _ y]) (simp add: GetLocator_def FindFork_def)
qed

end
