(* ===== verification/Chain_Process.thy ===== *)
theory Chain_Process
  imports Chain_Accept Chain_Locator
begin

text \<open>
  Blocks as they arrive: \<open>ProcessBlock\<close> of \<open>main.cpp\<close> with the orphan blocks, which wait for their predecessor (\<open>mapOrphanBlocks\<close> and
  \<open>mapOrphanBlocksByPrev\<close>, \<open>PruneOrphanBlocks\<close>, \<open>GetOrphanRoot\<close>), and the request for the blocks in between (\<open>PushGetBlocks\<close>).

  The two maps hold pointers to the same objects; here each holds the object, and an object is deleted when it leaves both. The
  multimap is the list of its pairs in ascending order of the keys. An orphan is kept in its serialized form. What \<open>insecure_rand\<close>
  returns is an argument, and the messages to a peer are a list. \<open>mapAlreadyAskedFor\<close>, which only the network code reads, is left out.
  The environment is the same for all the blocks of a call.
\<close>

definition unser_CBlock :: "byte list \<Rightarrow> (CBlock \<times> byte list) result" where
  "unser_CBlock s = bindE (unser_CBlockHeader s) (\<lambda>(h, s). bindE (unser_vector unser_CTransaction s) (\<lambda>(txs, s).
     Inr (CBlockHeader.extend h \<lparr>vtx = txs, vMerkleTree = []\<rparr>, s)))"

section \<open>Orphan blocks\<close>

record COrphanBlock =
  ob_hashBlock :: u256
  ob_hashPrev :: u256
  vchBlock :: "byte list"

type_synonym orphans_by_prev = "(u256 \<times> COrphanBlock) list"

record process_state =
  ps_node :: full_node
  mapOrphanBlocks :: "u256 \<rightharpoonup> COrphanBlock"
  mapOrphanBlocksByPrev :: orphans_by_prev

definition MAX_ORPHAN_BLOCKS :: nat where "MAX_ORPHAN_BLOCKS = 750"

text \<open>\<open>multimap::insert\<close>, behind the pairs with the same key, and the position of the first pair with a key, as \<open>find\<close> gives it.\<close>

definition multi_insert :: "'k::linorder \<Rightarrow> 'v \<Rightarrow> ('k \<times> 'v) list \<Rightarrow> ('k \<times> 'v) list" where
  "multi_insert k v m = takeWhile (\<lambda>x. fst x \<le> k) m @ (k, v) # dropWhile (\<lambda>x. fst x \<le> k) m"

definition multi_find :: "'k \<Rightarrow> ('k \<times> 'v) list \<Rightarrow> nat option" where
  "multi_find k m = (let i = length (takeWhile (\<lambda>x. fst x \<noteq> k) m) in if i < length m then Some i else None)"

fun orphan_leaf :: "nat \<Rightarrow> orphans_by_prev \<Rightarrow> nat \<Rightarrow> nat option" where
  "orphan_leaf 0 m i = None"
| "orphan_leaf (Suc fuel) m i = (case multi_find (ob_hashBlock (snd (m ! i))) m of None \<Rightarrow> Some i | Some j \<Rightarrow> orphan_leaf fuel m j)"

definition PruneOrphanBlocks :: "u32 \<Rightarrow> process_state \<Rightarrow> process_state option" where
  "PruneOrphanBlocks insecure_rand ps =
     (let m = mapOrphanBlocksByPrev ps in
      if length m \<le> MAX_ORPHAN_BLOCKS then Some ps
      else case orphan_leaf (Suc (length m)) m (unat insecure_rand mod length m) of
        None \<Rightarrow> None
      | Some i \<Rightarrow> Some (ps\<lparr>mapOrphanBlocksByPrev := take i m @ drop (Suc i) m,
          mapOrphanBlocks := (mapOrphanBlocks ps)(ob_hashBlock (snd (m ! i)) := None)\<rparr>))"

fun orphan_root :: "nat \<Rightarrow> (u256 \<rightharpoonup> COrphanBlock) \<Rightarrow> u256 \<Rightarrow> COrphanBlock \<Rightarrow> u256 option" where
  "orphan_root 0 m hash ob = None"
| "orphan_root (Suc fuel) m hash ob = (case m (ob_hashPrev ob) of None \<Rightarrow> Some hash | Some ob' \<Rightarrow> orphan_root fuel m (ob_hashPrev ob) ob')"

definition GetOrphanRoot :: "process_state \<Rightarrow> u256 \<Rightarrow> u256 option" where
  "GetOrphanRoot ps hash =
     (case mapOrphanBlocks ps hash of None \<Rightarrow> Some hash | Some ob \<Rightarrow> orphan_root (Suc (length (mapOrphanBlocksByPrev ps))) (mapOrphanBlocks ps) hash ob)"

section \<open>Asking for blocks\<close>

record getblocks_peer =
  pindexLastGetBlocksBegin :: "u256 option"
  hashLastGetBlocksEnd :: u256
  vGetBlocks :: "(u256 list \<times> u256) list"

definition PushGetBlocks :: "block_index \<Rightarrow> CChain \<Rightarrow> getblocks_peer \<Rightarrow> u256 option \<Rightarrow> u256 \<Rightarrow> getblocks_peer result option" where
  "PushGetBlocks idx c pnode pindexBegin hashEnd =
     (if pindexBegin = pindexLastGetBlocksBegin pnode \<and> hashEnd = hashLastGetBlocksEnd pnode then returnF pnode
      else bindF (GetLocator idx c pindexBegin) (\<lambda>locator.
        returnF (pnode\<lparr>pindexLastGetBlocksBegin := pindexBegin, hashLastGetBlocksEnd := hashEnd, vGetBlocks := vGetBlocks pnode @ [(locator, hashEnd)]\<rparr>)))"

section \<open>Processing a block\<close>

datatype process_result = Processed "accept_result list" | Shunted | Refused verdict | Declined accept_result | Outdated

definition keep_orphan :: "u256 \<Rightarrow> CBlock \<Rightarrow> process_state \<Rightarrow> process_state" where
  "keep_orphan hash block ps =
     (let pblock2 = \<lparr>ob_hashBlock = hash, ob_hashPrev = hashPrevBlock block, vchBlock = ser_CBlock block\<rparr> in
      ps\<lparr>mapOrphanBlocks := (case mapOrphanBlocks ps hash of None \<Rightarrow> (mapOrphanBlocks ps)(hash \<mapsto> pblock2) | Some _ \<Rightarrow> mapOrphanBlocks ps),
         mapOrphanBlocksByPrev := multi_insert (ob_hashPrev pblock2) pblock2 (mapOrphanBlocksByPrev ps)\<rparr>)"

definition shunt_block :: "u32 \<Rightarrow> getblocks_peer option \<Rightarrow> u256 \<Rightarrow> CBlock \<Rightarrow> process_state \<Rightarrow> (process_state \<times> getblocks_peer option) result option" where
  "shunt_block insecure_rand pfrom hash block ps = (case pfrom of
     None \<Rightarrow> returnF (ps, None)
   | Some pnode \<Rightarrow> (case PruneOrphanBlocks insecure_rand ps of
       None \<Rightarrow> None
     | Some ps \<Rightarrow>
         let ps = keep_orphan hash block ps; st = ps_node ps in
         case GetOrphanRoot ps hash of
           None \<Rightarrow> None
         | Some root \<Rightarrow> bindF (PushGetBlocks (ns_index st) (chainActive st) pnode (Tip (chainActive st)) root) (\<lambda>pnode. returnF (ps, Some pnode))))"

text \<open>The block against the last checkpoint, when it does not extend the active chain.\<close>

definition check_spam :: "accept_env \<Rightarrow> CBlock \<Rightarrow> full_node \<Rightarrow> verdict" where
  "check_spam env block st = (case GetLastCheckpoint (ae_checkpoints env) (ns_index st) of
     None \<Rightarrow> Accept
   | Some pcheckpoint \<Rightarrow>
       if hashPrevBlock block = (case Tip (chainActive st) of None \<Rightarrow> 0 | Some t \<Rightarrow> t) then Accept
       else if uint (nTime block) - uint (idx_nTime pcheckpoint) < 0 then Reject 100 REJECT_CHECKPOINT ''time-too-old'' False
       else if SetCompact (nBits block) > bnProofOfWorkLimit (te_rules (ae_tip env)) then invalid 100 ''bad-diffbits''
       else Accept)"

text \<open>The orphans that wait for a block. The queue is the rest of \<open>vWorkQueue\<close>; the results of \<open>AcceptBlock\<close> are recorded.\<close>

type_synonym queue_state = "u256 list \<times> accept_result list \<times> process_state"

definition take_orphan :: "accept_env \<Rightarrow> nat \<Rightarrow> COrphanBlock \<Rightarrow> queue_state \<Rightarrow> queue_state result option" where
  "take_orphan env fuel ob = (\<lambda>(queue, rs, ps).
     bindF (Some (unser_CBlock (vchBlock ob))) (\<lambda>(block, _).
     bindF (Some (BuildMerkleTree (env_sha (cn_chain (te_rules (ae_tip env)))) block)) (\<lambda>(block, _).
     bindF (AcceptBlock env fuel block (ps_node ps)) (\<lambda>(r, st).
     returnF (if r = Stored then queue @ [ob_hashBlock ob] else queue, rs @ [r],
       ps\<lparr>ps_node := st, mapOrphanBlocks := (mapOrphanBlocks ps)(ob_hashBlock ob := None)\<rparr>)))))"

fun work_queue :: "accept_env \<Rightarrow> nat \<Rightarrow> nat \<Rightarrow> queue_state \<Rightarrow> (accept_result list \<times> process_state) result option" where
  "work_queue env fuel n ([], rs, ps) = returnF (rs, ps)"
| "work_queue env fuel 0 (hashPrev # queue, rs, ps) = None"
| "work_queue env fuel (Suc n) (hashPrev # queue, rs, ps) =
     bindF (foldF (take_orphan env fuel) (map snd (filter (\<lambda>x. fst x = hashPrev) (mapOrphanBlocksByPrev ps))) (queue, rs, ps)) (\<lambda>(queue, rs, ps).
       work_queue env fuel n (queue, rs, ps\<lparr>mapOrphanBlocksByPrev := filter (\<lambda>x. fst x \<noteq> hashPrev) (mapOrphanBlocksByPrev ps)\<rparr>))"

definition store_block :: "accept_env \<Rightarrow> nat \<Rightarrow> u256 \<Rightarrow> CBlock \<Rightarrow> process_state \<Rightarrow> (process_result \<times> process_state) result option" where
  "store_block env fuel hash block ps =
     bindF (AcceptBlock env fuel block (ps_node ps)) (\<lambda>(r, st). let ps = ps\<lparr>ps_node := st\<rparr> in
       if r \<noteq> Stored then returnF (Declined r, ps)
       else bindF (work_queue env fuel (Suc (length (mapOrphanBlocksByPrev ps))) ([hash], [r], ps)) (\<lambda>(rs, ps). returnF (Processed rs, ps)))"

definition ProcessBlock :: "accept_env \<Rightarrow> nat \<Rightarrow> u32 \<Rightarrow> getblocks_peer option \<Rightarrow> CBlock \<Rightarrow> process_state
    \<Rightarrow> (process_result \<times> getblocks_peer option \<times> process_state) result option" where
  "ProcessBlock env fuel insecure_rand pfrom block ps =
     (let rules = te_rules (ae_tip env); hash = CBlockHeader_GetHash (env_Hash9 (cn_chain rules)) block in
      if ns_index (ps_node ps) hash \<noteq> None \<or> mapOrphanBlocks ps hash \<noteq> None then returnF (Refused (Reject 0 0 ''duplicate'' False), pfrom, ps)
      else bindF (CheckLastBlockState (ae_tip env) fuel (GetLastBitcoinHeight (lottoHeader block)) (ps_node ps)) (\<lambda>(ok, st).
        let ps = ps\<lparr>ps_node := st\<rparr> in
        if \<not> ok then returnF (Outdated, pfrom, ps)
        else bindF (Some (CheckBlock (cn_chain rules) (bnProofOfWorkLimit rules) (GetAdjustedTime rules) block True True)) (\<lambda>(block, v).
          if v \<noteq> Accept then returnF (Refused v, pfrom, ps)
          else if hashPrevBlock block \<noteq> 0 \<and> ns_index st (hashPrevBlock block) = None
          then bindF (shunt_block insecure_rand pfrom hash block ps) (\<lambda>(ps, pfrom). returnF (Shunted, pfrom, ps))
          else if check_spam env block st \<noteq> Accept then returnF (Refused (check_spam env block st), pfrom, ps)
          else bindF (store_block env fuel hash block ps) (\<lambda>(r, ps). returnF (r, pfrom, ps)))))"

section \<open>A stored orphan is read back\<close>

definition block_ok :: "CBlock \<Rightarrow> bool" where
  "block_ok b \<longleftrightarrow> header_ok b \<and> length (vtx b) \<le> MAX_SIZE \<and> (\<forall>tx\<in>set (vtx b). tx_ok tx)"

interpretation txs: codec "ser_vector ser_CTransaction" "unser_vector unser_CTransaction" "\<lambda>v. length v \<le> MAX_SIZE \<and> (\<forall>x\<in>set v. tx_ok x)"
  by (rule codec_vector [OF tx.codec_axioms])

lemma unser_ser_CBlock:
  assumes "block_ok b"
  shows "unser_CBlock (ser_CBlock b @ r) = Inr (b\<lparr>vMerkleTree := []\<rparr>, r)"
proof -
  have h: "ser_CBlockHeader b = ser_CBlockHeader (CBlockHeader.truncate b)" "header_ok (CBlockHeader.truncate b)"
    using assms by (simp_all add: ser_CBlockHeader_def CBlockHeader.truncate_def block_ok_def header_ok_def)
  have "CBlockHeader.extend (CBlockHeader.truncate b) \<lparr>vtx = vtx b, vMerkleTree = []\<rparr> = b\<lparr>vMerkleTree := []\<rparr>" by (simp add: CBlockHeader.defs)
  then show ?thesis using assms by (simp add: unser_CBlock_def ser_CBlock_def h(1) header.read_back [OF h(2)] txs.read_back block_ok_def)
qed

interpretation block_codec: codec ser_CBlock unser_CBlock "\<lambda>b. block_ok b \<and> vMerkleTree b = []"
  by unfold_locales (simp add: unser_ser_CBlock)

lemma hash_ignores_tree [simp]: "CBlockHeader_GetHash Hash9 (b\<lparr>vMerkleTree := t\<rparr>) = CBlockHeader_GetHash Hash9 b"
  by (simp add: CBlockHeader_GetHash_def ser_CBlockHeader_def)

section \<open>Waiting orphans\<close>

text \<open>The two maps hold the same orphans. Each is a block with its own hash and that of its predecessor. It is not known itself, and its predecessor
  is not known either, unless it is in the queue.\<close>

definition orphan_stored :: "tip_env \<Rightarrow> COrphanBlock \<Rightarrow> bool" where
  "orphan_stored env ob \<longleftrightarrow> (\<exists>b. block_ok b \<and> hash_ok env b \<and> vchBlock ob = ser_CBlock b
     \<and> CBlockHeader_GetHash (env_Hash9 (cn_chain (te_rules env))) b = ob_hashBlock ob \<and> hashPrevBlock b = ob_hashPrev ob)"

definition waiting :: "tip_env \<Rightarrow> (u256 \<rightharpoonup> COrphanBlock) \<Rightarrow> orphans_by_prev \<Rightarrow> u256 set \<Rightarrow> u256 set \<Rightarrow> bool" where
  "waiting env M m known Q \<longleftrightarrow> (\<forall>h ob. M h = Some ob \<longleftrightarrow> (\<exists>k. (k, ob) \<in> set m) \<and> ob_hashBlock ob = h) \<and> distinct (map (ob_hashBlock \<circ> snd) m)
     \<and> (\<forall>k ob. (k, ob) \<in> set m \<longrightarrow> k = ob_hashPrev ob \<and> orphan_stored env ob \<and> ob_hashBlock ob \<notin> known \<and> (k \<in> known \<longrightarrow> k \<in> Q))"

lemma waitingD:
  assumes "waiting env M m known Q"
  shows "M h = Some ob \<longleftrightarrow> (\<exists>k. (k, ob) \<in> set m) \<and> ob_hashBlock ob = h" "distinct (map (ob_hashBlock \<circ> snd) m)"
    "(k, ob) \<in> set m \<Longrightarrow> k = ob_hashPrev ob \<and> orphan_stored env ob \<and> ob_hashBlock ob \<notin> known \<and> (k \<in> known \<longrightarrow> k \<in> Q)"
  using assms unfolding waiting_def by blast+

lemma waiting_remove:
  assumes "waiting env M m known Q"
  shows "waiting env (M(h := None)) (filter (\<lambda>x. ob_hashBlock (snd x) \<noteq> h) m) known Q"
  unfolding waiting_def
proof (intro conjI allI)
  note w = waitingD [OF assms]
  fix h' ob
  show "(M(h := None)) h' = Some ob \<longleftrightarrow> (\<exists>k. (k, ob) \<in> set (filter (\<lambda>x. ob_hashBlock (snd x) \<noteq> h) m)) \<and> ob_hashBlock ob = h'"
    using w(1) [of h' ob] by auto
  show "distinct (map (ob_hashBlock \<circ> snd) (filter (\<lambda>x. ob_hashBlock (snd x) \<noteq> h) m))" using w(2) by (rule distinct_map_filter)
  fix k
  show "(k, ob) \<in> set (filter (\<lambda>x. ob_hashBlock (snd x) \<noteq> h) m) \<longrightarrow> k = ob_hashPrev ob \<and> orphan_stored env ob \<and> ob_hashBlock ob \<notin> known \<and> (k \<in> known \<longrightarrow> k \<in> Q)"
    using w(3) by auto
qed

lemma waiting_known:
  assumes "waiting env M m known Q" and "h \<notin> (ob_hashBlock \<circ> snd) ` set m"
  shows "waiting env M m (insert h known) (insert h Q)"
  using assms unfolding waiting_def by (auto simp: image_iff)

lemma waiting_queue: "waiting env M m known Q \<Longrightarrow> Q \<subseteq> Q' \<Longrightarrow> waiting env M m known Q'"
  unfolding waiting_def by blast

lemma waiting_done:
  assumes "waiting env M m known ({h} \<union> Q)" and "\<forall>x\<in>set m. fst x \<noteq> h"
  shows "waiting env M m known Q"
  using assms unfolding waiting_def by fastforce

lemma multi_insert_split: "\<exists>a b. m = a @ b \<and> multi_insert k v m = a @ (k, v) # b"
  by (metis multi_insert_def takeWhile_dropWhile_id)

lemma waiting_insert:
  assumes w: "waiting env M m known {}" and o: "orphan_stored env ob" "ob_hashBlock ob \<notin> known" "ob_hashPrev ob \<notin> known" and new: "M (ob_hashBlock ob) = None"
  shows "waiting env (M(ob_hashBlock ob \<mapsto> ob)) (multi_insert (ob_hashPrev ob) ob m) known {}"
proof -
  obtain a b where ab: "m = a @ b" "multi_insert (ob_hashPrev ob) ob m = a @ (ob_hashPrev ob, ob) # b" using multi_insert_split [of m "ob_hashPrev ob" ob] by blast
  have st: "set (multi_insert (ob_hashPrev ob) ob m) = insert (ob_hashPrev ob, ob) (set m)" unfolding ab(2) by (simp add: ab(1))
  have n: "ob_hashBlock ob \<notin> (ob_hashBlock \<circ> snd) ` set m"
  proof
    assume "ob_hashBlock ob \<in> (ob_hashBlock \<circ> snd) ` set m"
    then obtain k ob' where "(k, ob') \<in> set m" "ob_hashBlock ob = ob_hashBlock ob'" by auto
    then show False using waitingD(1) [OF w, of "ob_hashBlock ob" ob'] new by auto
  qed
  have d: "distinct (map (ob_hashBlock \<circ> snd) (multi_insert (ob_hashPrev ob) ob m))" using waitingD(2) [OF w] n unfolding ab(2) by (auto simp: ab(1))
  show ?thesis unfolding waiting_def
  proof (intro conjI allI d)
    fix h ob'
    show "(M(ob_hashBlock ob \<mapsto> ob)) h = Some ob' \<longleftrightarrow> (\<exists>k. (k, ob') \<in> set (multi_insert (ob_hashPrev ob) ob m)) \<and> ob_hashBlock ob' = h"
      unfolding st using waitingD(1) [OF w, of h ob'] n by (auto simp: image_iff)
    fix k
    show "(k, ob') \<in> set (multi_insert (ob_hashPrev ob) ob m) \<longrightarrow> k = ob_hashPrev ob' \<and> orphan_stored env ob' \<and> ob_hashBlock ob' \<notin> known \<and> (k \<in> known \<longrightarrow> k \<in> {})"
      unfolding st using waitingD(3) [OF w] o by auto
  qed
qed

section \<open>Pruning\<close>

lemma orphan_leaf_range: "orphan_leaf fuel m i = Some j \<Longrightarrow> i < length m \<Longrightarrow> j < length m"
  by (induction fuel arbitrary: i) (auto simp: multi_find_def Let_def split: if_splits option.splits)

lemma erase_filter:
  assumes "distinct (map f m)" and "i < length m"
  shows "take i m @ drop (Suc i) m = filter (\<lambda>x. f x \<noteq> f (m ! i)) m"
proof -
  have m: "m = take i m @ m ! i # drop (Suc i) m" using id_take_nth_drop [OF assms(2)] .
  have "distinct (map f (take i m @ m ! i # drop (Suc i) m))" using assms(1) m by simp
  then have "filter (\<lambda>x. f x \<noteq> f (m ! i)) (take i m @ m ! i # drop (Suc i) m) = take i m @ drop (Suc i) m"
    by (auto simp: image_iff intro!: arg_cong2 [of _ _ _ _ "(@)"] filter_True)
  then show ?thesis using m by simp
qed

lemma PruneOrphanBlocks_ok:
  assumes w: "waiting env (mapOrphanBlocks ps) (mapOrphanBlocksByPrev ps) known {}" and l: "length (mapOrphanBlocksByPrev ps) \<le> MAX_ORPHAN_BLOCKS + 1"
    and p: "PruneOrphanBlocks rnd ps = Some ps'"
  shows "waiting env (mapOrphanBlocks ps') (mapOrphanBlocksByPrev ps') known {}" "length (mapOrphanBlocksByPrev ps') \<le> MAX_ORPHAN_BLOCKS" "ps_node ps' = ps_node ps"
    "mapOrphanBlocks ps h = None \<Longrightarrow> mapOrphanBlocks ps' h = None"
proof -
  let ?m = "mapOrphanBlocksByPrev ps"
  have "waiting env (mapOrphanBlocks ps') (mapOrphanBlocksByPrev ps') known {} \<and> length (mapOrphanBlocksByPrev ps') \<le> MAX_ORPHAN_BLOCKS \<and> ps_node ps' = ps_node ps
    \<and> (mapOrphanBlocks ps h = None \<longrightarrow> mapOrphanBlocks ps' h = None)"
  proof (cases "length ?m \<le> MAX_ORPHAN_BLOCKS")
    case True
    then show ?thesis using p w by (simp add: PruneOrphanBlocks_def)
  next
    case False
    with p obtain i where i: "orphan_leaf (Suc (length ?m)) ?m (unat rnd mod length ?m) = Some i"
      and ps': "ps' = ps\<lparr>mapOrphanBlocksByPrev := take i ?m @ drop (Suc i) ?m, mapOrphanBlocks := (mapOrphanBlocks ps)(ob_hashBlock (snd (?m ! i)) := None)\<rparr>"
      by (auto simp: PruneOrphanBlocks_def Let_def simp del: orphan_leaf.simps split: option.splits)
    have "unat rnd mod length ?m < length ?m" using False by (intro mod_less_divisor) (auto simp: MAX_ORPHAN_BLOCKS_def)
    with orphan_leaf_range [OF i] have r: "i < length ?m" .
    have e: "take i ?m @ drop (Suc i) ?m = filter (\<lambda>x. ob_hashBlock (snd x) \<noteq> ob_hashBlock (snd (?m ! i))) ?m"
      using erase_filter [OF waitingD(2) [OF w] r] by simp
    have "length (take i ?m @ drop (Suc i) ?m) \<le> MAX_ORPHAN_BLOCKS" using r l by simp
    then show ?thesis using waiting_remove [OF w] unfolding ps' by (simp add: e)
  qed
  then show "waiting env (mapOrphanBlocks ps') (mapOrphanBlocksByPrev ps') known {}" "length (mapOrphanBlocksByPrev ps') \<le> MAX_ORPHAN_BLOCKS" "ps_node ps' = ps_node ps"
    "mapOrphanBlocks ps h = None \<Longrightarrow> mapOrphanBlocks ps' h = None" by blast+
qed

lemma shunt_block_ok:
  assumes w: "waiting env (mapOrphanBlocks ps) (mapOrphanBlocksByPrev ps) known {}" and l: "length (mapOrphanBlocksByPrev ps) \<le> MAX_ORPHAN_BLOCKS + 1"
    and b: "block_ok block" "hash_ok env block" "CBlockHeader_GetHash (env_Hash9 (cn_chain (te_rules env))) block = hash"
    and n: "hash \<notin> known" "hashPrevBlock block \<notin> known" "mapOrphanBlocks ps hash = None"
    and s: "shunt_block rnd pfrom hash block ps = returnF (ps', pfrom')"
  shows "waiting env (mapOrphanBlocks ps') (mapOrphanBlocksByPrev ps') known {} \<and> length (mapOrphanBlocksByPrev ps') \<le> MAX_ORPHAN_BLOCKS + 1 \<and> ps_node ps' = ps_node ps"
proof (cases pfrom)
  case None
  then show ?thesis using s w l by (simp add: shunt_block_def)
next
  case (Some pnode)
  with s obtain q where q: "PruneOrphanBlocks rnd ps = Some q" and ps': "ps' = keep_orphan hash block q"
    by (auto simp: shunt_block_def Let_def bindF_eq_Inr split: option.splits)
  note p = PruneOrphanBlocks_ok [OF w l q]
  let ?ob = "\<lparr>ob_hashBlock = hash, ob_hashPrev = hashPrevBlock block, vchBlock = ser_CBlock block\<rparr>"
  have "orphan_stored env ?ob" using b by (auto simp: orphan_stored_def)
  from waiting_insert [OF p(1) this] n p(4) [OF n(3)]
  have "waiting env ((mapOrphanBlocks q)(hash \<mapsto> ?ob)) (multi_insert (hashPrevBlock block) ?ob (mapOrphanBlocksByPrev q)) known {}" by simp
  moreover have "length (multi_insert (hashPrevBlock block) ?ob (mapOrphanBlocksByPrev q)) = Suc (length (mapOrphanBlocksByPrev q))"
    using multi_insert_split [of "mapOrphanBlocksByPrev q" "hashPrevBlock block" ?ob] by auto
  ultimately show ?thesis using p(2-3) p(4) [OF n(3)] by (simp add: ps' keep_orphan_def Let_def)
qed

section \<open>The queue\<close>

lemma take_orphan_ok:
  assumes w: "waiting env (mapOrphanBlocks ps) m (dom (ns_index (ps_node ps))) (K \<union> set queue)" and r: "node_reachable env (ps_node ps)" "inj (te_addr env)"
    and s: "same_store env (ae_tip ae)" and ob: "(k, ob) \<in> set m" and t: "take_orphan ae fuel ob (queue, rs, ps) = returnF (queue', rs', ps')" "StoreError \<notin> set rs'"
  shows "waiting env (mapOrphanBlocks ps') (filter (\<lambda>x. ob_hashBlock (snd x) \<noteq> ob_hashBlock ob) m) (dom (ns_index (ps_node ps'))) (K \<union> set queue')
    \<and> node_reachable env (ps_node ps')"
proof -
  obtain b where b: "block_ok b" "hash_ok env b" "vchBlock ob = ser_CBlock b" "CBlockHeader_GetHash (env_Hash9 (cn_chain (te_rules env))) b = ob_hashBlock ob"
    using waitingD(3) [OF w ob] unfolding orphan_stored_def by blast
  have u: "unser_CBlock (vchBlock ob) = Inr (b\<lparr>vMerkleTree := []\<rparr>, [])" using unser_ser_CBlock [OF b(1), of "[]"] b(3) by simp
  from t(1) obtain b' h r st where m: "BuildMerkleTree (env_sha (cn_chain (te_rules (ae_tip ae)))) (b\<lparr>vMerkleTree := []\<rparr>) = Inr (b', h)"
      and a: "AcceptBlock ae fuel b' (ps_node ps) = returnF (r, st)"
      and e: "queue' = (if r = Stored then queue @ [ob_hashBlock ob] else queue)" "rs' = rs @ [r]" "ps' = ps\<lparr>ps_node := st, mapOrphanBlocks := (mapOrphanBlocks ps)(ob_hashBlock ob := None)\<rparr>"
    unfolding take_orphan_def u by (auto simp: bindF_eq_Inr split: if_splits)
  from m obtain tr where b': "b' = b\<lparr>vMerkleTree := tr\<rparr>" by (auto simp: BuildMerkleTree_def bindE_eq_Inr)
  have hb: "hash_ok env b'" "CBlockHeader_GetHash (env_Hash9 (cn_chain (te_rules env))) b' = ob_hashBlock ob" using b(2,4) unfolding b' by (simp_all add: hash_ok_def)
  have "r \<noteq> StoreError" using t(2) e(2) by auto
  from AcceptBlock_effect [OF r s hb(1) a this]
  have f: "node_reachable env st" "dom (ns_index st) = (if r = Stored then insert (ob_hashBlock ob) (dom (ns_index (ps_node ps))) else dom (ns_index (ps_node ps)))"
    unfolding hb(2) by blast+
  note v = waiting_remove [OF w, of "ob_hashBlock ob"]
  have "waiting env (mapOrphanBlocks ps') (filter (\<lambda>x. ob_hashBlock (snd x) \<noteq> ob_hashBlock ob) m) (dom (ns_index st)) (K \<union> set queue')"
  proof (cases "r = Stored")
    case True
    have "ob_hashBlock ob \<notin> (ob_hashBlock \<circ> snd) ` set (filter (\<lambda>x. ob_hashBlock (snd x) \<noteq> ob_hashBlock ob) m)" by auto
    from waiting_known [OF v this] show ?thesis using True f(2) e by simp
  qed (use v f(2) e in simp)
  then show ?thesis using f(1) e(3) by simp
qed

lemma take_orphan_fields:
  assumes "take_orphan ae fuel ob (queue, rs, ps) = returnF (queue', rs', ps')"
  shows "set rs \<subseteq> set rs'" "mapOrphanBlocksByPrev ps' = mapOrphanBlocksByPrev ps" "length queue' \<le> Suc (length queue)"
  using assms by (auto simp: take_orphan_def bindF_eq_Inr)

lemma take_orphans_fields:
  assumes "foldF (take_orphan ae fuel) obs (queue, rs, ps) = returnF (queue', rs', ps')"
  shows "set rs \<subseteq> set rs' \<and> mapOrphanBlocksByPrev ps' = mapOrphanBlocksByPrev ps \<and> length queue' \<le> length obs + length queue"
  using assms
proof (induction obs arbitrary: queue rs ps)
  case (Cons ob obs)
  from Cons.prems obtain q r s where t: "take_orphan ae fuel ob (queue, rs, ps) = returnF (q, r, s)" "foldF (take_orphan ae fuel) obs (q, r, s) = returnF (queue', rs', ps')"
    by (auto simp: bindF_eq_Inr)
  show ?case using take_orphan_fields [OF t(1)] Cons.IH [OF t(2)] by auto
qed simp

lemma take_orphans_ok:
  assumes "waiting env (mapOrphanBlocks ps) m (dom (ns_index (ps_node ps))) (K \<union> set queue)" and "node_reachable env (ps_node ps)" and inj: "inj (te_addr env)"
    and s: "same_store env (ae_tip ae)" and "set obs \<subseteq> snd ` set m" and "distinct (map ob_hashBlock obs)"
    and "foldF (take_orphan ae fuel) obs (queue, rs, ps) = returnF (queue', rs', ps')" and e: "StoreError \<notin> set rs'"
  shows "waiting env (mapOrphanBlocks ps') (filter (\<lambda>x. ob_hashBlock (snd x) \<notin> ob_hashBlock ` set obs) m) (dom (ns_index (ps_node ps'))) (K \<union> set queue')
    \<and> node_reachable env (ps_node ps')"
  using assms(1,2,5-7)
proof (induction obs arbitrary: m queue rs ps)
  case (Cons ob obs)
  from Cons.prems(5) obtain q r p where t: "take_orphan ae fuel ob (queue, rs, ps) = returnF (q, r, p)" "foldF (take_orphan ae fuel) obs (q, r, p) = returnF (queue', rs', ps')"
    by (auto simp: bindF_eq_Inr)
  obtain k where k: "(k, ob) \<in> set m" using Cons.prems(3) by auto
  let ?m = "filter (\<lambda>x. ob_hashBlock (snd x) \<noteq> ob_hashBlock ob) m"
  have "StoreError \<notin> set r" using take_orphans_fields [OF t(2)] e by blast
  note a = take_orphan_ok [OF Cons.prems(1,2) inj s k t(1) this]
  have "set obs \<subseteq> snd ` set ?m" using Cons.prems(3,4) by (force simp: image_iff)
  moreover have "distinct (map ob_hashBlock obs)" using Cons.prems(4) by simp
  moreover have "filter (\<lambda>x. ob_hashBlock (snd x) \<notin> ob_hashBlock ` set obs) ?m = filter (\<lambda>x. ob_hashBlock (snd x) \<notin> ob_hashBlock ` set (ob # obs)) m"
    by (auto intro: filter_cong)
  ultimately show ?case using Cons.IH [OF conjunct1 [OF a] conjunct2 [OF a] _ _ t(2)] by simp
qed simp

lemma work_queue_results: "work_queue ae fuel n (queue, rs, ps) = returnF (rs', ps') \<Longrightarrow> set rs \<subseteq> set rs'"
proof (induction n arbitrary: queue rs ps)
  case (Suc n)
  show ?case
  proof (cases queue)
    case (Cons h rest)
    with Suc.prems obtain q r p where f: "foldF (take_orphan ae fuel) (map snd (filter (\<lambda>x. fst x = h) (mapOrphanBlocksByPrev ps))) (rest, rs, ps) = returnF (q, r, p)"
      and g: "work_queue ae fuel n (q, r, p\<lparr>mapOrphanBlocksByPrev := filter (\<lambda>x. fst x \<noteq> h) (mapOrphanBlocksByPrev p)\<rparr>) = returnF (rs', ps')" by (auto simp: bindF_eq_Inr)
    show ?thesis using Suc.IH [OF g] take_orphans_fields [OF f] by blast
  qed (use Suc.prems in simp)
next
  case 0
  then show ?case by (cases queue) auto
qed

lemma work_queue_ok:
  assumes "waiting env (mapOrphanBlocks ps) (mapOrphanBlocksByPrev ps) (dom (ns_index (ps_node ps))) (set queue)" and "node_reachable env (ps_node ps)"
    and inj: "inj (te_addr env)" and s: "same_store env (ae_tip ae)" and "work_queue ae fuel n (queue, rs, ps) = returnF (rs', ps')" and e: "StoreError \<notin> set rs'"
  shows "waiting env (mapOrphanBlocks ps') (mapOrphanBlocksByPrev ps') (dom (ns_index (ps_node ps'))) {} \<and> node_reachable env (ps_node ps')
    \<and> length (mapOrphanBlocksByPrev ps') \<le> length (mapOrphanBlocksByPrev ps)"
  using assms(1,2,5)
proof (induction n arbitrary: queue rs ps)
  case (Suc n)
  show ?case
  proof (cases queue)
    case (Cons h rest)
    let ?m = "mapOrphanBlocksByPrev ps" and ?obs = "map snd (filter (\<lambda>x. fst x = h) (mapOrphanBlocksByPrev ps))"
    from Suc.prems(3) Cons obtain q r p where f: "foldF (take_orphan ae fuel) ?obs (rest, rs, ps) = returnF (q, r, p)"
      and g: "work_queue ae fuel n (q, r, p\<lparr>mapOrphanBlocksByPrev := filter (\<lambda>x. fst x \<noteq> h) (mapOrphanBlocksByPrev p)\<rparr>) = returnF (rs', ps')" by (auto simp: bindF_eq_Inr)
    note tf = take_orphans_fields [OF f]
    have er: "StoreError \<notin> set r" using work_queue_results [OF g] e by blast
    have d: "distinct (map (ob_hashBlock \<circ> snd) ?m)" using waitingD(2) [OF Suc.prems(1)] .
    have "distinct (map ob_hashBlock ?obs)" using distinct_map_filter [OF d] by simp
    moreover have "set ?obs \<subseteq> snd ` set ?m" by auto
    moreover have "waiting env (mapOrphanBlocks ps) ?m (dom (ns_index (ps_node ps))) ({h} \<union> set rest)" using Suc.prems(1) Cons by simp
    moreover have "fst x = h \<longleftrightarrow> ob_hashBlock (snd x) \<in> ob_hashBlock ` set ?obs" if "x \<in> set ?m" for x
      using that d by (fastforce simp: distinct_map inj_on_def)
    then have "filter (\<lambda>x. ob_hashBlock (snd x) \<notin> ob_hashBlock ` set ?obs) ?m = filter (\<lambda>x. fst x \<noteq> h) ?m" by (intro filter_cong) auto
    ultimately have a: "waiting env (mapOrphanBlocks p) (filter (\<lambda>x. fst x \<noteq> h) ?m) (dom (ns_index (ps_node p))) ({h} \<union> set q) \<and> node_reachable env (ps_node p)"
      using take_orphans_ok [OF _ Suc.prems(2) inj s _ _ f er, where m = ?m and K = "{h}"] by simp
    let ?p = "p\<lparr>mapOrphanBlocksByPrev := filter (\<lambda>x. fst x \<noteq> h) (mapOrphanBlocksByPrev p)\<rparr>"
    have "waiting env (mapOrphanBlocks p) (filter (\<lambda>x. fst x \<noteq> h) ?m) (dom (ns_index (ps_node p))) (set q)"
      by (rule waiting_done [OF conjunct1 [OF a]]) simp
    then have "waiting env (mapOrphanBlocks ?p) (mapOrphanBlocksByPrev ?p) (dom (ns_index (ps_node ?p))) (set q)" "node_reachable env (ps_node ?p)" using a tf by simp_all
    from Suc.IH [OF this g] have "waiting env (mapOrphanBlocks ps') (mapOrphanBlocksByPrev ps') (dom (ns_index (ps_node ps'))) {} \<and> node_reachable env (ps_node ps')
      \<and> length (mapOrphanBlocksByPrev ps') \<le> length (mapOrphanBlocksByPrev ?p)" .
    moreover have "length (mapOrphanBlocksByPrev ?p) \<le> length ?m" using tf by simp
    ultimately show ?thesis by linarith
  qed (use Suc.prems in simp)
next
  case 0
  then show ?case by (cases queue) auto
qed

section \<open>Processing keeps the orphans apart\<close>

definition process_ok :: "tip_env \<Rightarrow> process_state \<Rightarrow> bool" where
  "process_ok env ps \<longleftrightarrow> node_reachable env (ps_node ps) \<and> waiting env (mapOrphanBlocks ps) (mapOrphanBlocksByPrev ps) (dom (ns_index (ps_node ps))) {}
     \<and> length (mapOrphanBlocksByPrev ps) \<le> MAX_ORPHAN_BLOCKS + 1"

text \<open>A call that was not ended by a failure of the disk or the database.\<close>

definition undisturbed :: "process_result \<Rightarrow> bool" where
  "undisturbed r = (case r of Processed rs \<Rightarrow> StoreError \<notin> set rs | Declined r \<Rightarrow> r \<noteq> StoreError | Outdated \<Rightarrow> False | _ \<Rightarrow> True)"

lemma store_block_ok:
  assumes ok: "process_ok env ps" and inj: "inj (te_addr env)" and s: "same_store env (ae_tip ae)" and b: "hash_ok env block"
    and h: "CBlockHeader_GetHash (env_Hash9 (cn_chain (te_rules env))) block = hash" "mapOrphanBlocks ps hash = None"
    and r: "store_block ae fuel hash block ps = returnF (r, ps')" "undisturbed r"
  shows "process_ok env ps'"
proof -
  note o = ok [unfolded process_ok_def]
  from r(1) obtain x st where a: "AcceptBlock ae fuel block (ps_node ps) = returnF (x, st)" by (auto simp: store_block_def bindF_eq_Inr)
  show ?thesis
  proof (cases "x = Stored")
    case True
    with r(1) a obtain rs where w: "work_queue ae fuel (Suc (length (mapOrphanBlocksByPrev ps))) ([hash], [x], ps\<lparr>ps_node := st\<rparr>) = returnF (rs, ps')" "r = Processed rs"
      by (auto simp: store_block_def bindF_eq_Inr simp del: work_queue.simps)
    have e: "StoreError \<notin> set rs" using r(2) w(2) by (simp add: undisturbed_def)
    from AcceptBlock_effect [OF _ inj s b a] True o
    have f: "node_reachable env st" "dom (ns_index st) = insert hash (dom (ns_index (ps_node ps)))" unfolding h(1) by simp_all
    have n: "hash \<notin> (ob_hashBlock \<circ> snd) ` set (mapOrphanBlocksByPrev ps)"
    proof
      assume "hash \<in> (ob_hashBlock \<circ> snd) ` set (mapOrphanBlocksByPrev ps)"
      then obtain k ob where "(k, ob) \<in> set (mapOrphanBlocksByPrev ps)" "hash = ob_hashBlock ob" by auto
      then show False using waitingD(1) [of env "mapOrphanBlocks ps" _ _ _ hash ob] o h(2) by fastforce
    qed
    from waiting_known [OF _ n] o f(2) have "waiting env (mapOrphanBlocks (ps\<lparr>ps_node := st\<rparr>)) (mapOrphanBlocksByPrev (ps\<lparr>ps_node := st\<rparr>))
      (dom (ns_index (ps_node (ps\<lparr>ps_node := st\<rparr>)))) (set [hash])" by simp
    from work_queue_ok [OF this _ inj s w(1) e] f(1) o show ?thesis by (simp add: process_ok_def)
  next
    case False
    with r a have x: "ps' = ps\<lparr>ps_node := st\<rparr>" "x \<noteq> StoreError" by (auto simp: store_block_def undisturbed_def)
    with AcceptBlock_effect [OF _ inj s b a x(2)] False o show ?thesis by (simp add: process_ok_def)
  qed
qed

lemma ProcessBlock_ok:
  assumes ok: "process_ok env ps" and inj: "inj (te_addr env)" and s: "same_store env (ae_tip ae)" and b: "hash_ok env block" "block_ok block"
    and r: "ProcessBlock ae fuel rnd pfrom block ps = returnF (r, pfrom', ps')" "undisturbed r"
  shows "process_ok env ps'"
proof -
  note o = ok [unfolded process_ok_def]
  define rules where "rules = te_rules (ae_tip ae)"
  define hash where "hash = CBlockHeader_GetHash (env_Hash9 (cn_chain rules)) block"
  have h: "CBlockHeader_GetHash (env_Hash9 (cn_chain (te_rules env))) block = hash" using s by (simp add: hash_def rules_def same_store_def)
  show ?thesis
  proof (cases "ns_index (ps_node ps) hash \<noteq> None \<or> mapOrphanBlocks ps hash \<noteq> None")
    case True
    then show ?thesis using r(1) ok by (simp add: ProcessBlock_def Let_def rules_def [symmetric] hash_def [symmetric])
  next
    case new: False
    with r(1) obtain t st where c: "CheckLastBlockState (ae_tip ae) fuel (GetLastBitcoinHeight (lottoHeader block)) (ps_node ps) = returnF (t, st)"
      by (auto simp: ProcessBlock_def Let_def bindF_eq_Inr simp flip: rules_def hash_def)
    then have t: "t" using r new by (cases t) (auto simp: ProcessBlock_def Let_def undisturbed_def simp flip: rules_def hash_def)
    let ?ps = "ps\<lparr>ps_node := st\<rparr>"
    have "dom (ns_index st) = dom (ns_index (ps_node ps))"
    proof -
      have k: "node_ok (te_addr (ae_tip ae)) (ps_node ps)" "coins_consistent (ae_tip ae) (ps_node ps)" using reachable_consistent [OF _ inj] o same_store_coins [OF s] by simp_all
      show ?thesis using CheckLastBlockState_keeps(1) [OF k] c t tree_fields(3) by metis
    qed
    moreover have "node_reachable env st" by (rule node_reachable.bitcoin [OF _ s, of "ps_node ps"]) (use o c t in simp_all)
    ultimately have ok': "process_ok env ?ps" using o by (simp add: process_ok_def)
    from r(1) new c t obtain b' v where d: "CheckBlock (cn_chain rules) (bnProofOfWorkLimit rules) (GetAdjustedTime rules) block True True = Inr (b', v)"
      by (auto simp: ProcessBlock_def Let_def bindF_eq_Inr simp flip: rules_def hash_def)
    show ?thesis
    proof (cases "v = Accept")
      case True
      note e = CheckBlock_Accept(1) [OF d [unfolded True]]
      have b': "hash_ok env b'" "block_ok b'" "CBlockHeader_GetHash (env_Hash9 (cn_chain (te_rules env))) b' = hash"
        using b h unfolding e by (simp_all add: hash_ok_def block_ok_def header_ok_def)
      have m: "mapOrphanBlocks ?ps hash = None" "hash \<notin> dom (ns_index st)" using new \<open>dom (ns_index st) = dom (ns_index (ps_node ps))\<close> by auto
      consider (orphan) pf where "hashPrevBlock b' \<notin> dom (ns_index st)" "shunt_block rnd pfrom hash b' ?ps = returnF (ps', pf)" | (same) "ps' = ?ps"
        | (store) "store_block ae fuel hash b' ?ps = returnF (r, ps')"
        using r(1) new c t d True by (auto simp: ProcessBlock_def Let_def bindF_eq_Inr simp flip: rules_def hash_def split: if_splits)
      then show ?thesis
      proof cases
        case orphan
        show ?thesis using shunt_block_ok [OF _ _ b'(2,1,3) m(2) orphan(1) m(1) orphan(2)] ok' by (simp add: process_ok_def)
      next
        case store
        show ?thesis by (rule store_block_ok [OF ok' inj s b'(1,3) m(1) store r(2)])
      qed (use ok' in simp)
    qed (use r new c t d ok' in \<open>auto simp: ProcessBlock_def Let_def simp flip: rules_def hash_def\<close>)
  qed
qed

text \<open>The states of a node that processes the blocks it is handed and takes transactions into its memory pool.\<close>

definition new_process :: process_state where
  "new_process = \<lparr>ps_node = new_node, mapOrphanBlocks = Map.empty, mapOrphanBlocksByPrev = []\<rparr>"

inductive process_reachable :: "tip_env \<Rightarrow> process_state \<Rightarrow> bool" for env where
  start: "process_reachable env new_process"
| process: "process_reachable env ps \<Longrightarrow> same_store env (ae_tip ae) \<Longrightarrow> hash_ok env block \<Longrightarrow> block_ok block
    \<Longrightarrow> ProcessBlock ae fuel rnd pfrom block ps = Some (Inr (r, pfrom', ps')) \<Longrightarrow> undisturbed r \<Longrightarrow> process_reachable env ps'"
| transaction: "process_reachable env ps \<Longrightarrow> AcceptToMemoryPool (cache_GetCoins db_GetCoins) (cache_GetBestBlock db_GetBestBlock) txid pe rules tx l f
      (mempool (ps_node ps), pcoinsTip (ps_node ps)) = Inr ((pool, coins), v)
    \<Longrightarrow> process_reachable env (ps\<lparr>ps_node := (ps_node ps)\<lparr>mempool := pool, pcoinsTip := coins\<rparr>\<rparr>)"

lemma reachable_process_ok:
  assumes "process_reachable env ps" and "inj (te_addr env)"
  shows "process_ok env ps"
  using assms(1)
proof induction
  case start
  show ?case using node_reachable.start by (simp add: process_ok_def new_process_def waiting_def)
next
  case (process ps ae block fuel rnd pfrom r pfrom' ps')
  from ProcessBlock_ok [OF process.IH assms(2) process.hyps(2-6)] show ?case .
next
  case (transaction ps txid pe rules tx l f pool coins v)
  then show ?case using node_reachable.transaction [OF _ transaction.hyps(2)] by (simp add: process_ok_def)
qed

text \<open>C8: An orphan waits only for a block that is not known. Whatever blocks a node is handed, in whatever order, it only comes to states of the block tree
  that accepting blocks one by one leads to; at most \<open>MAX_ORPHAN_BLOCKS\<close> + 1 orphans wait; the two maps hold the same
  orphans; and neither an orphan nor the predecessor it waits for is a known block, so that no block that could be accepted
  is left behind.\<close>

theorem orphans_wait_for_unknown:
  assumes "process_reachable env ps" and "inj (te_addr env)"
  shows "node_reachable env (ps_node ps) \<and> length (mapOrphanBlocksByPrev ps) \<le> MAX_ORPHAN_BLOCKS + 1
    \<and> (\<forall>h ob. mapOrphanBlocks ps h = Some ob \<longleftrightarrow> (ob_hashPrev ob, ob) \<in> set (mapOrphanBlocksByPrev ps) \<and> ob_hashBlock ob = h)
    \<and> (\<forall>k ob. (k, ob) \<in> set (mapOrphanBlocksByPrev ps) \<longrightarrow> k = ob_hashPrev ob \<and> ns_index (ps_node ps) (ob_hashBlock ob) = None \<and> ns_index (ps_node ps) k = None)"
proof -
  note o = reachable_process_ok [OF assms, unfolded process_ok_def]
  have w: "waiting env (mapOrphanBlocks ps) (mapOrphanBlocksByPrev ps) (dom (ns_index (ps_node ps))) {}" using o by blast
  show ?thesis using o waitingD(1) [OF w] waitingD(3) [OF w] by blast
qed

section \<open>The loops end\<close>

text \<open>The rounds of the work queue: a round takes one entry off the queue and adds at most one for each orphan it takes.\<close>

lemma take_orphans_ends:
  assumes "\<And>b st. AcceptBlock ae fuel b st \<noteq> None"
  shows "foldF (take_orphan ae fuel) obs s \<noteq> None"
proof (induction obs arbitrary: s)
  case (Cons ob obs)
  obtain q rs ps where s: "s = (q, rs, ps)" by (cases s) auto
  have "take_orphan ae fuel ob s \<noteq> None"
  proof
    assume "take_orphan ae fuel ob s = None"
    then obtain b where "AcceptBlock ae fuel b (ps_node ps) = None" by (auto simp: s take_orphan_def bindF_def split: sum.splits option.splits)
    then show False using assms by blast
  qed
  then show ?case using Cons by (auto simp: bindF_def split: sum.splits option.splits)
qed simp

lemma work_queue_ends:
  assumes a: "\<And>b st. AcceptBlock ae fuel b st \<noteq> None" and "length queue + length (mapOrphanBlocksByPrev ps) \<le> n"
  shows "work_queue ae fuel n (queue, rs, ps) \<noteq> None"
  using assms(2)
proof (induction n arbitrary: queue rs ps)
  case (Suc n)
  show ?case
  proof (cases queue)
    case (Cons h rest)
    let ?obs = "map snd (filter (\<lambda>x. fst x = h) (mapOrphanBlocksByPrev ps))"
    obtain x where x: "foldF (take_orphan ae fuel) ?obs (rest, rs, ps) = Some x" using take_orphans_ends [OF a] by fastforce
    show ?thesis
    proof (cases x)
      case (Inr y)
      obtain q r p where y: "y = (q, r, p)" by (cases y) auto
      have t: "length q \<le> length ?obs + length rest" "mapOrphanBlocksByPrev p = mapOrphanBlocksByPrev ps"
        using take_orphans_fields [of ae fuel ?obs rest rs ps q r p] x Inr y by simp_all
      have "length (filter (\<lambda>x. fst x = h) (mapOrphanBlocksByPrev ps)) + length (filter (\<lambda>x. fst x \<noteq> h) (mapOrphanBlocksByPrev ps)) = length (mapOrphanBlocksByPrev ps)"
        by (rule sum_length_filter_compl)
      then have "work_queue ae fuel n (q, r, p\<lparr>mapOrphanBlocksByPrev := filter (\<lambda>x. fst x \<noteq> h) (mapOrphanBlocksByPrev p)\<rparr>) \<noteq> None"
        using t Suc.prems Cons by (intro Suc.IH) simp
      then show ?thesis using Cons x Inr y by simp
    qed (use Cons x in simp)
  qed simp
qed simp

text \<open>The walks along the orphans end when no orphan is its own ancestor: when the orphans have ranks that grow from a block to its successors.\<close>

lemma orphan_leaf_ends:
  assumes rank: "\<And>k ob. (k, ob) \<in> set m \<Longrightarrow> k = ob_hashPrev ob \<and> (rank k :: nat) < rank (ob_hashBlock ob)" and "i < length m"
    and "card {x \<in> set m. rank (fst (m ! i)) < rank (fst x)} < fuel"
  shows "orphan_leaf fuel m i \<noteq> None"
  using assms(2,3)
proof (induction fuel arbitrary: i)
  case (Suc fuel)
  show ?case
  proof (cases "multi_find (ob_hashBlock (snd (m ! i))) m")
    case (Some j)
    let ?k = "ob_hashBlock (snd (m ! i))"
    have j: "j < length m" "j = length (takeWhile (\<lambda>x. fst x \<noteq> ?k) m)" using Some by (auto simp: multi_find_def Let_def split: if_splits)
    then have fj: "fst (m ! j) = ?k" using nth_length_takeWhile [of "\<lambda>x. fst x \<noteq> ?k" m] by simp
    have "(fst (m ! i), snd (m ! i)) \<in> set m" using nth_mem [OF Suc.prems(1)] by simp
    from rank [OF this] have l: "rank (fst (m ! i)) < rank (fst (m ! j))" unfolding fj by (rule conjunct2)
    have "{x \<in> set m. rank (fst (m ! j)) < rank (fst x)} \<subset> {x \<in> set m. rank (fst (m ! i)) < rank (fst x)}" using l nth_mem [OF j(1)] by auto
    then have "card {x \<in> set m. rank (fst (m ! j)) < rank (fst x)} < card {x \<in> set m. rank (fst (m ! i)) < rank (fst x)}" by (intro psubset_card_mono) simp_all
    then show ?thesis using Suc.IH [OF j(1)] Suc.prems(2) Some by simp
  qed simp
qed simp

lemma PruneOrphanBlocks_ends:
  assumes "\<And>k ob. (k, ob) \<in> set (mapOrphanBlocksByPrev ps) \<Longrightarrow> k = ob_hashPrev ob \<and> (rank k :: nat) < rank (ob_hashBlock ob)"
  shows "\<exists>ps'. PruneOrphanBlocks rnd ps = Some ps'"
proof (cases "length (mapOrphanBlocksByPrev ps) \<le> MAX_ORPHAN_BLOCKS")
  case False
  let ?m = "mapOrphanBlocksByPrev ps" and ?i = "unat rnd mod length (mapOrphanBlocksByPrev ps)"
  have i: "?i < length ?m" using False by (intro mod_less_divisor) (auto simp: MAX_ORPHAN_BLOCKS_def)
  have "card {x \<in> set ?m. rank (fst (?m ! ?i)) < rank (fst x)} \<le> length ?m" by (rule order_trans [OF card_mono [of "set ?m"] card_length]) auto
  then have "orphan_leaf (Suc (length ?m)) ?m ?i \<noteq> None" using orphan_leaf_ends [of ?m rank ?i] assms i by (simp del: orphan_leaf.simps)
  then show ?thesis using False by (auto simp: PruneOrphanBlocks_def Let_def simp del: orphan_leaf.simps)
qed (simp add: PruneOrphanBlocks_def)

end
