(* ===== verification/Chain_Supply_Example.thy ===== *)
theory Chain_Supply_Example
  imports Chain_Supply Mempool_Accept
begin

text \<open>
  A block that \<open>ConnectBlock\<close> accepts: its coinbase, and in one variant a transaction that spends the output of \<open>ex_stack\<close>. The hash
  function picks one byte of its argument, which tells the two transactions apart.
\<close>

definition ex_sha :: "byte list \<Rightarrow> byte list" where
  "ex_sha bs = (if length bs = 1 then bs else [bs ! 37])"

definition ex_cb :: CTransaction where
  "ex_cb = \<lparr>tx_nVersion = 1, vin = [\<lparr>prevout = \<lparr>op_hash = 0, op_n = - 1\<rparr>, scriptSig = [1, 1], nSequence = - 1\<rparr>],
     vout = [ex_out 20], nLockTime = 0\<rparr>"

definition ex_lotto :: CLottoHeader where
  "ex_lotto = new_CLottoHeader\<lparr>mBitcoinHash := [(308447, 9)], llPool := genesis_llPool\<rparr>"

definition ex_blk :: "CTransaction list \<Rightarrow> CBlock" where
  "ex_blk txs = \<lparr>nVersion = 2, hashPrevBlock = 3, hashMerkleRoot = merkle_root (Hash2 ex_sha) (map (CTransaction_GetHash ex_sha) txs),
     nTime = 0, nBits = 0x1d00ffff, nNonce = 0, lottoHeader = ex_lotto, vtx = txs, vMerkleTree = []\<rparr>"

definition ex_idx :: "u256 \<Rightarrow> CBlockIndex" where
  "ex_idx h = \<lparr>phashBlock = h, pprev = (if h = 3 then None else Some 3), nHeight = (if h = 3 then 0 else 1), diskPos = (0, 0), idx_nTime = 0,
     idx_nBits = 0x1d00ffff, idx_lottoHeader = ex_lotto\<rparr>"

definition ex_chain :: chain_env where
  "ex_chain = \<lparr>mapBlockIndex = (\<lambda>h. if h = 3 then Some (ex_idx 3) else None), vChain = [ex_idx 3],
     ReadBlockFromDisk = (\<lambda>_. Some (ex_blk [])), ReadLotteryKey = (\<lambda>_. None), ReadClottoData = (\<lambda>_ _. None),
     GetBitcoinBlockIndex = (\<lambda>_. Some (ex_idx 9)), btc_prev = (\<lambda>_. None), btc_chain = [], Checkpoints_CheckBlock = (\<lambda>_ _. True),
     HashGenesisBlock = 1, poolKeyId = replicate 20 7, nLottoStep = 0, env_sha = ex_sha, env_Hash9 = (\<lambda>_. 5)\<rparr>"

definition ex_env :: connect_env where
  "ex_env = \<lparr>cn_chain = ex_chain, bnProofOfWorkLimit = 2 ^ 248 - 1, GetAdjustedTime = 0, VerifyScript = (\<lambda>_ _ _ _ _. True),
     COINBASE_MATURITY = 0, GetTotalBlocksEstimate = 0, nScriptCheckThreads = 0, disk_ok = True\<rparr>"

lemmas ex_ser = ser_CTransaction_def ser_CTxIn_def ser_CTxOut_def ser_COutPoint_def ser_vector_def ser_bytes_def WriteCompactSize_def ser_int64_def
  ser_int32_def ser_word_def ser_uint_def le_bytes_def

lemma ex_sizes: "length (ser_CTransaction ex_cb) = 63" "length (ser_CTransaction ex_spend) = 71"
  by (simp_all add: ex_cb_def ex_spend_def ex_out_def ex_ser)

lemma ex_block_sizes: "length (ser_CBlock (ex_blk [ex_cb])) = 229" "length (ser_CBlock (ex_blk [ex_cb, ex_spend])) = 300"
  by (simp_all add: ex_sizes ser_CBlock_def ser_CBlockHeader_def ser_CLottoHeader_def ser_map_def ser_pair_def ex_blk_def ex_lotto_def new_CLottoHeader_def
    ser_vector_def WriteCompactSize_def ser_int64_def ser_int32_def ser_word_def ser_uint_def le_bytes_def)

lemma ex_ids: "CTransaction_GetHash ex_sha ex_cb = 255" "CTransaction_GetHash ex_sha ex_spend = 0"
proof -
  have "(ucast (- 1 :: u32) :: byte) = 255" by code_simp
  then have "ser_CTransaction ex_cb ! 37 = 255" "ser_CTransaction ex_spend ! 37 = 0"
    by (simp_all add: ex_cb_def ex_spend_def ex_out_def ex_ser nth_append)
  then show "CTransaction_GetHash ex_sha ex_cb = 255" "CTransaction_GetHash ex_sha ex_spend = 0"
    by (simp_all add: CTransaction_GetHash_def Hash_def ex_sha_def ex_sizes)
qed

lemma ex_tx_ok: "CheckTransaction ex_cb = Inr Accept" "CheckTransaction ex_spend = Inr Accept"
  unfolding CheckTransaction_Accept ex_sizes
  by (simp_all add: ex_cb_def ex_spend_def ex_out_def MAX_BLOCK_SIZE_def MAX_MONEY_def IsCoinBase_def COutPoint_IsNull_def)

lemma ex_sigops: "GetLegacySigOpCount ex_cb = 0" "GetLegacySigOpCount ex_spend = 0" by code_simp+

lemma ex_kinds: "IsCoinBase ex_cb" "\<not> IsCoinBase ex_spend"
  by (simp_all add: ex_cb_def ex_spend_def IsCoinBase_def COutPoint_IsNull_def)

lemma ex_pow: "CheckProofOfWork (2 ^ 248 - 1) 5 0x1d00ffff"
proof -
  have "uint (getuint256 (0xffff * 256 ^ 26)) = 0xffff * 256 ^ 26" by (rule uint_getuint256) simp_all
  then have "\<not> getuint256 (0xffff * 256 ^ 26) < 5" by (simp add: word_less_def)
  then show ?thesis unfolding CheckProofOfWork_def ex_target by simp
qed

definition ex_built :: "CTransaction list \<Rightarrow> CBlock" where
  "ex_built txs = (ex_blk txs)\<lparr>vMerkleTree := merkle_rows (Hash2 ex_sha) (map (CTransaction_GetHash ex_sha) txs)\<rparr>"

lemma ex_built_hashes:
  assumes "txs \<noteq> []"
  shows "tx_hashes (ex_built txs) = Inr (map (CTransaction_GetHash ex_sha) txs)"
proof -
  let ?ids = "map (CTransaction_GetHash ex_sha) txs"
  note pre = merkle_rows_prefix [of ?ids "Hash2 ex_sha"]
  have "length txs \<le> length (merkle_rows (Hash2 ex_sha) ?ids)" using arg_cong [OF pre, of length] by simp
  then show ?thesis using tx_hashes_prefix [of "ex_built txs"] pre assms by (simp add: ex_built_def ex_blk_def)
qed

lemma ex_CheckBlock_fields:
  assumes "txs = [ex_cb] \<or> txs = [ex_cb, ex_spend]" and env: "env_sha c = ex_sha" "CBlockHeader_GetHash (env_Hash9 c) b = 5"
    and b: "length (ser_CBlock b) \<le> MAX_BLOCK_SIZE" "nBits b = 0x1d00ffff" "nTime b = 0" "vtx b = txs" "hashMerkleRoot b = hashMerkleRoot (ex_blk txs)"
  shows "CheckBlock c (2 ^ 248 - 1) 0 b True True = Inr (b\<lparr>vMerkleTree := vMerkleTree (ex_built txs)\<rparr>, Accept)"
proof -
  let ?ids = "map (CTransaction_GetHash ex_sha) txs" and ?b = "b\<lparr>vMerkleTree := vMerkleTree (ex_built txs)\<rparr>"
  have ne: "txs \<noteq> []" using assms(1) by auto
  have m: "vMerkleTree (ex_built txs) = merkle_rows (Hash2 ex_sha) ?ids" "hashMerkleRoot b = merkle_root (Hash2 ex_sha) ?ids"
    using b(5) by (simp_all add: ex_built_def ex_blk_def)
  have "length txs \<le> MAX_BLOCK_SIZE" using assms(1) by (auto simp: MAX_BLOCK_SIZE_def)
  moreover have "CheckProofOfWork (2 ^ 248 - 1) (CBlockHeader_GetHash (env_Hash9 c) b) (nBits b)" using ex_pow env(2) b(2) by simp
  moreover have "check_transactions txs = Inr Accept" using assms(1) ex_tx_ok by auto
  moreover have "BuildMerkleTree (env_sha c) b = Inr (?b, merkle_root (Hash2 ex_sha) ?ids)"
    by (simp add: BuildMerkleTree_rows Let_def m env(1) b(4))
  moreover have "card (set ?ids) = length txs" using assms(1) ex_ids by auto
  moreover have "\<not> fold (\<lambda>tx n. n + GetLegacySigOpCount tx) txs 0 > MAX_BLOCK_SIGOPS" using assms(1) ex_sigops by (auto simp: MAX_BLOCK_SIGOPS_def)
  moreover have "last (vMerkleTree ?b) = hashMerkleRoot ?b" "vMerkleTree ?b \<noteq> []"
    using merkle_rows_root [of ?ids "Hash2 ex_sha"] ne m by simp_all
  moreover have "IsCoinBase (hd txs)" "\<forall>tx\<in>set (tl txs). \<not> IsCoinBase tx" using assms(1) ex_kinds by auto
  moreover have "tx_hashes ?b = tx_hashes (ex_built txs)" by (simp add: tx_hashes_def GetTxHash_def b(4) ex_built_def ex_blk_def cong: if_cong)
  ultimately show ?thesis using ex_built_hashes [OF ne] ne b unfolding CheckBlock_def by (simp add: not_less)
qed

lemma ex_CheckBlock:
  assumes "txs = [ex_cb] \<or> txs = [ex_cb, ex_spend]" and "env_sha c = ex_sha" "CBlockHeader_GetHash (env_Hash9 c) (ex_blk txs) = 5"
  shows "CheckBlock c (2 ^ 248 - 1) 0 (ex_blk txs) True True = Inr (ex_built txs, Accept)"
proof -
  have "(ex_blk txs)\<lparr>vMerkleTree := vMerkleTree (ex_built txs)\<rparr> = ex_built txs" by (simp add: ex_built_def)
  then show ?thesis using ex_CheckBlock_fields [OF assms] assms(1) ex_block_sizes by (auto simp: MAX_BLOCK_SIZE_def ex_blk_def)
qed

lemma ex_chain_simps [simp]:
  "mapBlockIndex ex_chain h = (if h = 3 then Some (ex_idx 3) else None)" "ReadBlockFromDisk ex_chain p = Some (ex_blk [])" "poolKeyId ex_chain = replicate 20 7"
  "GetBitcoinBlockIndex ex_chain n = Some (ex_idx 9)" "Checkpoints_CheckBlock ex_chain n h" "HashGenesisBlock ex_chain = 1" "env_sha ex_chain = ex_sha"
  "CBlockHeader_GetHash (env_Hash9 ex_chain) b = 5" "tip_height ex_chain = 0"
  by (simp_all add: ex_chain_def CBlockHeader_GetHash_def Let_def tip_height_def ex_idx_def)

lemma ex_idx_simps [simp]:
  "nHeight (ex_idx 3) = 0" "nHeight (ex_idx 5) = 1" "phashBlock (ex_idx h) = h" "pprev (ex_idx 5) = Some 3" "idx_nTime (ex_idx h) = 0"
  by (simp_all add: ex_idx_def)

lemma ex_blk_simps [simp]:
  "vtx (ex_blk txs) = txs" "vtx (ex_built txs) = txs" "lottoHeader (ex_blk txs) = ex_lotto" "lottoHeader (ex_built txs) = ex_lotto" "hashPrevBlock (ex_built txs) = 3"
  "hashPrevBlock (ex_blk txs) = 3"
  by (simp_all add: ex_built_def ex_blk_def)

lemma ex_lotto_simps [simp]: "mBitcoinHash ex_lotto = [(308447, 9)]" "llPool ex_lotto = genesis_llPool" "uLottoKey ex_lotto = 0"
  by (simp_all add: ex_lotto_def new_CLottoHeader_def)

lemma ex_CheckLotto_fields:
  assumes "txs = [ex_cb] \<or> txs = [ex_cb, ex_spend]" and c: "CBlockHeader_GetHash (env_Hash9 c) (ex_built txs) \<noteq> HashGenesisBlock c" "mapBlockIndex c 3 = Some i" "nHeight i = 0"
    "ReadBlockFromDisk c (diskPos i) = Some pre" "lottoHeader pre = ex_lotto" "poolKeyId c = replicate 20 7" "tip_height c = 0" "\<And>n. GetBitcoinBlockIndex c n = Some (ex_idx 9)"
    "\<And>n h. Checkpoints_CheckBlock c n h"
  shows "CheckLottoResult c fuel (ex_built txs) = Some (Inr Accept)"
proof -
  have g: "GetLottoValueFromBlock (replicate 20 7) 0 txs = Inr 0" using assms(1) by (elim disjE; hypsubst; code_simp)
  have "\<exists>r. txs = ex_cb # r" "length (vout ex_cb) = 1" using assms(1) by (auto simp: ex_cb_def)
  with g have "check_pool c fuel (ex_built txs) i pre = Some (Inr Accept)"
    by (auto simp: check_pool_def check_no_draw_def nIntervalLottery_def genesis_llPool_def COIN_def i64_def int64_range_def c)
  moreover have "check_btc_start c ex_lotto ex_lotto = Inr Accept"
    by (simp add: check_btc_start_def GetFirstBitcoinHeight_def GetLastBitcoinHeight_def BTC_START_HIGHT_def i32_def int32_range_def)
  ultimately show ?thesis by (simp add: CheckLottoResult_def Let_def c)
qed

lemma ex_CheckLotto:
  assumes "txs = [ex_cb] \<or> txs = [ex_cb, ex_spend]"
  shows "CheckLottoResult ex_chain fuel (ex_built txs) = Some (Inr Accept)"
  by (rule ex_CheckLotto_fields [OF assms, where i = "ex_idx 3" and pre = "ex_blk []"]) simp_all

definition ex_tip :: "coins_db coins_cache" where
  "ex_tip = new_cache \<lparr>db_coins = Map.empty, db_best = Some 3\<rparr>"

definition ex_tip_coins :: "coins_db coins_cache" where
  "ex_tip_coins = new_cache \<lparr>db_coins = [7 \<mapsto> ex_coins], db_best = Some 3\<rparr>"

lemmas ex_run = connect_coins_def Let_def ex_built_hashes ex_ids fEnforceBIP30_def cache_HaveCoins_def FetchCoins_def cache_GetCoins_def db_GetCoins_def
  cache_GetBestBlock_def db_GetBestBlock_def new_cache_def cache_SetCoins_def cache_ref_def connect_tx_def ex_sigops MAX_BLOCK_SIGOPS_def ex_kinds UpdateCoins_def
  GetBlockValue_def nSubsidy_def COIN_def i64_def int64_range_def vec_at_def ex_out_def

lemma ex_connect_cb:
  "\<exists>view undo. ConnectBlock_tip ex_env fuel (ex_blk [ex_cb]) (ex_idx 5) True (new_cache ex_tip) False = Some (Inr (Connected view undo))"
proof -
  have "\<exists>view undo. connect_coins (cache_GetCoins db_GetCoins) (cache_GetBestBlock db_GetBestBlock) ex_env False (ex_built [ex_cb]) (ex_idx 5) True
      ((new_cache ex_tip)\<lparr>cache_base := ex_tip\<lparr>hashBlock := 3\<rparr>, hashBlock := 3\<rparr>) = Inr (Connected view undo)"
    by (simp add: ex_run ex_tip_def ex_env_def) (simp add: ex_cb_def ex_out_def)
  moreover have "cache_GetBestBlock (cache_GetBestBlock db_GetBestBlock) (new_cache ex_tip) = ((new_cache ex_tip)\<lparr>cache_base := ex_tip\<lparr>hashBlock := 3\<rparr>, hashBlock := 3\<rparr>, 3)"
    by (simp add: cache_GetBestBlock_def db_GetBestBlock_def ex_tip_def new_cache_def)
  ultimately show ?thesis using ex_CheckBlock [of "[ex_cb]" ex_chain] ex_CheckLotto [of "[ex_cb]" fuel]
    by (simp add: ConnectBlock_def ex_env_def Let_def prev_index_def)
qed

lemmas ex_inputs = connect_inputs_def HaveInputs_def GetValueIn_def value_in_step_def GetOutputFor_def IsAvailable_def CheckInputs_def check_amounts_def GetValueOut_def
  MoneyRange_def MAX_MONEY_def i32_def int32_range_def spend_input_def Spend_def put_ref_def CTxOut_IsNull_def ex_coins_def ex_spend_def

lemma ex_connect_spend:
  "\<exists>view undo. ConnectBlock_tip ex_env fuel (ex_blk [ex_cb, ex_spend]) (ex_idx 5) True (new_cache ex_tip_coins) False = Some (Inr (Connected view undo))"
proof -
  have "\<exists>view undo. connect_coins (cache_GetCoins db_GetCoins) (cache_GetBestBlock db_GetBestBlock) ex_env False (ex_built [ex_cb, ex_spend]) (ex_idx 5) True
      ((new_cache ex_tip_coins)\<lparr>cache_base := ex_tip_coins\<lparr>hashBlock := 3\<rparr>, hashBlock := 3\<rparr>) = Inr (Connected view undo)"
    by (simp add: ex_run ex_tip_coins_def ex_env_def, simp add: ex_inputs ex_run, simp add: ex_cb_def ex_out_def)
  moreover have "cache_GetBestBlock (cache_GetBestBlock db_GetBestBlock) (new_cache ex_tip_coins)
      = ((new_cache ex_tip_coins)\<lparr>cache_base := ex_tip_coins\<lparr>hashBlock := 3\<rparr>, hashBlock := 3\<rparr>, 3)"
    by (simp add: cache_GetBestBlock_def db_GetBestBlock_def ex_tip_coins_def new_cache_def)
  ultimately show ?thesis using ex_CheckBlock [of "[ex_cb, ex_spend]" ex_chain] ex_CheckLotto [of "[ex_cb, ex_spend]" fuel]
    by (simp add: ConnectBlock_def ex_env_def Let_def prev_index_def)
qed

lemma ex_bets: "bets_unspendable (poolKeyId (cn_chain ex_env)) [ex_cb]" "bets_unspendable (poolKeyId (cn_chain ex_env)) [ex_cb, ex_spend]"
  by code_simp+

lemma ex_genesis: "CBlockHeader_GetHash (env_Hash9 (cn_chain ex_env)) b \<noteq> HashGenesisBlock (cn_chain ex_env)"
  by (simp add: ex_env_def)

lemma ex_tip_coins_sound: "coins_sound (view_state (new_cache ex_tip_coins))" "coins_total (view_state (new_cache ex_tip_coins)) = 9"
proof -
  have "view_state (new_cache ex_tip_coins) = [7 \<mapsto> ex_coins]"
    by (auto simp: ex_tip_coins_def tip.new_cache_state db.new_cache_state db_state_def fun_eq_iff ex_coins_def IsPruned_def CTxOut_IsNull_def)
  then show "coins_sound (view_state (new_cache ex_tip_coins))" "coins_total (view_state (new_cache ex_tip_coins)) = 9"
    by (simp_all add: coins_sound_def coins_total_def coins_value_def ex_coins_def txout_value_def CTxOut_IsNull_def)
qed

theorem connected_block_supply_witness:
  "\<exists>view undo. ConnectBlock_tip ex_env 1 (ex_blk [ex_cb, ex_spend]) (ex_idx 5) True (new_cache ex_tip_coins) False = Some (Inr (Connected view undo))
    \<and> coins_total (view_state view) \<le> 9 + 100000 * COIN"
proof -
  obtain view undo where c: "ConnectBlock_tip ex_env 1 (ex_blk [ex_cb, ex_spend]) (ex_idx 5) True (new_cache ex_tip_coins) False = Some (Inr (Connected view undo))"
    using ex_connect_spend by blast
  have "bets_unspendable (poolKeyId (cn_chain ex_env)) (vtx (ex_blk [ex_cb, ex_spend]))" using ex_bets(2) by simp
  from connected_block_supply [OF c ex_genesis ex_tip_coins_sound(1) this] have "coins_total (view_state view) \<le> 9 + nSubsidy 1"
    by (auto simp: ex_env_def ex_tip_coins_sound(2))
  with c show ?thesis by (auto simp: nSubsidy_def)
qed

theorem money_supply_bounded_witness:
  "\<exists>pcoinsTip. connected_chain 2 pcoinsTip (ex_blk [ex_cb]) \<and> coins_total (cache_state db_state pcoinsTip) + genesis_llPool < MAX_MONEY"
proof -
  obtain view undo where c: "ConnectBlock_tip ex_env 1 (ex_blk [ex_cb]) (ex_idx 5) True (new_cache ex_tip) False = Some (Inr (Connected view undo))"
    using ex_connect_cb by blast
  have "cache_state db_state ex_tip = Map.empty" by (auto simp: ex_tip_def db.new_cache_state db_state_def fun_eq_iff)
  then have "connected_chain 1 ex_tip (ex_blk [])" by (rule genesis) simp
  then have "connected_chain (Suc 1) (cache_base (Flush cache_BatchWrite view)) (ex_blk [ex_cb])"
    by (rule connect [OF _ _ c ex_genesis, of _ _ "ex_idx 3"]) (use ex_bets(1) in \<open>simp_all add: ex_env_def\<close>)
  then have "connected_chain 2 (cache_base (Flush cache_BatchWrite view)) (ex_blk [ex_cb])" by (simp add: numeral_2_eq_2)
  with money_supply_bounded [OF this] show ?thesis by auto
qed

theorem CheckTransaction_iff_witness: "CheckTransaction ex_spend = Inr Accept \<and> CheckTransaction (toy_coinbase\<lparr>vout := []\<rparr>) \<noteq> Inr Accept"
proof -
  have "vin ex_spend \<noteq> [] \<and> vout ex_spend \<noteq> [] \<and> length (ser_CTransaction ex_spend) \<le> MAX_BLOCK_SIZE
    \<and> (\<forall>v\<in>set (vout ex_spend). 0 \<le> out_value v) \<and> sum_list (map out_value (vout ex_spend)) \<le> MAX_MONEY
    \<and> distinct (map prevout (vin ex_spend)) \<and> (\<forall>i\<in>set (vin ex_spend). \<not> COutPoint_IsNull (prevout i))"
    unfolding ex_sizes by (simp add: ex_spend_def ex_out_def MAX_BLOCK_SIZE_def MAX_MONEY_def COutPoint_IsNull_def)
  then have "CheckTransaction ex_spend = Inr Accept" using CheckTransaction_iff [of ex_spend] ex_kinds(2) by auto
  moreover have "CheckTransaction (toy_coinbase\<lparr>vout := []\<rparr>) \<noteq> Inr Accept" using CheckTransaction_iff [of "toy_coinbase\<lparr>vout := []\<rparr>"] by (auto simp: toy_coinbase_def)
  ultimately show ?thesis ..
qed


section \<open>A transaction for the memory pool\<close>

definition ex_policy :: policy_env where
  "ex_policy = \<lparr>pe_main = True, IsStandardTx = (\<lambda>_ _. None), input_standard = (\<lambda>_ _ _. True), GetPriority = (\<lambda>_ _. 0), pe_GetTime = 0,
     nMinTxFee = 10000, nMinRelayTxFee = 1000, free_limited = False\<rparr>"

abbreviation AcceptToMemoryPool_tip where
  "AcceptToMemoryPool_tip \<equiv> AcceptToMemoryPool (cache_GetCoins db_GetCoins) (cache_GetBestBlock db_GetBestBlock)"

lemma ex_lotto_rules: "IsTransactionValid (replicate 20 7) 0 ex_spend = Inr True" "GetLottoFee (replicate 20 7) 0 ex_spend = Inr 0"
  by code_simp+

lemma ex_MinFee: "GetMinFee ex_policy (replicate 20 7) 0 ex_spend n True GMF_RELAY = Inr 0" if "n < 1000"
  using that by (simp add: GetMinFee_def ex_policy_def ex_lotto_rules DEFAULT_BLOCK_PRIORITY_SIZE_def i64_def int64_range_def Let_def MoneyRange_def MAX_MONEY_def)

definition ex_pool_view :: "coins_db coins_cache coins_cache" where
  "ex_pool_view = \<lparr>cache_base = ex_tip_coins\<lparr>hashBlock := 3, cacheCoins := [7 \<mapsto> ex_coins]\<rparr>, hashBlock = 3, cacheCoins = [7 \<mapsto> ex_coins]\<rparr>"

lemma ex_pool_inputs:
  "pool_inputs (cache_GetCoins db_GetCoins) (cache_GetBestBlock db_GetBestBlock) ex_spend 8 new_CTxMemPool ex_tip_coins = Inr (ex_pool_view, Pooled)"
  by (simp add: pool_inputs_def mp_GetCoins_def mp_lookup_def new_CTxMemPool_def ex_run ex_inputs ex_kinds ex_tip_coins_def ex_pool_view_def Let_def ex_coins_def)

lemma ex_pool_fees:
  "\<exists>entry. pool_fees ex_policy ex_env ex_spend True True (SetBackend ex_pool_view ()) = Inr (Inl entry)"
proof -
  let ?v = "SetBackend ex_pool_view ()"
  have "GetValueIn dummy_GetCoins ex_spend ?v = Inr (?v, 9)"
    by (simp add: GetValueIn_def ex_kinds) (simp add: ex_inputs value_in_step_def FetchCoins_def cache_ref_def SetBackend_def ex_pool_view_def i64_def int64_range_def)
  moreover have "GetValueOut ex_spend = Inr 7" by (simp add: ex_inputs ex_out_def i64_def int64_range_def)
  moreover have "\<exists>c. CheckInputs dummy_GetCoins dummy_GetBestBlock ex_env ex_spend ?v True (SCRIPT_VERIFY_P2SH OR SCRIPT_VERIFY_STRICTENC) False = Inr (?v, c, Accept)"
    unfolding CheckInputs_def HaveInputs_def using ex_kinds(2)
    by (simp add: ex_inputs ex_run SetBackend_def ex_pool_view_def ex_env_def)
  moreover have "(e_nTxSize (CTxMemPoolEntry_of ex_spend a b c d)) < 1000" for a b c d by (simp add: CTxMemPoolEntry_of_def ex_sizes)
  ultimately show ?thesis
    by (auto simp: pool_fees_def Let_def ex_env_def ex_lotto_rules ex_MinFee i64_def int64_range_def) (simp_all add: ex_policy_def)
qed

lemma ex_accept:
  "\<exists>pool base. AcceptToMemoryPool_tip (\<lambda>_. 8) ex_policy ex_env ex_spend True True (new_CTxMemPool, ex_tip_coins) = Inr ((pool, base), Pooled)"
proof -
  have "AreInputsStandard dummy_GetCoins ex_policy ex_spend (SetBackend ex_pool_view ()) = Inr (SetBackend ex_pool_view (), True)"
    using ex_kinds(2) unfolding AreInputsStandard_def by (simp add: ex_inputs ex_run SetBackend_def ex_pool_view_def ex_policy_def)
  moreover obtain entry where "pool_fees ex_policy ex_env ex_spend True True (SetBackend ex_pool_view ()) = Inr (Inl entry)" using ex_pool_fees by blast
  ultimately have "\<exists>pool base. pool_checks (cache_GetCoins db_GetCoins) (cache_GetBestBlock db_GetBestBlock) ex_policy ex_env ex_spend 8 True True (new_CTxMemPool, ex_tip_coins)
      = Inr ((pool, base), Pooled)"
    by (simp add: pool_checks_def ex_pool_inputs Let_def)
  moreover have "pe_main ex_policy" "IsStandardTx ex_policy tx n = None" for tx n by (simp_all add: ex_policy_def)
  ultimately show ?thesis by (simp add: AcceptToMemoryPool_def ex_tx_ok(2) ex_kinds(2) mp_exists_def new_CTxMemPool_def Let_def)
qed

theorem reachable_pool_consistent_witness:
  "\<exists>pool. pool_reachable (\<lambda>_. 8) pool \<and> mp_lookup pool 8 = Some ex_spend \<and> mapNextTx pool \<lparr>op_hash = 7, op_n = 0\<rparr> = Some \<lparr>ip_ptx = 8, ip_n = 0\<rparr>"
proof -
  obtain pool base where a: "AcceptToMemoryPool_tip (\<lambda>_. 8) ex_policy ex_env ex_spend True True (new_CTxMemPool, ex_tip_coins) = Inr ((pool, base), Pooled)"
    using ex_accept by blast
  have r: "pool_reachable (\<lambda>_. 8) pool" by (rule pool_reachable.accept [OF pool_reachable.empty a])
  have l: "mp_lookup pool 8 = Some ex_spend" using AcceptToMemoryPool_ok [OF new_mempool_ok a] by simp
  then obtain e where e: "mapTx pool 8 = Some e" "e_tx e = ex_spend" by (auto simp: mp_lookup_def split: option.splits)
  have "mapNextTx pool (prevout (vin (e_tx e) ! 0)) = Some \<lparr>ip_ptx = 8, ip_n = 0\<rparr>"
    by (rule mempool_okD(2) [OF reachable_pool_consistent [OF r] e(1)]) (simp add: e(2) ex_spend_def)
  with r l show ?thesis by (auto simp: e(2) ex_spend_def)
qed

end
