(* ===== verification/Chain_Node_Example.thy ===== *)
theory Chain_Node_Example
  imports Chain_Process Chain_Supply_Example
begin

text \<open>
  Nodes on which the theorems of \<open>Chain_Accept\<close> are used: one that has taken in its genesis block, one that chooses between a valid and an
  invalid block, and one whose best candidate builds on a block that is refused without being marked.
\<close>

section \<open>A node with its genesis block\<close>

definition gen_env :: tip_env where
  "gen_env = \<lparr>te_rules = ex_env\<lparr>cn_chain := ex_chain\<lparr>HashGenesisBlock := 5, ReadBlockFromDisk := (\<lambda>_. Some (ex_blk [ex_cb]))\<rparr>\<rparr>, te_policy = ex_policy,
     te_addr = unat, te_write_due = (\<lambda>_. False), CheckDiskSpace = (\<lambda>_. True), te_fuel = 1\<rparr>"

definition gen_accept :: accept_env where
  "gen_accept = \<lparr>ae_tip = gen_env, ae_checkpoints = \<lparr>cp_fEnabled = False, mapCheckpoints = []\<rparr>, ae_testnet = False, ae_debugdifficulty = False,
     ae_pos = (\<lambda>_ _. Some (0, 0))\<rparr>"

lemma gen_simps [simp]:
  "te_addr gen_env = unat" "CBlockHeader_GetHash (env_Hash9 (cn_chain (te_rules gen_env))) b = 5" "HashGenesisBlock (cn_chain (te_rules gen_env)) = 5"
  "ReadBlockFromDisk (cn_chain (te_rules gen_env)) pos = Some (ex_blk [ex_cb])" "disk_ok (te_rules gen_env)" "GetBitcoinBlockIndex (cn_chain (te_rules gen_env)) n = Some (ex_idx 9)"
  "ae_tip gen_accept = gen_env" "ae_pos gen_accept b st = Some (0, 0)" "te_write_due gen_env st = False" "env_sha (cn_chain (te_rules gen_env)) = ex_sha"
  by (simp_all add: gen_env_def gen_accept_def ex_env_def ex_chain_def CBlockHeader_GetHash_def Let_def)

definition gen_entry :: CBlockNode where
  "gen_entry = (new_CBlockNode (ex_blk [ex_cb]) 5 1)\<lparr>nd_nTx := 1, nChainWork := getuint256 (GetBlockWork 0x1d00ffff), nChainTx := 1,
     diskPos := (0, 0), nStatus := BLOCK_VALID_TRANSACTIONS OR BLOCK_HAVE_DATA\<rparr>"

lemma gen_entry_simps [simp]:
  "phashBlock gen_entry = 5" "pprev gen_entry = None" "nHeight gen_entry = 0" "nStatus gen_entry = 11" "diskPos gen_entry = (0, 0)" "idx_lottoHeader gen_entry = ex_lotto"
  by (simp_all add: gen_entry_def new_CBlockNode_def BLOCK_VALID_TRANSACTIONS_def BLOCK_HAVE_DATA_def)

lemma gen_index: "height [5 \<mapsto> gen_entry] 5 = 0" "parent [5 \<mapsto> gen_entry] 5 = None" "lineage [5 \<mapsto> gen_entry] (Some 5) = [5]" "\<not> failed [5 \<mapsto> gen_entry] p"
  "CheckBTCHashValid (GetBitcoinBlockIndex (cn_chain (te_rules gen_env))) [5 \<mapsto> gen_entry] 5"
  by (simp_all add: height_def parent_def lineage_def failed_def BLOCK_FAILED_MASK_def CheckBTCHashValid_def)

lemma gen_ConnectBlock:
  assumes "ns_index st = [5 \<mapsto> gen_entry]" "pcoinsTip st = pcoinsTip new_node"
  shows "\<exists>view. ConnectBlock_tip (rules_of gen_env st) (te_fuel gen_env) (ex_blk [ex_cb]) (CBlockIndex.truncate gen_entry) True (new_cache (pcoinsTip st)) False
     = Some (Inr (Connected view []))"
proof -
  let ?c = "cn_chain (rules_of gen_env st)"
  have "CheckBlock ?c (2 ^ 248 - 1) 0 (ex_blk [ex_cb]) True True = Inr (ex_built [ex_cb], Accept)" by (rule ex_CheckBlock) simp_all
  moreover have "bnProofOfWorkLimit (rules_of gen_env st) = 2 ^ 248 - 1" "GetAdjustedTime (rules_of gen_env st) = 0" by (simp_all add: rules_of_def gen_env_def ex_env_def)
  moreover have "CheckLottoResult ?c f (ex_built [ex_cb]) = Some (Inr Accept)" for f by (simp add: CheckLottoResult_def)
  moreover obtain v where "cache_GetBestBlock (cache_GetBestBlock db_GetBestBlock) (new_cache (pcoinsTip st)) = (v, 0)"
    by (simp add: assms new_node_def new_cache_def cache_GetBestBlock_def db_GetBestBlock_def)
  ultimately show ?thesis by (simp add: ConnectBlock_def Let_def prev_index_def)
qed

text \<open>The transactions of a block leave an empty pool empty.\<close>

lemma remove_connected_empty:
  assumes "mapTx pool = Map.empty" "mapNextTx pool = Map.empty"
  shows "remove_connected txid (Suc fuel) tx (pool, cs) = returnF (pool, cs)"
proof -
  have "conflict_step txid f t i (pool, cs) = returnF (pool, cs)" for f t i by (simp add: conflict_step_def assms)
  then have "foldF (conflict_step txid f t) is (pool, cs) = returnF (pool, cs)" for f t "is" by (induction "is") simp_all
  then show ?thesis by (simp add: remove_connected_def removeConflicts_def remove_self_def assms)
qed

lemma gen_ConnectTip:
  assumes "ns_index st = [5 \<mapsto> gen_entry]" "pcoinsTip st = pcoinsTip new_node" "mempool st = new_CTxMemPool" "chainActive st = []"
  shows "\<exists>s. ConnectTip gen_env 5 st = returnF (TipDone s) \<and> ns_index s = ns_index st \<and> chainActive s = [Some 5] \<and> chainMostWork s = chainMostWork st
    \<and> setBlockIndexValid s = setBlockIndexValid st"
proof -
  obtain view where "ConnectBlock_tip (rules_of gen_env st) (te_fuel gen_env) (ex_blk [ex_cb]) (CBlockIndex.truncate gen_entry) True (new_cache (pcoinsTip st)) False
     = Some (Inr (Connected view []))" using gen_ConnectBlock assms by blast
  moreover have "ReadBlockFromDisk_index (cn_chain (te_rules gen_env)) gen_entry = Some (ex_blk [ex_cb])" by (simp add: ReadBlockFromDisk_index_def BLOCK_HAVE_DATA_def)
  moreover have "te_fuel gen_env = Suc 0" by (simp add: gen_env_def)
  moreover have "fst (SetTip [5 \<mapsto> gen_entry] (Some 5) []) = [Some 5]" by (simp add: SetTip_def gen_index resize_chain_def)
  ultimately show ?thesis
    by (simp add: ConnectTip_def assms gen_index Tip_def connected_tip_def Let_def WriteChainState_def remove_connected_empty new_CTxMemPool_def UpdateTip_def)
qed

lemma gen_search:
  assumes "ns_index st = [5 \<mapsto> gen_entry]" "setBlockIndexValid st = [5]" "chainMostWork st = [] \<or> chainMostWork st = [Some 5]"
  shows "FindMostWorkChain unat (GetBitcoinBlockIndex (cn_chain (te_rules gen_env))) (Suc fuel) st = Some (st\<lparr>chainMostWork := [Some 5]\<rparr>)"
proof -
  have "failed_ancestor [5 \<mapsto> gen_entry] c [5] = None" for c by (simp add: gen_index)
  moreover have "\<not> work_less unat [5 \<mapsto> gen_entry] 5 5" by (simp add: work_less_def)
  moreover have "fst (SetTip [5 \<mapsto> gen_entry] (Some 5) []) = [Some 5]" by (simp add: SetTip_def gen_index resize_chain_def)
  ultimately show ?thesis using assms by (auto simp: FindMostWorkChain_def Tip_def gen_index set_most_def)
qed

lemma gen_activate:
  assumes "ns_index st = [5 \<mapsto> gen_entry]" "setBlockIndexValid st = [5]" "chainMostWork st = [] \<or> chainMostWork st = [Some 5]"
    and "chainActive st = [Some 5] \<or> chainActive st = [] \<and> pcoinsTip st = pcoinsTip new_node \<and> mempool st = new_CTxMemPool"
  shows "\<exists>s. ActivateBestChain gen_env 4 st = returnF (True, s) \<and> ns_index s = [5 \<mapsto> gen_entry] \<and> chainActive s = [Some 5] \<and> chainMostWork s = [Some 5]
    \<and> setBlockIndexValid s = [5]"
proof -
  have f: "(4::nat) = Suc (Suc (Suc (Suc 0)))" by simp
  have c: "Contains [5 \<mapsto> gen_entry] [Some 5] 5" "\<not> Contains [5 \<mapsto> gen_entry] [] 5" by (simp_all add: Contains_def chain_get_def gen_index)
  have n: "chain_get [Some 5] (Height [] + 1) = Some 5" by (simp add: chain_get_def Height_def)
  from assms(4) show ?thesis
  proof
    assume "chainActive st = [Some 5]"
    then show ?thesis using assms(1,2) gen_search [OF assms(1-3)] c by (simp add: ActivateBestChain_def f Tip_def gen_index)
  next
    assume a: "chainActive st = [] \<and> pcoinsTip st = pcoinsTip new_node \<and> mempool st = new_CTxMemPool"
    let ?st = "st\<lparr>chainMostWork := [Some 5]\<rparr>"
    obtain s where "ConnectTip gen_env 5 ?st = returnF (TipDone s)" "ns_index s = ns_index ?st" "chainActive s = [Some 5]" "chainMostWork s = chainMostWork ?st"
      "setBlockIndexValid s = setBlockIndexValid ?st" using gen_ConnectTip [of ?st] a assms(1) by auto
    then show ?thesis using assms(1,2) a gen_search [OF assms(1-3)] c n by (simp add: ActivateBestChain_def f Tip_def gen_index)
  qed
qed

lemma gen_no_refusal:
  assumes "ns_index st = [5 \<mapsto> gen_entry]" "setBlockIndexValid st = [5]" "chainMostWork st = [Some 5]" "chainActive st = [Some 5]"
  shows "last_refusal unat (GetBitcoinBlockIndex (cn_chain (te_rules gen_env))) (ConnectTip gen_env) (DisconnectTip gen_env) 4 st = None"
proof -
  have f: "(4::nat) = Suc (Suc (Suc (Suc 0)))" by simp
  have c: "Contains [5 \<mapsto> gen_entry] [Some 5] 5" by (simp add: Contains_def chain_get_def gen_index)
  show ?thesis using assms gen_search [OF assms(1,2)] c by (simp add: f Tip_def gen_index)
qed

lemma gen_reachable:
  "\<exists>s. node_reachable gen_env s \<and> ns_index s = [5 \<mapsto> gen_entry] \<and> chainActive s = [Some 5] \<and> chainMostWork s = [Some 5] \<and> setBlockIndexValid s = [5]"
proof -
  let ?st = "new_node\<lparr>ns_index := [5 \<mapsto> gen_entry], nBlockSequenceId := 2, setBlockIndexValid := [5]\<rparr>"
  obtain s where s: "ActivateBestChain gen_env 4 ?st = returnF (True, s)" "ns_index s = [5 \<mapsto> gen_entry]" "chainActive s = [Some 5]" "chainMostWork s = [Some 5]" "setBlockIndexValid s = [5]"
    using gen_activate [of ?st] by (auto simp: new_node_def)
  have "link_block (ex_blk [ex_cb]) (0, 0) [5 \<mapsto> new_CBlockNode (ex_blk [ex_cb]) 5 1] (new_CBlockNode (ex_blk [ex_cb]) 5 1) = Inr gen_entry"
    by (simp add: link_block_def gen_entry_def) (simp add: ex_blk_def)
  moreover have "cset_insert l 5 [] = [5]" for l by (simp add: cset_insert_def)
  ultimately have "AcceptBlock gen_accept 4 (ex_blk [ex_cb]) new_node = Some (Inr (Stored, s))"
    using s(1) by (simp add: AcceptBlock_def Let_def AddToBlockIndex_def) (simp add: new_node_def)
  moreover have "hash_ok gen_env (ex_blk [ex_cb])" "same_store gen_env (ae_tip gen_accept)" by (simp_all add: hash_ok_def same_store_def)
  ultimately have "node_reachable gen_env s" using node_reachable.block [OF node_reachable.start] by blast
  with s show ?thesis by blast
qed

lemma gen_inj: "inj (te_addr gen_env)"
  by simp

theorem coins_follow_active_chain_witness:
  "\<exists>s. node_reachable gen_env s \<and> chainActive s = [Some 5] \<and> cache_state db_state (pcoinsTip s) = chain_coins gen_env (ns_index s) (Some 5)
    \<and> cache_best db_best_state (pcoinsTip s) = 5"
proof -
  obtain s where s: "node_reachable gen_env s" "chainActive s = [Some 5]" using gen_reachable by blast
  show ?thesis using coins_follow_active_chain [OF s(1) gen_inj] s by (intro exI [of _ s]) (simp add: Tip_def)
qed

theorem node_tree_invariant_witness:
  "\<exists>s. node_reachable gen_env s \<and> chainActive s = [Some 5] \<and> index_wf (ns_index s) \<and> chain_of (ns_index s) (Some 5) = [Some 5]"
proof -
  obtain s where s: "node_reachable gen_env s" "chainActive s = [Some 5]" using gen_reachable by blast
  show ?thesis using node_tree_invariant [OF s(1) gen_inj] s by (intro exI [of _ s]) (simp add: Tip_def)
qed

theorem activation_unsurpassed_witness:
  "\<exists>s s'. node_reachable gen_env s \<and> ActivateBestChain gen_env 4 s = Some (Inr (True, s')) \<and> setBlockIndexValid s' = [5] \<and> \<not> work_less unat (ns_index s') 5 5"
proof -
  obtain s where s: "node_reachable gen_env s" "ns_index s = [5 \<mapsto> gen_entry]" "chainActive s = [Some 5]" "chainMostWork s = [Some 5]" "setBlockIndexValid s = [5]"
    using gen_reachable by blast
  obtain s' where s': "ActivateBestChain gen_env 4 s = returnF (True, s')" "ns_index s' = [5 \<mapsto> gen_entry]" "chainActive s' = [Some 5]" "setBlockIndexValid s' = [5]"
    using gen_activate [of s] s by auto
  have "last_refusal unat (GetBitcoinBlockIndex (cn_chain (te_rules gen_env))) (ConnectTip gen_env) (DisconnectTip gen_env) 4 s \<noteq> Some (p, REJECT_INVALID_LOTTO)" for p
    using gen_no_refusal [of s] s by simp
  then have "\<forall>p. last_refusal (te_addr gen_env) (GetBitcoinBlockIndex (cn_chain (te_rules gen_env))) (ConnectTip gen_env) (DisconnectTip gen_env) 4 s
    \<noteq> Some (p, REJECT_INVALID_LOTTO)" by simp
  from activation_unsurpassed [OF s(1) gen_inj s'(1) this, of 5] s' s(1) show ?thesis by (auto simp: Tip_def)
qed

theorem bitcoin_check_leaves_current_witness:
  "\<exists>s s'. node_reachable gen_env s \<and> chainActive s = [Some 5] \<and> CheckLastBlockState gen_env 9 308448 s = Some (Inr (True, s'))
    \<and> cache_state db_state (pcoinsTip s') = chain_coins gen_env (ns_index s') (Tip (chainActive s'))"
proof -
  obtain s where s: "node_reachable gen_env s" "ns_index s = [5 \<mapsto> gen_entry]" "chainActive s = [Some 5]" using gen_reachable by blast
  have "btc_heights 308448 = [308448]" by (simp add: btc_heights_def BTC_START_HIGHT_def upt_rec numeral_eq_Suc)
  moreover have "\<not> names_btc [5 \<mapsto> gen_entry] 5 308448" by (simp add: names_btc_def)
  moreover have "Next [5 \<mapsto> gen_entry] [Some 5] 5 = None" by (simp add: Next_def chain_get_def gen_index)
  ultimately have c: "CheckLastBlockState gen_env 9 308448 s = Some (Inr (True, s))"
    using s(2,3) gen_index by (simp add: CheckLastBlockState_def BTC_START_HIGHT_def Tip_def back_step_def)
  show ?thesis using bitcoin_check_leaves_current [OF s(1) gen_inj c] c s by (intro exI [of _ s]) (simp add: BTC_START_HIGHT_def)
qed

section \<open>An orphan\<close>

text \<open>A new node keeps the block as an orphan: its predecessor is block 3. The peer is asked for what comes before block 5.\<close>

definition orphan_node :: process_state where
  "orphan_node = keep_orphan 5 (ex_built [ex_cb]) new_process"

lemma ex_block_ok: "block_ok (ex_blk [ex_cb])"
  by (simp add: block_ok_def header_ok_def lotto_header_ok_def tx_ok_def txin_ok_def txout_ok_def int32_range_def int64_range_def MAX_SIZE_def)
    (simp add: ex_blk_def ex_lotto_def new_CLottoHeader_def genesis_llPool_def COIN_def ex_cb_def ex_out_def)

lemma orphan_reachable: "process_reachable gen_env orphan_node"
proof -
  let ?peer = "\<lparr>pindexLastGetBlocksBegin = None, hashLastGetBlocksEnd = 0, vGetBlocks = []\<rparr>"
  let ?c = "cn_chain (te_rules gen_env)"
  have "CheckBlock ?c (2 ^ 248 - 1) 0 (ex_blk [ex_cb]) True True = Inr (ex_built [ex_cb], Accept)" by (rule ex_CheckBlock) simp_all
  moreover have "bnProofOfWorkLimit (te_rules gen_env) = 2 ^ 248 - 1" "GetAdjustedTime (te_rules gen_env) = 0" by (simp_all add: gen_env_def ex_env_def)
  moreover have "CheckLastBlockState gen_env 4 (GetLastBitcoinHeight ex_lotto) new_node = returnF (True, new_node)"
    by (simp add: CheckLastBlockState_def GetLastBitcoinHeight_def BTC_START_HIGHT_def)
  moreover have "shunt_block 0 (Some ?peer) 5 (ex_built [ex_cb]) (new_process\<lparr>ps_node := new_node\<rparr>)
      = returnF (orphan_node, Some (?peer\<lparr>hashLastGetBlocksEnd := 5, vGetBlocks := [([], 5)]\<rparr>))"
  proof -
    have same: "new_process\<lparr>ps_node := new_node\<rparr> = new_process" by (simp add: new_process_def)
    have "PruneOrphanBlocks 0 new_process = Some new_process" by (simp add: PruneOrphanBlocks_def new_process_def)
    moreover have "GetOrphanRoot orphan_node 5 = Some 5" by (simp add: GetOrphanRoot_def orphan_node_def keep_orphan_def new_process_def Let_def)
    moreover have "ps_node orphan_node = new_node" by (simp add: orphan_node_def keep_orphan_def Let_def new_process_def)
    moreover have "PushGetBlocks (ns_index new_node) (chainActive new_node) ?peer (Tip (chainActive new_node)) 5
        = returnF (?peer\<lparr>hashLastGetBlocksEnd := 5, vGetBlocks := [([], 5)]\<rparr>)"
      by (simp add: PushGetBlocks_def GetLocator_def new_node_def Tip_def)
    ultimately show ?thesis unfolding shunt_block_def same by (simp add: Let_def orphan_node_def [symmetric])
  qed
  moreover have "ps_node new_process = new_node" "mapOrphanBlocks new_process h = None" "ns_index new_node h = None" for h
    by (simp_all add: new_process_def new_node_def)
  ultimately have "ProcessBlock gen_accept 4 0 (Some ?peer) (ex_blk [ex_cb]) new_process
      = Some (Inr (Shunted, Some (?peer\<lparr>hashLastGetBlocksEnd := 5, vGetBlocks := [([], 5)]\<rparr>), orphan_node))"
    by (simp add: ProcessBlock_def Let_def)
  moreover have "hash_ok gen_env (ex_blk [ex_cb])" "same_store gen_env (ae_tip gen_accept)" "undisturbed Shunted" by (simp_all add: hash_ok_def same_store_def undisturbed_def)
  ultimately show ?thesis using process_reachable.process [OF process_reachable.start _ _ ex_block_ok] by blast
qed

theorem orphans_wait_for_unknown_witness:
  "process_reachable gen_env orphan_node \<and> (\<exists>ob. mapOrphanBlocks orphan_node 5 = Some ob \<and> ob_hashPrev ob = 3
    \<and> (3, ob) \<in> set (mapOrphanBlocksByPrev orphan_node) \<and> ns_index (ps_node orphan_node) 3 = None)"
proof -
  obtain ob where ob: "mapOrphanBlocks orphan_node 5 = Some ob" "ob_hashPrev ob = 3"
    by (simp add: orphan_node_def keep_orphan_def new_process_def Let_def)
  note w = orphans_wait_for_unknown [OF orphan_reachable gen_inj]
  have m: "(3, ob) \<in> set (mapOrphanBlocksByPrev orphan_node)" using w ob by metis
  then have "ns_index (ps_node orphan_node) 3 = None" using w by blast
  with ob m orphan_reachable show ?thesis by blast
qed

section \<open>A node that does not come to an end\<close>

text \<open>Block 5 names no Bitcoin block; block 6 builds on it.\<close>

definition dirty_blk :: CBlock where
  "dirty_blk = (ex_blk [ex_cb])\<lparr>lottoHeader := new_CLottoHeader\<rparr>"

definition tree_entry :: "u256 \<Rightarrow> u256 option \<Rightarrow> int \<Rightarrow> u256 \<Rightarrow> CBlockNode" where
  "tree_entry p prev h work = \<lparr>phashBlock = p, pprev = prev, nHeight = h, diskPos = (0, unat p), idx_nTime = 0, idx_nBits = 0x1d00ffff, idx_lottoHeader = ex_lotto,
     nd_nVersion = 2, nChainWork = work, nStatus = BLOCK_VALID_TRANSACTIONS OR BLOCK_HAVE_DATA, nSequenceId = 1, nd_nTx = 1, nChainTx = 1\<rparr>"

definition stuck_index :: block_index where
  "stuck_index = [3 \<mapsto> tree_entry 3 None 0 1, 5 \<mapsto> tree_entry 5 (Some 3) 1 2, 6 \<mapsto> tree_entry 6 (Some 5) 2 3]"

definition stuck_node :: full_node where
  "stuck_node = new_node\<lparr>ns_index := stuck_index, chainActive := [Some 3], chainMostWork := [Some 3], setBlockIndexValid := [3, 6], pcoinsTip := ex_tip\<rparr>"

definition stuck_env :: tip_env where
  "stuck_env = gen_env\<lparr>te_rules := ex_env\<lparr>cn_chain := ex_chain\<lparr>HashGenesisBlock := 3, ReadBlockFromDisk := (\<lambda>_. Some dirty_blk)\<rparr>\<rparr>\<rparr>"

lemma tree_entry_simps [simp]:
  "phashBlock (tree_entry p prev h w) = p" "pprev (tree_entry p prev h w) = prev" "nHeight (tree_entry p prev h w) = h" "nChainWork (tree_entry p prev h w) = w"
  "idx_lottoHeader (tree_entry p prev h w) = ex_lotto" "nStatus (tree_entry p prev h w) = 11" "diskPos (tree_entry p prev h w) = (0, unat p)"
  "nSequenceId (tree_entry p prev h w) = 1"
  by (simp_all add: tree_entry_def BLOCK_VALID_TRANSACTIONS_def BLOCK_HAVE_DATA_def)

lemma stuck_env_simps [simp]:
  "te_addr stuck_env = unat" "CBlockHeader_GetHash (env_Hash9 (cn_chain (te_rules stuck_env))) b = 5" "HashGenesisBlock (cn_chain (te_rules stuck_env)) = 3"
  "ReadBlockFromDisk (cn_chain (te_rules stuck_env)) pos = Some dirty_blk" "GetBitcoinBlockIndex (cn_chain (te_rules stuck_env)) n = Some (ex_idx 9)"
  "env_sha (cn_chain (te_rules stuck_env)) = ex_sha"
  by (simp_all add: stuck_env_def gen_env_def ex_env_def ex_chain_def CBlockHeader_GetHash_def Let_def)

lemma stuck_index_simps [simp]:
  "height stuck_index 3 = 0" "height stuck_index 5 = 1" "height stuck_index 6 = 2" "parent stuck_index 3 = None" "parent stuck_index 5 = Some 3" "parent stuck_index 6 = Some 5"
  "\<not> failed stuck_index p" "dom stuck_index = {3, 5, 6}"
  by (auto simp: stuck_index_def height_def parent_def failed_def BLOCK_FAILED_MASK_def split: if_splits)

lemma stuck_tree: "index_wf stuck_index" "lineage stuck_index (Some 3) = [3]" "lineage stuck_index (Some 6) = [6, 5, 3]"
proof -
  show "index_wf stuck_index" by (auto simp: index_wf_def stuck_index_def)
  show "lineage stuck_index (Some 3) = [3]" "lineage stuck_index (Some 6) = [6, 5, 3]" by (simp_all add: lineage_def numeral_2_eq_2)
qed

lemma stuck_node_ok: "node_ok unat stuck_node"
proof -
  have "chain_wf stuck_index [Some 3]" unfolding chain_wf_def by (intro exI [of _ "Some 3"]) (simp add: chain_of_def stuck_tree, simp add: stuck_index_def)
  moreover have "work_less unat stuck_index 3 6" by (simp add: work_less_def stuck_index_def)
  ultimately show ?thesis by (simp add: node_ok_def stuck_node_def stuck_tree)
qed

lemma stuck_refused:
  "\<exists>dos reason. ConnectBlock_tip (rules_of stuck_env stuck_node) f dirty_blk (CBlockIndex.truncate (tree_entry 5 (Some 3) 1 2)) True (new_cache (pcoinsTip stuck_node)) False
     = Some (Inr (Rejected (Reject dos REJECT_DIRTY_BLOCK reason True)))"
proof -
  let ?c = "cn_chain (rules_of stuck_env stuck_node)"
  have "length (ser_CBlock dirty_blk) \<le> MAX_BLOCK_SIZE"
    by (simp add: dirty_blk_def ex_sizes ser_CBlock_def ser_CBlockHeader_def ser_CLottoHeader_def ser_map_def ser_pair_def ex_blk_def new_CLottoHeader_def
      ser_vector_def WriteCompactSize_def ser_int64_def ser_int32_def ser_word_def ser_uint_def le_bytes_def MAX_BLOCK_SIZE_def)
  then have "CheckBlock ?c (2 ^ 248 - 1) 0 dirty_blk True True = Inr (dirty_blk\<lparr>vMerkleTree := vMerkleTree (ex_built [ex_cb])\<rparr>, Accept)"
    by (intro ex_CheckBlock_fields) (simp_all add: dirty_blk_def, simp_all add: ex_blk_def)
  moreover have "bnProofOfWorkLimit (rules_of stuck_env stuck_node) = 2 ^ 248 - 1" "GetAdjustedTime (rules_of stuck_env stuck_node) = 0"
    by (simp_all add: rules_of_def stuck_env_def ex_env_def)
  moreover have "mapBlockIndex ?c 3 \<noteq> None" "Checkpoints_CheckBlock ?c n h" for n h
    by (simp_all add: rules_of_def index_view_def stuck_node_def stuck_index_def stuck_env_def ex_env_def ex_chain_def)
  moreover have "hashPrevBlock dirty_blk = 3" "mBitcoinHash (lottoHeader dirty_blk) = []" by (simp_all add: dirty_blk_def new_CLottoHeader_def)
  ultimately show ?thesis by (auto simp: ConnectBlock_def CheckLottoResult_def Let_def)
qed

theorem unmarked_refusal_never_ends_witness: "\<forall>fuel. ActivateBestChain stuck_env fuel stuck_node = None"
proof -
  obtain dos reason where r: "ConnectBlock_tip (rules_of stuck_env stuck_node) (te_fuel stuck_env) dirty_blk (CBlockIndex.truncate (tree_entry 5 (Some 3) 1 2)) True
      (new_cache (pcoinsTip stuck_node)) False = Some (Inr (Rejected (Reject dos REJECT_DIRTY_BLOCK reason True)))" using stuck_refused by blast
  have "stuck (te_addr stuck_env) (GetBitcoinBlockIndex (cn_chain (te_rules stuck_env))) 5 6 stuck_node"
    using stuck_node_ok unfolding stuck_def by (simp add: stuck_node_def stuck_tree Tip_def) (simp add: CheckBTCHashValid_def work_less_def stuck_index_def)
  moreover have "ns_index stuck_node 5 = Some (tree_entry 5 (Some 3) 1 2)" by (simp add: stuck_node_def stuck_index_def)
  moreover have "ReadBlockFromDisk_index (cn_chain (te_rules stuck_env)) (tree_entry 5 (Some 3) 1 2) = Some dirty_blk" by (simp add: ReadBlockFromDisk_index_def BLOCK_HAVE_DATA_def)
  ultimately have "ActivateBestChain stuck_env fuel stuck_node = None" for fuel
    by (rule unmarked_refusal_never_ends [OF _ _ _ r])
      (simp_all add: REJECT_DIRTY_BLOCK_def REJECT_INVALID_LOTTO_def Tip_def stuck_node_def, simp add: work_less_def stuck_index_def)
  then show ?thesis by blast
qed

section \<open>A node that chooses\<close>

text \<open>Blocks 5 and 7 build on block 3. Block 7 has more work, but no transactions.\<close>

definition bad_blk :: CBlock where
  "bad_blk = (ex_blk [])\<lparr>nVersion := 7\<rparr>"

definition choice_env :: tip_env where
  "choice_env = gen_env\<lparr>te_rules := ex_env\<lparr>cn_chain := ex_chain\<lparr>HashGenesisBlock := 3, env_Hash9 := (\<lambda>bs. if hd bs = 2 then 5 else 7),
     ReadBlockFromDisk := (\<lambda>(file, pos). Some (if pos = 7 then bad_blk else ex_blk [ex_cb]))\<rparr>\<rparr>\<rparr>"

definition choice_index :: block_index where
  "choice_index = [3 \<mapsto> tree_entry 3 None 0 1, 5 \<mapsto> tree_entry 5 (Some 3) 1 2, 7 \<mapsto> tree_entry 7 (Some 3) 1 3]"

definition has :: "u32 \<Rightarrow> block_index \<Rightarrow> u256 \<Rightarrow> bool" where
  "has m idx p \<longleftrightarrow> (case idx p of None \<Rightarrow> False | Some e \<Rightarrow> nStatus e AND m \<noteq> 0)"

definition choice_ok :: "full_node \<Rightarrow> bool" where
  "choice_ok st \<longleftrightarrow> coins_consistent choice_env st \<and> tree (ns_index st) = tree choice_index \<and> (\<forall>p\<in>{3, 5, 7}. has BLOCK_HAVE_DATA (ns_index st) p)
     \<and> chainActive st \<in> {[Some 3], [Some 3, Some 5]} \<and> (has BLOCK_HAVE_UNDO (ns_index st) 5 \<longrightarrow> undo_files st 5 \<noteq> None)
     \<and> (chainActive st = [Some 3, Some 5] \<longrightarrow> has BLOCK_HAVE_UNDO (ns_index st) 5) \<and> mapTx (mempool st) = Map.empty \<and> mapNextTx (mempool st) = Map.empty"

lemma choice_hash: "CBlockHeader_GetHash (\<lambda>bs. if hd bs = 2 then 5 else 7) b = (if (word_of_nat (unat (word_of_int (nVersion b) :: u32)) :: byte) = 2 then 5 else 7)"
proof -
  have "\<exists>r. ser_CBlockHeader b = word_of_nat (unat (word_of_int (nVersion b) :: u32)) # r \<and> r \<noteq> []"
    by (simp add: ser_CBlockHeader_def ser_int32_def ser_uint_def ser_word_def le_bytes_def upt_conv_Cons)
  then show ?thesis by (auto simp: CBlockHeader_GetHash_def Let_def)
qed

lemma choice_simps [simp]:
  "te_addr choice_env = unat" "HashGenesisBlock (cn_chain (te_rules choice_env)) = 3" "CBlockHeader_GetHash (env_Hash9 (cn_chain (te_rules choice_env))) (ex_blk txs) = 5"
  "CBlockHeader_GetHash (env_Hash9 (cn_chain (te_rules choice_env))) (ex_built txs) = 5" "CBlockHeader_GetHash (env_Hash9 (cn_chain (te_rules choice_env))) bad_blk = 7"
  "ReadBlockFromDisk (cn_chain (te_rules choice_env)) (file, pos) = Some (if pos = 7 then bad_blk else ex_blk [ex_cb])" "env_sha (cn_chain (te_rules choice_env)) = ex_sha"
  "GetBitcoinBlockIndex (cn_chain (te_rules choice_env)) n = Some (ex_idx 9)" "te_write_due choice_env st = False" "te_fuel choice_env = Suc 0"
  by (simp_all add: choice_env_def gen_env_def ex_env_def ex_chain_def choice_hash) (simp_all add: ex_built_def ex_blk_def bad_blk_def)

lemma tree_entryE:
  assumes "tree idx = tree idx'" and "idx' p = Some x"
  obtains s where "idx p = Some (x\<lparr>nStatus := s\<rparr>)"
proof -
  from fun_cong [OF assms(1), of p] assms(2) obtain e where e: "idx p = Some e" "e\<lparr>nStatus := 0\<rparr> = x\<lparr>nStatus := 0\<rparr>" by (auto simp: tree_def)
  then have "e = x\<lparr>nStatus := nStatus e\<rparr>" by (cases e; cases x) simp
  with e(1) that show ?thesis by metis
qed

lemma overwrites_none:
  assumes "view_state v h = None"
  shows "\<exists>v'. overwrites (cache_GetCoins db_GetCoins) [h] v = Inr (v', False)"
proof -
  obtain c r where f: "FetchCoins (cache_GetCoins db_GetCoins) v h = (c, r)" by (cases "FetchCoins (cache_GetCoins db_GetCoins) v h")
  have r: "live r = None" using tip.cache_get [OF f [unfolded tip.Fetch_get]] assms by simp
  show ?thesis
  proof (cases r)
    case (Some x)
    then have "IsPruned x" using r by (simp add: live_def split: if_splits)
    moreover have "FetchCoins (cache_GetCoins db_GetCoins) c h = (c, Some x)" using f Some by (auto simp: FetchCoins_def split: option.splits prod.splits)
    ultimately show ?thesis using f Some by (simp add: cache_HaveCoins_def cache_ref_def)
  qed (use f in \<open>simp add: cache_HaveCoins_def\<close>)
qed

lemma connect_coinbase:
  assumes "view_state v = Map.empty" and "nHeight i = 1" and "disk_ok env"
  shows "\<exists>view. connect_coins (cache_GetCoins db_GetCoins) (cache_GetBestBlock db_GetBestBlock) env False (ex_built [ex_cb]) i True v = Inr (Connected view [])"
proof -
  obtain v' where "overwrites (cache_GetCoins db_GetCoins) [255] v = Inr (v', False)" using overwrites_none assms(1) by (metis)
  moreover have "tx_hashes (ex_built [ex_cb]) = Inr [255]" using ex_built_hashes [of "[ex_cb]"] ex_ids by simp
  moreover have "vec_at (vout ex_cb) 0 = Inr (ex_out 20)" by (simp add: ex_cb_def vec_at_def)
  moreover have "fEnforceBIP30 True i" using assms(2) by (simp add: fEnforceBIP30_def)
  ultimately show ?thesis using assms(2,3)
    by (simp add: connect_coins_def Let_def connect_tx_def ex_sigops MAX_BLOCK_SIGOPS_def ex_kinds UpdateCoins_def vec_at_def [of "[ex_cb]"]
      GetBlockValue_def nSubsidy_def COIN_def i64_def int64_range_def ex_out_def)
qed

lemma choice_coins: "choice_ok st \<Longrightarrow> chainActive st = [Some 3] \<Longrightarrow> tip_coins (pcoinsTip st) = Map.empty \<and> tip_best (pcoinsTip st) = 3"
proof -
  assume ok: "choice_ok st" and a: "chainActive st = [Some 3]"
  have t: "tree (ns_index st) = tree choice_index" and k: "coins_consistent choice_env st" using ok by (simp_all add: choice_ok_def)
  have "chain_coins choice_env choice_index (Some 3) = Map.empty"
    by (simp add: chain_coins_def apply_block_def lineage_def height_def choice_index_def split: option.splits)
  then show ?thesis using k a by (simp add: coins_consistent_def Tip_def tip_hash_def same_tree_coins [OF t])
qed

lemma choice_rules:
  "bnProofOfWorkLimit (rules_of choice_env st) = 2 ^ 248 - 1" "GetAdjustedTime (rules_of choice_env st) = 0" "disk_ok (rules_of choice_env st)"
  "mapBlockIndex (cn_chain (rules_of choice_env st)) = index_view (ns_index st)" "ReadBlockFromDisk (cn_chain (rules_of choice_env st)) = ReadBlockFromDisk (cn_chain (te_rules choice_env))"
  "poolKeyId (cn_chain (rules_of choice_env st)) = replicate 20 7" "GetBitcoinBlockIndex (cn_chain (rules_of choice_env st)) n = Some (ex_idx 9)"
  "Checkpoints_CheckBlock (cn_chain (rules_of choice_env st)) m h"
  by (simp_all add: rules_of_def choice_env_def ex_env_def ex_chain_def)

lemma choice_connect:
  assumes ok: "choice_ok st" and a: "chainActive st = [Some 3]" and e: "ns_index st 5 = Some e"
  shows "\<exists>view. ConnectBlock_tip (rules_of choice_env st) f (ex_blk [ex_cb]) (CBlockIndex.truncate e) True (new_cache (pcoinsTip st)) False = Some (Inr (Connected view []))"
proof -
  let ?c = "cn_chain (rules_of choice_env st)"
  have t: "tree (ns_index st) = tree choice_index" using ok by (simp add: choice_ok_def)
  obtain s3 where 3: "ns_index st 3 = Some ((tree_entry 3 None 0 1)\<lparr>nStatus := s3\<rparr>)" by (rule tree_entryE [OF t, of 3]) (simp_all add: choice_index_def)
  obtain s5 where 5: "ns_index st 5 = Some ((tree_entry 5 (Some 3) 1 2)\<lparr>nStatus := s5\<rparr>)" by (rule tree_entryE [OF t, of 5]) (simp_all add: choice_index_def)
  have cb: "CheckBlock ?c (2 ^ 248 - 1) 0 (ex_blk [ex_cb]) True True = Inr (ex_built [ex_cb], Accept)" by (rule ex_CheckBlock) simp_all
  have th: "tip_height ?c = 0" by (simp add: tip_height_def rules_of_def a List.map_filter_def index_view_def 3)
  have cl: "CheckLottoResult ?c f (ex_built [ex_cb]) = Some (Inr Accept)"
    by (rule ex_CheckLotto_fields [where i = "CBlockIndex.truncate ((tree_entry 3 None 0 1)\<lparr>nStatus := s3\<rparr>)" and pre = "ex_blk [ex_cb]"])
      (simp_all add: choice_rules th index_view_def 3, simp_all add: CBlockIndex.truncate_def)
  obtain v best where g: "cache_GetBestBlock (cache_GetBestBlock db_GetBestBlock) (new_cache (pcoinsTip st)) = (v, best)"
    by (cases "cache_GetBestBlock (cache_GetBestBlock db_GetBestBlock) (new_cache (pcoinsTip st))")
  have v: "view_state v = Map.empty" "best = 3" using tip.cache_get_best [OF g] choice_coins [OF ok a] by (simp_all add: tip.new_cache_state)
  obtain view where "connect_coins (cache_GetCoins db_GetCoins) (cache_GetBestBlock db_GetBestBlock) (rules_of choice_env st) False (ex_built [ex_cb]) (CBlockIndex.truncate e) True v
      = Inr (Connected view [])" using connect_coinbase [OF v(1), of "CBlockIndex.truncate e" "rules_of choice_env st"] choice_rules(3) 5 e by auto
  moreover have "prev_index (mapBlockIndex ?c) (CBlockIndex.truncate e) = Some (CBlockIndex.truncate ((tree_entry 3 None 0 1)\<lparr>nStatus := s3\<rparr>))"
    using 5 e by (auto simp: prev_index_def choice_rules index_view_def 3)
  ultimately show ?thesis using cb cl g v(2) by (simp add: ConnectBlock_def choice_rules Let_def)
qed

text \<open>What the steps do to the other bits of the status.\<close>

lemma status_data: "((x AND NOT BLOCK_VALID_MASK) OR BLOCK_VALID_SCRIPTS) AND BLOCK_HAVE_DATA = x AND BLOCK_HAVE_DATA"
  "((x AND NOT BLOCK_VALID_MASK) OR BLOCK_VALID_SCRIPTS) AND BLOCK_HAVE_UNDO = x AND BLOCK_HAVE_UNDO"
  "(x OR BLOCK_HAVE_UNDO) AND BLOCK_HAVE_DATA = x AND BLOCK_HAVE_DATA" "BLOCK_HAVE_UNDO \<noteq> 0"
proof -
  have m: "NOT BLOCK_VALID_MASK AND BLOCK_HAVE_DATA = BLOCK_HAVE_DATA" "NOT BLOCK_VALID_MASK AND BLOCK_HAVE_UNDO = BLOCK_HAVE_UNDO"
    "BLOCK_VALID_SCRIPTS AND BLOCK_HAVE_DATA = 0" "BLOCK_VALID_SCRIPTS AND BLOCK_HAVE_UNDO = 0" "BLOCK_HAVE_UNDO AND BLOCK_HAVE_DATA = 0"
    by (simp_all add: BLOCK_VALID_SCRIPTS_def BLOCK_HAVE_UNDO_def BLOCK_HAVE_DATA_def BLOCK_VALID_MASK_def)
  show "((x AND NOT BLOCK_VALID_MASK) OR BLOCK_VALID_SCRIPTS) AND BLOCK_HAVE_DATA = x AND BLOCK_HAVE_DATA"
    "((x AND NOT BLOCK_VALID_MASK) OR BLOCK_VALID_SCRIPTS) AND BLOCK_HAVE_UNDO = x AND BLOCK_HAVE_UNDO"
    "(x OR BLOCK_HAVE_UNDO) AND BLOCK_HAVE_DATA = x AND BLOCK_HAVE_DATA"
    by (simp_all only: bit.conj_disj_distrib2 and.assoc m or.right_neutral)
  show "BLOCK_HAVE_UNDO \<noteq> 0" by (simp add: BLOCK_HAVE_UNDO_def)
qed

lemma has_write_undo:
  "has BLOCK_HAVE_DATA (ns_index (write_undo p u st)) q = has BLOCK_HAVE_DATA (ns_index st) q"
  "ns_index st p = Some e \<Longrightarrow> has BLOCK_HAVE_UNDO (ns_index (write_undo p u st)) p"
  "undo_files (write_undo p u st) p = (if ns_index st p = None \<or> has BLOCK_HAVE_UNDO (ns_index st) p then undo_files st p else Some u)"
  by (auto simp: write_undo_def Let_def has_def status_data split: option.splits)

lemma has_stored:
  assumes "stored idx' = stored idx" and "m = BLOCK_HAVE_DATA \<or> m = BLOCK_HAVE_UNDO"
  shows "has m idx' = has m idx"
proof
  fix p
  have m: "NOT BLOCK_FAILED_MASK AND m = m" using assms(2) by (auto simp: BLOCK_HAVE_UNDO_def BLOCK_HAVE_DATA_def BLOCK_FAILED_MASK_def)
  have *: "nStatus e AND m = (nStatus e AND NOT BLOCK_FAILED_MASK) AND m" for e :: CBlockNode by (simp add: and.assoc m)
  show "has m idx' p = has m idx p"
  proof (cases "idx p")
    case None
    then show ?thesis using fun_cong [OF assms(1), of p] by (simp add: stored_def has_def)
  next
    case (Some e)
    then obtain e' where e': "idx' p = Some e'" "e'\<lparr>nStatus := nStatus e' AND NOT BLOCK_FAILED_MASK\<rparr> = e\<lparr>nStatus := nStatus e AND NOT BLOCK_FAILED_MASK\<rparr>"
      using fun_cong [OF assms(1), of p] by (auto simp: stored_def)
    from arg_cong [OF e'(2), of nStatus] have "nStatus e' AND m = nStatus e AND m" unfolding * [of e] * [of e'] by simp
    then show ?thesis using Some e'(1) by (simp add: has_def)
  qed
qed

lemma choice_ok_rest:
  assumes ok: "choice_ok st" and r: "same_rest st st'"
  shows "choice_ok st'"
proof -
  have s: "stored (ns_index st') = stored (ns_index st)" and a: "chainActive st' = chainActive st" and m: "node_state.more st' = node_state.more st"
    using r by (simp_all add: same_rest_def)
  show ?thesis using ok coins_consistent_rest [OF _ r] stored_tree [OF s]
    unfolding choice_ok_def has_stored [OF s disjI1 [OF refl]] has_stored [OF s disjI2 [OF refl]] a more_fields [OF m] by simp
qed

lemma choice_index_simps [simp]:
  "height choice_index 3 = 0" "height choice_index 5 = 1" "height choice_index 7 = 1" "parent choice_index 3 = None" "parent choice_index 5 = Some 3" "parent choice_index 7 = Some 3"
  "\<not> failed choice_index p" "dom choice_index = {3, 5, 7}"
  by (auto simp: choice_index_def height_def parent_def failed_def BLOCK_FAILED_MASK_def split: if_splits)

lemma choice_tree: "index_wf choice_index" "lineage choice_index (Some 3) = [3]" "lineage choice_index (Some 5) = [5, 3]" "lineage choice_index (Some 7) = [7, 3]"
proof -
  show "index_wf choice_index" by (auto simp: index_wf_def choice_index_def)
  show "lineage choice_index (Some 3) = [3]" "lineage choice_index (Some 5) = [5, 3]" "lineage choice_index (Some 7) = [7, 3]" by (simp_all add: lineage_def)
qed

lemma choice_good:
  assumes ok: "choice_ok st" and n: "node_ok unat st" and a: "chainActive st = [Some 3]"
  shows "\<exists>st'. ConnectTip choice_env 5 st = returnF (TipDone st') \<and> extends_tip 5 st st' \<and> choice_ok st'"
proof -
  have t: "tree (ns_index st) = tree choice_index" and k: "coins_consistent choice_env st" and pool: "mapTx (mempool st) = Map.empty" "mapNextTx (mempool st) = Map.empty"
    and data: "\<forall>p\<in>{3, 5, 7}. has BLOCK_HAVE_DATA (ns_index st) p" and undo: "has BLOCK_HAVE_UNDO (ns_index st) 5 \<longrightarrow> undo_files st 5 \<noteq> None" using ok by (simp_all add: choice_ok_def)
  obtain s5 where e: "ns_index st 5 = Some ((tree_entry 5 (Some 3) 1 2)\<lparr>nStatus := s5\<rparr>)" (is "_ = Some ?e") by (rule tree_entryE [OF t, of 5]) (simp_all add: choice_index_def)
  obtain view where c: "ConnectBlock_tip (rules_of choice_env st) (te_fuel choice_env) (ex_blk [ex_cb]) (CBlockIndex.truncate ?e) True (new_cache (pcoinsTip st)) False
      = Some (Inr (Connected view []))" using choice_connect [OF ok a e] by blast
  have rd: "ReadBlockFromDisk_index (cn_chain (te_rules choice_env)) ?e = Some (ex_blk [ex_cb])" using data e by (simp add: ReadBlockFromDisk_index_def has_def)
  let ?u = "write_undo 5 [] st"
  obtain st' where st': "ConnectTip choice_env 5 st = returnF (TipDone st')" "ns_index st' = ns_index ?u" "undo_files st' = undo_files ?u" "mapTx (mempool st') = mapTx (mempool st)"
      "mapNextTx (mempool st') = mapNextTx (mempool st)"
    using c rd e a by (simp add: ConnectTip_def same_tree(2) [OF t] Tip_def connected_tip_def Let_def WriteChainState_def remove_connected_empty [OF pool] UpdateTip_def write_undo_facts AddTransactionsUpdated_def)
  note d = ConnectTip_done [OF n k st'(1)]
  have "chainActive st' = [Some 3, Some 5]" using d(1) by (simp add: extends_tip_def a same_tree(10) [OF t] SetTip_def choice_tree resize_chain_def)
  then have "choice_ok st'" using d(2) st' data undo pool e t write_undo_facts(1) [of 5 "[]" st]
    by (auto simp: choice_ok_def has_write_undo)
  with st'(1) d(1) show ?thesis by blast
qed

lemma choice_bad:
  assumes ok: "choice_ok st" and n: "node_ok unat st" and a: "chainActive st = [Some 3]"
  shows "\<exists>st'. ConnectTip choice_env 7 st = returnF (TipInvalid REJECT_INVALID False st') \<and> refuses_tip unat 7 st st' \<and> choice_ok st'"
proof -
  have t: "tree (ns_index st) = tree choice_index" and k: "coins_consistent choice_env st" and data: "has BLOCK_HAVE_DATA (ns_index st) 7" using ok by (simp_all add: choice_ok_def)
  obtain s7 where e: "ns_index st 7 = Some ((tree_entry 7 (Some 3) 1 3)\<lparr>nStatus := s7\<rparr>)" (is "_ = Some ?e") by (rule tree_entryE [OF t, of 7]) (simp_all add: choice_index_def)
  have rd: "ReadBlockFromDisk_index (cn_chain (te_rules choice_env)) ?e = Some bad_blk" using data e by (simp add: ReadBlockFromDisk_index_def has_def)
  have "vtx bad_blk = []" by (simp add: bad_blk_def)
  then have "ConnectBlock_tip r f bad_blk i True v False = Some (Inr (Rejected (invalid 100 ''bad-blk-length'')))" for r f i v by (simp add: ConnectBlock_def CheckBlock_def)
  then have c: "ConnectTip choice_env 7 st = returnF (TipInvalid REJECT_INVALID False (InvalidBlockFound unat 7 False st))"
    using rd e a by (simp add: ConnectTip_def same_tree(2) [OF t] Tip_def)
  from ConnectTip_invalid [OF _ k c] n choice_ok_rest [OF ok] c show ?thesis by auto
qed

lemma choice_retract:
  assumes ok: "choice_ok st" and n: "node_ok unat st" and a: "chainActive st = [Some 3, Some 5]"
  shows "\<exists>st'. DisconnectTip choice_env st = returnF (TipDone st') \<and> retracts_tip 5 st st' \<and> choice_ok st'"
proof -
  have t: "tree (ns_index st) = tree choice_index" and k: "coins_consistent choice_env st" and pool: "mapTx (mempool st) = Map.empty" "mapNextTx (mempool st) = Map.empty"
    and data: "\<forall>p\<in>{3, 5, 7}. has BLOCK_HAVE_DATA (ns_index st) p" and undo: "has BLOCK_HAVE_UNDO (ns_index st) 5" "undo_files st 5 \<noteq> None" using ok a by (simp_all add: choice_ok_def)
  obtain s5 where e: "ns_index st 5 = Some ((tree_entry 5 (Some 3) 1 2)\<lparr>nStatus := s5\<rparr>)" (is "_ = Some ?e") by (rule tree_entryE [OF t, of 5]) (simp_all add: choice_index_def)
  have rd: "ReadBlockFromDisk_index (cn_chain (te_rules choice_env)) ?e = Some (ex_blk [ex_cb])" using data e by (simp add: ReadBlockFromDisk_index_def has_def)
  from undo(2) obtain u where u: "undo_files st 5 = Some u" by blast
  have "undo_ok choice_env (ns_index st) 5 u" using k u by (simp add: coins_consistent_def)
  moreover have "block_of choice_env (ns_index st) 5 = Some (ex_blk [ex_cb])" by (simp add: block_of_def e)
  moreover have "view_state (new_cache (pcoinsTip st)) = chain_coins choice_env (ns_index st) (Some 5)" "cache_best tip_best (new_cache (pcoinsTip st)) = 5"
    using k a by (simp_all add: coins_consistent_def tip.new_cache_state tip_hash_def Tip_def)
  ultimately obtain d where "DisconnectBlock (cache_GetCoins db_GetCoins) (cache_GetBestBlock db_GetBestBlock) (te_txid choice_env) (Some u) [ex_cb] 1 5 3 (new_cache (pcoinsTip st))
      = Inr (Some (d, True))" unfolding undo_ok_def same_tree(1) [OF t] by fastforce
  then obtain st' where st': "DisconnectTip choice_env st = returnF (TipDone st')" "ns_index st' = ns_index st" "undo_files st' = undo_files st"
      "mapTx (mempool st') = mapTx (mempool st)" "mapNextTx (mempool st') = mapNextTx (mempool st)"
    using rd e a u undo(1) by (simp add: DisconnectTip_def has_def Tip_def Let_def WriteChainState_def resurrect_def ex_kinds UpdateTip_def AddTransactionsUpdated_def)
  from DisconnectTip_done [OF n k st'(1)] a have d: "retracts_tip 5 st st'" "coins_consistent choice_env st'" by (simp_all add: Tip_def)
  have "chainActive st' = [Some 3]" using d(1) by (simp add: retracts_tip_def a same_tree(2,10) [OF t] SetTip_def choice_tree resize_chain_def)
  then have "choice_ok st'" using d(2) st' data undo pool t by (auto simp: choice_ok_def)
  with st'(1) d(1) show ?thesis by blast
qed

lemma choice_act: "choice_ok st \<Longrightarrow> chainActive st = [Some 3] \<or> chainActive st = [Some 3, Some 5]" "choice_ok st \<Longrightarrow> tree (ns_index st) = tree choice_index"
  by (auto simp: choice_ok_def)

lemma choice_next:
  assumes "choice_ok st" and "ns_index st p \<noteq> None" and "parent (ns_index st) p = Tip (chainActive st)"
  shows "chainActive st = [Some 3]" "p = 5 \<or> p = 7"
proof -
  note t = choice_act(2) [OF assms(1)]
  have "p \<in> {3, 5, 7}" using assms(2) same_tree(3) [OF t] by (auto simp: domI)
  with assms(3) choice_act(1) [OF assms(1)] show "chainActive st = [Some 3]" "p = 5 \<or> p = 7" by (auto simp: same_tree(2) [OF t] Tip_def)
qed

lemma choice_reach:
  assumes "tip_reach choice_env st s" and "choice_ok st"
  shows "choice_ok s"
  using assms
proof induction
  case (search s s')
  then show ?case using choice_ok_rest by blast
next
  case (connect s p s')
  then have s: "choice_ok s" "node_ok unat s" by simp_all
  have "parent (ns_index s) p = Tip (chainActive s)" "ns_index s p \<noteq> None" using connect.hyps(3) by (auto simp: ConnectTip_def split: if_splits option.splits)
  note n = choice_next [OF s(1) this(2,1)]
  from n(2) show ?case using choice_good [OF s n(1)] choice_bad [OF s n(1)] connect.hyps(3) by auto
next
  case (disconnect s s')
  then have s: "choice_ok s" "node_ok unat s" by simp_all
  obtain p e q where p: "Tip (chainActive s) = Some p" "ns_index s p = Some e" "pprev e = Some q" by (rule DisconnectTip_Done [OF disconnect.hyps(3)])
  then have "parent (ns_index s) p = Some q" by (simp add: parent_def)
  then have "chainActive s = [Some 3, Some 5]" using p(1) choice_act(1) [OF s(1)] by (auto simp: same_tree(2) [OF choice_act(2) [OF s(1)]] Tip_def)
  then show ?case using choice_retract [OF s] disconnect.hyps(3) by auto
qed

lemma choice_verdicts:
  assumes "choice_ok st"
  shows "tip_verdicts choice_env (\<lambda>p. p \<noteq> 7) st"
  unfolding tip_verdicts_def
proof (intro allI impI conjI)
  fix s p assume r: "tip_reach choice_env st s \<and> coins_consistent choice_env s \<and> best_inv (te_addr choice_env) (\<lambda>p. p \<noteq> 7) s"
  have ok: "choice_ok s" using choice_reach r assms by blast
  have n: "node_ok unat s" using r by (simp add: best_inv_def)
  show "if p \<noteq> 7 then \<exists>s'. ConnectTip choice_env p s = returnF (TipDone s')
    else \<exists>code s'. ConnectTip choice_env p s = returnF (TipInvalid code False s') \<and> code \<notin> {REJECT_INVALID_LOTTO, REJECT_DIRTY_BLOCK}"
    if "ns_index s p \<noteq> None \<and> parent (ns_index s) p = Tip (chainActive s)"
  proof -
    have "chainActive s = [Some 3]" "p = 5 \<or> p = 7" using choice_next [OF ok, of p] that by blast+
    with choice_good [OF ok n] choice_bad [OF ok n] show ?thesis by (auto simp: REJECT_INVALID_def REJECT_INVALID_LOTTO_def REJECT_DIRTY_BLOCK_def)
  qed
  show "\<exists>s'. DisconnectTip choice_env s = returnF (TipDone s')"
    if a: "Tip (chainActive s) = Some p \<and> Tip (chainMostWork s) \<noteq> None \<and> \<not> Contains (ns_index s) (chainMostWork s) p"
  proof -
    note t = choice_act(2) [OF ok]
    obtain m where m: "Tip (chainMostWork s) = Some m" using a by blast
    have "chainMostWork s = chain_of choice_index (Some m)" "m \<in> {3, 5, 7}"
      using chain_wf_Tip [OF node_okD(1,5) [OF n]] same_tree(3) [OF t] m by (auto simp: same_tree(8) [OF t] domI)
    then have "Contains (ns_index s) (chainMostWork s) 3" by (auto simp: same_tree(9) [OF t] Contains_def chain_get_def chain_of_def choice_tree)
    with a choice_act(1) [OF ok] have "chainActive s = [Some 3, Some 5]" by (auto simp: Tip_def)
    with choice_retract [OF ok n] show ?thesis by blast
  qed
qed

definition choice_node :: full_node where
  "choice_node = new_node\<lparr>ns_index := choice_index, chainActive := [Some 3], chainMostWork := [Some 3], setBlockIndexValid := [3, 5, 7], pcoinsTip := ex_tip\<rparr>"

lemma choice_node_simps: "ns_index choice_node = choice_index" "chainActive choice_node = [Some 3]" "chainMostWork choice_node = [Some 3]"
  "setBlockIndexValid choice_node = [3, 5, 7]" "pcoinsTip choice_node = ex_tip" "undo_files choice_node = Map.empty" "mempool choice_node = new_CTxMemPool"
  by (simp_all add: choice_node_def new_node_def)

lemma choice_node_ok: "choice_ok choice_node" "best_inv unat (\<lambda>p. p \<noteq> 7) choice_node"
proof -
  have e: "tip_coins ex_tip = Map.empty" "tip_best ex_tip = 3"
    by (auto simp: ex_tip_def db.new_cache_state db_state_def fun_eq_iff db_best_state_def)
  have c: "chain_coins choice_env choice_index (Some 3) = Map.empty" by (simp add: chain_coins_def choice_tree apply_block_def split: option.splits)
  have "index_sane choice_env choice_index" by (auto simp: index_sane_def choice_index_def fEnforceBIP30_def split: if_splits)
  then have "coins_consistent choice_env choice_node"
    by (simp add: coins_consistent_def choice_node_simps e c Tip_def tip_hash_def choice_tree coins_map_ok_def)
  then show "choice_ok choice_node"
    by (simp add: choice_ok_def choice_node_simps new_CTxMemPool_def) (simp add: choice_index_def has_def BLOCK_HAVE_DATA_def BLOCK_HAVE_UNDO_def)
  have "chain_wf choice_index [Some 3]" unfolding chain_wf_def by (intro exI [of _ "Some 3"]) (simp add: chain_of_def choice_tree, simp add: choice_index_def)
  moreover have "work_less unat choice_index 3 5" "work_less unat choice_index 3 7" "work_less unat choice_index 5 7" by (simp_all add: work_less_def choice_index_def)
  ultimately show "best_inv unat (\<lambda>p. p \<noteq> 7) choice_node"
    by (simp add: best_inv_def node_ok_def choice_node_simps choice_tree marks_ok_def sound_def Tip_def)
qed

theorem activation_reaches_best_chain_witness: "\<exists>st'. ActivateBestChain choice_env 8 choice_node = Some (Inr (True, st')) \<and> Tip (chainActive st') = Some 5"
proof -
  let ?btc = "GetBitcoinBlockIndex (cn_chain (te_rules choice_env))"
  have btc: "CheckBTCHashValid ?btc choice_index p" for p by (simp add: CheckBTCHashValid_def choice_index_def)
  have "most_ok ?btc (\<lambda>p. p \<noteq> 7) choice_node" by (simp add: most_ok_def choice_node_simps Tip_def btc)
  moreover have "2 * card (dom (ns_index choice_node)) + 2 \<le> 8" by (simp add: choice_node_simps)
  ultimately obtain st' where st': "ActivateBestChain choice_env 8 choice_node = Some (Inr (True, st'))" "best_active unat ?btc (\<lambda>p. p \<noteq> 7) choice_node st'"
    using activation_reaches_best_chain [of choice_env "\<lambda>p. p \<noteq> 7" choice_node 8] choice_verdicts choice_node_ok by (auto simp: activation_ready_def best_inv_def choice_ok_def)
  note b = st'(2) [unfolded best_active_def choice_node_simps]
  have "sound (\<lambda>p. p \<noteq> 7) choice_index (Some 5)" by (simp add: sound_def choice_tree)
  with b btc obtain x where x: "Tip (chainActive st') = Some x" "\<not> work_less unat choice_index x 5" by auto
  have "sound (\<lambda>p. p \<noteq> 7) choice_index (Some x)" "x \<in> {3, 5, 7}"
    using b x(1) chain_wf_Tip(2) [of "ns_index st'" "chainActive st'"] same_tree(3) [of "ns_index st'" choice_index] by (auto simp: node_ok_def domI)
  moreover have "work_less unat choice_index 3 5" by (simp add: work_less_def choice_index_def)
  ultimately have "x = 5" using x(2) by (auto simp: sound_def choice_tree)
  with st'(1) x(1) show ?thesis by blast
qed

theorem locator_close_to_fork_witness:
  "\<exists>vHave h. GetLocator choice_index [Some 3, Some 5] None = Some (Inr vHave) \<and> FindFork choice_index [Some 3, Some 7] vHave = Some h
    \<and> Contains choice_index [Some 3, Some 7] h \<and> 0 - height choice_index h \<le> (2 - 1) - 0"
proof -
  have "chain_wf choice_index [Some 3, Some 5]" unfolding chain_wf_def by (rule exI [of _ "Some 5"]) (simp add: chain_of_def choice_tree, simp add: choice_index_def)
  moreover have "chain_wf choice_index [Some 3, Some 7]" unfolding chain_wf_def by (rule exI [of _ "Some 7"]) (simp add: chain_of_def choice_tree, simp add: choice_index_def)
  ultimately show ?thesis using locator_close_to_fork [OF choice_tree(1) _ _ choice_tree(1), of "[Some 3, Some 5]" "[Some 3, Some 7]" 0] by simp
qed

end
