(* ===== verification/Sph_Types.thy ===== *)
theory Sph_Types
  imports Prelude
begin

text \<open>
  The machine layer of the hash library (\<open>blockhash/sph_types.h\<close>): truncation and rotation macros,
  byte swapping, and the encoding of words into byte buffers and back. The definitions follow the
  byte-wise branches of the source, which are independent of the host's byte order.
\<close>

named_theorems sph_simps \<open>macros of the hash library as word operations\<close>

section \<open>Truncation and rotation\<close>

definition SPH_T32 :: "u32 \<Rightarrow> u32" where
  "SPH_T32 x = x AND 0xFFFFFFFF"

definition SPH_ROTL32 :: "u32 \<Rightarrow> nat \<Rightarrow> u32" where
  "SPH_ROTL32 x n = SPH_T32 (push_bit n x OR drop_bit (32 - n) x)"

definition SPH_ROTR32 :: "u32 \<Rightarrow> nat \<Rightarrow> u32" where
  "SPH_ROTR32 x n = SPH_ROTL32 x (32 - n)"

definition SPH_T64 :: "u64 \<Rightarrow> u64" where
  "SPH_T64 x = x AND 0xFFFFFFFFFFFFFFFF"

definition SPH_ROTL64 :: "u64 \<Rightarrow> nat \<Rightarrow> u64" where
  "SPH_ROTL64 x n = SPH_T64 (push_bit n x OR drop_bit (64 - n) x)"

definition SPH_ROTR64 :: "u64 \<Rightarrow> nat \<Rightarrow> u64" where
  "SPH_ROTR64 x n = SPH_ROTL64 x (64 - n)"

section \<open>Byte order\<close>

definition sph_bswap32 :: "u32 \<Rightarrow> u32" where
  "sph_bswap32 x =
     (let x = SPH_T32 (push_bit 16 x OR drop_bit 16 x);
          x = drop_bit 8 (x AND 0xFF00FF00) OR push_bit 8 (x AND 0x00FF00FF)
      in x)"

definition sph_bswap64 :: "u64 \<Rightarrow> u64" where
  "sph_bswap64 x =
     (let x = SPH_T64 (push_bit 32 x OR drop_bit 32 x);
          x = drop_bit 16 (x AND 0xFFFF0000FFFF0000) OR push_bit 16 (x AND 0x0000FFFF0000FFFF);
          x = drop_bit 8 (x AND 0xFF00FF00FF00FF00) OR push_bit 8 (x AND 0x00FF00FF00FF00FF)
      in x)"

text \<open>The bytes a store writes, in the order of their addresses.\<close>

definition sph_enc32be :: "u32 \<Rightarrow> byte list" where
  "sph_enc32be val = [ucast (drop_bit 24 val), ucast (drop_bit 16 val), ucast (drop_bit 8 val), ucast val]"

definition sph_enc32le :: "u32 \<Rightarrow> byte list" where
  "sph_enc32le val = [ucast val, ucast (drop_bit 8 val), ucast (drop_bit 16 val), ucast (drop_bit 24 val)]"

definition sph_enc64be :: "u64 \<Rightarrow> byte list" where
  "sph_enc64be val = [ucast (drop_bit 56 val), ucast (drop_bit 48 val), ucast (drop_bit 40 val),
     ucast (drop_bit 32 val), ucast (drop_bit 24 val), ucast (drop_bit 16 val), ucast (drop_bit 8 val), ucast val]"

definition sph_enc64le :: "u64 \<Rightarrow> byte list" where
  "sph_enc64le val = [ucast val, ucast (drop_bit 8 val), ucast (drop_bit 16 val), ucast (drop_bit 24 val),
     ucast (drop_bit 32 val), ucast (drop_bit 40 val), ucast (drop_bit 48 val), ucast (drop_bit 56 val)]"

text \<open>Loads from a buffer at an offset.\<close>

definition sph_dec32be :: "byte list \<Rightarrow> nat \<Rightarrow> u32" where
  "sph_dec32be src o' = push_bit 24 (ucast (src ! o')) OR push_bit 16 (ucast (src ! (o' + 1)))
     OR push_bit 8 (ucast (src ! (o' + 2))) OR ucast (src ! (o' + 3))"

definition sph_dec32le :: "byte list \<Rightarrow> nat \<Rightarrow> u32" where
  "sph_dec32le src o' = ucast (src ! o') OR push_bit 8 (ucast (src ! (o' + 1)))
     OR push_bit 16 (ucast (src ! (o' + 2))) OR push_bit 24 (ucast (src ! (o' + 3)))"

definition sph_dec64be :: "byte list \<Rightarrow> nat \<Rightarrow> u64" where
  "sph_dec64be src o' = push_bit 56 (ucast (src ! o')) OR push_bit 48 (ucast (src ! (o' + 1)))
     OR push_bit 40 (ucast (src ! (o' + 2))) OR push_bit 32 (ucast (src ! (o' + 3)))
     OR push_bit 24 (ucast (src ! (o' + 4))) OR push_bit 16 (ucast (src ! (o' + 5)))
     OR push_bit 8 (ucast (src ! (o' + 6))) OR ucast (src ! (o' + 7))"

definition sph_dec64le :: "byte list \<Rightarrow> nat \<Rightarrow> u64" where
  "sph_dec64le src o' = ucast (src ! o') OR push_bit 8 (ucast (src ! (o' + 1)))
     OR push_bit 16 (ucast (src ! (o' + 2))) OR push_bit 24 (ucast (src ! (o' + 3)))
     OR push_bit 32 (ucast (src ! (o' + 4))) OR push_bit 40 (ucast (src ! (o' + 5)))
     OR push_bit 48 (ucast (src ! (o' + 6))) OR push_bit 56 (ucast (src ! (o' + 7)))"

section \<open>Rotations\<close>

lemma SPH_T32_id [simp, sph_simps]: "SPH_T32 x = x"
proof -
  have "(0xFFFFFFFF :: u32) = - 1" by simp
  show ?thesis unfolding SPH_T32_def \<open>0xFFFFFFFF = - 1\<close> by (rule and.right_neutral)
qed

lemma SPH_T64_id [simp, sph_simps]: "SPH_T64 x = x"
proof -
  have "(0xFFFFFFFFFFFFFFFF :: u64) = - 1" by simp
  show ?thesis unfolding SPH_T64_def \<open>0xFFFFFFFFFFFFFFFF = - 1\<close> by (rule and.right_neutral)
qed

lemma rot_index: "i < L \<Longrightarrow> n < L \<Longrightarrow> (i + L - n) mod L = (if n \<le> i then i - n else L + i - n)" for L :: nat
proof (cases "n \<le> i")
  case True
  assume "i < L" "n < L"
  with True have "i + L - n = (i - n) + L" by simp
  then have "(i + L - n) mod L = (i - n) mod L" by simp
  with True \<open>i < L\<close> show ?thesis by simp
qed auto

lemma SPH_ROTL32_rotl [sph_simps]: "n < 32 \<Longrightarrow> SPH_ROTL32 x n = word_rotl n x"
  by (rule bit_word_eqI) (auto simp: SPH_ROTL32_def bit_simps bit_word_rotl_iff rot_index dest: bit_imp_le_length)

lemma SPH_ROTL64_rotl [sph_simps]: "n < 64 \<Longrightarrow> SPH_ROTL64 x n = word_rotl n x"
  by (rule bit_word_eqI) (auto simp: SPH_ROTL64_def bit_simps bit_word_rotl_iff rot_index dest: bit_imp_le_length)

section \<open>Round trips\<close>

text \<open>The bit position within a word falls into one of its bytes.\<close>

lemma byte_cases_32:
  assumes "(n :: nat) < 32"
  obtains "n < 8" | "8 \<le> n" "n < 16" | "16 \<le> n" "n < 24" | "24 \<le> n"
  using assms by linarith

lemma byte_cases_64:
  assumes "(n :: nat) < 64"
  obtains "n < 8" | "8 \<le> n" "n < 16" | "16 \<le> n" "n < 24" | "24 \<le> n" "n < 32"
  | "32 \<le> n" "n < 40" | "40 \<le> n" "n < 48" | "48 \<le> n" "n < 56" | "56 \<le> n"
  using assms by linarith

lemma dec32le_enc32le: "sph_dec32le (sph_enc32le v @ r) 0 = v"
proof (rule bit_word_eqI)
  fix n assume "n < LENGTH(32)"
  then have n: "n < 32" by simp
  then show "bit (sph_dec32le (sph_enc32le v @ r) 0) n = bit v n"
    by (cases rule: byte_cases_32) (use n in \<open>simp_all add: sph_dec32le_def sph_enc32le_def bit_simps less_diff_conv2\<close>)
qed

lemma dec64le_enc64le: "sph_dec64le (sph_enc64le v @ r) 0 = v"
proof (rule bit_word_eqI)
  fix n assume "n < LENGTH(64)"
  then have n: "n < 64" by simp
  then show "bit (sph_dec64le (sph_enc64le v @ r) 0) n = bit v n"
    by (cases rule: byte_cases_64) (use n in \<open>simp_all add: sph_dec64le_def sph_enc64le_def bit_simps less_diff_conv2\<close>)
qed

lemma dec32be_enc32be: "sph_dec32be (sph_enc32be v @ r) 0 = v"
proof (rule bit_word_eqI)
  fix n assume "n < LENGTH(32)"
  then have n: "n < 32" by simp
  then show "bit (sph_dec32be (sph_enc32be v @ r) 0) n = bit v n"
    by (cases rule: byte_cases_32) (use n in \<open>simp_all add: sph_dec32be_def sph_enc32be_def bit_simps less_diff_conv2\<close>)
qed

lemma dec64be_enc64be: "sph_dec64be (sph_enc64be v @ r) 0 = v"
proof (rule bit_word_eqI)
  fix n assume "n < LENGTH(64)"
  then have n: "n < 64" by simp
  then show "bit (sph_dec64be (sph_enc64be v @ r) 0) n = bit v n"
    by (cases rule: byte_cases_64) (use n in \<open>simp_all add: sph_dec64be_def sph_enc64be_def bit_simps less_diff_conv2\<close>)
qed

text \<open>Storing a byte-swapped word in one order is storing the word in the other.\<close>

lemma byte_eqI:
  assumes "bit x 0 = bit y 0" "bit x 1 = bit y 1" "bit x 2 = bit y 2" "bit x 3 = bit y 3"
    "bit x 4 = bit y 4" "bit x 5 = bit y 5" "bit x 6 = bit y 6" "bit x 7 = bit y 7"
  shows "x = (y :: byte)"
proof (rule bit_word_eqI)
  fix n assume "n < LENGTH(8)"
  then have "n \<in> {0, 1, 2, 3, 4, 5, 6, 7}" by auto
  with assms show "bit x n = bit y n" by auto
qed

lemma bit_beyond: "32 \<le> n \<Longrightarrow> \<not> bit (v :: u32) n" "64 \<le> n \<Longrightarrow> \<not> bit (w :: u64) n"
  by (auto dest: bit_imp_le_length)

lemma enc32be_bswap: "sph_enc32be v = sph_enc32le (sph_bswap32 v)"
  by (simp add: sph_enc32be_def sph_enc32le_def sph_bswap32_def; intro conjI; rule byte_eqI; simp add: bit_simps bit_beyond)

lemma enc64be_bswap: "sph_enc64be v = sph_enc64le (sph_bswap64 v)"
  by (simp add: sph_enc64be_def sph_enc64le_def sph_bswap64_def; intro conjI; rule byte_eqI; simp add: bit_simps bit_beyond)

end
