(* ===== verification/Sph_Stream.thy ===== *)
theory Sph_Stream
  imports Sph_Types
begin

text \<open>
  The streaming interface every hash function of \<open>blockhash\<close> shares: a context holds a block buffer,
  the number of bytes in it and a chaining state; \<open>core\<close> copies input into the buffer and processes
  every full block; \<open>close\<close> pads, processes the rest, writes the digest and re-initialises the
  context.

  \<open>core_loop\<close> is the loop of the \<open>*_core\<close> functions, \<open>absorb\<close> its specification on byte
  strings. The locales state what a hash function has to provide and derive from it that the digest
  depends on the bytes of the message alone, not on how they are cut into calls.
\<close>

section \<open>Buffers\<close>

text \<open>\<open>memcpy(buf + ptr, data, len)\<close>.\<close>

definition memcpy_at :: "'a list \<Rightarrow> nat \<Rightarrow> 'a list \<Rightarrow> 'a list" where
  "memcpy_at buf ptr data = take ptr buf @ data @ drop (ptr + length data) buf"

lemma length_memcpy_at [simp]: "ptr + length d \<le> length buf \<Longrightarrow> length (memcpy_at buf ptr d) = length buf"
  by (simp add: memcpy_at_def)

lemma take_memcpy_at: "ptr \<le> length buf \<Longrightarrow> take (ptr + length d) (memcpy_at buf ptr d) = take ptr buf @ d"
  by (simp add: memcpy_at_def min_def)

lemma memcpy_at_full: "ptr + length d = length buf \<Longrightarrow> memcpy_at buf ptr d = take ptr buf @ d"
  by (simp add: memcpy_at_def)

lemma take_nth_Suc: "n < length xs \<Longrightarrow> take (Suc n) (xs[n := v]) = take n xs @ [v]"
  by (simp add: take_Suc_conv_app_nth)

text \<open>\<open>((ub & -z) | z) & 0xFF\<close> with \<open>z = 0x80 >> n\<close>: the last \<open>n\<close> bits of the message and the padding bit.\<close>

definition pad_byte :: "u32 \<Rightarrow> nat \<Rightarrow> byte" where
  "pad_byte ub n = (let z = drop_bit n 0x80 in ucast ((ub AND - z) OR z))"

lemma pad_byte_0 [simp]: "pad_byte 0 0 = 0x80"
  by (simp add: pad_byte_def)

section \<open>The loop\<close>

text \<open>A pointer beyond the buffer makes the first copy write outside it.\<close>

function core_loop :: "nat \<Rightarrow> (byte list \<Rightarrow> 's \<Rightarrow> 's) \<Rightarrow> byte list \<Rightarrow> nat \<Rightarrow> 's \<Rightarrow> byte list
    \<Rightarrow> (byte list \<times> nat \<times> 's) result" where
  "core_loop B process buf ptr s data =
     (if data = [] then Inr (buf, ptr, s)
      else if B = 0 \<or> B < ptr then Inl OutOfBounds
      else
        let clen = min (B - ptr) (length data);
            buf = memcpy_at buf ptr (take clen data);
            ptr = ptr + clen;
            data = drop clen data
        in if ptr = B then core_loop B process buf 0 (process buf s) data
           else core_loop B process buf ptr s data)"
  by pat_completeness auto
termination
  by (relation "measure (\<lambda>(B, process, buf, ptr, s, data). 2 * length data + (if ptr = B then 1 else 0))") auto

declare core_loop.simps [simp del]

section \<open>Absorbing a byte string\<close>

function absorb :: "nat \<Rightarrow> (byte list \<Rightarrow> 's \<Rightarrow> 's) \<Rightarrow> 's \<Rightarrow> byte list \<Rightarrow> 's \<times> byte list" where
  "absorb B process s xs =
     (if B = 0 \<or> length xs < B then (s, xs) else absorb B process (process (take B xs) s) (drop B xs))"
  by pat_completeness auto
termination
  by (relation "measure (\<lambda>(B, process, s, xs). length xs)") auto

declare absorb.simps [simp del]

lemma absorb_short: "length xs < B \<Longrightarrow> absorb B process s xs = (s, xs)"
  by (simp add: absorb.simps)

lemma absorb_block:
  "0 < B \<Longrightarrow> length x = B \<Longrightarrow> absorb B process s (x @ xs) = absorb B process (process x s) xs"
  by (subst absorb.simps) simp

lemma absorb_rest: "0 < B \<Longrightarrow> length (snd (absorb B process s xs)) < B"
  by (induction B process s xs rule: absorb.induct) (simp add: absorb.simps)

lemma absorb_append:
  assumes "0 < B"
  shows "absorb B process s (xs @ ys) =
    (case absorb B process s xs of (s', r) \<Rightarrow> absorb B process s' (r @ ys))"
  using assms
proof (induction B process s xs rule: absorb.induct)
  case (1 B process s xs)
  show ?case
  proof (cases "length xs < B")
    case False
    then have "absorb B process s (take B xs @ drop B xs @ ys) = absorb B process (process (take B xs) s) (drop B xs @ ys)"
      using 1(2) by (intro absorb_block) auto
    then have "absorb B process s (xs @ ys) = absorb B process (process (take B xs) s) (drop B xs @ ys)"
      by (metis append.assoc append_take_drop_id)
    with False 1 show ?thesis by (simp add: absorb.simps [of B process s xs])
  qed (simp add: absorb_short)
qed

lemma absorb_absorb:
  "0 < B \<Longrightarrow> absorb B process (fst (absorb B process s xs)) (snd (absorb B process s xs) @ ys) = absorb B process s (xs @ ys)"
  using absorb_append [of B process s xs ys] by (simp add: case_prod_unfold)

text \<open>The loop computes \<open>absorb\<close> on the pending bytes followed by the input.\<close>

lemma core_loop_absorb:
  assumes "ptr < B" and "length buf = B"
  shows "\<exists>buf' ptr' s'. core_loop B process buf ptr s data = Inr (buf', ptr', s')
    \<and> length buf' = B \<and> ptr' < B \<and> absorb B process s (take ptr buf @ data) = (s', take ptr' buf')"
  using assms
proof (induction B process buf ptr s data rule: core_loop.induct)
  case (1 B process buf ptr s data)
  let ?c = "min (B - ptr) (length data)"
  let ?buf = "memcpy_at buf ptr (take ?c data)"
  show ?case
  proof (cases "data = []")
    case True
    with "1.prems" show ?thesis by (simp add: core_loop.simps absorb_short)
  next
    case ne: False
    have len: "length ?buf = B" using "1.prems" by simp
    show ?thesis
    proof (cases "ptr + ?c = B")
      case True
      then have d: "take ptr buf @ data = ?buf @ drop ?c data"
        using "1.prems" by (simp add: memcpy_at_full)
      have "core_loop B process buf ptr s data = core_loop B process ?buf 0 (process ?buf s) (drop ?c data)"
        using ne True "1.prems" by (subst core_loop.simps) (simp add: Let_def)
      moreover have "absorb B process s (take ptr buf @ data) = absorb B process (process ?buf s) (take 0 ?buf @ drop ?c data)"
        unfolding d using len "1.prems" by (simp add: absorb_block)
      ultimately show ?thesis using "1.IH"(1) [OF ne _ refl refl refl refl] True len "1.prems" by simp
    next
      case False
      then have c: "?c = length data" and lt: "ptr + length data < B" using "1.prems" by auto
      have "core_loop B process buf ptr s data = core_loop B process ?buf (ptr + ?c) s (drop ?c data)"
        using ne False lt "1.prems" by (subst core_loop.simps) (simp add: Let_def)
      also have "\<dots> = Inr (?buf, ptr + ?c, s)" by (simp add: c core_loop.simps)
      finally show ?thesis
        using lt len "1.prems" take_memcpy_at [of ptr buf data] by (simp add: c absorb_short)
    qed
  qed
qed

section \<open>Contracts\<close>

text \<open>
  What the update function of a hash promises: on a well-formed context it returns, keeps the context
  well formed, and the abstract value of the context (chaining state and pending bytes) absorbs the
  input.
\<close>

locale sph_update =
  fixes B :: nat and process :: "byte list \<Rightarrow> 's \<Rightarrow> 's"
    and ok :: "'c \<Rightarrow> bool" and abstr :: "'c \<Rightarrow> 's \<times> byte list"
    and core :: "'c \<Rightarrow> byte list \<Rightarrow> 'c result"
  assumes B_pos: "0 < B"
    and core_step: "ok c \<Longrightarrow> \<exists>c'. core c d = Inr c' \<and> ok c'
      \<and> abstr c' = absorb B process (fst (abstr c)) (snd (abstr c) @ d)"
begin

lemma core_chunks:
  assumes "ok c" and "abstr c = absorb B process s r"
  shows "\<exists>c'. foldE (\<lambda>d c. core c d) ds c = Inr c' \<and> ok c' \<and> abstr c' = absorb B process s (r @ concat ds)"
  using assms
proof (induction ds arbitrary: c r)
  case (Cons d ds)
  from core_step [OF Cons.prems(1), of d] obtain c1 where c1: "core c d = Inr c1" "ok c1"
    "abstr c1 = absorb B process (fst (abstr c)) (snd (abstr c) @ d)" by blast
  have "abstr c1 = absorb B process s (r @ d)"
    unfolding c1(3) Cons.prems(2) by (simp add: absorb_absorb [OF B_pos])
  from Cons.IH [OF c1(2) this] c1(1) show ?case by simp
qed simp

text \<open>Input that just fills the buffer is one block.\<close>

lemma core_block:
  assumes "ok c" and "length (snd (abstr c)) + length d = B"
  shows "\<exists>c'. core c d = Inr c' \<and> ok c' \<and> abstr c' = (process (snd (abstr c) @ d) (fst (abstr c)), [])"
proof -
  have "absorb B process s ((snd (abstr c) @ d) @ []) = (process (snd (abstr c) @ d) s, [])" for s
    using assms(2) B_pos by (subst absorb_block) (simp_all add: absorb_short)
  with core_step [OF assms(1), of d] show ?thesis by simp
qed

text \<open>Two calls have the effect of one call on the concatenation.\<close>

lemma core_append:
  assumes "ok c"
  shows "\<exists>c1 c2 c12. core c a = Inr c1 \<and> core c1 b = Inr c2 \<and> core c (a @ b) = Inr c12 \<and> abstr c12 = abstr c2"
proof -
  from core_step [OF assms, of a] obtain c1 where c1: "core c a = Inr c1" "ok c1"
    "abstr c1 = absorb B process (fst (abstr c)) (snd (abstr c) @ a)" by blast
  from core_step [OF c1(2), of b] obtain c2 where c2: "core c1 b = Inr c2"
    "abstr c2 = absorb B process (fst (abstr c1)) (snd (abstr c1) @ b)" by blast
  from core_step [OF assms, of "a @ b"] obtain c12 where "core c (a @ b) = Inr c12"
    "abstr c12 = absorb B process (fst (abstr c)) ((snd (abstr c) @ a) @ b)" by auto
  moreover from this(2) have "abstr c12 = abstr c2"
    unfolding c2(2) c1(3) by (simp only: absorb_absorb [OF B_pos])
  ultimately show ?thesis using c1 c2 by blast
qed

end

text \<open>
  A complete hash function: initialisation sets the chaining state to the initial value \<open>iv\<close>, closing
  writes a digest that is a function of the abstract context, and leaves a freshly initialised one.
  \<open>mem\<close> says that the context is an object of its type (its arrays have their sizes).
\<close>

locale sph_hash = sph_update B process ok abstr core
  for B :: nat and process :: "byte list \<Rightarrow> 's \<Rightarrow> 's" and ok :: "'c \<Rightarrow> bool"
    and abstr :: "'c \<Rightarrow> 's \<times> byte list" and core :: "'c \<Rightarrow> byte list \<Rightarrow> 'c result" +
  fixes mem :: "'c \<Rightarrow> bool" and iv :: 's and init :: "'c \<Rightarrow> 'c"
    and close :: "'c \<Rightarrow> (byte list \<times> 'c) result" and digest :: "'s \<Rightarrow> byte list \<Rightarrow> byte list"
  assumes init_ok: "mem c \<Longrightarrow> ok (init c) \<and> abstr (init c) = (iv, [])"
    and close_digest: "ok c \<Longrightarrow> \<exists>c'. close c = Inr (digest (fst (abstr c)) (snd (abstr c)), c')
      \<and> ok c' \<and> abstr c' = (iv, [])"
begin

definition hash_of :: "byte list \<Rightarrow> byte list" where
  "hash_of m = (case absorb B process iv m of (s, r) \<Rightarrow> digest s r)"

lemma fresh_chunks:
  assumes "ok c" and "abstr c = (iv, [])"
  shows "\<exists>c'. bindE (foldE (\<lambda>d c. core c d) ds c) close = Inr (hash_of (concat ds), c') \<and> ok c' \<and> abstr c' = (iv, [])"
proof -
  have "abstr c = absorb B process iv []" using assms(2) B_pos by (simp add: absorb_short)
  from core_chunks [OF assms(1) this, of ds] obtain c1 where c1: "foldE (\<lambda>d c. core c d) ds c = Inr c1" "ok c1"
    "abstr c1 = absorb B process iv (concat ds)" by auto
  from close_digest [OF c1(2)] c1 show ?thesis by (auto simp: hash_of_def case_prod_unfold)
qed

text \<open>Initialise, update with any pieces, close: the digest is that of the concatenation.\<close>

lemma hash_chunks:
  assumes "mem c"
  shows "\<exists>c'. bindE (foldE (\<lambda>d c. core c d) ds (init c)) close = Inr (hash_of (concat ds), c')
    \<and> ok c' \<and> abstr c' = (iv, [])"
  using init_ok [OF assms] by (intro fresh_chunks) auto

end

end
