(* ===== verification/Cubehash.thy ===== *)
theory Cubehash
  imports Sph_Stream
begin

text \<open>
  CubeHash (\<open>blockhash/cubehash.c\<close>) in its default configuration: all sixteen rounds unrolled, the state
  copied into 32 local variables. The locals are a 32-tuple, and each macro that assigns to them is a
  function on the tuple. The theory shows that two unrolled rounds, which swap words by renaming
  variables, compute two rounds of the algorithm as published, that the rounds permute the state, and
  that the functions satisfy the contract of a streaming hash.
\<close>

section \<open>Tables\<close>

definition cubehash_IV224 :: "u32 list" where
  "cubehash_IV224 = [
     0xB0FC8217, 0x1BEE1A90, 0x829E1A22, 0x6362C342, 0x24D91C30, 0x03A7AA24, 0xA63721C8,
     0x85B0E2EF, 0xF35D13F3, 0x41DA807D, 0x21A70CA6, 0x1F4E9774, 0xB3E1C932, 0xEB0A79A8,
     0xCDDAAA66, 0xE2F6ECAA, 0x0A713362, 0xAA3080E0, 0xD8F23A32, 0xCEF15E28, 0xDB086314,
     0x7F709DF7, 0xACD228A4, 0x704D6ECE, 0xAA3EC95F, 0xE387C214, 0x3A6445FF, 0x9CAB81C3,
     0xC73D4B98, 0xD277AEBE, 0xFD20151C, 0x00CB573E]"

definition cubehash_IV256 :: "u32 list" where
  "cubehash_IV256 = [
     0xEA2BD4B4, 0xCCD6F29F, 0x63117E71, 0x35481EAE, 0x22512D5B, 0xE5D94E63, 0x7E624131,
     0xF4CC12BE, 0xC2D0B696, 0x42AF2070, 0xD0720C35, 0x3361DA8C, 0x28CCECA4, 0x8EF8AD83,
     0x4680AC00, 0x40E5FBAB, 0xD89041C3, 0x6107FBD5, 0x6C859D41, 0xF0B26679, 0x09392549,
     0x5FA25603, 0x65C892FD, 0x93CB6285, 0x2AF2B5AE, 0x9E4B4E60, 0x774ABFDD, 0x85254725,
     0x15815AEB, 0x4AB6AAD6, 0x9CDAF8AF, 0xD6032C0A]"

definition cubehash_IV384 :: "u32 list" where
  "cubehash_IV384 = [
     0xE623087E, 0x04C00C87, 0x5EF46453, 0x69524B13, 0x1A05C7A9, 0x3528DF88, 0x6BDD01B5,
     0x5057B792, 0x6AA7A922, 0x649C7EEE, 0xF426309F, 0xCB629052, 0xFC8E20ED, 0xB3482BAB,
     0xF89E5E7E, 0xD83D4DE4, 0x44BFC10D, 0x5FC1E63D, 0x2104E6CB, 0x17958F7F, 0xDBEAEF70,
     0xB4B97E1E, 0x32C195F6, 0x6184A8E4, 0x796C2543, 0x23DE176D, 0xD33BBAEC, 0x0C12E5D2,
     0x4EB95A7B, 0x2D18BA01, 0x04EE475F, 0x1FC5F22E]"

definition cubehash_IV512 :: "u32 list" where
  "cubehash_IV512 = [
     0x2AEA2A61, 0x50F494D4, 0x2D538B8B, 0x4167D83E, 0x3FEE2313, 0xC701CF8C, 0xCC39968E,
     0x50AC5695, 0x4D42C787, 0xA647A8B3, 0x97CF0BEF, 0x825B4537, 0xEEF864D2, 0xF22090C4,
     0xD0E5CD33, 0xA23911AE, 0xFCD398D9, 0x148FE485, 0x1B017BEF, 0xB6444532, 0x6A536159,
     0x2FF5781C, 0x91FA7934, 0x0DBADEA9, 0xD65C8A2B, 0xA5A70E75, 0xB1C62456, 0xBC796576,
     0x1921C8F7, 0xE7989AF1, 0x7795D246, 0xD43E3B44]"

section \<open>State\<close>

record sph_cubehash_context =
  cube_buf :: "byte list"
  cube_ptr :: nat
  cube_state :: "u32 list"

type_synonym cube_vars =
  "u32 \<times> u32 \<times> u32 \<times> u32 \<times> u32 \<times> u32 \<times> u32 \<times> u32 \<times> u32 \<times> u32 \<times> u32 \<times> u32 \<times> u32 \<times> u32 \<times> u32 \<times> u32
   \<times> u32 \<times> u32 \<times> u32 \<times> u32 \<times> u32 \<times> u32 \<times> u32 \<times> u32 \<times> u32 \<times> u32 \<times> u32 \<times> u32 \<times> u32 \<times> u32 \<times> u32 \<times> u32"

definition cube_READ_STATE :: "u32 list \<Rightarrow> cube_vars" where
  "cube_READ_STATE st =
    (st ! 0, st ! 1, st ! 2, st ! 3, st ! 4, st ! 5, st ! 6, st ! 7,
     st ! 8, st ! 9, st ! 10, st ! 11, st ! 12, st ! 13, st ! 14, st ! 15,
     st ! 16, st ! 17, st ! 18, st ! 19, st ! 20, st ! 21, st ! 22, st ! 23,
     st ! 24, st ! 25, st ! 26, st ! 27, st ! 28, st ! 29, st ! 30, st ! 31)"

definition cube_WRITE_STATE :: "cube_vars \<Rightarrow> u32 list" where
  "cube_WRITE_STATE = (\<lambda>(x0, x1, x2, x3, x4, x5, x6, x7, x8, x9, xa, xb, xc, xd, xe, xf, xg, xh, xi, xj, xk, xl, xm, xn, xo, xp, xq, xr, xs, xt, xu, xv).
     [x0, x1, x2, x3, x4, x5, x6, x7, x8, x9, xa, xb, xc, xd, xe, xf, xg, xh, xi, xj, xk, xl, xm, xn, xo, xp, xq, xr, xs, xt, xu, xv])"

definition cube_INPUT_BLOCK :: "byte list \<Rightarrow> cube_vars \<Rightarrow> cube_vars" where
  "cube_INPUT_BLOCK buf = (\<lambda>(x0, x1, x2, x3, x4, x5, x6, x7, x8, x9, xa, xb, xc, xd, xe, xf, xg, xh, xi, xj, xk, xl, xm, xn, xo, xp, xq, xr, xs, xt, xu, xv).
    let
      x0 = x0 XOR (sph_dec32le buf 0);
      x1 = x1 XOR (sph_dec32le buf 4);
      x2 = x2 XOR (sph_dec32le buf 8);
      x3 = x3 XOR (sph_dec32le buf 12);
      x4 = x4 XOR (sph_dec32le buf 16);
      x5 = x5 XOR (sph_dec32le buf 20);
      x6 = x6 XOR (sph_dec32le buf 24);
      x7 = x7 XOR (sph_dec32le buf 28)
    in (x0, x1, x2, x3, x4, x5, x6, x7, x8, x9, xa, xb, xc, xd, xe, xf, xg, xh, xi, xj, xk, xl, xm, xn, xo, xp, xq, xr, xs, xt, xu, xv))"

section \<open>Rounds\<close>

definition cube_ROUND_EVEN :: "cube_vars \<Rightarrow> cube_vars" where
  "cube_ROUND_EVEN = (\<lambda>(x0, x1, x2, x3, x4, x5, x6, x7, x8, x9, xa, xb, xc, xd, xe, xf, xg, xh, xi, xj, xk, xl, xm, xn, xo, xp, xq, xr, xs, xt, xu, xv).
    let
      xg = SPH_T32 (x0 + xg);
      x0 = SPH_ROTL32 x0 7;
      xh = SPH_T32 (x1 + xh);
      x1 = SPH_ROTL32 x1 7;
      xi = SPH_T32 (x2 + xi);
      x2 = SPH_ROTL32 x2 7;
      xj = SPH_T32 (x3 + xj);
      x3 = SPH_ROTL32 x3 7;
      xk = SPH_T32 (x4 + xk);
      x4 = SPH_ROTL32 x4 7;
      xl = SPH_T32 (x5 + xl);
      x5 = SPH_ROTL32 x5 7;
      xm = SPH_T32 (x6 + xm);
      x6 = SPH_ROTL32 x6 7;
      xn = SPH_T32 (x7 + xn);
      x7 = SPH_ROTL32 x7 7;
      xo = SPH_T32 (x8 + xo);
      x8 = SPH_ROTL32 x8 7;
      xp = SPH_T32 (x9 + xp);
      x9 = SPH_ROTL32 x9 7;
      xq = SPH_T32 (xa + xq);
      xa = SPH_ROTL32 xa 7;
      xr = SPH_T32 (xb + xr);
      xb = SPH_ROTL32 xb 7;
      xs = SPH_T32 (xc + xs);
      xc = SPH_ROTL32 xc 7;
      xt = SPH_T32 (xd + xt);
      xd = SPH_ROTL32 xd 7;
      xu = SPH_T32 (xe + xu);
      xe = SPH_ROTL32 xe 7;
      xv = SPH_T32 (xf + xv);
      xf = SPH_ROTL32 xf 7;
      x8 = x8 XOR xg;
      x9 = x9 XOR xh;
      xa = xa XOR xi;
      xb = xb XOR xj;
      xc = xc XOR xk;
      xd = xd XOR xl;
      xe = xe XOR xm;
      xf = xf XOR xn;
      x0 = x0 XOR xo;
      x1 = x1 XOR xp;
      x2 = x2 XOR xq;
      x3 = x3 XOR xr;
      x4 = x4 XOR xs;
      x5 = x5 XOR xt;
      x6 = x6 XOR xu;
      x7 = x7 XOR xv;
      xi = SPH_T32 (x8 + xi);
      x8 = SPH_ROTL32 x8 11;
      xj = SPH_T32 (x9 + xj);
      x9 = SPH_ROTL32 x9 11;
      xg = SPH_T32 (xa + xg);
      xa = SPH_ROTL32 xa 11;
      xh = SPH_T32 (xb + xh);
      xb = SPH_ROTL32 xb 11;
      xm = SPH_T32 (xc + xm);
      xc = SPH_ROTL32 xc 11;
      xn = SPH_T32 (xd + xn);
      xd = SPH_ROTL32 xd 11;
      xk = SPH_T32 (xe + xk);
      xe = SPH_ROTL32 xe 11;
      xl = SPH_T32 (xf + xl);
      xf = SPH_ROTL32 xf 11;
      xq = SPH_T32 (x0 + xq);
      x0 = SPH_ROTL32 x0 11;
      xr = SPH_T32 (x1 + xr);
      x1 = SPH_ROTL32 x1 11;
      xo = SPH_T32 (x2 + xo);
      x2 = SPH_ROTL32 x2 11;
      xp = SPH_T32 (x3 + xp);
      x3 = SPH_ROTL32 x3 11;
      xu = SPH_T32 (x4 + xu);
      x4 = SPH_ROTL32 x4 11;
      xv = SPH_T32 (x5 + xv);
      x5 = SPH_ROTL32 x5 11;
      xs = SPH_T32 (x6 + xs);
      x6 = SPH_ROTL32 x6 11;
      xt = SPH_T32 (x7 + xt);
      x7 = SPH_ROTL32 x7 11;
      xc = xc XOR xi;
      xd = xd XOR xj;
      xe = xe XOR xg;
      xf = xf XOR xh;
      x8 = x8 XOR xm;
      x9 = x9 XOR xn;
      xa = xa XOR xk;
      xb = xb XOR xl;
      x4 = x4 XOR xq;
      x5 = x5 XOR xr;
      x6 = x6 XOR xo;
      x7 = x7 XOR xp;
      x0 = x0 XOR xu;
      x1 = x1 XOR xv;
      x2 = x2 XOR xs;
      x3 = x3 XOR xt
    in (x0, x1, x2, x3, x4, x5, x6, x7, x8, x9, xa, xb, xc, xd, xe, xf, xg, xh, xi, xj, xk, xl, xm, xn, xo, xp, xq, xr, xs, xt, xu, xv))"

definition cube_ROUND_ODD :: "cube_vars \<Rightarrow> cube_vars" where
  "cube_ROUND_ODD = (\<lambda>(x0, x1, x2, x3, x4, x5, x6, x7, x8, x9, xa, xb, xc, xd, xe, xf, xg, xh, xi, xj, xk, xl, xm, xn, xo, xp, xq, xr, xs, xt, xu, xv).
    let
      xj = SPH_T32 (xc + xj);
      xc = SPH_ROTL32 xc 7;
      xi = SPH_T32 (xd + xi);
      xd = SPH_ROTL32 xd 7;
      xh = SPH_T32 (xe + xh);
      xe = SPH_ROTL32 xe 7;
      xg = SPH_T32 (xf + xg);
      xf = SPH_ROTL32 xf 7;
      xn = SPH_T32 (x8 + xn);
      x8 = SPH_ROTL32 x8 7;
      xm = SPH_T32 (x9 + xm);
      x9 = SPH_ROTL32 x9 7;
      xl = SPH_T32 (xa + xl);
      xa = SPH_ROTL32 xa 7;
      xk = SPH_T32 (xb + xk);
      xb = SPH_ROTL32 xb 7;
      xr = SPH_T32 (x4 + xr);
      x4 = SPH_ROTL32 x4 7;
      xq = SPH_T32 (x5 + xq);
      x5 = SPH_ROTL32 x5 7;
      xp = SPH_T32 (x6 + xp);
      x6 = SPH_ROTL32 x6 7;
      xo = SPH_T32 (x7 + xo);
      x7 = SPH_ROTL32 x7 7;
      xv = SPH_T32 (x0 + xv);
      x0 = SPH_ROTL32 x0 7;
      xu = SPH_T32 (x1 + xu);
      x1 = SPH_ROTL32 x1 7;
      xt = SPH_T32 (x2 + xt);
      x2 = SPH_ROTL32 x2 7;
      xs = SPH_T32 (x3 + xs);
      x3 = SPH_ROTL32 x3 7;
      x4 = x4 XOR xj;
      x5 = x5 XOR xi;
      x6 = x6 XOR xh;
      x7 = x7 XOR xg;
      x0 = x0 XOR xn;
      x1 = x1 XOR xm;
      x2 = x2 XOR xl;
      x3 = x3 XOR xk;
      xc = xc XOR xr;
      xd = xd XOR xq;
      xe = xe XOR xp;
      xf = xf XOR xo;
      x8 = x8 XOR xv;
      x9 = x9 XOR xu;
      xa = xa XOR xt;
      xb = xb XOR xs;
      xh = SPH_T32 (x4 + xh);
      x4 = SPH_ROTL32 x4 11;
      xg = SPH_T32 (x5 + xg);
      x5 = SPH_ROTL32 x5 11;
      xj = SPH_T32 (x6 + xj);
      x6 = SPH_ROTL32 x6 11;
      xi = SPH_T32 (x7 + xi);
      x7 = SPH_ROTL32 x7 11;
      xl = SPH_T32 (x0 + xl);
      x0 = SPH_ROTL32 x0 11;
      xk = SPH_T32 (x1 + xk);
      x1 = SPH_ROTL32 x1 11;
      xn = SPH_T32 (x2 + xn);
      x2 = SPH_ROTL32 x2 11;
      xm = SPH_T32 (x3 + xm);
      x3 = SPH_ROTL32 x3 11;
      xp = SPH_T32 (xc + xp);
      xc = SPH_ROTL32 xc 11;
      xo = SPH_T32 (xd + xo);
      xd = SPH_ROTL32 xd 11;
      xr = SPH_T32 (xe + xr);
      xe = SPH_ROTL32 xe 11;
      xq = SPH_T32 (xf + xq);
      xf = SPH_ROTL32 xf 11;
      xt = SPH_T32 (x8 + xt);
      x8 = SPH_ROTL32 x8 11;
      xs = SPH_T32 (x9 + xs);
      x9 = SPH_ROTL32 x9 11;
      xv = SPH_T32 (xa + xv);
      xa = SPH_ROTL32 xa 11;
      xu = SPH_T32 (xb + xu);
      xb = SPH_ROTL32 xb 11;
      x0 = x0 XOR xh;
      x1 = x1 XOR xg;
      x2 = x2 XOR xj;
      x3 = x3 XOR xi;
      x4 = x4 XOR xl;
      x5 = x5 XOR xk;
      x6 = x6 XOR xn;
      x7 = x7 XOR xm;
      x8 = x8 XOR xp;
      x9 = x9 XOR xo;
      xa = xa XOR xr;
      xb = xb XOR xq;
      xc = xc XOR xt;
      xd = xd XOR xs;
      xe = xe XOR xv;
      xf = xf XOR xu
    in (x0, x1, x2, x3, x4, x5, x6, x7, x8, x9, xa, xb, xc, xd, xe, xf, xg, xh, xi, xj, xk, xl, xm, xn, xo, xp, xq, xr, xs, xt, xu, xv))"

definition cube_SIXTEEN_ROUNDS :: "cube_vars \<Rightarrow> cube_vars" where
  "cube_SIXTEEN_ROUNDS x =
    (let x = cube_ROUND_EVEN x; x = cube_ROUND_ODD x;
         x = cube_ROUND_EVEN x; x = cube_ROUND_ODD x;
         x = cube_ROUND_EVEN x; x = cube_ROUND_ODD x;
         x = cube_ROUND_EVEN x; x = cube_ROUND_ODD x;
         x = cube_ROUND_EVEN x; x = cube_ROUND_ODD x;
         x = cube_ROUND_EVEN x; x = cube_ROUND_ODD x;
         x = cube_ROUND_EVEN x; x = cube_ROUND_ODD x;
         x = cube_ROUND_EVEN x; x = cube_ROUND_ODD x
     in x)"

section \<open>Context operations\<close>

definition cubehash_init :: "sph_cubehash_context \<Rightarrow> u32 list \<Rightarrow> sph_cubehash_context" where
  "cubehash_init sc iv = sc\<lparr>cube_state := iv, cube_ptr := 0\<rparr>"

definition cube_block :: "byte list \<Rightarrow> cube_vars \<Rightarrow> cube_vars" where
  "cube_block buf x = cube_SIXTEEN_ROUNDS (cube_INPUT_BLOCK buf x)"

definition cubehash_core :: "sph_cubehash_context \<Rightarrow> byte list \<Rightarrow> sph_cubehash_context result" where
  "cubehash_core sc data =
    (let buf = cube_buf sc; ptr = cube_ptr sc in
     if length data < 32 - ptr then
       Inr (sc\<lparr>cube_buf := memcpy_at buf ptr data, cube_ptr := ptr + length data\<rparr>)
     else
       bindE (core_loop 32 cube_block buf ptr (cube_READ_STATE (cube_state sc)) data) (\<lambda>(buf, ptr, x).
       Inr (sc\<lparr>cube_buf := buf, cube_ptr := ptr, cube_state := cube_WRITE_STATE x\<rparr>)))"

text \<open>The eleven times sixteen final rounds, with one bit flipped after the first sixteen.\<close>

definition cube_flip :: "cube_vars \<Rightarrow> cube_vars" where
  "cube_flip = (\<lambda>(x0, x1, x2, x3, x4, x5, x6, x7, x8, x9, xa, xb, xc, xd, xe, xf, xg, xh, xi, xj, xk, xl, xm, xn, xo, xp, xq, xr, xs, xt, xu, xv).
    let xv = xv XOR 1
    in (x0, x1, x2, x3, x4, x5, x6, x7, x8, x9, xa, xb, xc, xd, xe, xf, xg, xh, xi, xj, xk, xl, xm, xn, xo, xp, xq, xr, xs, xt, xu, xv))"

definition cube_final :: "cube_vars \<Rightarrow> cube_vars" where
  "cube_final x = fold (\<lambda>i x. let x = cube_SIXTEEN_ROUNDS x in if i = 0 then cube_flip x else x) [0..<11] x"

definition cubehash_close :: "sph_cubehash_context \<Rightarrow> u32 \<Rightarrow> nat \<Rightarrow> nat \<Rightarrow> (byte list \<times> sph_cubehash_context) result" where
  "cubehash_close sc ub n out_size_w32 =
    (let buf = cube_buf sc; ptr = cube_ptr sc in
     bindE (guardE (ptr < length buf) OutOfBounds) (\<lambda>_.
     let buf = buf[ptr := pad_byte ub n];
         ptr = ptr + 1;
         buf = memcpy_at buf ptr (replicate (32 - ptr) 0);
         x = cube_READ_STATE (cube_state sc);
         x = cube_INPUT_BLOCK buf x;
         x = cube_final x;
         sc = sc\<lparr>cube_buf := buf, cube_state := cube_WRITE_STATE x\<rparr>
     in Inr (concat (map (\<lambda>z. sph_enc32le (cube_state sc ! z)) [0..<out_size_w32]), sc)))"

definition sph_cubehash224_init :: "sph_cubehash_context \<Rightarrow> sph_cubehash_context" where
  "sph_cubehash224_init cc = cubehash_init cc cubehash_IV224"

definition sph_cubehash224 :: "sph_cubehash_context \<Rightarrow> byte list \<Rightarrow> sph_cubehash_context result" where
  "sph_cubehash224 cc data = cubehash_core cc data"

definition sph_cubehash224_addbits_and_close ::
    "sph_cubehash_context \<Rightarrow> u32 \<Rightarrow> nat \<Rightarrow> (byte list \<times> sph_cubehash_context) result" where
  "sph_cubehash224_addbits_and_close cc ub n =
     bindE (cubehash_close cc ub n 7) (\<lambda>(dst, cc). Inr (dst, sph_cubehash224_init cc))"

definition sph_cubehash224_close :: "sph_cubehash_context \<Rightarrow> (byte list \<times> sph_cubehash_context) result" where
  "sph_cubehash224_close cc = sph_cubehash224_addbits_and_close cc 0 0"

definition sph_cubehash256_init :: "sph_cubehash_context \<Rightarrow> sph_cubehash_context" where
  "sph_cubehash256_init cc = cubehash_init cc cubehash_IV256"

definition sph_cubehash256 :: "sph_cubehash_context \<Rightarrow> byte list \<Rightarrow> sph_cubehash_context result" where
  "sph_cubehash256 cc data = cubehash_core cc data"

definition sph_cubehash256_addbits_and_close ::
    "sph_cubehash_context \<Rightarrow> u32 \<Rightarrow> nat \<Rightarrow> (byte list \<times> sph_cubehash_context) result" where
  "sph_cubehash256_addbits_and_close cc ub n =
     bindE (cubehash_close cc ub n 8) (\<lambda>(dst, cc). Inr (dst, sph_cubehash256_init cc))"

definition sph_cubehash256_close :: "sph_cubehash_context \<Rightarrow> (byte list \<times> sph_cubehash_context) result" where
  "sph_cubehash256_close cc = sph_cubehash256_addbits_and_close cc 0 0"

definition sph_cubehash384_init :: "sph_cubehash_context \<Rightarrow> sph_cubehash_context" where
  "sph_cubehash384_init cc = cubehash_init cc cubehash_IV384"

definition sph_cubehash384 :: "sph_cubehash_context \<Rightarrow> byte list \<Rightarrow> sph_cubehash_context result" where
  "sph_cubehash384 cc data = cubehash_core cc data"

definition sph_cubehash384_addbits_and_close ::
    "sph_cubehash_context \<Rightarrow> u32 \<Rightarrow> nat \<Rightarrow> (byte list \<times> sph_cubehash_context) result" where
  "sph_cubehash384_addbits_and_close cc ub n =
     bindE (cubehash_close cc ub n 12) (\<lambda>(dst, cc). Inr (dst, sph_cubehash384_init cc))"

definition sph_cubehash384_close :: "sph_cubehash_context \<Rightarrow> (byte list \<times> sph_cubehash_context) result" where
  "sph_cubehash384_close cc = sph_cubehash384_addbits_and_close cc 0 0"

definition sph_cubehash512_init :: "sph_cubehash_context \<Rightarrow> sph_cubehash_context" where
  "sph_cubehash512_init cc = cubehash_init cc cubehash_IV512"

definition sph_cubehash512 :: "sph_cubehash_context \<Rightarrow> byte list \<Rightarrow> sph_cubehash_context result" where
  "sph_cubehash512 cc data = cubehash_core cc data"

definition sph_cubehash512_addbits_and_close ::
    "sph_cubehash_context \<Rightarrow> u32 \<Rightarrow> nat \<Rightarrow> (byte list \<times> sph_cubehash_context) result" where
  "sph_cubehash512_addbits_and_close cc ub n =
     bindE (cubehash_close cc ub n 16) (\<lambda>(dst, cc). Inr (dst, sph_cubehash512_init cc))"

definition sph_cubehash512_close :: "sph_cubehash_context \<Rightarrow> (byte list \<times> sph_cubehash_context) result" where
  "sph_cubehash512_close cc = sph_cubehash512_addbits_and_close cc 0 0"

section \<open>The streaming contract\<close>

definition cube_ok :: "sph_cubehash_context \<Rightarrow> bool" where
  "cube_ok c \<longleftrightarrow> length (cube_buf c) = 32 \<and> cube_ptr c < 32 \<and> length (cube_state c) = 32"

definition cube_mem :: "sph_cubehash_context \<Rightarrow> bool" where
  "cube_mem c \<longleftrightarrow> length (cube_buf c) = 32"

definition cube_abs :: "sph_cubehash_context \<Rightarrow> cube_vars \<times> byte list" where
  "cube_abs c = (cube_READ_STATE (cube_state c), take (cube_ptr c) (cube_buf c))"

lemma cube_READ_WRITE [simp]: "cube_READ_STATE (cube_WRITE_STATE x) = x"
  by (simp add: cube_READ_STATE_def cube_WRITE_STATE_def case_prod_unfold)

lemma length_cube_WRITE [simp]: "length (cube_WRITE_STATE x) = 32"
  by (simp add: cube_WRITE_STATE_def case_prod_unfold)

lemma cubehash_core_absorb:
  assumes "cube_ok c"
  shows "\<exists>c'. cubehash_core c d = Inr c' \<and> cube_ok c'
    \<and> cube_abs c' = absorb 32 cube_block (fst (cube_abs c)) (snd (cube_abs c) @ d)"
proof (cases "length d < 32 - cube_ptr c")
  case True
  then show ?thesis
    using assms take_memcpy_at [of "cube_ptr c" "cube_buf c" d]
    by (simp add: cubehash_core_def cube_ok_def cube_abs_def absorb_short Let_def)
next
  case False
  from assms have "cube_ptr c < 32" and "length (cube_buf c) = 32" by (simp_all add: cube_ok_def)
  from core_loop_absorb [OF this, of cube_block "cube_READ_STATE (cube_state c)" d]
  obtain buf' ptr' s' where "core_loop 32 cube_block (cube_buf c) (cube_ptr c) (cube_READ_STATE (cube_state c)) d
      = Inr (buf', ptr', s')" "length buf' = 32" "ptr' < 32"
    "absorb 32 cube_block (cube_READ_STATE (cube_state c)) (take (cube_ptr c) (cube_buf c) @ d) = (s', take ptr' buf')"
    by blast
  with False show ?thesis by (simp add: cubehash_core_def cube_ok_def cube_abs_def)
qed

text \<open>The digest as a function of the chaining state and the pending bytes.\<close>

definition cube_digest :: "nat \<Rightarrow> cube_vars \<Rightarrow> byte list \<Rightarrow> byte list" where
  "cube_digest w x r =
     concat (map (\<lambda>z. sph_enc32le (cube_WRITE_STATE (cube_final
       (cube_INPUT_BLOCK (r @ [0x80] @ replicate (31 - length r) 0) x)) ! z)) [0..<w])"

lemma cubehash_close_digest:
  assumes "cube_ok c"
  shows "\<exists>c'. cubehash_close c 0 0 w = Inr (cube_digest w (fst (cube_abs c)) (snd (cube_abs c)), c') \<and> cube_mem c'"
proof -
  let ?p = "cube_ptr c" and ?b = "cube_buf c"
  have p: "?p < 32" "length ?b = 32" using assms by (simp_all add: cube_ok_def)
  have "memcpy_at (?b[?p := 0x80]) (?p + 1) (replicate (32 - (?p + 1)) 0)
      = take ?p ?b @ [0x80] @ replicate (31 - ?p) 0"
    using p by (simp add: memcpy_at_def take_nth_Suc)
  with p show ?thesis
    by (simp add: cubehash_close_def Let_def cube_digest_def cube_abs_def cube_mem_def min_def)
qed

lemmas cube_init_defs = cubehash_init_def cube_ok_def cube_abs_def cube_mem_def

interpretation cube224: sph_hash 32 cube_block cube_ok cube_abs sph_cubehash224 cube_mem
  "cube_READ_STATE cubehash_IV224" sph_cubehash224_init sph_cubehash224_close "cube_digest 7"
proof
  fix c d assume "cube_ok c"
  then show "\<exists>c'. sph_cubehash224 c d = Inr c' \<and> cube_ok c'
    \<and> cube_abs c' = absorb 32 cube_block (fst (cube_abs c)) (snd (cube_abs c) @ d)"
    unfolding sph_cubehash224_def by (rule cubehash_core_absorb)
next
  fix c assume "cube_ok c"
  from cubehash_close_digest [OF this, of 7]
  show "\<exists>c'. sph_cubehash224_close c = Inr (cube_digest 7 (fst (cube_abs c)) (snd (cube_abs c)), c')
    \<and> cube_ok c' \<and> cube_abs c' = (cube_READ_STATE cubehash_IV224, [])"
    by (auto simp: sph_cubehash224_close_def sph_cubehash224_addbits_and_close_def
        sph_cubehash224_init_def cubehash_IV224_def cube_init_defs)
qed (simp_all add: sph_cubehash224_init_def cube_init_defs cubehash_IV224_def)

interpretation cube256: sph_hash 32 cube_block cube_ok cube_abs sph_cubehash256 cube_mem
  "cube_READ_STATE cubehash_IV256" sph_cubehash256_init sph_cubehash256_close "cube_digest 8"
proof
  fix c d assume "cube_ok c"
  then show "\<exists>c'. sph_cubehash256 c d = Inr c' \<and> cube_ok c'
    \<and> cube_abs c' = absorb 32 cube_block (fst (cube_abs c)) (snd (cube_abs c) @ d)"
    unfolding sph_cubehash256_def by (rule cubehash_core_absorb)
next
  fix c assume "cube_ok c"
  from cubehash_close_digest [OF this, of 8]
  show "\<exists>c'. sph_cubehash256_close c = Inr (cube_digest 8 (fst (cube_abs c)) (snd (cube_abs c)), c')
    \<and> cube_ok c' \<and> cube_abs c' = (cube_READ_STATE cubehash_IV256, [])"
    by (auto simp: sph_cubehash256_close_def sph_cubehash256_addbits_and_close_def
        sph_cubehash256_init_def cubehash_IV256_def cube_init_defs)
qed (simp_all add: sph_cubehash256_init_def cube_init_defs cubehash_IV256_def)

interpretation cube384: sph_hash 32 cube_block cube_ok cube_abs sph_cubehash384 cube_mem
  "cube_READ_STATE cubehash_IV384" sph_cubehash384_init sph_cubehash384_close "cube_digest 12"
proof
  fix c d assume "cube_ok c"
  then show "\<exists>c'. sph_cubehash384 c d = Inr c' \<and> cube_ok c'
    \<and> cube_abs c' = absorb 32 cube_block (fst (cube_abs c)) (snd (cube_abs c) @ d)"
    unfolding sph_cubehash384_def by (rule cubehash_core_absorb)
next
  fix c assume "cube_ok c"
  from cubehash_close_digest [OF this, of 12]
  show "\<exists>c'. sph_cubehash384_close c = Inr (cube_digest 12 (fst (cube_abs c)) (snd (cube_abs c)), c')
    \<and> cube_ok c' \<and> cube_abs c' = (cube_READ_STATE cubehash_IV384, [])"
    by (auto simp: sph_cubehash384_close_def sph_cubehash384_addbits_and_close_def
        sph_cubehash384_init_def cubehash_IV384_def cube_init_defs)
qed (simp_all add: sph_cubehash384_init_def cube_init_defs cubehash_IV384_def)

interpretation cube512: sph_hash 32 cube_block cube_ok cube_abs sph_cubehash512 cube_mem
  "cube_READ_STATE cubehash_IV512" sph_cubehash512_init sph_cubehash512_close "cube_digest 16"
proof
  fix c d assume "cube_ok c"
  then show "\<exists>c'. sph_cubehash512 c d = Inr c' \<and> cube_ok c'
    \<and> cube_abs c' = absorb 32 cube_block (fst (cube_abs c)) (snd (cube_abs c) @ d)"
    unfolding sph_cubehash512_def by (rule cubehash_core_absorb)
next
  fix c assume "cube_ok c"
  from cubehash_close_digest [OF this, of 16]
  show "\<exists>c'. sph_cubehash512_close c = Inr (cube_digest 16 (fst (cube_abs c)) (snd (cube_abs c)), c')
    \<and> cube_ok c' \<and> cube_abs c' = (cube_READ_STATE cubehash_IV512, [])"
    by (auto simp: sph_cubehash512_close_def sph_cubehash512_addbits_and_close_def
        sph_cubehash512_init_def cubehash_IV512_def cube_init_defs)
qed (simp_all add: sph_cubehash512_init_def cube_init_defs cubehash_IV512_def)

section \<open>The published round\<close>

text \<open>
  One round of CubeHash as its specification gives it, on an array of 32 words indexed from 0: add,
  rotate by 7, swap, xor, swap, add, rotate by 11, swap, xor, swap.
\<close>

definition cube_add :: "(nat \<Rightarrow> u32) \<Rightarrow> nat \<Rightarrow> u32" where
  "cube_add x i = (if i < 16 then x i else x (i - 16) + x i)"

definition cube_rot :: "nat \<Rightarrow> (nat \<Rightarrow> u32) \<Rightarrow> nat \<Rightarrow> u32" where
  "cube_rot k x i = (if i < 16 then word_rotl k (x i) else x i)"

definition cube_xor :: "(nat \<Rightarrow> u32) \<Rightarrow> nat \<Rightarrow> u32" where
  "cube_xor x i = (if i < 16 then x i XOR x (i + 16) else x i)"

text \<open>Swapping the words whose indices differ in one bit, among the low or the high half.\<close>

definition swap_bit :: "nat \<Rightarrow> nat \<Rightarrow> nat" where
  "swap_bit m i = (if even (i div m) then i + m else i - m)"

definition cube_swap_low :: "nat \<Rightarrow> (nat \<Rightarrow> u32) \<Rightarrow> nat \<Rightarrow> u32" where
  "cube_swap_low m x i = (if i < 16 then x (swap_bit m i) else x i)"

definition cube_swap_high :: "nat \<Rightarrow> (nat \<Rightarrow> u32) \<Rightarrow> nat \<Rightarrow> u32" where
  "cube_swap_high m x i = (if i < 16 then x i else x (swap_bit m (i - 16) + 16))"

definition cube_round :: "(nat \<Rightarrow> u32) \<Rightarrow> nat \<Rightarrow> u32" where
  "cube_round x = cube_swap_high 1 (cube_xor (cube_swap_low 4 (cube_rot 11 (cube_add
     (cube_swap_high 2 (cube_xor (cube_swap_low 8 (cube_rot 7 (cube_add x)))))))))"

lemmas cube_round_defs = cube_add_def cube_rot_def cube_xor_def cube_swap_low_def cube_swap_high_def swap_bit_def

definition cube_array :: "cube_vars \<Rightarrow> nat \<Rightarrow> u32" where
  "cube_array x i = cube_WRITE_STATE x ! i"

lemma cube_rotl: "SPH_ROTL32 x 7 = word_rotl 7 x" "SPH_ROTL32 x 11 = word_rotl 11 x"
  by (simp_all add: sph_simps)

text \<open>The unrolled rounds leave the swaps to the names of the variables: after an even round, word \<open>i\<close> of the
  array is in variable \<open>cube_perm i\<close>, and an odd round starts from that arrangement.\<close>

definition cube_perm :: "nat \<Rightarrow> nat" where
  "cube_perm i = (if i < 16 then swap_bit 8 (swap_bit 4 i) else swap_bit 2 (swap_bit 1 (i - 16)) + 16)"

lemma cube_vars_cases:
  obtains x0 x1 x2 x3 x4 x5 x6 x7 x8 x9 xa xb xc xd xe xf xg xh xi xj xk xl xm xn xo xp xq xr xs xt xu xv
    where "x = (x0, x1, x2, x3, x4, x5, x6, x7, x8, x9, xa, xb, xc, xd, xe, xf, xg, xh, xi, xj, xk, xl, xm, xn, xo, xp, xq, xr, xs, xt, xu, xv)"
  by (metis prod.exhaust)

lemma upt_32: "[0..<32] = [0, 1, 2, 3, 4, 5, 6, 7, 8, 9, 10, 11, 12, 13, 14, 15, 16, 17, 18, 19, 20, 21, 22, 23,
    24, 25, 26, 27, 28, 29, 30, 31]"
  by (simp add: upt_rec)

lemma cube_even_round:
  "map (\<lambda>i. cube_array (cube_ROUND_EVEN x) (cube_perm i)) [0..<32] = map (cube_round (cube_array x)) [0..<32]"
  by (rule cube_vars_cases [of x])
    (simp add: upt_32 cube_perm_def cube_round_def cube_round_defs cube_array_def cube_WRITE_STATE_def
      cube_ROUND_EVEN_def Let_def cube_rotl)

lemma cube_odd_round:
  "map (cube_array (cube_ROUND_ODD x)) [0..<32] = map (cube_round (\<lambda>i. cube_array x (cube_perm i))) [0..<32]"
  by (rule cube_vars_cases [of x])
    (simp add: upt_32 cube_perm_def cube_round_def cube_round_defs cube_array_def cube_WRITE_STATE_def
      cube_ROUND_ODD_def Let_def cube_rotl)

lemma swap_bit_lt: "i < 16 \<Longrightarrow> m \<in> {1, 2, 4, 8} \<Longrightarrow> swap_bit m i < 16"
  by (auto simp: swap_bit_def) presburger+

lemma swap_bit_idem:
  assumes "0 < m"
  shows "swap_bit m (swap_bit m i) = i"
proof (cases "even (i div m)")
  case False
  then have "m \<le> i" by (metis div_less even_zero not_le)
  with assms False have "even ((i - m) div m)" by (simp add: le_div_geq)
  with False \<open>m \<le> i\<close> show ?thesis by (simp add: swap_bit_def)
qed (use assms in \<open>simp add: swap_bit_def div_add_self2\<close>)

text \<open>Arrays that agree on the 32 words.\<close>

definition eq32 :: "(nat \<Rightarrow> u32) \<Rightarrow> (nat \<Rightarrow> u32) \<Rightarrow> bool" where
  "eq32 f g \<longleftrightarrow> (\<forall>i < 32. f i = g i)"

lemma eq32_map: "eq32 f g \<longleftrightarrow> map f [0..<32] = map g [0..<32]"
  by (auto simp: eq32_def)

lemma eq32_halves: "eq32 f g \<longleftrightarrow> (\<forall>i < 16. f i = g i) \<and> (\<forall>i < 16. f (i + 16) = g (i + 16))"
proof -
  have "f j = g j" if "\<forall>i < 16. f i = g i" "\<forall>i < 16. f (i + 16) = g (i + 16)" "j < 32" for j
    using that(1,3) spec [OF that(2), of "j - 16"] by (cases "j < 16") simp_all
  then show ?thesis by (auto simp: eq32_def)
qed

lemma word_rotl_inj [simp]: "word_rotl k x = word_rotl k y \<longleftrightarrow> x = y"
  by (metis word_rot_lr)

lemma xor_right_cancel [simp]: "(x :: u32) XOR z = y XOR z \<longleftrightarrow> x = y"
  by (metis xor.assoc xor.right_neutral xor_self_eq)

lemma eq32_steps:
  "eq32 (cube_add f) (cube_add g) \<longleftrightarrow> eq32 f g"
  "eq32 (cube_rot k f) (cube_rot k g) \<longleftrightarrow> eq32 f g"
  "eq32 (cube_xor f) (cube_xor g) \<longleftrightarrow> eq32 f g"
  by (auto simp: eq32_halves cube_add_def cube_rot_def cube_xor_def)

lemma all_swap: "m \<in> {1, 2, 4, 8} \<Longrightarrow> (\<forall>i < 16. P (swap_bit m i)) \<longleftrightarrow> (\<forall>i < 16. P i)"
proof -
  assume m: "m \<in> {1, 2, 4, 8}"
  then have "swap_bit m (swap_bit m i) = i" for i by (intro swap_bit_idem) auto
  with swap_bit_lt [OF _ m] show "(\<forall>i < 16. P (swap_bit m i)) \<longleftrightarrow> (\<forall>i < 16. P i)" by metis
qed

lemma eq32_swaps:
  assumes "m \<in> {1, 2, 4, 8}"
  shows "eq32 (cube_swap_low m f) (cube_swap_low m g) \<longleftrightarrow> eq32 f g"
    and "eq32 (cube_swap_high m f) (cube_swap_high m g) \<longleftrightarrow> eq32 f g"
  using all_swap [OF assms, of "\<lambda>i. f i = g i"] all_swap [OF assms, of "\<lambda>i. f (i + 16) = g (i + 16)"]
  by (auto simp: eq32_halves cube_swap_low_def cube_swap_high_def)

lemma cube_round_eq32: "eq32 (cube_round f) (cube_round g) \<longleftrightarrow> eq32 f g"
  by (simp add: cube_round_def eq32_steps eq32_swaps)

lemma cube_array_list: "map (cube_array z) [0..<32] = cube_WRITE_STATE z"
proof -
  have "cube_array z = (!) (cube_WRITE_STATE z)" by (rule ext) (simp only: cube_array_def)
  then show ?thesis using map_nth [of "cube_WRITE_STATE z"] by (simp only: length_cube_WRITE)
qed

lemma cube_array_eq32: "eq32 (cube_array x) (cube_array y) \<longleftrightarrow> x = y"
  unfolding eq32_map cube_array_list by (metis cube_READ_WRITE)

lemma eq32_sym: "eq32 f g \<Longrightarrow> eq32 g f" and eq32_trans: "eq32 f g \<Longrightarrow> eq32 g h \<Longrightarrow> eq32 f h"
  by (auto simp: eq32_def)

lemma cube_two_rounds_ref:
  "eq32 (cube_array (cube_ROUND_ODD (cube_ROUND_EVEN x))) (cube_round (cube_round (cube_array x)))"
proof -
  let ?y = "cube_ROUND_EVEN x"
  have "eq32 (cube_array (cube_ROUND_ODD ?y)) (cube_round (\<lambda>i. cube_array ?y (cube_perm i)))"
    unfolding eq32_map by (rule cube_odd_round)
  moreover have "eq32 (\<lambda>i. cube_array ?y (cube_perm i)) (cube_round (cube_array x))"
    unfolding eq32_map by (rule cube_even_round)
  ultimately show ?thesis using cube_round_eq32 eq32_trans by blast
qed

lemma cube_two_rounds_inj:
  "cube_ROUND_ODD (cube_ROUND_EVEN x) = cube_ROUND_ODD (cube_ROUND_EVEN y) \<longleftrightarrow> x = y"
  using cube_two_rounds_ref [of x] cube_two_rounds_ref [of y]
  by (metis cube_array_eq32 cube_round_eq32 eq32_sym eq32_trans)

lemma cube_SIXTEEN_ROUNDS_funpow:
  "cube_SIXTEEN_ROUNDS x = ((\<lambda>x. cube_ROUND_ODD (cube_ROUND_EVEN x)) ^^ 8) x"
  by (simp add: cube_SIXTEEN_ROUNDS_def eval_nat_numeral Let_def)

lemma cube_SIXTEEN_ROUNDS_ref:
  "eq32 (cube_array (cube_SIXTEEN_ROUNDS x)) ((cube_round ^^ 16) (cube_array x))"
proof -
  let ?two = "\<lambda>x. cube_ROUND_ODD (cube_ROUND_EVEN x)"
  have "eq32 (cube_array ((?two ^^ n) x)) ((cube_round ^^ (2 * n)) (cube_array x))" for n
  proof (induction n)
    case (Suc n)
    then have "eq32 (cube_round (cube_round (cube_array ((?two ^^ n) x)))) ((cube_round ^^ (2 * Suc n)) (cube_array x))"
      by (simp add: cube_round_eq32)
    from eq32_trans [OF cube_two_rounds_ref this] show ?case by (simp only: funpow.simps o_apply)
  qed (simp add: eq32_def)
  moreover have "(16 :: nat) = 2 * 8" by simp
  ultimately show ?thesis unfolding cube_SIXTEEN_ROUNDS_funpow by (simp only:)
qed

text \<open>C20: The sixteen unrolled rounds compute sixteen rounds of CubeHash as published.\<close>

theorem cube_sixteen_rounds_correct:
  "cube_WRITE_STATE (cube_SIXTEEN_ROUNDS (cube_READ_STATE st))
     = map ((cube_round ^^ 16) (cube_array (cube_READ_STATE st))) [0..<32]"
  using cube_SIXTEEN_ROUNDS_ref [of "cube_READ_STATE st"] unfolding eq32_map cube_array_list .

text \<open>The sixteen rounds are a permutation of the state: no two states are merged between input blocks.\<close>

lemma cube_sixteen_rounds_bij: "bij cube_SIXTEEN_ROUNDS"
proof (rule bijI)
  let ?two = "\<lambda>x. cube_ROUND_ODD (cube_ROUND_EVEN x)"
  have "inj ?two" by (rule injI) (simp only: cube_two_rounds_inj)
  then have "inj (?two ^^ 8)" by (rule inj_fn)
  moreover have "cube_SIXTEEN_ROUNDS = ?two ^^ 8" by (rule ext) (rule cube_SIXTEEN_ROUNDS_funpow)
  ultimately show i: "inj cube_SIXTEEN_ROUNDS" by (simp only:)
  show "surj cube_SIXTEEN_ROUNDS" by (rule finite_UNIV_inj_surj [OF _ i]) (rule finite_class.finite_UNIV)
qed

section \<open>Digests\<close>

text \<open>C21: CubeHash-512 of a message handed over in pieces is one function of the concatenated pieces, whatever
  the context held before, and closing leaves a context that is ready for the next message.\<close>

theorem cubehash512_chunks:
  assumes "cube_mem c"
  shows "\<exists>c'. bindE (foldE (\<lambda>d c. sph_cubehash512 c d) ds (sph_cubehash512_init c)) sph_cubehash512_close
     = Inr (case absorb 32 cube_block (cube_READ_STATE cubehash_IV512) (concat ds) of (x, r) \<Rightarrow> cube_digest 16 x r, c')
    \<and> cube_ok c' \<and> cube_abs c' = (cube_READ_STATE cubehash_IV512, [])"
  using cube512.hash_chunks [OF assms] unfolding cube512.hash_of_def .

theorem cubehash512_chunks_witness:
  "\<exists>c'. bindE (foldE (\<lambda>d c. sph_cubehash512 c d) [[1, 2], [3]]
        (sph_cubehash512_init \<lparr>cube_buf = replicate 32 0, cube_ptr = 0, cube_state = []\<rparr>)) sph_cubehash512_close
     = Inr (case absorb 32 cube_block (cube_READ_STATE cubehash_IV512) (concat [[1, 2], [3]]) of (x, r) \<Rightarrow> cube_digest 16 x r, c')
    \<and> cube_ok c' \<and> cube_abs c' = (cube_READ_STATE cubehash_IV512, [])"
  by (rule cubehash512_chunks) (simp add: cube_mem_def)

end
