(* ===== verification/Blake_Spec.thy ===== *)
theory Blake_Spec
  imports Sph_Stream
begin

text \<open>
  The iteration mode of BLAKE, for both word sizes: padding and bit counters as the specification gives
  them, and the way the code produces them. The locale \<open>blake_mode\<close> states what the code's block function
  does with its counter, and derives that the code's final step completes the specified chain.
\<close>

section \<open>Specification\<close>

text \<open>The marker bit, zeros, and the flag bit of the full-length variants, in \<open>k\<close> bytes.\<close>

definition blake_marker :: "bool \<Rightarrow> nat \<Rightarrow> byte list" where
  "blake_marker flag k = (let v = 0x80 # replicate (k - 1) 0 in if flag then v[k - 1 := v ! (k - 1) OR 1] else v)"

definition blake_padding :: "nat \<Rightarrow> nat \<Rightarrow> ('w::len word \<Rightarrow> byte list) \<Rightarrow> bool \<Rightarrow> byte list \<Rightarrow> byte list" where
  "blake_padding B W enc flag m =
     (let p = length m mod B; k = (if p + 1 \<le> B - 2 * W then B - 2 * W - p else 2 * B - 2 * W - p)
      in m @ blake_marker flag k @ enc (of_nat (8 * length m div 2 ^ LENGTH('w))) @ enc (of_nat (8 * length m)))"

text \<open>The counter of block \<open>i\<close>: the message bits hashed so far, or 0 in a block without message bits.\<close>

definition blake_counter :: "nat \<Rightarrow> byte list \<Rightarrow> nat \<Rightarrow> nat" where
  "blake_counter B m i = (if B * i < length m then min (8 * length m) (8 * B * (i + 1)) else 0)"

definition blake_chain :: "(byte list \<Rightarrow> 'w::len word list \<times> 'w word list \<times> 'w word \<times> 'w word \<Rightarrow> 'w word list)
    \<Rightarrow> 'w word list \<Rightarrow> (nat \<times> byte list) list \<Rightarrow> 'w word list \<Rightarrow> 'w word list" where
  "blake_chain compress S xs H =
     fold (\<lambda>(t, b) H. compress b (H, S, of_nat t, of_nat (t div 2 ^ LENGTH('w)))) xs H"

definition blake_spec :: "nat \<Rightarrow> nat \<Rightarrow> ('w::len word \<Rightarrow> byte list)
    \<Rightarrow> (byte list \<Rightarrow> 'w word list \<times> 'w word list \<times> 'w word \<times> 'w word \<Rightarrow> 'w word list)
    \<Rightarrow> bool \<Rightarrow> 'w word list \<Rightarrow> 'w word list \<Rightarrow> byte list \<Rightarrow> 'w word list" where
  "blake_spec B W enc compress flag S iv m =
     (let p = blake_padding B W enc flag m in
      blake_chain compress S (map (\<lambda>i. (blake_counter B m i, take B (drop (B * i) p))) [0..<length p div B]) iv)"

section \<open>The final step of the code\<close>

definition blake_final :: "nat \<Rightarrow> nat \<Rightarrow> ('w::len word \<Rightarrow> byte list)
    \<Rightarrow> (byte list \<Rightarrow> 'w word list \<times> 'w word list \<times> 'w word \<times> 'w word \<Rightarrow> 'w word list \<times> 'w word list \<times> 'w word \<times> 'w word)
    \<Rightarrow> bool \<Rightarrow> 'w word list \<times> 'w word list \<times> 'w word \<times> 'w word \<Rightarrow> byte list \<Rightarrow> 'w word list" where
  "blake_final B W enc block flag st r =
     (case st of (H, S, T0, T1) \<Rightarrow>
      let bl = of_nat (8 * length r); D = of_nat (8 * B);
          len = enc T1 @ enc (T0 + bl);
          (A0, A1) = (if r = [] then (- D, - 1) else if T0 = 0 then (- D + bl, T1 - 1) else (T0 - (D - bl), T1))
      in if length r + 1 \<le> B - 2 * W
         then fst (block (r @ blake_marker flag (B - 2 * W - length r) @ len) (H, S, A0, A1))
         else case block (r @ 0x80 # replicate (B - 1 - length r) 0) (H, S, A0, A1) of (H, S, _, _) \<Rightarrow>
           fst (block (replicate (B - 2 * W - 1) 0 @ [if flag then 1 else 0] @ len) (H, S, - D, - 1)))"

lemma length_blake_marker [simp]:
  assumes "0 < k"
  shows "length (blake_marker flag k) = k"
  using assms unfolding blake_marker_def Let_def by (simp del: list_update.simps)

text \<open>A long marker covers the end of one block and the start of the next.\<close>

lemma blake_marker_split:
  "blake_marker flag (Suc a + Suc b) = (0x80 # replicate a 0) @ replicate b 0 @ [if flag then 1 else 0]"
proof -
  have "(replicate (Suc n) (0 :: byte))[n := x] = replicate n 0 @ [x]" for n x
    by (induction n) simp_all
  moreover have "replicate (a + b) x @ y = replicate a x @ replicate b x @ y" for x :: byte and y
    by (simp add: replicate_add)
  moreover have "replicate (a + b) (0 :: byte) @ [0] = replicate (Suc (a + b)) 0"
    by (simp add: replicate_append_same)
  ultimately show ?thesis by (simp add: blake_marker_def Let_def replicate_add del: replicate_Suc)
qed

section \<open>The final buffer\<close>

lemma memcpy_at_zeros: "length u = B \<Longrightarrow> p < B \<Longrightarrow> p + k < B \<Longrightarrow> u = (replicate B 0)[p := x] \<Longrightarrow>
    memcpy_at u (p + 1) (replicate k 0) = u"
  by (auto simp: memcpy_at_def list_eq_iff_nth_eq nth_append nth_list_update nth_Cons split: nat.splits)

lemma memcpy_at_two:
  "a + length x + length y = length u \<Longrightarrow> memcpy_at (memcpy_at u a x) (a + length x) y = take a u @ x @ y"
  by (simp add: memcpy_at_def)

lemma drop_marked: "p < a \<Longrightarrow> a \<le> B \<Longrightarrow> drop p (take a ((replicate B 0)[p := x])) = x # replicate (a - 1 - p) 0"
  by (simp add: upd_conv_take_nth_drop min_def take_Cons' )

lemma final_tail:
  assumes "p < a" and "a + length x + length y = B"
    and "u = memcpy_at ((replicate B 0)[p := 0x80]) (p + 1) (replicate (a - 1 - p) 0)"
    and "v = (if flag then u[a - 1 := u ! (a - 1) OR 1] else u)"
  shows "drop p (memcpy_at (memcpy_at v a x) (a + length x) y) = blake_marker flag (a - p) @ x @ y"
proof -
  have u: "u = (replicate B 0)[p := 0x80]"
    unfolding assms(3) using assms(1,2) by (intro memcpy_at_zeros [of _ B _ _ "0x80"]) auto
  then have lu: "length u = B" by simp
  have d: "drop p (take a u) = 0x80 # replicate (a - p - 1) 0"
    using drop_marked [of p a B "0x80"] assms(1,2) u by simp
  have "drop p (take a v) = blake_marker flag (a - p)"
  proof (cases flag)
    case True
    have "u ! (a - 1) = drop p (take a u) ! (a - p - 1)" using assms(1,2) lu by simp
    then have "drop p (take a v) = (drop p (take a u))[a - p - 1 := drop p (take a u) ! (a - p - 1) OR 1]"
      using True assms(1,4) by (simp add: take_update_swap drop_update_swap)
    then show ?thesis using True unfolding d blake_marker_def Let_def by (simp only: if_True)
  qed (use d assms(4) in \<open>simp add: blake_marker_def\<close>)
  moreover have "length v = B" using lu assms(4) by simp
  ultimately show ?thesis using assms(1,2) by (simp add: memcpy_at_two)
qed

lemma final_middle:
  "p < B \<Longrightarrow> drop p (memcpy_at ((replicate B 0)[p := 0x80]) (p + 1) (replicate (B - 1 - p) 0)) = 0x80 # replicate (B - 1 - p) 0"
  by (simp add: memcpy_at_def upd_conv_take_nth_drop min_def)

lemma final_last:
  assumes "0 < a" and "a + length x + length y = B" and "length u = B"
    and "v = memcpy_at u 0 (replicate a 0)" and "w = (if flag then v[a - 1 := 1] else v)"
  shows "memcpy_at (memcpy_at w a x) (a + length x) y = replicate (a - 1) 0 @ [if flag then 1 else 0] @ x @ (y :: byte list)"
proof -
  have "take a v = replicate (a - 1) 0 @ [0]" using assms(1,4)
    by (cases a) (simp_all add: memcpy_at_def replicate_append_same)
  then have "take a w = replicate (a - 1) 0 @ [if flag then 1 else 0]"
    using assms(1,5) by (simp add: take_update_swap list_update_append)
  moreover have "length w = B" using assms(2-5) by (simp add: memcpy_at_def)
  ultimately show ?thesis using assms(2) by (simp add: memcpy_at_two)
qed

section \<open>The iteration\<close>

locale blake_mode =
  fixes B W e :: nat and enc :: "'w::len word \<Rightarrow> byte list"
    and compress :: "byte list \<Rightarrow> 'w word list \<times> 'w word list \<times> 'w word \<times> 'w word \<Rightarrow> 'w word list"
    and block :: "byte list \<Rightarrow> 'w word list \<times> 'w word list \<times> 'w word \<times> 'w word
      \<Rightarrow> 'w word list \<times> 'w word list \<times> 'w word \<times> 'w word"
  assumes block_bits: "8 * B = 2 ^ e" and e_lt: "e < LENGTH('w)"
    and room: "2 * W < B" and length_enc [simp]: "length (enc x) = W"
    and block_eq: "block b (H, S, T0, T1) =
      (let T0 = T0 + of_nat (8 * B); T1 = (if T0 < of_nat (8 * B) then T1 + 1 else T1)
       in (compress b (H, S, T0, T1), S, T0, T1))"
begin

lemma D_pos: "0 < 8 * B" and B_pos: "0 < B"
  using room by auto

lemma D_dvd: "8 * B dvd 2 ^ LENGTH('w)"
  unfolding block_bits using e_lt by (simp add: le_imp_power_dvd)

lemma D_mod: "8 * B mod 2 ^ LENGTH('w) = 8 * B"
  unfolding block_bits using e_lt by (simp add: power_strict_increasing)

text \<open>The counter after \<open>j\<close> blocks, as the pair of words that hold it.\<close>

definition cnt :: "nat \<Rightarrow> 'w word \<times> 'w word" where
  "cnt t = (of_nat t, of_nat (t div 2 ^ LENGTH('w)))"

lemma mod_div_add:
  assumes "t mod M + d < (M :: nat)"
  shows "(t + d) mod M = t mod M + d" and "(t + d) div M = t div M"
proof -
  define q s where "q = t div M" and "s = t mod M"
  then have "t = M * q + s" by simp
  then have "t + d = M * q + (s + d)" by simp
  moreover have "s + d < M" using assms by (simp add: s_def)
  ultimately have "(t + d) mod M = s + d \<and> (t + d) div M = q"
    by (simp only: mod_mult_self4 div_mult_self4 mod_less div_less add_0_right)
  then show "(t + d) mod M = t mod M + d" and "(t + d) div M = t div M" by (simp_all add: q_def s_def)
qed

lemma dvd_mod_cases:
  assumes "8 * B dvd t"
  shows "t mod 2 ^ LENGTH('w) = 0 \<or> 8 * B \<le> t mod 2 ^ LENGTH('w)"
    and "t mod 2 ^ LENGTH('w) + 8 * B \<le> 2 ^ LENGTH('w)"
proof -
  let ?u = "t mod 2 ^ LENGTH('w)"
  have d: "8 * B dvd ?u" using assms D_dvd by (simp add: dvd_mod)
  then show "?u = 0 \<or> 8 * B \<le> ?u" using dvd_imp_le by blast
  obtain a c where a: "?u = 8 * B * a" and c: "2 ^ LENGTH('w) = 8 * B * c" using d D_dvd by (auto elim!: dvdE)
  have "8 * B * a < 8 * B * c" using a c by (metis mod_less_divisor zero_less_numeral zero_less_power)
  then have "a < c" by simp
  then have "8 * B * (a + 1) \<le> 8 * B * c" by (intro mult_le_mono2) simp
  then show "?u + 8 * B \<le> 2 ^ LENGTH('w)" using a c by (simp add: algebra_simps)
qed

lemma unat_of_nat_mod: "unat (of_nat t :: 'w word) = t mod 2 ^ LENGTH('w)"
  by (simp add: unat_of_nat)

text \<open>A full block advances the counter by its bits.\<close>

lemma block_full:
  assumes "8 * B dvd t"
  shows "block b (H, S, cnt t) = (compress b (H, S, cnt (t + 8 * B)), S, cnt (t + 8 * B))"
proof -
  let ?M = "2 ^ LENGTH('w) :: nat" and ?t' = "t + 8 * B"
  have T0: "of_nat t + of_nat (8 * B) = (of_nat ?t' :: 'w word)" by simp
  have "(if (of_nat ?t' :: 'w word) < of_nat (8 * B) then of_nat (t div ?M) + 1 else of_nat (t div ?M))
      = (of_nat (?t' div ?M) :: 'w word)"
  proof (cases "t mod ?M + 8 * B = ?M")
    case True
    then have "?t' = ?M * (t div ?M) + ?M" using mult_div_mod_eq [of ?M t] by linarith
    then have "?t' = ?M * (t div ?M + 1)" by (simp add: algebra_simps)
    then have "?t' mod ?M = 0" and d: "?t' div ?M = t div ?M + 1" by (simp_all del: mult_Suc_right)
    then have "(of_nat ?t' :: 'w word) < of_nat (8 * B)"
      unfolding word_less_nat_alt unat_of_nat_mod D_mod using D_pos by simp
    then show ?thesis unfolding d by simp
  next
    case False
    with dvd_mod_cases(2) [OF assms] have lt: "t mod ?M + 8 * B < ?M" by simp
    have "\<not> (of_nat ?t' :: 'w word) < of_nat (8 * B)"
      unfolding word_less_nat_alt unat_of_nat_mod D_mod mod_div_add(1) [OF lt] by simp
    then show ?thesis unfolding mod_div_add(2) [OF lt] by simp
  qed
  then show ?thesis unfolding cnt_def block_eq Let_def T0 by simp
qed

text \<open>The adjusted counters of the final step make the block function use the specified counter.\<close>

lemma block_partial:
  assumes "8 * B dvd t" and "0 < l" and "l < 8 * B"
  shows "block b (H, S, if of_nat t = (0 :: 'w word) then - of_nat (8 * B) + of_nat l else of_nat t - (of_nat (8 * B) - of_nat l),
      if of_nat t = (0 :: 'w word) then of_nat (t div 2 ^ LENGTH('w)) - 1 else of_nat (t div 2 ^ LENGTH('w)))
    = (compress b (H, S, cnt (t + l)), S, cnt (t + l))"
proof -
  let ?M = "2 ^ LENGTH('w) :: nat"
  have lt: "t mod ?M + l < ?M" using dvd_mod_cases(2) [OF assms(1)] assms(3) by simp
  have z: "of_nat t = (0 :: 'w word) \<longleftrightarrow> t mod ?M = 0"
    by (metis unat_of_nat_mod unat_eq_zero)
  show ?thesis
  proof (cases "t mod ?M = 0")
    case True
    have "(t + l) mod ?M = l" using mod_div_add(1) [OF lt] True by simp
    then have "of_nat (t + l) = (of_nat l :: 'w word)"
      by (metis True add_0 mod_div_add(1) lt of_nat_add z)
    moreover have "(of_nat l :: 'w word) < of_nat (8 * B)"
      unfolding word_less_nat_alt unat_of_nat_mod D_mod using assms(3) le_less_trans [OF mod_less_eq_dividend] by blast
    ultimately show ?thesis using True mod_div_add(2) [OF lt] z by (simp add: block_eq cnt_def Let_def)
  next
    case False
    have "\<not> (of_nat (t + l) :: 'w word) < of_nat (8 * B)"
      unfolding word_less_nat_alt unat_of_nat_mod D_mod mod_div_add(1) [OF lt]
      using False dvd_mod_cases(1) [OF assms(1)] by simp
    then show ?thesis using False mod_div_add(2) [OF lt] z by (simp add: block_eq cnt_def algebra_simps Let_def)
  qed
qed

lemma block_none: "block b (H, S, - of_nat (8 * B), - 1) = (compress b (H, S, cnt 0), S, cnt 0)"
proof -
  have "(0 :: 'w word) < of_nat (8 * B)"
    unfolding word_less_nat_alt unat_of_nat_mod D_mod using D_pos by simp
  then show ?thesis by (simp add: block_eq cnt_def)
qed

section \<open>The chain\<close>

lemma cnt_chain: "blake_chain compress S xs H = fold (\<lambda>(t, b) H. compress b (H, S, cnt t)) xs H"
  by (simp add: blake_chain_def cnt_def)

lemma absorb_chain:
  assumes "k = length m div B"
  shows "absorb B block (H, S, cnt (8 * B * j)) m =
    ((blake_chain compress S (map (\<lambda>i. (8 * B * (j + i + 1), take B (drop (B * i) m))) [0..<k]) H, S, cnt (8 * B * (j + k))),
     drop (B * k) m)"
  using assms
proof (induction k arbitrary: m H j)
  case 0
  then have "length m < B" using B_pos by (simp add: div_eq_0_iff)
  then show ?case by (simp add: absorb_short blake_chain_def)
next
  case (Suc k)
  then have ge: "B \<le> length m" using B_pos by (metis div_less not_le old.nat.distinct(1))
  let ?H = "compress (take B m) (H, S, cnt (8 * B * (j + 1)))"
  have k: "k = length (drop B m) div B" using Suc.prems ge B_pos by (simp add: le_div_geq)
  have "absorb B block (H, S, cnt (8 * B * j)) (take B m @ drop B m)
      = absorb B block (?H, S, cnt (8 * B * (j + 1))) (drop B m)"
    using ge B_pos block_full [of "8 * B * j"] by (subst absorb_block) (simp_all add: algebra_simps)
  with Suc.IH [OF k, of ?H "j + 1"] show ?case
    by (simp add: upt_conv_Cons cnt_chain map_Suc_upt [symmetric] comp_def algebra_simps del: upt_Suc)
qed

text \<open>The blocks of a padded message: those of the message, then the padded rest.\<close>

lemma padded_blocks:
  assumes "length (r @ x) = B * Suc l" and "length q = B * k" and "length r < B" and "m = q @ r"
  shows "map (\<lambda>i. (blake_counter B m i, take B (drop (B * i) (m @ x)))) [0..<length (m @ x) div B]
    = map (\<lambda>i. (8 * B * (i + 1), take B (drop (B * i) m))) [0..<k]
      @ map (\<lambda>i. (if i = 0 \<and> r \<noteq> [] then 8 * length m else 0, take B (drop (B * i) (r @ x)))) [0..<Suc l]"
proof -
  have "length (m @ x) = B * (k + Suc l)" using assms(1,2,4) unfolding distrib_left by simp
  then have n: "length (m @ x) div B = k + Suc l" using B_pos by (simp only: nonzero_mult_div_cancel_left)
  have low: "(blake_counter B m i, take B (drop (B * i) (m @ x))) = (8 * B * (i + 1), take B (drop (B * i) m))"
    if "i < k" for i
  proof -
    have "B * Suc i \<le> B * k" using that by (intro mult_le_mono2) simp
    then have le: "B * i + B \<le> length m" using assms(2,4) by simp
    then have "8 * (B * i + B) \<le> 8 * length m" by (rule mult_le_mono2)
    then show ?thesis using le B_pos by (simp add: blake_counter_def algebra_simps)
  qed
  have high: "(blake_counter B m (k + i), take B (drop (B * (k + i)) (m @ x)))
      = (if i = 0 \<and> r \<noteq> [] then 8 * length m else 0, take B (drop (B * i) (r @ x)))" for i
  proof -
    have "drop (B * (k + i)) (m @ x) = drop (B * i) (r @ x)"
      using assms(2,4) by (simp add: algebra_simps)
    moreover have "B * (k + i) < length m \<longleftrightarrow> i = 0 \<and> r \<noteq> []"
      using assms(2,3,4) by (cases i) (auto simp: algebra_simps)
    moreover have "8 * length m \<le> 8 * B * (k + 1)" using assms(2,3,4) by (simp add: algebra_simps)
    ultimately show ?thesis by (auto simp: blake_counter_def)
  qed
  have "[0..<k + Suc l] = [0..<k] @ map (\<lambda>i. k + i) [0..<Suc l]"
    using upt_add_eq_append [of 0 k "Suc l"] map_add_upt [of k "Suc l"] by (simp add: add.commute del: upt_Suc)
  moreover have "map (\<lambda>i. (blake_counter B m i, take B (drop (B * i) (m @ x)))) [0..<k]
      = map (\<lambda>i. (8 * B * (i + 1), take B (drop (B * i) m))) [0..<k]"
    by (rule map_cong [OF refl]) (use low in simp)
  ultimately show ?thesis unfolding n by (simp only: map_append map_map comp_def high)
qed

text \<open>The counter the code sets before the last blocks.\<close>

definition adjusted :: "'w word \<Rightarrow> 'w word \<Rightarrow> byte list \<Rightarrow> 'w word \<times> 'w word" where
  "adjusted T0 T1 r =
     (if r = [] then (- of_nat (8 * B), - 1)
      else if T0 = 0 then (- of_nat (8 * B) + of_nat (8 * length r), T1 - 1)
      else (T0 - (of_nat (8 * B) - of_nat (8 * length r)), T1))"

lemma final_unfold:
  "blake_final B W enc block flag (H, S, T0, T1) r =
     (let A = adjusted T0 T1 r; len = enc T1 @ enc (T0 + of_nat (8 * length r)) in
      if length r + 1 \<le> B - 2 * W
      then fst (block (r @ blake_marker flag (B - 2 * W - length r) @ len) (H, S, A))
      else let X = block (r @ 0x80 # replicate (B - 1 - length r) 0) (H, S, A) in
        fst (block (replicate (B - 2 * W - 1) 0 @ [if flag then 1 else 0] @ len) (fst X, fst (snd X), - of_nat (8 * B), - 1)))"
  unfolding blake_final_def adjusted_def Let_def case_prod_unfold by (simp del: of_nat_mult)

lemma block_adjusted:
  assumes "8 * B dvd t" and "length r < B"
  shows "block b (H, S, adjusted (of_nat t) (of_nat (t div 2 ^ LENGTH('w))) r)
    = (let c = (if r = [] then 0 else t + 8 * length r) in (compress b (H, S, cnt c), S, cnt c))"
  using block_partial [OF assms(1), of "8 * length r" b H S] block_none [of b H S] assms(2)
  by (cases "r = []"; cases "of_nat t = (0 :: 'w word)") (simp_all add: adjusted_def Let_def)

lemma final_spec:
  "(case absorb B block (iv, S, 0, 0) m of (st, r) \<Rightarrow> blake_final B W enc block flag st r)
     = blake_spec B W enc compress flag S iv m"
proof -
  let ?M = "2 ^ LENGTH('w) :: nat"
  define k q r t where "k = length m div B" and "q = take (B * k) m" and "r = drop (B * k) m" and "t = 8 * B * k"
  have kB: "B * k + length m mod B = length m" unfolding k_def by simp
  have m: "m = q @ r" and lq: "length q = B * k" and lr: "length r = length m mod B"
    using kB by (simp_all add: q_def r_def)
  from lr mod_less_divisor [OF B_pos] have lr: "length r = length m mod B" "length r < B" by (simp_all only:)
  have n: "8 * length m = t + 8 * length r" using kB lr(1) by (simp add: t_def algebra_simps)
  have dv: "8 * B dvd t" by (simp add: t_def)
  have lt: "t mod ?M + 8 * length r < ?M" using dvd_mod_cases(2) [OF dv] lr(2) by linarith
  define H where "H = blake_chain compress S (map (\<lambda>i. (8 * B * (i + 1), take B (drop (B * i) m))) [0..<k]) iv"
  have c0: "cnt 0 = (0, 0)" by (simp add: cnt_def)
  have ab: "absorb B block (iv, S, 0, 0) m = ((H, S, cnt t), r)"
    using absorb_chain [OF k_def, of iv S 0] unfolding H_def t_def r_def by (simp add: c0)
  define len where "len = enc (of_nat (t div ?M)) @ enc (of_nat (t + 8 * length r))"
  define c where "c = (if r = [] then 0 else 8 * length m)"
  have adj: "block b (H, S, adjusted (of_nat t) (of_nat (t div ?M)) r) = (compress b (H, S, cnt c), S, cnt c)" for b
    using block_adjusted [OF dv lr(2), of b H S] n by (simp only: c_def Let_def)
  have T: "cnt t = (of_nat t, of_nat (t div ?M))" by (simp add: cnt_def)
  have spec: "blake_spec B W enc compress flag S iv m
      = blake_chain compress S (map (\<lambda>i. (if i = 0 \<and> r \<noteq> [] then 8 * length m else 0, take B (drop (B * i) (r @ x)))) [0..<Suc l]) H"
    if x: "blake_padding B W enc flag m = m @ x" and "length (r @ x) = B * Suc l" for x l
    using padded_blocks [OF that(2) lq lr(2) m] unfolding blake_spec_def Let_def x H_def
    by (simp only: blake_chain_def fold_append o_apply)
  have lenw: "length len = 2 * W" by (simp add: len_def)
  have pad: "blake_padding B W enc flag m = m @ blake_marker flag (if length r + 1 \<le> B - 2 * W then B - 2 * W - length r else 2 * B - 2 * W - length r) @ len"
    unfolding blake_padding_def Let_def lr(1) [symmetric] n mod_div_add(2) [OF lt] len_def by simp
  show ?thesis
  proof (cases "length r + 1 \<le> B - 2 * W")
    case True
    then have l: "length (r @ blake_marker flag (B - 2 * W - length r) @ len) = B * Suc 0" using lenw room by simp
    have "blake_spec B W enc compress flag S iv m
        = compress (r @ blake_marker flag (B - 2 * W - length r) @ len) (H, S, cnt c)"
      using spec [OF _ l] pad True l by (simp add: cnt_chain c_def)
    then show ?thesis using True
      unfolding ab T prod.case final_unfold Let_def adj len_def of_nat_add by (simp only: if_True fst_conv)
  next
    case False
    define a b where "a = B - 1 - length r" and "b = B - 2 * W - 1"
    have ab': "2 * B - 2 * W - length r = Suc a + Suc b" using room lr(2) by (simp add: a_def b_def)
    let ?x = "blake_marker flag (Suc a + Suc b) @ len"
    let ?b1 = "r @ 0x80 # replicate a 0" and ?b2 = "replicate b 0 @ [if flag then 1 else 0] @ len"
    have x: "r @ ?x = ?b1 @ ?b2" unfolding blake_marker_split by simp
    have l1: "length ?b1 = B" "length ?b2 = B" using room lr(2) lenw by (simp_all add: a_def b_def)
    then have l: "length (r @ ?x) = B * Suc 1" unfolding x by simp
    have "blake_spec B W enc compress flag S iv m = compress ?b2 (compress ?b1 (H, S, cnt c), S, cnt 0)"
    proof -
      have two: "take B (drop (B * 0) (u @ v)) = u" "take B (drop (B * 1) (u @ v)) = v"
        if "length u = B" "length v = B" for u v :: "byte list" using that by simp_all
      have m2: "map f [0..<Suc 1] = [f 0, f 1]" for f :: "nat \<Rightarrow> nat \<times> byte list" by simp
      have "blake_padding B W enc flag m = m @ ?x" using pad False unfolding ab' by (simp only: if_False)
      from spec [OF this l] show ?thesis unfolding x m2 two [OF l1]
        by (simp add: cnt_chain c_def del: append_assoc)
    qed
    then show ?thesis using False
      unfolding ab T prod.case final_unfold Let_def adj len_def of_nat_add a_def b_def
      by (simp only: if_False fst_conv snd_conv block_none)
  qed
qed

end

end
