(* ===== verification/Blake.thy ===== *)
theory Blake
  imports Blake_Spec
begin

text \<open>
  BLAKE (\<open>blockhash/blake.c\<close>), 32-bit and 64-bit versions. The message words and the constants a round
  uses are selected by the macros \<open>Z00\<close> to \<open>Z9F\<close>, one row of indices per round; the locals \<open>V0\<close> to
  \<open>VF\<close> are a 16-tuple, and the state a function works on is the tuple of the chaining words \<open>H\<close>, the
  salt \<open>S\<close> and the bit counter \<open>T0\<close>, \<open>T1\<close>. The compact variant of the compression function, which the
  library uses when it is built for a small footprint, is modelled as well and shown to be equal.

  The functions that close a context trick the block function into using the right counter by setting
  it to the wanted value minus one block; the theory shows that the digest is that of the BLAKE
  specification, with the specification's padding and counters.
\<close>

section \<open>Tables\<close>

definition blake_IV224 :: "u32 list" where
  "blake_IV224 = [
     0xC1059ED8, 0x367CD507, 0x3070DD17, 0xF70E5939, 0xFFC00B31, 0x68581511, 0x64F98FA7,
     0xBEFA4FA4]"

definition blake_IV256 :: "u32 list" where
  "blake_IV256 = [
     0x6A09E667, 0xBB67AE85, 0x3C6EF372, 0xA54FF53A, 0x510E527F, 0x9B05688C, 0x1F83D9AB,
     0x5BE0CD19]"

definition blake_IV384 :: "u64 list" where
  "blake_IV384 = [
     0xCBBB9D5DC1059ED8, 0x629A292A367CD507, 0x9159015A3070DD17, 0x152FECD8F70E5939,
     0x67332667FFC00B31, 0x8EB44A8768581511, 0xDB0C2E0D64F98FA7, 0x47B5481DBEFA4FA4]"

definition blake_IV512 :: "u64 list" where
  "blake_IV512 = [
     0x6A09E667F3BCC908, 0xBB67AE8584CAA73B, 0x3C6EF372FE94F82B, 0xA54FF53A5F1D36F1,
     0x510E527FADE682D1, 0x9B05688C2B3E6C1F, 0x1F83D9ABFB41BD6B, 0x5BE0CD19137E2179]"

definition blake_Z :: "nat list list" where
  "blake_Z =
    [[0, 1, 2, 3, 4, 5, 6, 7, 8, 9, 10, 11, 12, 13, 14, 15],
     [14, 10, 4, 8, 9, 15, 13, 6, 1, 12, 0, 2, 11, 7, 5, 3],
     [11, 8, 12, 0, 5, 2, 15, 13, 10, 14, 3, 6, 7, 1, 9, 4],
     [7, 9, 3, 1, 13, 12, 11, 14, 2, 6, 5, 10, 4, 0, 15, 8],
     [9, 0, 5, 7, 2, 4, 10, 15, 14, 1, 11, 12, 6, 8, 3, 13],
     [2, 12, 6, 10, 0, 11, 8, 3, 4, 13, 7, 5, 15, 14, 1, 9],
     [12, 5, 1, 15, 14, 13, 4, 10, 0, 7, 6, 3, 9, 2, 8, 11],
     [13, 11, 7, 14, 12, 1, 3, 9, 5, 0, 15, 4, 8, 6, 2, 10],
     [6, 15, 14, 9, 11, 3, 0, 8, 12, 2, 13, 7, 1, 4, 10, 5],
     [10, 2, 8, 4, 7, 6, 1, 5, 15, 11, 9, 14, 3, 12, 13, 0]]"

definition blake_sigma :: "nat list list" where
  "blake_sigma =
    [[0, 1, 2, 3, 4, 5, 6, 7, 8, 9, 10, 11, 12, 13, 14, 15],
     [14, 10, 4, 8, 9, 15, 13, 6, 1, 12, 0, 2, 11, 7, 5, 3],
     [11, 8, 12, 0, 5, 2, 15, 13, 10, 14, 3, 6, 7, 1, 9, 4],
     [7, 9, 3, 1, 13, 12, 11, 14, 2, 6, 5, 10, 4, 0, 15, 8],
     [9, 0, 5, 7, 2, 4, 10, 15, 14, 1, 11, 12, 6, 8, 3, 13],
     [2, 12, 6, 10, 0, 11, 8, 3, 4, 13, 7, 5, 15, 14, 1, 9],
     [12, 5, 1, 15, 14, 13, 4, 10, 0, 7, 6, 3, 9, 2, 8, 11],
     [13, 11, 7, 14, 12, 1, 3, 9, 5, 0, 15, 4, 8, 6, 2, 10],
     [6, 15, 14, 9, 11, 3, 0, 8, 12, 2, 13, 7, 1, 4, 10, 5],
     [10, 2, 8, 4, 7, 6, 1, 5, 15, 11, 9, 14, 3, 12, 13, 0],
     [0, 1, 2, 3, 4, 5, 6, 7, 8, 9, 10, 11, 12, 13, 14, 15],
     [14, 10, 4, 8, 9, 15, 13, 6, 1, 12, 0, 2, 11, 7, 5, 3],
     [11, 8, 12, 0, 5, 2, 15, 13, 10, 14, 3, 6, 7, 1, 9, 4],
     [7, 9, 3, 1, 13, 12, 11, 14, 2, 6, 5, 10, 4, 0, 15, 8],
     [9, 0, 5, 7, 2, 4, 10, 15, 14, 1, 11, 12, 6, 8, 3, 13],
     [2, 12, 6, 10, 0, 11, 8, 3, 4, 13, 7, 5, 15, 14, 1, 9]]"

definition blake_CS :: "u32 list" where
  "blake_CS = [
     0x243F6A88, 0x85A308D3, 0x13198A2E, 0x03707344, 0xA4093822, 0x299F31D0, 0x082EFA98,
     0xEC4E6C89, 0x452821E6, 0x38D01377, 0xBE5466CF, 0x34E90C6C, 0xC0AC29B7, 0xC97C50DD,
     0x3F84D5B5, 0xB5470917]"

definition blake_CB :: "u64 list" where
  "blake_CB = [
     0x243F6A8885A308D3, 0x13198A2E03707344, 0xA4093822299F31D0, 0x082EFA98EC4E6C89,
     0x452821E638D01377, 0xBE5466CF34E90C6C, 0xC0AC29B7C97C50DD, 0x3F84D5B5B5470917,
     0x9216D5D98979FB1B, 0xD1310BA698DFB5AC, 0x2FFD72DBD01ADFB7, 0xB8E1AFED6A267E96,
     0xBA7C9045F12C7F99, 0x24A19947B3916CF7, 0x0801F2E2858EFC16, 0x636920D871574E69]"

section \<open>The 32-bit version\<close>

type_synonym blake32_vars =
  "u32 \<times> u32 \<times> u32 \<times> u32 \<times> u32 \<times> u32 \<times> u32 \<times> u32 \<times> u32 \<times> u32 \<times> u32 \<times> u32 \<times> u32 \<times> u32 \<times> u32 \<times> u32"

type_synonym blake32_state = "u32 list \<times> u32 list \<times> u32 \<times> u32"

definition blake_GS :: "u32 \<Rightarrow> u32 \<Rightarrow> u32 \<Rightarrow> u32 \<Rightarrow> u32 \<Rightarrow> u32 \<Rightarrow> u32 \<Rightarrow> u32 \<Rightarrow> u32 \<times> u32 \<times> u32 \<times> u32" where
  "blake_GS m0 m1 c0 c1 a b c d =
    (let
      a = SPH_T32 ((a + b) + (m0 XOR c1));
      d = SPH_ROTR32 (d XOR a) 16;
      c = SPH_T32 (c + d);
      b = SPH_ROTR32 (b XOR c) 12;
      a = SPH_T32 ((a + b) + (m1 XOR c0));
      d = SPH_ROTR32 (d XOR a) 8;
      c = SPH_T32 (c + d);
      b = SPH_ROTR32 (b XOR c) 7
    in (a, b, c, d))"

definition blake_ROUND_S :: "u32 list \<Rightarrow> nat \<Rightarrow> blake32_vars \<Rightarrow> blake32_vars" where
  "blake_ROUND_S M r = (\<lambda>(V0, V1, V2, V3, V4, V5, V6, V7, V8, V9, VA, VB, VC, VD, VE, VF).
    let
      z = blake_Z ! r;
      (V0, V4, V8, VC) = blake_GS (M ! (z ! 0)) (M ! (z ! 1)) (blake_CS ! (z ! 0)) (blake_CS ! (z ! 1)) V0 V4 V8 VC;
      (V1, V5, V9, VD) = blake_GS (M ! (z ! 2)) (M ! (z ! 3)) (blake_CS ! (z ! 2)) (blake_CS ! (z ! 3)) V1 V5 V9 VD;
      (V2, V6, VA, VE) = blake_GS (M ! (z ! 4)) (M ! (z ! 5)) (blake_CS ! (z ! 4)) (blake_CS ! (z ! 5)) V2 V6 VA VE;
      (V3, V7, VB, VF) = blake_GS (M ! (z ! 6)) (M ! (z ! 7)) (blake_CS ! (z ! 6)) (blake_CS ! (z ! 7)) V3 V7 VB VF;
      (V0, V5, VA, VF) = blake_GS (M ! (z ! 8)) (M ! (z ! 9)) (blake_CS ! (z ! 8)) (blake_CS ! (z ! 9)) V0 V5 VA VF;
      (V1, V6, VB, VC) = blake_GS (M ! (z ! 10)) (M ! (z ! 11)) (blake_CS ! (z ! 10)) (blake_CS ! (z ! 11)) V1 V6 VB VC;
      (V2, V7, V8, VD) = blake_GS (M ! (z ! 12)) (M ! (z ! 13)) (blake_CS ! (z ! 12)) (blake_CS ! (z ! 13)) V2 V7 V8 VD;
      (V3, V4, V9, VE) = blake_GS (M ! (z ! 14)) (M ! (z ! 15)) (blake_CS ! (z ! 14)) (blake_CS ! (z ! 15)) V3 V4 V9 VE
    in (V0, V1, V2, V3, V4, V5, V6, V7, V8, V9, VA, VB, VC, VD, VE, VF))"

definition blake_ROUND_S_compact :: "u32 list \<Rightarrow> nat \<Rightarrow> blake32_vars \<Rightarrow> blake32_vars" where
  "blake_ROUND_S_compact M r = (\<lambda>(V0, V1, V2, V3, V4, V5, V6, V7, V8, V9, VA, VB, VC, VD, VE, VF).
    let
      z = blake_sigma ! r;
      (V0, V4, V8, VC) = blake_GS (M ! (z ! 0)) (M ! (z ! 1)) (blake_CS ! (z ! 0)) (blake_CS ! (z ! 1)) V0 V4 V8 VC;
      (V1, V5, V9, VD) = blake_GS (M ! (z ! 2)) (M ! (z ! 3)) (blake_CS ! (z ! 2)) (blake_CS ! (z ! 3)) V1 V5 V9 VD;
      (V2, V6, VA, VE) = blake_GS (M ! (z ! 4)) (M ! (z ! 5)) (blake_CS ! (z ! 4)) (blake_CS ! (z ! 5)) V2 V6 VA VE;
      (V3, V7, VB, VF) = blake_GS (M ! (z ! 6)) (M ! (z ! 7)) (blake_CS ! (z ! 6)) (blake_CS ! (z ! 7)) V3 V7 VB VF;
      (V0, V5, VA, VF) = blake_GS (M ! (z ! 8)) (M ! (z ! 9)) (blake_CS ! (z ! 8)) (blake_CS ! (z ! 9)) V0 V5 VA VF;
      (V1, V6, VB, VC) = blake_GS (M ! (z ! 10)) (M ! (z ! 11)) (blake_CS ! (z ! 10)) (blake_CS ! (z ! 11)) V1 V6 VB VC;
      (V2, V7, V8, VD) = blake_GS (M ! (z ! 12)) (M ! (z ! 13)) (blake_CS ! (z ! 12)) (blake_CS ! (z ! 13)) V2 V7 V8 VD;
      (V3, V4, V9, VE) = blake_GS (M ! (z ! 14)) (M ! (z ! 15)) (blake_CS ! (z ! 14)) (blake_CS ! (z ! 15)) V3 V4 V9 VE
    in (V0, V1, V2, V3, V4, V5, V6, V7, V8, V9, VA, VB, VC, VD, VE, VF))"

text \<open>The locals \<open>V\<close> before the rounds, the message words, and the chaining words after them.\<close>

definition blake32_V :: "blake32_state \<Rightarrow> blake32_vars" where
  "blake32_V = (\<lambda>(H, S, T0, T1).
    (H ! 0, H ! 1, H ! 2, H ! 3, H ! 4, H ! 5, H ! 6, H ! 7,
     S ! 0 XOR blake_CS ! 0, S ! 1 XOR blake_CS ! 1, S ! 2 XOR blake_CS ! 2, S ! 3 XOR blake_CS ! 3,
     T0 XOR blake_CS ! 4, T0 XOR blake_CS ! 5, T1 XOR blake_CS ! 6, T1 XOR blake_CS ! 7))"

definition blake32_M :: "byte list \<Rightarrow> u32 list" where
  "blake32_M buf = [
     sph_dec32be buf 0, sph_dec32be buf 4, sph_dec32be buf 8, sph_dec32be buf 12,
     sph_dec32be buf 16, sph_dec32be buf 20, sph_dec32be buf 24, sph_dec32be buf 28,
     sph_dec32be buf 32, sph_dec32be buf 36, sph_dec32be buf 40, sph_dec32be buf 44,
     sph_dec32be buf 48, sph_dec32be buf 52, sph_dec32be buf 56, sph_dec32be buf 60]"

definition blake32_H :: "blake32_state \<Rightarrow> blake32_vars \<Rightarrow> u32 list" where
  "blake32_H = (\<lambda>(H, S, T0, T1) (V0, V1, V2, V3, V4, V5, V6, V7, V8, V9, VA, VB, VC, VD, VE, VF).
    [H ! 0 XOR (S ! 0 XOR V0 XOR V8), H ! 1 XOR (S ! 1 XOR V1 XOR V9), H ! 2 XOR (S ! 2 XOR V2 XOR VA), H ! 3 XOR (S ! 3 XOR V3 XOR VB), H ! 4 XOR (S ! 0 XOR V4 XOR VC), H ! 5 XOR (S ! 1 XOR V5 XOR VD), H ! 6 XOR (S ! 2 XOR V6 XOR VE), H ! 7 XOR (S ! 3 XOR V7 XOR VF)])"

definition blake_COMPRESS32 :: "byte list \<Rightarrow> blake32_state \<Rightarrow> u32 list" where
  "blake_COMPRESS32 buf st =
    (let V = blake32_V st;
         M = blake32_M buf;
         V = blake_ROUND_S M 0 V;
         V = blake_ROUND_S M 1 V;
         V = blake_ROUND_S M 2 V;
         V = blake_ROUND_S M 3 V;
         V = blake_ROUND_S M 4 V;
         V = blake_ROUND_S M 5 V;
         V = blake_ROUND_S M 6 V;
         V = blake_ROUND_S M 7 V;
         V = blake_ROUND_S M 8 V;
         V = blake_ROUND_S M 9 V;
         V = blake_ROUND_S M 0 V;
         V = blake_ROUND_S M 1 V;
         V = blake_ROUND_S M 2 V;
         V = blake_ROUND_S M 3 V
     in blake32_H st V)"

definition blake_COMPRESS32_compact :: "byte list \<Rightarrow> blake32_state \<Rightarrow> u32 list" where
  "blake_COMPRESS32_compact buf st =
    (let V = blake32_V st;
         M = blake32_M buf;
         V = fold (blake_ROUND_S_compact M) [0..<14] V
     in blake32_H st V)"

record sph_blake_small_context =
  bs_buf :: "byte list"
  bs_ptr :: nat
  bs_H :: "u32 list"
  bs_S :: "u32 list"
  bs_T0 :: u32
  bs_T1 :: u32

definition salt_zero_small :: "u32 list" where
  "salt_zero_small = [0, 0, 0, 0]"

definition blake32_init :: "sph_blake_small_context \<Rightarrow> u32 list \<Rightarrow> u32 list \<Rightarrow> sph_blake_small_context" where
  "blake32_init sc iv salt = sc\<lparr>bs_H := take 8 iv, bs_S := take 4 salt, bs_T0 := 0, bs_T1 := 0, bs_ptr := 0\<rparr>"

text \<open>A full buffer: the counter advances by the bits of a block and the block is compressed.\<close>

definition blake32_block :: "byte list \<Rightarrow> blake32_state \<Rightarrow> blake32_state" where
  "blake32_block buf = (\<lambda>(H, S, T0, T1).
    let T0 = SPH_T32 (T0 + 512);
        T1 = (if T0 < 512 then SPH_T32 (T1 + 1) else T1)
    in (blake_COMPRESS32 buf (H, S, T0, T1), S, T0, T1))"

definition blake32 :: "sph_blake_small_context \<Rightarrow> byte list \<Rightarrow> sph_blake_small_context result" where
  "blake32 sc data =
    (let buf = bs_buf sc; ptr = bs_ptr sc in
     if length data < 64 - ptr then
       Inr (sc\<lparr>bs_buf := memcpy_at buf ptr data, bs_ptr := ptr + length data\<rparr>)
     else
       bindE (core_loop 64 blake32_block buf ptr (bs_H sc, bs_S sc, bs_T0 sc, bs_T1 sc) data)
         (\<lambda>(buf, ptr, H, S, T0, T1).
       Inr (sc\<lparr>bs_buf := buf, bs_ptr := ptr, bs_H := H, bs_S := S, bs_T0 := T0, bs_T1 := T1\<rparr>)))"

text \<open>The stack buffer \<open>u.buf\<close> is not initialised; its bytes before \<open>ptr\<close> are never read, and the model starts
  it with zeros.\<close>

definition blake32_close :: "sph_blake_small_context \<Rightarrow> u32 \<Rightarrow> nat \<Rightarrow> nat \<Rightarrow> (byte list \<times> sph_blake_small_context) result" where
  "blake32_close sc ub n out_size_w32 =
    (let ptr = bs_ptr sc;
         bit_len = ptr * 8 + n;
         u = (replicate 64 0)[ptr := pad_byte ub n];
         tl = bs_T0 sc + of_nat bit_len;
         th = bs_T1 sc;
         sc = (if ptr = 0 \<and> n = 0 then sc\<lparr>bs_T0 := 0xFFFFFE00, bs_T1 := 0xFFFFFFFF\<rparr>
               else if bs_T0 sc = 0 then sc\<lparr>bs_T0 := 0xFFFFFE00 + of_nat bit_len, bs_T1 := SPH_T32 (bs_T1 sc - 1)\<rparr>
               else sc\<lparr>bs_T0 := bs_T0 sc - (512 - of_nat bit_len)\<rparr>)
     in
     bindE (if bit_len \<le> 446 then
         let u = memcpy_at u (ptr + 1) (replicate (55 - ptr) 0);
             u = (if out_size_w32 = 8 then u[55 := u ! 55 OR 1] else u);
             u = memcpy_at u 56 (sph_enc32be th);
             u = memcpy_at u 60 (sph_enc32be tl)
         in blake32 sc (drop ptr u)
       else
         let u = memcpy_at u (ptr + 1) (replicate (63 - ptr) 0)
         in bindE (blake32 sc (drop ptr u)) (\<lambda>sc.
         let sc = sc\<lparr>bs_T0 := 0xFFFFFE00, bs_T1 := 0xFFFFFFFF\<rparr>;
             u = memcpy_at u 0 (replicate 56 0);
             u = (if out_size_w32 = 8 then u[55 := 1] else u);
             u = memcpy_at u 56 (sph_enc32be th);
             u = memcpy_at u 60 (sph_enc32be tl)
         in blake32 sc u))
       (\<lambda>sc. Inr (concat (map (\<lambda>k. sph_enc32be (bs_H sc ! k)) [0..<out_size_w32]), sc)))"

definition sph_blake224_init :: "sph_blake_small_context \<Rightarrow> sph_blake_small_context" where
  "sph_blake224_init cc = blake32_init cc blake_IV224 salt_zero_small"

definition sph_blake224 :: "sph_blake_small_context \<Rightarrow> byte list \<Rightarrow> sph_blake_small_context result" where
  "sph_blake224 cc data = blake32 cc data"

definition sph_blake224_addbits_and_close ::
    "sph_blake_small_context \<Rightarrow> u32 \<Rightarrow> nat \<Rightarrow> (byte list \<times> sph_blake_small_context) result" where
  "sph_blake224_addbits_and_close cc ub n =
     bindE (blake32_close cc ub n 7) (\<lambda>(dst, cc). Inr (dst, sph_blake224_init cc))"

definition sph_blake224_close :: "sph_blake_small_context \<Rightarrow> (byte list \<times> sph_blake_small_context) result" where
  "sph_blake224_close cc = sph_blake224_addbits_and_close cc 0 0"

definition sph_blake256_init :: "sph_blake_small_context \<Rightarrow> sph_blake_small_context" where
  "sph_blake256_init cc = blake32_init cc blake_IV256 salt_zero_small"

definition sph_blake256 :: "sph_blake_small_context \<Rightarrow> byte list \<Rightarrow> sph_blake_small_context result" where
  "sph_blake256 cc data = blake32 cc data"

definition sph_blake256_addbits_and_close ::
    "sph_blake_small_context \<Rightarrow> u32 \<Rightarrow> nat \<Rightarrow> (byte list \<times> sph_blake_small_context) result" where
  "sph_blake256_addbits_and_close cc ub n =
     bindE (blake32_close cc ub n 8) (\<lambda>(dst, cc). Inr (dst, sph_blake256_init cc))"

definition sph_blake256_close :: "sph_blake_small_context \<Rightarrow> (byte list \<times> sph_blake_small_context) result" where
  "sph_blake256_close cc = sph_blake256_addbits_and_close cc 0 0"

section \<open>The 64-bit version\<close>

type_synonym blake64_vars =
  "u64 \<times> u64 \<times> u64 \<times> u64 \<times> u64 \<times> u64 \<times> u64 \<times> u64 \<times> u64 \<times> u64 \<times> u64 \<times> u64 \<times> u64 \<times> u64 \<times> u64 \<times> u64"

type_synonym blake64_state = "u64 list \<times> u64 list \<times> u64 \<times> u64"

definition blake_GB :: "u64 \<Rightarrow> u64 \<Rightarrow> u64 \<Rightarrow> u64 \<Rightarrow> u64 \<Rightarrow> u64 \<Rightarrow> u64 \<Rightarrow> u64 \<Rightarrow> u64 \<times> u64 \<times> u64 \<times> u64" where
  "blake_GB m0 m1 c0 c1 a b c d =
    (let
      a = SPH_T64 ((a + b) + (m0 XOR c1));
      d = SPH_ROTR64 (d XOR a) 32;
      c = SPH_T64 (c + d);
      b = SPH_ROTR64 (b XOR c) 25;
      a = SPH_T64 ((a + b) + (m1 XOR c0));
      d = SPH_ROTR64 (d XOR a) 16;
      c = SPH_T64 (c + d);
      b = SPH_ROTR64 (b XOR c) 11
    in (a, b, c, d))"

definition blake_ROUND_B :: "u64 list \<Rightarrow> nat \<Rightarrow> blake64_vars \<Rightarrow> blake64_vars" where
  "blake_ROUND_B M r = (\<lambda>(V0, V1, V2, V3, V4, V5, V6, V7, V8, V9, VA, VB, VC, VD, VE, VF).
    let
      z = blake_Z ! r;
      (V0, V4, V8, VC) = blake_GB (M ! (z ! 0)) (M ! (z ! 1)) (blake_CB ! (z ! 0)) (blake_CB ! (z ! 1)) V0 V4 V8 VC;
      (V1, V5, V9, VD) = blake_GB (M ! (z ! 2)) (M ! (z ! 3)) (blake_CB ! (z ! 2)) (blake_CB ! (z ! 3)) V1 V5 V9 VD;
      (V2, V6, VA, VE) = blake_GB (M ! (z ! 4)) (M ! (z ! 5)) (blake_CB ! (z ! 4)) (blake_CB ! (z ! 5)) V2 V6 VA VE;
      (V3, V7, VB, VF) = blake_GB (M ! (z ! 6)) (M ! (z ! 7)) (blake_CB ! (z ! 6)) (blake_CB ! (z ! 7)) V3 V7 VB VF;
      (V0, V5, VA, VF) = blake_GB (M ! (z ! 8)) (M ! (z ! 9)) (blake_CB ! (z ! 8)) (blake_CB ! (z ! 9)) V0 V5 VA VF;
      (V1, V6, VB, VC) = blake_GB (M ! (z ! 10)) (M ! (z ! 11)) (blake_CB ! (z ! 10)) (blake_CB ! (z ! 11)) V1 V6 VB VC;
      (V2, V7, V8, VD) = blake_GB (M ! (z ! 12)) (M ! (z ! 13)) (blake_CB ! (z ! 12)) (blake_CB ! (z ! 13)) V2 V7 V8 VD;
      (V3, V4, V9, VE) = blake_GB (M ! (z ! 14)) (M ! (z ! 15)) (blake_CB ! (z ! 14)) (blake_CB ! (z ! 15)) V3 V4 V9 VE
    in (V0, V1, V2, V3, V4, V5, V6, V7, V8, V9, VA, VB, VC, VD, VE, VF))"

definition blake_ROUND_B_compact :: "u64 list \<Rightarrow> nat \<Rightarrow> blake64_vars \<Rightarrow> blake64_vars" where
  "blake_ROUND_B_compact M r = (\<lambda>(V0, V1, V2, V3, V4, V5, V6, V7, V8, V9, VA, VB, VC, VD, VE, VF).
    let
      z = blake_sigma ! r;
      (V0, V4, V8, VC) = blake_GB (M ! (z ! 0)) (M ! (z ! 1)) (blake_CB ! (z ! 0)) (blake_CB ! (z ! 1)) V0 V4 V8 VC;
      (V1, V5, V9, VD) = blake_GB (M ! (z ! 2)) (M ! (z ! 3)) (blake_CB ! (z ! 2)) (blake_CB ! (z ! 3)) V1 V5 V9 VD;
      (V2, V6, VA, VE) = blake_GB (M ! (z ! 4)) (M ! (z ! 5)) (blake_CB ! (z ! 4)) (blake_CB ! (z ! 5)) V2 V6 VA VE;
      (V3, V7, VB, VF) = blake_GB (M ! (z ! 6)) (M ! (z ! 7)) (blake_CB ! (z ! 6)) (blake_CB ! (z ! 7)) V3 V7 VB VF;
      (V0, V5, VA, VF) = blake_GB (M ! (z ! 8)) (M ! (z ! 9)) (blake_CB ! (z ! 8)) (blake_CB ! (z ! 9)) V0 V5 VA VF;
      (V1, V6, VB, VC) = blake_GB (M ! (z ! 10)) (M ! (z ! 11)) (blake_CB ! (z ! 10)) (blake_CB ! (z ! 11)) V1 V6 VB VC;
      (V2, V7, V8, VD) = blake_GB (M ! (z ! 12)) (M ! (z ! 13)) (blake_CB ! (z ! 12)) (blake_CB ! (z ! 13)) V2 V7 V8 VD;
      (V3, V4, V9, VE) = blake_GB (M ! (z ! 14)) (M ! (z ! 15)) (blake_CB ! (z ! 14)) (blake_CB ! (z ! 15)) V3 V4 V9 VE
    in (V0, V1, V2, V3, V4, V5, V6, V7, V8, V9, VA, VB, VC, VD, VE, VF))"

text \<open>The locals \<open>V\<close> before the rounds, the message words, and the chaining words after them.\<close>

definition blake64_V :: "blake64_state \<Rightarrow> blake64_vars" where
  "blake64_V = (\<lambda>(H, S, T0, T1).
    (H ! 0, H ! 1, H ! 2, H ! 3, H ! 4, H ! 5, H ! 6, H ! 7,
     S ! 0 XOR blake_CB ! 0, S ! 1 XOR blake_CB ! 1, S ! 2 XOR blake_CB ! 2, S ! 3 XOR blake_CB ! 3,
     T0 XOR blake_CB ! 4, T0 XOR blake_CB ! 5, T1 XOR blake_CB ! 6, T1 XOR blake_CB ! 7))"

definition blake64_M :: "byte list \<Rightarrow> u64 list" where
  "blake64_M buf = [
     sph_dec64be buf 0, sph_dec64be buf 8, sph_dec64be buf 16, sph_dec64be buf 24,
     sph_dec64be buf 32, sph_dec64be buf 40, sph_dec64be buf 48, sph_dec64be buf 56,
     sph_dec64be buf 64, sph_dec64be buf 72, sph_dec64be buf 80, sph_dec64be buf 88,
     sph_dec64be buf 96, sph_dec64be buf 104, sph_dec64be buf 112, sph_dec64be buf 120]"

definition blake64_H :: "blake64_state \<Rightarrow> blake64_vars \<Rightarrow> u64 list" where
  "blake64_H = (\<lambda>(H, S, T0, T1) (V0, V1, V2, V3, V4, V5, V6, V7, V8, V9, VA, VB, VC, VD, VE, VF).
    [H ! 0 XOR (S ! 0 XOR V0 XOR V8), H ! 1 XOR (S ! 1 XOR V1 XOR V9), H ! 2 XOR (S ! 2 XOR V2 XOR VA), H ! 3 XOR (S ! 3 XOR V3 XOR VB), H ! 4 XOR (S ! 0 XOR V4 XOR VC), H ! 5 XOR (S ! 1 XOR V5 XOR VD), H ! 6 XOR (S ! 2 XOR V6 XOR VE), H ! 7 XOR (S ! 3 XOR V7 XOR VF)])"

definition blake_COMPRESS64 :: "byte list \<Rightarrow> blake64_state \<Rightarrow> u64 list" where
  "blake_COMPRESS64 buf st =
    (let V = blake64_V st;
         M = blake64_M buf;
         V = blake_ROUND_B M 0 V;
         V = blake_ROUND_B M 1 V;
         V = blake_ROUND_B M 2 V;
         V = blake_ROUND_B M 3 V;
         V = blake_ROUND_B M 4 V;
         V = blake_ROUND_B M 5 V;
         V = blake_ROUND_B M 6 V;
         V = blake_ROUND_B M 7 V;
         V = blake_ROUND_B M 8 V;
         V = blake_ROUND_B M 9 V;
         V = blake_ROUND_B M 0 V;
         V = blake_ROUND_B M 1 V;
         V = blake_ROUND_B M 2 V;
         V = blake_ROUND_B M 3 V;
         V = blake_ROUND_B M 4 V;
         V = blake_ROUND_B M 5 V
     in blake64_H st V)"

definition blake_COMPRESS64_compact :: "byte list \<Rightarrow> blake64_state \<Rightarrow> u64 list" where
  "blake_COMPRESS64_compact buf st =
    (let V = blake64_V st;
         M = blake64_M buf;
         V = fold (blake_ROUND_B_compact M) [0..<16] V
     in blake64_H st V)"

record sph_blake_big_context =
  bb_buf :: "byte list"
  bb_ptr :: nat
  bb_H :: "u64 list"
  bb_S :: "u64 list"
  bb_T0 :: u64
  bb_T1 :: u64

definition salt_zero_big :: "u64 list" where
  "salt_zero_big = [0, 0, 0, 0]"

definition blake64_init :: "sph_blake_big_context \<Rightarrow> u64 list \<Rightarrow> u64 list \<Rightarrow> sph_blake_big_context" where
  "blake64_init sc iv salt = sc\<lparr>bb_H := take 8 iv, bb_S := take 4 salt, bb_T0 := 0, bb_T1 := 0, bb_ptr := 0\<rparr>"

text \<open>A full buffer: the counter advances by the bits of a block and the block is compressed.\<close>

definition blake64_block :: "byte list \<Rightarrow> blake64_state \<Rightarrow> blake64_state" where
  "blake64_block buf = (\<lambda>(H, S, T0, T1).
    let T0 = SPH_T64 (T0 + 1024);
        T1 = (if T0 < 1024 then SPH_T64 (T1 + 1) else T1)
    in (blake_COMPRESS64 buf (H, S, T0, T1), S, T0, T1))"

definition blake64 :: "sph_blake_big_context \<Rightarrow> byte list \<Rightarrow> sph_blake_big_context result" where
  "blake64 sc data =
    (let buf = bb_buf sc; ptr = bb_ptr sc in
     if length data < 128 - ptr then
       Inr (sc\<lparr>bb_buf := memcpy_at buf ptr data, bb_ptr := ptr + length data\<rparr>)
     else
       bindE (core_loop 128 blake64_block buf ptr (bb_H sc, bb_S sc, bb_T0 sc, bb_T1 sc) data)
         (\<lambda>(buf, ptr, H, S, T0, T1).
       Inr (sc\<lparr>bb_buf := buf, bb_ptr := ptr, bb_H := H, bb_S := S, bb_T0 := T0, bb_T1 := T1\<rparr>)))"

text \<open>The stack buffer \<open>u.buf\<close> is not initialised; its bytes before \<open>ptr\<close> are never read, and the model starts
  it with zeros.\<close>

definition blake64_close :: "sph_blake_big_context \<Rightarrow> u32 \<Rightarrow> nat \<Rightarrow> nat \<Rightarrow> (byte list \<times> sph_blake_big_context) result" where
  "blake64_close sc ub n out_size_w64 =
    (let ptr = bb_ptr sc;
         bit_len = ptr * 8 + n;
         u = (replicate 128 0)[ptr := pad_byte ub n];
         tl = bb_T0 sc + of_nat bit_len;
         th = bb_T1 sc;
         sc = (if ptr = 0 \<and> n = 0 then sc\<lparr>bb_T0 := 0xFFFFFFFFFFFFFC00, bb_T1 := 0xFFFFFFFFFFFFFFFF\<rparr>
               else if bb_T0 sc = 0 then sc\<lparr>bb_T0 := 0xFFFFFFFFFFFFFC00 + of_nat bit_len, bb_T1 := SPH_T64 (bb_T1 sc - 1)\<rparr>
               else sc\<lparr>bb_T0 := bb_T0 sc - (1024 - of_nat bit_len)\<rparr>)
     in
     bindE (if bit_len \<le> 894 then
         let u = memcpy_at u (ptr + 1) (replicate (111 - ptr) 0);
             u = (if out_size_w64 = 8 then u[111 := u ! 111 OR 1] else u);
             u = memcpy_at u 112 (sph_enc64be th);
             u = memcpy_at u 120 (sph_enc64be tl)
         in blake64 sc (drop ptr u)
       else
         let u = memcpy_at u (ptr + 1) (replicate (127 - ptr) 0)
         in bindE (blake64 sc (drop ptr u)) (\<lambda>sc.
         let sc = sc\<lparr>bb_T0 := 0xFFFFFFFFFFFFFC00, bb_T1 := 0xFFFFFFFFFFFFFFFF\<rparr>;
             u = memcpy_at u 0 (replicate 112 0);
             u = (if out_size_w64 = 8 then u[111 := 1] else u);
             u = memcpy_at u 112 (sph_enc64be th);
             u = memcpy_at u 120 (sph_enc64be tl)
         in blake64 sc u))
       (\<lambda>sc. Inr (concat (map (\<lambda>k. sph_enc64be (bb_H sc ! k)) [0..<out_size_w64]), sc)))"

definition sph_blake384_init :: "sph_blake_big_context \<Rightarrow> sph_blake_big_context" where
  "sph_blake384_init cc = blake64_init cc blake_IV384 salt_zero_big"

definition sph_blake384 :: "sph_blake_big_context \<Rightarrow> byte list \<Rightarrow> sph_blake_big_context result" where
  "sph_blake384 cc data = blake64 cc data"

definition sph_blake384_addbits_and_close ::
    "sph_blake_big_context \<Rightarrow> u32 \<Rightarrow> nat \<Rightarrow> (byte list \<times> sph_blake_big_context) result" where
  "sph_blake384_addbits_and_close cc ub n =
     bindE (blake64_close cc ub n 6) (\<lambda>(dst, cc). Inr (dst, sph_blake384_init cc))"

definition sph_blake384_close :: "sph_blake_big_context \<Rightarrow> (byte list \<times> sph_blake_big_context) result" where
  "sph_blake384_close cc = sph_blake384_addbits_and_close cc 0 0"

definition sph_blake512_init :: "sph_blake_big_context \<Rightarrow> sph_blake_big_context" where
  "sph_blake512_init cc = blake64_init cc blake_IV512 salt_zero_big"

definition sph_blake512 :: "sph_blake_big_context \<Rightarrow> byte list \<Rightarrow> sph_blake_big_context result" where
  "sph_blake512 cc data = blake64 cc data"

definition sph_blake512_addbits_and_close ::
    "sph_blake_big_context \<Rightarrow> u32 \<Rightarrow> nat \<Rightarrow> (byte list \<times> sph_blake_big_context) result" where
  "sph_blake512_addbits_and_close cc ub n =
     bindE (blake64_close cc ub n 8) (\<lambda>(dst, cc). Inr (dst, sph_blake512_init cc))"

definition sph_blake512_close :: "sph_blake_big_context \<Rightarrow> (byte list \<times> sph_blake_big_context) result" where
  "sph_blake512_close cc = sph_blake512_addbits_and_close cc 0 0"
section \<open>The compact variant\<close>

lemma blake_sigma_Z: "r < 16 \<Longrightarrow> blake_sigma ! r = blake_Z ! (r mod 10)"
proof -
  have "list_all (\<lambda>r. blake_sigma ! r = blake_Z ! (r mod 10)) [0..<16]" by code_simp
  then show "r < 16 \<Longrightarrow> blake_sigma ! r = blake_Z ! (r mod 10)" by (auto simp: list_all_iff)
qed

lemma blake_ROUND_S_compact_eq: "r < 16 \<Longrightarrow> blake_ROUND_S_compact M r = blake_ROUND_S M (r mod 10)"
  unfolding blake_ROUND_S_compact_def blake_ROUND_S_def by (simp only: blake_sigma_Z)

text \<open>The compact compression function, a loop over a table of 16 rows, equals the unrolled one, which
  repeats its first rows.\<close>

lemma blake_COMPRESS32_compact_eq: "blake_COMPRESS32_compact buf st = blake_COMPRESS32 buf st"
proof -
  have "[0..<14] = [0, 1, 2, 3, 4, 5, 6, 7, 8, 9, 10, 11, 12, 13]" by (simp add: upt_rec)
  then show ?thesis
    unfolding blake_COMPRESS32_compact_def blake_COMPRESS32_def Let_def
    by (simp add: blake_ROUND_S_compact_eq)
qed

lemma blake_ROUND_B_compact_eq: "r < 16 \<Longrightarrow> blake_ROUND_B_compact M r = blake_ROUND_B M (r mod 10)"
  unfolding blake_ROUND_B_compact_def blake_ROUND_B_def by (simp only: blake_sigma_Z)

text \<open>The compact compression function, a loop over a table of 16 rows, equals the unrolled one, which
  repeats its first rows.\<close>

theorem blake_COMPRESS64_compact_eq: "blake_COMPRESS64_compact buf st = blake_COMPRESS64 buf st"
proof -
  have "[0..<16] = [0, 1, 2, 3, 4, 5, 6, 7, 8, 9, 10, 11, 12, 13, 14, 15]" by (simp add: upt_rec)
  then show ?thesis
    unfolding blake_COMPRESS64_compact_def blake_COMPRESS64_def Let_def
    by (simp add: blake_ROUND_B_compact_eq)
qed

section \<open>The 32-bit version as a streaming hash\<close>

interpretation mode32: blake_mode 64 4 9 sph_enc32be blake_COMPRESS32 blake32_block
  by unfold_locales (simp_all add: blake32_block_def sph_enc32be_def Let_def)

definition blake32_ok :: "sph_blake_small_context \<Rightarrow> bool" where
  "blake32_ok c \<longleftrightarrow> length (bs_buf c) = 64 \<and> bs_ptr c < 64"

definition blake32_mem :: "sph_blake_small_context \<Rightarrow> bool" where
  "blake32_mem c \<longleftrightarrow> length (bs_buf c) = 64"

definition blake32_abs :: "sph_blake_small_context \<Rightarrow> blake32_state \<times> byte list" where
  "blake32_abs c = ((bs_H c, bs_S c, bs_T0 c, bs_T1 c), take (bs_ptr c) (bs_buf c))"

interpretation upd32: sph_update 64 blake32_block blake32_ok blake32_abs blake32
proof
  fix c d assume ok: "blake32_ok c"
  show "\<exists>c'. blake32 c d = Inr c' \<and> blake32_ok c'
    \<and> blake32_abs c' = absorb 64 blake32_block (fst (blake32_abs c)) (snd (blake32_abs c) @ d)"
  proof (cases "length d < 64 - bs_ptr c")
    case True
    then show ?thesis
      using ok take_memcpy_at [of "bs_ptr c" "bs_buf c" d]
      by (simp add: blake32_def blake32_ok_def blake32_abs_def absorb_short Let_def)
  next
    case False
    from ok have "bs_ptr c < 64" and "length (bs_buf c) = 64" by (simp_all add: blake32_ok_def)
    from core_loop_absorb [OF this, of blake32_block "(bs_H c, bs_S c, bs_T0 c, bs_T1 c)" d] False
    show ?thesis by (auto simp: blake32_def blake32_ok_def blake32_abs_def)
  qed
qed simp

definition blake32_digest :: "nat \<Rightarrow> blake32_state \<Rightarrow> byte list \<Rightarrow> byte list" where
  "blake32_digest w st r =
     (let H = blake_final 64 4 sph_enc32be blake32_block (w = 8) st r
      in concat (map (\<lambda>k. sph_enc32be (H ! k)) [0..<w]))"

text \<open>The context with the counter set for the last blocks.\<close>

definition blake32_adjust :: "sph_blake_small_context \<Rightarrow> sph_blake_small_context" where
  "blake32_adjust c = (let A = mode32.adjusted (bs_T0 c) (bs_T1 c) (snd (blake32_abs c)) in c\<lparr>bs_T0 := fst A, bs_T1 := snd A\<rparr>)"

lemma blake32_adjust_abs:
  assumes "blake32_ok c"
  shows "blake32_ok (blake32_adjust c)"
    and "blake32_abs (blake32_adjust c) =
      ((bs_H c, bs_S c, mode32.adjusted (bs_T0 c) (bs_T1 c) (snd (blake32_abs c))), snd (blake32_abs c))"
  using assms by (simp_all add: blake32_adjust_def blake32_ok_def blake32_abs_def Let_def)

lemma blake32_ff: "(0xFFFFFE00 :: u32) = - of_nat (8 * 64)" "(0xFFFFFFFF :: u32) = - 1"
  by simp_all

lemma blake32_adjust_code:
  assumes "blake32_ok c"
  shows "(if bs_ptr c = 0 \<and> (0 :: nat) = 0 then c\<lparr>bs_T0 := 0xFFFFFE00, bs_T1 := 0xFFFFFFFF\<rparr>
      else if bs_T0 c = 0 then c\<lparr>bs_T0 := 0xFFFFFE00 + of_nat (bs_ptr c * 8 + 0), bs_T1 := SPH_T32 (bs_T1 c - 1)\<rparr>
      else c\<lparr>bs_T0 := bs_T0 c - (512 - of_nat (bs_ptr c * 8 + 0))\<rparr>) = blake32_adjust c"
proof -
  have "length (take (bs_ptr c) (bs_buf c)) = bs_ptr c" using assms by (simp add: blake32_ok_def)
  then have "take (bs_ptr c) (bs_buf c) = [] \<longleftrightarrow> bs_ptr c = 0" by auto
  then show ?thesis using assms unfolding blake32_ff
    by (simp add: blake32_adjust_def blake32_abs_def mode32.adjusted_def blake32_ok_def)
qed

lemma blake32_lengths:
  "length (sph_enc32be v) = 4" "56 + length (sph_enc32be v) = 60"
  "56 + length (sph_enc32be v) + length (sph_enc32be v') = 64"
  by (simp_all add: sph_enc32be_def)

lemmas blake32_code_unfold = blake32_close_def Let_def pad_byte_0

text \<open>The length field fits the block: one block is processed.\<close>

lemma blake32_close_short:
  assumes ok: "blake32_ok c" and short: "bs_ptr c < 56"
  shows "\<exists>c'. blake32_close c 0 0 w = Inr (blake32_digest w (fst (blake32_abs c)) (snd (blake32_abs c)), c') \<and> blake32_mem c'"
proof -
  define q r where "q = bs_ptr c" and "r = take q (bs_buf c)"
  have lr: "length r = q" using ok by (simp add: blake32_ok_def q_def r_def)
  have st: "blake32_abs c = ((bs_H c, bs_S c, bs_T0 c, bs_T1 c), r)" by (simp add: blake32_abs_def r_def q_def)
  define x y where "x = sph_enc32be (bs_T1 c)" and "y = sph_enc32be (bs_T0 c + of_nat (q * 8 + 0))"
  note xy = blake32_lengths(2) [of "bs_T1 c", folded x_def]
    blake32_lengths(3) [of "bs_T1 c" "bs_T0 c + of_nat (q * 8 + 0)", folded x_def y_def]
  define u where "u = (replicate 64 0)[q := 0x80 :: byte]"
  have True: "q < 56" using short by (simp add: q_def)
  let ?u = "memcpy_at u (q + 1) (replicate (55 - q) 0)"
  let ?v = "if w = 8 then ?u[55 := ?u ! 55 OR 1] else ?u"
  let ?d = "drop q (memcpy_at (memcpy_at ?v 56 x) 60 y)"
  have hu: "?u = memcpy_at ((replicate 64 0)[q := 0x80]) (q + 1) (replicate (56 - 1 - q) 0)" by (simp add: u_def)
  have hv: "?v = (if w = 8 then ?u[56 - 1 := ?u ! (56 - 1) OR 1] else ?u)" by simp
  have d: "?d = blake_marker (w = 8) (56 - q) @ x @ y" using final_tail [OF True xy(2) hu hv] unfolding xy(1) .
  have "length r + length ?d = 64" unfolding d using True lr xy(2) by simp
  then obtain c2 where c2: "blake32 (blake32_adjust c) ?d = Inr c2" "blake32_ok c2"
    "blake32_abs c2 = (blake32_block (r @ ?d) (fst (blake32_abs (blake32_adjust c))), [])"
    using upd32.core_block [OF blake32_adjust_abs(1) [OF ok], of ?d] blake32_adjust_abs(2) [OF ok] st by auto
  from c2(3) have H: "bs_H c2 = fst (blake32_block (r @ ?d) (fst (blake32_abs (blake32_adjust c))))"
    unfolding blake32_abs_def by (metis fst_conv)
  have "blake32_close c 0 0 w = Inr (concat (map (\<lambda>k. sph_enc32be (bs_H c2 ! k)) [0..<w]), c2)"
    unfolding blake32_code_unfold blake32_adjust_code [OF ok] unfolding q_def [symmetric] u_def [symmetric] x_def [symmetric] y_def [symmetric]
    using c2(1) True by simp
  then show ?thesis using c2(2) True unfolding blake32_digest_def st H d blake32_adjust_abs(2) [OF ok]
    by (simp add: mode32.final_unfold x_def y_def lr mult.commute Let_def blake32_ok_def blake32_mem_def)
qed

text \<open>Otherwise the marker goes into this block and the length into another one.\<close>

lemma blake32_close_long:
  assumes ok: "blake32_ok c" and long: "\<not> bs_ptr c < 56"
  shows "\<exists>c'. blake32_close c 0 0 w = Inr (blake32_digest w (fst (blake32_abs c)) (snd (blake32_abs c)), c') \<and> blake32_mem c'"
proof -
  define q r where "q = bs_ptr c" and "r = take q (bs_buf c)"
  have lr: "length r = q" and q: "q < 64" using ok by (simp_all add: blake32_ok_def q_def r_def)
  have st: "blake32_abs c = ((bs_H c, bs_S c, bs_T0 c, bs_T1 c), r)" by (simp add: blake32_abs_def r_def q_def)
  define x y where "x = sph_enc32be (bs_T1 c)" and "y = sph_enc32be (bs_T0 c + of_nat (q * 8 + 0))"
  note xy = blake32_lengths(2) [of "bs_T1 c", folded x_def]
    blake32_lengths(3) [of "bs_T1 c" "bs_T0 c + of_nat (q * 8 + 0)", folded x_def y_def]
  define u where "u = (replicate 64 0)[q := 0x80 :: byte]"
  have False: "\<not> q < 56" using long by (simp add: q_def)
  let ?u = "memcpy_at u (q + 1) (replicate (63 - q) 0)"
  let ?v = "memcpy_at ?u 0 (replicate 56 0)"
  let ?w = "if w = 8 then ?v[55 := 1] else ?v"
  let ?d = "memcpy_at (memcpy_at ?w 56 x) 60 y"
  have m: "drop q ?u = 0x80 # replicate (63 - q) 0" using final_middle [OF q] by (simp add: u_def)
  have hw: "?w = (if w = 8 then ?v[56 - 1 := 1] else ?v)" by simp
  have lu: "length ?u = 64" using q by (simp add: u_def)
  have d: "?d = replicate (56 - 1) 0 @ [if w = 8 then 1 else 0] @ x @ y"
    using final_last [OF _ xy(2) lu refl hw] unfolding xy(1) by simp
  define X where "X = blake32_block (r @ drop q ?u) (fst (blake32_abs (blake32_adjust c)))"
  have "length r + length (drop q ?u) = 64" unfolding m using q lr by simp
  then obtain c2 where c2: "blake32 (blake32_adjust c) (drop q ?u) = Inr c2" "blake32_ok c2" "blake32_abs c2 = (X, [])"
    using upd32.core_block [OF blake32_adjust_abs(1) [OF ok], of "drop q ?u"] blake32_adjust_abs(2) [OF ok] st
    unfolding X_def by auto
  define c3 where "c3 = c2\<lparr>bs_T0 := 0xFFFFFE00, bs_T1 := 0xFFFFFFFF\<rparr>"
  have "bs_H c2 = fst X" "bs_S c2 = fst (snd X)" "take (bs_ptr c2) (bs_buf c2) = []"
    using c2(3) unfolding blake32_abs_def by (auto simp: prod_eq_iff)
  then have ok3: "blake32_ok c3" and abs3: "blake32_abs c3 = ((fst X, fst (snd X), - of_nat (8 * 64), - 1), [])"
    using c2(2) blake32_ff by (simp_all add: c3_def blake32_ok_def blake32_abs_def)
  have "length ([] :: byte list) + length ?d = 64" unfolding d using xy by simp
  then obtain c4 where c4: "blake32 c3 ?d = Inr c4" "blake32_ok c4"
    "blake32_abs c4 = (blake32_block ?d (fst X, fst (snd X), - of_nat (8 * 64), - 1), [])"
    using upd32.core_block [OF ok3, of ?d] unfolding abs3 by auto
  from c4(3) have H: "bs_H c4 = fst (blake32_block ?d (fst X, fst (snd X), - of_nat (8 * 64), - 1))"
    unfolding blake32_abs_def by (metis fst_conv)
  have "blake32_close c 0 0 w = Inr (concat (map (\<lambda>k. sph_enc32be (bs_H c4 ! k)) [0..<w]), c4)"
    unfolding blake32_code_unfold blake32_adjust_code [OF ok] unfolding q_def [symmetric] u_def [symmetric] x_def [symmetric] y_def [symmetric]
    using c2(1) c4(1) False by (simp add: c3_def)
  then show ?thesis using c4(2) False unfolding blake32_digest_def st H d X_def m blake32_adjust_abs(2) [OF ok]
    by (simp add: mode32.final_unfold x_def y_def lr mult.commute Let_def blake32_ok_def blake32_mem_def)
qed

lemmas blake32_ctx_defs = blake32_init_def blake32_ok_def blake32_mem_def blake32_abs_def

interpretation blake224: sph_hash 64 blake32_block blake32_ok blake32_abs sph_blake224 blake32_mem
  "(blake_IV224, salt_zero_small, 0, 0)" sph_blake224_init sph_blake224_close "blake32_digest 7"
proof
  fix c d assume "blake32_ok c"
  from upd32.core_step [OF this, of d]
  show "\<exists>c'. sph_blake224 c d = Inr c' \<and> blake32_ok c'
    \<and> blake32_abs c' = absorb 64 blake32_block (fst (blake32_abs c)) (snd (blake32_abs c) @ d)"
    unfolding sph_blake224_def .
next
  fix c assume "blake32_ok c"
  then obtain c' where "blake32_close c 0 0 7 = Inr (blake32_digest 7 (fst (blake32_abs c)) (snd (blake32_abs c)), c')"
    "blake32_mem c'" using blake32_close_short blake32_close_long by blast
  then show "\<exists>c'. sph_blake224_close c = Inr (blake32_digest 7 (fst (blake32_abs c)) (snd (blake32_abs c)), c')
    \<and> blake32_ok c' \<and> blake32_abs c' = ((blake_IV224, salt_zero_small, 0, 0), [])"
    by (simp add: sph_blake224_close_def sph_blake224_addbits_and_close_def sph_blake224_init_def
        blake32_ctx_defs blake_IV224_def salt_zero_small_def)
qed (simp_all add: sph_blake224_init_def blake32_ctx_defs blake_IV224_def salt_zero_small_def)

text \<open>BLAKE-224 of a message handed over in any pieces is the digest of the specification: the padded
  concatenation, block by block, each with the number of message bits hashed so far as its counter.\<close>

theorem blake224_correct:
  assumes "blake32_mem c"
  shows "\<exists>c'. bindE (foldE (\<lambda>d c. sph_blake224 c d) ds (sph_blake224_init c)) sph_blake224_close
     = Inr (concat (map (\<lambda>k. sph_enc32be
         (blake_spec 64 4 sph_enc32be blake_COMPRESS32 False salt_zero_small blake_IV224 (concat ds) ! k)) [0..<7]), c')
    \<and> blake32_ok c' \<and> blake32_abs c' = ((blake_IV224, salt_zero_small, 0, 0), [])"
  using blake224.hash_chunks [OF assms, of ds] mode32.final_spec [where iv = blake_IV224 and S = salt_zero_small and m = "concat ds" and flag = "7 = (8 :: nat)"]
  by (simp add: blake224.hash_of_def blake32_digest_def case_prod_unfold)

theorem blake224_correct_witness:
  "\<exists>c'. bindE (foldE (\<lambda>d c. sph_blake224 c d) [[1, 2], [3]]
        (sph_blake224_init \<lparr>bs_buf = replicate 64 0, bs_ptr = 0, bs_H = [], bs_S = [], bs_T0 = 0, bs_T1 = 0\<rparr>)) sph_blake224_close
     = Inr (concat (map (\<lambda>k. sph_enc32be
         (blake_spec 64 4 sph_enc32be blake_COMPRESS32 False salt_zero_small blake_IV224 (concat [[1, 2], [3]]) ! k)) [0..<7]), c')
    \<and> blake32_ok c' \<and> blake32_abs c' = ((blake_IV224, salt_zero_small, 0, 0), [])"
  by (rule blake224_correct) (simp add: blake32_mem_def)

interpretation blake256: sph_hash 64 blake32_block blake32_ok blake32_abs sph_blake256 blake32_mem
  "(blake_IV256, salt_zero_small, 0, 0)" sph_blake256_init sph_blake256_close "blake32_digest 8"
proof
  fix c d assume "blake32_ok c"
  from upd32.core_step [OF this, of d]
  show "\<exists>c'. sph_blake256 c d = Inr c' \<and> blake32_ok c'
    \<and> blake32_abs c' = absorb 64 blake32_block (fst (blake32_abs c)) (snd (blake32_abs c) @ d)"
    unfolding sph_blake256_def .
next
  fix c assume "blake32_ok c"
  then obtain c' where "blake32_close c 0 0 8 = Inr (blake32_digest 8 (fst (blake32_abs c)) (snd (blake32_abs c)), c')"
    "blake32_mem c'" using blake32_close_short blake32_close_long by blast
  then show "\<exists>c'. sph_blake256_close c = Inr (blake32_digest 8 (fst (blake32_abs c)) (snd (blake32_abs c)), c')
    \<and> blake32_ok c' \<and> blake32_abs c' = ((blake_IV256, salt_zero_small, 0, 0), [])"
    by (simp add: sph_blake256_close_def sph_blake256_addbits_and_close_def sph_blake256_init_def
        blake32_ctx_defs blake_IV256_def salt_zero_small_def)
qed (simp_all add: sph_blake256_init_def blake32_ctx_defs blake_IV256_def salt_zero_small_def)

text \<open>BLAKE-256 of a message handed over in any pieces is the digest of the specification: the padded
  concatenation, block by block, each with the number of message bits hashed so far as its counter.\<close>

lemma blake256_correct:
  assumes "blake32_mem c"
  shows "\<exists>c'. bindE (foldE (\<lambda>d c. sph_blake256 c d) ds (sph_blake256_init c)) sph_blake256_close
     = Inr (concat (map (\<lambda>k. sph_enc32be
         (blake_spec 64 4 sph_enc32be blake_COMPRESS32 True salt_zero_small blake_IV256 (concat ds) ! k)) [0..<8]), c')
    \<and> blake32_ok c' \<and> blake32_abs c' = ((blake_IV256, salt_zero_small, 0, 0), [])"
  using blake256.hash_chunks [OF assms, of ds] mode32.final_spec [where iv = blake_IV256 and S = salt_zero_small and m = "concat ds" and flag = "8 = (8 :: nat)"]
  by (simp add: blake256.hash_of_def blake32_digest_def case_prod_unfold)

theorem blake256_correct_witness:
  "\<exists>c'. bindE (foldE (\<lambda>d c. sph_blake256 c d) [[1, 2], [3]]
        (sph_blake256_init \<lparr>bs_buf = replicate 64 0, bs_ptr = 0, bs_H = [], bs_S = [], bs_T0 = 0, bs_T1 = 0\<rparr>)) sph_blake256_close
     = Inr (concat (map (\<lambda>k. sph_enc32be
         (blake_spec 64 4 sph_enc32be blake_COMPRESS32 True salt_zero_small blake_IV256 (concat [[1, 2], [3]]) ! k)) [0..<8]), c')
    \<and> blake32_ok c' \<and> blake32_abs c' = ((blake_IV256, salt_zero_small, 0, 0), [])"
  by (rule blake256_correct) (simp add: blake32_mem_def)

section \<open>The 64-bit version as a streaming hash\<close>

interpretation mode64: blake_mode 128 8 10 sph_enc64be blake_COMPRESS64 blake64_block
  by unfold_locales (simp_all add: blake64_block_def sph_enc64be_def Let_def)

definition blake64_ok :: "sph_blake_big_context \<Rightarrow> bool" where
  "blake64_ok c \<longleftrightarrow> length (bb_buf c) = 128 \<and> bb_ptr c < 128"

definition blake64_mem :: "sph_blake_big_context \<Rightarrow> bool" where
  "blake64_mem c \<longleftrightarrow> length (bb_buf c) = 128"

definition blake64_abs :: "sph_blake_big_context \<Rightarrow> blake64_state \<times> byte list" where
  "blake64_abs c = ((bb_H c, bb_S c, bb_T0 c, bb_T1 c), take (bb_ptr c) (bb_buf c))"

interpretation upd64: sph_update 128 blake64_block blake64_ok blake64_abs blake64
proof
  fix c d assume ok: "blake64_ok c"
  show "\<exists>c'. blake64 c d = Inr c' \<and> blake64_ok c'
    \<and> blake64_abs c' = absorb 128 blake64_block (fst (blake64_abs c)) (snd (blake64_abs c) @ d)"
  proof (cases "length d < 128 - bb_ptr c")
    case True
    then show ?thesis
      using ok take_memcpy_at [of "bb_ptr c" "bb_buf c" d]
      by (simp add: blake64_def blake64_ok_def blake64_abs_def absorb_short Let_def)
  next
    case False
    from ok have "bb_ptr c < 128" and "length (bb_buf c) = 128" by (simp_all add: blake64_ok_def)
    from core_loop_absorb [OF this, of blake64_block "(bb_H c, bb_S c, bb_T0 c, bb_T1 c)" d] False
    show ?thesis by (auto simp: blake64_def blake64_ok_def blake64_abs_def)
  qed
qed simp

definition blake64_digest :: "nat \<Rightarrow> blake64_state \<Rightarrow> byte list \<Rightarrow> byte list" where
  "blake64_digest w st r =
     (let H = blake_final 128 8 sph_enc64be blake64_block (w = 8) st r
      in concat (map (\<lambda>k. sph_enc64be (H ! k)) [0..<w]))"

text \<open>The context with the counter set for the last blocks.\<close>

definition blake64_adjust :: "sph_blake_big_context \<Rightarrow> sph_blake_big_context" where
  "blake64_adjust c = (let A = mode64.adjusted (bb_T0 c) (bb_T1 c) (snd (blake64_abs c)) in c\<lparr>bb_T0 := fst A, bb_T1 := snd A\<rparr>)"

lemma blake64_adjust_abs:
  assumes "blake64_ok c"
  shows "blake64_ok (blake64_adjust c)"
    and "blake64_abs (blake64_adjust c) =
      ((bb_H c, bb_S c, mode64.adjusted (bb_T0 c) (bb_T1 c) (snd (blake64_abs c))), snd (blake64_abs c))"
  using assms by (simp_all add: blake64_adjust_def blake64_ok_def blake64_abs_def Let_def)

lemma blake64_ff: "(0xFFFFFFFFFFFFFC00 :: u64) = - of_nat (8 * 128)" "(0xFFFFFFFFFFFFFFFF :: u64) = - 1"
  by simp_all

lemma blake64_adjust_code:
  assumes "blake64_ok c"
  shows "(if bb_ptr c = 0 \<and> (0 :: nat) = 0 then c\<lparr>bb_T0 := 0xFFFFFFFFFFFFFC00, bb_T1 := 0xFFFFFFFFFFFFFFFF\<rparr>
      else if bb_T0 c = 0 then c\<lparr>bb_T0 := 0xFFFFFFFFFFFFFC00 + of_nat (bb_ptr c * 8 + 0), bb_T1 := SPH_T64 (bb_T1 c - 1)\<rparr>
      else c\<lparr>bb_T0 := bb_T0 c - (1024 - of_nat (bb_ptr c * 8 + 0))\<rparr>) = blake64_adjust c"
proof -
  have "length (take (bb_ptr c) (bb_buf c)) = bb_ptr c" using assms by (simp add: blake64_ok_def)
  then have "take (bb_ptr c) (bb_buf c) = [] \<longleftrightarrow> bb_ptr c = 0" by auto
  then show ?thesis using assms unfolding blake64_ff
    by (simp add: blake64_adjust_def blake64_abs_def mode64.adjusted_def blake64_ok_def)
qed

lemma blake64_lengths:
  "length (sph_enc64be v) = 8" "112 + length (sph_enc64be v) = 120"
  "112 + length (sph_enc64be v) + length (sph_enc64be v') = 128"
  by (simp_all add: sph_enc64be_def)

lemmas blake64_code_unfold = blake64_close_def Let_def pad_byte_0

text \<open>The length field fits the block: one block is processed.\<close>

lemma blake64_close_short:
  assumes ok: "blake64_ok c" and short: "bb_ptr c < 112"
  shows "\<exists>c'. blake64_close c 0 0 w = Inr (blake64_digest w (fst (blake64_abs c)) (snd (blake64_abs c)), c') \<and> blake64_mem c'"
proof -
  define q r where "q = bb_ptr c" and "r = take q (bb_buf c)"
  have lr: "length r = q" using ok by (simp add: blake64_ok_def q_def r_def)
  have st: "blake64_abs c = ((bb_H c, bb_S c, bb_T0 c, bb_T1 c), r)" by (simp add: blake64_abs_def r_def q_def)
  define x y where "x = sph_enc64be (bb_T1 c)" and "y = sph_enc64be (bb_T0 c + of_nat (q * 8 + 0))"
  note xy = blake64_lengths(2) [of "bb_T1 c", folded x_def]
    blake64_lengths(3) [of "bb_T1 c" "bb_T0 c + of_nat (q * 8 + 0)", folded x_def y_def]
  define u where "u = (replicate 128 0)[q := 0x80 :: byte]"
  have True: "q < 112" using short by (simp add: q_def)
  let ?u = "memcpy_at u (q + 1) (replicate (111 - q) 0)"
  let ?v = "if w = 8 then ?u[111 := ?u ! 111 OR 1] else ?u"
  let ?d = "drop q (memcpy_at (memcpy_at ?v 112 x) 120 y)"
  have hu: "?u = memcpy_at ((replicate 128 0)[q := 0x80]) (q + 1) (replicate (112 - 1 - q) 0)" by (simp add: u_def)
  have hv: "?v = (if w = 8 then ?u[112 - 1 := ?u ! (112 - 1) OR 1] else ?u)" by simp
  have d: "?d = blake_marker (w = 8) (112 - q) @ x @ y" using final_tail [OF True xy(2) hu hv] unfolding xy(1) .
  have "length r + length ?d = 128" unfolding d using True lr xy(2) by simp
  then obtain c2 where c2: "blake64 (blake64_adjust c) ?d = Inr c2" "blake64_ok c2"
    "blake64_abs c2 = (blake64_block (r @ ?d) (fst (blake64_abs (blake64_adjust c))), [])"
    using upd64.core_block [OF blake64_adjust_abs(1) [OF ok], of ?d] blake64_adjust_abs(2) [OF ok] st by auto
  from c2(3) have H: "bb_H c2 = fst (blake64_block (r @ ?d) (fst (blake64_abs (blake64_adjust c))))"
    unfolding blake64_abs_def by (metis fst_conv)
  have "blake64_close c 0 0 w = Inr (concat (map (\<lambda>k. sph_enc64be (bb_H c2 ! k)) [0..<w]), c2)"
    unfolding blake64_code_unfold blake64_adjust_code [OF ok] unfolding q_def [symmetric] u_def [symmetric] x_def [symmetric] y_def [symmetric]
    using c2(1) True by simp
  then show ?thesis using c2(2) True unfolding blake64_digest_def st H d blake64_adjust_abs(2) [OF ok]
    by (simp add: mode64.final_unfold x_def y_def lr mult.commute Let_def blake64_ok_def blake64_mem_def)
qed

text \<open>Otherwise the marker goes into this block and the length into another one.\<close>

lemma blake64_close_long:
  assumes ok: "blake64_ok c" and long: "\<not> bb_ptr c < 112"
  shows "\<exists>c'. blake64_close c 0 0 w = Inr (blake64_digest w (fst (blake64_abs c)) (snd (blake64_abs c)), c') \<and> blake64_mem c'"
proof -
  define q r where "q = bb_ptr c" and "r = take q (bb_buf c)"
  have lr: "length r = q" and q: "q < 128" using ok by (simp_all add: blake64_ok_def q_def r_def)
  have st: "blake64_abs c = ((bb_H c, bb_S c, bb_T0 c, bb_T1 c), r)" by (simp add: blake64_abs_def r_def q_def)
  define x y where "x = sph_enc64be (bb_T1 c)" and "y = sph_enc64be (bb_T0 c + of_nat (q * 8 + 0))"
  note xy = blake64_lengths(2) [of "bb_T1 c", folded x_def]
    blake64_lengths(3) [of "bb_T1 c" "bb_T0 c + of_nat (q * 8 + 0)", folded x_def y_def]
  define u where "u = (replicate 128 0)[q := 0x80 :: byte]"
  have False: "\<not> q < 112" using long by (simp add: q_def)
  let ?u = "memcpy_at u (q + 1) (replicate (127 - q) 0)"
  let ?v = "memcpy_at ?u 0 (replicate 112 0)"
  let ?w = "if w = 8 then ?v[111 := 1] else ?v"
  let ?d = "memcpy_at (memcpy_at ?w 112 x) 120 y"
  have m: "drop q ?u = 0x80 # replicate (127 - q) 0" using final_middle [OF q] by (simp add: u_def)
  have hw: "?w = (if w = 8 then ?v[112 - 1 := 1] else ?v)" by simp
  have lu: "length ?u = 128" using q by (simp add: u_def)
  have d: "?d = replicate (112 - 1) 0 @ [if w = 8 then 1 else 0] @ x @ y"
    using final_last [OF _ xy(2) lu refl hw] unfolding xy(1) by simp
  define X where "X = blake64_block (r @ drop q ?u) (fst (blake64_abs (blake64_adjust c)))"
  have "length r + length (drop q ?u) = 128" unfolding m using q lr by simp
  then obtain c2 where c2: "blake64 (blake64_adjust c) (drop q ?u) = Inr c2" "blake64_ok c2" "blake64_abs c2 = (X, [])"
    using upd64.core_block [OF blake64_adjust_abs(1) [OF ok], of "drop q ?u"] blake64_adjust_abs(2) [OF ok] st
    unfolding X_def by auto
  define c3 where "c3 = c2\<lparr>bb_T0 := 0xFFFFFFFFFFFFFC00, bb_T1 := 0xFFFFFFFFFFFFFFFF\<rparr>"
  have "bb_H c2 = fst X" "bb_S c2 = fst (snd X)" "take (bb_ptr c2) (bb_buf c2) = []"
    using c2(3) unfolding blake64_abs_def by (auto simp: prod_eq_iff)
  then have ok3: "blake64_ok c3" and abs3: "blake64_abs c3 = ((fst X, fst (snd X), - of_nat (8 * 128), - 1), [])"
    using c2(2) blake64_ff by (simp_all add: c3_def blake64_ok_def blake64_abs_def)
  have "length ([] :: byte list) + length ?d = 128" unfolding d using xy by simp
  then obtain c4 where c4: "blake64 c3 ?d = Inr c4" "blake64_ok c4"
    "blake64_abs c4 = (blake64_block ?d (fst X, fst (snd X), - of_nat (8 * 128), - 1), [])"
    using upd64.core_block [OF ok3, of ?d] unfolding abs3 by auto
  from c4(3) have H: "bb_H c4 = fst (blake64_block ?d (fst X, fst (snd X), - of_nat (8 * 128), - 1))"
    unfolding blake64_abs_def by (metis fst_conv)
  have "blake64_close c 0 0 w = Inr (concat (map (\<lambda>k. sph_enc64be (bb_H c4 ! k)) [0..<w]), c4)"
    unfolding blake64_code_unfold blake64_adjust_code [OF ok] unfolding q_def [symmetric] u_def [symmetric] x_def [symmetric] y_def [symmetric]
    using c2(1) c4(1) False by (simp add: c3_def)
  then show ?thesis using c4(2) False unfolding blake64_digest_def st H d X_def m blake64_adjust_abs(2) [OF ok]
    by (simp add: mode64.final_unfold x_def y_def lr mult.commute Let_def blake64_ok_def blake64_mem_def)
qed

lemmas blake64_ctx_defs = blake64_init_def blake64_ok_def blake64_mem_def blake64_abs_def

interpretation blake384: sph_hash 128 blake64_block blake64_ok blake64_abs sph_blake384 blake64_mem
  "(blake_IV384, salt_zero_big, 0, 0)" sph_blake384_init sph_blake384_close "blake64_digest 6"
proof
  fix c d assume "blake64_ok c"
  from upd64.core_step [OF this, of d]
  show "\<exists>c'. sph_blake384 c d = Inr c' \<and> blake64_ok c'
    \<and> blake64_abs c' = absorb 128 blake64_block (fst (blake64_abs c)) (snd (blake64_abs c) @ d)"
    unfolding sph_blake384_def .
next
  fix c assume "blake64_ok c"
  then obtain c' where "blake64_close c 0 0 6 = Inr (blake64_digest 6 (fst (blake64_abs c)) (snd (blake64_abs c)), c')"
    "blake64_mem c'" using blake64_close_short blake64_close_long by blast
  then show "\<exists>c'. sph_blake384_close c = Inr (blake64_digest 6 (fst (blake64_abs c)) (snd (blake64_abs c)), c')
    \<and> blake64_ok c' \<and> blake64_abs c' = ((blake_IV384, salt_zero_big, 0, 0), [])"
    by (simp add: sph_blake384_close_def sph_blake384_addbits_and_close_def sph_blake384_init_def
        blake64_ctx_defs blake_IV384_def salt_zero_big_def)
qed (simp_all add: sph_blake384_init_def blake64_ctx_defs blake_IV384_def salt_zero_big_def)

text \<open>BLAKE-384 of a message handed over in any pieces is the digest of the specification: the padded
  concatenation, block by block, each with the number of message bits hashed so far as its counter.\<close>

theorem blake384_correct:
  assumes "blake64_mem c"
  shows "\<exists>c'. bindE (foldE (\<lambda>d c. sph_blake384 c d) ds (sph_blake384_init c)) sph_blake384_close
     = Inr (concat (map (\<lambda>k. sph_enc64be
         (blake_spec 128 8 sph_enc64be blake_COMPRESS64 False salt_zero_big blake_IV384 (concat ds) ! k)) [0..<6]), c')
    \<and> blake64_ok c' \<and> blake64_abs c' = ((blake_IV384, salt_zero_big, 0, 0), [])"
  using blake384.hash_chunks [OF assms, of ds] mode64.final_spec [where iv = blake_IV384 and S = salt_zero_big and m = "concat ds" and flag = "6 = (8 :: nat)"]
  by (simp add: blake384.hash_of_def blake64_digest_def case_prod_unfold)

theorem blake384_correct_witness:
  "\<exists>c'. bindE (foldE (\<lambda>d c. sph_blake384 c d) [[1, 2], [3]]
        (sph_blake384_init \<lparr>bb_buf = replicate 128 0, bb_ptr = 0, bb_H = [], bb_S = [], bb_T0 = 0, bb_T1 = 0\<rparr>)) sph_blake384_close
     = Inr (concat (map (\<lambda>k. sph_enc64be
         (blake_spec 128 8 sph_enc64be blake_COMPRESS64 False salt_zero_big blake_IV384 (concat [[1, 2], [3]]) ! k)) [0..<6]), c')
    \<and> blake64_ok c' \<and> blake64_abs c' = ((blake_IV384, salt_zero_big, 0, 0), [])"
  by (rule blake384_correct) (simp add: blake64_mem_def)

interpretation blake512: sph_hash 128 blake64_block blake64_ok blake64_abs sph_blake512 blake64_mem
  "(blake_IV512, salt_zero_big, 0, 0)" sph_blake512_init sph_blake512_close "blake64_digest 8"
proof
  fix c d assume "blake64_ok c"
  from upd64.core_step [OF this, of d]
  show "\<exists>c'. sph_blake512 c d = Inr c' \<and> blake64_ok c'
    \<and> blake64_abs c' = absorb 128 blake64_block (fst (blake64_abs c)) (snd (blake64_abs c) @ d)"
    unfolding sph_blake512_def .
next
  fix c assume "blake64_ok c"
  then obtain c' where "blake64_close c 0 0 8 = Inr (blake64_digest 8 (fst (blake64_abs c)) (snd (blake64_abs c)), c')"
    "blake64_mem c'" using blake64_close_short blake64_close_long by blast
  then show "\<exists>c'. sph_blake512_close c = Inr (blake64_digest 8 (fst (blake64_abs c)) (snd (blake64_abs c)), c')
    \<and> blake64_ok c' \<and> blake64_abs c' = ((blake_IV512, salt_zero_big, 0, 0), [])"
    by (simp add: sph_blake512_close_def sph_blake512_addbits_and_close_def sph_blake512_init_def
        blake64_ctx_defs blake_IV512_def salt_zero_big_def)
qed (simp_all add: sph_blake512_init_def blake64_ctx_defs blake_IV512_def salt_zero_big_def)

text \<open>C19: BLAKE-512 of a message handed over in any pieces is the digest of the specification: the padded
  concatenation, block by block, each with the number of message bits hashed so far as its counter.\<close>

theorem blake512_correct:
  assumes "blake64_mem c"
  shows "\<exists>c'. bindE (foldE (\<lambda>d c. sph_blake512 c d) ds (sph_blake512_init c)) sph_blake512_close
     = Inr (concat (map (\<lambda>k. sph_enc64be
         (blake_spec 128 8 sph_enc64be blake_COMPRESS64 True salt_zero_big blake_IV512 (concat ds) ! k)) [0..<8]), c')
    \<and> blake64_ok c' \<and> blake64_abs c' = ((blake_IV512, salt_zero_big, 0, 0), [])"
  using blake512.hash_chunks [OF assms, of ds] mode64.final_spec [where iv = blake_IV512 and S = salt_zero_big and m = "concat ds" and flag = "8 = (8 :: nat)"]
  by (simp add: blake512.hash_of_def blake64_digest_def case_prod_unfold)

theorem blake512_correct_witness:
  "\<exists>c'. bindE (foldE (\<lambda>d c. sph_blake512 c d) [[1, 2], [3]]
        (sph_blake512_init \<lparr>bb_buf = replicate 128 0, bb_ptr = 0, bb_H = [], bb_S = [], bb_T0 = 0, bb_T1 = 0\<rparr>)) sph_blake512_close
     = Inr (concat (map (\<lambda>k. sph_enc64be
         (blake_spec 128 8 sph_enc64be blake_COMPRESS64 True salt_zero_big blake_IV512 (concat [[1, 2], [3]]) ! k)) [0..<8]), c')
    \<and> blake64_ok c' \<and> blake64_abs c' = ((blake_IV512, salt_zero_big, 0, 0), [])"
  by (rule blake512_correct) (simp add: blake64_mem_def)
end
