(* ===== verification/Keccak.thy ===== *)
theory Keccak
  imports Sph_Stream
begin

text \<open>
  Keccak (\<open>blockhash/keccak.c\<close>), the 64-bit implementation without copy of the state. The 25 lanes are the
  array \<open>wide\<close>; the macros \<open>THETA\<close>, \<open>RHO\<close> and \<open>KHI\<close> work on 25 lanes given as parameters in the order
  \<open>b00, b01, ..., b44\<close>, and the macros \<open>P0\<close> to \<open>P23\<close> say which lanes of the array these are in a round: the
  permutation step of the algorithm is left to the names. The code also keeps six lanes complemented.
  Every unroll setting of the source is modelled.
\<close>

section \<open>Tables\<close>

definition keccak_RC :: "u64 list" where
  "keccak_RC = [
     0x0000000000000001, 0x0000000000008082, 0x800000000000808A, 0x8000000080008000,
     0x000000000000808B, 0x0000000080000001, 0x8000000080008081, 0x8000000000008009,
     0x000000000000008A, 0x0000000000000088, 0x0000000080008009, 0x000000008000000A,
     0x000000008000808B, 0x800000000000008B, 0x8000000000008089, 0x8000000000008003,
     0x8000000000008002, 0x8000000000000080, 0x000000000000800A, 0x800000008000000A,
     0x8000000080008081, 0x8000000000008080, 0x0000000080000001, 0x8000000080008008]"

text \<open>The lane of \<open>wide\<close> that stands for each parameter in round \<open>r\<close>: \<open>a\<close> with indices \<open>x\<close>, \<open>y\<close> is \<open>wide[x + 5 * y]\<close>.\<close>

definition keccak_P :: "nat list list" where
  "keccak_P =
    [[0, 5, 10, 15, 20, 1, 6, 11, 16, 21, 2, 7, 12, 17, 22, 3, 8, 13, 18, 23, 4, 9, 14, 19, 24],
     [0, 3, 1, 4, 2, 6, 9, 7, 5, 8, 12, 10, 13, 11, 14, 18, 16, 19, 17, 15, 24, 22, 20, 23, 21],
     [0, 18, 6, 24, 12, 9, 22, 10, 3, 16, 13, 1, 19, 7, 20, 17, 5, 23, 11, 4, 21, 14, 2, 15, 8],
     [0, 17, 9, 21, 13, 22, 14, 1, 18, 5, 19, 6, 23, 10, 2, 11, 3, 15, 7, 24, 8, 20, 12, 4, 16],
     [0, 11, 22, 8, 19, 14, 20, 6, 17, 3, 23, 9, 15, 1, 12, 7, 18, 4, 10, 21, 16, 2, 13, 24, 5],
     [0, 7, 14, 16, 23, 20, 2, 9, 11, 18, 15, 22, 4, 6, 13, 10, 17, 24, 1, 8, 5, 12, 19, 21, 3],
     [0, 10, 20, 5, 15, 2, 12, 22, 7, 17, 4, 14, 24, 9, 19, 1, 11, 21, 6, 16, 3, 13, 23, 8, 18],
     [0, 1, 2, 3, 4, 12, 13, 14, 10, 11, 24, 20, 21, 22, 23, 6, 7, 8, 9, 5, 18, 19, 15, 16, 17],
     [0, 6, 12, 18, 24, 13, 19, 20, 1, 7, 21, 2, 8, 14, 15, 9, 10, 16, 22, 3, 17, 23, 4, 5, 11],
     [0, 9, 13, 17, 21, 19, 23, 2, 6, 10, 8, 12, 16, 20, 4, 22, 1, 5, 14, 18, 11, 15, 24, 3, 7],
     [0, 22, 19, 11, 8, 23, 15, 12, 9, 1, 16, 13, 5, 2, 24, 14, 6, 3, 20, 17, 7, 4, 21, 18, 10],
     [0, 14, 23, 7, 16, 15, 4, 13, 22, 6, 5, 19, 3, 12, 21, 20, 9, 18, 2, 11, 10, 24, 8, 17, 1],
     [0, 20, 15, 10, 5, 4, 24, 19, 14, 9, 3, 23, 18, 13, 8, 2, 22, 17, 12, 7, 1, 21, 16, 11, 6],
     [0, 2, 4, 1, 3, 24, 21, 23, 20, 22, 18, 15, 17, 19, 16, 12, 14, 11, 13, 10, 6, 8, 5, 7, 9],
     [0, 12, 24, 6, 18, 21, 8, 15, 2, 14, 17, 4, 11, 23, 5, 13, 20, 7, 19, 1, 9, 16, 3, 10, 22],
     [0, 13, 21, 9, 17, 8, 16, 4, 12, 20, 11, 24, 7, 15, 3, 19, 2, 10, 23, 6, 22, 5, 18, 1, 14],
     [0, 19, 8, 22, 11, 16, 5, 24, 13, 2, 7, 21, 10, 4, 18, 23, 12, 1, 15, 9, 14, 3, 17, 6, 20],
     [0, 23, 16, 14, 7, 5, 3, 21, 19, 12, 10, 8, 1, 24, 17, 15, 13, 6, 4, 22, 20, 18, 11, 9, 2],
     [0, 15, 5, 20, 10, 3, 18, 8, 23, 13, 1, 16, 6, 21, 11, 4, 19, 9, 24, 14, 2, 17, 7, 22, 12],
     [0, 4, 3, 2, 1, 18, 17, 16, 15, 19, 6, 5, 9, 8, 7, 24, 23, 22, 21, 20, 12, 11, 10, 14, 13],
     [0, 24, 18, 12, 6, 17, 11, 5, 4, 23, 9, 3, 22, 16, 10, 21, 15, 14, 8, 2, 13, 7, 1, 20, 19],
     [0, 21, 17, 13, 9, 11, 7, 3, 24, 15, 22, 18, 14, 5, 1, 8, 4, 20, 16, 12, 19, 10, 6, 2, 23],
     [0, 8, 11, 19, 22, 7, 10, 18, 21, 4, 14, 17, 20, 3, 6, 16, 24, 2, 5, 13, 23, 1, 9, 12, 15],
     [0, 16, 7, 23, 14, 10, 1, 17, 8, 24, 20, 11, 2, 18, 9, 5, 21, 12, 3, 19, 15, 6, 22, 13, 4]]"

section \<open>Steps\<close>

definition keccak_TH_ELT :: "u64 \<Rightarrow> u64 \<Rightarrow> u64 \<Rightarrow> u64 \<Rightarrow> u64 \<Rightarrow> u64 \<Rightarrow> u64 \<Rightarrow> u64 \<Rightarrow> u64 \<Rightarrow> u64 \<Rightarrow> u64" where
  "keccak_TH_ELT c0 c1 c2 c3 c4 d0 d1 d2 d3 d4 =
    (let
      tt0 = d0 XOR d1;
      tt1 = d2 XOR d3;
      tt0 = tt0 XOR d4;
      tt0 = tt0 XOR tt1;
      tt0 = SPH_ROTL64 tt0 1;
      tt2 = c0 XOR c1;
      tt3 = c2 XOR c3;
      tt0 = tt0 XOR c4;
      tt2 = tt2 XOR tt3;
      t = tt0 XOR tt2
    in t)"

definition keccak_THETA :: "u64 list \<Rightarrow> u64 list" where
  "keccak_THETA b = (case b of [b00, b01, b02, b03, b04, b10, b11, b12, b13, b14, b20, b21, b22, b23, b24, b30, b31, b32, b33, b34, b40, b41, b42, b43, b44] \<Rightarrow>
    let
      t0 = keccak_TH_ELT b40 b41 b42 b43 b44 b10 b11 b12 b13 b14;
      t1 = keccak_TH_ELT b00 b01 b02 b03 b04 b20 b21 b22 b23 b24;
      t2 = keccak_TH_ELT b10 b11 b12 b13 b14 b30 b31 b32 b33 b34;
      t3 = keccak_TH_ELT b20 b21 b22 b23 b24 b40 b41 b42 b43 b44;
      t4 = keccak_TH_ELT b30 b31 b32 b33 b34 b00 b01 b02 b03 b04;
      b00 = b00 XOR t0;
      b01 = b01 XOR t0;
      b02 = b02 XOR t0;
      b03 = b03 XOR t0;
      b04 = b04 XOR t0;
      b10 = b10 XOR t1;
      b11 = b11 XOR t1;
      b12 = b12 XOR t1;
      b13 = b13 XOR t1;
      b14 = b14 XOR t1;
      b20 = b20 XOR t2;
      b21 = b21 XOR t2;
      b22 = b22 XOR t2;
      b23 = b23 XOR t2;
      b24 = b24 XOR t2;
      b30 = b30 XOR t3;
      b31 = b31 XOR t3;
      b32 = b32 XOR t3;
      b33 = b33 XOR t3;
      b34 = b34 XOR t3;
      b40 = b40 XOR t4;
      b41 = b41 XOR t4;
      b42 = b42 XOR t4;
      b43 = b43 XOR t4;
      b44 = b44 XOR t4
    in [b00, b01, b02, b03, b04, b10, b11, b12, b13, b14, b20, b21, b22, b23, b24, b30, b31, b32, b33, b34, b40, b41, b42, b43, b44]
    | _ \<Rightarrow> b)"

definition keccak_RHO :: "u64 list \<Rightarrow> u64 list" where
  "keccak_RHO b = (case b of [b00, b01, b02, b03, b04, b10, b11, b12, b13, b14, b20, b21, b22, b23, b24, b30, b31, b32, b33, b34, b40, b41, b42, b43, b44] \<Rightarrow>
    let
      b01 = SPH_ROTL64 b01 36;
      b02 = SPH_ROTL64 b02 3;
      b03 = SPH_ROTL64 b03 41;
      b04 = SPH_ROTL64 b04 18;
      b10 = SPH_ROTL64 b10 1;
      b11 = SPH_ROTL64 b11 44;
      b12 = SPH_ROTL64 b12 10;
      b13 = SPH_ROTL64 b13 45;
      b14 = SPH_ROTL64 b14 2;
      b20 = SPH_ROTL64 b20 62;
      b21 = SPH_ROTL64 b21 6;
      b22 = SPH_ROTL64 b22 43;
      b23 = SPH_ROTL64 b23 15;
      b24 = SPH_ROTL64 b24 61;
      b30 = SPH_ROTL64 b30 28;
      b31 = SPH_ROTL64 b31 55;
      b32 = SPH_ROTL64 b32 25;
      b33 = SPH_ROTL64 b33 21;
      b34 = SPH_ROTL64 b34 56;
      b40 = SPH_ROTL64 b40 27;
      b41 = SPH_ROTL64 b41 20;
      b42 = SPH_ROTL64 b42 39;
      b43 = SPH_ROTL64 b43 8;
      b44 = SPH_ROTL64 b44 14
    in [b00, b01, b02, b03, b04, b10, b11, b12, b13, b14, b20, b21, b22, b23, b24, b30, b31, b32, b33, b34, b40, b41, b42, b43, b44]
    | _ \<Rightarrow> b)"

definition keccak_KHI_XO :: "u64 \<Rightarrow> u64 \<Rightarrow> u64 \<Rightarrow> u64" where
  "keccak_KHI_XO a b c = (let kt = b OR c in a XOR kt)"

definition keccak_KHI_XA :: "u64 \<Rightarrow> u64 \<Rightarrow> u64 \<Rightarrow> u64" where
  "keccak_KHI_XA a b c = (let kt = b AND c in a XOR kt)"

definition keccak_KHI :: "u64 list \<Rightarrow> u64 list" where
  "keccak_KHI b = (case b of [b00, b01, b02, b03, b04, b10, b11, b12, b13, b14, b20, b21, b22, b23, b24, b30, b31, b32, b33, b34, b40, b41, b42, b43, b44] \<Rightarrow>
    let
      bnn = SPH_T64 (NOT b20);
      c0 = keccak_KHI_XO b00 b10 b20;
      c1 = keccak_KHI_XO b10 bnn b30;
      c2 = keccak_KHI_XA b20 b30 b40;
      c3 = keccak_KHI_XO b30 b40 b00;
      c4 = keccak_KHI_XA b40 b00 b10;
      b00 = c0;
      b10 = c1;
      b20 = c2;
      b30 = c3;
      b40 = c4;
      bnn = SPH_T64 (NOT b41);
      c0 = keccak_KHI_XO b01 b11 b21;
      c1 = keccak_KHI_XA b11 b21 b31;
      c2 = keccak_KHI_XO b21 b31 bnn;
      c3 = keccak_KHI_XO b31 b41 b01;
      c4 = keccak_KHI_XA b41 b01 b11;
      b01 = c0;
      b11 = c1;
      b21 = c2;
      b31 = c3;
      b41 = c4;
      bnn = SPH_T64 (NOT b32);
      c0 = keccak_KHI_XO b02 b12 b22;
      c1 = keccak_KHI_XA b12 b22 b32;
      c2 = keccak_KHI_XA b22 bnn b42;
      c3 = keccak_KHI_XO bnn b42 b02;
      c4 = keccak_KHI_XA b42 b02 b12;
      b02 = c0;
      b12 = c1;
      b22 = c2;
      b32 = c3;
      b42 = c4;
      bnn = SPH_T64 (NOT b33);
      c0 = keccak_KHI_XA b03 b13 b23;
      c1 = keccak_KHI_XO b13 b23 b33;
      c2 = keccak_KHI_XO b23 bnn b43;
      c3 = keccak_KHI_XA bnn b43 b03;
      c4 = keccak_KHI_XO b43 b03 b13;
      b03 = c0;
      b13 = c1;
      b23 = c2;
      b33 = c3;
      b43 = c4;
      bnn = SPH_T64 (NOT b14);
      c0 = keccak_KHI_XA b04 bnn b24;
      c1 = keccak_KHI_XO bnn b24 b34;
      c2 = keccak_KHI_XA b24 b34 b44;
      c3 = keccak_KHI_XO b34 b44 b04;
      c4 = keccak_KHI_XA b44 b04 b14;
      b04 = c0;
      b14 = c1;
      b24 = c2;
      b34 = c3;
      b44 = c4
    in [b00, b01, b02, b03, b04, b10, b11, b12, b13, b14, b20, b21, b22, b23, b24, b30, b31, b32, b33, b34, b40, b41, b42, b43, b44]
    | _ \<Rightarrow> b)"

definition keccak_IOTA :: "u64 \<Rightarrow> u64 list \<Rightarrow> u64 list" where
  "keccak_IOTA k a = a[0 := a ! 0 XOR k]"

text \<open>A macro applied to the lanes of \<open>wide\<close> that a parameter list names.\<close>

definition gather :: "nat list \<Rightarrow> 'a list \<Rightarrow> 'a list" where
  "gather p a = map (\<lambda>i. a ! i) p"

definition scatter :: "nat list \<Rightarrow> 'a list \<Rightarrow> 'a list \<Rightarrow> 'a list" where
  "scatter p v a = fold (\<lambda>(i, x) a. a[i := x]) (zip p v) a"

definition keccak_KF_ELT :: "nat \<Rightarrow> nat \<Rightarrow> u64 \<Rightarrow> u64 list \<Rightarrow> u64 list" where
  "keccak_KF_ELT r s k a =
    (let a = scatter (keccak_P ! r) (keccak_THETA (gather (keccak_P ! r) a)) a;
         a = scatter (keccak_P ! r) (keccak_RHO (gather (keccak_P ! r) a)) a;
         a = scatter (keccak_P ! s) (keccak_KHI (gather (keccak_P ! s) a)) a
     in keccak_IOTA k a)"

section \<open>Permuting the lanes back\<close>

text \<open>A sequence of assignments between lanes; index 25 is the temporary.\<close>

definition keccak_moves :: "(nat \<times> nat) list \<Rightarrow> u64 list \<Rightarrow> u64 list" where
  "keccak_moves ms a = take 25 (fold (\<lambda>(d, s) a. a[d := a ! s]) ms (a @ [0]))"

definition keccak_P1_TO_P0 :: "u64 list \<Rightarrow> u64 list" where
  "keccak_P1_TO_P0 = keccak_moves [
     (25, 5), (5, 3), (3, 18), (18, 17), (17, 11), (11, 7), (7, 10), (10, 1), (1, 6), (6, 9),
     (9, 22), (22, 14), (14, 20), (20, 2), (2, 12), (12, 13), (13, 19), (19, 23), (23, 15),
     (15, 4), (4, 24), (24, 21), (21, 8), (8, 16), (16, 25)]"

definition keccak_P2_TO_P0 :: "u64 list \<Rightarrow> u64 list" where
  "keccak_P2_TO_P0 = keccak_moves [
     (25, 5), (5, 18), (18, 11), (11, 10), (10, 6), (6, 22), (22, 20), (20, 12), (12, 19),
     (19, 15), (15, 24), (24, 8), (8, 25), (25, 1), (1, 9), (9, 14), (14, 2), (2, 13),
     (13, 23), (23, 4), (4, 21), (21, 16), (16, 3), (3, 17), (17, 7), (7, 25)]"

definition keccak_P4_TO_P0 :: "u64 list \<Rightarrow> u64 list" where
  "keccak_P4_TO_P0 = keccak_moves [
     (25, 5), (5, 11), (11, 6), (6, 20), (20, 19), (19, 24), (24, 25), (25, 10), (10, 22),
     (22, 12), (12, 15), (15, 8), (8, 18), (18, 25), (25, 1), (1, 14), (14, 13), (13, 4),
     (4, 16), (16, 17), (17, 25), (25, 21), (21, 3), (3, 7), (7, 9), (9, 2), (2, 23), (23, 25)]"

definition keccak_P6_TO_P0 :: "u64 list \<Rightarrow> u64 list" where
  "keccak_P6_TO_P0 = keccak_moves [
     (25, 5), (5, 10), (10, 20), (20, 15), (15, 25), (25, 1), (1, 2), (2, 4), (4, 3), (3, 25),
     (25, 6), (6, 12), (12, 24), (24, 18), (18, 25), (25, 11), (11, 22), (22, 19), (19, 8),
     (8, 25), (25, 16), (16, 7), (7, 14), (14, 23), (23, 25), (25, 21), (21, 17), (17, 9),
     (9, 13), (13, 25)]"

definition keccak_P8_TO_P0 :: "u64 list \<Rightarrow> u64 list" where
  "keccak_P8_TO_P0 = keccak_moves [
     (25, 5), (5, 6), (6, 19), (19, 25), (25, 10), (10, 12), (12, 8), (8, 25), (25, 15),
     (15, 18), (18, 22), (22, 25), (25, 20), (20, 24), (24, 11), (11, 25), (25, 1), (1, 13),
     (13, 16), (16, 25), (25, 21), (21, 7), (7, 2), (2, 25), (25, 17), (17, 14), (14, 4),
     (4, 25), (25, 3), (3, 9), (9, 23), (23, 25)]"

definition keccak_P12_TO_P0 :: "u64 list \<Rightarrow> u64 list" where
  "keccak_P12_TO_P0 = keccak_moves [
     (25, 5), (5, 20), (20, 25), (25, 10), (10, 15), (15, 25), (25, 1), (1, 4), (4, 25),
     (25, 6), (6, 24), (24, 25), (25, 11), (11, 19), (19, 25), (25, 16), (16, 14), (14, 25),
     (25, 21), (21, 9), (9, 25), (25, 2), (2, 3), (3, 25), (25, 7), (7, 23), (23, 25),
     (25, 12), (12, 18), (18, 25), (25, 17), (17, 13), (13, 25), (25, 22), (22, 8), (8, 25)]"

section \<open>The permutation in every unroll setting\<close>

definition keccak_F_unroll1 :: "u64 list \<Rightarrow> u64 list" where
  "keccak_F_unroll1 = fold (\<lambda>j a.
     let
          a = keccak_KF_ELT 0 1 (keccak_RC ! (j + 0)) a
     in keccak_P1_TO_P0 a) [0, 1, 2, 3, 4, 5, 6, 7, 8, 9, 10, 11, 12, 13, 14, 15, 16, 17, 18, 19, 20, 21, 22, 23]"

definition keccak_F_unroll2 :: "u64 list \<Rightarrow> u64 list" where
  "keccak_F_unroll2 = fold (\<lambda>j a.
     let
          a = keccak_KF_ELT 0 1 (keccak_RC ! (j + 0)) a;
          a = keccak_KF_ELT 1 2 (keccak_RC ! (j + 1)) a
     in keccak_P2_TO_P0 a) [0, 2, 4, 6, 8, 10, 12, 14, 16, 18, 20, 22]"

definition keccak_F_unroll4 :: "u64 list \<Rightarrow> u64 list" where
  "keccak_F_unroll4 = fold (\<lambda>j a.
     let
          a = keccak_KF_ELT 0 1 (keccak_RC ! (j + 0)) a;
          a = keccak_KF_ELT 1 2 (keccak_RC ! (j + 1)) a;
          a = keccak_KF_ELT 2 3 (keccak_RC ! (j + 2)) a;
          a = keccak_KF_ELT 3 4 (keccak_RC ! (j + 3)) a
     in keccak_P4_TO_P0 a) [0, 4, 8, 12, 16, 20]"

definition keccak_F_unroll6 :: "u64 list \<Rightarrow> u64 list" where
  "keccak_F_unroll6 = fold (\<lambda>j a.
     let
          a = keccak_KF_ELT 0 1 (keccak_RC ! (j + 0)) a;
          a = keccak_KF_ELT 1 2 (keccak_RC ! (j + 1)) a;
          a = keccak_KF_ELT 2 3 (keccak_RC ! (j + 2)) a;
          a = keccak_KF_ELT 3 4 (keccak_RC ! (j + 3)) a;
          a = keccak_KF_ELT 4 5 (keccak_RC ! (j + 4)) a;
          a = keccak_KF_ELT 5 6 (keccak_RC ! (j + 5)) a
     in keccak_P6_TO_P0 a) [0, 6, 12, 18]"

definition keccak_F_unroll8 :: "u64 list \<Rightarrow> u64 list" where
  "keccak_F_unroll8 = fold (\<lambda>j a.
     let
          a = keccak_KF_ELT 0 1 (keccak_RC ! (j + 0)) a;
          a = keccak_KF_ELT 1 2 (keccak_RC ! (j + 1)) a;
          a = keccak_KF_ELT 2 3 (keccak_RC ! (j + 2)) a;
          a = keccak_KF_ELT 3 4 (keccak_RC ! (j + 3)) a;
          a = keccak_KF_ELT 4 5 (keccak_RC ! (j + 4)) a;
          a = keccak_KF_ELT 5 6 (keccak_RC ! (j + 5)) a;
          a = keccak_KF_ELT 6 7 (keccak_RC ! (j + 6)) a;
          a = keccak_KF_ELT 7 8 (keccak_RC ! (j + 7)) a
     in keccak_P8_TO_P0 a) [0, 8, 16]"

definition keccak_F_unroll12 :: "u64 list \<Rightarrow> u64 list" where
  "keccak_F_unroll12 = fold (\<lambda>j a.
     let
          a = keccak_KF_ELT 0 1 (keccak_RC ! (j + 0)) a;
          a = keccak_KF_ELT 1 2 (keccak_RC ! (j + 1)) a;
          a = keccak_KF_ELT 2 3 (keccak_RC ! (j + 2)) a;
          a = keccak_KF_ELT 3 4 (keccak_RC ! (j + 3)) a;
          a = keccak_KF_ELT 4 5 (keccak_RC ! (j + 4)) a;
          a = keccak_KF_ELT 5 6 (keccak_RC ! (j + 5)) a;
          a = keccak_KF_ELT 6 7 (keccak_RC ! (j + 6)) a;
          a = keccak_KF_ELT 7 8 (keccak_RC ! (j + 7)) a;
          a = keccak_KF_ELT 8 9 (keccak_RC ! (j + 8)) a;
          a = keccak_KF_ELT 9 10 (keccak_RC ! (j + 9)) a;
          a = keccak_KF_ELT 10 11 (keccak_RC ! (j + 10)) a;
          a = keccak_KF_ELT 11 12 (keccak_RC ! (j + 11)) a
     in keccak_P12_TO_P0 a) [0, 12]"

definition keccak_F_unroll0 :: "u64 list \<Rightarrow> u64 list" where
  "keccak_F_unroll0 a =
    (let
          a = keccak_KF_ELT 0 1 (keccak_RC ! 0) a;
          a = keccak_KF_ELT 1 2 (keccak_RC ! 1) a;
          a = keccak_KF_ELT 2 3 (keccak_RC ! 2) a;
          a = keccak_KF_ELT 3 4 (keccak_RC ! 3) a;
          a = keccak_KF_ELT 4 5 (keccak_RC ! 4) a;
          a = keccak_KF_ELT 5 6 (keccak_RC ! 5) a;
          a = keccak_KF_ELT 6 7 (keccak_RC ! 6) a;
          a = keccak_KF_ELT 7 8 (keccak_RC ! 7) a;
          a = keccak_KF_ELT 8 9 (keccak_RC ! 8) a;
          a = keccak_KF_ELT 9 10 (keccak_RC ! 9) a;
          a = keccak_KF_ELT 10 11 (keccak_RC ! 10) a;
          a = keccak_KF_ELT 11 12 (keccak_RC ! 11) a;
          a = keccak_KF_ELT 12 13 (keccak_RC ! 12) a;
          a = keccak_KF_ELT 13 14 (keccak_RC ! 13) a;
          a = keccak_KF_ELT 14 15 (keccak_RC ! 14) a;
          a = keccak_KF_ELT 15 16 (keccak_RC ! 15) a;
          a = keccak_KF_ELT 16 17 (keccak_RC ! 16) a;
          a = keccak_KF_ELT 17 18 (keccak_RC ! 17) a;
          a = keccak_KF_ELT 18 19 (keccak_RC ! 18) a;
          a = keccak_KF_ELT 19 20 (keccak_RC ! 19) a;
          a = keccak_KF_ELT 20 21 (keccak_RC ! 20) a;
          a = keccak_KF_ELT 21 22 (keccak_RC ! 21) a;
          a = keccak_KF_ELT 22 23 (keccak_RC ! 22) a;
          a = keccak_KF_ELT 23 0 (keccak_RC ! 23) a
     in a)"

text \<open>The setting of the build: eight rounds unrolled.\<close>

definition KECCAK_F_1600 :: "u64 list \<Rightarrow> u64 list" where
  "KECCAK_F_1600 = keccak_F_unroll8"

definition keccak_INPUT_BUF :: "nat \<Rightarrow> byte list \<Rightarrow> u64 list \<Rightarrow> u64 list" where
  "keccak_INPUT_BUF sz buf a =
     fold (\<lambda>i a. a[i := a ! i XOR sph_dec64le buf (8 * i)]) [0..<sz div 8] a"

section \<open>Context operations\<close>

record sph_keccak_context =
  k_buf :: "byte list"
  k_ptr :: nat
  k_lim :: nat
  k_wide :: "u64 list"

definition keccak_init :: "sph_keccak_context \<Rightarrow> nat \<Rightarrow> sph_keccak_context" where
  "keccak_init kc out_size = kc\<lparr>
     k_wide := (replicate 25 0)[1 := 0xFFFFFFFFFFFFFFFF, 2 := 0xFFFFFFFFFFFFFFFF, 8 := 0xFFFFFFFFFFFFFFFF,
       12 := 0xFFFFFFFFFFFFFFFF, 17 := 0xFFFFFFFFFFFFFFFF, 20 := 0xFFFFFFFFFFFFFFFF],
     k_ptr := 0, k_lim := 200 - out_size div 4\<rparr>"

definition keccak_block :: "nat \<Rightarrow> byte list \<Rightarrow> u64 list \<Rightarrow> u64 list" where
  "keccak_block lim buf a = KECCAK_F_1600 (keccak_INPUT_BUF lim buf a)"

text \<open>The buffer has room for the largest block; a call uses its first \<open>lim\<close> bytes.\<close>

definition keccak_core :: "sph_keccak_context \<Rightarrow> byte list \<Rightarrow> nat \<Rightarrow> sph_keccak_context result" where
  "keccak_core kc data lim =
    (let buf = k_buf kc; ptr = k_ptr kc in
     if length data < lim - ptr then
       Inr (kc\<lparr>k_buf := memcpy_at buf ptr data, k_ptr := ptr + length data\<rparr>)
     else
       bindE (core_loop lim (keccak_block lim) (take lim buf) ptr (k_wide kc) data) (\<lambda>(b, ptr, a).
       Inr (kc\<lparr>k_buf := b @ drop lim buf, k_ptr := ptr, k_wide := a\<rparr>)))"

definition keccak_flip :: "u64 list \<Rightarrow> u64 list" where
  "keccak_flip a = fold (\<lambda>i a. a[i := NOT (a ! i)]) [1, 2, 8, 12, 17, 20] a"

definition keccak_close :: "nat \<Rightarrow> nat \<Rightarrow> sph_keccak_context \<Rightarrow> u32 \<Rightarrow> nat \<Rightarrow> (byte list \<times> sph_keccak_context) result" where
  "keccak_close d lim kc ub n =
    (let eb = ucast (drop_bit (8 - n) (0x100 OR (ub AND 0xFF))) :: byte;
         tmp = (if k_ptr kc = lim - 1 then
                  (if n = 7 then eb # replicate (lim - 1) 0 @ [0x80] else [eb OR 0x80])
                else eb # replicate (lim - k_ptr kc - 2) 0 @ [0x80])
     in bindE (keccak_core kc tmp lim) (\<lambda>kc.
        let kc = kc\<lparr>k_wide := keccak_flip (k_wide kc)\<rparr>
        in Inr (take d (concat (map (\<lambda>i. sph_enc64le (k_wide kc ! i)) [0..<(d + 7) div 8])), keccak_init kc (d * 8))))"

definition sph_keccak224_init :: "sph_keccak_context \<Rightarrow> sph_keccak_context" where
  "sph_keccak224_init cc = keccak_init cc 224"

definition sph_keccak224 :: "sph_keccak_context \<Rightarrow> byte list \<Rightarrow> sph_keccak_context result" where
  "sph_keccak224 cc data = keccak_core cc data 144"

definition sph_keccak224_addbits_and_close ::
    "sph_keccak_context \<Rightarrow> u32 \<Rightarrow> nat \<Rightarrow> (byte list \<times> sph_keccak_context) result" where
  "sph_keccak224_addbits_and_close cc ub n = keccak_close 28 144 cc ub n"

definition sph_keccak224_close :: "sph_keccak_context \<Rightarrow> (byte list \<times> sph_keccak_context) result" where
  "sph_keccak224_close cc = sph_keccak224_addbits_and_close cc 0 0"

definition sph_keccak256_init :: "sph_keccak_context \<Rightarrow> sph_keccak_context" where
  "sph_keccak256_init cc = keccak_init cc 256"

definition sph_keccak256 :: "sph_keccak_context \<Rightarrow> byte list \<Rightarrow> sph_keccak_context result" where
  "sph_keccak256 cc data = keccak_core cc data 136"

definition sph_keccak256_addbits_and_close ::
    "sph_keccak_context \<Rightarrow> u32 \<Rightarrow> nat \<Rightarrow> (byte list \<times> sph_keccak_context) result" where
  "sph_keccak256_addbits_and_close cc ub n = keccak_close 32 136 cc ub n"

definition sph_keccak256_close :: "sph_keccak_context \<Rightarrow> (byte list \<times> sph_keccak_context) result" where
  "sph_keccak256_close cc = sph_keccak256_addbits_and_close cc 0 0"

definition sph_keccak384_init :: "sph_keccak_context \<Rightarrow> sph_keccak_context" where
  "sph_keccak384_init cc = keccak_init cc 384"

definition sph_keccak384 :: "sph_keccak_context \<Rightarrow> byte list \<Rightarrow> sph_keccak_context result" where
  "sph_keccak384 cc data = keccak_core cc data 104"

definition sph_keccak384_addbits_and_close ::
    "sph_keccak_context \<Rightarrow> u32 \<Rightarrow> nat \<Rightarrow> (byte list \<times> sph_keccak_context) result" where
  "sph_keccak384_addbits_and_close cc ub n = keccak_close 48 104 cc ub n"

definition sph_keccak384_close :: "sph_keccak_context \<Rightarrow> (byte list \<times> sph_keccak_context) result" where
  "sph_keccak384_close cc = sph_keccak384_addbits_and_close cc 0 0"

definition sph_keccak512_init :: "sph_keccak_context \<Rightarrow> sph_keccak_context" where
  "sph_keccak512_init cc = keccak_init cc 512"

definition sph_keccak512 :: "sph_keccak_context \<Rightarrow> byte list \<Rightarrow> sph_keccak_context result" where
  "sph_keccak512 cc data = keccak_core cc data 72"

definition sph_keccak512_addbits_and_close ::
    "sph_keccak_context \<Rightarrow> u32 \<Rightarrow> nat \<Rightarrow> (byte list \<times> sph_keccak_context) result" where
  "sph_keccak512_addbits_and_close cc ub n = keccak_close 64 72 cc ub n"

definition sph_keccak512_close :: "sph_keccak_context \<Rightarrow> (byte list \<times> sph_keccak_context) result" where
  "sph_keccak512_close cc = sph_keccak512_addbits_and_close cc 0 0"
end
