(* ===== verification/Keccak_Spec.thy ===== *)
theory Keccak_Spec
  imports Sph_Stream
begin

text \<open>
  The Keccak sponge as its designers define it, independent of the code: the state is a list of 25 lanes, lane
  \<open>(x, y)\<close> at index \<open>x + 5 * y\<close>; the rotation offsets and the round constants are computed from their
  definitions (a walk over the lanes, a linear feedback shift register) and not tabulated.
\<close>

section \<open>The step mappings\<close>

definition lane :: "u64 list \<Rightarrow> nat \<Rightarrow> nat \<Rightarrow> u64" where
  "lane a x y = a ! (x mod 5 + 5 * (y mod 5))"

definition of_lanes :: "(nat \<Rightarrow> nat \<Rightarrow> u64) \<Rightarrow> u64 list" where
  "of_lanes f = map (\<lambda>i. f (i mod 5) (i div 5)) [0..<25]"

definition theta_parity :: "u64 list \<Rightarrow> nat \<Rightarrow> u64" where
  "theta_parity a x = lane a x 0 XOR lane a x 1 XOR lane a x 2 XOR lane a x 3 XOR lane a x 4"

definition theta :: "u64 list \<Rightarrow> u64 list" where
  "theta a = of_lanes (\<lambda>x y. lane a x y XOR theta_parity a (x + 4) XOR word_rotl 1 (theta_parity a (x + 1)))"

text \<open>The offsets: from lane (1, 0), the step \<open>t\<close> gives the current lane the offset \<open>(t + 1) (t + 2) / 2\<close>
  and moves from \<open>(x, y)\<close> to \<open>(y, 2 x + 3 y)\<close>.\<close>

primrec rho_walk :: "nat \<Rightarrow> nat \<times> nat" where
  "rho_walk 0 = (1, 0)"
| "rho_walk (Suc t) = (case rho_walk t of (x, y) \<Rightarrow> (y, (2 * x + 3 * y) mod 5))"

definition rho_offset :: "nat \<Rightarrow> nat \<Rightarrow> nat" where
  "rho_offset x y = (case filter (\<lambda>t. rho_walk t = (x, y)) [0..<24] of
     [] \<Rightarrow> 0 | t # _ \<Rightarrow> ((t + 1) * (t + 2) div 2) mod 64)"

definition rho :: "u64 list \<Rightarrow> u64 list" where
  "rho a = of_lanes (\<lambda>x y. word_rotl (rho_offset x y) (lane a x y))"

text \<open>Lane \<open>(x, y)\<close> moves to \<open>(y, 2 x + 3 y)\<close>, so that the new lane \<open>(x, y)\<close> is the old \<open>(x + 3 y, x)\<close>.\<close>

definition pi_step :: "u64 list \<Rightarrow> u64 list" where
  "pi_step a = of_lanes (\<lambda>x y. lane a (x + 3 * y) x)"

definition chi :: "u64 list \<Rightarrow> u64 list" where
  "chi a = of_lanes (\<lambda>x y. lane a x y XOR (NOT (lane a (x + 1) y) AND lane a (x + 2) y))"

text \<open>The shift register \<open>x^8 + x^6 + x^5 + x^4 + 1\<close>; round \<open>r\<close> takes bit \<open>2^j - 1\<close> of its constant from step \<open>j + 7 r\<close>.\<close>

definition lfsr_step :: "byte \<Rightarrow> byte" where
  "lfsr_step s = (if bit s 7 then push_bit 1 s XOR 0x71 else push_bit 1 s)"

primrec lfsr_run :: "nat \<Rightarrow> byte \<Rightarrow> bool list" where
  "lfsr_run 0 s = []"
| "lfsr_run (Suc n) s = bit s 0 # lfsr_run n (lfsr_step s)"

definition constant_of_bits :: "bool list \<Rightarrow> u64" where
  "constant_of_bits bs = fold (\<lambda>(j, b) k. if b then k OR push_bit (2 ^ j - 1) 1 else k) (enumerate 0 bs) 0"

definition round_constants :: "u64 list" where
  "round_constants = (let bs = lfsr_run 168 1 in map (\<lambda>r. constant_of_bits (take 7 (drop (7 * r) bs))) [0..<24])"

definition iota :: "u64 \<Rightarrow> u64 list \<Rightarrow> u64 list" where
  "iota k a = a[0 := a ! 0 XOR k]"

definition keccak_round :: "u64 \<Rightarrow> u64 list \<Rightarrow> u64 list" where
  "keccak_round k a = iota k (chi (pi_step (rho (theta a))))"

definition keccak_f :: "u64 list \<Rightarrow> u64 list" where
  "keccak_f a = fold keccak_round round_constants a"

section \<open>The sponge\<close>

definition xor_block :: "byte list \<Rightarrow> u64 list \<Rightarrow> u64 list" where
  "xor_block x a = map (\<lambda>i. if 8 * i < length x then a ! i XOR sph_dec64le x (8 * i) else a ! i) [0..<25]"

definition absorb_block_f :: "byte list \<Rightarrow> u64 list \<Rightarrow> u64 list" where
  "absorb_block_f x a = keccak_f (xor_block x a)"

text \<open>Padding \<open>1 0* 1\<close> up to a multiple of the rate, bits taken from the low end of each byte; a single
  missing byte holds both ones.\<close>

definition pad101 :: "nat \<Rightarrow> byte list \<Rightarrow> byte list" where
  "pad101 rate m =
    (let q = rate - length m mod rate
     in if q = 1 then [0x81] else 0x01 # replicate (q - 2) 0 @ [0x80])"

definition squeeze :: "nat \<Rightarrow> u64 list \<Rightarrow> byte list" where
  "squeeze d a = take d (concat (map sph_enc64le a))"

definition keccak_sponge :: "nat \<Rightarrow> nat \<Rightarrow> byte list \<Rightarrow> byte list" where
  "keccak_sponge rate d m =
     squeeze d (fst (absorb rate absorb_block_f (replicate 25 0) (m @ pad101 rate m)))"

section \<open>Lengths\<close>

lemma length_of_lanes [simp]: "length (of_lanes f) = 25"
  by (simp add: of_lanes_def)

lemma length_keccak_round [simp]: "length (keccak_round k a) = 25"
  by (simp add: keccak_round_def iota_def chi_def)

lemma length_keccak_f [simp]: "length a = 25 \<Longrightarrow> length (keccak_f a) = 25"
proof -
  have "length a = 25 \<Longrightarrow> length (fold keccak_round ks a) = 25" for ks
    by (induction ks arbitrary: a) simp_all
  then show "length a = 25 \<Longrightarrow> length (keccak_f a) = 25" by (simp add: keccak_f_def)
qed

lemma length_xor_block [simp]: "length (xor_block x a) = 25"
  by (simp add: xor_block_def)

lemma length_absorb_block_f [simp]: "length (absorb_block_f x a) = 25"
  by (simp add: absorb_block_f_def)

lemma length_pad101: "0 < rate \<Longrightarrow> (length m + length (pad101 rate m)) mod rate = 0"
proof -
  assume r: "0 < rate"
  define q where "q = rate - length m mod rate"
  have q: "0 < q" using mod_less_divisor [OF r] by (simp add: q_def)
  have "length (pad101 rate m) = q"
    using q unfolding pad101_def Let_def q_def [symmetric] by auto
  moreover have "length m mod rate + q = rate"
    using mod_less_divisor [OF r, of "length m"] by (simp add: q_def)
  ultimately show ?thesis by (metis mod_add_left_eq mod_self)
qed

end
