(* ===== verification/Keccak_Correct.thy ===== *)
theory Keccak_Correct
  imports Keccak Keccak_Spec
begin

text \<open>
  Correctness of Keccak: the code's rounds on renamed, partly complemented lanes compute the permutation of the
  specification in every unroll setting, and the streaming interface computes the sponge.
\<close>

section \<open>Constants and lists of lanes\<close>

text \<open>The table of round constants is the output of the shift register.\<close>

lemma keccak_RC_spec: "keccak_RC = round_constants" by code_simp

lemma list25:
  assumes "length (b :: 'a list) = 25"
  obtains b00 b01 b02 b03 b04 b10 b11 b12 b13 b14 b20 b21 b22 b23 b24 b30 b31 b32 b33 b34 b40 b41 b42 b43 b44
  where "b = [b00, b01, b02, b03, b04, b10, b11, b12, b13, b14, b20, b21, b22, b23, b24, b30, b31, b32, b33, b34, b40, b41, b42, b43, b44]"
proof -
  have "b = map (\<lambda>i. b ! i) [0..<25]" using map_nth [of b] assms by simp
  then show ?thesis using that by (simp add: upt_rec)
qed

section \<open>Reading and writing lanes\<close>

definition lane_order :: "nat list \<Rightarrow> bool" where
  "lane_order p \<longleftrightarrow> sort p = [0..<25] \<and> hd p = 0"

lemma lane_orderD:
  assumes "lane_order p"
  shows "length p = 25" and "distinct p" and "set p = {0..<25}" and "p ! 0 = 0"
proof -
  have s: "sort p = [0..<25]" and h: "hd p = 0" using assms by (simp_all add: lane_order_def)
  from s show len: "length p = 25" by (metis length_sort length_upt diff_zero)
  from s show "distinct p" by (metis distinct_sort distinct_upt)
  from s show "set p = {0..<25}" by (metis set_sort set_upt)
  from h len show "p ! 0 = 0" by (metis hd_conv_nth list.size(3) zero_neq_numeral)
qed

lemma length_gather [simp]: "length (gather p a) = length p"
  by (simp add: gather_def)

lemma length_scatter [simp]: "length (scatter p v a) = length a"
  unfolding scatter_def by (induction p v arbitrary: a rule: list_induct2') auto

lemma scatter_notin: "i \<notin> set p \<Longrightarrow> scatter p v a ! i = a ! i"
  unfolding scatter_def by (induction p v arbitrary: a rule: list_induct2') auto

lemma scatter_nth:
  "distinct p \<Longrightarrow> length v = length p \<Longrightarrow> set p \<subseteq> {0..<length a} \<Longrightarrow> j < length p
    \<Longrightarrow> scatter p v a ! (p ! j) = v ! j"
proof (induction p v arbitrary: a j rule: list_induct2')
  case (4 i p x v)
  have step: "scatter (i # p) (x # v) a = scatter p v (a[i := x])" by (simp add: scatter_def)
  show ?case
  proof (cases j)
    case 0
    with 4 show ?thesis by (simp add: step scatter_notin)
  next
    case (Suc k)
    with 4 show ?thesis by (simp add: step)
  qed
qed simp_all

lemma gather_scatter:
  assumes "lane_order p" and "length v = 25" and "length a = 25" and "set q \<subseteq> {0..<25}"
  shows "gather (map (\<lambda>i. p ! i) q) (scatter p v a) = gather q v"
  using assms lane_orderD [OF assms(1)] by (auto simp: gather_def intro!: scatter_nth)

lemma gather_scatter_same:
  assumes "lane_order p" and "length v = 25" and "length a = 25"
  shows "gather p (scatter p v a) = v"
proof -
  have "gather (map (\<lambda>i. p ! i) [0..<25]) (scatter p v a) = gather [0..<25] v"
    using assms by (intro gather_scatter) auto
  then show ?thesis using lane_orderD(1) [OF assms(1)] assms(2) by (metis gather_def map_nth)
qed

section \<open>One round in the order of the macro parameters\<close>

definition pi_order :: "nat list" where
  "pi_order = map (\<lambda>i. let x = i div 5; y = i mod 5 in 5 * ((x + 3 * y) mod 5) + x) [0..<25]"

definition keccak_KF_view :: "u64 \<Rightarrow> u64 list \<Rightarrow> u64 list" where
  "keccak_KF_view k b = keccak_IOTA k (keccak_KHI (gather pi_order (keccak_RHO (keccak_THETA b))))"

lemma keccak_P_orders: "\<forall>p\<in>set keccak_P. lane_order p"
  by code_simp

lemma keccak_P_order: "r < 24 \<Longrightarrow> lane_order (keccak_P ! r)"
proof -
  have "length keccak_P = 24" by (simp add: keccak_P_def)
  then show "r < 24 \<Longrightarrow> lane_order (keccak_P ! r)" using keccak_P_orders by (metis nth_mem)
qed

text \<open>The parameters of the next round are those of this round, moved by the permutation step.\<close>

lemma keccak_P_pi_all: "\<forall>r<24. keccak_P ! ((r + 1) mod 24) = map (\<lambda>i. keccak_P ! r ! i) pi_order"
  by code_simp

lemma keccak_P_pi: "r < 24 \<Longrightarrow> s = (r + 1) mod 24 \<Longrightarrow> keccak_P ! s = map (\<lambda>i. keccak_P ! r ! i) pi_order"
  using keccak_P_pi_all by simp

lemma set_pi_order: "set pi_order \<subseteq> {0..<25}"
  by code_simp

lemma length_pi_order [simp]: "length pi_order = 25"
  by (simp add: pi_order_def)

lemma length_keccak_IOTA [simp]: "length (keccak_IOTA k a) = length a"
  by (simp add: keccak_IOTA_def)

lemma length_keccak_THETA [simp]: "length b = 25 \<Longrightarrow> length (keccak_THETA b) = 25"
  by (erule list25) (simp add: keccak_THETA_def Let_def)

lemma length_keccak_RHO [simp]: "length b = 25 \<Longrightarrow> length (keccak_RHO b) = 25"
  by (erule list25) (simp add: keccak_RHO_def Let_def)

lemma length_keccak_KHI [simp]: "length b = 25 \<Longrightarrow> length (keccak_KHI b) = 25"
  by (erule list25) (simp add: keccak_KHI_def Let_def)

lemma gather_IOTA:
  assumes "lane_order p" and "length a = 25"
  shows "gather p (keccak_IOTA k a) = keccak_IOTA k (gather p a)"
proof (rule nth_equalityI)
  note p = lane_orderD [OF assms(1)]
  fix i assume "i < length (gather p (keccak_IOTA k a))"
  then have i: "i < 25" using p by simp
  have "p ! i = 0 \<longleftrightarrow> i = 0" using p i by (metis nth_eq_iff_index_eq zero_less_numeral)
  then show "gather p (keccak_IOTA k a) ! i = keccak_IOTA k (gather p a) ! i"
    using i p assms by (cases "i = 0") (auto simp: gather_def keccak_IOTA_def)
qed simp

lemma length_keccak_KF_ELT [simp]: "length a = 25 \<Longrightarrow> length (keccak_KF_ELT r s k a) = 25"
  by (simp add: keccak_KF_ELT_def Let_def)

lemma keccak_KF_ELT_view:
  assumes a: "length a = 25" and r: "r < 24" and s: "s = (r + 1) mod 24"
  shows "gather (keccak_P ! s) (keccak_KF_ELT r s k a) = keccak_KF_view k (gather (keccak_P ! r) a)"
proof -
  let ?p = "keccak_P ! r" and ?q = "keccak_P ! s"
  have p: "lane_order ?p" and q: "lane_order ?q" using r s by (simp_all add: keccak_P_order)
  note len = lane_orderD(1) [OF p] lane_orderD(1) [OF q]
  define t where "t = keccak_THETA (gather ?p a)"
  define u where "u = keccak_RHO t"
  define a1 where "a1 = scatter ?p t a"
  define a2 where "a2 = scatter ?p u a1"
  have tu: "length t = 25" "length u = 25" "length a1 = 25" "length a2 = 25"
    using a len by (simp_all add: t_def u_def a1_def a2_def)
  have "gather ?p a1 = t" using p tu a by (simp add: a1_def gather_scatter_same)
  moreover have "gather ?q a2 = gather pi_order u"
    unfolding keccak_P_pi [OF r s] a2_def using p tu set_pi_order by (intro gather_scatter)
  ultimately show ?thesis
    using q len tu a
    unfolding keccak_KF_ELT_def Let_def t_def [symmetric] a1_def [symmetric]
    by (simp add: u_def [symmetric] a2_def [symmetric] gather_IOTA gather_scatter_same keccak_KF_view_def t_def [symmetric])
qed

section \<open>Permuting back\<close>

lemmas keccak_moves_defs = keccak_P1_TO_P0_def keccak_P2_TO_P0_def keccak_P4_TO_P0_def
  keccak_P6_TO_P0_def keccak_P8_TO_P0_def keccak_P12_TO_P0_def

lemma keccak_moves_P0:
  assumes "length a = 25"
  shows "gather (keccak_P ! 0) (keccak_P1_TO_P0 a) = gather (keccak_P ! 1) a"
    and "gather (keccak_P ! 0) (keccak_P2_TO_P0 a) = gather (keccak_P ! 2) a"
    and "gather (keccak_P ! 0) (keccak_P4_TO_P0 a) = gather (keccak_P ! 4) a"
    and "gather (keccak_P ! 0) (keccak_P6_TO_P0 a) = gather (keccak_P ! 6) a"
    and "gather (keccak_P ! 0) (keccak_P8_TO_P0 a) = gather (keccak_P ! 8) a"
    and "gather (keccak_P ! 0) (keccak_P12_TO_P0 a) = gather (keccak_P ! 12) a"
  using assms by (auto elim!: list25 simp: keccak_moves_defs keccak_moves_def keccak_P_def gather_def)

lemma length_keccak_moves [simp]: "length a = 25 \<Longrightarrow> length (keccak_moves ms a) = 25"
proof -
  have "length (fold (\<lambda>(d, s) a. a[d := a ! s]) ms x) = length x" for x :: "u64 list"
    by (induction ms arbitrary: x) auto
  then show "length a = 25 \<Longrightarrow> length (keccak_moves ms a) = 25" by (simp add: keccak_moves_def)
qed

section \<open>The steps on complemented lanes\<close>

text \<open>
  The code keeps the lanes \<open>keccak_M0\<close> complemented between the rounds. The column parities carry this over to
  \<open>keccak_M1\<close> after \<open>THETA\<close>, the permutation step moves it to \<open>keccak_M2\<close>, and \<open>KHI\<close> brings back \<open>keccak_M0\<close>.
\<close>

definition flip_lanes :: "nat list \<Rightarrow> u64 list \<Rightarrow> u64 list" where
  "flip_lanes m a = map (\<lambda>i. if i \<in> set m then NOT (a ! i) else a ! i) [0..<length a]"

definition keccak_M0 :: "nat list" where
  "keccak_M0 = [1, 2, 8, 12, 17, 20]"

definition keccak_M1 :: "nat list" where
  "keccak_M1 = [0, 5, 10, 15, 3, 13, 18, 23, 1, 2, 12, 17]"

definition keccak_M2 :: "nat list" where
  "keccak_M2 = map (\<lambda>i. let x = i mod 5; y = i div 5 in y + 5 * ((2 * x + 3 * y) mod 5)) keccak_M1"

lemma length_flip_lanes [simp]: "length (flip_lanes m a) = length a"
  by (simp add: flip_lanes_def)

lemma keccak_flip_lanes: "length a = 25 \<Longrightarrow> keccak_flip a = flip_lanes keccak_M0 a"
  by (erule list25) (simp add: keccak_flip_def flip_lanes_def keccak_M0_def upt_rec)

lemma flip_lanes_flip [simp]: "flip_lanes m (flip_lanes m a) = a"
  by (rule nth_equalityI) (simp_all add: flip_lanes_def)

definition macro_order :: "u64 list \<Rightarrow> u64 list" where
  "macro_order = gather (keccak_P ! 0)"

lemma macro_order_list:
  "macro_order [b00, b01, b02, b03, b04, b10, b11, b12, b13, b14, b20, b21, b22, b23, b24, b30, b31, b32, b33, b34, b40, b41, b42, b43, b44]
    = [b00, b10, b20, b30, b40, b01, b11, b21, b31, b41, b02, b12, b22, b32, b42, b03, b13, b23, b33, b43, b04, b14, b24, b34, b44]"
  by (simp add: macro_order_def keccak_P_def gather_def)

lemma length_macro_order [simp]: "length (macro_order a) = 25"
  by (simp add: macro_order_def keccak_P_def)

lemma macro_order_inv [simp]: "length a = 25 \<Longrightarrow> macro_order (macro_order a) = a"
  by (erule list25) (simp add: macro_order_list)

lemma of_lanes_upt: "of_lanes f = [f 0 0, f 1 0, f 2 0, f 3 0, f 4 0, f 0 1, f 1 1, f 2 1, f 3 1, f 4 1,
    f 0 2, f 1 2, f 2 2, f 3 2, f 4 2, f 0 3, f 1 3, f 2 3, f 3 3, f 4 3, f 0 4, f 1 4, f 2 4, f 3 4, f 4 4]"
  by (simp add: of_lanes_def upt_rec, simp add: numeral_2_eq_2)

lemma word_rotl_zero: "word_rotl 0 w = w" for w :: u64
  by (rule bit_word_eqI) (simp add: bit_word_rotl_iff)

lemma rho_offsets:
  shows "rho_offset 0 0 = 0" and "rho_offset 1 0 = 1" and "rho_offset 2 0 = 62" and "rho_offset 3 0 = 28" and "rho_offset 4 0 = 27"
  and "rho_offset 0 1 = 36" and "rho_offset 1 1 = 44" and "rho_offset 2 1 = 6" and "rho_offset 3 1 = 55" and "rho_offset 4 1 = 20"
  and "rho_offset 0 2 = 3" and "rho_offset 1 2 = 10" and "rho_offset 2 2 = 43" and "rho_offset 3 2 = 25" and "rho_offset 4 2 = 39"
  and "rho_offset 0 3 = 41" and "rho_offset 1 3 = 45" and "rho_offset 2 3 = 15" and "rho_offset 3 3 = 21" and "rho_offset 4 3 = 8"
  and "rho_offset 0 4 = 18" and "rho_offset 1 4 = 2" and "rho_offset 2 4 = 61" and "rho_offset 3 4 = 56" and "rho_offset 4 4 = 14"
  by code_simp+

lemma keccak_TH_ELT_spec:
  "keccak_TH_ELT c0 c1 c2 c3 c4 d0 d1 d2 d3 d4
    = (c0 XOR c1 XOR c2 XOR c3 XOR c4) XOR word_rotl 1 (d0 XOR d1 XOR d2 XOR d3 XOR d4)"
  by (simp add: keccak_TH_ELT_def Let_def SPH_ROTL64_rotl ac_simps)

lemmas lane_order_simps = flip_lanes_def upt_rec macro_order_list of_lanes_upt lane_def

lemma keccak_THETA_flip:
  assumes "length s = 25"
  shows "keccak_THETA (macro_order (flip_lanes keccak_M0 s)) = macro_order (flip_lanes keccak_M1 (theta s))"
  using assms
  by (rule list25) (simp add: lane_order_simps keccak_M0_def keccak_M1_def keccak_THETA_def
    Let_def keccak_TH_ELT_spec theta_def theta_parity_def word_rot_logs ac_simps)

lemma keccak_RHO_flip:
  assumes "length s = 25"
  shows "keccak_RHO (macro_order (flip_lanes keccak_M1 s)) = macro_order (flip_lanes keccak_M1 (rho s))"
  using assms
  by (rule list25) (simp add: lane_order_simps keccak_M1_def keccak_RHO_def
    Let_def SPH_ROTL64_rotl rho_def rho_offsets [simplified] word_rot_logs word_rotl_zero)

lemma pi_order_flip:
  assumes "length s = 25"
  shows "gather pi_order (macro_order (flip_lanes keccak_M1 s)) = macro_order (flip_lanes keccak_M2 (pi_step s))"
  using assms
  by (rule list25) (simp add: lane_order_simps keccak_M1_def keccak_M2_def pi_order_def gather_def pi_step_def)

lemma or_as_and: "a OR b = NOT (NOT a AND NOT b)" for a b :: u64
  by simp

lemma keccak_KHI_flip:
  assumes "length s = 25"
  shows "keccak_KHI (macro_order (flip_lanes keccak_M2 s)) = macro_order (flip_lanes keccak_M0 (chi s))"
  using assms
  by (rule list25) (simp add: lane_order_simps keccak_M2_def keccak_M1_def keccak_M0_def keccak_KHI_def Let_def
    keccak_KHI_XO_def keccak_KHI_XA_def chi_def or_as_and ac_simps del: bit.de_Morgan_conj bit.de_Morgan_disj)

section \<open>The permutation\<close>

lemma keccak_IOTA_flip:
  assumes "length s = 25"
  shows "keccak_IOTA k (macro_order (flip_lanes keccak_M0 s)) = macro_order (flip_lanes keccak_M0 (iota k s))"
  using assms
  by (rule list25) (simp add: lane_order_simps keccak_M0_def keccak_IOTA_def iota_def)

lemma keccak_KF_view_flip:
  assumes "length s = 25"
  shows "keccak_KF_view k (macro_order (flip_lanes keccak_M0 s)) = macro_order (flip_lanes keccak_M0 (keccak_round k s))"
  using assms
  by (simp add: keccak_KF_view_def keccak_round_def keccak_THETA_flip keccak_RHO_flip pi_order_flip keccak_KHI_flip
    keccak_IOTA_flip theta_def rho_def pi_step_def chi_def)

lemma keccak_KF_views_flip:
  "length s = 25 \<Longrightarrow> fold keccak_KF_view ks (macro_order (flip_lanes keccak_M0 s))
    = macro_order (flip_lanes keccak_M0 (fold keccak_round ks s))"
  by (induction ks arbitrary: s) (simp_all add: keccak_KF_view_flip)

text \<open>A run of unrolled rounds, seen through the parameters of its first and its last round.\<close>

fun keccak_rounds :: "nat \<Rightarrow> u64 list \<Rightarrow> u64 list \<Rightarrow> u64 list" where
  "keccak_rounds r [] a = a"
| "keccak_rounds r (k # ks) a = keccak_rounds (Suc r) ks (keccak_KF_ELT r (Suc r mod 24) k a)"

lemma length_keccak_rounds [simp]: "length a = 25 \<Longrightarrow> length (keccak_rounds r ks a) = 25"
  by (induction r ks a rule: keccak_rounds.induct) simp_all

lemma keccak_rounds_view:
  "length a = 25 \<Longrightarrow> r + length ks \<le> 24 \<Longrightarrow>
    gather (keccak_P ! ((r + length ks) mod 24)) (keccak_rounds r ks a) = fold keccak_KF_view ks (gather (keccak_P ! (r mod 24)) a)"
proof (induction r ks a rule: keccak_rounds.induct)
  case (2 r k ks a)
  then have r: "r < 24" by simp
  have "gather (keccak_P ! (Suc r mod 24)) (keccak_KF_ELT r (Suc r mod 24) k a) = keccak_KF_view k (gather (keccak_P ! r) a)"
    using 2 r by (intro keccak_KF_ELT_view) simp_all
  then show ?case using 2 r by simp
qed simp

text \<open>The body of an unrolled loop: \<open>n\<close> rounds and the moves back to the order of round 0.\<close>

lemma keccak_loop_body:
  assumes "length a = 25" and "n \<le> 24" and "length ks = n"
    and "\<And>a. length a = 25 \<Longrightarrow> gather (keccak_P ! 0) (ret a) = gather (keccak_P ! (n mod 24)) a"
  shows "macro_order (ret (keccak_rounds 0 ks a)) = fold keccak_KF_view ks (macro_order a)"
  using assms keccak_rounds_view [of a 0 ks] by (simp add: macro_order_def)

lemma keccak_loop:
  assumes "length a = 25" and "\<And>j a. length a = 25 \<Longrightarrow> j \<in> set js \<Longrightarrow> length (body j a) = 25
    \<and> macro_order (body j a) = fold keccak_KF_view (ks j) (macro_order a)"
  shows "macro_order (fold body js a) = fold keccak_KF_view (concat (map ks js)) (macro_order a)
    \<and> length (fold body js a) = 25"
  using assms
proof (induction js arbitrary: a)
  case (Cons j js)
  have b: "length (body j a) = 25" "macro_order (body j a) = fold keccak_KF_view (ks j) (macro_order a)"
    using Cons.prems by simp_all
  from Cons.IH [OF b(1)] Cons.prems b(2) show ?case by simp
qed simp

lemma keccak_F_spec:
  assumes "length s = 25" and "macro_order (F (flip_lanes keccak_M0 s)) = fold keccak_KF_view keccak_RC (macro_order (flip_lanes keccak_M0 s))"
    and "length (F (flip_lanes keccak_M0 s)) = 25"
  shows "F (flip_lanes keccak_M0 s) = flip_lanes keccak_M0 (keccak_f s)"
proof -
  have "macro_order (F (flip_lanes keccak_M0 s)) = macro_order (flip_lanes keccak_M0 (keccak_f s))"
    using assms by (simp add: keccak_KF_views_flip keccak_f_def keccak_RC_spec)
  then show ?thesis using assms by (metis macro_order_inv length_flip_lanes length_keccak_f)
qed

lemma keccak_rounds_Cons:
  "keccak_rounds r (k # ks) a = keccak_rounds (r + 1) ks (keccak_KF_ELT r ((r + 1) mod 24) k a)"
  by simp

definition keccak_loop_body_of :: "(u64 list \<Rightarrow> u64 list) \<Rightarrow> nat list \<Rightarrow> nat \<Rightarrow> u64 list \<Rightarrow> u64 list" where
  "keccak_loop_body_of ret rs j a = ret (keccak_rounds 0 (map (\<lambda>i. keccak_RC ! (j + i)) rs) a)"

lemmas keccak_unroll_simps = keccak_loop_body_of_def keccak_rounds_Cons keccak_rounds.simps(1) list.map Let_def

lemma keccak_unroll0: "keccak_F_unroll0 a = keccak_rounds 0 (map (\<lambda>i. keccak_RC ! i) [0, 1, 2, 3, 4, 5, 6, 7, 8, 9, 10, 11, 12, 13, 14, 15, 16, 17, 18, 19, 20, 21, 22, 23]) a"
  by (simp add: keccak_F_unroll0_def keccak_unroll_simps del: One_nat_def keccak_rounds.simps(2))

lemma keccak_unroll1:
  "keccak_F_unroll1 = fold (keccak_loop_body_of keccak_P1_TO_P0 [0]) [0, 1, 2, 3, 4, 5, 6, 7, 8, 9, 10, 11, 12, 13, 14, 15, 16, 17, 18, 19, 20, 21, 22, 23]"
  unfolding keccak_F_unroll1_def
  by (rule arg_cong [where f = "\<lambda>f. fold f [0, 1, 2, 3, 4, 5, 6, 7, 8, 9, 10, 11, 12, 13, 14, 15, 16, 17, 18, 19, 20, 21, 22, 23]"], intro ext, simp add: keccak_unroll_simps del: One_nat_def keccak_rounds.simps(2))

lemma keccak_unroll2:
  "keccak_F_unroll2 = fold (keccak_loop_body_of keccak_P2_TO_P0 [0, 1]) [0, 2, 4, 6, 8, 10, 12, 14, 16, 18, 20, 22]"
  unfolding keccak_F_unroll2_def
  by (rule arg_cong [where f = "\<lambda>f. fold f [0, 2, 4, 6, 8, 10, 12, 14, 16, 18, 20, 22]"], intro ext, simp add: keccak_unroll_simps del: One_nat_def keccak_rounds.simps(2))

lemma keccak_unroll4:
  "keccak_F_unroll4 = fold (keccak_loop_body_of keccak_P4_TO_P0 [0, 1, 2, 3]) [0, 4, 8, 12, 16, 20]"
  unfolding keccak_F_unroll4_def
  by (rule arg_cong [where f = "\<lambda>f. fold f [0, 4, 8, 12, 16, 20]"], intro ext, simp add: keccak_unroll_simps del: One_nat_def keccak_rounds.simps(2))

lemma keccak_unroll6:
  "keccak_F_unroll6 = fold (keccak_loop_body_of keccak_P6_TO_P0 [0, 1, 2, 3, 4, 5]) [0, 6, 12, 18]"
  unfolding keccak_F_unroll6_def
  by (rule arg_cong [where f = "\<lambda>f. fold f [0, 6, 12, 18]"], intro ext, simp add: keccak_unroll_simps del: One_nat_def keccak_rounds.simps(2))

lemma keccak_unroll8:
  "keccak_F_unroll8 = fold (keccak_loop_body_of keccak_P8_TO_P0 [0, 1, 2, 3, 4, 5, 6, 7]) [0, 8, 16]"
  unfolding keccak_F_unroll8_def
  by (rule arg_cong [where f = "\<lambda>f. fold f [0, 8, 16]"], intro ext, simp add: keccak_unroll_simps del: One_nat_def keccak_rounds.simps(2))

lemma keccak_unroll12:
  "keccak_F_unroll12 = fold (keccak_loop_body_of keccak_P12_TO_P0 [0, 1, 2, 3, 4, 5, 6, 7, 8, 9, 10, 11]) [0, 12]"
  unfolding keccak_F_unroll12_def
  by (rule arg_cong [where f = "\<lambda>f. fold f [0, 12]"], intro ext, simp add: keccak_unroll_simps del: One_nat_def keccak_rounds.simps(2))

lemma keccak_unrolled_loop:
  assumes F: "F = fold (keccak_loop_body_of ret rs) js" and a: "length a = 25"
    and n: "length rs \<le> 24" and ks: "concat (map (\<lambda>j. map (\<lambda>i. keccak_RC ! (j + i)) rs) js) = keccak_RC"
    and ret: "\<And>a. length a = 25 \<Longrightarrow> length (ret a) = 25
      \<and> gather (keccak_P ! 0) (ret a) = gather (keccak_P ! (length rs mod 24)) a"
  shows "macro_order (F a) = fold keccak_KF_view keccak_RC (macro_order a) \<and> length (F a) = 25"
proof -
  have "length (keccak_loop_body_of ret rs j a) = 25 \<and> macro_order (keccak_loop_body_of ret rs j a)
      = fold keccak_KF_view (map (\<lambda>i. keccak_RC ! (j + i)) rs) (macro_order a)"
    if "length a = 25" for j a
    using keccak_loop_body [OF that n, of "map (\<lambda>i. keccak_RC ! (j + i)) rs" ret] ret that n
    by (simp add: keccak_loop_body_of_def)
  from keccak_loop [OF a, of js "keccak_loop_body_of ret rs", OF this] show ?thesis
    by (simp add: F ks)
qed

lemma length_keccak_back [simp]:
  assumes "length a = 25"
  shows "length (keccak_P1_TO_P0 a) = 25" and "length (keccak_P2_TO_P0 a) = 25" and "length (keccak_P4_TO_P0 a) = 25"
    and "length (keccak_P6_TO_P0 a) = 25" and "length (keccak_P8_TO_P0 a) = 25" and "length (keccak_P12_TO_P0 a) = 25"
  using assms by (simp_all add: keccak_moves_defs)

lemma keccak_unroll1_view:
  "length a = 25 \<Longrightarrow> macro_order (keccak_F_unroll1 a) = fold keccak_KF_view keccak_RC (macro_order a)
    \<and> length (keccak_F_unroll1 a) = 25"
  by (rule keccak_unrolled_loop [OF keccak_unroll1])
    (simp_all add: keccak_moves_P0 [simplified] keccak_RC_def)

lemma keccak_unroll2_view:
  "length a = 25 \<Longrightarrow> macro_order (keccak_F_unroll2 a) = fold keccak_KF_view keccak_RC (macro_order a)
    \<and> length (keccak_F_unroll2 a) = 25"
  by (rule keccak_unrolled_loop [OF keccak_unroll2])
    (simp_all add: keccak_moves_P0 [simplified] keccak_RC_def numeral_2_eq_2)

lemma keccak_unroll4_view:
  "length a = 25 \<Longrightarrow> macro_order (keccak_F_unroll4 a) = fold keccak_KF_view keccak_RC (macro_order a)
    \<and> length (keccak_F_unroll4 a) = 25"
  by (rule keccak_unrolled_loop [OF keccak_unroll4])
    (simp_all add: keccak_moves_P0 [simplified] keccak_RC_def)

lemma keccak_unroll6_view:
  "length a = 25 \<Longrightarrow> macro_order (keccak_F_unroll6 a) = fold keccak_KF_view keccak_RC (macro_order a)
    \<and> length (keccak_F_unroll6 a) = 25"
  by (rule keccak_unrolled_loop [OF keccak_unroll6])
    (simp_all add: keccak_moves_P0 [simplified] keccak_RC_def)

lemma keccak_unroll8_view:
  "length a = 25 \<Longrightarrow> macro_order (keccak_F_unroll8 a) = fold keccak_KF_view keccak_RC (macro_order a)
    \<and> length (keccak_F_unroll8 a) = 25"
  by (rule keccak_unrolled_loop [OF keccak_unroll8])
    (simp_all add: keccak_moves_P0 [simplified] keccak_RC_def)

lemma keccak_unroll12_view:
  "length a = 25 \<Longrightarrow> macro_order (keccak_F_unroll12 a) = fold keccak_KF_view keccak_RC (macro_order a)
    \<and> length (keccak_F_unroll12 a) = 25"
  by (rule keccak_unrolled_loop [OF keccak_unroll12])
    (simp_all add: keccak_moves_P0 [simplified] keccak_RC_def)

lemma keccak_unroll0_view:
  assumes "length a = 25"
  shows "macro_order (keccak_F_unroll0 a) = fold keccak_KF_view keccak_RC (macro_order a)
    \<and> length (keccak_F_unroll0 a) = 25"
proof -
  have "keccak_F_unroll0 a = keccak_rounds 0 keccak_RC a"
    unfolding keccak_unroll0 by (simp only: keccak_RC_def) (simp del: keccak_rounds.simps)
  moreover have "length keccak_RC = 24" by (simp add: keccak_RC_def)
  ultimately show ?thesis using keccak_rounds_view [OF assms, of 0 keccak_RC] assms by (simp add: macro_order_def)
qed


lemma keccak_unrolls_view:
  assumes "F \<in> {keccak_F_unroll0, keccak_F_unroll1, keccak_F_unroll2, keccak_F_unroll4, keccak_F_unroll6,
      keccak_F_unroll8, keccak_F_unroll12}" and "length a = 25"
  shows "macro_order (F a) = fold keccak_KF_view keccak_RC (macro_order a) \<and> length (F a) = 25"
  using assms(1)
  by (elim insertE emptyE) (simp_all only: assms(2) keccak_unroll0_view keccak_unroll1_view keccak_unroll2_view
    keccak_unroll4_view keccak_unroll6_view keccak_unroll8_view keccak_unroll12_view simp_thms)

text \<open>C17: Every unroll setting of the source computes the permutation Keccak-f[1600] of the specification, on a state
  in which six lanes are complemented: the renaming of lanes in place of the permutation step, the moves that undo it
  at the end of a loop body, the mixture of AND and OR in \<open>KHI\<close> and the tables of constants are all right.\<close>

theorem keccak_F_1600_correct:
  assumes "F \<in> {keccak_F_unroll0, keccak_F_unroll1, keccak_F_unroll2, keccak_F_unroll4, keccak_F_unroll6,
      keccak_F_unroll8, keccak_F_unroll12}" and "length s = 25"
  shows "F (keccak_flip s) = keccak_flip (keccak_f s)"
  using keccak_F_spec [OF assms(2), of F] keccak_unrolls_view [OF assms(1), of "flip_lanes keccak_M0 s"] assms(2)
  by (simp add: keccak_flip_lanes)

theorem keccak_F_1600_correct_witness:
  "keccak_F_unroll6 (keccak_flip (replicate 25 3)) = keccak_flip (keccak_f (replicate 25 3))"
  by (rule keccak_F_1600_correct) simp_all

lemma KECCAK_F_1600_flip: "length s = 25 \<Longrightarrow> KECCAK_F_1600 (flip_lanes keccak_M0 s) = flip_lanes keccak_M0 (keccak_f s)"
  by (rule keccak_F_spec) (simp_all add: KECCAK_F_1600_def keccak_unroll8_view)

section \<open>The sponge\<close>

lemma length_KECCAK_F_1600 [simp]: "length a = 25 \<Longrightarrow> length (KECCAK_F_1600 a) = 25"
  by (simp add: KECCAK_F_1600_def keccak_unroll8_view)

lemma keccak_INPUT_BUF_nth:
  assumes "n \<le> 25" and "length a = 25"
  shows "length (fold (\<lambda>i a. a[i := a ! i XOR sph_dec64le x (8 * i)]) [0..<n] a) = 25 \<and>
    (\<forall>i<25. fold (\<lambda>i a. a[i := a ! i XOR sph_dec64le x (8 * i)]) [0..<n] a ! i
      = (if i < n then a ! i XOR sph_dec64le x (8 * i) else a ! i))"
  using assms by (induction n) (auto simp: nth_list_update less_Suc_eq)

lemma keccak_INPUT_BUF_spec:
  assumes "length a = 25" and "length x = 8 * n" and "n \<le> 25"
  shows "keccak_INPUT_BUF (8 * n) x a = xor_block x a"
  using keccak_INPUT_BUF_nth [OF assms(3,1), of x] assms
  by (intro nth_equalityI) (auto simp: keccak_INPUT_BUF_def xor_block_def)

lemma xor_block_flip: "length a = 25 \<Longrightarrow> xor_block x (flip_lanes m a) = flip_lanes m (xor_block x a)"
  by (rule nth_equalityI) (auto simp: xor_block_def flip_lanes_def)

lemma keccak_block_flip:
  assumes "length a = 25" and "length x = lim" and "lim = 8 * n" and "n \<le> 25"
  shows "flip_lanes keccak_M0 (keccak_block lim x a) = absorb_block_f x (flip_lanes keccak_M0 a)"
proof -
  have "keccak_block lim x a = KECCAK_F_1600 (flip_lanes keccak_M0 (xor_block x (flip_lanes keccak_M0 a)))"
    using assms by (simp add: keccak_block_def keccak_INPUT_BUF_spec xor_block_flip)
  then show ?thesis using assms by (simp add: KECCAK_F_1600_flip absorb_block_f_def)
qed

lemma length_keccak_block [simp]:
  "length a = 25 \<Longrightarrow> length x = 8 * n \<Longrightarrow> n \<le> 25 \<Longrightarrow> length (keccak_block (8 * n) x a) = 25"
  by (simp add: keccak_block_def keccak_INPUT_BUF_spec)

lemma absorb_keccak:
  assumes "length a = 25" and "lim = 8 * n" and "n \<le> 25" and "0 < n"
  shows "length (fst (absorb lim (keccak_block lim) a xs)) = 25 \<and>
    absorb lim absorb_block_f (flip_lanes keccak_M0 a) xs
      = (flip_lanes keccak_M0 (fst (absorb lim (keccak_block lim) a xs)), snd (absorb lim (keccak_block lim) a xs))"
  using assms
proof (induction lim "keccak_block lim" a xs rule: absorb.induct)
  case (1 lim a xs)
  show ?case
  proof (cases "length xs < lim")
    case True
    then show ?thesis using 1 by (simp add: absorb_short)
  next
    case False
    with 1 show ?thesis
      by (subst absorb.simps, subst (2 3 4) absorb.simps) (simp add: keccak_block_flip [symmetric])
  qed
qed

text \<open>A context in the middle of a message, and its value: the lanes without the complements and the pending bytes.\<close>

definition keccak_mem :: "sph_keccak_context \<Rightarrow> bool" where
  "keccak_mem kc \<longleftrightarrow> length (k_buf kc) = 144 \<and> length (k_wide kc) = 25"

definition keccak_ok :: "nat \<Rightarrow> sph_keccak_context \<Rightarrow> bool" where
  "keccak_ok lim kc \<longleftrightarrow> keccak_mem kc \<and> k_ptr kc < lim"

definition keccak_abs :: "sph_keccak_context \<Rightarrow> u64 list \<times> byte list" where
  "keccak_abs kc = (keccak_flip (k_wide kc), take (k_ptr kc) (k_buf kc))"

lemma keccak_core_abs:
  assumes ok: "keccak_ok lim kc" and lim: "lim = 8 * n" "n \<le> 18" "0 < n"
  shows "\<exists>kc'. keccak_core kc data lim = Inr kc' \<and> keccak_ok lim kc'
    \<and> keccak_abs kc' = absorb lim absorb_block_f (fst (keccak_abs kc)) (snd (keccak_abs kc) @ data)"
proof (cases "length data < lim - k_ptr kc")
  case True
  with ok lim have "k_ptr kc + length data < lim" and "k_ptr kc + length data \<le> 144" by auto
  with True ok show ?thesis using take_memcpy_at [of "k_ptr kc" "k_buf kc" data]
    by (auto simp: keccak_core_def Let_def keccak_ok_def keccak_mem_def keccak_abs_def absorb_short)
next
  case False
  have len: "length (take lim (k_buf kc)) = lim" "k_ptr kc < lim" "length (k_wide kc) = 25" "length (k_buf kc) = 144"
    using ok lim by (auto simp: keccak_ok_def keccak_mem_def)
  from core_loop_absorb [OF len(2,1), of "keccak_block lim" "k_wide kc" data]
  obtain b p a where r: "core_loop lim (keccak_block lim) (take lim (k_buf kc)) (k_ptr kc) (k_wide kc) data = Inr (b, p, a)"
    "length b = lim" "p < lim" "absorb lim (keccak_block lim) (k_wide kc) (take (k_ptr kc) (k_buf kc) @ data) = (a, take p b)"
    using len by (auto simp: min_def)
  have "length a = 25" "absorb lim absorb_block_f (flip_lanes keccak_M0 (k_wide kc)) (take (k_ptr kc) (k_buf kc) @ data)
      = (flip_lanes keccak_M0 a, take p b)"
    using absorb_keccak [OF len(3) lim(1) _ lim(3), of "take (k_ptr kc) (k_buf kc) @ data"] lim r(4) by simp_all
  then show ?thesis using False r(1-3) len lim
    by (auto simp: keccak_core_def Let_def keccak_ok_def keccak_mem_def keccak_abs_def keccak_flip_lanes)
qed

lemma keccak_update: "lim = 8 * n \<Longrightarrow> n \<le> 18 \<Longrightarrow> 0 < n
  \<Longrightarrow> sph_update lim absorb_block_f (keccak_ok lim) keccak_abs (\<lambda>kc data. keccak_core kc data lim)"
  by unfold_locales (simp_all add: keccak_core_abs)

section \<open>Closing\<close>

lemma keccak_init_spec:
  assumes "keccak_mem kc" and "lim = 200 - out_size div 4" and "0 < lim"
  shows "keccak_ok lim (keccak_init kc out_size) \<and> keccak_abs (keccak_init kc out_size) = (replicate 25 0, [])"
proof -
  have "keccak_flip ((replicate 25 0)[1 := 0xFFFFFFFFFFFFFFFF, 2 := 0xFFFFFFFFFFFFFFFF, 8 := 0xFFFFFFFFFFFFFFFF,
       12 := 0xFFFFFFFFFFFFFFFF, 17 := 0xFFFFFFFFFFFFFFFF, 20 := 0xFFFFFFFFFFFFFFFF]) = replicate 25 0"
    by code_simp
  with assms show ?thesis by (simp add: keccak_init_def keccak_ok_def keccak_mem_def keccak_abs_def)
qed

definition keccak_digest :: "nat \<Rightarrow> nat \<Rightarrow> u64 list \<Rightarrow> byte list \<Rightarrow> byte list" where
  "keccak_digest lim d s r = squeeze d (absorb_block_f (r @ pad101 lim r) s)"

lemma concat_map_take: "concat (map f (take n xs)) = take (k * n) (concat (map f xs))"
  if "\<And>x. length (f x) = k"
  using that by (induction xs arbitrary: n) (auto simp: take_Cons' diff_mult_distrib2)

lemma squeeze_lanes:
  assumes "length a = 25" and "d \<le> 200"
  shows "take d (concat (map (\<lambda>i. sph_enc64le (a ! i)) [0..<(d + 7) div 8])) = squeeze d a"
proof -
  have "map (\<lambda>i. sph_enc64le (a ! i)) [0..<(d + 7) div 8] = map sph_enc64le (take ((d + 7) div 8) a)"
    using assms by (intro nth_equalityI) auto
  moreover have "d \<le> 8 * ((d + 7) div 8)" by presburger
  moreover have "length (sph_enc64le w) = 8" for w by (simp add: sph_enc64le_def)
  ultimately show ?thesis by (simp add: squeeze_def concat_map_take [of sph_enc64le 8] min_def)
qed

lemma keccak_close_spec:
  assumes ok: "keccak_ok lim kc" and lim: "lim = 8 * n" "n \<le> 18" "0 < n" "lim = 200 - (d * 8) div 4" and d: "d \<le> 200"
  shows "\<exists>kc'. keccak_close d lim kc 0 0 = Inr (keccak_digest lim d (fst (keccak_abs kc)) (snd (keccak_abs kc)), kc')
    \<and> keccak_ok lim kc' \<and> keccak_abs kc' = (replicate 25 0, [])"
proof -
  from lim have "sph_update lim absorb_block_f (keccak_ok lim) keccak_abs (\<lambda>kc data. keccak_core kc data lim)"
    by (intro keccak_update)
  note block = sph_update.core_block [OF this ok]
  define r where "r = snd (keccak_abs kc)"
  have p: "k_ptr kc < lim" and buf: "length (k_buf kc) = 144" using ok by (simp_all add: keccak_ok_def keccak_mem_def)
  then have r: "length r = k_ptr kc" using lim by (simp add: r_def keccak_abs_def)
  define tmp :: "byte list" where "tmp = (if k_ptr kc = lim - 1 then [0x81] else 0x01 # replicate (lim - k_ptr kc - 2) 0 @ [0x80])"
  have tmp: "tmp = pad101 lim r" using p r by (auto simp: tmp_def pad101_def Let_def)
  have "length r + length tmp = lim" using p r by (auto simp: tmp_def)
  with block [of tmp] obtain kc1 where kc1: "keccak_core kc tmp lim = Inr kc1" "keccak_ok lim kc1"
    "keccak_abs kc1 = (absorb_block_f (r @ tmp) (fst (keccak_abs kc)), [])" by (auto simp: r_def)
  have len: "length (k_wide kc1) = 25" "length (keccak_flip (k_wide kc1)) = 25" 
    using kc1(2) by (simp_all add: keccak_ok_def keccak_mem_def keccak_flip_lanes)
  have fl: "keccak_flip (k_wide kc1) = absorb_block_f (r @ tmp) (fst (keccak_abs kc))" using kc1(3) by (simp add: keccak_abs_def)
  have "keccak_close d lim kc 0 0 = Inr (squeeze d (keccak_flip (k_wide kc1)),
      keccak_init (kc1\<lparr>k_wide := keccak_flip (k_wide kc1)\<rparr>) (d * 8))"
    using kc1(1) d len by (cases "k_ptr kc = lim - 1") (simp_all add: keccak_close_def tmp_def squeeze_lanes)
  moreover have "keccak_mem (kc1\<lparr>k_wide := keccak_flip (k_wide kc1)\<rparr>)"
    using kc1(2) len by (simp add: keccak_ok_def keccak_mem_def)
  ultimately show ?thesis using keccak_init_spec [OF _ lim(4)] lim
    by (auto simp: keccak_digest_def fl tmp r_def)
qed

lemma keccak_hash:
  assumes "lim = 8 * n" "n \<le> 18" "0 < n" "lim = 200 - (d * 8) div 4" "d \<le> 200" and os: "os = d * 8"
  shows "sph_hash lim absorb_block_f (keccak_ok lim) keccak_abs (\<lambda>kc data. keccak_core kc data lim)
    keccak_mem (replicate 25 0) (\<lambda>kc. keccak_init kc os) (\<lambda>kc. keccak_close d lim kc 0 0) (keccak_digest lim d)"
  using keccak_update [OF assms(1-3)] assms keccak_close_spec [OF _ assms(1-5)] keccak_init_spec [OF _ assms(4)]
  by (simp add: sph_hash_def sph_hash_axioms_def os)

lemma absorb_mod:
  assumes "0 < B"
  shows "length (snd (absorb B p s xs)) = length xs mod B"
  using assms by (induction B p s xs rule: absorb.induct) (simp add: absorb.simps le_mod_geq)

lemma keccak_sponge_digest:
  assumes "0 < lim"
  shows "keccak_sponge lim d m =
    (case absorb lim absorb_block_f (replicate 25 0) m of (s, r) \<Rightarrow> keccak_digest lim d s r)"
proof -
  obtain s r where a: "absorb lim absorb_block_f (replicate 25 0) m = (s, r)" by force
  have r: "length r = length m mod lim" using absorb_mod [OF assms, of absorb_block_f "replicate 25 0" m] a by simp
  then have pad: "pad101 lim m = pad101 lim r" using assms by (simp add: pad101_def)
  have "length (r @ pad101 lim r) = lim"
    using r mod_less_divisor [OF assms, of "length m"] by (auto simp: pad101_def Let_def)
  then have "absorb lim absorb_block_f s ((r @ pad101 lim r) @ []) = (absorb_block_f (r @ pad101 lim r) s, [])"
    using assms by (subst absorb_block) (simp_all add: absorb_short)
  then have "absorb lim absorb_block_f (replicate 25 0) (m @ pad101 lim m) = (absorb_block_f (r @ pad101 lim r) s, [])"
    using absorb_append [OF assms, of absorb_block_f "replicate 25 0" m "pad101 lim m"] a pad by simp
  then show ?thesis by (simp add: keccak_sponge_def keccak_digest_def a)
qed

interpretation keccak224: sph_hash 144 absorb_block_f "keccak_ok 144" keccak_abs sph_keccak224 keccak_mem
  "replicate 25 0" sph_keccak224_init sph_keccak224_close "keccak_digest 144 28"
  unfolding sph_keccak224_def [abs_def] sph_keccak224_init_def [abs_def] sph_keccak224_close_def [abs_def] sph_keccak224_addbits_and_close_def
  by (rule keccak_hash [of 144 18]) simp_all

text \<open>Keccak-224 of a message handed over in any pieces is the digest of the sponge specification: the
  concatenation is padded to the rate of 144 bytes, absorbed by the permutation on uncomplemented lanes, and the
  first 28 bytes are squeezed out; the context is left initialised for the next message.\<close>

theorem keccak224_correct:
  assumes "keccak_mem c"
  shows "\<exists>c'. bindE (foldE (\<lambda>d c. sph_keccak224 c d) ds (sph_keccak224_init c)) sph_keccak224_close
      = Inr (keccak_sponge 144 28 (concat ds), c')
    \<and> keccak_ok 144 c' \<and> keccak_abs c' = (replicate 25 0, [])"
  using keccak224.hash_chunks [OF assms, of ds] by (simp add: keccak_sponge_digest keccak224.hash_of_def)

theorem keccak224_correct_witness:
  "\<exists>c'. bindE (foldE (\<lambda>d c. sph_keccak224 c d) [[1, 2], [3]]
        (sph_keccak224_init \<lparr>k_buf = replicate 144 0, k_ptr = 0, k_lim = 0, k_wide = replicate 25 7\<rparr>)) sph_keccak224_close
      = Inr (keccak_sponge 144 28 (concat [[1, 2], [3]]), c')
    \<and> keccak_ok 144 c' \<and> keccak_abs c' = (replicate 25 0, [])"
  by (rule keccak224_correct) (simp add: keccak_mem_def)

interpretation keccak256: sph_hash 136 absorb_block_f "keccak_ok 136" keccak_abs sph_keccak256 keccak_mem
  "replicate 25 0" sph_keccak256_init sph_keccak256_close "keccak_digest 136 32"
  unfolding sph_keccak256_def [abs_def] sph_keccak256_init_def [abs_def] sph_keccak256_close_def [abs_def] sph_keccak256_addbits_and_close_def
  by (rule keccak_hash [of 136 17]) simp_all

text \<open>Keccak-256 of a message handed over in any pieces is the digest of the sponge specification: the
  concatenation is padded to the rate of 136 bytes, absorbed by the permutation on uncomplemented lanes, and the
  first 32 bytes are squeezed out; the context is left initialised for the next message.\<close>

lemma keccak256_correct:
  assumes "keccak_mem c"
  shows "\<exists>c'. bindE (foldE (\<lambda>d c. sph_keccak256 c d) ds (sph_keccak256_init c)) sph_keccak256_close
      = Inr (keccak_sponge 136 32 (concat ds), c')
    \<and> keccak_ok 136 c' \<and> keccak_abs c' = (replicate 25 0, [])"
  using keccak256.hash_chunks [OF assms, of ds] by (simp add: keccak_sponge_digest keccak256.hash_of_def)

theorem keccak256_correct_witness:
  "\<exists>c'. bindE (foldE (\<lambda>d c. sph_keccak256 c d) [[1, 2], [3]]
        (sph_keccak256_init \<lparr>k_buf = replicate 144 0, k_ptr = 0, k_lim = 0, k_wide = replicate 25 7\<rparr>)) sph_keccak256_close
      = Inr (keccak_sponge 136 32 (concat [[1, 2], [3]]), c')
    \<and> keccak_ok 136 c' \<and> keccak_abs c' = (replicate 25 0, [])"
  by (rule keccak256_correct) (simp add: keccak_mem_def)

interpretation keccak384: sph_hash 104 absorb_block_f "keccak_ok 104" keccak_abs sph_keccak384 keccak_mem
  "replicate 25 0" sph_keccak384_init sph_keccak384_close "keccak_digest 104 48"
  unfolding sph_keccak384_def [abs_def] sph_keccak384_init_def [abs_def] sph_keccak384_close_def [abs_def] sph_keccak384_addbits_and_close_def
  by (rule keccak_hash [of 104 13]) simp_all

text \<open>Keccak-384 of a message handed over in any pieces is the digest of the sponge specification: the
  concatenation is padded to the rate of 104 bytes, absorbed by the permutation on uncomplemented lanes, and the
  first 48 bytes are squeezed out; the context is left initialised for the next message.\<close>

theorem keccak384_correct:
  assumes "keccak_mem c"
  shows "\<exists>c'. bindE (foldE (\<lambda>d c. sph_keccak384 c d) ds (sph_keccak384_init c)) sph_keccak384_close
      = Inr (keccak_sponge 104 48 (concat ds), c')
    \<and> keccak_ok 104 c' \<and> keccak_abs c' = (replicate 25 0, [])"
  using keccak384.hash_chunks [OF assms, of ds] by (simp add: keccak_sponge_digest keccak384.hash_of_def)

theorem keccak384_correct_witness:
  "\<exists>c'. bindE (foldE (\<lambda>d c. sph_keccak384 c d) [[1, 2], [3]]
        (sph_keccak384_init \<lparr>k_buf = replicate 144 0, k_ptr = 0, k_lim = 0, k_wide = replicate 25 7\<rparr>)) sph_keccak384_close
      = Inr (keccak_sponge 104 48 (concat [[1, 2], [3]]), c')
    \<and> keccak_ok 104 c' \<and> keccak_abs c' = (replicate 25 0, [])"
  by (rule keccak384_correct) (simp add: keccak_mem_def)

interpretation keccak512: sph_hash 72 absorb_block_f "keccak_ok 72" keccak_abs sph_keccak512 keccak_mem
  "replicate 25 0" sph_keccak512_init sph_keccak512_close "keccak_digest 72 64"
  unfolding sph_keccak512_def [abs_def] sph_keccak512_init_def [abs_def] sph_keccak512_close_def [abs_def] sph_keccak512_addbits_and_close_def
  by (rule keccak_hash [of 72 9]) simp_all

text \<open>C18: Keccak-512 of a message handed over in any pieces is the digest of the sponge specification: the
  concatenation is padded to the rate of 72 bytes, absorbed by the permutation on uncomplemented lanes, and the
  first 64 bytes are squeezed out; the context is left initialised for the next message.\<close>

theorem keccak512_correct:
  assumes "keccak_mem c"
  shows "\<exists>c'. bindE (foldE (\<lambda>d c. sph_keccak512 c d) ds (sph_keccak512_init c)) sph_keccak512_close
      = Inr (keccak_sponge 72 64 (concat ds), c')
    \<and> keccak_ok 72 c' \<and> keccak_abs c' = (replicate 25 0, [])"
  using keccak512.hash_chunks [OF assms, of ds] by (simp add: keccak_sponge_digest keccak512.hash_of_def)

theorem keccak512_correct_witness:
  "\<exists>c'. bindE (foldE (\<lambda>d c. sph_keccak512 c d) [[1, 2], [3]]
        (sph_keccak512_init \<lparr>k_buf = replicate 144 0, k_ptr = 0, k_lim = 0, k_wide = replicate 25 7\<rparr>)) sph_keccak512_close
      = Inr (keccak_sponge 72 64 (concat [[1, 2], [3]]), c')
    \<and> keccak_ok 72 c' \<and> keccak_abs c' = (replicate 25 0, [])"
  by (rule keccak512_correct) (simp add: keccak_mem_def)

end
