(* ===== verification/Amount.thy ===== *)
theory Amount
  imports Chain_Types
begin

text \<open>
  Compressed amounts (\<open>CTxOutCompressor::CompressAmount\<close> and \<open>DecompressAmount\<close> of \<open>core.cpp\<close>): up to nine trailing zeros
  are stored as an exponent. The arithmetic is that of \<open>uint64_t\<close> and wraps around.
\<close>

section \<open>The code\<close>

function strip_zeros :: "u64 \<Rightarrow> nat \<Rightarrow> u64 \<times> nat" where
  "strip_zeros n e = (if n mod 10 = 0 \<and> e < 9 then strip_zeros (n div 10) (e + 1) else (n, e))"
  by pat_completeness auto
termination
  by (relation "measure (\<lambda>(n, e). 9 - e)") auto

declare strip_zeros.simps [simp del]

definition CompressAmount :: "u64 \<Rightarrow> u64 result" where
  "CompressAmount n =
     (if n = 0 then Inr 0
      else case strip_zeros n 0 of (n, e) \<Rightarrow>
        if e < 9 then
          (let d = n mod 10 in
           if \<not> (d \<ge> 1 \<and> d \<le> 9) then Inl AssertFailed
           else Inr (1 + ((n div 10) * 9 + d - 1) * 10 + of_nat e))
        else Inr (1 + (n - 1) * 10 + 9))"

definition DecompressAmount :: "u64 \<Rightarrow> u64" where
  "DecompressAmount x =
     (if x = 0 then 0
      else
        let x = x - 1; e = unat (x mod 10); x = x div 10;
            n = (if e < 9 then let d = x mod 9 + 1 in (x div 9) * 10 + d else x + 1)
        in ((\<lambda>n. n * 10) ^^ e) n)"

section \<open>Round trip\<close>

lemma strip_zeros_spec:
  "strip_zeros n e = (m, e') \<Longrightarrow> n \<noteq> 0 \<Longrightarrow> e \<le> 9 \<Longrightarrow>
    e \<le> e' \<and> e' \<le> 9 \<and> m \<noteq> 0 \<and> unat n = unat m * 10 ^ (e' - e) \<and> (e' < 9 \<longrightarrow> unat m mod 10 \<noteq> 0)"
proof (induction n e rule: strip_zeros.induct)
  case (1 n e)
  show ?case
  proof (cases "n mod 10 = 0 \<and> e < 9")
    case True
    then have r: "strip_zeros (n div 10) (e + 1) = (m, e')" using "1.prems"(1) by (subst (asm) strip_zeros.simps) simp
    have "unat n mod 10 = unat (n mod 10)" by (simp add: unat_mod)
    with True have z: "unat n = unat (n div 10) * 10" by (simp add: unat_div) presburger
    with "1.prems"(2) have "n div 10 \<noteq> 0" by (metis mult_zero_left unat_0 unat_eq_0)
    from "1.IH" [OF True r this] True have IH: "e + 1 \<le> e'" "e' \<le> 9" "m \<noteq> 0" "unat (n div 10) = unat m * 10 ^ (e' - (e + 1))"
      "e' < 9 \<longrightarrow> unat m mod 10 \<noteq> 0" by auto
    then have "e' - e = Suc (e' - (e + 1))" by simp
    then have "unat n = unat m * 10 ^ (e' - e)" using z IH(4) by simp
    with IH show ?thesis by simp
  next
    case False
    then have "m = n" "e' = e" using "1.prems"(1) by (subst (asm) strip_zeros.simps, simp)+
    moreover have "unat n mod 10 = unat (n mod 10)" by (simp add: unat_mod)
    ultimately show ?thesis using False "1.prems"(2,3) by (auto simp: unat_eq_0)
  qed
qed

lemma times_ten: "((\<lambda>n :: u64. n * 10) ^^ e) n = n * 10 ^ e"
  by (induction e) (simp_all add: ac_simps)

lemma unat_of_small: "k < 2 ^ 64 \<Longrightarrow> unat (word_of_nat k :: u64) = k"
  by (simp add: unat_of_nat)

lemma word_div_nat: "k < 2 ^ 64 \<Longrightarrow> c < 2 ^ 64 \<Longrightarrow> word_of_nat k div word_of_nat c = (word_of_nat (k div c) :: u64)"
  by (rule word_unat_eq_iff [THEN iffD2]) (simp add: unat_div unat_of_small div_le_dividend [THEN le_less_trans])

lemma word_mod_nat: "k < 2 ^ 64 \<Longrightarrow> c < 2 ^ 64 \<Longrightarrow> word_of_nat k mod word_of_nat c = (word_of_nat (k mod c) :: u64)"
  by (rule word_unat_eq_iff [THEN iffD2]) (simp add: unat_mod unat_of_small mod_less_eq_dividend [THEN le_less_trans])

text \<open>Decoding a code given by its exponent and its remaining part.\<close>

lemma DecompressAmount_code:
  assumes "Z * 10 + e + 1 < 2 ^ 64" and "e \<le> 9"
  shows "DecompressAmount (word_of_nat (Z * 10 + e + 1))
    = word_of_nat ((if e < 9 then (Z div 9) * 10 + (Z mod 9 + 1) else Z + 1) * 10 ^ e)"
proof -
  have l: "Z * 10 + e < 2 ^ 64" "Z < 2 ^ 64" using assms(1) by auto
  have nz: "(word_of_nat (Z * 10 + e + 1) :: u64) \<noteq> 0" using unat_of_small [OF assms(1)] by (metis add_is_0 unat_0 zero_neq_one)
  have x1: "(word_of_nat (Z * 10 + e + 1) :: u64) - 1 = word_of_nat (Z * 10 + e)" by simp
  have me: "unat ((word_of_nat (Z * 10 + e) :: u64) mod 10) = e"
    using word_mod_nat [OF l(1), of 10] assms(2) by (simp add: unat_of_small)
  have dz: "(word_of_nat (Z * 10 + e) :: u64) div 10 = word_of_nat Z"
    using word_div_nat [OF l(1), of 10] assms(2) by simp
  have "(word_of_nat Z :: u64) mod 9 = word_of_nat (Z mod 9)" "(word_of_nat Z :: u64) div 9 = word_of_nat (Z div 9)"
    using word_mod_nat [OF l(2), of 9] word_div_nat [OF l(2), of 9] by simp_all
  then show ?thesis unfolding DecompressAmount_def Let_def x1 me dz times_ten using nz by (simp add: ac_simps)
qed


text \<open>C28: Every amount below 2 to the 60, in particular every valid amount of money, is compressed without a failed
  assertion and decompressed to the same amount.\<close>

theorem amount_roundtrip:
  assumes "unat n < 2 ^ 60"
  shows "\<exists>x. CompressAmount n = Inr x \<and> DecompressAmount x = n"
proof (cases "n = 0")
  case True
  then show ?thesis by (simp add: CompressAmount_def DecompressAmount_def)
next
  case False
  obtain m e where s: "strip_zeros n 0 = (m, e)" by (cases "strip_zeros n 0")
  define M where "M = unat m"
  from strip_zeros_spec [OF s False] have e: "e \<le> 9" and nz: "0 < M" and n: "unat n = M * 10 ^ e" and d: "e < 9 \<longrightarrow> M mod 10 \<noteq> 0"
    by (auto simp: M_def unat_gt_0)
  have M: "M < 2 ^ 60" and m: "m = word_of_nat M" using assms n by (auto simp: M_def intro: le_less_trans [rotated])
  define Z where "Z = (if e < 9 then (M div 10) * 9 + (M mod 10 - 1) else M - 1)"
  have Z: "Z * 10 + e + 1 < 2 ^ 64" using M e unfolding Z_def by (auto split: if_splits)
  have md: "m mod 10 = word_of_nat (M mod 10)" "m div 10 = word_of_nat (M div 10)"
    using word_mod_nat [of M 10] word_div_nat [of M 10] M m by simp_all
  have "CompressAmount n = Inr (word_of_nat (Z * 10 + e + 1))"
  proof (cases "e < 9")
    case True
    have "unat (m mod 10) = M mod 10" by (simp add: M_def unat_mod)
    then have "1 \<le> m mod 10 \<and> m mod 10 \<le> 9" using d True by (simp add: word_le_nat_alt)
    moreover obtain k where "M mod 10 = Suc k" using d True by (cases "M mod 10") auto
    then have "m div 10 * 9 + m mod 10 - 1 = word_of_nat Z" using True unfolding md Z_def by simp
    ultimately show ?thesis using False s True by (simp add: CompressAmount_def)
  next
    case e9: False
    have "m - 1 = word_of_nat Z" using nz e9 by (simp add: m Z_def of_nat_diff)
    with False s e e9 show ?thesis by (simp add: CompressAmount_def)
  qed
  moreover have "DecompressAmount (word_of_nat (Z * 10 + e + 1)) = n"
  proof -
    have "(if e < 9 then (Z div 9) * 10 + (Z mod 9 + 1) else Z + 1) = M"
    proof (cases "e < 9")
      case True
      have "M mod 10 - 1 < 9" by simp
      then have "Z div 9 = M div 10" "Z mod 9 = M mod 10 - 1" using True by (simp_all add: Z_def)
      with True d show ?thesis by simp
    qed (use nz in \<open>simp add: Z_def\<close>)
    then show ?thesis unfolding DecompressAmount_code [OF Z e] by (simp flip: n)
  qed
  ultimately show ?thesis by blast
qed

theorem amount_roundtrip_witness: "\<exists>x. CompressAmount 5000000000 = Inr x \<and> DecompressAmount x = 5000000000"
  by (rule amount_roundtrip) simp

end
