(* ===== verification/Spec2Isabelle.thy ===== *)
theory Spec2Isabelle
  imports Chain_Node_Example Cubehash Blake Keccak_Correct Amount
begin

text \<open>
  A verification of DSValue, a node of a Bitcoin-like currency with a lottery built into its consensus rules. Bets are transaction
  outputs; their stakes fill a pool kept in the block headers; every sixtieth block may draw a lottery from a published key and
  pay the winners from the pool with the outputs of its coinbase. Blocks are mined with a chain of eleven hash functions. Sources
  are named relative to \<open>src/src\<close>.

  \<^bold>\<open>The parts of the program and the theories that model them.\<close>

  \<^item> Shared vocabulary. \<open>Prelude\<close>: machine types, the faults a C++ operation can end in (\<open>c_fault\<close>: a failed assertion, signed overflow, a division by zero,
    an access out of bounds, unreadable data), checked arithmetic \<open>i32\<close>, \<open>i64\<close>, sequencing \<open>bindE\<close>, \<open>foldE\<close>.
  \<^item> Bets (\<open>lotto/CBet*\<close>). \<open>Lotto_Bet\<close>: wire form, validation and ticket counting of the two games; \<open>Lotto_Tickets\<close> and
    \<open>Lotto_Tickets_Mulity\<close>: the counting functions equal the number of tickets of a combinatorial definition.
  \<^item> The draw and the pay-out (\<open>lotto/CLotto.cpp\<close>). \<open>Lotto_Draw\<close>: lucky numbers from iterated SHA-256; \<open>Lotto_Reward\<close>: the reward scheme
    and the distribution of the pool; \<open>Lotto_Accept\<close>, \<open>Lotto_Correct\<close>: an accepted bet is paid for exactly what it contains, prizes
    never exceed the pool, the draw ends.
  \<^item> Scripts (\<open>script.h\<close>, \<open>script.cpp\<close>), as far as bets, sigop counting and height checks read and write them: \<open>Lotto_Script\<close>, \<open>Chain_Check\<close>.
  \<^item> Serialization (\<open>serialize.h\<close>). \<open>Serialize\<close>: integers, compact sizes, variable-length integers, vectors and maps. The locale \<open>codec\<close> is
    the contract of a format (what is written is read back, whatever follows); it is interpreted for every format of the chain.
  \<^item> Transactions, blocks, headers (\<open>core.h\<close>, \<open>core.cpp\<close>, \<open>lotto/CLottoHeader.*\<close>). \<open>Chain_Types\<close>: data, wire format, hashes; \<open>Amount\<close>: compressed
    amounts; \<open>Merkle\<close>, \<open>Merkle_Partial\<close>: Merkle trees, branches, and the partial trees of light clients (\<open>main.h\<close>, \<open>main.cpp\<close>).
  \<^item> Lottery rules of the chain (\<open>core.cpp\<close>, \<open>main.cpp\<close>, \<open>miner.cpp\<close>). \<open>Chain_Tx\<close>: classification of outputs, stakes, fee; \<open>Double_Round\<close>: the
    rounding of the fee's \<open>double\<close>; \<open>Chain_Index\<close>, \<open>Chain_Lotto\<close>: keys, draw, \<open>CheckLottoResult\<close> and the lottery part of \<open>CreateNewBlock\<close>.
  \<^item> Proof of work (\<open>main.cpp\<close>, \<open>bignum.h\<close>). \<open>Chain_Work\<close>: compact targets, \<open>CheckProofOfWork\<close>, \<open>DarkGravityWave3\<close>.
  \<^item> The coins (\<open>coins.cpp\<close>, \<open>coins.h\<close>, \<open>txdb.cpp\<close>, \<open>main.cpp\<close>). \<open>Coins\<close>: unspent outputs, database, caches; the locale \<open>coins_view\<close> is the contract
    of a view and every cache is again a view, so caches may be stacked; \<open>Coins_Update\<close>: \<open>UpdateCoins\<close>, \<open>ApplyTxInUndo\<close>, \<open>DisconnectBlock\<close>.
  \<^item> Validation of transactions and blocks (\<open>main.cpp\<close>, \<open>coins.cpp\<close>). \<open>Chain_Check\<close>: \<open>CheckTransaction\<close>, \<open>IsFinalTx\<close>, \<open>CheckBlock\<close>, \<open>GetBlockValue\<close>;
    \<open>Chain_Connect\<close>: \<open>CheckInputs\<close>, \<open>ConnectBlock\<close>; \<open>Chain_Supply\<close>: the effect of a block on the money supply; \<open>Chain_Supply_Example\<close>: a
    concrete chain on which the rules accept.
  \<^item> The memory pool (\<open>txmempool.cpp\<close>, \<open>main.cpp\<close>). \<open>Fuel\<close>: sequencing for operations that may fail and carry fuel; \<open>Mempool\<close>: the pool, its indexes,
    recursive removal; \<open>Mempool_Accept\<close>: \<open>GetMinFee\<close>, \<open>AcceptToMemoryPool\<close>.
  \<^item> The choice of the chain (\<open>main.h\<close>, \<open>main.cpp\<close>). \<open>Chain_Select\<close>: \<open>CChain\<close>, the order of the candidates, \<open>FindMostWorkChain\<close>; \<open>Chain_Best\<close>: what the search
    leaves; \<open>Chain_Activate\<close>: the loops of \<open>ActivateBestChain\<close> over any two operations that connect and disconnect a block; \<open>Chain_Safe\<close>: the
    locale \<open>tip_operations\<close>, the contract of these two, with what activation keeps under it, and when activation does not end; \<open>Chain_Locator\<close>: block locators.
  \<^item> The node (\<open>main.cpp\<close>, \<open>checkpoints.cpp\<close>). \<open>Chain_Tip\<close>: the state of a node and \<open>ConnectTip\<close>, \<open>DisconnectTip\<close>, \<open>ActivateBestChain\<close>, \<open>AddToBlockIndex\<close>;
    \<open>Coins_Chain\<close>: the coins after a block as a function of the coins before it; \<open>Chain_Node\<close>: the coins of a chain, and the two
    operations meet the contract; \<open>Chain_Btc\<close>: \<open>CheckLastBlockState\<close>, which takes blocks with an outdated Bitcoin hash off the active chain;
    \<open>Chain_Accept\<close>: \<open>AcceptBlock\<close> and the states a node comes to; \<open>Chain_Process\<close>: \<open>ProcessBlock\<close> and the orphan blocks; \<open>Chain_Node_Example\<close>:
    nodes on which the theorems are used.
  \<^item> Hash functions (\<open>blockhash/*.c\<close>). \<open>Sph_Types\<close>: words and byte order; \<open>Sph_Stream\<close>: the block buffer every function shares, with the
    locales \<open>sph_update\<close> and \<open>sph_hash\<close> (a stream fed in any chunks is the hash of the concatenation); \<open>Cubehash\<close>, \<open>Blake_Spec\<close> and
    \<open>Blake\<close>, \<open>Keccak\<close>, \<open>Keccak_Spec\<close> and \<open>Keccak_Correct\<close>: the code against a specification written independently of it; for BLAKE this is the mode of
    operation (padding, counters, chaining) over the compression function and the initial values of the code.

  \<^bold>\<open>How the parts interact.\<close> A transaction carries bets in its outputs; \<open>Chain_Tx\<close> sums their stakes for the pool that \<open>Chain_Lotto\<close>
  checks in the header of every block. \<open>ConnectBlock\<close> runs \<open>CheckBlock\<close>, then \<open>CheckLottoResult\<close>, then spends the inputs and creates the
  outputs in a cache over the coins, and records undo data with which \<open>DisconnectBlock\<close> takes the block back. Blocks are
  identified by a hash that reads the header in the wire format of \<open>Serialize\<close>. \<open>ProcessBlock\<close> is what a
  block from the network meets: it first follows the Bitcoin chain, checks the block, keeps it as an orphan if its predecessor is not known, and otherwise
  accepts it and then the orphans that waited for it. \<open>AcceptBlock\<close> puts a block into the index and into the set of
  candidates; \<open>ActivateBestChain\<close> then takes the active chain back to the fork and forward to the best candidate, one block at a
  time. \<open>ConnectTip\<close> flushes the cache into the coins of the node and takes the transactions of the block, and what
  conflicts with them, out of the memory pool; \<open>DisconnectTip\<close> reads the undo data and puts the transactions back.

  \<^bold>\<open>What the theorems show.\<close> For the lottery: bets survive their wire form, the validity checks mean what the rules say, no draw pays
  out more than the pool, a block made by the miner passes the check of the validator, and along a chain of accepted blocks the pool
  plus what was paid equals what was staked and covers it, as long as the amounts stay where \<open>double\<close> arithmetic is exact (\<open>Chain_Check\<close>). For the chain: the wire formats are injective and reversible, a partial Merkle tree with the right number of transactions
  proves only transactions of its block, disconnecting a block undoes connecting it, flushing a cache makes the
  database what the cache showed, a connected block creates at most subsidy and prizes, and the supply of coins and pool is
  bounded by the genesis pool and the subsidies, both provided that bets carry the mark that makes them unspendable. For the node: whatever was connected
  and disconnected, the coins are those of the active chain; the tree of blocks and the memory pool stay well-formed; an orphan
  waits only for a block that is not known; what is left of the active chain after the Bitcoin check agrees with the Bitcoin chain; a locator finds a
  block close to the fork; activation
  ends with a chain that no valid candidate surpasses, provided that blocks are accepted or marked as failed by fixed verdicts and that disconnecting
  succeeds, and does not end in the states \<open>stuck\<close>, where a refused block is not marked. For the hash library: the optimised code computes the specified
  permutations and the streaming interface computes the specified hash of the message. Where the code departs from what it
  means to do, the departure is a theorem of its own, with an input that shows it.

  \<^bold>\<open>Conventions.\<close> Signed arithmetic of the code is checked: overflow is the fault \<open>IntOverflow\<close>, never a wrapped value; unsigned
  arithmetic is on words. A value of type \<open>'a result\<close> is \<open>Inl\<close> of a fault or \<open>Inr\<close> of a value; a rejected block is a value (\<open>verdict\<close>)
  and no fault. A pointer to an entry of the block index is the hash that owns it in \<open>mapBlockIndex\<close>.

  \<^bold>\<open>Fuel.\<close> Loops whose end depends on a hash carry fuel, and running out of it is \<open>None\<close>: the draw of the lucky numbers, and what calls it.
  \<open>Lotto_Correct\<close> shows that enough fuel exists whenever the hash values eventually contain the numbers that are missing. Removal from the memory pool
  recurses along dependent transactions; fuel above the longest chain of them is enough (\<open>Mempool\<close>). Activation retries after every
  refused block; two rounds per known block and two more are enough if refused blocks are marked (\<open>Chain_Activate\<close>), and no
  fuel is enough in the states \<open>stuck\<close> of \<open>Chain_Safe\<close>. The scan of the candidates in \<open>CheckLastBlockState\<close> needs at most
  quadratically many steps in their number (\<open>Chain_Btc\<close>), the work queue of \<open>ProcessBlock\<close> at most one round per orphan and one more, and the walks along
  orphans end when no orphan is its own ancestor (\<open>Chain_Process\<close>). A loop along \<open>pprev\<close> ends because heights fall. Every other
  loop is a structural or a well-founded recursion.

  \<^bold>\<open>Parameters.\<close> SHA-256 and the eleven-fold block hash \<open>Hash9\<close>, the script interpreter \<open>VerifyScript\<close>, the published lottery keys and the file
  they come from, the index of Bitcoin headers, the checkpoints, the clock and what is on disk are arguments of the
  definitions that use them. Hypotheses on them are stated where they are needed: no collision between the hashes that
  occur, or an entry on disk that is the block it was written for.

  \<^bold>\<open>Not modelled.\<close> The remaining eight hash functions; the script interpreter and signatures (OpenSSL), and the script templates of the relay
  policy; the reaction to a new Bitcoin tip (\<open>CheckActiveChain\<close>), loading the index at start and the layout of the
  block files; relaying an accepted block, with the reads of the tip it contains, the log line of \<open>InvalidChainFound\<close> that reads the tip, and the notification of the wallet
  and the flush at the end of \<open>AddToBlockIndex\<close>; block assembly outside the lottery; the sanity check of the memory pool; the encrypted key file; the wallet, the network and the RPC layer, which are threads,
  sockets, Berkeley DB and JSON plumbing; JSON Spirit, which is a vendored parser. Configurations that the build does not select
  (32-bit Keccak, the retarget rule outside \<open>BETCOIN\<close>) are left out, and the interval of the lottery has its default value of 60 blocks, which
  the option \<open>-intervallotto\<close> can change.
\<close>

end
